(* ===== verification/Prelude.thy ===== *)
theory Prelude
  imports Main "HOL-Library.Multiset" "HOL-Library.AList"
begin

text \<open>
  Shared material of the development: the Python exceptions that the modelled code raises as a
  datatype, results as a sum type, the loop combinator over such results, the integer helpers of
  \<^verbatim>\<open>vllm/utils/math_utils.py\<close> and the parts of Python's list semantics (negative indices,
  clamped slices) that HOL's total functions do not have.
\<close>

section \<open>Exceptions and results\<close>

text \<open>
  \<open>NoReturn\<close> is not an exception: it marks a call that does not return, where a caller's model
  joins the two kinds of failure (\<open>run_res\<close>).
\<close>

datatype py_error =
    AssertionError
  | ValueError
  | IndexError
  | KeyError
  | RuntimeError
  | NotImplementedError
  | ZeroDivisionError
  | OverflowError
  | StopIteration
  | TypeError
  | NoReturn

type_synonym 'a res = "py_error + 'a"

definition res_bind :: "'a res \<Rightarrow> ('a \<Rightarrow> 'b res) \<Rightarrow> 'b res" where
  "res_bind m f = (case m of Inl e \<Rightarrow> Inl e | Inr x \<Rightarrow> f x)"

definition require :: "bool \<Rightarrow> py_error \<Rightarrow> 'a res \<Rightarrow> 'a res" where
  "require c e k = (if c then k else Inl e)"

definition run_res :: "'a res option \<Rightarrow> 'a res" where
  "run_res m = (case m of None \<Rightarrow> Inl NoReturn | Some r \<Rightarrow> r)"

fun fold_res :: "('x \<Rightarrow> 's \<Rightarrow> 's res) \<Rightarrow> 'x list \<Rightarrow> 's \<Rightarrow> 's res" where
  "fold_res f [] s = Inr s"
| "fold_res f (x # xs) s = res_bind (f x s) (fold_res f xs)"

text \<open>Evaluation looks at the continuation of a bind only when the first part has a value.\<close>

declare res_bind_def [code_unfold] require_def [code_unfold]

named_theorems res_simps "evaluation and inversion of results"

lemma res_bind_Inl [simp]: "res_bind (Inl e) f = Inl e"
  by (simp add: res_bind_def)

lemma res_bind_Inr [simp]: "res_bind (Inr x) f = f x"
  by (simp add: res_bind_def)

lemma res_bind_eq_Inr [res_simps]:
  "res_bind m f = Inr y \<longleftrightarrow> (\<exists>x. m = Inr x \<and> f x = Inr y)"
  by (cases m) simp_all

lemma res_bind_eq_Inl [res_simps]:
  "res_bind m f = Inl e \<longleftrightarrow> m = Inl e \<or> (\<exists>x. m = Inr x \<and> f x = Inl e)"
  by (cases m) auto

lemma res_bind_assoc: "res_bind (res_bind m f) g = res_bind m (\<lambda>x. res_bind (f x) g)"
  by (cases m) simp_all

lemma res_bind_cong [fundef_cong]:
  "m = m' \<Longrightarrow> (\<And>x. m' = Inr x \<Longrightarrow> f x = f' x) \<Longrightarrow> res_bind m f = res_bind m' f'"
  by (cases m') simp_all

lemma run_res_simps [simp]: "run_res None = Inl NoReturn" "run_res (Some r) = r"
  by (simp_all add: run_res_def)

lemma require_True [simp]: "require True e k = k"
  by (simp add: require_def)

lemma require_False [simp]: "require False e k = Inl e"
  by (simp add: require_def)

lemma require_eq_Inr [res_simps]: "require c e k = Inr y \<longleftrightarrow> c \<and> k = Inr y"
  by (simp add: require_def)

text \<open>
  The loop rules: an invariant kept by every successful iteration holds after a successful loop,
  and a loop whose every iteration succeeds under the invariant succeeds.
\<close>

lemma fold_res_append:
  "fold_res f (xs @ ys) s = res_bind (fold_res f xs s) (fold_res f ys)"
proof (induction xs arbitrary: s)
  case Nil
  then show ?case by simp
next
  case (Cons x xs)
  then show ?case by (cases "f x s") simp_all
qed

lemma fold_res_invariant:
  assumes "fold_res f xs s = Inr t" and "I s"
    and "\<And>x s t. x \<in> set xs \<Longrightarrow> I s \<Longrightarrow> f x s = Inr t \<Longrightarrow> I t"
  shows "I t"
  using assms
proof (induction xs arbitrary: s)
  case Nil
  then show ?case by simp
next
  case (Cons x xs)
  from Cons.prems(1) obtain u where u: "f x s = Inr u" "fold_res f xs u = Inr t"
    by (auto simp: res_simps)
  have "I u" using Cons.prems(2,3) u(1) by auto
  then show ?case using Cons.IH [OF u(2)] Cons.prems(3) by (meson list.set_intros(2))
qed

lemma fold_res_total:
  assumes "I s" and "\<And>x s. x \<in> set xs \<Longrightarrow> I s \<Longrightarrow> \<exists>t. f x s = Inr t \<and> I t"
  shows "\<exists>t. fold_res f xs s = Inr t \<and> I t"
  using assms
proof (induction xs arbitrary: s)
  case Nil
  then show ?case by simp
next
  case (Cons x xs)
  from Cons.prems obtain u where u: "f x s = Inr u" "I u"
    by (meson list.set_intros(1))
  from Cons.IH [OF u(2)] Cons.prems(2) have "\<exists>t. fold_res f xs u = Inr t \<and> I t"
    by (meson list.set_intros(2))
  then show ?case using u by simp
qed

section \<open>Integer helpers\<close>

text \<open>\<^verbatim>\<open>cdiv\<close> of \<^verbatim>\<open>vllm/utils/math_utils.py\<close>: \<open>-(a // -b)\<close>.\<close>

definition cdiv :: "int \<Rightarrow> int \<Rightarrow> int" where
  "cdiv a b = - (a div (- b))"

definition round_up :: "int \<Rightarrow> int \<Rightarrow> int" where
  "round_up x y = ((x + y - 1) div y) * y"

definition round_down :: "int \<Rightarrow> int \<Rightarrow> int" where
  "round_down x y = x div y * y"

lemma cdiv_eq: "0 < b \<Longrightarrow> cdiv a b = (a + b - 1) div b"
proof -
  assume b: "0 < b"
  have "a div (- b) = (- a) div b"
    by (simp add: div_minus_right)
  moreover have "- ((- a) div b) = (a + b - 1) div b"
  proof -
    have "(- a) div b = - ((a + b - 1) div b)"
    proof (rule int_div_pos_eq [where r = "b - 1 - (a + b - 1) mod b"])
      have "(a + b - 1) = b * ((a + b - 1) div b) + (a + b - 1) mod b" by simp
      then show "- a = b * - ((a + b - 1) div b) + (b - 1 - (a + b - 1) mod b)"
        by (simp add: algebra_simps)
      show "0 \<le> b - 1 - (a + b - 1) mod b"
        using b pos_mod_bound [of b "a + b - 1"] by linarith
      show "b - 1 - (a + b - 1) mod b < b"
        using b pos_mod_sign [of b "a + b - 1"] by linarith
    qed
    then show ?thesis by simp
  qed
  ultimately show ?thesis by (simp add: cdiv_def)
qed

lemma cdiv_upper: "0 < b \<Longrightarrow> a \<le> cdiv a b * b"
proof -
  assume b: "0 < b"
  have "(a + b - 1) = b * ((a + b - 1) div b) + (a + b - 1) mod b" by simp
  moreover have "(a + b - 1) mod b < b" using b by simp
  ultimately have "a \<le> b * ((a + b - 1) div b)" by linarith
  then show ?thesis using b by (simp add: cdiv_eq mult.commute)
qed

lemma cdiv_lower: "0 < b \<Longrightarrow> (cdiv a b - 1) * b < a"
proof -
  assume b: "0 < b"
  have "(a + b - 1) = b * ((a + b - 1) div b) + (a + b - 1) mod b" by simp
  moreover have "0 \<le> (a + b - 1) mod b" using b by simp
  ultimately have "b * ((a + b - 1) div b) \<le> a + b - 1" by linarith
  then show ?thesis using b by (simp add: cdiv_eq algebra_simps)
qed

lemma cdiv_least: "0 < b \<Longrightarrow> cdiv a b \<le> k \<longleftrightarrow> a \<le> k * b"
proof
  assume b: "0 < b" and "cdiv a b \<le> k"
  then have "cdiv a b * b \<le> k * b" by simp
  then show "a \<le> k * b" using cdiv_upper [OF b, of a] by linarith
next
  assume b: "0 < b" and "a \<le> k * b"
  then have "(cdiv a b - 1) * b < k * b" using cdiv_lower [OF b, of a] by linarith
  then show "cdiv a b \<le> k" using b by (simp add: mult_less_cancel_right)
qed

lemma cdiv_nonneg: "0 < b \<Longrightarrow> 0 \<le> a \<Longrightarrow> 0 \<le> cdiv a b"
  by (simp add: cdiv_eq pos_imp_zdiv_nonneg_iff)

lemma cdiv_mono: "0 < b \<Longrightarrow> a \<le> a' \<Longrightarrow> cdiv a b \<le> cdiv a' b"
  by (simp add: cdiv_eq zdiv_mono1)

lemma div_le_cdiv: "0 < b \<Longrightarrow> a div b \<le> cdiv a b"
  by (simp add: cdiv_eq zdiv_mono1)

lemma cdiv_mult [simp]: "0 < b \<Longrightarrow> cdiv (k * b) b = k"
  unfolding cdiv_eq by (rule int_div_pos_eq [where r = "b - 1"]) simp_all

lemma int_div_less_iff: "0 < (b::int) \<Longrightarrow> a div b < k \<longleftrightarrow> a < k * b"
proof
  assume b: "0 < b" and "a div b < k"
  then have "(a div b + 1) * b \<le> k * b" by simp
  then have "a div b * b + b \<le> k * b" by (simp add: distrib_right)
  moreover have "a = a div b * b + a mod b" by simp
  moreover have "a mod b < b" using b by simp
  ultimately show "a < k * b" by linarith
next
  assume b: "0 < b" and lt: "a < k * b"
  show "a div b < k"
  proof (rule ccontr)
    assume "\<not> a div b < k"
    then have "k * b \<le> a div b * b" using b by simp
    moreover have "a = a div b * b + a mod b" by simp
    moreover have "0 \<le> a mod b" using b by simp
    ultimately show False using lt by linarith
  qed
qed

lemma int_le_div_iff: "0 < (b::int) \<Longrightarrow> k \<le> a div b \<longleftrightarrow> k * b \<le> a"
  using int_div_less_iff [of b a k] by linarith

section \<open>Python lists\<close>

text \<open>\<open>xs[i]\<close>: a negative index counts from the end, one out of range raises.\<close>

definition py_index :: "nat \<Rightarrow> int \<Rightarrow> nat res" where
  "py_index n i =
     (if i \<ge> int n \<or> i < - int n then Inl IndexError
      else Inr (nat (if i \<ge> 0 then i else i + int n)))"

definition py_get :: "'a list \<Rightarrow> int \<Rightarrow> 'a res" where
  "py_get xs i = res_bind (py_index (length xs) i) (\<lambda>k. Inr (xs ! k))"

text \<open>\<open>xs[i] = x\<close>.\<close>

definition py_set :: "'a list \<Rightarrow> int \<Rightarrow> 'a \<Rightarrow> 'a list res" where
  "py_set xs i x = res_bind (py_index (length xs) i) (\<lambda>k. Inr (xs[k := x]))"

text \<open>\<open>xs[i:j]\<close>: both ends are clamped to the list, negative ones count from its end.\<close>

definition py_clamp :: "nat \<Rightarrow> int \<Rightarrow> nat" where
  "py_clamp n i = nat (if i < 0 then max 0 (int n + i) else min i (int n))"

definition py_slice :: "'a list \<Rightarrow> int \<Rightarrow> int \<Rightarrow> 'a list" where
  "py_slice xs i j = drop (py_clamp (length xs) i) (take (py_clamp (length xs) j) xs)"

definition py_from :: "'a list \<Rightarrow> int \<Rightarrow> 'a list" where
  "py_from xs i = drop (py_clamp (length xs) i) xs"

definition py_upto :: "'a list \<Rightarrow> int \<Rightarrow> 'a list" where
  "py_upto xs j = take (py_clamp (length xs) j) xs"

text \<open>\<open>[x] * n\<close> and \<open>range(a, b)\<close> are empty for a count that is not positive.\<close>

definition py_repeat :: "'a \<Rightarrow> int \<Rightarrow> 'a list" where
  "py_repeat x n = replicate (nat n) x"

lemma py_get_nonneg [simp]:
  "0 \<le> i \<Longrightarrow> py_get xs i = (if i < int (length xs) then Inr (xs ! nat i) else Inl IndexError)"
  by (simp add: py_get_def py_index_def)

lemma py_slice_nonneg:
  "0 \<le> i \<Longrightarrow> 0 \<le> j \<Longrightarrow> py_slice xs i j = drop (nat i) (take (nat j) xs)"
  by (auto simp: py_slice_def py_clamp_def min_def nat_le_iff)

lemma py_from_nonneg: "0 \<le> i \<Longrightarrow> py_from xs i = drop (nat i) xs"
  by (auto simp: py_from_def py_clamp_def min_def nat_le_iff)

lemma py_upto_nonneg: "0 \<le> j \<Longrightarrow> py_upto xs j = take (nat j) xs"
  by (auto simp: py_upto_def py_clamp_def min_def nat_le_iff)

lemma set_py_slice: "set (py_slice xs i j) \<subseteq> set xs"
  unfolding py_slice_def by (meson set_drop_subset set_take_subset subset_trans)

lemma set_py_from: "set (py_from xs i) \<subseteq> set xs"
  unfolding py_from_def by (rule set_drop_subset)

lemma length_py_repeat [simp]: "length (py_repeat x n) = nat n"
  by (simp add: py_repeat_def)

lemma set_py_repeat: "set (py_repeat x n) \<subseteq> {x}"
  by (auto simp: py_repeat_def)

section \<open>Lists\<close>

lemma count_list_replicate [simp]:
  "count_list (replicate n x) y = (if x = y then n else 0)"
  by (induction n) auto

lemma count_list_filter_mset: "count_list xs x = count (mset xs) x"
  by (induction xs) auto

lemma count_list_update:
  assumes "i < length xs"
  shows "count_list (xs[i := y]) z + (if xs ! i = z then 1 else 0)
       = count_list xs z + (if y = z then 1 else 0)"
  using assms
proof (induction xs arbitrary: i)
  case Nil
  then show ?case by simp
next
  case (Cons x xs)
  then show ?case
  proof (cases i)
    case 0
    then show ?thesis by auto
  next
    case (Suc k)
    with Cons.prems Cons.IH [of k] show ?thesis by (simp split: if_splits)
  qed
qed

lemma count_list_distinct: "distinct xs \<Longrightarrow> count_list xs x = (if x \<in> set xs then 1 else 0)"
  by (induction xs) auto

lemma nth_drop_take:
  "j < length (drop a (take b xs)) \<Longrightarrow>
     drop a (take b xs) ! j = xs ! (a + j) \<and> a + j < length xs \<and> a + j < b"
  by (cases "a \<le> length (take b xs)") auto

lemma nth_list_update_if: "xs[i := x] ! j = (if i = j \<and> j < length xs then x else xs ! j)"
  by (metis list_update_beyond linorder_not_le nth_list_update_eq nth_list_update_neq)

lemma drop_eq_Cons_nth: "drop k xs = y # ys \<Longrightarrow> k < length xs \<and> xs ! k = y \<and> drop (Suc k) xs = ys"
  by (metis Cons_nth_drop_Suc drop_eq_Nil linorder_not_less list.distinct(1) list.inject)

end
