(* ===== verification/Free_Queue.thy ===== *)
theory Free_Queue
  imports Prelude
begin

text \<open>
  \<^verbatim>\<open>FreeKVCacheBlockQueue\<close> of \<^verbatim>\<open>vllm/v1/core/kv_cache_utils.py\<close>: the doubly linked list of free
  blocks, kept as the code keeps it, as \<open>prev_free_block\<close>/\<open>next_free_block\<close> pointers between
  block objects with a fake head and a fake tail. Each operation is translated with its pointer
  writes in the order of the code. The invariant \<open>queue_inv q xs\<close> says that the heap of \<open>q\<close>
  represents the list \<open>xs\<close> of block ids; every operation is proved to refine the corresponding
  operation on that list. The locale \<open>eviction_queue\<close> states this contract for the block pool.
\<close>

section \<open>The heap\<close>

text \<open>
  References to block objects: the two fake blocks (both have \<open>block_id = -1\<close>, but they are
  different objects) and the pool's block of a given id. The pointer fields of
  \<^verbatim>\<open>KVCacheBlock\<close> "should only be manipulated by FreeKVCacheBlockQueue", so they are part of
  the queue's state here; the other fields are in the theory of the block pool.
\<close>

datatype node = Head | Tail | Blk (blk_id: nat)

record free_queue =
  num_free_blocks :: int
  prev_free_block :: "node \<Rightarrow> node option"
  next_free_block :: "node \<Rightarrow> node option"

definition set_prev :: "node \<Rightarrow> node option \<Rightarrow> free_queue \<Rightarrow> free_queue" where
  "set_prev n v q = q\<lparr>prev_free_block := (prev_free_block q)(n := v)\<rparr>"

definition set_next :: "node \<Rightarrow> node option \<Rightarrow> free_queue \<Rightarrow> free_queue" where
  "set_next n v q = q\<lparr>next_free_block := (next_free_block q)(n := v)\<rparr>"

definition set_num :: "int \<Rightarrow> free_queue \<Rightarrow> free_queue" where
  "set_num k q = q\<lparr>num_free_blocks := k\<rparr>"

section \<open>Operations\<close>

text \<open>The first loop of \<open>__init__\<close>, over the blocks' indices.\<close>

definition link_block :: "nat list \<Rightarrow> nat \<Rightarrow> free_queue \<Rightarrow> free_queue" where
  "link_block bs i q =
     (let q1 = (if 0 < i then set_prev (Blk (bs ! i)) (Some (Blk (bs ! (i - 1)))) q else q)
      in if Suc i < length bs then set_next (Blk (bs ! i)) (Some (Blk (bs ! Suc i))) q1 else q1)"

definition init_queue :: "nat list \<Rightarrow> free_queue" where
  "init_queue bs =
     (let q0 = \<lparr>num_free_blocks = int (length bs),
                prev_free_block = (\<lambda>_. None), next_free_block = (\<lambda>_. None)\<rparr>;
          q1 = fold (link_block bs) [0..<length bs] q0
      in if 0 < length bs then
           set_next (Blk (last bs)) (Some Tail)
             (set_prev Tail (Some (Blk (last bs)))
               (set_prev (Blk (hd bs)) (Some Head)
                 (set_next Head (Some (Blk (hd bs))) q1)))
         else set_prev Tail (Some Head) (set_next Head (Some Tail) q1))"

definition popleft :: "free_queue \<Rightarrow> (node \<times> free_queue) res" where
  "popleft q =
     (let empty = (if num_free_blocks q = 0 then Inl ValueError else Inl AssertionError) in
      case next_free_block q Head of
        None \<Rightarrow> empty
      | Some first \<Rightarrow>
          if first = Tail then empty
          else (case next_free_block q first of
                  None \<Rightarrow> Inl RuntimeError
                | Some second \<Rightarrow>
                    (let q1 = set_next Head (Some second) q;
                         q2 = set_prev second (Some Head) q1;
                         q3 = set_next first None (set_prev first None q2)
                     in Inr (first, set_num (num_free_blocks q3 - 1) q3))))"

text \<open>The loop of \<open>popleft_n\<close>: \<open>cur\<close> is \<open>curr_block\<close>, \<open>ret\<close> the blocks popped so far.\<close>

fun popleft_loop ::
  "nat \<Rightarrow> node option \<Rightarrow> node list \<Rightarrow> free_queue \<Rightarrow> (node option \<times> node list \<times> free_queue) res"
where
  "popleft_loop 0 cur ret q = Inr (cur, ret, q)"
| "popleft_loop (Suc k) None ret q = Inl AssertionError"
| "popleft_loop (Suc k) (Some b) ret q =
     popleft_loop k (next_free_block q b) (ret @ [b]) (set_next b None (set_prev b None q))"

definition popleft_n :: "int \<Rightarrow> free_queue \<Rightarrow> (node list \<times> free_queue) res" where
  "popleft_n n q =
     (if n = 0 then Inr ([], q)
      else require (n \<le> num_free_blocks q) AssertionError
        (let q1 = set_num (num_free_blocks q - n) q in
         res_bind (popleft_loop (nat n) (next_free_block q1 Head) [] q1)
           (\<lambda>(cur, ret, q2).
              case cur of
                None \<Rightarrow> Inr (ret, q2)
              | Some c \<Rightarrow> Inr (ret, set_prev c (Some Head) (set_next Head (Some c) q2)))))"

definition remove_block :: "node \<Rightarrow> free_queue \<Rightarrow> free_queue res" where
  "remove_block b q =
     (case (prev_free_block q b, next_free_block q b) of
        (Some p, Some n) \<Rightarrow>
          (let q1 = set_next p (Some n) q;
               q2 = set_prev n (Some p) q1;
               q3 = set_next b None (set_prev b None q2)
           in Inr (set_num (num_free_blocks q3 - 1) q3))
      | _ \<Rightarrow> Inl RuntimeError)"

definition append_block :: "node \<Rightarrow> free_queue \<Rightarrow> free_queue res" where
  "append_block b q =
     (case prev_free_block q Tail of
        None \<Rightarrow> Inl RuntimeError
      | Some l \<Rightarrow>
          (let q1 = set_prev b (Some l) (set_next l (Some b) q);
               q2 = set_prev Tail (Some b) (set_next b (Some Tail) q1)
           in Inr (set_num (num_free_blocks q2 + 1) q2)))"

fun append_loop :: "node list \<Rightarrow> node \<Rightarrow> free_queue \<Rightarrow> node \<times> free_queue" where
  "append_loop [] l q = (l, q)"
| "append_loop (b # bs) l q = append_loop bs b (set_next l (Some b) (set_prev b (Some l) q))"

definition append_n :: "node list \<Rightarrow> free_queue \<Rightarrow> free_queue res" where
  "append_n bs q =
     (if length bs = 0 then Inr q
      else case prev_free_block q Tail of
             None \<Rightarrow> Inl AssertionError
           | Some l \<Rightarrow>
               (let (l', q1) = append_loop bs l q;
                    q2 = set_prev Tail (Some l') (set_next l' (Some Tail) q1)
                in Inr (set_num (num_free_blocks q2 + int (length bs)) q2)))"

text \<open>
  \<open>get_all_free_blocks\<close> follows the \<open>next\<close> pointers until it meets a block without one; on a
  cyclic heap it does not return, hence \<open>option\<close>.
\<close>

partial_function (option) walk ::
  "free_queue \<Rightarrow> node \<Rightarrow> node list \<Rightarrow> node list option"
where
  "walk q cur ret =
     (case next_free_block q cur of
        None \<Rightarrow> Some ret
      | Some n \<Rightarrow> walk q n (ret @ [cur]))"

definition get_all_free_blocks :: "free_queue \<Rightarrow> node list option res" where
  "get_all_free_blocks q =
     (case next_free_block q Head of
        None \<Rightarrow> Inl RuntimeError
      | Some first \<Rightarrow> Inr (walk q first []))"

section \<open>The represented list\<close>

lemmas heap_defs = set_prev_def set_next_def set_num_def

text \<open>A chain of nodes in the heap, linked in both directions.\<close>

fun linked :: "(node \<Rightarrow> node option) \<Rightarrow> (node \<Rightarrow> node option) \<Rightarrow> node list \<Rightarrow> bool" where
  "linked nx pv (x # y # ns) \<longleftrightarrow> nx x = Some y \<and> pv y = Some x \<and> linked nx pv (y # ns)"
| "linked nx pv ns \<longleftrightarrow> True"

definition chain :: "nat list \<Rightarrow> node list" where
  "chain xs = Head # map Blk xs @ [Tail]"

definition queue_inv :: "free_queue \<Rightarrow> nat list \<Rightarrow> bool" where
  "queue_inv q xs \<longleftrightarrow>
     linked (next_free_block q) (prev_free_block q) (chain xs) \<and> distinct xs \<and>
     num_free_blocks q = int (length xs) \<and>
     next_free_block q Tail = None \<and> prev_free_block q Head = None \<and>
     (\<forall>b. b \<notin> set xs \<longrightarrow> next_free_block q (Blk b) = None \<and> prev_free_block q (Blk b) = None)"

lemma linked_append:
  "linked nx pv (xs @ a # ys) \<longleftrightarrow> linked nx pv (xs @ [a]) \<and> linked nx pv (a # ys)"
proof (induction xs rule: induct_list012)
  case 1
  then show ?case by simp
next
  case (2 x)
  then show ?case by (cases ys) auto
next
  case (3 x y zs)
  then show ?case by simp
qed

lemma linked_cong:
  "\<lbrakk>\<forall>n \<in> set (butlast ns). nx n = nx' n; \<forall>n \<in> set (tl ns). pv n = pv' n\<rbrakk>
    \<Longrightarrow> linked nx pv ns = linked nx' pv' ns"
  by (induction nx pv ns rule: linked.induct) (auto split: if_splits)

lemma linked_upd_next [simp]:
  "a \<notin> set (butlast ns) \<Longrightarrow> linked (nx(a := v)) pv ns = linked nx pv ns"
  by (rule linked_cong) auto

lemma linked_upd_prev [simp]:
  "a \<notin> set (tl ns) \<Longrightarrow> linked nx (pv(a := v)) ns = linked nx pv ns"
  by (rule linked_cong) auto

lemma linked_frame_next [simp]:
  "a \<notin> set ns \<Longrightarrow> linked (nx(a := v)) pv ns = linked nx pv ns"
  by (rule linked_upd_next) (auto dest: in_set_butlastD)

lemma linked_frame_prev [simp]:
  "a \<notin> set ns \<Longrightarrow> linked nx (pv(a := v)) ns = linked nx pv ns"
  by (rule linked_upd_prev) (cases ns; simp)

lemma chain_Nil [simp]: "chain [] = [Head, Tail]"
  by (simp add: chain_def)

lemma queue_inv_distinct: "queue_inv q xs \<Longrightarrow> distinct xs"
  by (simp add: queue_inv_def)

lemma queue_inv_num: "queue_inv q xs \<Longrightarrow> num_free_blocks q = int (length xs)"
  by (simp add: queue_inv_def)


definition first_node :: "nat list \<Rightarrow> node" where
  "first_node xs = (case xs of [] \<Rightarrow> Tail | x # _ \<Rightarrow> Blk x)"

definition last_node :: "nat list \<Rightarrow> node" where
  "last_node xs = (if xs = [] then Head else Blk (last xs))"

lemma linked_middle:
  "linked nx pv (as @ p # n # cs) \<longleftrightarrow>
     linked nx pv (as @ [p]) \<and> nx p = Some n \<and> pv n = Some p \<and> linked nx pv (n # cs)"
  using linked_append [of nx pv as p "n # cs"] by simp

lemma chain_first: "chain xs = Head # first_node xs # tl (map Blk xs @ [Tail])"
  by (cases xs) (simp_all add: chain_def first_node_def)

lemma chain_last: "chain xs = butlast (Head # map Blk xs) @ last_node xs # Tail # []"
  by (cases xs rule: rev_cases) (simp_all add: chain_def last_node_def butlast_append)

lemma queue_inv_head: "queue_inv q xs \<Longrightarrow> next_free_block q Head = Some (first_node xs)"
  by (simp add: queue_inv_def chain_first)

lemma queue_inv_tail: "queue_inv q xs \<Longrightarrow> prev_free_block q Tail = Some (last_node xs)"
  by (simp add: queue_inv_def chain_last linked_middle)

lemma distinct_chain: "distinct xs \<Longrightarrow> distinct (chain xs)"
  by (auto simp: chain_def distinct_map inj_on_def)

lemma chain_split: "chain (xs @ b # ys) = (Head # map Blk xs) @ Blk b # (map Blk ys @ [Tail])"
  by (simp add: chain_def)

text \<open>Taking one node out of a chain, and the pointer writes that do it.\<close>

lemma linked_unlink:
  assumes "linked nx pv (as @ p # b # n # cs)" and "distinct (as @ p # b # n # cs)"
  shows "linked (nx(p := Some n, b := None)) (pv(n := Some p, b := None)) (as @ p # n # cs)"
proof -
  from assms(1) have l: "linked nx pv (as @ [p])" "linked nx pv (n # cs)"
    by (simp_all add: linked_middle)
  have "linked (nx(p := Some n, b := None)) (pv(n := Some p, b := None)) (as @ [p])"
    using l(1) assms(2) by (cases as) (auto simp: butlast_append)
  moreover have "linked (nx(p := Some n, b := None)) (pv(n := Some p, b := None)) (n # cs)"
    using l(2) assms(2) by simp
  ultimately show ?thesis using assms(2) by (auto simp: linked_middle)
qed

section \<open>Refinement of the list operations\<close>

lemma queue_inv_remove:
  assumes q: "queue_inv q (xs @ b # ys)"
  shows "\<exists>q'. remove_block (Blk b) q = Inr q' \<and> queue_inv q' (xs @ ys)"
proof -
  let ?nx = "next_free_block q" and ?pv = "prev_free_block q"
  obtain as p where as: "Head # map Blk xs = as @ [p]"
    by (metis append_butlast_last_id list.distinct(1))
  obtain n cs where cs: "map Blk ys @ [Tail] = n # cs" by (cases "map Blk ys @ [Tail]") auto
  have ch: "chain (xs @ b # ys) = as @ p # Blk b # n # cs"
    unfolding chain_split as cs by simp
  have ch': "chain (xs @ ys) = as @ p # n # cs"
    using as cs by (simp add: chain_def)
  have dist: "distinct (as @ p # Blk b # n # cs)"
    using distinct_chain [OF queue_inv_distinct [OF q]] ch by simp
  have l: "linked ?nx ?pv (as @ p # Blk b # n # cs)" using q ch by (simp add: queue_inv_def)
  then have pn: "?pv (Blk b) = Some p" "?nx (Blk b) = Some n" by (simp_all add: linked_middle)
  have ne: "p \<noteq> Blk b" "n \<noteq> Blk b" "p \<noteq> Tail" "n \<noteq> Head"
    using dist as cs by (auto simp: append_eq_Cons_conv Cons_eq_append_conv map_eq_append_conv)
  have mem: "p = Head \<or> p \<in> Blk ` set xs" "n = Tail \<or> n \<in> Blk ` set ys"
  proof -
    have "p \<in> set (Head # map Blk xs)" unfolding as by simp
    then show "p = Head \<or> p \<in> Blk ` set xs" by auto
    have "n \<in> set (map Blk ys @ [Tail])" unfolding cs by simp
    then show "n = Tail \<or> n \<in> Blk ` set ys" by auto
  qed
  have lk: "linked (?nx(p := Some n, Blk b := None)) (?pv(n := Some p, Blk b := None))
              (chain (xs @ ys))"
    unfolding ch' by (rule linked_unlink [OF l dist])
  show ?thesis
    using q lk pn ne mem
    by (auto simp: remove_block_def queue_inv_def heap_defs Let_def)
qed

corollary queue_inv_remove1:
  assumes "queue_inv q xs" and "b \<in> set xs"
  shows "\<exists>q'. remove_block (Blk b) q = Inr q' \<and> queue_inv q' (remove1 b xs)"
proof -
  obtain ys zs where s: "xs = ys @ b # zs" "b \<notin> set ys"
    using assms(2) by (meson split_list_first)
  with queue_inv_remove [of q ys b zs] assms(1) show ?thesis by (simp add: remove1_append)
qed

lemma popleft_is_remove:
  assumes q: "queue_inv q (x # xs)"
  shows "\<exists>q'. popleft q = Inr (Blk x, q') \<and> queue_inv q' xs"
proof -
  obtain q' where r: "remove_block (Blk x) q = Inr q'" "queue_inv q' xs"
    using queue_inv_remove [of q "[]" x xs] q by auto
  have "next_free_block q Head = Some (Blk x)" "prev_free_block q (Blk x) = Some Head"
    using q by (auto simp: queue_inv_def chain_def)
  then have "popleft q = Inr (Blk x, q')"
    using r(1) by (auto simp: popleft_def remove_block_def heap_defs Let_def split: option.splits)
  with r(2) show ?thesis by blast
qed

lemma popleft_empty: "queue_inv q [] \<Longrightarrow> popleft q = Inl ValueError"
  by (simp add: popleft_def queue_inv_head first_node_def queue_inv_num Let_def)

definition unlink_all :: "node list \<Rightarrow> free_queue \<Rightarrow> free_queue" where
  "unlink_all ns q = fold (\<lambda>b q. set_next b None (set_prev b None q)) ns q"

lemma unlink_all_simps:
  "next_free_block (unlink_all ns q) = (\<lambda>n. if n \<in> set ns then None else next_free_block q n)"
  "prev_free_block (unlink_all ns q) = (\<lambda>n. if n \<in> set ns then None else prev_free_block q n)"
  "num_free_blocks (unlink_all ns q) = num_free_blocks q"
  unfolding unlink_all_def by (induction ns arbitrary: q) (auto simp: heap_defs fun_eq_iff)

lemma popleft_loop_linked:
  assumes "linked (next_free_block q) pv (ns @ [m])" and "distinct (ns @ [m])"
  shows "popleft_loop (length ns) (Some (hd (ns @ [m]))) ret q
       = Inr (Some m, ret @ ns, unlink_all ns q)"
  using assms
proof (induction ns arbitrary: q ret)
  case Nil
  then show ?case by (simp add: unlink_all_def)
next
  case (Cons n ns)
  let ?q = "set_next n None (set_prev n None q)"
  have nx: "next_free_block q n = Some (hd (ns @ [m]))"
    using Cons.prems(1) by (cases ns) auto
  have "linked (next_free_block ?q) pv (ns @ [m])"
    using Cons.prems by (cases ns) (auto simp: heap_defs)
  then show ?case
    using Cons.IH [of ?q "ret @ [n]"] Cons.prems(2) nx by (simp add: unlink_all_def)
qed

lemma linked_drop: "linked nx pv (as @ bs) \<Longrightarrow> linked nx pv bs"
proof (induction as)
  case (Cons a as)
  then have "linked nx pv (as @ bs)" by (cases "as @ bs") auto
  then show ?case by (rule Cons.IH)
qed simp

lemma queue_inv_popleft_n:
  assumes q: "queue_inv q (xs @ ys)"
  shows "\<exists>q'. popleft_n (int (length xs)) q = Inr (map Blk xs, q') \<and> queue_inv q' ys"
proof (cases "xs = []")
  case True
  with q show ?thesis by (simp add: popleft_n_def)
next
  case False
  let ?q1 = "set_num (num_free_blocks q - int (length xs)) q"
  let ?m = "first_node ys" and ?cs = "tl (map Blk ys @ [Tail])"
  let ?q2 = "unlink_all (map Blk xs) ?q1"
  let ?q3 = "set_prev ?m (Some Head) (set_next Head (Some ?m) ?q2)"
  have ch: "chain (xs @ ys) = Head # map Blk xs @ ?m # ?cs"
    using chain_first [of ys] by (simp add: chain_def)
  have dist: "distinct (Head # map Blk xs @ ?m # ?cs)"
    using distinct_chain [OF queue_inv_distinct [OF q]] ch by simp
  have l: "linked (next_free_block q) (prev_free_block q) (Head # map Blk xs @ ?m # ?cs)"
    using q ch by (simp add: queue_inv_def)
  then have "linked (next_free_block q) (prev_free_block q) (map Blk xs @ ?m # ?cs)"
    using linked_drop [of _ _ "[Head]"] by simp
  then have l1: "linked (next_free_block ?q1) (prev_free_block q) (map Blk xs @ [?m])"
    and l2: "linked (next_free_block q) (prev_free_block q) (?m # ?cs)"
    using linked_append [of "next_free_block q" "prev_free_block q" "map Blk xs" ?m ?cs]
    by (auto simp: set_num_def)
  have hd: "next_free_block ?q1 Head = Some (hd (map Blk xs @ [?m]))"
    using l False by (cases xs) (auto simp: heap_defs)
  have loop: "popleft_loop (length xs) (next_free_block ?q1 Head) [] ?q1
      = Inr (Some ?m, map Blk xs, ?q2)"
    using popleft_loop_linked [OF l1, of "[]"] dist hd by simp
  have eq: "popleft_n (int (length xs)) q = Inr (map Blk xs, ?q3)"
    using loop False queue_inv_num [OF q] by (simp add: popleft_n_def Let_def)
  have rest: "linked (next_free_block ?q3) (prev_free_block ?q3) (?m # ?cs)"
    using l2 dist
    by (subst linked_cong [where nx' = "next_free_block q" and pv' = "prev_free_block q"])
      (auto simp: heap_defs unlink_all_simps dest: in_set_butlastD)
  have m: "?m = Tail \<or> ?m \<in> Blk ` set ys" by (simp add: first_node_def split: list.splits)
  have nx: "next_free_block ?q3 n = (if n = Head then Some ?m
      else if n \<in> Blk ` set xs then None else next_free_block q n)" for n
    by (simp add: heap_defs unlink_all_simps)
  have pv: "prev_free_block ?q3 n = (if n = ?m then Some Head
      else if n \<in> Blk ` set xs then None else prev_free_block q n)" for n
    by (simp add: heap_defs unlink_all_simps)
  have others: "next_free_block q (Blk b) = None \<and> prev_free_block q (Blk b) = None"
    if "b \<notin> set xs" "b \<notin> set ys" for b using q that by (simp add: queue_inv_def)
  have "queue_inv ?q3 ys"
    unfolding queue_inv_def
  proof (intro conjI allI impI)
    show "linked (next_free_block ?q3) (prev_free_block ?q3) (chain ys)"
      unfolding chain_first [of ys] using rest nx [of Head] pv [of ?m] by simp
    show "distinct ys" using queue_inv_distinct [OF q] by simp
    show "num_free_blocks ?q3 = int (length ys)"
      using queue_inv_num [OF q] by (simp add: heap_defs unlink_all_simps)
    show "next_free_block ?q3 Tail = None" using nx [of Tail] q by (auto simp: queue_inv_def)
    show "prev_free_block ?q3 Head = None"
      using pv [of Head] q m by (auto simp: queue_inv_def)
    show "next_free_block ?q3 (Blk b) = None" if "b \<notin> set ys" for b
      using nx [of "Blk b"] others [of b] that by auto
    show "prev_free_block ?q3 (Blk b) = None" if "b \<notin> set ys" for b
      using pv [of "Blk b"] others [of b] that m by auto
  qed
  with eq show ?thesis by blast
qed

lemma popleft_n_too_many:
  "queue_inv q xs \<Longrightarrow> int (length xs) < n \<Longrightarrow> n \<noteq> 0 \<Longrightarrow> popleft_n n q = Inl AssertionError"
  by (simp add: popleft_n_def queue_inv_num)

text \<open>The loop of \<open>append_n\<close> extends a chain that ends in \<open>l\<close>.\<close>

lemma append_loop_linked:
  assumes "append_loop bs l q = (l', q')"
    and "linked (next_free_block q) (prev_free_block q) (as @ [l])"
    and "distinct (as @ l # bs)"
  shows "linked (next_free_block q') (prev_free_block q') (as @ l # bs) \<and> l' = last (l # bs) \<and>
     num_free_blocks q' = num_free_blocks q \<and>
     (\<forall>n. n \<notin> set (butlast (l # bs)) \<longrightarrow> next_free_block q' n = next_free_block q n) \<and>
     (\<forall>n. n \<notin> set bs \<longrightarrow> prev_free_block q' n = prev_free_block q n)"
  using assms
proof (induction bs arbitrary: as l q)
  case Nil
  then show ?case by simp
next
  case (Cons b bs)
  let ?q = "set_next l (Some b) (set_prev b (Some l) q)"
  have run: "append_loop bs b ?q = (l', q')" using Cons.prems(1) by simp
  have lk: "linked (next_free_block ?q) (prev_free_block ?q) ((as @ [l]) @ [b])"
    using Cons.prems(2,3) linked_middle [of _ _ as l b "[]"] by (auto simp: heap_defs)
  have d: "distinct ((as @ [l]) @ b # bs)" using Cons.prems(3) by simp
  note ih = Cons.IH [OF run lk d]
  show ?case
  proof (intro conjI allI impI)
    show "linked (next_free_block q') (prev_free_block q') (as @ l # b # bs)" using ih by simp
    show "l' = last (l # b # bs)" using ih by simp
    show "num_free_blocks q' = num_free_blocks q" using ih by (simp add: heap_defs)
    show "next_free_block q' n = next_free_block q n" if "n \<notin> set (butlast (l # b # bs))" for n
      using ih that by (simp add: heap_defs)
    show "prev_free_block q' n = prev_free_block q n" if "n \<notin> set (b # bs)" for n
      using ih that by (simp add: heap_defs)
  qed
qed

lemma queue_inv_append_n:
  assumes q: "queue_inv q xs" and d: "distinct ys" "set xs \<inter> set ys = {}"
  shows "\<exists>q'. append_n (map Blk ys) q = Inr q' \<and> queue_inv q' (xs @ ys)"
proof (cases "ys = []")
  case True
  with q show ?thesis by (simp add: append_n_def)
next
  case False
  let ?bs = "map Blk ys" and ?l = "last_node xs" and ?as = "butlast (Head # map Blk xs)"
  obtain l' q1 where run: "append_loop ?bs ?l q = (l', q1)" by (cases "append_loop ?bs ?l q")
  have ch: "?as @ [?l] = Head # map Blk xs"
    by (cases xs rule: rev_cases) (simp_all add: last_node_def butlast_append)
  have lk: "linked (next_free_block q) (prev_free_block q) (?as @ [?l])"
    using q unfolding queue_inv_def chain_last by (simp add: linked_middle)
  have "?as @ ?l # ?bs = (?as @ [?l]) @ ?bs" by simp
  then have eqn: "?as @ ?l # ?bs = Head # map Blk (xs @ ys)" unfolding ch by simp
  have dist: "distinct (?as @ ?l # ?bs)"
    unfolding eqn using queue_inv_distinct [OF q] d by (auto simp: distinct_map inj_on_def)
  note res = append_loop_linked [OF run lk dist, unfolded eqn]
  have l': "l' = Blk (last ys)" using res False by (simp add: last_map)
  let ?q2 = "set_prev Tail (Some l') (set_next l' (Some Tail) q1)"
  let ?q3 = "set_num (num_free_blocks ?q2 + int (length ys)) ?q2"
  have eq: "append_n ?bs q = Inr ?q3"
    using False run by (simp add: append_n_def queue_inv_tail [OF q] Let_def)
  have ends: "Head # map Blk (xs @ ys) = (Head # map Blk xs @ map Blk (butlast ys)) @ [l']"
  proof -
    have "map Blk ys = map Blk (butlast ys @ [last ys])"
      by (subst append_butlast_last_id [OF False]) (rule refl)
    then show ?thesis unfolding l' by simp
  qed
  have chy: "chain (xs @ ys) = (Head # map Blk xs @ map Blk (butlast ys)) @ l' # [Tail]"
    unfolding chain_def using ends by simp
  have "l' \<notin> set (Head # map Blk xs @ map Blk (butlast ys))"
    using dist unfolding eqn ends by auto
  then have l3: "linked (next_free_block ?q3) (prev_free_block ?q3) (chain (xs @ ys))"
  proof -
    let ?pre = "Head # map Blk xs @ map Blk (butlast ys)"
    assume new: "l' \<notin> set ?pre"
    have "linked (next_free_block q1) (prev_free_block q1) (?pre @ [l'])"
      by (rule res [THEN conjunct1, unfolded ends])
    moreover have "\<forall>n \<in> set (butlast (?pre @ [l'])). next_free_block ?q3 n = next_free_block q1 n"
      unfolding butlast_snoc using new by (auto simp: heap_defs)
    moreover have "\<forall>n \<in> set (tl (?pre @ [l'])). prev_free_block ?q3 n = prev_free_block q1 n"
      by (auto simp: heap_defs l')
    ultimately have "linked (next_free_block ?q3) (prev_free_block ?q3) (?pre @ [l'])"
      using linked_cong by blast
    then show ?thesis unfolding chy linked_middle by (simp add: heap_defs)
  qed
  have sub: "set (butlast (?l # ?bs)) \<subseteq> insert ?l (Blk ` set ys)"
    by (auto dest!: in_set_butlastD)
  have lm: "?l = Head \<or> ?l \<in> Blk ` set xs" by (auto simp: last_node_def)
  have keep: "next_free_block q1 n = next_free_block q n"
    if "n \<noteq> ?l" "n \<notin> Blk ` set ys" for n
    using res sub that by blast
  have keep': "prev_free_block q1 n = prev_free_block q n" if "n \<notin> Blk ` set ys" for n
    using res that by simp
  have old: "next_free_block q1 Tail = None" "prev_free_block q1 Head = None"
  proof -
    have "Tail \<noteq> ?l" "Tail \<notin> Blk ` set ys" "Head \<notin> Blk ` set ys" using lm by auto
    then show "next_free_block q1 Tail = None" "prev_free_block q1 Head = None"
      using keep [of Tail] keep' [of Head] q by (simp_all add: queue_inv_def)
  qed
  have oldb: "next_free_block q1 (Blk b) = None \<and> prev_free_block q1 (Blk b) = None"
    if b: "b \<notin> set (xs @ ys)" for b
  proof -
    have "Blk b \<noteq> ?l" "Blk b \<notin> Blk ` set ys" using lm b by auto
    then show ?thesis using keep [of "Blk b"] keep' [of "Blk b"] q b by (simp add: queue_inv_def)
  qed
  have nx: "next_free_block ?q3 n = (if n = l' then Some Tail else next_free_block q1 n)" for n
    by (simp add: heap_defs)
  have pv: "prev_free_block ?q3 n = (if n = Tail then Some l' else prev_free_block q1 n)" for n
    by (simp add: heap_defs)
  have "queue_inv ?q3 (xs @ ys)"
    unfolding queue_inv_def
  proof (intro conjI allI impI)
    show "linked (next_free_block ?q3) (prev_free_block ?q3) (chain (xs @ ys))" by (rule l3)
    show "distinct (xs @ ys)" using queue_inv_distinct [OF q] d by auto
    show "num_free_blocks ?q3 = int (length (xs @ ys))"
      using queue_inv_num [OF q] res by (simp add: heap_defs)
    show "next_free_block ?q3 Tail = None" using nx [of Tail] old(1) l' by simp
    show "prev_free_block ?q3 Head = None" using pv [of Head] old(2) by simp
    show "next_free_block ?q3 (Blk b) = None" if "b \<notin> set (xs @ ys)" for b
      using nx [of "Blk b"] oldb [OF that] that False l' by auto
    show "prev_free_block ?q3 (Blk b) = None" if "b \<notin> set (xs @ ys)" for b
      using pv [of "Blk b"] oldb [OF that] by simp
  qed
  with eq show ?thesis by blast
qed

lemma append_is_append_n: "append_block b q = (case append_n [b] q of
    Inl e \<Rightarrow> Inl RuntimeError | Inr q' \<Rightarrow> Inr q')"
  by (auto simp: append_block_def append_n_def heap_defs Let_def fun_upd_twist split: option.splits)

section \<open>Construction and traversal\<close>

lemma linked_nth:
  "linked nx pv ns \<longleftrightarrow>
     (\<forall>i. Suc i < length ns \<longrightarrow> nx (ns ! i) = Some (ns ! Suc i) \<and> pv (ns ! Suc i) = Some (ns ! i))"
proof (induction nx pv ns rule: linked.induct)
  case (1 nx pv x y ns)
  show ?case
    unfolding linked.simps "1.IH" by (auto simp: less_Suc_eq_0_disj nth_Cons split: nat.splits)
qed auto

text \<open>After \<open>k\<close> iterations of the loop of \<open>__init__\<close>, the pointers of the first \<open>k\<close> blocks are set.\<close>

definition linked_upto :: "nat list \<Rightarrow> nat \<Rightarrow> free_queue \<Rightarrow> bool" where
  "linked_upto bs k q \<longleftrightarrow>
     num_free_blocks q = int (length bs) \<and>
     next_free_block q Head = None \<and> prev_free_block q Head = None \<and>
     next_free_block q Tail = None \<and> prev_free_block q Tail = None \<and>
     (\<forall>b. b \<notin> set bs \<longrightarrow> next_free_block q (Blk b) = None \<and> prev_free_block q (Blk b) = None) \<and>
     (\<forall>i < length bs.
        next_free_block q (Blk (bs ! i)) =
          (if i < k \<and> Suc i < length bs then Some (Blk (bs ! Suc i)) else None) \<and>
        prev_free_block q (Blk (bs ! i)) =
          (if i < k \<and> 0 < i then Some (Blk (bs ! (i - 1))) else None))"

lemma linked_upto_step:
  assumes "linked_upto bs k q" and "distinct bs" and "k < length bs"
  shows "linked_upto bs (Suc k) (link_block bs k q)"
proof -
  have eqi: "bs ! i = bs ! k \<longleftrightarrow> i = k" if "i < length bs" for i
    using assms(2,3) that by (simp add: nth_eq_iff_index_eq)
  have "bs ! k \<in> set bs" using assms(3) by simp
  then show ?thesis
    using assms(1,3) eqi
    by (auto simp: linked_upto_def link_block_def heap_defs Let_def less_Suc_eq)
qed

lemma linked_upto_fold:
  assumes "linked_upto bs 0 q" and "distinct bs" and "k \<le> length bs"
  shows "linked_upto bs k (fold (link_block bs) [0..<k] q)"
  using assms(3)
proof (induction k)
  case 0
  then show ?case using assms(1) by simp
next
  case (Suc k)
  then show ?case using linked_upto_step [OF _ assms(2), of k] by simp
qed

lemma init_queue_inv: "distinct bs \<Longrightarrow> queue_inv (init_queue bs) bs"
proof -
  assume d: "distinct bs"
  let ?q0 = "\<lparr>num_free_blocks = int (length bs),
                prev_free_block = (\<lambda>_. None), next_free_block = (\<lambda>_. None)\<rparr>"
  let ?q1 = "fold (link_block bs) [0..<length bs] ?q0"
  have "linked_upto bs 0 ?q0" by (simp add: linked_upto_def)
  from linked_upto_fold [OF this d order_refl]
  have up: "linked_upto bs (length bs) ?q1" .
  show ?thesis
  proof (cases "bs = []")
    case True
    then show ?thesis by (simp add: init_queue_def queue_inv_def heap_defs)
  next
    case False
    let ?q = "init_queue bs"
    have q: "?q = set_next (Blk (last bs)) (Some Tail) (set_prev Tail (Some (Blk (last bs)))
               (set_prev (Blk (hd bs)) (Some Head) (set_next Head (Some (Blk (hd bs))) ?q1)))"
      using False by (simp add: init_queue_def)
    have eqi: "bs ! i = bs ! j \<longleftrightarrow> i = j" if "i < length bs" "j < length bs" for i j
      using d that by (simp add: nth_eq_iff_index_eq)
    have hd_last: "hd bs = bs ! 0" "last bs = bs ! (length bs - 1)"
      using False by (simp_all add: hd_conv_nth last_conv_nth)
    have ends: "hd bs \<in> set bs" "last bs \<in> set bs" using False by simp_all
    have nx: "next_free_block ?q (Blk (bs ! i)) =
        Some (if Suc i < length bs then Blk (bs ! Suc i) else Tail)" if "i < length bs" for i
      using up that eqi [of i "length bs - 1"] False unfolding q
      by (auto simp: linked_upto_def heap_defs hd_last)
    have pv: "prev_free_block ?q (Blk (bs ! i)) =
        Some (if 0 < i then Blk (bs ! (i - 1)) else Head)" if "i < length bs" for i
      using up that eqi [of i 0] False unfolding q
      by (auto simp: linked_upto_def heap_defs hd_last)
    have fake: "next_free_block ?q Head = Some (Blk (bs ! 0))" "next_free_block ?q Tail = None"
      "prev_free_block ?q Tail = Some (Blk (bs ! (length bs - 1)))" "prev_free_block ?q Head = None"
      using up unfolding q by (auto simp: linked_upto_def heap_defs hd_last)
    have last_ix: "\<And>i. \<not> Suc i < length bs \<Longrightarrow> i < length bs \<Longrightarrow> length bs - Suc 0 = i" by simp
    have "linked (next_free_block ?q) (prev_free_block ?q) (chain bs)"
      unfolding linked_nth chain_def using nx pv fake False last_ix
      by (auto simp: nth_Cons nth_append split: nat.splits)
    moreover have "\<forall>b. b \<notin> set bs \<longrightarrow>
        next_free_block ?q (Blk b) = None \<and> prev_free_block ?q (Blk b) = None"
      using up ends unfolding q by (auto simp: linked_upto_def heap_defs)
    moreover have "num_free_blocks ?q = int (length bs)"
      using up unfolding q by (simp add: linked_upto_def heap_defs)
    ultimately show ?thesis using fake d by (simp add: queue_inv_def)
  qed
qed

lemma walk_linked:
  assumes "linked (next_free_block q) pv (ns @ [Tail])" and "next_free_block q Tail = None"
  shows "walk q (hd (ns @ [Tail])) ret = Some (ret @ ns)"
  using assms
proof (induction ns arbitrary: ret)
  case Nil
  then show ?case by (simp add: walk.simps)
next
  case (Cons n ns)
  have nx: "next_free_block q n = Some (hd (ns @ [Tail]))"
    and lk: "linked (next_free_block q) pv (ns @ [Tail])"
    using Cons.prems(1) by (cases ns; simp)+
  show ?case
    using Cons.IH [OF lk Cons.prems(2), of "ret @ [n]"] nx
    by (simp add: walk.simps [of q n])
qed

lemma get_all_free_blocks_list:
  assumes q: "queue_inv q xs"
  shows "get_all_free_blocks q = Inr (Some (map Blk xs))"
proof -
  have "first_node xs = hd (map Blk xs @ [Tail])" by (cases xs) (simp_all add: first_node_def)
  moreover have "linked (next_free_block q) (prev_free_block q) (map Blk xs @ [Tail])"
    using q linked_drop [of _ _ "[Head]"] by (simp add: queue_inv_def chain_def)
  ultimately show ?thesis
    using walk_linked [of q _ "map Blk xs" "[]"] q
    by (simp add: get_all_free_blocks_def queue_inv_head) (simp add: queue_inv_def)
qed

lemma queue_inv_unique: "queue_inv q xs \<Longrightarrow> queue_inv q ys \<Longrightarrow> xs = ys"
  using get_all_free_blocks_list [of q xs] get_all_free_blocks_list [of q ys]
  by (auto dest: map_injective simp: inj_on_def)

section \<open>The interface of the block pool\<close>

text \<open>
  What the block pool relies on: an abstract content (a list of block ids in eviction order),
  popping from the front, removing anywhere, appending at the back, and the count. Facts about
  sequences of operations are proved here once, for any implementation of the contract.
\<close>

locale eviction_queue =
  fixes rep :: "'q \<Rightarrow> nat list \<Rightarrow> bool"
    and count_free :: "'q \<Rightarrow> int"
    and pop_n :: "int \<Rightarrow> 'q \<Rightarrow> (node list \<times> 'q) res"
    and take_out :: "node \<Rightarrow> 'q \<Rightarrow> 'q res"
    and put_back :: "node list \<Rightarrow> 'q \<Rightarrow> 'q res"
  assumes rep_distinct: "rep q xs \<Longrightarrow> distinct xs"
    and rep_unique: "rep q xs \<Longrightarrow> rep q ys \<Longrightarrow> xs = ys"
    and count_rep: "rep q xs \<Longrightarrow> count_free q = int (length xs)"
    and pop_rep: "rep q (xs @ ys) \<Longrightarrow>
      \<exists>q'. pop_n (int (length xs)) q = Inr (map Blk xs, q') \<and> rep q' ys"
    and take_out_rep: "rep q xs \<Longrightarrow> b \<in> set xs \<Longrightarrow>
      \<exists>q'. take_out (Blk b) q = Inr q' \<and> rep q' (remove1 b xs)"
    and put_back_rep: "rep q xs \<Longrightarrow> distinct ys \<Longrightarrow> set xs \<inter> set ys = {} \<Longrightarrow>
      \<exists>q'. put_back (map Blk ys) q = Inr q' \<and> rep q' (xs @ ys)"
begin

lemma pop_take:
  assumes "rep q xs" and "0 \<le> n" and "n \<le> count_free q"
  shows "\<exists>q'. pop_n n q = Inr (map Blk (take (nat n) xs), q') \<and> rep q' (drop (nat n) xs)"
proof -
  have "rep q (take (nat n) xs @ drop (nat n) xs)" using assms(1) by simp
  moreover have "int (length (take (nat n) xs)) = n"
    using assms count_rep [OF assms(1)] by (auto simp: min_def)
  ultimately show ?thesis using pop_rep by metis
qed

text \<open>What was popped and put back is evicted last: it goes behind everything that stayed.\<close>

lemma pop_put_back:
  assumes "rep q xs" and "0 \<le> n" and "n \<le> count_free q"
  shows "\<exists>q' q''. pop_n n q = Inr (map Blk (take (nat n) xs), q') \<and>
     put_back (map Blk (take (nat n) xs)) q' = Inr q'' \<and>
     rep q'' (drop (nat n) xs @ take (nat n) xs)"
proof -
  obtain q' where q': "pop_n n q = Inr (map Blk (take (nat n) xs), q')"
    "rep q' (drop (nat n) xs)"
    using pop_take [OF assms] by blast
  have "distinct xs" using assms(1) by (rule rep_distinct)
  then have "set (drop (nat n) xs) \<inter> set (take (nat n) xs) = {}"
    using set_take_disj_set_drop_if_distinct [of xs "nat n" "nat n"] by auto
  with put_back_rep [OF q'(2), of "take (nat n) xs"] \<open>distinct xs\<close> obtain q'' where
    "put_back (map Blk (take (nat n) xs)) q' = Inr q''" "rep q'' (drop (nat n) xs @ take (nat n) xs)"
    by (auto simp: distinct_take)
  with q' show ?thesis by blast
qed

lemma take_out_count:
  assumes "rep q xs" and "b \<in> set xs" and "take_out (Blk b) q = Inr q'"
  shows "count_free q' = count_free q - 1"
proof -
  obtain q2 where "take_out (Blk b) q = Inr q2" "rep q2 (remove1 b xs)"
    using take_out_rep [OF assms(1,2)] by blast
  with assms have "rep q' (remove1 b xs)" by simp
  then show ?thesis
    using count_rep assms(1,2) length_pos_if_in_set [OF assms(2)]
    by (simp add: count_rep length_remove1 of_nat_diff Suc_le_eq)
qed

end

interpretation lq: eviction_queue queue_inv num_free_blocks popleft_n remove_block append_n
proof (unfold_locales, goal_cases)
  case (1 q xs) then show ?case by (rule queue_inv_distinct)
next
  case (2 q xs ys) then show ?case by (rule queue_inv_unique)
next
  case (3 q xs) then show ?case by (rule queue_inv_num)
next
  case (4 q xs ys) then show ?case by (rule queue_inv_popleft_n)
next
  case (5 q xs b) then show ?case by (rule queue_inv_remove1)
next
  case (6 q xs ys) then show ?case by (rule queue_inv_append_n)
qed

end
