(* ===== verification/Requests.thy ===== *)
theory Requests
  imports Prelude "HOL-Library.Word" "HOL-Library.Char_ord" "HOL-Library.List_Lexorder"
begin

text \<open>
  The data of a request (\<^verbatim>\<open>vllm/v1/request.py\<close>, \<^verbatim>\<open>vllm/sampling_params.py\<close>,
  \<^verbatim>\<open>vllm/multimodal/inputs.py\<close>): its status with the order that \<open>is_finished\<close> relies on, its
  construction, and the order used by priority scheduling. Byte strings are lists of 8-bit words.
  Arrival times are only compared, so an integer scale stands for the float. Fields that only feed
  statistics, tracing or the transport layer are left out.
\<close>

type_synonym byte = "8 word"
type_synonym block_hash = "byte list"
type_synonym req_id = string
type_synonym token = int

section \<open>Status\<close>

datatype request_status =
    WAITING | WAITING_FOR_FSM | WAITING_FOR_REMOTE_KVS | WAITING_FOR_STREAMING_REQ
  | RUNNING | PREEMPTED
  | FINISHED_STOPPED | FINISHED_LENGTH_CAPPED | FINISHED_ABORTED | FINISHED_IGNORED
  | FINISHED_ERROR | FINISHED_REPETITION

datatype finish_reason = FR_STOP | FR_LENGTH | FR_ABORT | FR_ERROR | FR_REPETITION

text \<open>\<open>enum.auto()\<close> numbers the members of the \<open>IntEnum\<close> from 1 in their order.\<close>

fun status_value :: "request_status \<Rightarrow> nat" where
  "status_value WAITING = 1"
| "status_value WAITING_FOR_FSM = 2"
| "status_value WAITING_FOR_REMOTE_KVS = 3"
| "status_value WAITING_FOR_STREAMING_REQ = 4"
| "status_value RUNNING = 5"
| "status_value PREEMPTED = 6"
| "status_value FINISHED_STOPPED = 7"
| "status_value FINISHED_LENGTH_CAPPED = 8"
| "status_value FINISHED_ABORTED = 9"
| "status_value FINISHED_IGNORED = 10"
| "status_value FINISHED_ERROR = 11"
| "status_value FINISHED_REPETITION = 12"

lemma status_value_inject [simp]: "status_value a = status_value b \<longleftrightarrow> a = b"
  by (cases a; cases b) simp_all

instantiation request_status :: linorder
begin

definition less_eq_request_status :: "request_status \<Rightarrow> request_status \<Rightarrow> bool" where
  "less_eq_request_status a b = (status_value a \<le> status_value b)"

definition less_request_status :: "request_status \<Rightarrow> request_status \<Rightarrow> bool" where
  "less_request_status a b = (status_value a < status_value b)"

instance
  by intro_classes (auto simp: less_eq_request_status_def less_request_status_def)

end

definition is_finished_status :: "request_status \<Rightarrow> bool" where
  "is_finished_status s = (PREEMPTED < s)"

fun get_finished_reason :: "request_status \<Rightarrow> finish_reason option" where
  "get_finished_reason FINISHED_STOPPED = Some FR_STOP"
| "get_finished_reason FINISHED_LENGTH_CAPPED = Some FR_LENGTH"
| "get_finished_reason FINISHED_ABORTED = Some FR_ABORT"
| "get_finished_reason FINISHED_IGNORED = Some FR_LENGTH"
| "get_finished_reason FINISHED_ERROR = Some FR_ERROR"
| "get_finished_reason WAITING_FOR_STREAMING_REQ = Some FR_STOP"
| "get_finished_reason FINISHED_REPETITION = Some FR_REPETITION"
| "get_finished_reason _ = None"

section \<open>Multimodal features and parameters\<close>

record placeholder_range =
  offset :: int
  ph_length :: int
  is_embed :: "bool list option"

text \<open>\<open>embeds_cumsum[-1]\<close> of an empty mask raises.\<close>

definition get_num_embeds :: "placeholder_range \<Rightarrow> int res" where
  "get_num_embeds p =
     (case is_embed p of
        None \<Rightarrow> Inr (ph_length p)
      | Some [] \<Rightarrow> Inl IndexError
      | Some m \<Rightarrow> Inr (int (length (filter id m))))"

record mm_feature =
  mm_identifier :: string
  mm_position :: placeholder_range

record lora_request =
  lora_name :: string
  lora_int_id :: int

record repetition_params =
  max_pattern_size :: int
  min_pattern_size :: int
  min_count :: int

record sampling_params =
  sp_max_tokens :: "int option"
  min_tokens :: int
  eos_token_id :: "token option"
  stop_token_ids :: "token list"
  repetition_detection :: "repetition_params option"
  sp_skip_reading :: "bool option"
  structured_outputs :: bool

record pooling_params =
  pp_skip_reading :: "bool option"

datatype stop_reason = StopToken token | StopString string

record streaming_update =
  su_mm_features :: "mm_feature list"
  su_prompt_token_ids :: "token list"
  su_max_tokens :: int
  su_arrival_time :: int
  su_sampling_params :: "sampling_params option"

text \<open>Prompt embeddings: one row of raw tensor bytes per token.\<close>

record request =
  request_id :: req_id
  priority :: int
  sampling_params :: "sampling_params option"
  pooling_params :: "pooling_params option"
  lora_request :: "lora_request option"
  use_structured_output :: bool
  arrival_time :: int
  status :: request_status
  stop_reason :: "stop_reason option"
  max_tokens :: int
  prompt_token_ids :: "token list option"
  prompt_embeds :: "byte list list option"
  prompt_embeds_hashes :: "int \<times> int \<Rightarrow> block_hash option"
  num_prompt_tokens :: int
  output_token_ids :: "token list"
  all_token_ids :: "token list"
  num_output_placeholders :: int
  discard_latest_async_tokens :: bool
  spec_token_ids :: "token list"
  num_computed_tokens :: int
  cache_salt :: "string option"
  mm_features :: "mm_feature list"
  num_cached_tokens :: int
  is_prefill_chunk :: bool
  num_preemptions :: int
  num_external_computed_tokens :: int
  block_hashes :: "block_hash list"
  skip_reading_prefix_cache :: bool
  resumable :: bool
  streaming_queue :: "streaming_update option list option"

definition num_tokens :: "request \<Rightarrow> int" where
  "num_tokens r = int (length (all_token_ids r))"

definition num_tokens_with_spec :: "request \<Rightarrow> int" where
  "num_tokens_with_spec r = int (length (all_token_ids r)) + int (length (spec_token_ids r))"

definition num_output_tokens :: "request \<Rightarrow> int" where
  "num_output_tokens r = int (length (output_token_ids r))"

definition has_encoder_inputs :: "request \<Rightarrow> bool" where
  "has_encoder_inputs r = (0 < length (mm_features r))"

definition is_finished :: "request \<Rightarrow> bool" where
  "is_finished r = is_finished_status (status r)"

text \<open>\<open>assert input_id < len(self.mm_features)\<close>; a negative index would count from the end.\<close>

definition get_num_encoder_embeds :: "request \<Rightarrow> int \<Rightarrow> int res" where
  "get_num_encoder_embeds r input_id =
     require (input_id < int (length (mm_features r))) AssertionError
       (res_bind (py_get (mm_features r) input_id) (\<lambda>f. get_num_embeds (mm_position f)))"

definition get_skip_reading_prefix_cache ::
  "sampling_params option \<Rightarrow> pooling_params option \<Rightarrow> bool" where
  "get_skip_reading_prefix_cache sp pp =
     (case Option.bind sp sp_skip_reading of
        Some b \<Rightarrow> b
      | None \<Rightarrow> (case Option.bind pp pp_skip_reading of Some b \<Rightarrow> b | None \<Rightarrow> False))"

definition length_from_prompt :: "token list option \<Rightarrow> byte list list option \<Rightarrow> int res" where
  "length_from_prompt toks embeds =
     (case (toks, embeds) of
        (None, None) \<Rightarrow> Inl ValueError
      | (None, Some e) \<Rightarrow> Inr (int (length e))
      | (Some t, None) \<Rightarrow> Inr (int (length t))
      | (Some t, Some e) \<Rightarrow> require (length e = length t) ValueError (Inr (int (length t))))"

text \<open>
  \<open>Request.__init__\<close>, up to the call of \<open>update_block_hashes\<close>, which is in the theory of the
  block hashes.
\<close>

definition init_status :: "sampling_params option \<Rightarrow> pooling_params option \<Rightarrow>
    (int \<times> request_status) res" where
  "init_status sp pp =
     (case pp of
        Some _ \<Rightarrow> Inr (1, WAITING)
      | None \<Rightarrow>
          (case sp of
             None \<Rightarrow> Inl ValueError
           | Some s \<Rightarrow>
               (case sp_max_tokens s of
                  None \<Rightarrow> Inl AssertionError
                | Some m \<Rightarrow>
                    Inr (m, if structured_outputs s then WAITING_FOR_FSM else WAITING))))"

definition init_request ::
  "req_id \<Rightarrow> token list option \<Rightarrow> sampling_params option \<Rightarrow> pooling_params option \<Rightarrow> int \<Rightarrow>
   byte list list option \<Rightarrow> mm_feature list \<Rightarrow> lora_request option \<Rightarrow> string option \<Rightarrow> int \<Rightarrow>
   bool \<Rightarrow> request res"
where
  "init_request rid toks sp pp arr embeds mms lora salt prio resum =
     res_bind (init_status sp pp) (\<lambda>(mt, st).
     res_bind (length_from_prompt toks embeds) (\<lambda>n.
       Inr \<lparr>request_id = rid, priority = prio, sampling_params = sp, pooling_params = pp,
         lora_request = lora,
         use_structured_output = (case sp of None \<Rightarrow> False | Some s \<Rightarrow> structured_outputs s),
         arrival_time = arr, status = st, stop_reason = None, max_tokens = mt,
         prompt_token_ids = toks, prompt_embeds = embeds, prompt_embeds_hashes = (\<lambda>_. None),
         num_prompt_tokens = n, output_token_ids = [],
         all_token_ids = (case toks of Some t \<Rightarrow> t | None \<Rightarrow> py_repeat 0 n),
         num_output_placeholders = 0, discard_latest_async_tokens = False,
         spec_token_ids = [], num_computed_tokens = 0, cache_salt = salt, mm_features = mms,
         num_cached_tokens = -1, is_prefill_chunk = False, num_preemptions = 0,
         num_external_computed_tokens = 0, block_hashes = [],
         skip_reading_prefix_cache = get_skip_reading_prefix_cache sp pp,
         resumable = resum, streaming_queue = None\<rparr>))"

text \<open>
  \<open>Request.__lt__\<close>. The last comparison of the code, by object identity, is only reached for
  two objects with the same request id; requests in one scheduler have distinct ids, so it only
  ever compares an object with itself, where it is false.
\<close>

definition request_less :: "request \<Rightarrow> request \<Rightarrow> bool" where
  "request_less a b =
     (if priority a \<noteq> priority b then priority a < priority b
      else if arrival_time a \<noteq> arrival_time b then arrival_time a < arrival_time b
      else if request_id a \<noteq> request_id b then request_id a < request_id b
      else False)"

section \<open>Lemmas\<close>

lemma is_finished_status_iff:
  "is_finished_status s \<longleftrightarrow> s \<in> {FINISHED_STOPPED, FINISHED_LENGTH_CAPPED, FINISHED_ABORTED,
     FINISHED_IGNORED, FINISHED_ERROR, FINISHED_REPETITION}"
  by (cases s) (simp_all add: is_finished_status_def less_request_status_def)

lemma finished_has_reason: "is_finished_status s \<Longrightarrow> get_finished_reason s \<noteq> None"
  by (auto simp: is_finished_status_iff)

lemma request_less_irrefl [simp]: "\<not> request_less a a"
  by (simp add: request_less_def)

lemma request_less_trans: "request_less a b \<Longrightarrow> request_less b c \<Longrightarrow> request_less a c"
  by (auto simp: request_less_def split: if_splits)

lemma request_less_total:
  "request_id a \<noteq> request_id b \<Longrightarrow> request_less a b \<or> request_less b a"
  by (auto simp: request_less_def split: if_splits)

lemma request_less_asym: "request_less a b \<Longrightarrow> \<not> request_less b a"
  using request_less_trans request_less_irrefl by blast

text \<open>The order is that of the keys \<open>(priority, arrival_time, request_id)\<close>.\<close>

lemma not_request_less_trans:
  "\<not> request_less b a \<Longrightarrow> \<not> request_less c b \<Longrightarrow> \<not> request_less c a"
  by (auto simp: request_less_def split: if_splits)

lemma init_request_Inr:
  assumes "init_request rid toks sp pp arr embeds mms lora salt prio resum = Inr r"
  shows "num_tokens r = num_prompt_tokens r" and "num_computed_tokens r = 0"
    and "output_token_ids r = []" and "block_hashes r = []" and "\<not> is_finished r"
    and "request_id r = rid"
  using assms
  by (auto simp: init_request_def init_status_def length_from_prompt_def num_tokens_def
      is_finished_def is_finished_status_iff require_def res_simps split: option.splits if_splits)

text \<open>A concrete request for the examples of the development: no prompt, nothing computed.\<close>

definition sample_params :: sampling_params where
  "sample_params = \<lparr>sp_max_tokens = Some 16, min_tokens = 0, eos_token_id = Some 2,
     stop_token_ids = [], repetition_detection = None, sp_skip_reading = None,
     structured_outputs = False\<rparr>"

definition sample_request :: "req_id \<Rightarrow> token list \<Rightarrow> request" where
  "sample_request rid toks = \<lparr>request_id = rid, priority = 0,
     sampling_params = Some sample_params, pooling_params = None, lora_request = None,
     use_structured_output = False, arrival_time = 0, status = WAITING, stop_reason = None,
     max_tokens = 16, prompt_token_ids = Some toks, prompt_embeds = None,
     prompt_embeds_hashes = (\<lambda>_. None), num_prompt_tokens = int (length toks),
     output_token_ids = [], all_token_ids = toks, num_output_placeholders = 0,
     discard_latest_async_tokens = False, spec_token_ids = [], num_computed_tokens = 0,
     cache_salt = None, mm_features = [], num_cached_tokens = -1, is_prefill_chunk = False,
     num_preemptions = 0, num_external_computed_tokens = 0, block_hashes = [],
     skip_reading_prefix_cache = False, resumable = False, streaming_queue = None\<rparr>"

lemma init_sample_request:
  "init_request rid (Some toks) (Some sample_params) None 0 None [] None None 0 False
     = Inr (sample_request rid toks)"
  by (simp add: init_request_def init_status_def length_from_prompt_def sample_request_def
      sample_params_def get_skip_reading_prefix_cache_def)

end
