(* ===== verification/Block_Hash.thy ===== *)
theory Block_Hash
  imports Requests
begin

unbundle bit_operations_syntax

text \<open>
  Block hashes for prefix caching (\<^verbatim>\<open>vllm/v1/core/kv_cache_utils.py\<close>): packing a hash with the id
  of its KV cache group, the extra keys of a block, the hasher that a request calls whenever it
  gets new full blocks, and the view of a hash list at a coarser block size. The hash function
  and the hash of the empty prefix are parameters \<open>H\<close> and \<open>none_hash\<close> (\<^verbatim>\<open>sha256\<close> and friends, and
  the seed chosen by \<open>init_none_hash\<close>); \<open>sha\<close> stands for \<open>hashlib.sha256\<close> on tensor bytes.
\<close>

section \<open>Keys\<close>

definition to_bytes4 :: "int \<Rightarrow> byte list res" where
  "to_bytes4 n =
     require (0 \<le> n \<and> n < 2 ^ 32) OverflowError
       (Inr [word_of_int (n div 2 ^ 24), word_of_int (n div 2 ^ 16),
             word_of_int (n div 2 ^ 8), word_of_int n])"

definition from_bytes :: "byte list \<Rightarrow> int" where
  "from_bytes bs = foldl (\<lambda>a b. a * 256 + uint b) 0 bs"

definition make_block_hash_with_group_id :: "block_hash \<Rightarrow> int \<Rightarrow> byte list res" where
  "make_block_hash_with_group_id h g = res_bind (to_bytes4 g) (\<lambda>t. Inr (h @ t))"

definition get_block_hash :: "byte list \<Rightarrow> block_hash" where
  "get_block_hash key = py_upto key (-4)"

definition get_group_id :: "byte list \<Rightarrow> int" where
  "get_group_id key = from_bytes (py_from key (-4))"

datatype external_block_hash = ExtBytes block_hash | ExtInt int

definition maybe_convert_block_hash :: "bool \<Rightarrow> block_hash \<Rightarrow> external_block_hash" where
  "maybe_convert_block_hash use_int h =
     (if \<not> use_int then ExtBytes h else ExtInt (from_bytes h AND (push_bit 64 1 - 1)))"

section \<open>Extra keys\<close>

datatype extra_key = KStr string | KBytes block_hash

function gen_mm_loop ::
  "mm_feature list \<Rightarrow> int \<Rightarrow> int \<Rightarrow> nat \<Rightarrow> string list \<Rightarrow> string list \<times> int"
where
  "gen_mm_loop mms s e i acc =
     (if i < length mms then
        let f = mms ! i; off = offset (mm_position f); len = ph_length (mm_position f) in
        if e > off then
          if s > off + len then gen_mm_loop mms s e (Suc i) acc
          else if e \<ge> off + len then gen_mm_loop mms s e (Suc i) (acc @ [mm_identifier f])
          else (acc @ [mm_identifier f], int i)
        else (acc, int i)
      else (acc, int i))"
  by pat_completeness auto
termination
  by (relation "measure (\<lambda>(mms, s, e, i, acc). length mms - i)") auto

declare gen_mm_loop.simps [simp del]

definition gen_mm_extra_hash_keys ::
  "request \<Rightarrow> int \<Rightarrow> int \<Rightarrow> int \<Rightarrow> (string list \<times> int) res" where
  "gen_mm_extra_hash_keys r s e start_mm_idx =
     (let mms = mm_features r in
      if mms = [] then Inr ([], start_mm_idx)
      else
        let last_pos = mm_position (last mms) in
        if offset last_pos + ph_length last_pos < s then Inr ([], start_mm_idx)
        else if start_mm_idx < 0 then
          require (- start_mm_idx \<le> int (length mms)) AssertionError
            (Inr (gen_mm_loop mms s e (nat (int (length mms) + start_mm_idx)) []))
        else Inr (gen_mm_loop mms s e (nat start_mm_idx) []))"

definition gen_lora_extra_hash_keys :: "request \<Rightarrow> string list" where
  "gen_lora_extra_hash_keys r =
     (case lora_request r of None \<Rightarrow> [] | Some l \<Rightarrow> [lora_name l])"

text \<open>The hash of a slice of the prompt embeddings is computed once and kept on the request.\<close>

definition gen_prompt_embeds_extra_hash_keys ::
  "(byte list \<Rightarrow> block_hash) \<Rightarrow> request \<Rightarrow> int \<Rightarrow> int \<Rightarrow> block_hash list \<times> request" where
  "gen_prompt_embeds_extra_hash_keys sha r s e =
     (case prompt_embeds r of
        None \<Rightarrow> ([], r)
      | Some emb \<Rightarrow>
          (case prompt_embeds_hashes r (s, e) of
             Some h \<Rightarrow> ([h], r)
           | None \<Rightarrow>
               (let h = sha (concat (py_slice emb s e))
                in ([h], r\<lparr>prompt_embeds_hashes := (prompt_embeds_hashes r)((s, e) := Some h)\<rparr>))))"

definition generate_block_hash_extra_keys ::
  "(byte list \<Rightarrow> block_hash) \<Rightarrow> request \<Rightarrow> int \<Rightarrow> int \<Rightarrow> int \<Rightarrow>
   (extra_key list option \<times> int \<times> request) res" where
  "generate_block_hash_extra_keys sha r s e start_mm_idx =
     res_bind (gen_mm_extra_hash_keys r s e start_mm_idx) (\<lambda>(mm_keys, new_idx).
       let lora_keys = gen_lora_extra_hash_keys r;
           salt_keys = (case cache_salt r of
              None \<Rightarrow> [] | Some salt \<Rightarrow> if s = 0 \<and> salt \<noteq> [] then [salt] else []);
           (embeds_keys, r') = gen_prompt_embeds_extra_hash_keys sha r s e;
           keys = map KStr lora_keys @ map KStr mm_keys @ map KStr salt_keys @ map KBytes embeds_keys
       in Inr (if keys = [] then None else Some keys, new_idx, r'))"

section \<open>The hasher\<close>

type_synonym hash_input = "block_hash \<times> token list \<times> extra_key list option"

text \<open>\<open>if not parent_block_hash\<close> is true of \<open>None\<close> and of the empty byte string.\<close>

definition hash_block_tokens ::
  "(hash_input \<Rightarrow> block_hash) \<Rightarrow> block_hash \<Rightarrow> block_hash option \<Rightarrow> token list \<Rightarrow>
   extra_key list option \<Rightarrow> block_hash" where
  "hash_block_tokens H none_hash parent toks extra_keys =
     H (case parent of None \<Rightarrow> none_hash | Some p \<Rightarrow> if p = [] then none_hash else p,
        toks, extra_keys)"

text \<open>
  The \<open>while True\<close> loop of \<open>request_block_hasher\<close>; with a block size that is not positive it does
  not return.
\<close>

partial_function (option) hasher_loop ::
  "(hash_input \<Rightarrow> block_hash) \<Rightarrow> (byte list \<Rightarrow> block_hash) \<Rightarrow> block_hash \<Rightarrow> int \<Rightarrow> int \<Rightarrow>
   request \<Rightarrow> int \<Rightarrow> int \<Rightarrow> block_hash option \<Rightarrow> block_hash list \<Rightarrow>
   (request \<times> block_hash list) res option"
where
  "hasher_loop H sha none_hash bs ntok r start mm_idx prev acc =
     (let e = start + bs in
      if e > ntok then Some (Inr (r, acc))
      else (case generate_block_hash_extra_keys sha r start e mm_idx of
              Inl err \<Rightarrow> Some (Inl err)
            | Inr res \<Rightarrow>
                (let keys = fst res; mm_idx' = fst (snd res); r' = snd (snd res);
                     toks = py_slice (all_token_ids r) start e;
                     h = hash_block_tokens H none_hash prev toks keys
                 in hasher_loop H sha none_hash bs ntok r' e mm_idx' (Some h) (acc @ [h]))))"

definition request_block_hasher ::
  "(hash_input \<Rightarrow> block_hash) \<Rightarrow> (byte list \<Rightarrow> block_hash) \<Rightarrow> block_hash \<Rightarrow> int \<Rightarrow> request \<Rightarrow>
   (request \<times> block_hash list) res option" where
  "request_block_hasher H sha none_hash bs r =
     (let start = int (length (block_hashes r)) * bs in
      if start + bs > num_tokens r then Some (Inr (r, []))
      else
        hasher_loop H sha none_hash bs (num_tokens r) r start (if 0 < start then -1 else 0)
          (if block_hashes r \<noteq> [] then Some (last (block_hashes r)) else None) [])"

text \<open>\<open>Request.update_block_hashes\<close>; \<open>None\<close> is a request without a hasher.\<close>

type_synonym hasher = "request \<Rightarrow> (request \<times> block_hash list) res option"

definition update_block_hashes :: "hasher option \<Rightarrow> request \<Rightarrow> request res option" where
  "update_block_hashes hs r =
     (case hs of
        None \<Rightarrow> Some (Inr r)
      | Some f \<Rightarrow>
          map_option (map_sum id (\<lambda>(r', hs). r'\<lparr>block_hashes := block_hashes r' @ hs\<rparr>)) (f r))"

definition append_output_token_ids ::
  "hasher option \<Rightarrow> token list \<Rightarrow> request \<Rightarrow> request res option" where
  "append_output_token_ids hs toks r =
     update_block_hashes hs
       (r\<lparr>output_token_ids := output_token_ids r @ toks,
          all_token_ids := all_token_ids r @ toks\<rparr>)"

section \<open>Hashes at a coarser block size\<close>

text \<open>
  \<open>BlockHashListWithBlockSize\<close>: the hash of block \<open>idx\<close> is the concatenation of
  \<open>scale_factor\<close> consecutive hashes. \<open>rescale\<close> is the whole list, as iteration yields it.
\<close>

fun concat_range :: "block_hash list \<Rightarrow> int \<Rightarrow> nat \<Rightarrow> block_hash \<Rightarrow> block_hash res" where
  "concat_range hs i 0 acc = Inr acc"
| "concat_range hs i (Suc n) acc =
     res_bind (py_get hs i) (\<lambda>h. concat_range hs (i + 1) n (acc @ h))"

definition get_value_at :: "block_hash list \<Rightarrow> int \<Rightarrow> int \<Rightarrow> block_hash res" where
  "get_value_at hs scale idx =
     (let base = idx * scale in
      res_bind (py_get hs base) (\<lambda>h. concat_range hs (base + 1) (nat (scale - 1)) h))"

fun seq_res :: "'a res list \<Rightarrow> 'a list res" where
  "seq_res [] = Inr []"
| "seq_res (m # ms) = res_bind m (\<lambda>x. res_bind (seq_res ms) (\<lambda>xs. Inr (x # xs)))"

definition block_hashes_with_block_size ::
  "block_hash list \<Rightarrow> int \<Rightarrow> int \<Rightarrow> block_hash list res" where
  "block_hashes_with_block_size hs hash_bs target_bs =
     require (hash_bs \<noteq> 0) ZeroDivisionError
       (require (target_bs mod hash_bs = 0) AssertionError
         (let scale = target_bs div hash_bs in
          require (scale \<noteq> 0) ZeroDivisionError
            (seq_res (map (\<lambda>i. get_value_at hs scale (int i))
               [0..<nat (int (length hs) div scale)]))))"

section \<open>Packing and unpacking keys\<close>

lemma uint_byte [simp]: "uint (word_of_int n :: byte) = n mod 256"
  by (simp add: uint_word_of_int)

lemma from_bytes_to_bytes4:
  assumes "0 \<le> n" and "n < 2 ^ 32"
  shows "from_bytes [word_of_int (n div 2 ^ 24), word_of_int (n div 2 ^ 16),
             word_of_int (n div 2 ^ 8), word_of_int n] = n"
proof -
  have top: "n div 16777216 mod 256 = n div 16777216" using assms by simp
  have q2: "n div 16777216 * 256 + n div 65536 mod 256 = n div 65536"
    using div_mult_mod_eq [of "n div 65536" 256] zdiv_zmult2_eq [of 256 n 65536] by simp
  have q1: "n div 65536 * 256 + n div 256 mod 256 = n div 256"
    using div_mult_mod_eq [of "n div 256" 256] zdiv_zmult2_eq [of 256 n 256] by simp
  have q0: "n div 256 * 256 + n mod 256 = n" by (rule div_mult_mod_eq)
  have "from_bytes [word_of_int (n div 2 ^ 24), word_of_int (n div 2 ^ 16),
      word_of_int (n div 2 ^ 8), word_of_int n] =
    ((n div 16777216 mod 256 * 256 + n div 65536 mod 256) * 256 + n div 256 mod 256) * 256 +
      n mod 256"
    by (simp add: from_bytes_def)
  also have "\<dots> = n" by (simp only: top q2 q1 q0)
  finally show ?thesis .
qed

lemma to_bytes4_eq_Inr: "to_bytes4 g = Inr t \<longleftrightarrow> 0 \<le> g \<and> g < 2 ^ 32 \<and>
    t = [word_of_int (g div 2 ^ 24), word_of_int (g div 2 ^ 16),
         word_of_int (g div 2 ^ 8), word_of_int g]"
  by (auto simp: to_bytes4_def res_simps)

lemma length_to_bytes4: "to_bytes4 g = Inr t \<Longrightarrow> length t = 4"
  by (auto simp: to_bytes4_eq_Inr)

lemma make_key_Inr:
  "make_block_hash_with_group_id h g = Inr key \<longleftrightarrow> (\<exists>t. to_bytes4 g = Inr t \<and> key = h @ t)"
  by (auto simp: make_block_hash_with_group_id_def res_simps)

lemma make_key_total: "0 \<le> g \<Longrightarrow> g < 2 ^ 32 \<Longrightarrow> \<exists>key. make_block_hash_with_group_id h g = Inr key"
  by (simp add: make_block_hash_with_group_id_def to_bytes4_def)

lemma key_parts:
  assumes "make_block_hash_with_group_id h g = Inr key"
  shows "get_block_hash key = h" and "get_group_id key = g"
proof -
  from assms obtain t where t: "to_bytes4 g = Inr t" "key = h @ t" by (auto simp: make_key_Inr)
  then have "length t = 4" by (simp add: length_to_bytes4)
  then show "get_block_hash key = h" "get_group_id key = g"
    using t from_bytes_to_bytes4 [of g]
    by (simp_all add: get_block_hash_def get_group_id_def py_upto_def py_from_def py_clamp_def
        to_bytes4_eq_Inr)
qed

lemma make_key_inject:
  "make_block_hash_with_group_id h g = Inr k \<Longrightarrow> make_block_hash_with_group_id h' g' = Inr k
    \<Longrightarrow> h = h' \<and> g = g'"
  using key_parts by metis

lemma maybe_convert_int_range:
  "maybe_convert_block_hash True h = ExtInt n \<Longrightarrow> n = from_bytes h mod 2 ^ 64"
proof -
  have "(push_bit 64 1 - 1 :: int) = mask 64"
    by (simp only: mask_eq_exp_minus_1 push_bit_eq_mult mult_1)
  then have "from_bytes h AND (push_bit 64 1 - 1) = from_bytes h mod 2 ^ 64"
    by (simp only: take_bit_eq_mask [symmetric] take_bit_eq_mod)
  then show "maybe_convert_block_hash True h = ExtInt n \<Longrightarrow> n = from_bytes h mod 2 ^ 64"
    by (simp only: maybe_convert_block_hash_def simp_thms if_False external_block_hash.inject)
qed

section \<open>The chain of hashes\<close>

text \<open>
  What the hasher computes: the hash of block \<open>k\<close> is taken over the hash of block \<open>k - 1\<close>, the
  tokens of the block and its extra keys.
\<close>

fun hash_chain ::
  "(hash_input \<Rightarrow> block_hash) \<Rightarrow> block_hash \<Rightarrow> int \<Rightarrow> (int \<Rightarrow> extra_key list option) \<Rightarrow>
   token list \<Rightarrow> nat \<Rightarrow> block_hash list"
where
  "hash_chain H none_hash bs keys toks 0 = []"
| "hash_chain H none_hash bs keys toks (Suc k) =
     (let hs = hash_chain H none_hash bs keys toks k in
      hs @ [hash_block_tokens H none_hash (if hs = [] then None else Some (last hs))
              (py_slice toks (int k * bs) (int k * bs + bs)) (keys (int k * bs))])"

lemma length_hash_chain [simp]: "length (hash_chain H n bs ks ts k) = k"
  by (induction k) (simp_all add: Let_def)

lemma take_hash_chain:
  "j \<le> k \<Longrightarrow> take j (hash_chain H n bs ks ts k) = hash_chain H n bs ks ts j"
proof (induction k)
  case 0
  then show ?case by simp
next
  case (Suc k)
  then show ?case by (cases "j = Suc k") (simp_all add: Let_def)
qed

lemma hash_chain_split:
  "j \<le> k \<Longrightarrow> hash_chain H n bs ks ts k =
     hash_chain H n bs ks ts j @ drop j (hash_chain H n bs ks ts k)"
  by (metis append_take_drop_id take_hash_chain)

lemma hash_chain_nth:
  assumes "i < k"
  shows "hash_chain H n bs ks ts k ! i = last (hash_chain H n bs ks ts (Suc i))"
proof -
  have "hash_chain H n bs ks ts k ! i = take (Suc i) (hash_chain H n bs ks ts k) ! i"
    using assms by simp
  also have "\<dots> = hash_chain H n bs ks ts (Suc i) ! i"
    using assms by (subst take_hash_chain) simp_all
  also have "\<dots> = last (hash_chain H n bs ks ts (Suc i))"
    by (simp add: Let_def nth_append)
  finally show ?thesis .
qed

text \<open>Tokens that come later do not change the hashes of the blocks that were full before.\<close>

lemma hash_chain_append:
  assumes "0 < bs" and "int k * bs \<le> int (length ts)"
  shows "hash_chain H n bs ks (ts @ us) k = hash_chain H n bs ks ts k"
  using assms(2)
proof (induction k)
  case 0
  then show ?case by simp
next
  case (Suc k)
  have le: "int k * bs + bs \<le> int (length ts)" using Suc.prems by (simp add: algebra_simps)
  then have "py_slice (ts @ us) (int k * bs) (int k * bs + bs) = py_slice ts (int k * bs) (int k * bs + bs)"
    using assms(1) by (simp add: py_slice_nonneg nat_le_iff)
  moreover have "int k * bs \<le> int (length ts)" using le assms(1) by linarith
  ultimately show ?case using Suc.IH by (simp add: Let_def)
qed

text \<open>
  A text request: no multimodal features, no prompt embeddings. Its keys depend only on the
  position of the block.
\<close>

definition plain :: "request \<Rightarrow> bool" where
  "plain r \<longleftrightarrow> mm_features r = [] \<and> prompt_embeds r = None"

definition plain_keys :: "request \<Rightarrow> int \<Rightarrow> extra_key list option" where
  "plain_keys r s =
     (let keys = map KStr (gen_lora_extra_hash_keys r) @
        (case cache_salt r of None \<Rightarrow> []
         | Some salt \<Rightarrow> if s = 0 \<and> salt \<noteq> [] then [KStr salt] else [])
      in if keys = [] then None else Some keys)"

lemma generate_plain:
  "plain r \<Longrightarrow> generate_block_hash_extra_keys sha r s e i = Inr (plain_keys r s, i, r)"
  by (simp add: plain_def plain_keys_def generate_block_hash_extra_keys_def
      gen_mm_extra_hash_keys_def gen_prompt_embeds_extra_hash_keys_def Let_def split: option.split)

definition chain_of :: "(hash_input \<Rightarrow> block_hash) \<Rightarrow> block_hash \<Rightarrow> int \<Rightarrow> request \<Rightarrow> nat \<Rightarrow> block_hash list"
  where "chain_of H none_hash bs r k = hash_chain H none_hash bs (plain_keys r) (all_token_ids r) k"

definition full_blocks :: "int \<Rightarrow> request \<Rightarrow> nat" where
  "full_blocks bs r = nat (num_tokens r div bs)"

lemma full_block_iff:
  assumes "0 < bs"
  shows "int k * bs + bs > num_tokens r \<longleftrightarrow> full_blocks bs r \<le> k"
proof -
  have "num_tokens r < (int k + 1) * bs \<longleftrightarrow> num_tokens r div bs < int k + 1"
    by (rule int_div_less_iff [OF assms, symmetric])
  then show ?thesis by (auto simp: full_blocks_def algebra_simps)
qed

lemma hasher_loop_plain:
  assumes "0 < bs" and "plain r" and "k0 \<le> k" and "k \<le> full_blocks bs r"
  shows "hasher_loop H sha none_hash bs (num_tokens r) r (int k * bs) mm_idx
      (if chain_of H none_hash bs r k = [] then None else Some (last (chain_of H none_hash bs r k)))
      (drop k0 (chain_of H none_hash bs r k))
    = Some (Inr (r, drop k0 (chain_of H none_hash bs r (full_blocks bs r))))"
  using assms(3,4)
proof (induction "full_blocks bs r - k" arbitrary: k)
  case 0
  then have "k = full_blocks bs r" by simp
  then show ?case
    using full_block_iff [OF assms(1), of r k] by (simp add: hasher_loop.simps Let_def)
next
  case (Suc d)
  then have "k < full_blocks bs r" by simp
  then have step: "\<not> int k * bs + bs > num_tokens r" using full_block_iff [OF assms(1)] by simp
  have ih: "hasher_loop H sha none_hash bs (num_tokens r) r (int (Suc k) * bs) mm_idx
      (if chain_of H none_hash bs r (Suc k) = [] then None
       else Some (last (chain_of H none_hash bs r (Suc k))))
      (drop k0 (chain_of H none_hash bs r (Suc k)))
    = Some (Inr (r, drop k0 (chain_of H none_hash bs r (full_blocks bs r))))"
    by (rule Suc.hyps(1)) (use Suc.hyps(2) Suc.prems \<open>k < full_blocks bs r\<close> in simp_all)
  have next_pos: "int (Suc k) * bs = int k * bs + bs" by (simp add: algebra_simps)
  have ne: "chain_of H none_hash bs r (Suc k) \<noteq> []"
    by (simp add: chain_of_def Let_def)
  have "drop k0 (chain_of H none_hash bs r (Suc k)) = drop k0 (chain_of H none_hash bs r k) @
      [last (chain_of H none_hash bs r (Suc k))]"
    using Suc.prems(1) by (simp add: chain_of_def Let_def)
  moreover have "last (chain_of H none_hash bs r (Suc k)) = hash_block_tokens H none_hash
      (if chain_of H none_hash bs r k = [] then None else Some (last (chain_of H none_hash bs r k)))
      (py_slice (all_token_ids r) (int k * bs) (int k * bs + bs)) (plain_keys r (int k * bs))"
    by (simp add: chain_of_def Let_def)
  ultimately show ?case
    using ih step ne unfolding next_pos
    by (subst hasher_loop.simps) (simp add: generate_plain [OF assms(2)] Let_def)
qed

definition hashes_ok :: "(hash_input \<Rightarrow> block_hash) \<Rightarrow> block_hash \<Rightarrow> int \<Rightarrow> request \<Rightarrow> bool" where
  "hashes_ok H none_hash bs r \<longleftrightarrow> block_hashes r = chain_of H none_hash bs r (full_blocks bs r)"

lemma request_block_hasher_plain:
  assumes "0 < bs" and "plain r" and "block_hashes r = chain_of H none_hash bs r k"
    and "k \<le> full_blocks bs r"
  shows "request_block_hasher H sha none_hash bs r
    = Some (Inr (r, drop k (chain_of H none_hash bs r (full_blocks bs r))))"
proof -
  have len: "length (block_hashes r) = k" using assms(3) by (simp add: chain_of_def)
  show ?thesis
  proof (cases "int k * bs + bs > num_tokens r")
    case True
    then have "k = full_blocks bs r" using assms(4) full_block_iff [OF assms(1)] by simp
    with True len show ?thesis by (simp add: request_block_hasher_def Let_def chain_of_def)
  next
    case False
    have e: "(if block_hashes r \<noteq> [] then Some (last (block_hashes r)) else None) =
      (if chain_of H none_hash bs r k = [] then None else Some (last (chain_of H none_hash bs r k)))"
      using assms(3) by simp
    have z: "drop k (chain_of H none_hash bs r k) = []" by (simp add: chain_of_def)
    show ?thesis
      using hasher_loop_plain [OF assms(1,2) order_refl assms(4), of H sha none_hash]
      unfolding request_block_hasher_def len Let_def e z using False by simp
  qed
qed

lemma update_block_hashes_plain:
  assumes "0 < bs" and "plain r" and "block_hashes r = chain_of H none_hash bs r k"
    and "k \<le> full_blocks bs r"
  shows "update_block_hashes (Some (request_block_hasher H sha none_hash bs)) r
    = Some (Inr (r\<lparr>block_hashes := chain_of H none_hash bs r (full_blocks bs r)\<rparr>))"
proof -
  have "chain_of H none_hash bs r k @ drop k (chain_of H none_hash bs r (full_blocks bs r))
      = chain_of H none_hash bs r (full_blocks bs r)"
    unfolding chain_of_def using hash_chain_split [OF assms(4)] by simp
  then show ?thesis
    using request_block_hasher_plain [OF assms] assms(3) by (simp add: update_block_hashes_def)
qed

section \<open>Properties of the hasher\<close>

lemma num_full_bound: "0 < bs \<Longrightarrow> int (full_blocks bs r) * bs \<le> num_tokens r"
proof -
  assume bs: "0 < bs"
  have "0 \<le> num_tokens r div bs"
    using bs by (simp add: num_tokens_def pos_imp_zdiv_nonneg_iff)
  then show ?thesis using bs by (simp add: full_blocks_def int_le_div_iff [symmetric])
qed

lemma plain_keys_cong:
  "lora_request r' = lora_request r \<Longrightarrow> cache_salt r' = cache_salt r \<Longrightarrow> plain_keys r' = plain_keys r"
  by (simp add: plain_keys_def gen_lora_extra_hash_keys_def fun_eq_iff)

text \<open>
  C37. Incremental hashing of a text request. If a request holds the hashes of all its full blocks,
  appending output tokens returns, and the request holds again exactly the hashes of all its
  full blocks: the same list as if all tokens had been hashed at once.
\<close>

theorem append_keeps_hashes:
  assumes "0 < bs" and "plain r" and "hashes_ok H none_hash bs r"
  shows "\<exists>r'. append_output_token_ids (Some (request_block_hasher H sha none_hash bs)) toks r
       = Some (Inr r') \<and>
     all_token_ids r' = all_token_ids r @ toks \<and> output_token_ids r' = output_token_ids r @ toks \<and>
     hashes_ok H none_hash bs r' \<and> length (block_hashes r') = nat (num_tokens r' div bs)"
proof -
  let ?r = "r\<lparr>output_token_ids := output_token_ids r @ toks, all_token_ids := all_token_ids r @ toks\<rparr>"
  have keys: "plain_keys ?r = plain_keys r" by (rule plain_keys_cong) simp_all
  have p: "plain ?r" using assms(2) by (simp add: plain_def)
  have k: "full_blocks bs r \<le> full_blocks bs ?r"
    using assms(1) by (simp add: full_blocks_def num_tokens_def nat_mono zdiv_mono1)
  have "block_hashes ?r = chain_of H none_hash bs ?r (full_blocks bs r)"
    using assms(3) num_full_bound [OF assms(1), of r]
    by (simp add: hashes_ok_def chain_of_def keys hash_chain_append [OF assms(1)] num_tokens_def)
  from update_block_hashes_plain [OF assms(1) p this k]
  have "append_output_token_ids (Some (request_block_hasher H sha none_hash bs)) toks r
      = Some (Inr (?r\<lparr>block_hashes := chain_of H none_hash bs ?r (full_blocks bs ?r)\<rparr>))"
    by (simp add: append_output_token_ids_def)
  moreover have "plain_keys (?r\<lparr>block_hashes := hs\<rparr>) = plain_keys ?r" for hs
    by (rule plain_keys_cong) simp_all
  ultimately show ?thesis
    by (simp add: hashes_ok_def chain_of_def full_blocks_def num_tokens_def)
qed

text \<open>A new text request gets the hashes of all full blocks of its prompt.\<close>

lemma new_request_hashes:
  assumes "init_request rid toks sp pp arr None [] lora salt prio resum = Inr r" and "0 < bs"
  shows "\<exists>r'. update_block_hashes (Some (request_block_hasher H sha none_hash bs)) r = Some (Inr r')
     \<and> hashes_ok H none_hash bs r' \<and> plain r' \<and> all_token_ids r' = all_token_ids r"
proof -
  have p: "plain r" and h: "block_hashes r = chain_of H none_hash bs r 0"
    using assms(1)
    by (auto simp: init_request_def plain_def chain_of_def res_simps split: prod.splits)
  note up = update_block_hashes_plain [OF assms(2) p h le0, of sha]
  have "plain_keys (r\<lparr>block_hashes := hs\<rparr>) = plain_keys r" for hs by (rule plain_keys_cong) simp_all
  then show ?thesis using p up
    by (simp add: hashes_ok_def chain_of_def full_blocks_def num_tokens_def plain_def)
qed

text \<open>
  A failure of the hash function as far as prefix caching is concerned: two inputs with the same
  hash, or an input whose hash is the empty byte string or the hash of the empty prefix.
\<close>

definition hash_failure :: "(hash_input \<Rightarrow> block_hash) \<Rightarrow> block_hash \<Rightarrow> bool" where
  "hash_failure H none_hash \<longleftrightarrow>
     (\<exists>x y. x \<noteq> y \<and> H x = H y) \<or> (\<exists>x. H x = none_hash) \<or> (\<exists>x. H x = [])"

text \<open>The hash that block \<open>k\<close> of a chain is built on.\<close>

definition chain_parent ::
  "(hash_input \<Rightarrow> block_hash) \<Rightarrow> block_hash \<Rightarrow> int \<Rightarrow> (int \<Rightarrow> extra_key list option) \<Rightarrow>
   token list \<Rightarrow> nat \<Rightarrow> block_hash" where
  "chain_parent H n bs ks ts k =
     (if k = 0 \<or> last (hash_chain H n bs ks ts k) = [] then n else last (hash_chain H n bs ks ts k))"

text \<open>What is hashed for block \<open>k\<close> of a chain.\<close>

definition chain_input ::
  "(hash_input \<Rightarrow> block_hash) \<Rightarrow> block_hash \<Rightarrow> int \<Rightarrow> (int \<Rightarrow> extra_key list option) \<Rightarrow>
   token list \<Rightarrow> nat \<Rightarrow> hash_input" where
  "chain_input H n bs ks ts k =
     (chain_parent H n bs ks ts k, py_slice ts (int k * bs) (int k * bs + bs), ks (int k * bs))"

text \<open>
  A collision that two chains of \<open>i + 1\<close> and \<open>j + 1\<close> blocks themselves exhibit: a block of the one
  and a block of the other that have the same hash for different inputs, or a block before the last
  one of either chain whose hash is that of the empty prefix or the empty byte string. Nothing but
  the inputs that are hashed for these blocks counts.
\<close>

definition chain_collision ::
  "(hash_input \<Rightarrow> block_hash) \<Rightarrow> block_hash \<Rightarrow> int \<Rightarrow>
   (int \<Rightarrow> extra_key list option) \<Rightarrow> token list \<Rightarrow> nat \<Rightarrow>
   (int \<Rightarrow> extra_key list option) \<Rightarrow> token list \<Rightarrow> nat \<Rightarrow> bool" where
  "chain_collision H n bs ks ts i ks' ts' j \<longleftrightarrow>
     (\<exists>k\<in>{..i}. \<exists>l\<in>{..j}. chain_input H n bs ks ts k \<noteq> chain_input H n bs ks' ts' l
        \<and> H (chain_input H n bs ks ts k) = H (chain_input H n bs ks' ts' l))
     \<or> (\<exists>k\<in>{..<i}. H (chain_input H n bs ks ts k) \<in> {n, []})
     \<or> (\<exists>l\<in>{..<j}. H (chain_input H n bs ks' ts' l) \<in> {n, []})"

lemma chain_collision_failure: "chain_collision H n bs ks ts i ks' ts' j \<Longrightarrow> hash_failure H n"
  unfolding chain_collision_def hash_failure_def by blast

lemma chain_collision_Suc:
  "chain_collision H n bs ks ts i ks' ts' j \<Longrightarrow> chain_collision H n bs ks ts (Suc i) ks' ts' (Suc j)"
  unfolding chain_collision_def by (meson atMost_iff le_SucI lessThan_iff less_SucI)

lemma hash_chain_last: "last (hash_chain H n bs ks ts (Suc k)) = H (chain_input H n bs ks ts k)"
proof (cases k)
  case 0
  then show ?thesis by (simp add: hash_block_tokens_def chain_parent_def chain_input_def Let_def)
next
  case (Suc j)
  have "hash_chain H n bs ks ts k \<noteq> []" using Suc by (simp add: Let_def)
  then show ?thesis using Suc
    by (simp add: hash_block_tokens_def chain_parent_def chain_input_def Let_def)
qed

lemma chain_parent_0: "chain_parent H n bs ks ts 0 = n"
  by (simp add: chain_parent_def)

lemma chain_parent_Suc:
  assumes "H (chain_input H n bs ks ts k) \<notin> {n, []}"
  shows "chain_parent H n bs ks ts (Suc k) = H (chain_input H n bs ks ts k)"
    and "chain_parent H n bs ks ts (Suc k) \<noteq> n"
  using assms unfolding chain_parent_def hash_chain_last by simp_all

text \<open>
  Chains without a collision of their own: equal last hashes mean equally many blocks with equal
  tokens and keys.
\<close>

lemma chain_inject:
  assumes "\<not> chain_collision H n bs ks ts i ks' ts' j"
    and "H (chain_input H n bs ks ts i) = H (chain_input H n bs ks' ts' j)"
  shows "i = j \<and> (\<forall>k\<le>i. chain_input H n bs ks ts k = chain_input H n bs ks' ts' k)"
  using assms
proof (induction i arbitrary: j)
  case 0
  then have eq: "chain_input H n bs ks ts 0 = chain_input H n bs ks' ts' j"
    unfolding chain_collision_def by blast
  then have par: "chain_parent H n bs ks' ts' j = n" by (simp add: chain_input_def chain_parent_0)
  have "j = 0"
  proof (rule ccontr)
    assume "j \<noteq> 0"
    then obtain k where k: "j = Suc k" by (cases j) auto
    then have "H (chain_input H n bs ks' ts' k) \<notin> {n, []}"
      using "0.prems"(1) unfolding chain_collision_def by blast
    with par k chain_parent_Suc(2) show False by blast
  qed
  with eq show ?case by simp
next
  case (Suc i)
  have eq: "chain_input H n bs ks ts (Suc i) = chain_input H n bs ks' ts' j"
    using Suc.prems unfolding chain_collision_def by blast
  then have par: "chain_parent H n bs ks ts (Suc i) = chain_parent H n bs ks' ts' j"
    by (simp add: chain_input_def)
  have ok: "H (chain_input H n bs ks ts i) \<notin> {n, []}"
    using Suc.prems(1) unfolding chain_collision_def by blast
  have "j \<noteq> 0"
  proof
    assume "j = 0"
    with par chain_parent_0 have "chain_parent H n bs ks ts (Suc i) = n" by (simp only:)
    with chain_parent_Suc(2) [of H n bs ks ts i] ok show False by blast
  qed
  then obtain j' where j: "j = Suc j'" by (cases j) auto
  have ok': "H (chain_input H n bs ks' ts' j') \<notin> {n, []}"
    using Suc.prems(1) unfolding j chain_collision_def by blast
  have "H (chain_input H n bs ks ts i) = H (chain_input H n bs ks' ts' j')"
    using par chain_parent_Suc(1) [of H n bs ks ts i] chain_parent_Suc(1) [of H n bs ks' ts' j'] ok ok'
    unfolding j by (simp only:) simp
  moreover have "\<not> chain_collision H n bs ks ts i ks' ts' j'"
    using Suc.prems(1) chain_collision_Suc unfolding j by blast
  ultimately have "i = j'" "\<forall>k\<le>i. chain_input H n bs ks ts k = chain_input H n bs ks' ts' k"
    using Suc.IH by blast+
  with eq j show ?case by (simp add: le_Suc_eq)
qed

lemma hash_chain_inject:
  assumes "\<not> hash_failure H n"
    and "last (hash_chain H n bs ks ts (Suc i)) = last (hash_chain H n bs ks' ts' (Suc j))"
  shows "i = j \<and> (\<forall>k\<le>i. py_slice ts (int k * bs) (int k * bs + bs) = py_slice ts' (int k * bs) (int k * bs + bs)
      \<and> ks (int k * bs) = ks' (int k * bs))"
proof -
  have "\<not> chain_collision H n bs ks ts i ks' ts' j" using assms(1) chain_collision_failure by blast
  from chain_inject [OF this assms(2) [unfolded hash_chain_last]] show ?thesis
    by (simp add: chain_input_def)
qed

lemma take_blocks:
  assumes "0 < bs" and "\<And>k. k \<le> i \<Longrightarrow> py_slice ts (int k * bs) (int k * bs + bs) =
      py_slice ts' (int k * bs) (int k * bs + bs)"
  shows "take (Suc i * nat bs) ts = take (Suc i * nat bs) ts'"
  using assms(2)
proof (induction i)
  case 0
  then show ?case using "0" [of 0] assms(1) by (simp add: py_slice_nonneg)
next
  case (Suc i)
  have "nat (int (Suc i) * bs) = Suc i * nat bs" using assms(1) by (simp only: nat_mult_distrib nat_int)
  moreover have "nat (int (Suc i) * bs + bs) = Suc i * nat bs + nat bs"
    using assms(1) calculation by (simp add: nat_add_distrib)
  ultimately have "take (nat bs) (drop (Suc i * nat bs) ts) = take (nat bs) (drop (Suc i * nat bs) ts')"
    using Suc.prems [OF order_refl] assms(1) by (simp add: py_slice_nonneg drop_take)
  moreover have "take (Suc i * nat bs) ts = take (Suc i * nat bs) ts'"
    using Suc.IH Suc.prems by simp
  moreover have "Suc (Suc i) * nat bs = Suc i * nat bs + nat bs" by simp
  ultimately show ?case by (simp only: take_add)
qed

text \<open>
  C38. Soundness of prefix caching. If two text requests that hold the hashes of all their full
  blocks have the same hash, in block \<open>i\<close> of the one and block \<open>j\<close> of the other, then either these
  blocks or their predecessors in the two requests exhibit a collision (two of them, one of each
  request, were hashed from different inputs to the same value, or one before the last was hashed to
  the value of the empty prefix), or \<open>i = j\<close>, the two requests have the same first
  \<open>(i + 1) * block_size\<close> tokens, and every block up to there was hashed with the same extra keys.
\<close>

theorem equal_hash_equal_prefix:
  assumes "0 < bs" and "hashes_ok H none_hash bs r" and "hashes_ok H none_hash bs r'"
    and "i < length (block_hashes r)" and "j < length (block_hashes r')"
    and "block_hashes r ! i = block_hashes r' ! j"
  shows "chain_collision H none_hash bs (plain_keys r) (all_token_ids r) i
       (plain_keys r') (all_token_ids r') j \<or>
     i = j \<and> take (Suc i * nat bs) (all_token_ids r) = take (Suc i * nat bs) (all_token_ids r') \<and>
     (\<forall>k\<le>i. plain_keys r (int k * bs) = plain_keys r' (int k * bs))"
proof (cases "chain_collision H none_hash bs (plain_keys r) (all_token_ids r) i
       (plain_keys r') (all_token_ids r') j")
  case False
  have "last (chain_of H none_hash bs r (Suc i)) = last (chain_of H none_hash bs r' (Suc j))"
    using assms(2-6) hash_chain_nth
    unfolding hashes_ok_def chain_of_def by (metis length_hash_chain)
  from chain_inject [OF False this [unfolded chain_of_def hash_chain_last]]
  show ?thesis using take_blocks [OF assms(1)] unfolding chain_input_def by blast
qed simp

text \<open>
  The extra keys do not say which attribute they come from: a request for the LoRA adapter
  named \<open>s\<close> without a cache salt and a request for the base model with the cache salt \<open>s\<close> get
  the same hash for their first block whenever its tokens agree, whatever the hash function.
\<close>

theorem lora_salt_collision:
  assumes "0 < bs" and "plain r" and "bs \<le> num_tokens r" and "s \<noteq> []"
    and "lora_request r = None" and "cache_salt r = Some s"
    and "r' = r\<lparr>lora_request := Some \<lparr>lora_name = s, lora_int_id = n\<rparr>, cache_salt := None\<rparr>"
    and "block_hashes r = []"
    and "request_block_hasher H sha none_hash bs r = Some (Inr (q, hs))"
    and "request_block_hasher H sha none_hash bs r' = Some (Inr (q', hs'))"
  shows "hs ! 0 = hs' ! 0"
proof -
  have p': "plain r'" using assms(2,7) by (simp add: plain_def)
  have n': "full_blocks bs r' = full_blocks bs r" using assms(7) by (simp add: full_blocks_def num_tokens_def)
  have pos: "0 < full_blocks bs r"
    using assms(1,3) int_le_div_iff [OF assms(1), of 1 "num_tokens r"] by (simp add: full_blocks_def)
  have b: "block_hashes r = chain_of H none_hash bs r 0" "block_hashes r' = chain_of H none_hash bs r' 0"
    using assms(7,8) by (simp_all add: chain_of_def)
  have "hs = chain_of H none_hash bs r (full_blocks bs r)"
    using request_block_hasher_plain [OF assms(1,2) b(1) le0] assms(9) by auto
  moreover have "hs' = chain_of H none_hash bs r' (full_blocks bs r)"
    using request_block_hasher_plain [OF assms(1) p' b(2) le0] assms(10) n' by auto
  moreover have "plain_keys r' 0 = plain_keys r 0"
    using assms(4-7) by (simp add: plain_keys_def gen_lora_extra_hash_keys_def)
  ultimately show ?thesis
    using pos assms(7)
    by (simp only: chain_of_def hash_chain_nth hash_chain_last) (simp add: chain_parent_def chain_input_def)
qed

section \<open>Multimodal inputs in blocks completed while decoding\<close>

text \<open>
  The index of the current input, for two requests whose feature lists \<open>ms @ [f]\<close> and \<open>ms' @ [f]\<close>
  share their last element: the marker \<open>-1\<close> of the code, the last input, or past the end.
\<close>

definition same_mm_pos :: "mm_feature list \<Rightarrow> mm_feature list \<Rightarrow> int \<Rightarrow> int \<Rightarrow> bool" where
  "same_mm_pos ms ms' i i' \<longleftrightarrow>
     i = -1 \<and> i' = -1 \<or> (\<exists>d\<in>{0, 1}. i = int (length ms) + d \<and> i' = int (length ms') + d)"

lemma gen_mm_loop_last:
  "gen_mm_loop (ms @ [f]) s e (length ms) acc =
     (if e > offset (mm_position f) then
        if s > offset (mm_position f) + ph_length (mm_position f) then (acc, int (length ms) + 1)
        else if e \<ge> offset (mm_position f) + ph_length (mm_position f)
          then (acc @ [mm_identifier f], int (length ms) + 1)
        else (acc @ [mm_identifier f], int (length ms))
      else (acc, int (length ms)))"
  by (simp add: gen_mm_loop.simps [of _ _ _ "length ms"] gen_mm_loop.simps [of _ _ _ "Suc _"] Let_def)

lemma gen_mm_loop_end: "gen_mm_loop (ms @ [f]) s e (Suc (length ms)) acc = (acc, int (length ms) + 1)"
  by (simp add: gen_mm_loop.simps)

lemma gen_mm_same:
  assumes "mm_features r = ms @ [f]" and "mm_features r' = ms' @ [f]" and "same_mm_pos ms ms' i i'"
  shows "\<exists>ks j j'. gen_mm_extra_hash_keys r s e i = Inr (ks, j) \<and>
     gen_mm_extra_hash_keys r' s e i' = Inr (ks, j') \<and> same_mm_pos ms ms' j j'"
proof -
  have "nat (1 + int k) = Suc k" "nat (int k + 1) = Suc k" for k by simp_all
  then show ?thesis
    using assms
    by (auto simp: gen_mm_extra_hash_keys_def same_mm_pos_def gen_mm_loop_last gen_mm_loop_end Let_def)
qed

lemma generate_same:
  assumes "mm_features r = ms @ [f]" and "r' = r\<lparr>mm_features := ms' @ [f]\<rparr>" and "same_mm_pos ms ms' i i'"
  shows "\<exists>ks j j' q. generate_block_hash_extra_keys sha r s e i = Inr (ks, j, q) \<and>
     generate_block_hash_extra_keys sha r' s e i' = Inr (ks, j', q\<lparr>mm_features := ms' @ [f]\<rparr>) \<and>
     mm_features q = ms @ [f] \<and> all_token_ids q = all_token_ids r \<and> same_mm_pos ms ms' j j'"
proof -
  have "mm_features r' = ms' @ [f]" using assms(2) by simp
  from gen_mm_same [OF assms(1) this assms(3)] obtain ks j j' where
    g: "gen_mm_extra_hash_keys r s e i = Inr (ks, j)" "gen_mm_extra_hash_keys r' s e i' = Inr (ks, j')"
      "same_mm_pos ms ms' j j'" by blast
  obtain eks q where q: "gen_prompt_embeds_extra_hash_keys sha r s e = (eks, q)" by fastforce
  have q': "gen_prompt_embeds_extra_hash_keys sha r' s e = (eks, q\<lparr>mm_features := ms' @ [f]\<rparr>)"
    and mq: "mm_features q = ms @ [f]" "all_token_ids q = all_token_ids r"
    using q assms(1,2)
    by (auto simp: gen_prompt_embeds_extra_hash_keys_def Let_def split: option.splits)
  have "gen_lora_extra_hash_keys r' = gen_lora_extra_hash_keys r" "cache_salt r' = cache_salt r"
    using assms(2) by (simp_all add: gen_lora_extra_hash_keys_def)
  then show ?thesis
    using g q q' mq by (simp add: generate_block_hash_extra_keys_def Let_def)
qed

lemma hasher_loop_same:
  assumes "0 < bs" and "mm_features r = ms @ [f]" and "r' = r\<lparr>mm_features := ms' @ [f]\<rparr>"
    and "same_mm_pos ms ms' i i'"
  shows "\<exists>q q' hs. hasher_loop H sha n bs ntok r start i prev acc = Some (Inr (q, hs)) \<and>
     hasher_loop H sha n bs ntok r' start i' prev acc = Some (Inr (q', hs))"
  using assms(2-4)
proof (induction "nat (ntok - start)" arbitrary: r r' start i i' prev acc rule: less_induct)
  case less
  show ?case
  proof (cases "start + bs > ntok")
    case True
    then show ?thesis by (simp add: hasher_loop.simps Let_def)
  next
    case False
    obtain ks j j' q where g: "generate_block_hash_extra_keys sha r start (start + bs) i = Inr (ks, j, q)"
      "generate_block_hash_extra_keys sha r' start (start + bs) i' = Inr (ks, j', q\<lparr>mm_features := ms' @ [f]\<rparr>)"
      "mm_features q = ms @ [f]" "all_token_ids q = all_token_ids r" "same_mm_pos ms ms' j j'"
      using generate_same [OF less.prems] by blast
    have toks: "all_token_ids r' = all_token_ids r" using less.prems(2) by simp
    have "nat (ntok - (start + bs)) < nat (ntok - start)" using False assms(1) by simp
    from less.hyps [OF this g(3) refl g(5)]
    show ?thesis
      using False g(1,2) toks
      by (simp add: hasher_loop.simps [of _ _ _ _ _ r] hasher_loop.simps [of _ _ _ _ _ r'] Let_def)
  qed
qed

text \<open>
  Once a request has hashed blocks, the hashes of its further blocks do not depend on any
  multimodal input but the last one, even when an earlier input lies inside the new block (its
  placeholder was in the partial last block of the prompt): two requests that differ only in such
  an input get the same hashes.
\<close>

theorem later_blocks_ignore_earlier_inputs:
  assumes "0 < bs" and "mm_features r = ms @ [f]" and "r' = r\<lparr>mm_features := ms' @ [f]\<rparr>"
    and "block_hashes r \<noteq> []"
  shows "\<exists>q q' hs. request_block_hasher H sha none_hash bs r = Some (Inr (q, hs)) \<and>
     request_block_hasher H sha none_hash bs r' = Some (Inr (q', hs))"
proof -
  have same: "same_mm_pos ms ms' (-1) (-1)" by (simp add: same_mm_pos_def)
  have "0 < int (length (block_hashes r)) * bs" using assms(1,4) by simp
  moreover have "block_hashes r' = block_hashes r" "num_tokens r' = num_tokens r"
    using assms(3) by (simp_all add: num_tokens_def)
  ultimately show ?thesis
    using hasher_loop_same [OF assms(1-3) same] assms(4)
    by (simp add: request_block_hasher_def Let_def)
qed

text \<open>
  Two images in the second block of a prompt of six tokens, completed by two output tokens. Hashed
  in one go, the block would have both images among its keys.
\<close>

definition image_at :: "string \<Rightarrow> int \<Rightarrow> mm_feature" where
  "image_at name pos = \<lparr>mm_identifier = name,
     mm_position = \<lparr>offset = pos, ph_length = 1, is_embed = None\<rparr>\<rparr>"

definition two_images :: "string \<Rightarrow> request" where
  "two_images name = (sample_request ''r'' [1, 2, 3, 4, 9, 9, 5, 6])
     \<lparr>block_hashes := [[7]], mm_features := [image_at name 4] @ [image_at ''z'' 5]\<rparr>"

theorem later_blocks_ignore_earlier_inputs_witness:
  "(\<exists>q q' hs. request_block_hasher (\<lambda>(p, t, k). p) id [1] 4 (two_images ''a'') = Some (Inr (q, hs)) \<and>
     request_block_hasher (\<lambda>(p, t, k). p) id [1] 4 (two_images ''b'') = Some (Inr (q', hs))) \<and>
   gen_mm_extra_hash_keys (two_images ''a'') 4 8 0 = Inr ([''a'', ''z''], 2) \<and>
   gen_mm_extra_hash_keys (two_images ''b'') 4 8 0 = Inr ([''b'', ''z''], 2)"
proof (intro conjI)
  show "\<exists>q q' hs. request_block_hasher (\<lambda>(p, t, k). p) id [1] 4 (two_images ''a'') = Some (Inr (q, hs)) \<and>
     request_block_hasher (\<lambda>(p, t, k). p) id [1] 4 (two_images ''b'') = Some (Inr (q', hs))"
    by (rule later_blocks_ignore_earlier_inputs [where ms = "[image_at ''a'' 4]" and f = "image_at ''z'' 5"
          and ms' = "[image_at ''b'' 4]"]) (simp_all add: two_images_def)
qed (simp_all add: two_images_def image_at_def gen_mm_extra_hash_keys_def gen_mm_loop.simps Let_def)

text \<open>Witnesses of the other properties.\<close>

lemma plain_sample [simp]: "plain (sample_request rid toks)"
  by (simp add: plain_def sample_request_def)

theorem append_keeps_hashes_witness:
  "\<exists>r'. append_output_token_ids (Some (request_block_hasher (\<lambda>(p, t, k). 3 # p) id [1] 4)) [5, 6]
     (sample_request ''r'' [1, 2, 3]) = Some (Inr r') \<and>
   all_token_ids r' = [1, 2, 3, 5, 6] \<and> length (block_hashes r') = 1"
proof -
  let ?H = "\<lambda>(p, t, k). 3 # p" and ?r = "sample_request ''r'' [1, 2, 3]"
  have ok: "hashes_ok ?H [1] 4 ?r"
    by (simp add: hashes_ok_def chain_of_def full_blocks_def num_tokens_def sample_request_def)
  obtain r' where "append_output_token_ids (Some (request_block_hasher ?H id [1] 4)) [5, 6] ?r = Some (Inr r')"
    and "all_token_ids r' = all_token_ids ?r @ [5, 6]" "length (block_hashes r') = nat (num_tokens r' div 4)"
    using append_keeps_hashes [of 4 ?r ?H "[1]" id "[5, 6]", OF _ plain_sample ok] by auto
  then show ?thesis by (simp add: num_tokens_def sample_request_def)
qed

text \<open>
  Two requests with equal hashes in their second block, under a function that keeps the first bytes
  of what it hashes: their blocks do not collide, although other inputs do, and so the tokens agree.
\<close>

definition concat_hash :: "hash_input \<Rightarrow> block_hash" where
  "concat_hash = (\<lambda>(p, t, k). 3 # p @ map word_of_int t)"

lemma equal_hash_equal_prefix_witness:
  "let r = (sample_request ''r'' [5, 6])\<lparr>block_hashes := [[3, 1, 5], [3, 3, 1, 5, 6]]\<rparr>;
       q = (sample_request ''q'' [5, 6, 7])\<lparr>block_hashes := [[3, 1, 5], [3, 3, 1, 5, 6], [3, 3, 3, 1, 5, 6, 7]]\<rparr>
   in \<not> chain_collision concat_hash [1] 1 (plain_keys r) (all_token_ids r) 1
        (plain_keys q) (all_token_ids q) 1
      \<and> take (Suc 1 * nat 1) (all_token_ids r) = take (Suc 1 * nat 1) (all_token_ids q)
      \<and> concat_hash ([1], [5], None) = concat_hash ([1], [261], None)"
proof -
  let ?r = "(sample_request ''r'' [5, 6])\<lparr>block_hashes := [[3, 1, 5], [3, 3, 1, 5, 6]]\<rparr>"
    and ?q = "(sample_request ''q'' [5, 6, 7])\<lparr>block_hashes := [[3, 1, 5], [3, 3, 1, 5, 6], [3, 3, 3, 1, 5, 6, 7]]\<rparr>"
  have keys: "plain_keys ?r = (\<lambda>_. None)" "plain_keys ?q = (\<lambda>_. None)"
    by (simp_all add: plain_keys_def gen_lora_extra_hash_keys_def sample_request_def fun_eq_iff)
  have toks: "all_token_ids ?r = [5, 6]" "all_token_ids ?q = [5, 6, 7]" by (simp_all add: sample_request_def)
  have blocks: "block_hashes ?r = [[3, 1, 5], [3, 3, 1, 5, 6]]" "block_hashes ?q = [[3, 1, 5], [3, 3, 1, 5, 6], [3, 3, 3, 1, 5, 6, 7]]"
    by simp_all
  have chain: "hash_chain concat_hash [1] 1 (\<lambda>_. None) [5, 6] 2 = [[3, 1, 5], [3, 3, 1, 5, 6]]"
    "hash_chain concat_hash [1] 1 (\<lambda>_. None) [5, 6, 7] 3 = [[3, 1, 5], [3, 3, 1, 5, 6], [3, 3, 3, 1, 5, 6, 7]]"
    by (simp_all add: numeral_2_eq_2 numeral_3_eq_3 hash_block_tokens_def concat_hash_def py_slice_nonneg Let_def)
  have ok: "hashes_ok concat_hash [1] 1 ?r" "hashes_ok concat_hash [1] 1 ?q"
    unfolding hashes_ok_def chain_of_def keys toks blocks full_blocks_def num_tokens_def
    by (simp_all add: chain)
  have "\<not> chain_collision concat_hash [1] 1 (\<lambda>_. None) [5, 6] 1 (\<lambda>_. None) [5, 6, 7] 1"
    by (simp add: chain_collision_def chain_input_def chain_parent_def atMost_Suc lessThan_Suc
        hash_block_tokens_def concat_hash_def py_slice_nonneg Let_def)
  then have no: "\<not> chain_collision concat_hash [1] 1 (plain_keys ?r) (all_token_ids ?r) 1
      (plain_keys ?q) (all_token_ids ?q) 1"
    unfolding keys toks .
  have "take (Suc 1 * nat 1) (all_token_ids ?r) = take (Suc 1 * nat 1) (all_token_ids ?q)"
    using equal_hash_equal_prefix [of 1 concat_hash "[1]" ?r ?q 1 1, OF _ ok] no
    unfolding blocks by simp
  with no show ?thesis unfolding Let_def by (simp add: concat_hash_def)
qed

theorem lora_salt_collision_witness:
  "\<exists>q hs q' hs'. request_block_hasher (\<lambda>(p, t, k). 3 # p) id [1] 2
       ((sample_request ''r'' [5, 6])\<lparr>cache_salt := Some ''x''\<rparr>) = Some (Inr (q, hs)) \<and>
     request_block_hasher (\<lambda>(p, t, k). 3 # p) id [1] 2
       ((sample_request ''r'' [5, 6])\<lparr>cache_salt := None,
          lora_request := Some \<lparr>lora_name = ''x'', lora_int_id = 1\<rparr>\<rparr>) = Some (Inr (q', hs')) \<and>
     hs ! 0 = hs' ! 0"
proof -
  let ?H = "\<lambda>(p, t, k). 3 # p"
  let ?r = "(sample_request ''r'' [5, 6])\<lparr>cache_salt := Some ''x''\<rparr>"
  let ?l = "(sample_request ''r'' [5, 6])\<lparr>cache_salt := None,
          lora_request := Some \<lparr>lora_name = ''x'', lora_int_id = 1\<rparr>\<rparr>"
  have p: "plain ?r" "plain ?l" by (simp_all add: plain_def sample_request_def)
  have b: "block_hashes r = chain_of ?H [1] 2 r 0" if "r = ?r \<or> r = ?l" for r
    using that by (auto simp: chain_of_def sample_request_def)
  obtain q hs where h: "request_block_hasher ?H id [1] 2 ?r = Some (Inr (q, hs))"
    using request_block_hasher_plain [of 2 ?r, OF _ p(1) b le0] by auto
  obtain q' hs' where h': "request_block_hasher ?H id [1] 2 ?l = Some (Inr (q', hs'))"
    using request_block_hasher_plain [of 2 ?l, OF _ p(2) b le0] by auto
  have "hs ! 0 = hs' ! 0"
    by (rule lora_salt_collision [OF _ p(1) _ _ _ _ _ _ h h'])
      (simp_all add: sample_request_def num_tokens_def)
  with h h' show ?thesis by blast
qed

end
