(* ===== verification/Block_Map.thy ===== *)
theory Block_Map
  imports Block_Hash
begin

text \<open>
  \<^verbatim>\<open>BlockHashToBlockMap\<close> of \<^verbatim>\<open>vllm/v1/core/block_pool.py\<close>: the index of cached blocks. A key maps
  to one block, or, when several blocks have the same content, to a dict of blocks; the dict is
  kept as the list of its block ids in insertion order, which is the order \<open>next(iter(..))\<close> uses.
  The locale \<open>block_cache\<close> is the contract the block pool needs, and holds the facts about an
  index that agrees with the hashes stored on the blocks.
\<close>

datatype cache_entry = Single nat | Many "nat list"

type_synonym hash_key = "byte list"
type_synonym block_map = "hash_key \<Rightarrow> cache_entry option"

definition empty_map :: block_map where
  "empty_map = (\<lambda>_. None)"

definition get_one_block :: "block_map \<Rightarrow> hash_key \<Rightarrow> nat option res" where
  "get_one_block m key =
     (case m key of
        None \<Rightarrow> Inr None
      | Some (Single b) \<Rightarrow> Inr (Some b)
      | Some (Many []) \<Rightarrow> Inl StopIteration
      | Some (Many (b # bs)) \<Rightarrow> Inr (Some b))"

definition map_insert :: "block_map \<Rightarrow> hash_key \<Rightarrow> nat \<Rightarrow> block_map" where
  "map_insert m key b =
     (case m key of
        None \<Rightarrow> m(key := Some (Single b))
      | Some (Single a) \<Rightarrow> m(key := Some (Many (if a = b then [a] else [a, b])))
      | Some (Many bs) \<Rightarrow> m(key := Some (Many (if b \<in> set bs then bs else bs @ [b]))))"

definition map_pop :: "block_map \<Rightarrow> hash_key \<Rightarrow> nat \<Rightarrow> nat option \<times> block_map" where
  "map_pop m key b =
     (case m key of
        None \<Rightarrow> (None, m)
      | Some (Single a) \<Rightarrow> if a = b then (Some a, m(key := None)) else (None, m)
      | Some (Many bs) \<Rightarrow>
          (let bs' = remove1 b bs in
           (if b \<in> set bs then Some b else None,
            if 0 < length bs' then m(key := Some (Many bs')) else m(key := None))))"

section \<open>Content\<close>

definition entries :: "block_map \<Rightarrow> hash_key \<Rightarrow> nat list" where
  "entries m key = (case m key of None \<Rightarrow> [] | Some (Single b) \<Rightarrow> [b] | Some (Many bs) \<Rightarrow> bs)"

definition map_ok :: "block_map \<Rightarrow> bool" where
  "map_ok m \<longleftrightarrow> (\<forall>key. m key \<noteq> Some (Many []) \<and> distinct (entries m key))"

lemma map_ok_empty: "map_ok empty_map" "entries empty_map key = []"
  by (simp_all add: map_ok_def empty_map_def entries_def)

lemma entries_insert:
  "entries (map_insert m key b) = (entries m)(key :=
     (if b \<in> set (entries m key) then entries m key else entries m key @ [b]))"
  by (auto simp: entries_def map_insert_def fun_eq_iff split: option.splits cache_entry.splits)

lemma entries_pop:
  "entries (snd (map_pop m key b)) = (entries m)(key := remove1 b (entries m key))"
  by (auto simp: entries_def map_pop_def fun_eq_iff Let_def split: option.splits cache_entry.splits)

lemma fst_map_pop: "fst (map_pop m key b) = (if b \<in> set (entries m key) then Some b else None)"
  by (auto simp: entries_def map_pop_def Let_def split: option.splits cache_entry.splits)

lemma map_ok_insert: "map_ok m \<Longrightarrow> map_ok (map_insert m key b)"
proof -
  assume ok: "map_ok m"
  have "map_insert m key b k \<noteq> Some (Many [])" for k
    using ok by (auto simp: map_ok_def map_insert_def split: option.splits cache_entry.splits)
  then show ?thesis using ok by (simp add: map_ok_def entries_insert)
qed

lemma map_ok_pop: "map_ok m \<Longrightarrow> map_ok (snd (map_pop m key b))"
proof -
  assume ok: "map_ok m"
  have "snd (map_pop m key b) k \<noteq> Some (Many [])" for k
    using ok by (auto simp: map_ok_def map_pop_def Let_def split: option.splits cache_entry.splits)
  then show ?thesis using ok by (simp add: map_ok_def entries_pop)
qed

lemma get_one_block_entries:
  "map_ok m \<Longrightarrow> get_one_block m key =
     Inr (case entries m key of [] \<Rightarrow> None | b # _ \<Rightarrow> Some b)"
  by (auto simp: get_one_block_def entries_def map_ok_def
      split: option.splits cache_entry.splits list.splits)

section \<open>The interface of the block pool\<close>

locale block_cache =
  fixes content :: "'m \<Rightarrow> 'k \<Rightarrow> nat list"
    and valid :: "'m \<Rightarrow> bool"
    and lookup :: "'m \<Rightarrow> 'k \<Rightarrow> nat option res"
    and add :: "'m \<Rightarrow> 'k \<Rightarrow> nat \<Rightarrow> 'm"
    and delete :: "'m \<Rightarrow> 'k \<Rightarrow> nat \<Rightarrow> nat option \<times> 'm"
  assumes valid_distinct: "valid m \<Longrightarrow> distinct (content m k)"
    and lookup_content:
      "valid m \<Longrightarrow> lookup m k = Inr (case content m k of [] \<Rightarrow> None | b # _ \<Rightarrow> Some b)"
    and content_add: "content (add m k b) = (content m)(k :=
      (if b \<in> set (content m k) then content m k else content m k @ [b]))"
    and content_delete: "content (snd (delete m k b)) = (content m)(k := remove1 b (content m k))"
    and found_delete: "fst (delete m k b) = (if b \<in> set (content m k) then Some b else None)"
    and valid_add: "valid m \<Longrightarrow> valid (add m k b)"
    and valid_delete: "valid m \<Longrightarrow> valid (snd (delete m k b))"
begin

text \<open>
  An index agrees with the tags of the blocks (the hash key stored on each block) if it holds
  exactly the tagged blocks under their tags.
\<close>

definition agrees :: "(nat \<Rightarrow> 'k option) \<Rightarrow> 'm \<Rightarrow> bool" where
  "agrees tag m \<longleftrightarrow> valid m \<and> (\<forall>k b. b \<in> set (content m k) \<longleftrightarrow> tag b = Some k)"

lemma agrees_add:
  assumes "agrees tag m" and "tag b = None"
  shows "agrees (tag(b := Some k)) (add m k b)"
  using assms unfolding agrees_def by (auto simp: content_add valid_add)

lemma agrees_delete:
  assumes "agrees tag m" and "tag b = Some k"
  shows "fst (delete m k b) = Some b" and "agrees (tag(b := None)) (snd (delete m k b))"
  using assms unfolding agrees_def
  by (auto simp: content_delete found_delete valid_delete valid_distinct)

lemma agrees_lookup:
  assumes "agrees tag m"
  shows "\<exists>ob. lookup m k = Inr ob \<and> (\<forall>b. ob = Some b \<longrightarrow> tag b = Some k) \<and>
     (ob = None \<longrightarrow> (\<forall>b. tag b \<noteq> Some k))"
proof (cases "content m k")
  case Nil
  then have "\<forall>b. tag b \<noteq> Some k" using assms unfolding agrees_def by (metis empty_iff list.set(1))
  then show ?thesis using assms Nil by (simp add: agrees_def lookup_content)
next
  case (Cons b bs)
  then have "tag b = Some k" using assms unfolding agrees_def by (metis list.set_intros(1))
  then show ?thesis using assms Cons by (simp add: agrees_def lookup_content)
qed

lemma agrees_cong: "agrees tag m \<Longrightarrow> (\<And>b. tag' b = tag b) \<Longrightarrow> agrees tag' m"
  by (simp add: agrees_def)

end

interpretation bm: block_cache entries map_ok get_one_block map_insert map_pop
proof (unfold_locales, goal_cases)
  case (1 m k) then show ?case by (simp add: map_ok_def)
next
  case (2 m k) then show ?case by (rule get_one_block_entries)
next
  case (3 m k b) then show ?case by (rule entries_insert)
next
  case (4 m k b) then show ?case by (rule entries_pop)
next
  case (5 m k b) then show ?case by (rule fst_map_pop)
next
  case (6 m k b) then show ?case by (rule map_ok_insert)
next
  case (7 m k b) then show ?case by (rule map_ok_pop)
qed

end
