(* ===== verification/Block_Pool.thy ===== *)
theory Block_Pool
  imports Free_Queue Block_Map
begin

text \<open>
  \<^verbatim>\<open>BlockPool\<close> of \<^verbatim>\<open>vllm/v1/core/block_pool.py\<close>: the blocks with their reference counts and
  hashes, the free queue, the index of cached blocks and the queue of KV cache events. A block
  object is referred to by its \<open>block_id\<close>, its position in \<open>blocks\<close>. The metrics collector only
  records statistics and is left out. \<open>events_use_int\<close> is the environment variable
  \<^verbatim>\<open>VLLM_KV_EVENTS_USE_INT_BLOCK_HASHES\<close>.

  The invariant \<open>pool_ok p fl\<close> says that the free queue holds, in the order \<open>fl\<close>, exactly the
  non-null blocks that nobody references, and that the index agrees with the hashes on the blocks.
\<close>

section \<open>State\<close>

record kv_cache_block =
  ref_cnt :: int
  hash_of :: "hash_key option"
  is_null :: bool

datatype kv_event =
    BlockStored "external_block_hash list" "external_block_hash option" "token list" int
      "int option" "string option" "extra_key list option list option"
  | BlockRemoved "external_block_hash list"
  | AllBlocksCleared

record block_pool =
  num_gpu_blocks :: int
  enable_caching :: bool
  hash_block_size :: int
  blocks :: "kv_cache_block list"
  free_block_queue :: free_queue
  cached_block_hash_to_block :: block_map
  null_block :: nat
  enable_kv_cache_events :: bool
  events_use_int :: bool
  kv_event_queue :: "kv_event list"

definition upd_block :: "nat \<Rightarrow> (kv_cache_block \<Rightarrow> kv_cache_block) \<Rightarrow> block_pool \<Rightarrow> block_pool" where
  "upd_block b f p = p\<lparr>blocks := (blocks p)[b := f (blocks p ! b)]\<rparr>"

definition fresh_block :: kv_cache_block where
  "fresh_block = \<lparr>ref_cnt = 0, hash_of = None, is_null = False\<rparr>"

section \<open>Operations\<close>

text \<open>
  The free queue hands out block objects. One of its two fake blocks could only come out of a
  corrupted list; the code would go on with it, the model stops.
\<close>

fun real_block :: "node \<Rightarrow> nat res" where
  "real_block (Blk b) = Inr b"
| "real_block _ = Inl RuntimeError"

definition init_pool :: "int \<Rightarrow> bool \<Rightarrow> int \<Rightarrow> bool \<Rightarrow> bool \<Rightarrow> block_pool res" where
  "init_pool n caching hash_bs events use_int =
     require (0 < n) AssertionError
       (let bs = replicate (nat n) fresh_block;
            q = init_queue [0..<nat n]
        in res_bind (popleft q) (\<lambda>(first, q').
           res_bind (real_block first) (\<lambda>b.
             Inr (upd_block b (\<lambda>blk. blk\<lparr>is_null := True\<rparr>)
               \<lparr>num_gpu_blocks = n, enable_caching = caching, hash_block_size = hash_bs,
                blocks = bs, free_block_queue = q', cached_block_hash_to_block = empty_map,
                null_block = b, enable_kv_cache_events = events, events_use_int = use_int,
                kv_event_queue = []\<rparr>))))"

fun get_cached_block :: "block_pool \<Rightarrow> block_hash \<Rightarrow> int list \<Rightarrow> nat list option res" where
  "get_cached_block p h [] = Inr (Some [])"
| "get_cached_block p h (g # gs) =
     res_bind (make_block_hash_with_group_id h g) (\<lambda>key.
     res_bind (get_one_block (cached_block_hash_to_block p) key) (\<lambda>ob.
       case ob of
         None \<Rightarrow> Inr None
       | Some b \<Rightarrow> res_bind (get_cached_block p h gs) (\<lambda>r. Inr (map_option ((#) b) r))))"

text \<open>The body of the loop of \<open>cache_full_blocks\<close>; \<open>new_hashes\<close> is collected for the event.\<close>

definition cache_one_block ::
  "block_hash list \<Rightarrow> int \<Rightarrow> nat \<times> nat \<Rightarrow> block_pool \<times> external_block_hash list \<Rightarrow>
   (block_pool \<times> external_block_hash list) res" where
  "cache_one_block new_block_hashes gid ib st =
     (case (ib, st) of ((i, b), (p, new_hashes)) \<Rightarrow>
       if is_null (blocks p ! b) then Inr (p, new_hashes)
       else require (hash_of (blocks p ! b) = None) AssertionError
         (res_bind (py_get new_block_hashes (int i)) (\<lambda>h.
          res_bind (make_block_hash_with_group_id h gid) (\<lambda>key.
            Inr ((upd_block b (\<lambda>blk. blk\<lparr>hash_of := Some key\<rparr>) p)
                   \<lparr>cached_block_hash_to_block := map_insert (cached_block_hash_to_block p) key b\<rparr>,
                 new_hashes @ [maybe_convert_block_hash (events_use_int p) h])))))"

definition stored_extra_keys_step ::
  "(byte list \<Rightarrow> block_hash) \<Rightarrow> block_pool \<Rightarrow> nat list \<Rightarrow> int \<Rightarrow> int \<Rightarrow>
   extra_key list option list \<times> int \<times> request \<Rightarrow>
   (extra_key list option list \<times> int \<times> request) res" where
  "stored_extra_keys_step sha p bs block_size i st =
     (case st of (acc, curr_mm_idx, r) \<Rightarrow>
       res_bind (py_get bs i) (\<lambda>b.
         if is_null (blocks p ! b) then Inr (acc, curr_mm_idx, r)
         else
           res_bind (generate_block_hash_extra_keys sha r (i * block_size)
                       (i * block_size + block_size) curr_mm_idx)
             (\<lambda>(keys, idx, r'). Inr (acc @ [keys], idx, r'))))"

definition stored_event ::
  "(byte list \<Rightarrow> block_hash) \<Rightarrow> block_pool \<Rightarrow> request \<Rightarrow> nat list \<Rightarrow> block_hash list \<Rightarrow>
   external_block_hash list \<Rightarrow> int \<Rightarrow> int \<Rightarrow> int \<Rightarrow> (block_pool \<times> request) res" where
  "stored_event sha p r bs hashes new_hashes n_cached n_full block_size =
     res_bind
       (if n_cached = 0 then Inr None
        else res_bind (py_get hashes (n_cached - 1))
          (\<lambda>h. Inr (Some (maybe_convert_block_hash (events_use_int p) h))))
       (\<lambda>parent.
     res_bind (fold_res (stored_extra_keys_step sha p bs block_size)
                 [n_cached..n_full - 1] ([], 0, r))
       (\<lambda>(keys, idx, r').
        Inr (p\<lparr>kv_event_queue := kv_event_queue p @
               [BlockStored new_hashes parent
                 (py_slice (all_token_ids r') (n_cached * block_size) (n_full * block_size))
                 block_size (map_option lora_int_id (lora_request r'))
                 (map_option lora_name (lora_request r'))
                 (if keys = [] then None else Some keys)]\<rparr>, r')))"

definition cache_full_blocks ::
  "(byte list \<Rightarrow> block_hash) \<Rightarrow> block_pool \<Rightarrow> request \<Rightarrow> nat list \<Rightarrow> int \<Rightarrow> int \<Rightarrow> int \<Rightarrow> int \<Rightarrow>
   (block_pool \<times> request) res" where
  "cache_full_blocks sha p r bs n_cached n_full block_size gid =
     (if n_cached \<ge> n_full then Inr (p, r)
      else
        let new_full_blocks = py_slice bs n_cached n_full in
        require (int (length (block_hashes r)) \<ge> n_full) AssertionError
          (res_bind
             (if block_size = hash_block_size p then Inr (block_hashes r)
              else require (hash_block_size p \<noteq> 0) ZeroDivisionError
                (require (block_size mod hash_block_size p = 0) AssertionError
                  (block_hashes_with_block_size (block_hashes r) (hash_block_size p) block_size)))
             (\<lambda>hashes.
           res_bind (fold_res (cache_one_block (py_from hashes n_cached) gid)
                       (zip [0..<length new_full_blocks] new_full_blocks) (p, []))
             (\<lambda>(p', new_hashes).
                if enable_kv_cache_events p' then
                  stored_event sha p' r bs hashes new_hashes n_cached n_full block_size
                else Inr (p', r)))))"

definition maybe_evict_cached_block :: "nat \<Rightarrow> block_pool \<Rightarrow> bool \<times> block_pool" where
  "maybe_evict_cached_block b p =
     (case hash_of (blocks p ! b) of
        None \<Rightarrow> (False, p)
      | Some key \<Rightarrow>
          (case map_pop (cached_block_hash_to_block p) key b of
             (None, m) \<Rightarrow> (False, p\<lparr>cached_block_hash_to_block := m\<rparr>)
           | (Some _, m) \<Rightarrow>
               (let p1 = upd_block b (\<lambda>blk. blk\<lparr>hash_of := None\<rparr>)
                           (p\<lparr>cached_block_hash_to_block := m\<rparr>)
                in (True,
                    if enable_kv_cache_events p1 then
                      p1\<lparr>kv_event_queue := kv_event_queue p1 @
                        [BlockRemoved [maybe_convert_block_hash (events_use_int p1)
                                        (get_block_hash key)]]\<rparr>
                    else p1))))"

definition get_num_free_blocks :: "block_pool \<Rightarrow> int" where
  "get_num_free_blocks p = num_free_blocks (free_block_queue p)"

definition add_ref :: "int \<Rightarrow> nat \<Rightarrow> block_pool \<Rightarrow> block_pool" where
  "add_ref k b p = upd_block b (\<lambda>blk. blk\<lparr>ref_cnt := ref_cnt blk + k\<rparr>) p"

definition take_block :: "nat \<Rightarrow> block_pool \<Rightarrow> block_pool res" where
  "take_block b p =
     (let p1 = (if enable_caching p then snd (maybe_evict_cached_block b p) else p)
      in require (ref_cnt (blocks p1 ! b) = 0) AssertionError (Inr (add_ref 1 b p1)))"

definition get_new_blocks :: "int \<Rightarrow> block_pool \<Rightarrow> (nat list \<times> block_pool) res" where
  "get_new_blocks n p =
     (if n > get_num_free_blocks p then Inl ValueError
      else res_bind (popleft_n n (free_block_queue p)) (\<lambda>(nodes, q).
           res_bind (seq_res (map real_block nodes)) (\<lambda>ret.
           res_bind (fold_res take_block ret (p\<lparr>free_block_queue := q\<rparr>)) (\<lambda>p'.
             Inr (ret, p')))))"

definition touch_block :: "nat \<Rightarrow> block_pool \<Rightarrow> block_pool res" where
  "touch_block b p =
     res_bind
       (if ref_cnt (blocks p ! b) = 0 \<and> \<not> is_null (blocks p ! b) then
          res_bind (remove_block (Blk b) (free_block_queue p))
            (\<lambda>q. Inr (p\<lparr>free_block_queue := q\<rparr>))
        else Inr p)
       (\<lambda>p1. Inr (add_ref 1 b p1))"

definition touch :: "nat list \<Rightarrow> block_pool \<Rightarrow> block_pool res" where
  "touch bs p = fold_res touch_block bs p"

definition free_blocks :: "nat list \<Rightarrow> block_pool \<Rightarrow> block_pool res" where
  "free_blocks bs p =
     (let p1 = fold (add_ref (-1)) bs p;
          freed = filter (\<lambda>b. ref_cnt (blocks p1 ! b) = 0 \<and> \<not> is_null (blocks p1 ! b)) bs
      in res_bind (append_n (map Blk freed) (free_block_queue p1))
           (\<lambda>q. Inr (p1\<lparr>free_block_queue := q\<rparr>)))"

text \<open>\<open>self.blocks[block_id]\<close> with Python's indexing; the set of ids is given in iteration order.\<close>

definition evict_one :: "int \<Rightarrow> block_pool \<Rightarrow> block_pool res" where
  "evict_one i p =
     require (i < int (length (blocks p))) AssertionError
       (res_bind (py_get [0..<length (blocks p)] i) (\<lambda>b. Inr (snd (maybe_evict_cached_block b p))))"

definition evict_blocks :: "int list \<Rightarrow> block_pool \<Rightarrow> block_pool res" where
  "evict_blocks ids p = fold_res evict_one ids p"

definition reset_prefix_cache :: "block_pool \<Rightarrow> bool \<times> block_pool" where
  "reset_prefix_cache p =
     (let num_used_blocks = num_gpu_blocks p - get_num_free_blocks p in
      if num_used_blocks \<noteq> 1 then (False, p)
      else
        let p1 = p\<lparr>cached_block_hash_to_block := empty_map,
                   blocks := map (\<lambda>blk. blk\<lparr>hash_of := None\<rparr>) (blocks p)\<rparr>
        in (True, if enable_kv_cache_events p1
                  then p1\<lparr>kv_event_queue := kv_event_queue p1 @ [AllBlocksCleared]\<rparr> else p1))"

definition take_events :: "block_pool \<Rightarrow> kv_event list \<times> block_pool" where
  "take_events p =
     (if \<not> enable_kv_cache_events p then ([], p)
      else (kv_event_queue p, p\<lparr>kv_event_queue := []\<rparr>))"

section \<open>Invariant\<close>

definition refs :: "block_pool \<Rightarrow> nat \<Rightarrow> int" where
  "refs p b = ref_cnt (blocks p ! b)"

definition tags :: "block_pool \<Rightarrow> nat \<Rightarrow> hash_key option" where
  "tags p b = (if b < length (blocks p) then hash_of (blocks p ! b) else None)"

definition pool_ok :: "block_pool \<Rightarrow> nat list \<Rightarrow> bool" where
  "pool_ok p fl \<longleftrightarrow>
     0 < num_gpu_blocks p \<and> length (blocks p) = nat (num_gpu_blocks p) \<and>
     null_block p = 0 \<and> (\<forall>b < length (blocks p). is_null (blocks p ! b) \<longleftrightarrow> b = 0) \<and>
     queue_inv (free_block_queue p) fl \<and>
     set fl = {b. b < length (blocks p) \<and> b \<noteq> 0 \<and> refs p b = 0} \<and>
     (\<forall>b < length (blocks p). b \<noteq> 0 \<longrightarrow> 0 \<le> refs p b) \<and>
     bm.agrees (tags p) (cached_block_hash_to_block p) \<and> tags p 0 = None"

lemma refs_tags_update [simp]:
  "refs (p\<lparr>free_block_queue := q\<rparr>) = refs p" "tags (p\<lparr>free_block_queue := q\<rparr>) = tags p"
  "refs (p\<lparr>cached_block_hash_to_block := m\<rparr>) = refs p"
  "tags (p\<lparr>cached_block_hash_to_block := m\<rparr>) = tags p"
  "refs (p\<lparr>kv_event_queue := es\<rparr>) = refs p" "tags (p\<lparr>kv_event_queue := es\<rparr>) = tags p"
  by (simp_all add: fun_eq_iff refs_def tags_def)

text \<open>What no operation of the pool changes.\<close>

definition same_frame :: "block_pool \<Rightarrow> block_pool \<Rightarrow> bool" where
  "same_frame p p' \<longleftrightarrow>
     num_gpu_blocks p' = num_gpu_blocks p \<and> enable_caching p' = enable_caching p \<and>
     hash_block_size p' = hash_block_size p \<and> null_block p' = null_block p \<and>
     enable_kv_cache_events p' = enable_kv_cache_events p \<and>
     length (blocks p') = length (blocks p) \<and>
     (\<forall>b < length (blocks p). is_null (blocks p' ! b) = is_null (blocks p ! b))"

lemma same_frame_refl [simp]: "same_frame p p"
  by (simp add: same_frame_def)

lemma same_frame_trans [trans]: "same_frame p q \<Longrightarrow> same_frame q r \<Longrightarrow> same_frame p r"
  by (simp add: same_frame_def)

lemma same_frame_sym: "same_frame p q \<Longrightarrow> same_frame q p"
  by (simp add: same_frame_def)

lemma pool_okI:
  assumes "pool_ok p fl" and "same_frame p p'"
    and "queue_inv (free_block_queue p') fl'"
    and "set fl' = {b. b < length (blocks p) \<and> b \<noteq> 0 \<and> refs p' b = 0}"
    and "\<And>b. b < length (blocks p) \<Longrightarrow> b \<noteq> 0 \<Longrightarrow> 0 \<le> refs p' b"
    and "bm.agrees (tags p') (cached_block_hash_to_block p')" and "tags p' 0 = None"
  shows "pool_ok p' fl'"
  using assms by (simp add: pool_ok_def same_frame_def)

lemma pool_ok_facts:
  assumes "pool_ok p fl"
  shows "0 < length (blocks p)" and "null_block p = 0" and "queue_inv (free_block_queue p) fl"
    and "set fl = {b. b < length (blocks p) \<and> b \<noteq> 0 \<and> refs p b = 0}"
    and "bm.agrees (tags p) (cached_block_hash_to_block p)" and "tags p 0 = None"
    and "distinct fl" and "get_num_free_blocks p = int (length fl)"
    and "int (length (blocks p)) = num_gpu_blocks p"
  using assms lq.rep_distinct [of "free_block_queue p" fl] lq.count_rep [of "free_block_queue p" fl]
  by (auto simp: pool_ok_def get_num_free_blocks_def)

lemma pool_ok_is_null: "pool_ok p fl \<Longrightarrow> b < length (blocks p) \<Longrightarrow> is_null (blocks p ! b) = (b = 0)"
  by (simp add: pool_ok_def)

lemma pool_ok_refs_nonneg:
  "pool_ok p fl \<Longrightarrow> b < length (blocks p) \<Longrightarrow> b \<noteq> 0 \<Longrightarrow> 0 \<le> refs p b"
  by (simp add: pool_ok_def)

lemma pool_ok_unique: "pool_ok p fl \<Longrightarrow> pool_ok p fl' \<Longrightarrow> fl = fl'"
  by (rule lq.rep_unique [OF pool_ok_facts(3) pool_ok_facts(3)])

section \<open>Construction\<close>

lemma seq_real_block [simp]: "seq_res (map (real_block \<circ> Blk) bs) = Inr bs"
  by (induction bs) simp_all

lemma agrees_empty: "bm.agrees (\<lambda>_. None) empty_map"
  by (simp add: bm.agrees_def map_ok_empty)

lemma init_pool_ok:
  assumes "0 < n"
  shows "\<exists>p. init_pool n c h ev ui = Inr p \<and> pool_ok p [1..<nat n] \<and>
    (\<forall>b < nat n. refs p b = 0 \<and> tags p b = None) \<and>
    num_gpu_blocks p = n \<and> enable_caching p = c \<and> hash_block_size p = h \<and>
    enable_kv_cache_events p = ev"
proof -
  have up: "[0..<nat n] = [0] @ [1..<nat n]" using assms by (simp add: upt_rec)
  have "queue_inv (init_queue [0..<nat n]) ([0] @ [1..<nat n])"
    unfolding up [symmetric] by (simp add: init_queue_inv)
  then obtain q where q: "popleft (init_queue [0..<nat n]) = Inr (Blk 0, q)"
    "queue_inv q [1..<nat n]"
    using popleft_is_remove [of _ 0 "[1..<nat n]"] by auto
  have rep0: "replicate (nat n) fresh_block ! 0 = fresh_block" using assms by simp
  let ?p = "upd_block 0 (\<lambda>blk. blk\<lparr>is_null := True\<rparr>)
               \<lparr>num_gpu_blocks = n, enable_caching = c, hash_block_size = h,
                blocks = replicate (nat n) fresh_block, free_block_queue = q,
                cached_block_hash_to_block = empty_map,
                null_block = 0, enable_kv_cache_events = ev, events_use_int = ui,
                kv_event_queue = []\<rparr>"
  have run: "init_pool n c h ev ui = Inr ?p" using assms q by (simp add: init_pool_def Let_def)
  have bl: "blocks ?p = (replicate (nat n) fresh_block)[0 := fresh_block\<lparr>is_null := True\<rparr>]"
    using rep0 by (simp add: upd_block_def)
  have rt: "refs ?p b = 0" "tags ?p b = None" "is_null (blocks ?p ! b) = (b = 0)" if "b < nat n" for b
    using that unfolding refs_def tags_def bl by (auto simp: fresh_block_def nth_list_update)
  have tg: "tags ?p = (\<lambda>_. None)"
    using rt(2) by (auto simp: fun_eq_iff tags_def upd_block_def)
  have "pool_ok ?p [1..<nat n]"
    unfolding pool_ok_def tg using assms q(2) rt agrees_empty
    by (auto simp: upd_block_def)
  then show ?thesis using run rt by (auto simp: upd_block_def)
qed

section \<open>Steps\<close>

lemma upd_block_fields [simp]:
  "num_gpu_blocks (upd_block b f p) = num_gpu_blocks p"
  "enable_caching (upd_block b f p) = enable_caching p"
  "hash_block_size (upd_block b f p) = hash_block_size p"
  "free_block_queue (upd_block b f p) = free_block_queue p"
  "cached_block_hash_to_block (upd_block b f p) = cached_block_hash_to_block p"
  "null_block (upd_block b f p) = null_block p"
  "enable_kv_cache_events (upd_block b f p) = enable_kv_cache_events p"
  "events_use_int (upd_block b f p) = events_use_int p"
  "kv_event_queue (upd_block b f p) = kv_event_queue p"
  "length (blocks (upd_block b f p)) = length (blocks p)"
  by (simp_all add: upd_block_def)

lemma nth_upd_block:
  "x < length (blocks p) \<Longrightarrow>
     blocks (upd_block b f p) ! x = (if x = b then f (blocks p ! x) else blocks p ! x)"
  by (simp add: upd_block_def nth_list_update)

lemma add_ref_fields [simp]:
  "num_gpu_blocks (add_ref k b p) = num_gpu_blocks p"
  "enable_caching (add_ref k b p) = enable_caching p"
  "hash_block_size (add_ref k b p) = hash_block_size p"
  "free_block_queue (add_ref k b p) = free_block_queue p"
  "cached_block_hash_to_block (add_ref k b p) = cached_block_hash_to_block p"
  "null_block (add_ref k b p) = null_block p"
  "enable_kv_cache_events (add_ref k b p) = enable_kv_cache_events p"
  "length (blocks (add_ref k b p)) = length (blocks p)"
  by (simp_all add: add_ref_def)

lemma refs_add_ref:
  "b < length (blocks p) \<Longrightarrow> refs (add_ref k b p) = (refs p)(b := refs p b + k)"
  by (auto simp: fun_eq_iff refs_def add_ref_def upd_block_def nth_list_update_if)

lemma tags_add_ref [simp]: "tags (add_ref k b p) = tags p"
  by (auto simp: fun_eq_iff tags_def add_ref_def nth_upd_block)

lemma same_frame_add_ref [simp]: "same_frame p (add_ref k b p)"
  by (auto simp: same_frame_def add_ref_def nth_upd_block)

lemma evict_step:
  assumes "bm.agrees (tags p) (cached_block_hash_to_block p)" and "b < length (blocks p)"
  shows "fst (maybe_evict_cached_block b p) = (tags p b \<noteq> None)"
    and "tags (snd (maybe_evict_cached_block b p)) = (tags p)(b := None)"
    and "bm.agrees ((tags p)(b := None))
           (cached_block_hash_to_block (snd (maybe_evict_cached_block b p)))"
    and "refs (snd (maybe_evict_cached_block b p)) = refs p"
    and "free_block_queue (snd (maybe_evict_cached_block b p)) = free_block_queue p"
    and "same_frame p (snd (maybe_evict_cached_block b p))"
proof -
  let ?r = "maybe_evict_cached_block b p"
  have "fst ?r = (tags p b \<noteq> None) \<and> tags (snd ?r) = (tags p)(b := None) \<and>
     bm.agrees ((tags p)(b := None)) (cached_block_hash_to_block (snd ?r)) \<and>
     refs (snd ?r) = refs p \<and> free_block_queue (snd ?r) = free_block_queue p \<and>
     same_frame p (snd ?r)"
  proof (cases "tags p b")
    case None
    then have "hash_of (blocks p ! b) = None" using assms(2) by (simp add: tags_def)
    then show ?thesis using None assms by (simp add: maybe_evict_cached_block_def fun_upd_idem)
  next
    case (Some key)
    have key: "hash_of (blocks p ! b) = Some key" using Some assms(2) by (simp add: tags_def)
    obtain m where m: "map_pop (cached_block_hash_to_block p) key b = (Some b, m)"
      "bm.agrees ((tags p)(b := None)) m"
      using bm.agrees_delete [OF assms(1) Some] by (metis prod.collapse)
    show ?thesis
      using key m Some assms(2)
      by (auto simp: maybe_evict_cached_block_def Let_def fun_eq_iff tags_def refs_def
          upd_block_def same_frame_def nth_list_update_if)
  qed
  then show "fst ?r = (tags p b \<noteq> None)" and "tags (snd ?r) = (tags p)(b := None)"
    and "bm.agrees ((tags p)(b := None)) (cached_block_hash_to_block (snd ?r))"
    and "refs (snd ?r) = refs p" and "free_block_queue (snd ?r) = free_block_queue p"
    and "same_frame p (snd ?r)" by blast+
qed

lemma take_block_step:
  assumes "bm.agrees (tags p) (cached_block_hash_to_block p)" and "b < length (blocks p)"
    and "refs p b = 0"
  shows "\<exists>p'. take_block b p = Inr p' \<and> same_frame p p' \<and>
     free_block_queue p' = free_block_queue p \<and> refs p' = (refs p)(b := 1) \<and>
     tags p' = (if enable_caching p then (tags p)(b := None) else tags p) \<and>
     bm.agrees (tags p') (cached_block_hash_to_block p')"
proof (cases "enable_caching p")
  case True
  let ?q = "snd (maybe_evict_cached_block b p)"
  note st = evict_step [OF assms(1,2)]
  have len: "b < length (blocks ?q)" using st(6) assms(2) by (simp add: same_frame_def)
  have z: "refs ?q b = 0" using st(4) assms(3) by simp
  then have z': "ref_cnt (blocks ?q ! b) = 0" by (simp add: refs_def)
  have "take_block b p = Inr (add_ref 1 b ?q)"
    using True z' by (simp add: take_block_def Let_def)
  moreover have "same_frame p (add_ref 1 b ?q)"
    using same_frame_trans [OF st(6) same_frame_add_ref] .
  moreover have "refs (add_ref 1 b ?q) = (refs p)(b := 1)"
    using refs_add_ref [OF len, of 1] st(4) assms(3) by simp
  ultimately show ?thesis using st True by simp
next
  case False
  have "take_block b p = Inr (add_ref 1 b p)"
    using False assms(3) by (simp add: take_block_def refs_def)
  then show ?thesis using False assms refs_add_ref [OF assms(2), of 1] by simp
qed

lemma fold_take_block:
  assumes "bm.agrees (tags p) (cached_block_hash_to_block p)" and "distinct bs"
    and "\<forall>b \<in> set bs. b < length (blocks p) \<and> refs p b = 0"
  shows "\<exists>p'. fold_res take_block bs p = Inr p' \<and> same_frame p p' \<and>
     free_block_queue p' = free_block_queue p \<and>
     refs p' = (\<lambda>x. if x \<in> set bs then 1 else refs p x) \<and>
     tags p' = (\<lambda>x. if enable_caching p \<and> x \<in> set bs then None else tags p x) \<and>
     bm.agrees (tags p') (cached_block_hash_to_block p')"
  using assms
proof (induction bs arbitrary: p)
  case Nil
  then show ?case by simp
next
  case (Cons b bs)
  from take_block_step [of p b] Cons.prems obtain q where q: "take_block b p = Inr q"
    "same_frame p q" "free_block_queue q = free_block_queue p" "refs q = (refs p)(b := 1)"
    "tags q = (if enable_caching p then (tags p)(b := None) else tags p)"
    "bm.agrees (tags q) (cached_block_hash_to_block q)"
    by auto
  have "\<forall>x \<in> set bs. x < length (blocks q) \<and> refs q x = 0"
    using Cons.prems q(2,4) by (auto simp: same_frame_def)
  from Cons.IH [OF q(6) _ this] Cons.prems(2) obtain p' where p': "fold_res take_block bs q = Inr p'"
    "same_frame q p'" "free_block_queue p' = free_block_queue q"
    "refs p' = (\<lambda>x. if x \<in> set bs then 1 else refs q x)"
    "tags p' = (\<lambda>x. if enable_caching q \<and> x \<in> set bs then None else tags q x)"
    "bm.agrees (tags p') (cached_block_hash_to_block p')"
    by auto
  have "enable_caching q = enable_caching p" using q(2) by (simp add: same_frame_def)
  then show ?case
    using q p' same_frame_trans [OF q(2) p'(2)] Cons.prems(2) by (auto simp: fun_eq_iff)
qed

section \<open>Effects of the operations\<close>

text \<open>
  Allocation hands out the least recently freed blocks. Each was unreferenced, is referenced once
  afterwards, and its old content can no longer be found in the cache.
\<close>

lemma get_new_blocks_effect:
  assumes ok: "pool_ok p fl" and n: "0 \<le> n" "n \<le> get_num_free_blocks p"
  shows "\<exists>p'. get_new_blocks n p = Inr (take (nat n) fl, p') \<and> pool_ok p' (drop (nat n) fl) \<and>
     same_frame p p' \<and>
     refs p' = (\<lambda>x. if x \<in> set (take (nat n) fl) then 1 else refs p x) \<and>
     tags p' = (\<lambda>x. if enable_caching p \<and> x \<in> set (take (nat n) fl) then None else tags p x)"
proof -
  let ?bs = "take (nat n) fl"
  note f = pool_ok_facts [OF ok]
  have ncount: "n \<le> num_free_blocks (free_block_queue p)"
    using n by (simp add: get_num_free_blocks_def)
  obtain q where q: "popleft_n n (free_block_queue p) = Inr (map Blk ?bs, q)"
    "queue_inv q (drop (nat n) fl)"
    using lq.pop_take [OF f(3) n(1) ncount] by blast
  let ?p = "p\<lparr>free_block_queue := q\<rparr>"
  have tr: "tags ?p = tags p" "refs ?p = refs p" by simp_all
  have fr: "same_frame p ?p" by (simp add: same_frame_def)
  have sub: "set ?bs \<subseteq> set fl" by (rule set_take_subset)
  have ag: "bm.agrees (tags ?p) (cached_block_hash_to_block ?p)" unfolding tr using f(5) by simp
  have dist: "distinct ?bs" using f(7) by (rule distinct_take)
  have free: "\<forall>b \<in> set ?bs. b < length (blocks ?p) \<and> refs ?p b = 0"
    unfolding tr using sub f(4) by auto
  obtain p' where p': "fold_res take_block ?bs ?p = Inr p'" "same_frame ?p p'"
    "free_block_queue p' = free_block_queue ?p"
    "refs p' = (\<lambda>x. if x \<in> set ?bs then 1 else refs ?p x)"
    "tags p' = (\<lambda>x. if enable_caching ?p \<and> x \<in> set ?bs then None else tags ?p x)"
    "bm.agrees (tags p') (cached_block_hash_to_block p')"
    using fold_take_block [OF ag dist free] by blast
  have rf: "refs p' = (\<lambda>x. if x \<in> set ?bs then 1 else refs p x)"
    and tg: "tags p' = (\<lambda>x. if enable_caching p \<and> x \<in> set ?bs then None else tags p x)"
    using p'(4,5) unfolding tr by simp_all
  have run: "get_new_blocks n p = Inr (?bs, p')"
    using n q(1) p'(1) by (simp add: get_new_blocks_def)
  have split: "set fl = set ?bs \<union> set (drop (nat n) fl)"
    by (metis append_take_drop_id set_append)
  have disj: "set ?bs \<inter> set (drop (nat n) fl) = {}"
    using set_take_disj_set_drop_if_distinct [OF f(7)] by blast
  have mem: "x \<in> set (drop (nat n) fl) \<longleftrightarrow> x \<in> set fl \<and> x \<notin> set ?bs" for x
    using split disj by blast
  have "pool_ok p' (drop (nat n) fl)"
  proof (rule pool_okI [OF ok same_frame_trans [OF fr p'(2)]])
    show "queue_inv (free_block_queue p') (drop (nat n) fl)" using q(2) p'(3) by simp
    show "set (drop (nat n) fl) = {b. b < length (blocks p) \<and> b \<noteq> 0 \<and> refs p' b = 0}"
      unfolding set_eq_iff mem f(4) rf by auto
    show "0 \<le> refs p' b" if "b < length (blocks p)" "b \<noteq> 0" for b
      using pool_ok_refs_nonneg [OF ok that] by (simp add: rf)
    show "bm.agrees (tags p') (cached_block_hash_to_block p')" by (rule p'(6))
    show "tags p' 0 = None" using f(6) by (simp add: tg)
  qed
  then show ?thesis using run same_frame_trans [OF fr p'(2)] rf tg
    by (intro exI [of _ p'] conjI)
qed

lemma get_new_blocks_error:
  "get_num_free_blocks p < n \<Longrightarrow> get_new_blocks n p = Inl ValueError"
  by (simp add: get_new_blocks_def)

lemma touch_block_effect:
  assumes ok: "pool_ok p fl" and b: "b < length (blocks p)"
  shows "\<exists>p'. touch_block b p = Inr p' \<and> pool_ok p' (remove1 b fl) \<and> same_frame p p' \<and>
     refs p' = (refs p)(b := refs p b + 1) \<and> tags p' = tags p"
proof -
  note f = pool_ok_facts [OF ok]
  obtain q where q: "(if ref_cnt (blocks p ! b) = 0 \<and> \<not> is_null (blocks p ! b) then
      res_bind (remove_block (Blk b) (free_block_queue p)) (\<lambda>q. Inr (p\<lparr>free_block_queue := q\<rparr>))
     else Inr p) = Inr (p\<lparr>free_block_queue := q\<rparr>)" "queue_inv q (remove1 b fl)"
  proof (cases "ref_cnt (blocks p ! b) = 0 \<and> \<not> is_null (blocks p ! b)")
    case True
    then have "b \<in> set fl" using b f(4) pool_ok_is_null [OF ok b] by (simp add: refs_def)
    from lq.take_out_rep [OF f(3) this] True that show ?thesis by auto
  next
    case False
    then have "b \<notin> set fl" using b f(4) pool_ok_is_null [OF ok b] by (auto simp: refs_def)
    then show ?thesis using that [of "free_block_queue p"] False f(3) by (simp add: remove1_idem)
  qed
  let ?p = "p\<lparr>free_block_queue := q\<rparr>"
  have tr: "tags ?p = tags p" "refs ?p = refs p" by simp_all
  have fr: "same_frame p (add_ref 1 b ?p)"
    using same_frame_trans [OF _ same_frame_add_ref, of p ?p] by (simp add: same_frame_def)
  have run: "touch_block b p = Inr (add_ref 1 b ?p)" by (simp add: touch_block_def q(1))
  have rf: "refs (add_ref 1 b ?p) = (refs p)(b := refs p b + 1)"
    using refs_add_ref [of b ?p 1] b tr by simp
  have "pool_ok (add_ref 1 b ?p) (remove1 b fl)"
  proof (rule pool_okI [OF ok fr])
    show "queue_inv (free_block_queue (add_ref 1 b ?p)) (remove1 b fl)" using q(2) by simp
    have "b \<noteq> 0 \<Longrightarrow> refs p b + 1 \<noteq> 0" using pool_ok_refs_nonneg [OF ok b] by linarith
    then show "set (remove1 b fl) =
        {x. x < length (blocks p) \<and> x \<noteq> 0 \<and> refs (add_ref 1 b ?p) x = 0}"
      unfolding rf set_remove1_eq [OF f(7)] f(4) by auto
    show "0 \<le> refs (add_ref 1 b ?p) x" if "x < length (blocks p)" "x \<noteq> 0" for x
      using pool_ok_refs_nonneg [OF ok that] unfolding rf by (auto simp: add_nonneg_nonneg)
    show "bm.agrees (tags (add_ref 1 b ?p)) (cached_block_hash_to_block (add_ref 1 b ?p))"
      using f(5) tr by simp
    show "tags (add_ref 1 b ?p) 0 = None" using f(6) tr by simp
  qed
  moreover have "tags (add_ref 1 b ?p) = tags p" using tr by simp
  ultimately show ?thesis using run fr rf
    by (intro exI [of _ "add_ref 1 b ?p"] conjI)
qed

lemma touch_effect:
  assumes "pool_ok p fl" and "\<forall>b \<in> set bs. b < length (blocks p)"
  shows "\<exists>p'. touch bs p = Inr p' \<and> pool_ok p' (filter (\<lambda>b. b \<notin> set bs) fl) \<and> same_frame p p' \<and>
     refs p' = (\<lambda>b. refs p b + int (count_list bs b)) \<and> tags p' = tags p"
  using assms unfolding touch_def
proof (induction bs arbitrary: p fl)
  case Nil
  then show ?case by simp
next
  case (Cons b bs)
  from touch_block_effect [of p fl b] Cons.prems obtain q where q: "touch_block b p = Inr q"
    "pool_ok q (remove1 b fl)" "same_frame p q" "refs q = (refs p)(b := refs p b + 1)"
    "tags q = tags p" by auto
  have "\<forall>b \<in> set bs. b < length (blocks q)" using Cons.prems(2) q(3) by (simp add: same_frame_def)
  from Cons.IH [OF q(2) this] obtain p' where p': "fold_res touch_block bs q = Inr p'"
    "pool_ok p' (filter (\<lambda>b. b \<notin> set bs) (remove1 b fl))" "same_frame q p'"
    "refs p' = (\<lambda>b. refs q b + int (count_list bs b))" "tags p' = tags q" by auto
  have "filter (\<lambda>b. b \<notin> set bs) (remove1 b fl) = filter (\<lambda>x. x \<notin> set (b # bs)) fl"
    using pool_ok_facts(7) [OF Cons.prems(1)]
    by (simp add: distinct_remove1_removeAll removeAll_filter_not_eq) (metis (lifting))
  then show ?case
    using q p' same_frame_trans [OF q(3) p'(3)] by (auto simp: fun_eq_iff)
qed

lemma fold_add_ref:
  assumes "\<forall>b \<in> set bs. b < length (blocks p)"
  shows "same_frame p (fold (add_ref k) bs p)"
    and "tags (fold (add_ref k) bs p) = tags p"
    and "free_block_queue (fold (add_ref k) bs p) = free_block_queue p"
    and "cached_block_hash_to_block (fold (add_ref k) bs p) = cached_block_hash_to_block p"
    and "refs (fold (add_ref k) bs p) = (\<lambda>b. refs p b + k * int (count_list bs b))"
  using assms
proof (induction bs arbitrary: p)
  case Nil
  { case 1 show ?case by simp next case 2 show ?case by simp next case 3 show ?case by simp
    next case 4 show ?case by simp next case 5 show ?case by simp }
next
  case (Cons b bs)
  { case 1 then show ?case using Cons.IH(1) [of "add_ref k b p"] same_frame_trans [OF same_frame_add_ref]
      by simp
    next case 2 then show ?case using Cons.IH(2) [of "add_ref k b p"] by simp
    next case 3 then show ?case using Cons.IH(3) [of "add_ref k b p"] by simp
    next case 4 then show ?case using Cons.IH(4) [of "add_ref k b p"] by simp
    next case 5 then show ?case
        using Cons.IH(5) [of "add_ref k b p"] refs_add_ref [of b p k]
        by (auto simp: fun_eq_iff algebra_simps) }
qed

text \<open>
  Freeing drops one reference per occurrence. The blocks whose last reference goes are put at the
  back of the queue in the given order, which is the order in which they will be evicted; their
  tags stay, so that they can still be hit.
\<close>

lemma free_blocks_effect:
  assumes ok: "pool_ok p fl" and d: "distinct (filter (\<lambda>b. b \<noteq> 0) bs)"
    and live: "\<forall>b \<in> set bs. b < length (blocks p) \<and> (b \<noteq> 0 \<longrightarrow> 0 < refs p b)"
  shows "\<exists>p'. free_blocks bs p = Inr p' \<and>
     pool_ok p' (fl @ filter (\<lambda>b. b \<noteq> 0 \<and> refs p b = 1) bs) \<and> same_frame p p' \<and>
     refs p' = (\<lambda>b. refs p b - int (count_list bs b)) \<and> tags p' = tags p"
proof -
  note f = pool_ok_facts [OF ok]
  let ?p1 = "fold (add_ref (-1)) bs p"
  let ?freed = "filter (\<lambda>b. b \<noteq> 0 \<and> refs p b = 1) bs"
  have inb: "\<forall>b \<in> set bs. b < length (blocks p)" using live by blast
  note p1 = fold_add_ref [OF inb, of "-1"]
  have cnt: "count_list bs b = 1" if "b \<in> set bs" "b \<noteq> 0" for b
  proof -
    have "count_list bs b = count_list (filter (\<lambda>b. b \<noteq> 0) bs) b"
      using that(2) by (induction bs) auto
    then show ?thesis using count_list_distinct [OF d, of b] that by simp
  qed
  have nul: "is_null (blocks ?p1 ! b) = (b = 0)" if "b < length (blocks p)" for b
    using p1(1) that pool_ok_is_null [OF ok that] by (simp add: same_frame_def)
  have bk: "filter (\<lambda>b. ref_cnt (blocks ?p1 ! b) = 0 \<and> \<not> is_null (blocks ?p1 ! b)) bs = ?freed"
  proof (rule filter_cong [OF refl])
    fix b assume b: "b \<in> set bs"
    have "ref_cnt (blocks ?p1 ! b) = refs p b - int (count_list bs b)"
      using fun_cong [OF p1(5), of b] by (simp add: refs_def)
    then show "(ref_cnt (blocks ?p1 ! b) = 0 \<and> \<not> is_null (blocks ?p1 ! b)) =
        (b \<noteq> 0 \<and> refs p b = 1)"
      using nul [of b] inb b cnt [of b] by auto
  qed
  have db: "distinct ?freed"
    using distinct_filter [OF d, of "\<lambda>b. refs p b = 1"] by (simp add: conj_commute)
  have dj: "set fl \<inter> set ?freed = {}" unfolding f(4) by auto
  have qi: "queue_inv (free_block_queue ?p1) fl" using f(3) p1(3) by simp
  from lq.put_back_rep [OF qi db dj] obtain q where
    q: "append_n (map Blk ?freed) (free_block_queue ?p1) = Inr q" "queue_inv q (fl @ ?freed)"
    by blast
  let ?p2 = "?p1\<lparr>free_block_queue := q\<rparr>"
  have run: "free_blocks bs p = Inr ?p2"
    unfolding free_blocks_def Let_def bk using q(1) by simp
  have tr: "tags ?p2 = tags p" "refs ?p2 = (\<lambda>b. refs p b - int (count_list bs b))"
    using p1(2,5) by simp_all
  have fr: "same_frame p ?p2" using p1(1) by (simp add: same_frame_def)
  have rf: "refs ?p2 b = (if b \<in> set bs then refs p b - 1 else refs p b)" if "b \<noteq> 0" for b
    unfolding tr using cnt [OF _ that] by simp
  have pos: "0 < refs p b" if "b \<in> set bs" "b \<noteq> 0" for b using live that by blast
  have "pool_ok ?p2 (fl @ ?freed)"
  proof (rule pool_okI [OF ok fr])
    show "queue_inv (free_block_queue ?p2) (fl @ ?freed)" using q(2) by simp
    have "refs ?p2 b = 0 \<longleftrightarrow> refs p b = 0 \<or> (b \<in> set bs \<and> refs p b = 1)" if "b \<noteq> 0" for b
      unfolding rf [OF that] using pos [OF _ that] by (cases "b \<in> set bs") simp_all
    then show "set (fl @ ?freed) = {b. b < length (blocks p) \<and> b \<noteq> 0 \<and> refs ?p2 b = 0}"
      unfolding set_append set_filter f(4) using inb by blast
    show "0 \<le> refs ?p2 b" if "b < length (blocks p)" "b \<noteq> 0" for b
      unfolding rf [OF that(2)] using pos [OF _ that(2)] pool_ok_refs_nonneg [OF ok that]
      by (simp add: int_one_le_iff_zero_less)
    show "bm.agrees (tags ?p2) (cached_block_hash_to_block ?p2)"
      unfolding tr using f(5) p1(4) by simp
    show "tags ?p2 0 = None" unfolding tr by (rule f(6))
  qed
  with run fr tr show ?thesis by (intro exI [of _ ?p2] conjI)
qed

section \<open>Caching full blocks\<close>

text \<open>The request that comes back differs at most in the memo of its prompt embedding hashes.\<close>

definition memo_only :: "request \<Rightarrow> request \<Rightarrow> bool" where
  "memo_only r r' \<longleftrightarrow> (\<exists>m. r' = r\<lparr>prompt_embeds_hashes := m\<rparr>)"

lemma memo_only_refl [simp]: "memo_only r r"
  unfolding memo_only_def by (rule exI [of _ "prompt_embeds_hashes r"]) simp

lemma memo_only_trans: "memo_only r s \<Longrightarrow> memo_only s t \<Longrightarrow> memo_only r t"
  unfolding memo_only_def by auto

lemma memo_only_fields:
  assumes "memo_only r r'"
  shows "request_id r' = request_id r" and "block_hashes r' = block_hashes r"
    and "all_token_ids r' = all_token_ids r" and "num_tokens r' = num_tokens r"
    and "num_computed_tokens r' = num_computed_tokens r" and "mm_features r' = mm_features r"
    and "status r' = status r"
  using assms by (auto simp: memo_only_def num_tokens_def)

lemma generate_memo_only:
  "generate_block_hash_extra_keys sha r s e i = Inr (ks, j, r') \<Longrightarrow> memo_only r r'"
  by (auto simp: generate_block_hash_extra_keys_def gen_prompt_embeds_extra_hash_keys_def
      res_simps Let_def memo_only_def [of r "r\<lparr>prompt_embeds_hashes := _\<rparr>"] simp del: memo_only_def
      split: option.splits if_splits)

lemma stored_event_effect:
  assumes "stored_event sha p r bs hashes nh c n sz = Inr (p', r')"
  shows "(\<exists>es. p' = p\<lparr>kv_event_queue := es\<rparr>) \<and> memo_only r r'"
proof -
  obtain keys idx where loop: "fold_res (stored_extra_keys_step sha p bs sz) [c..n - 1] ([], 0, r)
      = Inr (keys, idx, r')"
    and p': "\<exists>es. p' = p\<lparr>kv_event_queue := es\<rparr>"
    using assms by (auto simp: stored_event_def res_simps split: if_splits)
  have "(\<lambda>(_, _, x). memo_only r x) (keys, idx, r')"
  proof (rule fold_res_invariant [OF loop])
    fix x s t
    assume "(\<lambda>(_, _, x). memo_only r x) s"
      and "stored_extra_keys_step sha p bs sz x s = Inr t"
    then show "(\<lambda>(_, _, x). memo_only r x) t"
      by (auto simp: stored_extra_keys_step_def res_simps
          dest!: generate_memo_only intro: memo_only_trans split: prod.splits if_splits)
  qed simp
  with p' show ?thesis by simp
qed

lemma cache_one_block_step:
  assumes "bm.agrees (tags p) (cached_block_hash_to_block p)" and "b < length (blocks p)"
    and "is_null (blocks p ! b) \<longleftrightarrow> b = 0"
    and "cache_one_block hs gid (i, b) (p, acc) = Inr (p', acc')"
  shows "same_frame p p' \<and> refs p' = refs p \<and> free_block_queue p' = free_block_queue p \<and>
     bm.agrees (tags p') (cached_block_hash_to_block p') \<and>
     (b = 0 \<longrightarrow> p' = p) \<and>
     (b \<noteq> 0 \<longrightarrow> tags p b = None \<and> i < length hs \<and>
        (\<exists>key. make_block_hash_with_group_id (hs ! i) gid = Inr key \<and>
               tags p' = (tags p)(b := Some key)))"
proof (cases "b = 0")
  case True
  then show ?thesis using assms by (simp add: cache_one_block_def)
next
  case False
  then obtain key where key: "hash_of (blocks p ! b) = None" "i < length hs"
    "make_block_hash_with_group_id (hs ! i) gid = Inr key"
    "p' = (upd_block b (\<lambda>blk. blk\<lparr>hash_of := Some key\<rparr>) p)
            \<lparr>cached_block_hash_to_block := map_insert (cached_block_hash_to_block p) key b\<rparr>"
    using assms(3,4) by (auto simp: cache_one_block_def res_simps split: if_splits)
  have none: "tags p b = None" using key(1) by (simp add: tags_def)
  have tg: "tags p' = (tags p)(b := Some key)"
    using assms(2) unfolding key(4) by (auto simp: fun_eq_iff tags_def nth_upd_block)
  have "refs p' = refs p"
    unfolding key(4) by (auto simp: fun_eq_iff refs_def upd_block_def nth_list_update_if)
  moreover have "same_frame p p'"
    unfolding key(4) by (auto simp: same_frame_def nth_upd_block)
  moreover have "bm.agrees (tags p') (cached_block_hash_to_block p')"
    unfolding tg using bm.agrees_add [OF assms(1) none] by (simp add: key(4))
  moreover have "free_block_queue p' = free_block_queue p" unfolding key(4) by simp
  ultimately show ?thesis using False none tg key(2,3) by blast
qed

text \<open>
  What caching does to the pool, whenever it returns: nothing but tags changes, tags are only
  added, and only to the given blocks.
\<close>

definition caches_only :: "block_pool \<Rightarrow> nat set \<Rightarrow> block_pool \<Rightarrow> bool" where
  "caches_only p bs p' \<longleftrightarrow>
     same_frame p p' \<and> refs p' = refs p \<and> free_block_queue p' = free_block_queue p \<and>
     bm.agrees (tags p') (cached_block_hash_to_block p') \<and>
     (\<forall>b. tags p b \<noteq> None \<longrightarrow> tags p' b = tags p b) \<and>
     (\<forall>b. b \<notin> bs - {0} \<longrightarrow> tags p' b = tags p b)"

lemma caches_only_pool_ok: "pool_ok p fl \<Longrightarrow> caches_only p bs p' \<Longrightarrow> pool_ok p' fl"
  using pool_ok_facts [of p fl] pool_ok_refs_nonneg [of p fl]
  by (intro pool_okI [of p fl p' fl]) (auto simp: caches_only_def)

lemma cache_loop_effect:
  assumes "fold_res (cache_one_block hs gid) ibs (p, acc) = Inr (p', acc')"
    and "bm.agrees (tags p) (cached_block_hash_to_block p)"
    and "\<forall>b \<in> snd ` set ibs. b < length (blocks p) \<and> (is_null (blocks p ! b) \<longleftrightarrow> b = 0)"
  shows "caches_only p (snd ` set ibs) p' \<and>
    (\<forall>(i, b) \<in> set ibs. b \<noteq> 0 \<longrightarrow> i < length hs \<and> tags p' b \<noteq> None \<and>
       make_block_hash_with_group_id (hs ! i) gid = Inr (the (tags p' b)))"
  using assms
proof (induction ibs arbitrary: p acc)
  case Nil
  then show ?case by (simp add: caches_only_def)
next
  case (Cons ib ibs)
  obtain i b where ib: "ib = (i, b)" by (cases ib)
  obtain q acc1 where q: "cache_one_block hs gid (i, b) (p, acc) = Inr (q, acc1)"
    "fold_res (cache_one_block hs gid) ibs (q, acc1) = Inr (p', acc')"
    using Cons.prems(1) ib by (auto simp: res_simps)
  have b: "b < length (blocks p)" "is_null (blocks p ! b) \<longleftrightarrow> b = 0" using Cons.prems(3) ib by auto
  note st = cache_one_block_step [OF Cons.prems(2) b q(1)]
  have "\<forall>b \<in> snd ` set ibs. b < length (blocks q) \<and> (is_null (blocks q ! b) \<longleftrightarrow> b = 0)"
    using Cons.prems(3) st by (auto simp: same_frame_def)
  note ih = Cons.IH [OF q(2) _ this]
  have co: "caches_only q (snd ` set ibs) p'" using ih st by blast
  have keep: "tags p' x = tags q x" if "tags q x \<noteq> None" for x
    using co that by (simp add: caches_only_def)
  have stk: "b \<noteq> 0 \<longrightarrow> tags p b = None \<and> i < length hs \<and>
       make_block_hash_with_group_id (hs ! i) gid = Inr (the (tags q b)) \<and> tags q b \<noteq> None"
  proof
    assume "b \<noteq> 0"
    then obtain key where k: "tags p b = None" "i < length hs"
      "make_block_hash_with_group_id (hs ! i) gid = Inr key" "tags q = (tags p)(b := Some key)"
      using st by blast
    from k(4) have "tags q b = Some key" by simp
    with k(1-3) show "tags p b = None \<and> i < length hs \<and>
       make_block_hash_with_group_id (hs ! i) gid = Inr (the (tags q b)) \<and> tags q b \<noteq> None"
      by simp
  qed
  have grow: "tags q x = tags p x" if "x \<noteq> b \<or> x = 0" for x using st that by (cases "b = 0") auto
  have "caches_only p (snd ` set (ib # ibs)) p'"
    unfolding caches_only_def
  proof (intro conjI allI impI)
    show "same_frame p p'" using st co same_frame_trans by (auto simp: caches_only_def)
    show "refs p' = refs p" "free_block_queue p' = free_block_queue p"
      "bm.agrees (tags p') (cached_block_hash_to_block p')"
      using st co by (simp_all add: caches_only_def)
    show "tags p' x = tags p x" if "tags p x \<noteq> None" for x
      using keep [of x] grow [of x] stk that by (cases "x = b") (auto split: if_splits)
    show "tags p' x = tags p x" if "x \<notin> snd ` set (ib # ibs) - {0}" for x
      using co grow [of x] that ib by (auto simp: caches_only_def)
  qed
  moreover have "b \<noteq> 0 \<longrightarrow> i < length hs \<and> tags p' b \<noteq> None \<and>
      make_block_hash_with_group_id (hs ! i) gid = Inr (the (tags p' b))"
    using stk keep [of b] by auto
  ultimately show ?case using ih st ib by auto
qed

definition hashes_at ::
  "block_pool \<Rightarrow> request \<Rightarrow> int \<Rightarrow> block_hash list res" where
  "hashes_at p r block_size =
     (if block_size = hash_block_size p then Inr (block_hashes r)
      else block_hashes_with_block_size (block_hashes r) (hash_block_size p) block_size)"

lemma cache_full_blocks_effect:
  assumes run: "cache_full_blocks sha p r bs c n sz gid = Inr (p', r')"
    and ok: "pool_ok p fl" and inb: "\<forall>b \<in> set bs. b < length (blocks p)" and c: "0 \<le> c"
  shows "caches_only p (set (py_slice bs c n)) p' \<and> pool_ok p' fl \<and> memo_only r r' \<and>
     (\<forall>i. c \<le> int i \<and> int i < n \<and> i < length bs \<and> bs ! i \<noteq> 0 \<longrightarrow>
        (\<exists>hs key. hashes_at p r sz = Inr hs \<and> i < length hs \<and>
           make_block_hash_with_group_id (hs ! i) gid = Inr key \<and> tags p' (bs ! i) = Some key))"
proof (cases "c \<ge> n")
  case True
  then show ?thesis
    using run ok pool_ok_facts(5) [OF ok] by (auto simp: cache_full_blocks_def caches_only_def)
next
  case False
  let ?new = "py_slice bs c n"
  let ?ibs = "zip [0..<length ?new] ?new"
  have new: "?new = drop (nat c) (take (nat n) bs)" using False c by (simp add: py_slice_nonneg)
  obtain hs p1 nh where hs: "hashes_at p r sz = Inr hs"
    and loop: "fold_res (cache_one_block (py_from hs c) gid) ?ibs (p, []) = Inr (p1, nh)"
    and rest: "(if enable_kv_cache_events p1 then stored_event sha p1 r bs hs nh c n sz
       else Inr (p1, r)) = Inr (p', r')"
    using run False
    by (auto simp: cache_full_blocks_def hashes_at_def res_simps Let_def require_def split: if_splits)
  have ev: "(\<exists>es. p' = p1\<lparr>kv_event_queue := es\<rparr>) \<and> memo_only r r'"
  proof (cases "enable_kv_cache_events p1")
    case True
    with rest show ?thesis by (auto dest: stored_event_effect)
  next
    case False
    then have "p' = p1\<lparr>kv_event_queue := kv_event_queue p1\<rparr>" "r' = r" using rest by simp_all
    then show ?thesis by (metis memo_only_refl)
  qed
  have sub: "snd ` set ?ibs = set ?new" by (metis (no_types) list.set_map map_snd_zip length_upt minus_nat.diff_0)
  have "\<forall>b \<in> snd ` set ?ibs. b < length (blocks p) \<and> (is_null (blocks p ! b) \<longleftrightarrow> b = 0)"
    unfolding sub using inb set_py_slice [of bs c n] pool_ok_is_null [OF ok] by blast
  note lp = cache_loop_effect [OF loop pool_ok_facts(5) [OF ok] this, unfolded sub]
  have tg: "tags p' = tags p1" and co: "caches_only p (set ?new) p'"
    using ev lp by (auto simp: caches_only_def same_frame_def)
  have "\<exists>hs key. hashes_at p r sz = Inr hs \<and> i < length hs \<and>
      make_block_hash_with_group_id (hs ! i) gid = Inr key \<and> tags p' (bs ! i) = Some key"
    if i: "c \<le> int i" "int i < n" "i < length bs" "bs ! i \<noteq> 0" for i
  proof -
    let ?k = "i - nat c"
    have k: "nat c + ?k = i" "?k < length ?new" "?new ! ?k = bs ! i"
      using i c unfolding new by (auto simp: le_nat_iff nat_less_iff)
    then have "(?k, bs ! i) \<in> set ?ibs" by (metis (no_types) add_0 length_upt minus_nat.diff_0 nth_upt nth_zip length_zip min_less_iff_conj nth_mem)
    then have r: "?k < length (py_from hs c)" "tags p' (bs ! i) \<noteq> None"
      "make_block_hash_with_group_id (py_from hs c ! ?k) gid = Inr (the (tags p' (bs ! i)))"
      using lp i(4) unfolding tg by blast+
    have "i < length hs" "py_from hs c ! ?k = hs ! i"
      using r(1) k(1) c by (auto simp: py_from_nonneg)
    with r hs show ?thesis by auto
  qed
  then show ?thesis using co caches_only_pool_ok [OF ok co] ev by blast
qed

text \<open>Caching returns if the blocks to be cached are distinct and not cached yet.\<close>

lemma cache_loop_total:
  assumes "bm.agrees (tags p) (cached_block_hash_to_block p)" and "0 \<le> gid" and "gid < 2 ^ 32"
    and "distinct (filter (\<lambda>b. b \<noteq> 0) (map snd ibs))"
    and "\<forall>(i, b) \<in> set ibs. i < length hs \<and> b < length (blocks p) \<and>
           (is_null (blocks p ! b) \<longleftrightarrow> b = 0) \<and> (b \<noteq> 0 \<longrightarrow> tags p b = None)"
  shows "\<exists>st. fold_res (cache_one_block hs gid) ibs (p, acc) = Inr st"
  using assms
proof (induction ibs arbitrary: p acc)
  case Nil
  then show ?case by simp
next
  case (Cons ib ibs)
  obtain i b where ib: "ib = (i, b)" by (cases ib)
  have b: "i < length hs" "b < length (blocks p)" "is_null (blocks p ! b) \<longleftrightarrow> b = 0"
    "b \<noteq> 0 \<longrightarrow> tags p b = None"
    using Cons.prems(5) ib by auto
  obtain key where "make_block_hash_with_group_id (hs ! i) gid = Inr key"
    using make_key_total [OF Cons.prems(2,3)] by blast
  then obtain q acc1 where q: "cache_one_block hs gid (i, b) (p, acc) = Inr (q, acc1)"
    using b by (auto simp: cache_one_block_def tags_def)
  note st = cache_one_block_step [OF Cons.prems(1) b(2,3) q]
  have "\<forall>(j, x) \<in> set ibs. j < length hs \<and> x < length (blocks q) \<and>
      (is_null (blocks q ! x) \<longleftrightarrow> x = 0) \<and> (x \<noteq> 0 \<longrightarrow> tags q x = None)"
  proof (clarify)
    fix j x assume jx: "(j, x) \<in> set ibs"
    have "tags q x = tags p x" if "x \<noteq> 0"
    proof (cases "b = 0")
      case False
      have "x \<noteq> b" using jx Cons.prems(4) that ib False by (auto simp: image_iff)
      then show ?thesis using st False by auto
    qed (use st in simp)
    then show "j < length hs \<and> x < length (blocks q) \<and>
      (is_null (blocks q ! x) \<longleftrightarrow> x = 0) \<and> (x \<noteq> 0 \<longrightarrow> tags q x = None)"
      using Cons.prems(5) jx st by (auto simp: same_frame_def)
  qed
  moreover have "distinct (filter (\<lambda>b. b \<noteq> 0) (map snd ibs))"
    using Cons.prems(4) by (auto split: if_splits)
  ultimately have "\<exists>st. fold_res (cache_one_block hs gid) ibs (q, acc1) = Inr st"
    using Cons.IH [of q acc1] Cons.prems(2,3) st by blast
  then show ?case using q ib by simp
qed

lemma cache_full_blocks_total:
  assumes ok: "pool_ok p fl" and inb: "\<forall>b \<in> set bs. b < length (blocks p)"
    and c: "0 \<le> c" and gid: "0 \<le> gid" "gid < 2 ^ 32"
    and hs: "hashes_at p r sz = Inr hs" "n \<le> int (length hs)" "n \<le> int (length (block_hashes r))"
    and sz: "sz = hash_block_size p \<or> hash_block_size p \<noteq> 0 \<and> sz mod hash_block_size p = 0"
    and ev: "\<not> enable_kv_cache_events p"
    and fresh: "distinct (filter (\<lambda>b. b \<noteq> 0) (py_slice bs c n))"
      "\<forall>b \<in> set (py_slice bs c n). b \<noteq> 0 \<longrightarrow> tags p b = None"
  shows "\<exists>p'. cache_full_blocks sha p r bs c n sz gid = Inr (p', r)"
proof (cases "c \<ge> n")
  case True
  then show ?thesis by (simp add: cache_full_blocks_def)
next
  case False
  let ?new = "py_slice bs c n"
  let ?ibs = "zip [0..<length ?new] ?new"
  have new: "?new = drop (nat c) (take (nat n) bs)" using False c by (simp add: py_slice_nonneg)
  have snd: "map snd ?ibs = ?new" by simp
  have all: "\<forall>(i, b) \<in> set ?ibs. i < length (py_from hs c) \<and> b < length (blocks p) \<and>
           (is_null (blocks p ! b) \<longleftrightarrow> b = 0) \<and> (b \<noteq> 0 \<longrightarrow> tags p b = None)"
  proof (clarify)
    fix i b assume "(i, b) \<in> set ?ibs"
    then have i: "i < length ?new" "b \<in> set ?new" by (auto simp: in_set_zip)
    have "b \<in> set bs" using i(2) set_py_slice [of bs c n] by blast
    moreover have "i < length (py_from hs c)" using i(1) hs(2) c unfolding new by (simp add: py_from_nonneg)
    ultimately show "i < length (py_from hs c) \<and> b < length (blocks p) \<and>
           (is_null (blocks p ! b) \<longleftrightarrow> b = 0) \<and> (b \<noteq> 0 \<longrightarrow> tags p b = None)"
      using inb fresh(2) i(2) pool_ok_is_null [OF ok] by blast
  qed
  have "distinct (filter (\<lambda>b. b \<noteq> 0) (map snd ?ibs))" unfolding snd by (rule fresh(1))
  from cache_loop_total [OF pool_ok_facts(5) [OF ok] gid this all, of "[]"]
  obtain p1 nh where run: "fold_res (cache_one_block (py_from hs c) gid) ?ibs (p, []) = Inr (p1, nh)"
    by auto
  have "\<forall>b \<in> snd ` set ?ibs. b < length (blocks p) \<and> (is_null (blocks p ! b) \<longleftrightarrow> b = 0)"
    using all by auto
  from cache_loop_effect [OF run pool_ok_facts(5) [OF ok] this]
  have "\<not> enable_kv_cache_events p1" using ev by (simp add: caches_only_def same_frame_def)
  moreover have "(if sz = hash_block_size p then Inr (block_hashes r)
      else require (hash_block_size p \<noteq> 0) ZeroDivisionError
        (require (sz mod hash_block_size p = 0) AssertionError
          (block_hashes_with_block_size (block_hashes r) (hash_block_size p) sz))) = Inr hs"
    using hs(1) sz by (auto simp: hashes_at_def)
  ultimately show ?thesis using False hs(3) run by (simp add: cache_full_blocks_def Let_def)
qed

section \<open>Eviction and reset\<close>

lemma evict_pool_ok:
  assumes ok: "pool_ok p fl" and b: "b < length (blocks p)"
  shows "pool_ok (snd (maybe_evict_cached_block b p)) fl"
proof -
  note f = pool_ok_facts [OF ok]
  note e = evict_step [OF f(5) b]
  show ?thesis
  proof (rule pool_okI [OF ok e(6)])
    show "queue_inv (free_block_queue (snd (maybe_evict_cached_block b p))) fl"
      using f(3) e(5) by simp
    show "set fl = {x. x < length (blocks p) \<and> x \<noteq> 0 \<and>
        refs (snd (maybe_evict_cached_block b p)) x = 0}"
      using f(4) e(4) by simp
    show "0 \<le> refs (snd (maybe_evict_cached_block b p)) x" if "x < length (blocks p)" "x \<noteq> 0" for x
      using pool_ok_refs_nonneg [OF ok that] e(4) by simp
    show "bm.agrees (tags (snd (maybe_evict_cached_block b p)))
        (cached_block_hash_to_block (snd (maybe_evict_cached_block b p)))"
      using e(2,3) by simp
    show "tags (snd (maybe_evict_cached_block b p)) 0 = None" using f(6) e(2) by simp
  qed
qed

lemma evict_blocks_effect:
  assumes "pool_ok p fl" and "\<forall>i \<in> set ids. 0 \<le> i \<and> i < num_gpu_blocks p"
  shows "\<exists>p'. evict_blocks ids p = Inr p' \<and> pool_ok p' fl \<and> same_frame p p' \<and> refs p' = refs p \<and>
     tags p' = (\<lambda>b. if int b \<in> set ids then None else tags p b)"
  using assms unfolding evict_blocks_def
proof (induction ids arbitrary: p)
  case Nil
  then show ?case by simp
next
  case (Cons i ids)
  have i: "nat i < length (blocks p)" "0 \<le> i" "i < int (length (blocks p))"
    using Cons.prems pool_ok_facts(9) [OF Cons.prems(1)] by auto
  let ?q = "snd (maybe_evict_cached_block (nat i) p)"
  have run: "evict_one i p = Inr ?q" using i by (simp add: evict_one_def)
  note e = evict_step [OF pool_ok_facts(5) [OF Cons.prems(1)] i(1)]
  have "\<forall>i \<in> set ids. 0 \<le> i \<and> i < num_gpu_blocks ?q"
    using Cons.prems(2) e(6) by (simp add: same_frame_def)
  from Cons.IH [OF evict_pool_ok [OF Cons.prems(1) i(1)] this] obtain p' where
    p': "fold_res evict_one ids ?q = Inr p'" "pool_ok p' fl" "same_frame ?q p'"
    "refs p' = refs ?q" "tags p' = (\<lambda>b. if int b \<in> set ids then None else tags ?q b)"
    by blast
  have "tags p' = (\<lambda>b. if int b \<in> set (i # ids) then None else tags p b)"
    unfolding p'(5) e(2) using i(2) by (auto simp: fun_eq_iff)
  then show ?case
    using run p'(1-4) same_frame_trans [OF e(6) p'(3)] e(4) by auto
qed

lemma reset_effect:
  assumes ok: "pool_ok p fl"
  shows "fst (reset_prefix_cache p) \<longleftrightarrow> (\<forall>b < length (blocks p). b \<noteq> 0 \<longrightarrow> refs p b = 0)"
    and "fst (reset_prefix_cache p) \<Longrightarrow> tags (snd (reset_prefix_cache p)) = (\<lambda>_. None)"
    and "\<not> fst (reset_prefix_cache p) \<Longrightarrow> snd (reset_prefix_cache p) = p"
    and "pool_ok (snd (reset_prefix_cache p)) fl"
    and "b < length (blocks p) \<Longrightarrow> refs (snd (reset_prefix_cache p)) b = refs p b"
    and "same_frame p (snd (reset_prefix_cache p))"
proof -
  let ?q = "snd (reset_prefix_cache p)"
  note f = pool_ok_facts [OF ok]
  have "fst (reset_prefix_cache p) \<longleftrightarrow> num_gpu_blocks p - int (length fl) = 1"
    by (simp add: reset_prefix_cache_def Let_def f(8))
  also have "\<dots> \<longleftrightarrow> card (set fl) = card {1..<length (blocks p)}"
    using f(1,9) distinct_card [OF f(7)] by (auto simp: of_nat_diff Suc_le_eq)
  also have "\<dots> \<longleftrightarrow> set fl = {1..<length (blocks p)}"
  proof
    have "set fl \<subseteq> {1..<length (blocks p)}" unfolding f(4) by auto
    then show "card (set fl) = card {1..<length (blocks p)} \<Longrightarrow> set fl = {1..<length (blocks p)}"
      by (rule card_subset_eq [rotated]) simp_all
  qed simp
  also have "\<dots> \<longleftrightarrow> (\<forall>b < length (blocks p). b \<noteq> 0 \<longrightarrow> refs p b = 0)"
    unfolding f(4) set_eq_iff by (auto simp: Suc_le_eq)
  finally show A: "fst (reset_prefix_cache p) \<longleftrightarrow>
      (\<forall>b < length (blocks p). b \<noteq> 0 \<longrightarrow> refs p b = 0)" .
  show B: "\<not> fst (reset_prefix_cache p) \<Longrightarrow> ?q = p"
    by (simp add: reset_prefix_cache_def Let_def split: if_splits)
  have C: "tags ?q = (\<lambda>_. None) \<and> (\<forall>b < length (blocks p). refs ?q b = refs p b) \<and> same_frame p ?q \<and>
      free_block_queue ?q = free_block_queue p \<and> cached_block_hash_to_block ?q = empty_map"
    if "fst (reset_prefix_cache p)"
    using that
    by (auto simp: reset_prefix_cache_def Let_def tags_def refs_def same_frame_def fun_eq_iff
        split: if_splits)
  then show "fst (reset_prefix_cache p) \<Longrightarrow> tags ?q = (\<lambda>_. None)" by blast
  show "pool_ok ?q fl"
  proof (cases "fst (reset_prefix_cache p)")
    case True
    with C [OF True] f ok show ?thesis
      by (auto simp: pool_ok_def same_frame_def agrees_empty)
  qed (simp add: B ok)
  show "b < length (blocks p) \<Longrightarrow> refs ?q b = refs p b"
    using B C by (cases "fst (reset_prefix_cache p)") auto
  show "same_frame p ?q" using B C by (cases "fst (reset_prefix_cache p)") auto
qed

text \<open>A lookup returns blocks that carry the asked key, and misses only if no block carries it.\<close>

lemma get_cached_block_effect:
  assumes ag: "bm.agrees (tags p) (cached_block_hash_to_block p)"
    and gs: "\<forall>g \<in> set gs. 0 \<le> g \<and> g < 2 ^ 32"
  shows "\<exists>res. get_cached_block p h gs = Inr res \<and>
    (\<forall>bs. res = Some bs \<longrightarrow> list_all2 (\<lambda>g b. \<exists>key. make_block_hash_with_group_id h g = Inr key \<and>
        tags p b = Some key) gs bs) \<and>
    (res = None \<longrightarrow> (\<exists>g \<in> set gs. \<exists>key. make_block_hash_with_group_id h g = Inr key \<and>
        (\<forall>b. tags p b \<noteq> Some key)))"
  using gs
proof (induction gs)
  case Nil
  then show ?case by simp
next
  case (Cons g gs)
  obtain key where key: "make_block_hash_with_group_id h g = Inr key"
    using make_key_total [of g h] Cons.prems by auto
  obtain ob where ob: "get_one_block (cached_block_hash_to_block p) key = Inr ob"
    "\<forall>b. ob = Some b \<longrightarrow> tags p b = Some key" "ob = None \<longrightarrow> (\<forall>b. tags p b \<noteq> Some key)"
    using bm.agrees_lookup [OF ag, of key] by blast
  show ?case
  proof (cases ob)
    case None
    then show ?thesis using key ob by auto
  next
    case (Some b)
    obtain res where res: "get_cached_block p h gs = Inr res"
      "\<forall>bs. res = Some bs \<longrightarrow> list_all2 (\<lambda>g b. \<exists>key. make_block_hash_with_group_id h g = Inr key \<and>
        tags p b = Some key) gs bs"
      "res = None \<longrightarrow> (\<exists>g \<in> set gs. \<exists>key. make_block_hash_with_group_id h g = Inr key \<and>
        (\<forall>b. tags p b \<noteq> Some key))"
      using Cons by auto
    show ?thesis
      using Some key ob res by (cases res) auto
  qed
qed

section \<open>Properties\<close>

text \<open>The number of blocks that somebody references, the null block aside.\<close>

definition num_referenced :: "block_pool \<Rightarrow> int" where
  "num_referenced p = int (length (filter (\<lambda>b. b \<noteq> 0 \<and> refs p b \<noteq> 0) [0..<length (blocks p)]))"

lemma free_plus_referenced:
  assumes ok: "pool_ok p fl"
  shows "get_num_free_blocks p + num_referenced p + 1 = num_gpu_blocks p"
proof -
  note f = pool_ok_facts [OF ok]
  let ?N = "length (blocks p)"
  have "length (filter (\<lambda>b. b \<noteq> 0 \<and> refs p b \<noteq> 0) [0..<?N]) =
      card {b. b < ?N \<and> b \<noteq> 0 \<and> refs p b \<noteq> 0}"
    by (subst distinct_card [symmetric]) (auto intro: arg_cong [where f = card])
  moreover have "card (set fl) + card {b. b < ?N \<and> b \<noteq> 0 \<and> refs p b \<noteq> 0} = card {1..<?N}"
  proof -
    have "{1..<?N} = set fl \<union> {b. b < ?N \<and> b \<noteq> 0 \<and> refs p b \<noteq> 0}" unfolding f(4) by auto
    moreover have "set fl \<inter> {b. b < ?N \<and> b \<noteq> 0 \<and> refs p b \<noteq> 0} = {}" unfolding f(4) by auto
    ultimately show ?thesis by (metis card_Un_disjoint finite_Un finite_atLeastLessThan)
  qed
  ultimately show ?thesis
    using f(1,8,9) distinct_card [OF f(7)]
    by (cases "length (blocks p)") (simp_all add: num_referenced_def)
qed

lemma lookup_after_tags_change:
  assumes "bm.agrees (tags p) (cached_block_hash_to_block p)" and "\<forall>b. tags p b \<noteq> Some key"
  shows "get_one_block (cached_block_hash_to_block p) key = Inr None"
  using bm.agrees_lookup [OF assms(1), of key] assms(2) by fastforce

text \<open>
  C24. Allocation is safe. On a consistent pool with enough free blocks \<open>get_new_blocks\<close> returns
  that many distinct blocks from the front of the eviction order, none of them the null block or
  referenced by anybody; each is then referenced exactly once and, with caching on, no key finds
  it any more; the other blocks keep their counts and their cache entries, the pool stays
  consistent, and free, referenced and null blocks still add up to all blocks.
\<close>

theorem get_new_blocks_safe:
  assumes "pool_ok p fl" and "0 \<le> n" and "n \<le> get_num_free_blocks p"
  shows "\<exists>bs p'. get_new_blocks n p = Inr (bs, p') \<and> bs = take (nat n) fl \<and>
     int (length bs) = n \<and> distinct bs \<and> null_block p \<notin> set bs \<and>
     (\<forall>b \<in> set bs. refs p b = 0 \<and> refs p' b = 1) \<and>
     (\<forall>b. b \<notin> set bs \<longrightarrow> refs p' b = refs p b \<and> tags p' b = tags p b) \<and>
     (enable_caching p \<longrightarrow> (\<forall>b \<in> set bs. \<forall>key.
        get_one_block (cached_block_hash_to_block p') key \<noteq> Inr (Some b))) \<and>
     pool_ok p' (drop (nat n) fl) \<and>
     get_num_free_blocks p' + num_referenced p' + 1 = num_gpu_blocks p'"
proof -
  note f = pool_ok_facts [OF assms(1)]
  let ?bs = "take (nat n) fl"
  obtain p' where p': "get_new_blocks n p = Inr (?bs, p')" "pool_ok p' (drop (nat n) fl)"
    "refs p' = (\<lambda>x. if x \<in> set ?bs then 1 else refs p x)"
    "tags p' = (\<lambda>x. if enable_caching p \<and> x \<in> set ?bs then None else tags p x)"
    using get_new_blocks_effect [OF assms] by blast
  have len: "int (length ?bs) = n" "distinct ?bs" using assms(2,3) f(7,8) by simp_all
  have sub: "\<forall>b \<in> set ?bs. b \<noteq> 0 \<and> refs p b = 0" using f(4) set_take_subset [of "nat n" fl] by auto
  have gone: "get_one_block (cached_block_hash_to_block p') key \<noteq> Inr (Some b)"
    if "enable_caching p" "b \<in> set ?bs" for b key
    using bm.agrees_lookup [OF pool_ok_facts(5) [OF p'(2)], of key] that p'(4) by auto
  have keep: "b \<notin> set ?bs \<longrightarrow> refs p' b = refs p b \<and> tags p' b = tags p b" for b
    using p'(3,4) by simp
  have one: "\<forall>b \<in> set ?bs. refs p b = 0 \<and> refs p' b = 1" using p'(3) sub by simp
  have nn: "null_block p \<notin> set ?bs" using f(2) sub by auto
  show ?thesis
    using p'(1,2) len nn one keep gone free_plus_referenced [OF p'(2)]
    by (intro exI [of _ ?bs] exI [of _ p'] conjI) auto
qed

text \<open>
  C31. Eviction order. Blocks whose last reference is dropped are reused last and in the order in
  which they were freed: the next allocation takes the blocks that were free before, then the
  freed ones.
\<close>

theorem freed_blocks_reused_last:
  assumes "pool_ok p fl" and "distinct bs"
    and "\<forall>b \<in> set bs. b < length (blocks p) \<and> b \<noteq> null_block p \<and> refs p b = 1"
    and "0 \<le> n" and "n \<le> int (length fl) + int (length bs)"
  shows "\<exists>p1 p2. free_blocks bs p = Inr p1 \<and> tags p1 = tags p \<and>
     get_new_blocks n p1 = Inr (take (nat n) (fl @ bs), p2) \<and> pool_ok p2 (drop (nat n) (fl @ bs))"
proof -
  have nz: "\<forall>b \<in> set bs. b \<noteq> 0" using assms(3) pool_ok_facts(2) [OF assms(1)] by auto
  then have all: "filter (\<lambda>b. b \<noteq> 0) bs = bs" "filter (\<lambda>b. b \<noteq> 0 \<and> refs p b = 1) bs = bs"
    using assms(3) by (auto intro!: filter_True)
  have "\<forall>b \<in> set bs. b < length (blocks p) \<and> (b \<noteq> 0 \<longrightarrow> 0 < refs p b)" using assms(3) by auto
  with free_blocks_effect [OF assms(1), of bs] assms(2) all obtain p1 where
    p1: "free_blocks bs p = Inr p1" "pool_ok p1 (fl @ bs)" "tags p1 = tags p" by auto
  have "n \<le> get_num_free_blocks p1" using assms(5) pool_ok_facts(8) [OF p1(2)] by simp
  from get_new_blocks_effect [OF p1(2) assms(4) this] p1 show ?thesis by blast
qed

text \<open>
  C32. \<open>touch\<close> and \<open>free_blocks\<close> are inverse on the reference counts: after a request touched
  blocks and freed them, every count and every cache entry is as before and the pool is
  consistent; the blocks among them that were free are now evicted last.
\<close>

theorem touch_free_roundtrip:
  assumes "pool_ok p fl" and "distinct (filter (\<lambda>b. b \<noteq> null_block p) bs)"
    and "\<forall>b \<in> set bs. b < length (blocks p)"
  shows "\<exists>p1 p2. touch bs p = Inr p1 \<and> free_blocks bs p1 = Inr p2 \<and>
     refs p2 = refs p \<and> tags p2 = tags p \<and>
     pool_ok p2 (filter (\<lambda>b. b \<notin> set bs) fl @
       filter (\<lambda>b. b \<noteq> null_block p \<and> refs p b = 0) bs)"
proof -
  note f = pool_ok_facts [OF assms(1)]
  obtain p1 where p1: "touch bs p = Inr p1" "pool_ok p1 (filter (\<lambda>b. b \<notin> set bs) fl)"
    "same_frame p p1" "refs p1 = (\<lambda>b. refs p b + int (count_list bs b))" "tags p1 = tags p"
    using touch_effect [OF assms(1,3)] by blast
  have cnt: "count_list bs b = 1" if "b \<in> set bs" "b \<noteq> 0" for b
  proof -
    have "count_list bs b = count_list (filter (\<lambda>b. b \<noteq> 0) bs) b"
      using that(2) by (induction bs) auto
    then show ?thesis using count_list_distinct [of _ b] assms(2) that f(2) by simp
  qed
  have live: "\<forall>b \<in> set bs. b < length (blocks p1) \<and> (b \<noteq> 0 \<longrightarrow> 0 < refs p1 b)"
    using assms(3) p1(3,4) cnt pool_ok_refs_nonneg [OF assms(1)]
    by (auto simp: same_frame_def add_nonneg_pos)
  have last: "filter (\<lambda>b. b \<noteq> 0 \<and> refs p1 b = 1) bs = filter (\<lambda>b. b \<noteq> 0 \<and> refs p b = 0) bs"
    using cnt by (intro filter_cong) (auto simp: p1(4))
  from free_blocks_effect [OF p1(2) _ live] assms(2) obtain p2 where
    p2: "free_blocks bs p1 = Inr p2" "refs p2 = (\<lambda>b. refs p1 b - int (count_list bs b))"
    "tags p2 = tags p1"
    "pool_ok p2 (filter (\<lambda>b. b \<notin> set bs) fl @ filter (\<lambda>b. b \<noteq> 0 \<and> refs p1 b = 1) bs)"
    using f(2) by auto
  have "refs p2 = refs p" using p1(4) p2(2) by (simp add: fun_eq_iff)
  then show ?thesis using p1 p2 last f(2) by auto
qed

text \<open>
  C33. Caching full blocks makes them findable. If \<open>cache_full_blocks\<close> returns on a consistent
  pool, then for every non-null block at a position between \<open>n_cached\<close> and \<open>n_full\<close> a lookup
  with the hash of that position and the group's id succeeds, and whatever block it returns
  carries exactly that key; reference counts and the free queue do not change.
\<close>

theorem cached_blocks_are_found:
  assumes "cache_full_blocks sha p r bs n_cached n_full block_size gid = Inr (p', r')"
    and "pool_ok p fl" and "\<forall>b \<in> set bs. b < length (blocks p)" and "0 \<le> n_cached"
    and "hashes_at p r block_size = Inr hs" and "0 \<le> gid" and "gid < 2 ^ 32"
    and "n_cached \<le> int i" and "int i < n_full" and "i < length bs" and "bs ! i \<noteq> null_block p"
  shows "(\<exists>b. get_cached_block p' (hs ! i) [gid] = Inr (Some [b]) \<and>
            map_option get_block_hash (tags p' b) = Some (hs ! i) \<and>
            map_option get_group_id (tags p' b) = Some gid) \<and>
     pool_ok p' fl \<and> refs p' = refs p"
proof -
  have nz: "bs ! i \<noteq> 0" using assms(11) pool_ok_facts(2) [OF assms(2)] by simp
  note eff = cache_full_blocks_effect [OF assms(1-4)]
  obtain key where key: "make_block_hash_with_group_id (hs ! i) gid = Inr key"
    "tags p' (bs ! i) = Some key"
    using eff assms(5,8-10) nz by fastforce
  have ok: "pool_ok p' fl" using eff by blast
  obtain res where res: "get_cached_block p' (hs ! i) [gid] = Inr res"
    "\<forall>bs. res = Some bs \<longrightarrow> list_all2 (\<lambda>g b. \<exists>key. make_block_hash_with_group_id (hs ! i) g = Inr key \<and>
        tags p' b = Some key) [gid] bs"
    "res = None \<longrightarrow> (\<exists>g \<in> set [gid]. \<exists>key. make_block_hash_with_group_id (hs ! i) g = Inr key \<and>
        (\<forall>b. tags p' b \<noteq> Some key))"
    using get_cached_block_effect [OF pool_ok_facts(5) [OF ok], of "[gid]" "hs ! i"] assms(6,7)
    by auto
  obtain b where b: "res = Some [b]" "tags p' b = Some key"
    using res(2,3) key by (cases res) (auto simp: list_all2_Cons1)
  have "refs p' = refs p" using eff by (simp add: caches_only_def)
  then show ?thesis using res(1) b key_parts [OF key(1)] ok by auto
qed

text \<open>
  C34. The prefix cache can be reset exactly when no block is referenced; after a reset no hash is
  found in any group, and a refused reset changes nothing.
\<close>

theorem reset_prefix_cache_iff:
  assumes "pool_ok p fl"
  shows "case reset_prefix_cache p of (done, p') \<Rightarrow>
     (done \<longleftrightarrow> num_referenced p = 0) \<and> pool_ok p' fl \<and>
     (if done then \<forall>h g. 0 \<le> g \<and> g < 2 ^ 32 \<longrightarrow> get_cached_block p' h [g] = Inr None
      else p' = p)"
proof -
  note e = reset_effect [OF assms]
  have A: "fst (reset_prefix_cache p) \<longleftrightarrow> num_referenced p = 0"
    unfolding e(1) num_referenced_def by (auto simp: filter_empty_conv Ball_def)
  have ok: "pool_ok (snd (reset_prefix_cache p)) fl" by (rule e(4))
  have "get_cached_block (snd (reset_prefix_cache p)) h [g] = Inr None"
    if "fst (reset_prefix_cache p)" and "0 \<le> g" "g < 2 ^ 32" for h g
    using get_cached_block_effect [OF pool_ok_facts(5) [OF ok], of "[g]" h] that e(2)
    by (fastforce simp: list_all2_Cons1)
  with A ok e(3) show ?thesis by (cases "reset_prefix_cache p") auto
qed

section \<open>Examples\<close>

text \<open>A pool of 5 blocks from which blocks 1 to 3 were taken.\<close>

lemma sample_pool:
  "\<exists>p0 p. init_pool 5 True 2 False False = Inr p0 \<and> get_new_blocks 3 p0 = Inr ([1, 2, 3], p) \<and>
     pool_ok p0 [1, 2, 3, 4] \<and> pool_ok p [4] \<and> (\<forall>b \<in> {1, 2, 3}. refs p b = 1) \<and>
     length (blocks p) = 5 \<and> length (blocks p0) = 5 \<and> null_block p = 0 \<and> (\<forall>b. tags p b = None) \<and>
     (\<forall>b < 5. refs p0 b = 0) \<and>
     hash_block_size p = 2 \<and> \<not> enable_kv_cache_events p \<and> enable_caching p"
proof -
  have up: "[1..<nat 5] = [1, 2, 3, 4]" by (simp add: upt_rec)
  obtain p0 where p0: "init_pool 5 True 2 False False = Inr p0" "pool_ok p0 [1, 2, 3, 4]"
    "\<forall>b < nat 5. refs p0 b = 0 \<and> tags p0 b = None" "num_gpu_blocks p0 = 5"
    "hash_block_size p0 = 2" "\<not> enable_kv_cache_events p0" "enable_caching p0"
    using init_pool_ok [of 5 True 2 False False] unfolding up by auto
  have "3 \<le> get_num_free_blocks p0" using pool_ok_facts(8) [OF p0(2)] by simp
  from get_new_blocks_effect [OF p0(2) _ this] obtain p where
    p: "get_new_blocks 3 p0 = Inr (take (nat 3) [1, 2, 3, 4], p)"
    "pool_ok p (drop (nat 3) [1, 2, 3, 4])" "same_frame p0 p"
    "refs p = (\<lambda>x. if x \<in> set (take (nat 3) [1, 2, 3, 4]) then 1 else refs p0 x)"
    "tags p = (\<lambda>x. if enable_caching p0 \<and> x \<in> set (take (nat 3) [1, 2, 3, 4]) then None else tags p0 x)"
    by auto
  have len: "length (blocks p0) = 5" using pool_ok_facts(9) [OF p0(2)] p0(4) by simp
  have "tags p b = None" for b
    using p0(3) len unfolding p(5) by (cases "b < 5") (auto simp: tags_def)
  then show ?thesis
    using p0 p(1-4) len pool_ok_facts(2) [OF p(2)] by (auto simp: same_frame_def)
qed

theorem get_new_blocks_safe_witness:
  "\<exists>p bs p'. init_pool 5 True 2 False False = Inr p \<and> get_new_blocks 2 p = Inr (bs, p') \<and>
     bs = [1, 2] \<and> refs p' 2 = 1 \<and> get_num_free_blocks p' + num_referenced p' + 1 = num_gpu_blocks p'"
proof -
  obtain p where p: "init_pool 5 True 2 False False = Inr p" "pool_ok p [1, 2, 3, 4]"
    using sample_pool by blast
  have "(2::int) \<le> get_num_free_blocks p" using pool_ok_facts(8) [OF p(2)] by simp
  from get_new_blocks_safe [OF p(2) _ this] p(1) show ?thesis by auto
qed

theorem freed_blocks_reused_last_witness:
  "\<exists>p0 p p1 p2. init_pool 5 True 2 False False = Inr p0 \<and> get_new_blocks 3 p0 = Inr ([1, 2, 3], p) \<and>
     free_blocks [3, 1] p = Inr p1 \<and> get_new_blocks 2 p1 = Inr ([4, 3], p2)"
proof -
  obtain p0 p where p: "init_pool 5 True 2 False False = Inr p0" "get_new_blocks 3 p0 = Inr ([1, 2, 3], p)"
    "pool_ok p [4]" "\<forall>b \<in> {1, 2, 3}. refs p b = 1" "length (blocks p) = 5" "null_block p = 0"
    using sample_pool by blast
  have "\<exists>p1 p2. free_blocks [3, 1] p = Inr p1 \<and> tags p1 = tags p \<and>
     get_new_blocks 2 p1 = Inr (take (nat 2) ([4] @ [3, 1]), p2) \<and> pool_ok p2 (drop (nat 2) ([4] @ [3, 1]))"
    by (rule freed_blocks_reused_last) (use p in auto)
  then show ?thesis using p by auto
qed

theorem touch_free_roundtrip_witness:
  "\<exists>p0 p1 p2. init_pool 5 True 2 False False = Inr p0 \<and> touch [2] p0 = Inr p1 \<and>
     free_blocks [2] p1 = Inr p2 \<and> refs p2 = refs p0 \<and> pool_ok p2 [1, 3, 4, 2]"
proof -
  obtain p0 where p: "init_pool 5 True 2 False False = Inr p0" "pool_ok p0 [1, 2, 3, 4]"
    "length (blocks p0) = 5" "\<forall>b < 5. refs p0 b = 0"
    using sample_pool by blast
  have "\<exists>p1 p2. touch [2] p0 = Inr p1 \<and> free_blocks [2] p1 = Inr p2 \<and> refs p2 = refs p0 \<and>
     tags p2 = tags p0 \<and> pool_ok p2 (filter (\<lambda>b. b \<notin> set [2]) [1, 2, 3, 4] @
       filter (\<lambda>b. b \<noteq> null_block p0 \<and> refs p0 b = 0) [2])"
    by (rule touch_free_roundtrip) (use p in auto)
  then show ?thesis using p pool_ok_facts(2) [OF p(2)] by auto
qed

theorem cached_blocks_are_found_witness:
  "\<exists>p0 p p' b. init_pool 5 True 2 False False = Inr p0 \<and> get_new_blocks 3 p0 = Inr ([1, 2, 3], p) \<and>
     cache_full_blocks id p ((sample_request ''r'' [5, 6, 7, 8])\<lparr>block_hashes := [[9], [10]]\<rparr>)
       [1, 2] 0 2 2 0 = Inr (p', (sample_request ''r'' [5, 6, 7, 8])\<lparr>block_hashes := [[9], [10]]\<rparr>) \<and>
     get_cached_block p' [10] [0] = Inr (Some [b])"
proof -
  let ?r = "(sample_request ''r'' [5, 6, 7, 8])\<lparr>block_hashes := [[9], [10]]\<rparr>"
  obtain p0 p where p: "init_pool 5 True 2 False False = Inr p0" "get_new_blocks 3 p0 = Inr ([1, 2, 3], p)"
    "pool_ok p [4]" "length (blocks p) = 5" "null_block p = 0" "\<forall>b. tags p b = None"
    "hash_block_size p = 2" "\<not> enable_kv_cache_events p"
    using sample_pool by blast
  have hs: "hashes_at p ?r 2 = Inr [[9], [10]]" using p by (simp add: hashes_at_def)
  have "\<exists>p'. cache_full_blocks id p ?r [1, 2] 0 2 2 0 = Inr (p', ?r)"
    by (rule cache_full_blocks_total [OF p(3) _ _ _ _ hs]) (use p in \<open>auto simp: py_slice_nonneg\<close>)
  then obtain p' where p': "cache_full_blocks id p ?r [1, 2] 0 2 2 0 = Inr (p', ?r)" by blast
  obtain b where "get_cached_block p' ([[9], [10]] ! 1) [0] = Inr (Some [b])"
    using cached_blocks_are_found [OF p' p(3) _ _ hs, of 1] p(4,5) by auto
  then show ?thesis using p p' by auto
qed

theorem reset_prefix_cache_iff_witness:
  "\<exists>p0 p. init_pool 5 True 2 False False = Inr p0 \<and> get_new_blocks 3 p0 = Inr ([1, 2, 3], p) \<and>
     fst (reset_prefix_cache p0) \<and> reset_prefix_cache p = (False, p)"
proof -
  obtain p0 p where p: "init_pool 5 True 2 False False = Inr p0" "get_new_blocks 3 p0 = Inr ([1, 2, 3], p)"
    "pool_ok p0 [1, 2, 3, 4]" "pool_ok p [4]" "length (blocks p) = 5" "length (blocks p0) = 5"
    "\<forall>b < 5. refs p0 b = 0" "\<forall>b \<in> {1, 2, 3}. refs p b = 1"
    using sample_pool by blast
  have "num_referenced p0 = 0" using p(6,7) by (simp add: num_referenced_def filter_empty_conv)
  moreover have "num_referenced p \<noteq> 0"
    using p(5,8) by (auto simp: num_referenced_def filter_empty_conv intro!: bexI [of _ 1])
  ultimately show ?thesis
    using reset_prefix_cache_iff [OF p(3)] reset_prefix_cache_iff [OF p(4)] p(1,2)
    by (auto split: prod.splits)
qed

end
