(* ===== verification/KV_Manager.thy ===== *)
theory KV_Manager
  imports Block_Pool
begin

text \<open>
  The managers of one KV cache group (\<^verbatim>\<open>vllm/v1/core/single_type_kv_cache_manager.py\<close>). The
  class of a manager is a function of its spec (\<^verbatim>\<open>spec_manager_map\<close>), so one record holds the
  fields of all classes and each method dispatches on the spec. The block pool is shared by all
  managers; every operation takes it and returns it. \<open>req_to_blocks\<close> is an association list
  because the code uses its length; it is a \<open>defaultdict\<close>, so that reading it may add an entry.
\<close>

section \<open>Specs\<close>

text \<open>\<^verbatim>\<open>vllm/v1/kv_cache_interface.py\<close>: what the managers read of a spec.\<close>

datatype mamba_mode = MambaNone | MambaAll | MambaAlign

datatype spec_kind =
    FullAttention
  | MLAAttention
  | SlidingWindow (sliding_window: int)
  | ChunkedLocalAttention (attention_chunk_size: int)
  | Mamba (mamba_cache_mode: mamba_mode) (num_speculative_blocks: int)
  | CrossAttention
  | SinkFullAttention "int option"

text \<open>
  \<open>spec_layout\<close> stands for the fields that only determine the layout of a page (heads, head size,
  data type): specs are compared with them, the managers do not read them.
\<close>

record kv_cache_spec =
  spec_block_size :: int
  spec_kind :: spec_kind
  spec_layout :: string

text \<open>\<open>isinstance(spec, FullAttentionSpec)\<close>: two of the specs are subclasses.\<close>

definition is_full_attention :: "kv_cache_spec \<Rightarrow> bool" where
  "is_full_attention s =
     (case spec_kind s of
        FullAttention \<Rightarrow> True | MLAAttention \<Rightarrow> True | SinkFullAttention _ \<Rightarrow> True | _ \<Rightarrow> False)"

record manager =
  mgr_block_size :: int
  mgr_spec :: kv_cache_spec
  mgr_caching :: bool
  new_block_ids :: "nat list"
  req_to_blocks :: "(req_id \<times> nat list) list"
  num_cached_block :: "req_id \<Rightarrow> int option"
  kv_cache_group_id :: int
  mgr_null :: nat
  cached_blocks_this_step :: "hash_key set"
  last_state_block_idx :: "req_id \<Rightarrow> int option"
  allocated_block_reqs :: "req_id set"
  sink_blocks :: "nat list"

definition blocks_of :: "manager \<Rightarrow> req_id \<Rightarrow> nat list" where
  "blocks_of m rid = (case map_of (req_to_blocks m) rid of None \<Rightarrow> [] | Some bs \<Rightarrow> bs)"

definition set_blocks :: "req_id \<Rightarrow> nat list \<Rightarrow> manager \<Rightarrow> manager" where
  "set_blocks rid bs m = m\<lparr>req_to_blocks := AList.update rid bs (req_to_blocks m)\<rparr>"

text \<open>\<open>self.req_to_blocks[request_id]\<close>: the entry is there afterwards.\<close>

definition touch_entry :: "req_id \<Rightarrow> manager \<Rightarrow> manager" where
  "touch_entry rid m = set_blocks rid (blocks_of m rid) m"

section \<open>Construction\<close>

definition init_manager ::
  "kv_cache_spec \<Rightarrow> block_pool \<Rightarrow> bool \<Rightarrow> int \<Rightarrow> int \<Rightarrow> int \<Rightarrow> manager" where
  "init_manager spec p caching gid dcp pcp =
     \<lparr>mgr_block_size =
        (if dcp * pcp > 1 then spec_block_size spec * (dcp * pcp) else spec_block_size spec),
      mgr_spec = spec, mgr_caching = caching, new_block_ids = [], req_to_blocks = [],
      num_cached_block = (\<lambda>_. None), kv_cache_group_id = gid, mgr_null = null_block p,
      cached_blocks_this_step = {}, last_state_block_idx = (\<lambda>_. None),
      allocated_block_reqs = {}, sink_blocks = []\<rparr>"

definition init_sink_manager :: "manager \<Rightarrow> block_pool \<Rightarrow> (manager \<times> block_pool) res" where
  "init_sink_manager m p =
     (case spec_kind (mgr_spec m) of
        SinkFullAttention (Some sink_len) \<Rightarrow>
          require (sink_len > 0) AssertionError
            (require (mgr_block_size m \<noteq> 0) ZeroDivisionError
              (require (sink_len mod mgr_block_size m = 0) AssertionError
                (res_bind (popleft_n (sink_len div mgr_block_size m) (free_block_queue p))
                  (\<lambda>(nodes, q). res_bind (seq_res (map real_block nodes)) (\<lambda>bs.
                     Inr (m\<lparr>sink_blocks := bs\<rparr>, p\<lparr>free_block_queue := q\<rparr>))))))
      | _ \<Rightarrow> Inl AssertionError)"

text \<open>\<open>get_manager_for_kv_cache_spec\<close>.\<close>

definition get_manager ::
  "kv_cache_spec \<Rightarrow> block_pool \<Rightarrow> bool \<Rightarrow> int \<Rightarrow> int \<Rightarrow> int \<Rightarrow> (manager \<times> block_pool) res" where
  "get_manager spec p caching gid dcp pcp =
     (let m = init_manager spec p caching gid dcp pcp in
      case spec_kind spec of
        SinkFullAttention _ \<Rightarrow> init_sink_manager m p
      | _ \<Rightarrow> Inr (m, p))"

section \<open>Counting blocks\<close>

definition get_num_evictable_blocks :: "block_pool \<Rightarrow> nat list \<Rightarrow> int" where
  "get_num_evictable_blocks p bs =
     int (length (filter (\<lambda>b. ref_cnt (blocks p ! b) = 0 \<and> \<not> is_null (blocks p ! b)) bs))"

text \<open>The overridden \<open>get_num_skipped_tokens\<close>; a chunk size of 0 raises.\<close>

definition get_num_skipped_tokens :: "manager \<Rightarrow> int \<Rightarrow> int res" where
  "get_num_skipped_tokens m n =
     (case spec_kind (mgr_spec m) of
        SlidingWindow w \<Rightarrow> Inr (max 0 (n - w + 1))
      | ChunkedLocalAttention c \<Rightarrow> require (c \<noteq> 0) ZeroDivisionError (Inr (n div c * c))
      | Mamba _ _ \<Rightarrow> Inr (n - 1)
      | _ \<Rightarrow> Inr 0)"

definition num_required :: "manager \<Rightarrow> int \<Rightarrow> int res" where
  "num_required m n = require (mgr_block_size m \<noteq> 0) ZeroDivisionError (Inr (cdiv n (mgr_block_size m)))"

definition base_num_blocks_to_allocate ::
  "manager \<Rightarrow> block_pool \<Rightarrow> req_id \<Rightarrow> int \<Rightarrow> nat list \<Rightarrow> int \<Rightarrow> int res" where
  "base_num_blocks_to_allocate m p rid num_tok new_blocks total_computed =
     res_bind (num_required m num_tok) (\<lambda>num_required_blocks.
       let num_req_blocks = int (length (blocks_of m rid)) in
       if num_cached_block m rid \<noteq> None then
         require (new_blocks = []) AssertionError
           (Inr (max (num_required_blocks - num_req_blocks) 0))
       else
         res_bind (get_num_skipped_tokens m total_computed) (\<lambda>num_skipped.
           let num_local_computed_blocks = int (length new_blocks) + num_req_blocks;
               num_skipped_blocks = num_skipped div mgr_block_size m;
               num_new_blocks =
                 max (num_required_blocks - max num_skipped_blocks num_local_computed_blocks) 0;
               num_skipped_new = max 0 (num_skipped_blocks - num_req_blocks)
           in Inr (num_new_blocks +
                   get_num_evictable_blocks p (py_from new_blocks num_skipped_new))))"

text \<open>\<open>MambaManager.get_num_blocks_to_allocate\<close>; the align mode reads the \<open>defaultdict\<close>.\<close>

definition mamba_num_blocks_to_allocate ::
  "manager \<Rightarrow> block_pool \<Rightarrow> mamba_mode \<Rightarrow> int \<Rightarrow> req_id \<Rightarrow> int \<Rightarrow> nat list \<Rightarrow> int \<Rightarrow> int \<Rightarrow>
   (int \<times> manager) res" where
  "mamba_num_blocks_to_allocate m p mode nspec rid num_tok new_blocks total_computed num_main =
     (if new_blocks \<noteq> [] \<and>
         (case hash_of (blocks p ! last new_blocks) of
            None \<Rightarrow> False | Some key \<Rightarrow> key \<in> cached_blocks_this_step m)
      then Inr (num_gpu_blocks p + 1, m)
      else if mode \<noteq> MambaAlign then
        res_bind
          (base_num_blocks_to_allocate m p rid
             (if nspec > 0 then num_tok + spec_block_size (mgr_spec m) * nspec else num_tok)
             new_blocks total_computed)
          (\<lambda>n. Inr (n, m))
      else
        res_bind (num_required m num_main) (\<lambda>k.
          let m' = touch_entry rid m;
              num_new = k + nspec - int (length new_blocks) - int (length (blocks_of m rid));
              num_new' = (if num_new > 0 then
                            (if rid \<in> allocated_block_reqs m then 1 else 1 + nspec)
                          else num_new)
          in Inr (num_new' + get_num_evictable_blocks p new_blocks, m')))"

definition get_num_blocks_to_allocate ::
  "manager \<Rightarrow> block_pool \<Rightarrow> req_id \<Rightarrow> int \<Rightarrow> nat list \<Rightarrow> int \<Rightarrow> int \<Rightarrow> (int \<times> manager) res" where
  "get_num_blocks_to_allocate m p rid num_tok new_blocks total_computed num_main =
     (case spec_kind (mgr_spec m) of
        Mamba mode nspec \<Rightarrow>
          mamba_num_blocks_to_allocate m p mode nspec rid num_tok new_blocks total_computed num_main
      | _ \<Rightarrow> res_bind (base_num_blocks_to_allocate m p rid num_tok new_blocks total_computed)
               (\<lambda>n. Inr (n, m)))"

section \<open>Allocation\<close>

definition note_new_ids :: "nat list \<Rightarrow> manager \<Rightarrow> manager" where
  "note_new_ids bs m =
     (if spec_kind (mgr_spec m) = FullAttention then m\<lparr>new_block_ids := new_block_ids m @ bs\<rparr> else m)"

definition base_allocate_new_computed_blocks ::
  "req_id \<Rightarrow> nat list \<Rightarrow> int \<Rightarrow> int \<Rightarrow> manager \<Rightarrow> block_pool \<Rightarrow> (manager \<times> block_pool) res" where
  "base_allocate_new_computed_blocks rid new_blocks num_local num_external m p =
     (if num_cached_block m rid \<noteq> None then
        require (new_blocks = []) AssertionError (Inr (m, p))
      else
        require (blocks_of m rid = []) AssertionError
          (let total = num_local + num_external in
           res_bind (get_num_skipped_tokens m total) (\<lambda>num_skipped.
           require (mgr_block_size m \<noteq> 0) ZeroDivisionError
           (let k = num_skipped div mgr_block_size m;
                new_blocks' = (if k > 0 then py_from new_blocks k else new_blocks);
                num_external' = (if k > 0 then min (total - num_skipped) num_external
                                 else num_external)
            in res_bind (if mgr_caching m then touch new_blocks' p
                         else require (new_blocks' = []) AssertionError (Inr p)) (\<lambda>p1.
               let bs = py_repeat (mgr_null m) k @ new_blocks';
                   m1 = (set_blocks rid bs m)\<lparr>num_cached_block :=
                           (num_cached_block m)(rid := Some (int (length bs)))\<rparr>
               in if num_external' > 0 then
                    res_bind (get_new_blocks (cdiv total (mgr_block_size m) - int (length bs)) p1)
                      (\<lambda>(allocated, p2).
                        Inr (note_new_ids allocated (set_blocks rid (bs @ allocated) m1), p2))
                  else Inr (m1, p1))))))"

definition allocate_new_computed_blocks ::
  "req_id \<Rightarrow> nat list \<Rightarrow> int \<Rightarrow> int \<Rightarrow> manager \<Rightarrow> block_pool \<Rightarrow> (manager \<times> block_pool) res" where
  "allocate_new_computed_blocks rid new_blocks num_local num_external m p =
     (case spec_kind (mgr_spec m) of
        CrossAttention \<Rightarrow> require (new_blocks = []) AssertionError (Inr (m, p))
      | _ \<Rightarrow> base_allocate_new_computed_blocks rid new_blocks num_local num_external m p)"

definition base_allocate_new_blocks ::
  "req_id \<Rightarrow> int \<Rightarrow> manager \<Rightarrow> block_pool \<Rightarrow> (nat list \<times> manager \<times> block_pool) res" where
  "base_allocate_new_blocks rid num_tok m p =
     res_bind (num_required m num_tok) (\<lambda>num_required_blocks.
       let bs = blocks_of m rid; n = num_required_blocks - int (length bs) in
       if n \<le> 0 then Inr ([], touch_entry rid m, p)
       else res_bind (get_new_blocks n p) (\<lambda>(new_blocks, p').
              Inr (new_blocks, note_new_ids new_blocks (set_blocks rid (bs @ new_blocks) m), p')))"

text \<open>
  The loop that reuses the speculative blocks of the previous step, over the indices of
  \<open>range(prev_block_len - num_speculative_blocks, prev_block_len)\<close>.
\<close>

fun reuse_loop :: "nat \<Rightarrow> int \<Rightarrow> int list \<Rightarrow> nat list \<Rightarrow> nat list res" where
  "reuse_loop null num_skipped [] bs = Inr bs"
| "reuse_loop null num_skipped (i # is) bs =
     (if i < num_skipped then
        res_bind (py_get bs i) (\<lambda>b.
        res_bind (py_set (bs @ [b]) i null) (\<lambda>bs'. reuse_loop null num_skipped is bs'))
      else Inr bs)"

definition mamba_allocate_align ::
  "int \<Rightarrow> req_id \<Rightarrow> int \<Rightarrow> manager \<Rightarrow> block_pool \<Rightarrow> (nat list \<times> manager \<times> block_pool) res" where
  "mamba_allocate_align nspec rid num_main m p =
     res_bind (num_required m num_main) (\<lambda>k.
       let m0 = touch_entry rid m; bs = blocks_of m rid; prev = int (length bs);
           required = k + nspec
       in if required = prev then Inr ([], m0, p)
          else require (required > prev) AssertionError
            (let allocated = (rid \<in> allocated_block_reqs m);
                 m1 = (if allocated then
                         m0\<lparr>last_state_block_idx :=
                              (last_state_block_idx m)(rid := Some (prev - 1 - nspec))\<rparr>
                       else if prev > 0 then
                         m0\<lparr>last_state_block_idx := (last_state_block_idx m)(rid := Some (prev - 1))\<rparr>
                       else m0);
                 num_skipped = required - nspec - 1;
                 bs1 = (if prev < num_skipped
                        then bs @ py_repeat (mgr_null m) (num_skipped - prev) else bs)
             in res_bind
                  (if allocated then reuse_loop (mgr_null m) num_skipped [prev - nspec..prev - 1] bs1
                   else Inr bs1) (\<lambda>bs2.
                let num_new = required - int (length bs2) in
                require (if allocated then num_new \<le> 1 else num_new \<le> nspec + 1) AssertionError
                  (res_bind (get_new_blocks num_new p) (\<lambda>(new_blocks, p').
                     let bs3 = bs2 @ new_blocks in
                     Inr (py_from bs3 prev,
                          (set_blocks rid bs3 m1)\<lparr>allocated_block_reqs :=
                             insert rid (allocated_block_reqs m)\<rparr>, p'))))))"

definition allocate_new_blocks ::
  "req_id \<Rightarrow> int \<Rightarrow> int \<Rightarrow> manager \<Rightarrow> block_pool \<Rightarrow> (nat list \<times> manager \<times> block_pool) res" where
  "allocate_new_blocks rid num_tok num_main m p =
     (case spec_kind (mgr_spec m) of
        Mamba mode nspec \<Rightarrow>
          if mode \<noteq> MambaAlign then
            base_allocate_new_blocks rid
              (if nspec > 0 then num_tok + mgr_block_size m * nspec else num_tok) m p
          else mamba_allocate_align nspec rid num_main m p
      | _ \<Rightarrow> base_allocate_new_blocks rid num_tok m p)"

definition take_new_block_ids :: "manager \<Rightarrow> nat list \<times> manager" where
  "take_new_block_ids m = (new_block_ids m, m\<lparr>new_block_ids := []\<rparr>)"

section \<open>Caching, freeing, skipping\<close>

definition base_cache_blocks ::
  "(byte list \<Rightarrow> block_hash) \<Rightarrow> request \<Rightarrow> int \<Rightarrow> manager \<Rightarrow> block_pool \<Rightarrow>
   (request \<times> manager \<times> block_pool) res" where
  "base_cache_blocks sha r num_tok m p =
     (let rid = request_id r;
          num_cached_blocks = (case num_cached_block m rid of None \<Rightarrow> 0 | Some n \<Rightarrow> n)
      in require (mgr_block_size m \<noteq> 0) ZeroDivisionError
        (let num_full_blocks = num_tok div mgr_block_size m in
         if num_cached_blocks \<ge> num_full_blocks then Inr (r, m, p)
         else res_bind (cache_full_blocks sha p r (blocks_of m rid) num_cached_blocks
                          num_full_blocks (mgr_block_size m) (kv_cache_group_id m))
           (\<lambda>(p', r'). Inr (r', (touch_entry rid m)\<lparr>num_cached_block :=
                              (num_cached_block m)(rid := Some num_full_blocks)\<rparr>, p'))))"

definition note_cached :: "block_pool \<Rightarrow> nat \<Rightarrow> manager \<Rightarrow> manager res" where
  "note_cached p b m =
     (if is_null (blocks p ! b) then Inr m
      else (case hash_of (blocks p ! b) of
              None \<Rightarrow> Inl AssertionError
            | Some key \<Rightarrow>
                Inr (m\<lparr>cached_blocks_this_step := insert key (cached_blocks_this_step m)\<rparr>)))"

definition cache_blocks ::
  "(byte list \<Rightarrow> block_hash) \<Rightarrow> request \<Rightarrow> int \<Rightarrow> manager \<Rightarrow> block_pool \<Rightarrow>
   (request \<times> manager \<times> block_pool) res" where
  "cache_blocks sha r num_tok m p =
     (case spec_kind (mgr_spec m) of
        CrossAttention \<Rightarrow> Inl ValueError
      | Mamba _ _ \<Rightarrow>
          (let rid = request_id r;
               before = (case num_cached_block m rid of None \<Rightarrow> 0 | Some n \<Rightarrow> n)
           in res_bind (base_cache_blocks sha r num_tok m p) (\<lambda>(r', m', p').
                let later = (case num_cached_block m' rid of None \<Rightarrow> 0 | Some n \<Rightarrow> n) in
                if later > before then
                  res_bind (fold_res (note_cached p') (py_slice (blocks_of m' rid) before later)
                              (touch_entry rid m'))
                    (\<lambda>m''. Inr (r', m'', p'))
                else Inr (r', m', p')))
      | _ \<Rightarrow> base_cache_blocks sha r num_tok m p)"

text \<open>\<open>free\<close>: the blocks go back in reverse order, so that the tail is evicted first.\<close>

definition free_request :: "req_id \<Rightarrow> manager \<Rightarrow> block_pool \<Rightarrow> (manager \<times> block_pool) res" where
  "free_request rid m p =
     (let m0 = (case spec_kind (mgr_spec m) of
                  Mamba MambaAlign _ \<Rightarrow>
                    m\<lparr>allocated_block_reqs := allocated_block_reqs m - {rid},
                      last_state_block_idx := (last_state_block_idx m)(rid := None)\<rparr>
                | _ \<Rightarrow> m);
          bs = blocks_of m0 rid;
          m1 = m0\<lparr>req_to_blocks := AList.delete rid (req_to_blocks m0)\<rparr>
      in res_bind (free_blocks (rev bs) p) (\<lambda>p'.
           Inr (m1\<lparr>num_cached_block := (num_cached_block m1)(rid := None)\<rparr>, p')))"

text \<open>The loop of \<open>remove_skipped_blocks\<close> from index \<open>i - 1\<close> down to the first null block.\<close>

fun skip_loop :: "nat \<Rightarrow> nat \<Rightarrow> nat list \<Rightarrow> nat list \<Rightarrow> nat list \<times> nat list" where
  "skip_loop null 0 bs removed = (bs, removed)"
| "skip_loop null (Suc i) bs removed =
     (if bs ! i = null then (bs, removed)
      else skip_loop null i (bs[i := null]) (removed @ [bs ! i]))"

definition base_remove_skipped_blocks ::
  "req_id \<Rightarrow> int \<Rightarrow> manager \<Rightarrow> block_pool \<Rightarrow> (manager \<times> block_pool) res" where
  "base_remove_skipped_blocks rid total_computed m p =
     res_bind (get_num_skipped_tokens m total_computed) (\<lambda>num_skipped.
       if num_skipped \<le> 0 then Inr (m, p)
       else require (mgr_block_size m \<noteq> 0) ZeroDivisionError
         (let bs = blocks_of m rid;
              k = min (num_skipped div mgr_block_size m) (int (length bs));
              (bs', removed) = skip_loop (mgr_null m) (nat k) bs []
          in res_bind (free_blocks removed p) (\<lambda>p'. Inr (set_blocks rid bs' m, p'))))"

definition remove_skipped_blocks ::
  "req_id \<Rightarrow> int \<Rightarrow> manager \<Rightarrow> block_pool \<Rightarrow> (manager \<times> block_pool) res" where
  "remove_skipped_blocks rid total_computed m p =
     (case spec_kind (mgr_spec m) of
        Mamba mode nspec \<Rightarrow>
          (let n = max 0 (total_computed - nspec) in
           res_bind (base_remove_skipped_blocks rid n m p) (\<lambda>(m1, p1).
             if mode \<noteq> MambaAlign then Inr (m1, p1)
             else
               (case last_state_block_idx m1 rid of
                  None \<Rightarrow> Inr (m1, p1)
                | Some idx \<Rightarrow>
                    res_bind (num_required m1 n) (\<lambda>k.
                      if idx < k - 1 then
                        (let bs = blocks_of m1 rid in
                         res_bind (py_get bs idx) (\<lambda>b.
                           if b \<noteq> mgr_null m1 then
                             res_bind (free_blocks [b] p1) (\<lambda>p2.
                             res_bind (py_set bs idx (mgr_null m1)) (\<lambda>bs'.
                               Inr (set_blocks rid bs' m1, p2)))
                           else Inr (touch_entry rid m1, p1)))
                      else Inr (m1, p1)))))
      | _ \<Rightarrow> base_remove_skipped_blocks rid total_computed m p)"

fun count_common :: "block_pool \<Rightarrow> int \<Rightarrow> nat list \<Rightarrow> int" where
  "count_common p k [] = 0"
| "count_common p k (b # bs) = (if ref_cnt (blocks p ! b) = k then 1 + count_common p k bs else 0)"

definition get_num_common_prefix_blocks :: "req_id \<Rightarrow> manager \<Rightarrow> block_pool \<Rightarrow> int \<times> manager" where
  "get_num_common_prefix_blocks rid m p =
     (if is_full_attention (mgr_spec m) then
        (let m' = touch_entry rid m in
         (count_common p (int (length (req_to_blocks m'))) (blocks_of m' rid), m'))
      else (0, m))"

definition mgr_new_step_starts :: "manager \<Rightarrow> manager" where
  "mgr_new_step_starts m =
     (case spec_kind (mgr_spec m) of Mamba _ _ \<Rightarrow> m\<lparr>cached_blocks_this_step := {}\<rparr> | _ \<Rightarrow> m)"

section \<open>Ownership\<close>

text \<open>
  \<open>held m b\<close> counts the references that the requests of a manager have on a block. Every
  operation changes the reference count of a block and \<open>held\<close> by the same amount.
\<close>

definition held :: "manager \<Rightarrow> nat \<Rightarrow> int" where
  "held m b = sum_list (map (\<lambda>e. int (count_list (snd e) b)) (req_to_blocks m))"

definition cached_count :: "manager \<Rightarrow> req_id \<Rightarrow> int" where
  "cached_count m rid = (case num_cached_block m rid of None \<Rightarrow> 0 | Some n \<Rightarrow> n)"

definition non_null :: "nat list \<Rightarrow> nat list" where
  "non_null bs = filter (\<lambda>b. b \<noteq> 0) bs"

text \<open>
  The invariant of a manager: its requests hold existing blocks, none twice; the blocks a request
  has not cached yet belong to it alone and carry no hash.
\<close>

definition private_tail :: "block_pool \<Rightarrow> int \<Rightarrow> nat list \<Rightarrow> bool" where
  "private_tail p n bs \<longleftrightarrow>
     (\<forall>i < length bs. n \<le> int i \<and> bs ! i \<noteq> 0 \<longrightarrow> tags p (bs ! i) = None \<and> refs p (bs ! i) = 1)"

definition mgr_ok :: "manager \<Rightarrow> block_pool \<Rightarrow> bool" where
  "mgr_ok m p \<longleftrightarrow>
     distinct (map fst (req_to_blocks m)) \<and> 0 < mgr_block_size m \<and> mgr_null m = 0 \<and>
     0 \<le> kv_cache_group_id m \<and> kv_cache_group_id m < 2 ^ 32 \<and>
     mgr_caching m = enable_caching p \<and> (\<not> enable_caching p \<longrightarrow> (\<forall>b. tags p b = None)) \<and>
     (\<forall>rid. (\<forall>b \<in> set (blocks_of m rid). b < length (blocks p)) \<and>
        distinct (non_null (blocks_of m rid)) \<and> 0 \<le> cached_count m rid \<and>
        private_tail p (cached_count m rid) (blocks_of m rid)) \<and>
     (\<forall>b < length (blocks p). b \<noteq> 0 \<longrightarrow> held m b \<le> refs p b)"

lemma sum_list_update:
  assumes "distinct (map fst al)"
  shows "sum_list (map (\<lambda>e. int (count_list (snd e) b)) (AList.update k v al)) =
    sum_list (map (\<lambda>e. int (count_list (snd e) b)) al) + int (count_list v b) -
    (case map_of al k of None \<Rightarrow> 0 | Some w \<Rightarrow> int (count_list w b))"
  using assms
proof (induction al)
  case Nil
  then show ?case by simp
next
  case (Cons e al)
  then show ?case by (cases e) (auto simp: map_of_eq_None_iff image_iff split: option.splits)
qed

lemma sum_list_delete:
  assumes "distinct (map fst al)"
  shows "sum_list (map (\<lambda>e. int (count_list (snd e) b)) (AList.delete k al)) =
    sum_list (map (\<lambda>e. int (count_list (snd e) b)) al) -
    (case map_of al k of None \<Rightarrow> 0 | Some w \<Rightarrow> int (count_list w b))"
  using assms
proof (induction al)
  case Nil
  then show ?case by simp
next
  case (Cons e al)
  have "AList.delete k al = al" if "k \<notin> fst ` set al" using that by (rule delete_id)
  then show ?case
    using Cons by (cases e) (auto simp: map_of_eq_None_iff split: option.splits)
qed

lemma count_le_held:
  assumes "distinct (map fst (req_to_blocks m))" and "r \<noteq> r'"
  shows "int (count_list (blocks_of m r) b) + int (count_list (blocks_of m r') b) \<le> held m b"
    and "int (count_list (blocks_of m r) b) \<le> held m b"
proof -
  have nn: "0 \<le> sum_list (map (\<lambda>e. int (count_list (snd e) b)) al)" for al :: "(req_id \<times> nat list) list"
    by (induction al) auto
  let ?al = "req_to_blocks m"
  let ?al1 = "AList.delete r ?al"
  have d1: "distinct (map fst ?al1)" using assms(1) by (rule distinct_delete)
  have h1: "held m b = int (count_list (blocks_of m r) b) +
      sum_list (map (\<lambda>e. int (count_list (snd e) b)) ?al1)"
    using sum_list_delete [OF assms(1), of b r]
    by (auto simp: held_def blocks_of_def split: option.splits)
  have "map_of ?al1 r' = map_of ?al r'" using assms(2) by (simp add: delete_conv')
  then have h2: "sum_list (map (\<lambda>e. int (count_list (snd e) b)) ?al1) =
      int (count_list (blocks_of m r') b) +
      sum_list (map (\<lambda>e. int (count_list (snd e) b)) (AList.delete r' ?al1))"
    using sum_list_delete [OF d1, of b r'] by (auto simp: blocks_of_def split: option.splits)
  show "int (count_list (blocks_of m r) b) + int (count_list (blocks_of m r') b) \<le> held m b"
    unfolding h1 h2 using nn [of "AList.delete r' ?al1"] by simp
  show "int (count_list (blocks_of m r) b) \<le> held m b"
    unfolding h1 using nn [of ?al1] by simp
qed

text \<open>A change of one request's blocks.\<close>

definition same_static :: "manager \<Rightarrow> manager \<Rightarrow> bool" where
  "same_static m m' \<longleftrightarrow> mgr_block_size m' = mgr_block_size m \<and> mgr_spec m' = mgr_spec m \<and>
     mgr_caching m' = mgr_caching m \<and> kv_cache_group_id m' = kv_cache_group_id m \<and>
     mgr_null m' = mgr_null m"

definition changes :: "manager \<Rightarrow> req_id \<Rightarrow> nat list \<Rightarrow> manager \<Rightarrow> bool" where
  "changes m rid bs m' \<longleftrightarrow>
     distinct (map fst (req_to_blocks m')) \<and> same_static m m' \<and>
     (\<forall>r. blocks_of m' r = (if r = rid then bs else blocks_of m r)) \<and>
     (\<forall>b. held m' b = held m b + int (count_list bs b) - int (count_list (blocks_of m rid) b)) \<and>
     (\<forall>r. r \<noteq> rid \<longrightarrow> num_cached_block m' r = num_cached_block m r)"

lemma changes_set_blocks:
  assumes "distinct (map fst (req_to_blocks m))"
  shows "changes m rid bs (set_blocks rid bs m)"
  using assms sum_list_update [OF assms, of _ rid bs]
  by (auto simp: changes_def same_static_def set_blocks_def blocks_of_def held_def distinct_update
      update_conv' split: option.splits)

lemma changes_cong:
  assumes "changes m rid bs m'" and "req_to_blocks m'' = req_to_blocks m'"
    and "same_static m' m''" and "\<And>r. r \<noteq> rid \<Longrightarrow> num_cached_block m'' r = num_cached_block m' r"
  shows "changes m rid bs m''"
  using assms by (simp add: changes_def same_static_def blocks_of_def held_def)

lemma set_blocks_fields [simp]:
  "mgr_block_size (set_blocks r bs m) = mgr_block_size m" "mgr_spec (set_blocks r bs m) = mgr_spec m"
  "mgr_caching (set_blocks r bs m) = mgr_caching m"
  "kv_cache_group_id (set_blocks r bs m) = kv_cache_group_id m"
  "mgr_null (set_blocks r bs m) = mgr_null m"
  "num_cached_block (set_blocks r bs m) = num_cached_block m"
  by (simp_all add: set_blocks_def)

lemma note_new_ids_fields [simp]:
  "mgr_block_size (note_new_ids bs m) = mgr_block_size m" "mgr_spec (note_new_ids bs m) = mgr_spec m"
  "mgr_caching (note_new_ids bs m) = mgr_caching m"
  "kv_cache_group_id (note_new_ids bs m) = kv_cache_group_id m"
  "mgr_null (note_new_ids bs m) = mgr_null m"
  "num_cached_block (note_new_ids bs m) = num_cached_block m"
  "req_to_blocks (note_new_ids bs m) = req_to_blocks m"
  by (simp_all add: note_new_ids_def)

lemma blocks_of_update [simp]:
  "blocks_of (set_blocks r bs m) r' = (if r' = r then bs else blocks_of m r')"
  by (simp add: blocks_of_def set_blocks_def update_conv')

lemma blocks_of_cong: "req_to_blocks m' = req_to_blocks m \<Longrightarrow> blocks_of m' r = blocks_of m r"
  by (simp add: blocks_of_def)

text \<open>
  What an operation on one request guarantees about the pool, for the other requests and the
  other managers: counts follow the request's blocks, and a block that is referenced but not
  cached and not the request's stays as it is.
\<close>

definition pool_step :: "block_pool \<Rightarrow> nat list \<Rightarrow> nat list \<Rightarrow> block_pool \<Rightarrow> bool" where
  "pool_step p bs bs' p' \<longleftrightarrow>
     same_frame p p' \<and>
     (\<forall>b. b \<noteq> 0 \<longrightarrow> refs p' b = refs p b + int (count_list bs' b) - int (count_list bs b)) \<and>
     (\<forall>b. b \<noteq> 0 \<and> 0 < refs p b \<and> tags p b = None \<and> b \<notin> set bs \<longrightarrow> b \<notin> set bs' \<and> tags p' b = None) \<and>
     (\<not> enable_caching p \<and> (\<forall>b. tags p b = None) \<longrightarrow> (\<forall>b. tags p' b = None))"

definition step_ok :: "manager \<Rightarrow> block_pool \<Rightarrow> manager \<Rightarrow> block_pool \<Rightarrow> bool" where
  "step_ok m p m' p' \<longleftrightarrow>
     mgr_ok m' p' \<and> same_static m m' \<and> same_frame p p' \<and>
     (\<forall>b. b \<noteq> 0 \<longrightarrow> refs p' b - held m' b = refs p b - held m b) \<and>
     (\<forall>b. b \<noteq> 0 \<and> 0 < refs p b \<and> held m b = 0 \<and> tags p b = None \<longrightarrow> tags p' b = None \<and> refs p' b = refs p b)"

lemma non_null_count: "distinct (non_null bs) \<Longrightarrow> b \<noteq> 0 \<Longrightarrow> count_list bs b = (if b \<in> set bs then 1 else 0)"
proof -
  assume d: "distinct (non_null bs)" and b: "b \<noteq> 0"
  have "count_list bs b = count_list (non_null bs) b"
    using b unfolding non_null_def by (induction bs) auto
  then show ?thesis using count_list_distinct [OF d, of b] b by (simp add: non_null_def)
qed

lemma step_okI:
  assumes ok: "mgr_ok m p" and ch: "changes m rid bs' m'"
    and ps: "pool_step p (blocks_of m rid) bs' p'"
    and rng: "\<forall>b \<in> set bs'. b < length (blocks p)" and d: "distinct (non_null bs')"
    and c: "0 \<le> cached_count m' rid" and priv: "private_tail p' (cached_count m' rid) bs'"
  shows "step_ok m p m' p'"
proof -
  have dk: "distinct (map fst (req_to_blocks m))" using ok by (simp add: mgr_ok_def)
  have fr: "same_frame p p'" and rf: "\<And>b. b \<noteq> 0 \<Longrightarrow>
      refs p' b = refs p b + int (count_list bs' b) - int (count_list (blocks_of m rid) b)"
    using ps by (simp_all add: pool_step_def)
  have bal: "refs p' b - held m' b = refs p b - held m b" if "b \<noteq> 0" for b
    using rf [OF that] ch by (simp add: changes_def)
  have cc: "cached_count m' r = cached_count m r" if "r \<noteq> rid" for r
    using ch that by (simp add: changes_def cached_count_def)
  have other: "private_tail p' (cached_count m r) (blocks_of m r)" if r: "r \<noteq> rid" for r
    unfolding private_tail_def
  proof (intro allI impI)
    fix i
    let ?b = "blocks_of m r ! i"
    assume i: "i < length (blocks_of m r)" and ci: "cached_count m r \<le> int i \<and> ?b \<noteq> 0"
    have p: "tags p ?b = None" "refs p ?b = 1"
      using ok i ci by (auto simp: mgr_ok_def private_tail_def)
    have "0 < count_list (blocks_of m r) ?b" using i by (metis count_list_0_iff gr0I nth_mem)
    then have "count_list (blocks_of m rid) ?b = 0"
    proof -
      have "?b < length (blocks p)" using ok nth_mem [OF i] by (auto simp: mgr_ok_def)
      then have "held m ?b \<le> 1" using ok p(2) ci by (metis mgr_ok_def)
      with count_le_held(1) [OF dk r, of ?b] \<open>0 < count_list (blocks_of m r) ?b\<close> show ?thesis
        by linarith
    qed
    then have nb: "?b \<notin> set (blocks_of m rid)" by (simp add: count_list_0_iff)
    then have "?b \<notin> set bs' \<and> tags p' ?b = None" using ps p ci by (simp add: pool_step_def)
    then show "tags p' ?b = None \<and> refs p' ?b = 1"
      using rf [of ?b] ci p(2) nb by simp
  qed
  have "mgr_ok m' p'"
    unfolding mgr_ok_def
  proof (intro conjI allI impI)
    show "distinct (map fst (req_to_blocks m'))" "0 < mgr_block_size m'" "mgr_null m' = 0"
      "0 \<le> kv_cache_group_id m'" "kv_cache_group_id m' < 2 ^ 32" "mgr_caching m' = enable_caching p'"
      using ok ch fr by (simp_all add: mgr_ok_def changes_def same_static_def same_frame_def)
    show "tags p' b = None" if "\<not> enable_caching p'" for b
      using ok ps fr that by (simp add: mgr_ok_def pool_step_def same_frame_def)
    show "held m' b \<le> refs p' b" if "b < length (blocks p')" "b \<noteq> 0" for b
    proof -
      have "held m b \<le> refs p b" using ok that fr by (simp add: mgr_ok_def same_frame_def)
      then show ?thesis using bal [OF that(2)] by linarith
    qed
    fix r
    show "\<forall>b \<in> set (blocks_of m' r). b < length (blocks p')"
      using ok ch fr rng by (auto simp: mgr_ok_def changes_def same_frame_def)
    show "distinct (non_null (blocks_of m' r))" using ok ch d by (simp add: mgr_ok_def changes_def)
    show "0 \<le> cached_count m' r" using ok c cc by (cases "r = rid") (simp_all add: mgr_ok_def)
    show "private_tail p' (cached_count m' r) (blocks_of m' r)"
      using ch priv other cc by (cases "r = rid") (simp_all add: changes_def)
  qed
  moreover have "tags p' b = None \<and> refs p' b = refs p b"
    if "b \<noteq> 0" "0 < refs p b" "held m b = 0" "tags p b = None" for b
  proof -
    have "count_list (blocks_of m rid) b = 0"
      using count_le_held(2) [OF dk, of rid "''x'' @ rid" b] that(3) by simp
    then have nb: "b \<notin> set (blocks_of m rid)" by (simp add: count_list_0_iff)
    then have "b \<notin> set bs' \<and> tags p' b = None" using ps that by (simp add: pool_step_def)
    then show ?thesis using rf [OF that(1)] nb by simp
  qed
  ultimately show ?thesis
    using bal fr ch by (simp add: step_ok_def changes_def)
qed

lemma step_ok_refl: "mgr_ok m p \<Longrightarrow> step_ok m p m p"
  by (simp add: step_ok_def same_static_def)

lemma step_ok_mgr: "step_ok m p m' p' \<Longrightarrow> mgr_ok m' p'"
  by (simp add: step_ok_def)

lemma step_ok_trans:
  assumes "step_ok m p m1 p1" and "step_ok m1 p1 m2 p2"
  shows "step_ok m p m2 p2"
proof -
  have bal: "refs p1 b - held m1 b = refs p b - held m b" if "b \<noteq> 0" for b
    using assms(1) that by (simp add: step_ok_def)
  have "tags p2 b = None \<and> refs p2 b = refs p b"
    if b: "b \<noteq> 0" "0 < refs p b" "held m b = 0" "tags p b = None" for b
  proof -
    have "tags p1 b = None" "refs p1 b = refs p b" using assms(1) b by (simp_all add: step_ok_def)
    moreover have "held m1 b = 0" using bal [OF b(1)] b(3) calculation(2) by simp
    ultimately show ?thesis using assms(2) b(1,2) by (simp add: step_ok_def)
  qed
  moreover have "same_frame p p2" using assms same_frame_trans by (auto simp: step_ok_def)
  ultimately show ?thesis using assms by (simp add: step_ok_def same_static_def)
qed

section \<open>Steps of the pool on behalf of a request\<close>

lemma pool_step_refl [simp]: "pool_step p bs bs p"
  by (simp add: pool_step_def)

lemma pool_step_trans:
  assumes "pool_step p bs1 bs2 q" and "pool_step q bs2 bs3 r"
  shows "pool_step p bs1 bs3 r"
proof -
  have fr: "same_frame p r" using assms same_frame_trans by (auto simp: pool_step_def)
  have rf: "refs r b = refs p b + int (count_list bs3 b) - int (count_list bs1 b)" if "b \<noteq> 0" for b
  proof -
    have "refs q b = refs p b + int (count_list bs2 b) - int (count_list bs1 b)"
      "refs r b = refs q b + int (count_list bs3 b) - int (count_list bs2 b)"
      using assms that by (simp_all add: pool_step_def)
    then show ?thesis by linarith
  qed
  have "b \<notin> set bs3 \<and> tags r b = None"
    if b: "b \<noteq> 0" "0 < refs p b" "tags p b = None" "b \<notin> set bs1" for b
  proof -
    have q: "b \<notin> set bs2" "tags q b = None" using assms(1) b by (simp_all add: pool_step_def)
    have "refs q b = refs p b + int (count_list bs2 b) - int (count_list bs1 b)"
      using assms(1) b(1) by (simp add: pool_step_def)
    then have "0 < refs q b" using q(1) b by simp
    then show ?thesis using assms(2) b(1) q by (simp add: pool_step_def)
  qed
  moreover have "\<forall>b. tags r b = None" if "\<not> enable_caching p" "\<forall>b. tags p b = None"
    using assms that by (simp add: pool_step_def same_frame_def)
  ultimately show ?thesis using fr rf by (simp add: pool_step_def)
qed

lemma get_new_step:
  assumes ok: "pool_ok p fl" and n: "0 \<le> n" "n \<le> get_num_free_blocks p"
  shows "\<exists>new p'. get_new_blocks n p = Inr (new, p') \<and> pool_ok p' (drop (nat n) fl) \<and>
     pool_step p bs (bs @ new) p' \<and> int (length new) = n \<and> distinct new \<and>
     (\<forall>b \<in> set new. b < length (blocks p) \<and> b \<noteq> 0 \<and> refs p b = 0 \<and> refs p' b = 1 \<and>
        (enable_caching p \<longrightarrow> tags p' b = None)) \<and>
     (\<forall>b. b \<notin> set new \<longrightarrow> refs p' b = refs p b \<and> tags p' b = tags p b) \<and>
     get_num_free_blocks p' = get_num_free_blocks p - n"
proof -
  let ?new = "take (nat n) fl"
  note f = pool_ok_facts [OF ok]
  obtain p' where p': "get_new_blocks n p = Inr (?new, p')" "pool_ok p' (drop (nat n) fl)"
    "same_frame p p'" "refs p' = (\<lambda>x. if x \<in> set ?new then 1 else refs p x)"
    "tags p' = (\<lambda>x. if enable_caching p \<and> x \<in> set ?new then None else tags p x)"
    using get_new_blocks_effect [OF ok n] by blast
  have d: "distinct ?new" and len: "int (length ?new) = n" using f(7,8) n by simp_all
  have sub: "b < length (blocks p) \<and> b \<noteq> 0 \<and> refs p b = 0" if "b \<in> set ?new" for b
    using that f(4) set_take_subset [of "nat n" fl] by auto
  have new: "\<forall>b \<in> set ?new. b < length (blocks p) \<and> b \<noteq> 0 \<and> refs p b = 0 \<and> refs p' b = 1 \<and>
        (enable_caching p \<longrightarrow> tags p' b = None)"
    using sub by (auto simp: p'(4,5))
  have keep: "\<forall>b. b \<notin> set ?new \<longrightarrow> refs p' b = refs p b \<and> tags p' b = tags p b"
    by (simp add: p'(4,5))
  have "pool_step p bs (bs @ ?new) p'"
    unfolding pool_step_def
  proof (intro conjI allI impI)
    show "same_frame p p'" by (rule p'(3))
    show "refs p' b = refs p b + int (count_list (bs @ ?new) b) - int (count_list bs b)" for b
      using new keep count_list_distinct [OF d, of b] by (cases "b \<in> set ?new") auto
    fix b assume b: "b \<noteq> 0 \<and> 0 < refs p b \<and> tags p b = None \<and> b \<notin> set bs"
    then have "b \<notin> set ?new" using new by auto
    then show "b \<notin> set (bs @ ?new)" "tags p' b = None" using b keep by simp_all
  next
    show "tags p' b = None" if "\<not> enable_caching p \<and> (\<forall>b. tags p b = None)" for b
      using that by (simp add: p'(5))
  qed
  moreover have "get_num_free_blocks p' = get_num_free_blocks p - n"
    using pool_ok_facts(8) [OF p'(2)] f(8) n by simp
  ultimately show ?thesis using p'(1,2) d len new keep by blast
qed

definition hits_ok :: "block_pool \<Rightarrow> nat list \<Rightarrow> bool" where
  "hits_ok p bs \<longleftrightarrow> (\<forall>b \<in> set bs. b < length (blocks p) \<and> (b \<noteq> 0 \<longrightarrow> tags p b \<noteq> None)) \<and>
     distinct (non_null bs)"

lemma hits_ok_from: "hits_ok p bs \<Longrightarrow> hits_ok p (py_from bs k)"
proof -
  assume h: "hits_ok p bs"
  have "bs = take (py_clamp (length bs) k) bs @ py_from bs k" by (simp add: py_from_def)
  then have "non_null bs = non_null (take (py_clamp (length bs) k) bs) @ non_null (py_from bs k)"
    unfolding non_null_def by (metis filter_append)
  then show ?thesis using h set_py_from [of bs k] by (auto simp: hits_ok_def)
qed

lemma evictable_eq:
  assumes ok: "pool_ok p fl" and h: "hits_ok p bs"
  shows "get_num_evictable_blocks p bs = int (length fl) - int (length (filter (\<lambda>b. b \<notin> set bs) fl))"
proof -
  note f = pool_ok_facts [OF ok]
  have "filter (\<lambda>b. ref_cnt (blocks p ! b) = 0 \<and> \<not> is_null (blocks p ! b)) bs =
      filter (\<lambda>b. b \<in> set fl) (non_null bs)"
    unfolding non_null_def filter_filter using h f(4) pool_ok_is_null [OF ok]
    by (intro filter_cong) (auto simp: hits_ok_def refs_def)
  moreover have "length (filter (\<lambda>b. b \<in> set fl) (non_null bs)) = card (set fl \<inter> set bs)"
  proof -
    have "set (filter (\<lambda>b. b \<in> set fl) (non_null bs)) = set fl \<inter> set bs"
      using f(4) by (auto simp: non_null_def)
    then show ?thesis using h distinct_card [of "filter (\<lambda>b. b \<in> set fl) (non_null bs)"]
      by (simp add: hits_ok_def)
  qed
  moreover have "length (filter (\<lambda>b. b \<in> set bs) fl) = card (set fl \<inter> set bs)"
    using distinct_card [of "filter (\<lambda>b. b \<in> set bs) fl"] f(7) by (simp add: Int_def)
  moreover have "length (filter (\<lambda>b. b \<in> set bs) fl) + length (filter (\<lambda>b. b \<notin> set bs) fl) = length fl"
    by (rule sum_length_filter_compl)
  ultimately show ?thesis by (simp add: get_num_evictable_blocks_def)
qed

lemma touch_step:
  assumes ok: "pool_ok p fl" and h: "hits_ok p bs"
  shows "\<exists>p'. touch bs p = Inr p' \<and> (\<exists>fl'. pool_ok p' fl') \<and> pool_step p [] bs p' \<and>
     tags p' = tags p \<and> (\<forall>b. b \<notin> set bs \<longrightarrow> refs p' b = refs p b) \<and>
     get_num_free_blocks p' = get_num_free_blocks p - get_num_evictable_blocks p bs"
proof -
  let ?fl = "filter (\<lambda>b. b \<notin> set bs) fl"
  have rng: "\<forall>b \<in> set bs. b < length (blocks p)" using h by (simp add: hits_ok_def)
  obtain p' where p': "touch bs p = Inr p'" "pool_ok p' ?fl" "same_frame p p'"
    "refs p' = (\<lambda>b. refs p b + int (count_list bs b))" "tags p' = tags p"
    using touch_effect [OF ok rng] by blast
  have "pool_step p [] bs p'"
    using p'(3,4,5) h by (auto simp: pool_step_def hits_ok_def)
  moreover have "get_num_free_blocks p' = get_num_free_blocks p - get_num_evictable_blocks p bs"
    using evictable_eq [OF ok h] pool_ok_facts(8) [OF ok] pool_ok_facts(8) [OF p'(2)] by simp
  moreover have "\<forall>b. b \<notin> set bs \<longrightarrow> refs p' b = refs p b" by (simp add: p'(4))
  ultimately show ?thesis using p'(1,2,5) by blast
qed

lemma free_step:
  assumes ok: "pool_ok p fl" and d: "distinct (non_null bs)"
    and live: "\<forall>b \<in> set bs. b < length (blocks p) \<and> (b \<noteq> 0 \<longrightarrow> 0 < refs p b)"
    and keep: "\<And>b. b \<noteq> 0 \<Longrightarrow> count_list cs b = count_list cs' b + count_list bs b"
  shows "\<exists>p'. free_blocks bs p = Inr p' \<and> (\<exists>fl'. pool_ok p' fl') \<and> pool_step p cs cs' p' \<and>
     tags p' = tags p \<and> get_num_free_blocks p \<le> get_num_free_blocks p' \<and>
     (\<forall>b. refs p' b = refs p b - int (count_list bs b))"
proof -
  let ?fl = "fl @ filter (\<lambda>b. b \<noteq> 0 \<and> refs p b = 1) bs"
  obtain p' where p': "free_blocks bs p = Inr p'" "pool_ok p' ?fl" "same_frame p p'"
    "refs p' = (\<lambda>b. refs p b - int (count_list bs b))" "tags p' = tags p"
    using free_blocks_effect [OF ok _ live] d unfolding non_null_def by blast
  have "b \<notin> set cs'" if "b \<noteq> 0" "b \<notin> set cs" for b
    using keep [OF that(1)] that(2) by (metis add_is_0 count_list_0_iff)
  then have "pool_step p cs cs' p'"
    using p'(3,4,5) keep by (auto simp: pool_step_def)
  moreover have "get_num_free_blocks p \<le> get_num_free_blocks p'"
    using pool_ok_facts(8) [OF ok] pool_ok_facts(8) [OF p'(2)] by simp
  ultimately show ?thesis using p'(1,2,4,5) by auto
qed

lemma caches_only_step: "caches_only p (set bs) p' \<Longrightarrow> set bs \<subseteq> set cs \<Longrightarrow>
    (\<not> enable_caching p \<longrightarrow> p' = p) \<Longrightarrow> pool_step p cs cs p'"
  by (auto simp: pool_step_def caches_only_def)

section \<open>Effects of the operations\<close>

lemma mgr_ok_facts:
  assumes "mgr_ok m p"
  shows "distinct (map fst (req_to_blocks m))" and "0 < mgr_block_size m" and "mgr_null m = 0"
    and "\<And>rid b. b \<in> set (blocks_of m rid) \<Longrightarrow> b < length (blocks p)"
    and "\<And>rid. distinct (non_null (blocks_of m rid))" and "\<And>rid. 0 \<le> cached_count m rid"
    and "\<And>rid. private_tail p (cached_count m rid) (blocks_of m rid)"
    and "\<And>b. b < length (blocks p) \<Longrightarrow> b \<noteq> 0 \<Longrightarrow> held m b \<le> refs p b"
    and "\<not> enable_caching p \<Longrightarrow> tags p b = None"
  using assms by (simp_all add: mgr_ok_def)

lemma mgr_ok_live:
  assumes "mgr_ok m p" and "b \<in> set (blocks_of m rid)" and "b \<noteq> 0"
  shows "0 < refs p b"
proof -
  have "0 < count_list (blocks_of m rid) b" using assms(2) by (metis count_list_0_iff gr0I)
  then show ?thesis
    using count_le_held(2) [OF mgr_ok_facts(1) [OF assms(1)], of rid "''x'' @ rid" b]
      mgr_ok_facts(8) [OF assms(1) mgr_ok_facts(4) [OF assms(1,2)] assms(3)] by simp
qed

lemma private_tail_append:
  assumes "private_tail p n bs" and "\<forall>b \<in> set bs. b \<noteq> 0 \<longrightarrow> 0 < refs p b"
    and "\<forall>b \<in> set new. refs p b = 0 \<and> refs p' b = 1 \<and> tags p' b = None"
    and "\<forall>b. b \<notin> set new \<longrightarrow> refs p' b = refs p b \<and> tags p' b = tags p b"
  shows "private_tail p' n (bs @ new)"
  unfolding private_tail_def
proof (intro allI impI)
  fix i assume i: "i < length (bs @ new)" "n \<le> int i \<and> (bs @ new) ! i \<noteq> 0"
  show "tags p' ((bs @ new) ! i) = None \<and> refs p' ((bs @ new) ! i) = 1"
  proof (cases "i < length bs")
    case True
    then have b: "tags p (bs ! i) = None" "refs p (bs ! i) = 1" "(bs @ new) ! i = bs ! i"
      using assms(1) i by (auto simp: private_tail_def nth_append)
    then have "bs ! i \<notin> set new" using assms(3) by auto
    then show ?thesis using b assms(4) by simp
  next
    case False
    then have "(bs @ new) ! i \<in> set new" using i(1) by (simp add: nth_append)
    then show ?thesis using assms(3) by blast
  qed
qed

lemma non_null_append_new:
  assumes "distinct (non_null bs)" and "distinct new" and "\<forall>b \<in> set new. b \<notin> set bs"
  shows "distinct (non_null (bs @ new))"
  using assms by (auto simp: non_null_def)

lemma changes_note: "changes m rid bs m' \<Longrightarrow> changes m rid bs (note_new_ids new m')"
  by (rule changes_cong) (simp_all add: same_static_def)

lemma touch_entry_ok: "mgr_ok m p \<Longrightarrow> step_ok m p (touch_entry rid m) p"
proof -
  assume ok: "mgr_ok m p"
  note f = mgr_ok_facts [OF ok]
  have cc: "cached_count (touch_entry rid m) rid = cached_count m rid"
    by (simp add: touch_entry_def cached_count_def)
  have ch: "changes m rid (blocks_of m rid) (touch_entry rid m)"
    unfolding touch_entry_def by (rule changes_set_blocks [OF f(1)])
  show "step_ok m p (touch_entry rid m) p"
  proof (rule step_okI [OF ok ch pool_step_refl])
    show "\<forall>b \<in> set (blocks_of m rid). b < length (blocks p)" using f(4) by blast
    show "distinct (non_null (blocks_of m rid))" by (rule f(5))
    show "0 \<le> cached_count (touch_entry rid m) rid" unfolding cc by (rule f(6))
    show "private_tail p (cached_count (touch_entry rid m) rid) (blocks_of m rid)"
      unfolding cc by (rule f(7))
  qed
qed

text \<open>New blocks from the pool are appended to a request's blocks.\<close>

lemma append_new_effect:
  assumes ok: "mgr_ok m p" and pok: "pool_ok p fl" and n: "0 \<le> n" and free: "n \<le> get_num_free_blocks p"
  shows "\<exists>new p'. get_new_blocks n p = Inr (new, p') \<and> (\<exists>fl'. pool_ok p' fl') \<and>
     step_ok m p (note_new_ids new (set_blocks rid (blocks_of m rid @ new) m)) p' \<and>
     int (length new) = n \<and> get_num_free_blocks p' = get_num_free_blocks p - n \<and>
     (\<forall>b. b \<notin> set new \<longrightarrow> refs p' b = refs p b \<and> tags p' b = tags p b) \<and>
     (\<forall>b \<in> set new. refs p b = 0)"
proof -
  note f = mgr_ok_facts [OF ok]
  let ?bs = "blocks_of m rid"
  obtain new p' where g: "get_new_blocks n p = Inr (new, p')" "pool_ok p' (drop (nat n) fl)"
    "pool_step p ?bs (?bs @ new) p'" "int (length new) = n" "distinct new"
    "\<forall>b \<in> set new. b < length (blocks p) \<and> b \<noteq> 0 \<and> refs p b = 0 \<and> refs p' b = 1 \<and>
        (enable_caching p \<longrightarrow> tags p' b = None)"
    "\<forall>b. b \<notin> set new \<longrightarrow> refs p' b = refs p b \<and> tags p' b = tags p b"
    "get_num_free_blocks p' = get_num_free_blocks p - n"
    using get_new_step [OF pok n free, of ?bs] by blast
  let ?m = "note_new_ids new (set_blocks rid (?bs @ new) m)"
  have ch: "changes m rid (?bs @ new) ?m"
    by (rule changes_note [OF changes_set_blocks [OF f(1)]])
  have cc: "cached_count ?m rid = cached_count m rid" by (simp add: cached_count_def)
  have untag: "\<forall>b \<in> set new. tags p' b = None"
  proof (cases "enable_caching p")
    case True
    then show ?thesis using g(6) by blast
  next
    case False
    then have "\<forall>b. tags p b = None" using f(9) by blast
    then show ?thesis using g(3) False unfolding pool_step_def by blast
  qed
  have "step_ok m p ?m p'"
  proof (rule step_okI [OF ok ch g(3)])
    show "\<forall>b \<in> set (?bs @ new). b < length (blocks p)" using f(4) g(6) by auto
    show "distinct (non_null (?bs @ new))"
    proof (intro non_null_append_new f(5) g(5) ballI notI)
      fix b assume "b \<in> set new" and "b \<in> set ?bs"
      then show False using g(6) mgr_ok_live [OF ok, of b rid] by simp
    qed
    show "0 \<le> cached_count ?m rid" using f(6) cc by simp
    have "private_tail p' (cached_count m rid) (?bs @ new)"
    proof (rule private_tail_append [OF f(7)])
      show "\<forall>b \<in> set ?bs. b \<noteq> 0 \<longrightarrow> 0 < refs p b" using mgr_ok_live [OF ok] by blast
      show "\<forall>b \<in> set new. refs p b = 0 \<and> refs p' b = 1 \<and> tags p' b = None"
        using g(6) untag by blast
    qed (rule g(7))
    then show "private_tail p' (cached_count ?m rid) (?bs @ new)" using cc by simp
  qed
  moreover have "\<exists>fl'. pool_ok p' fl'" using g(2) by blast
  ultimately show ?thesis using g(1,4,6-8) by blast
qed

lemma allocate_new_effect:
  assumes ok: "mgr_ok m p" and pok: "pool_ok p fl"
    and n: "n = cdiv num_tok (mgr_block_size m) - int (length (blocks_of m rid))"
    and free: "n \<le> get_num_free_blocks p"
  shows "\<exists>new m' p'. base_allocate_new_blocks rid num_tok m p = Inr (new, m', p') \<and>
     (\<exists>fl'. pool_ok p' fl') \<and> step_ok m p m' p' \<and>
     (\<forall>r. blocks_of m' r = (if r = rid then blocks_of m rid @ new else blocks_of m r)) \<and>
     num_cached_block m' = num_cached_block m \<and> int (length new) = max n 0 \<and>
     get_num_free_blocks p' = get_num_free_blocks p - max n 0"
proof (cases "n \<le> 0")
  case True
  have "base_allocate_new_blocks rid num_tok m p = Inr ([], touch_entry rid m, p)"
    using True mgr_ok_facts(2) [OF ok] unfolding n
    by (simp add: base_allocate_new_blocks_def num_required_def)
  then show ?thesis
    using True pok touch_entry_ok [OF ok, of rid] by (auto simp: touch_entry_def)
next
  case False
  let ?bs = "blocks_of m rid"
  obtain new p' where g: "get_new_blocks n p = Inr (new, p')" "\<exists>fl'. pool_ok p' fl'"
    "step_ok m p (note_new_ids new (set_blocks rid (?bs @ new) m)) p'" "int (length new) = n"
    "get_num_free_blocks p' = get_num_free_blocks p - n"
    using append_new_effect [OF ok pok _ free, of rid] False by auto
  let ?m = "note_new_ids new (set_blocks rid (?bs @ new) m)"
  have run: "base_allocate_new_blocks rid num_tok m p = Inr (new, ?m, p')"
    using False mgr_ok_facts(2) [OF ok] g(1) unfolding n
    by (simp add: base_allocate_new_blocks_def num_required_def Let_def)
  have "blocks_of ?m r = (if r = rid then ?bs @ new else blocks_of m r)" for r
    using blocks_of_cong [of ?m "set_blocks rid (?bs @ new) m" r] by simp
  then have "base_allocate_new_blocks rid num_tok m p = Inr (new, ?m, p') \<and>
     (\<exists>fl'. pool_ok p' fl') \<and> step_ok m p ?m p' \<and>
     (\<forall>r. blocks_of ?m r = (if r = rid then blocks_of m rid @ new else blocks_of m r)) \<and>
     num_cached_block ?m = num_cached_block m \<and> int (length new) = max n 0 \<and>
     get_num_free_blocks p' = get_num_free_blocks p - max n 0"
    using run g False by simp
  then show ?thesis by blast
qed

lemma py_from_nat: "py_from bs (int k) = drop k bs"
  by (simp add: py_from_nonneg)

lemma non_null_replicate [simp]: "non_null (replicate k 0 @ bs) = non_null bs"
  by (induction k) (auto simp: non_null_def)

text \<open>
  Adding the blocks of a prefix hit to a new request: the blocks outside the attention window
  become null blocks, the others are touched.
\<close>

lemma add_hits_effect:
  assumes ok: "mgr_ok m p" and pok: "pool_ok p fl" and empty: "blocks_of m rid = []"
    and h: "hits_ok p hits" and cach: "enable_caching p \<or> hits = []"
  shows "\<exists>p1. (if mgr_caching m then touch hits p
            else require (hits = []) AssertionError (Inr p)) = Inr p1 \<and>
     (\<exists>fl'. pool_ok p1 fl') \<and>
     step_ok m p ((set_blocks rid (replicate k (mgr_null m) @ hits) m)\<lparr>num_cached_block :=
        (num_cached_block m)(rid := Some (int (length (replicate k (mgr_null m) @ hits))))\<rparr>) p1 \<and>
     tags p1 = tags p \<and>
     get_num_free_blocks p1 = get_num_free_blocks p - get_num_evictable_blocks p hits"
proof -
  note f = mgr_ok_facts [OF ok]
  let ?bs = "replicate k (mgr_null m) @ hits"
  let ?m = "(set_blocks rid ?bs m)\<lparr>num_cached_block :=
        (num_cached_block m)(rid := Some (int (length ?bs)))\<rparr>"
  have c: "mgr_caching m = enable_caching p" using ok by (simp add: mgr_ok_def)
  obtain p1 where p1: "(if mgr_caching m then touch hits p
            else require (hits = []) AssertionError (Inr p)) = Inr p1"
    "\<exists>fl'. pool_ok p1 fl'" "pool_step p [] hits p1" "tags p1 = tags p"
    "get_num_free_blocks p1 = get_num_free_blocks p - get_num_evictable_blocks p hits"
  proof (cases "enable_caching p")
    case True
    then show ?thesis using touch_step [OF pok h] c that by auto
  next
    case False
    then have "hits = []" using cach by simp
    then show ?thesis using that [of p] c pok False by (auto simp: get_num_evictable_blocks_def)
  qed
  have "count_list (replicate k (0::nat)) b = 0" if "b \<noteq> 0" for b using that by simp
  then have ps: "pool_step p (blocks_of m rid) ?bs p1"
    using p1(3) empty f(3) by (auto simp: pool_step_def)
  have "changes m rid ?bs ?m"
    by (rule changes_cong [OF changes_set_blocks [OF f(1)]]) (auto simp: same_static_def)
  then have "step_ok m p ?m p1"
  proof (rule step_okI [OF ok _ ps])
    show "\<forall>b \<in> set ?bs. b < length (blocks p)"
      using h pool_ok_facts(1) [OF pok] f(3) by (auto simp: hits_ok_def)
    show "distinct (non_null ?bs)" using h f(3) by (simp add: hits_ok_def)
    show "0 \<le> cached_count ?m rid" by (simp add: cached_count_def)
    show "private_tail p1 (cached_count ?m rid) ?bs" by (simp add: cached_count_def private_tail_def)
  qed
  then show ?thesis using p1(1,2,4,5) by blast
qed

text \<open>Freeing a request.\<close>

lemma changes_delete:
  assumes "distinct (map fst (req_to_blocks m))"
  shows "changes m rid [] (m\<lparr>req_to_blocks := AList.delete rid (req_to_blocks m)\<rparr>)"
  using assms sum_list_delete [OF assms, of _ rid]
  by (auto simp: changes_def same_static_def blocks_of_def held_def distinct_delete
      delete_conv' split: option.splits)

lemma free_request_effect:
  assumes ok: "mgr_ok m p" and pok: "pool_ok p fl"
  shows "\<exists>m' p'. free_request rid m p = Inr (m', p') \<and> (\<exists>fl'. pool_ok p' fl') \<and>
     step_ok m p m' p' \<and> (\<forall>r. blocks_of m' r = (if r = rid then [] else blocks_of m r)) \<and>
     map_of (req_to_blocks m') rid = None \<and> num_cached_block m' rid = None \<and> tags p' = tags p \<and>
     get_num_free_blocks p \<le> get_num_free_blocks p'"
proof -
  note f = mgr_ok_facts [OF ok]
  let ?bs = "blocks_of m rid"
  have d: "distinct (non_null (rev ?bs))"
    using f(5) [of rid] by (simp add: non_null_def rev_filter [symmetric])
  have live: "\<forall>b \<in> set (rev ?bs). b < length (blocks p) \<and> (b \<noteq> 0 \<longrightarrow> 0 < refs p b)"
    using f(4) mgr_ok_live [OF ok] by auto
  have cnt: "count_list ?bs b = count_list [] b + count_list (rev ?bs) b" for b
    by (simp add: count_list_filter_mset)
  obtain p' where p': "free_blocks (rev ?bs) p = Inr p'" "\<exists>fl'. pool_ok p' fl'"
    "pool_step p ?bs [] p'" "tags p' = tags p" "get_num_free_blocks p \<le> get_num_free_blocks p'"
    using free_step [OF pok d live, of ?bs "[]"] cnt by blast
  define m0 where "m0 = (case spec_kind (mgr_spec m) of
      Mamba MambaAlign _ \<Rightarrow> m\<lparr>allocated_block_reqs := allocated_block_reqs m - {rid},
                      last_state_block_idx := (last_state_block_idx m)(rid := None)\<rparr>
    | _ \<Rightarrow> m)"
  let ?m = "m0\<lparr>req_to_blocks := AList.delete rid (req_to_blocks m0),
               num_cached_block := (num_cached_block m0)(rid := None)\<rparr>"
  have m0: "req_to_blocks m0 = req_to_blocks m" "num_cached_block m0 = num_cached_block m"
    "same_static m m0"
    by (auto simp: m0_def same_static_def split: spec_kind.splits mamba_mode.splits)
  have run: "free_request rid m p = Inr (?m, p')"
    using p'(1) blocks_of_cong [OF m0(1)] by (simp add: free_request_def Let_def m0_def [symmetric])
  have ch: "changes m rid [] ?m"
    by (rule changes_cong [OF changes_delete [OF f(1)]])
      (use m0 in \<open>auto simp: same_static_def\<close>)
  have "step_ok m p ?m p'"
    by (rule step_okI [OF ok ch p'(3)]) (auto simp: non_null_def cached_count_def private_tail_def)
  moreover have "blocks_of ?m r = (if r = rid then [] else blocks_of m r)" for r
    using ch by (simp add: changes_def)
  moreover have "map_of (req_to_blocks ?m) rid = None" using m0(1) by (simp add: delete_conv')
  ultimately show ?thesis using run p'(2,4,5) by (intro exI [of _ ?m] exI [of _ p']) simp
qed

text \<open>The loop of \<open>remove_skipped_blocks\<close> replaces a block of entries by null blocks.\<close>

lemma skip_loop_eq:
  assumes "skip_loop 0 n bs rem = (bs', rem')" and "n \<le> length bs"
  shows "\<exists>j \<le> n. bs' = take j bs @ replicate (n - j) 0 @ drop n bs \<and>
     rem' = rem @ rev (drop j (take n bs)) \<and> 0 \<notin> set (drop j (take n bs)) \<and>
     (j = 0 \<or> bs ! (j - 1) = 0)"
  using assms
proof (induction n arbitrary: bs rem)
  case 0
  then show ?case by auto
next
  case (Suc n)
  show ?case
  proof (cases "bs ! n = 0")
    case True
    then have "bs' = bs" "rem' = rem" using Suc.prems(1) by simp_all
    then show ?thesis using True by (intro exI [of _ "Suc n"]) simp
  next
    case False
    have run: "skip_loop 0 n (bs[n := 0]) (rem @ [bs ! n]) = (bs', rem')"
      using Suc.prems(1) False by simp
    obtain j where j: "j \<le> n" "bs' = take j (bs[n := 0]) @ replicate (n - j) 0 @ drop n (bs[n := 0])"
      "rem' = (rem @ [bs ! n]) @ rev (drop j (take n (bs[n := 0])))"
      "0 \<notin> set (drop j (take n (bs[n := 0])))" "j = 0 \<or> bs[n := 0] ! (j - 1) = 0"
    proof -
      have "n \<le> length (bs[n := 0])" using Suc.prems(2) by simp
      from Suc.IH [OF run this] show thesis by (elim exE conjE) (rule that)
    qed
    have tk: "take n (bs[n := 0]) = take n bs" "take j (bs[n := 0]) = take j bs"
      using j(1) by simp_all
    have dr: "drop n (bs[n := 0]) = 0 # drop (Suc n) bs"
      using Suc.prems(2) by (subst Cons_nth_drop_Suc [symmetric]) simp_all
    have ts: "take (Suc n) bs = take n bs @ [bs ! n]"
      using Suc.prems(2) by (simp add: take_Suc_conv_app_nth)
    have dj: "drop j (take (Suc n) bs) = drop j (take n bs) @ [bs ! n]"
      using j(1) Suc.prems(2) unfolding ts by simp
    have "bs' = take j bs @ replicate (Suc n - j) 0 @ drop (Suc n) bs"
      using j(1,2) tk dr by (simp add: Suc_diff_le replicate_append_same)
    moreover have "rem' = rem @ rev (drop j (take (Suc n) bs))" using j(3) tk dj by simp
    moreover have "0 \<notin> set (drop j (take (Suc n) bs))" using j(4) tk dj False by simp
    moreover have "j = 0 \<or> bs ! (j - 1) = 0" using j(1,5) by (cases "j - 1 = n") auto
    ultimately show ?thesis using j(1) by (intro exI [of _ j]) simp
  qed
qed

lemma remove_skipped_effect:
  assumes ok: "mgr_ok m p" and pok: "pool_ok p fl"
    and sk: "get_num_skipped_tokens m n = Inr k"
  shows "\<exists>m' p'. base_remove_skipped_blocks rid n m p = Inr (m', p') \<and> (\<exists>fl'. pool_ok p' fl') \<and>
     step_ok m p m' p' \<and> num_cached_block m' = num_cached_block m \<and> tags p' = tags p \<and>
     get_num_free_blocks p \<le> get_num_free_blocks p' \<and>
     (\<forall>r. length (blocks_of m' r) = length (blocks_of m r)) \<and>
     (\<forall>r. r \<noteq> rid \<longrightarrow> blocks_of m' r = blocks_of m r) \<and>
     (\<forall>i < length (blocks_of m rid). k div mgr_block_size m \<le> int i \<or> k \<le> 0 \<longrightarrow>
        blocks_of m' rid ! i = blocks_of m rid ! i) \<and>
     (\<forall>b \<noteq> 0. refs p' b \<le> refs p b)"
proof (cases "k \<le> 0")
  case True
  have "step_ok m p m p" using ok by (simp add: step_ok_def same_static_def)
  then show ?thesis
    using True pok sk by (intro exI [of _ m] exI [of _ p]) (auto simp: base_remove_skipped_blocks_def)
next
  case False
  note f = mgr_ok_facts [OF ok]
  let ?bs = "blocks_of m rid"
  let ?n = "nat (min (k div mgr_block_size m) (int (length ?bs)))"
  have nle: "?n \<le> length ?bs" by simp
  obtain bs' rm where loop: "skip_loop (mgr_null m) ?n ?bs [] = (bs', rm)" by force
  obtain j where j: "j \<le> ?n" "bs' = take j ?bs @ replicate (?n - j) 0 @ drop ?n ?bs"
    "rm = rev (drop j (take ?n ?bs))" "0 \<notin> set (drop j (take ?n ?bs))"
    using skip_loop_eq [of ?n ?bs "[]" bs' rm] loop nle f(3) by auto
  have split: "?bs = take j ?bs @ drop j (take ?n ?bs) @ drop ?n ?bs"
  proof -
    have "take j ?bs = take j (take ?n ?bs)" using j(1) by simp
    then show ?thesis by (metis append.assoc append_take_drop_id)
  qed
  have sub: "set rm \<subseteq> set ?bs"
    using set_drop_subset [of j "take ?n ?bs"] set_take_subset [of ?n ?bs] unfolding j(3) by auto
  have cnt: "count_list ?bs b = count_list bs' b + count_list rm b" if "b \<noteq> 0" for b
  proof -
    have "count_list ?bs b = count_list (take j ?bs) b + count_list (drop j (take ?n ?bs)) b +
        count_list (drop ?n ?bs) b"
      by (subst split) simp
    then show ?thesis using that by (simp add: j(2,3) count_list_filter_mset)
  qed
  have "non_null ?bs = non_null (take j ?bs) @ non_null (drop j (take ?n ?bs)) @ non_null (drop ?n ?bs)"
    unfolding non_null_def by (subst split) (simp only: filter_append)
  then have d: "distinct (non_null (take j ?bs) @ non_null (drop j (take ?n ?bs)) @ non_null (drop ?n ?bs))"
    using f(5) [of rid] by simp
  have drm: "distinct (non_null rm)"
    using d unfolding j(3) by (simp add: non_null_def rev_filter [symmetric])
  have nn': "non_null bs' = non_null (take j ?bs) @ non_null (drop ?n ?bs)"
    unfolding j(2) by (simp add: non_null_def)
  have dbs: "distinct (non_null bs')" using d unfolding nn' by auto
  have live: "\<forall>b \<in> set rm. b < length (blocks p) \<and> (b \<noteq> 0 \<longrightarrow> 0 < refs p b)"
    using sub f(4) mgr_ok_live [OF ok] by blast
  obtain p' where p': "free_blocks rm p = Inr p'" "\<exists>fl'. pool_ok p' fl'"
    "pool_step p ?bs bs' p'" "tags p' = tags p" "get_num_free_blocks p \<le> get_num_free_blocks p'"
    "\<forall>b. refs p' b = refs p b - int (count_list rm b)"
    using free_step [OF pok drm live, of ?bs bs'] cnt by blast
  let ?m = "set_blocks rid bs' m"
  have run: "base_remove_skipped_blocks rid n m p = Inr (?m, p')"
    using False sk f(2) loop p'(1) by (simp add: base_remove_skipped_blocks_def Let_def)
  have len: "length bs' = length ?bs" using j(1) nle by (simp add: j(2))
  have same: "bs' ! i = 0 \<or> bs' ! i = ?bs ! i" "?n \<le> i \<longrightarrow> bs' ! i = ?bs ! i"
    if "i < length ?bs" for i
    using that j(1) nle by (auto simp: j(2) nth_append)
  have "step_ok m p ?m p'"
  proof (rule step_okI [OF ok changes_set_blocks [OF f(1)] p'(3)])
    show "\<forall>b \<in> set bs'. b < length (blocks p)"
      using f(4) pool_ok_facts(1) [OF pok] set_take_subset [of j ?bs] set_drop_subset [of ?n ?bs]
      by (auto simp: j(2))
    show "distinct (non_null bs')" by (rule dbs)
    show "0 \<le> cached_count ?m rid" using f(6) by (simp add: cached_count_def)
    have "private_tail p' (cached_count m rid) bs'"
      unfolding private_tail_def
    proof (intro allI impI)
      fix i assume i: "i < length bs'" "cached_count m rid \<le> int i \<and> bs' ! i \<noteq> 0"
      then have eq: "bs' ! i = ?bs ! i" and pr: "tags p (?bs ! i) = None" "refs p (?bs ! i) = 1"
        using same(1) [of i] f(7) [of rid] len by (auto simp: private_tail_def)
      have "0 < count_list bs' (bs' ! i)" using i(1) by (metis count_list_0_iff gr0I nth_mem)
      then have "count_list rm (bs' ! i) = 0"
        using cnt [of "bs' ! i"] i(2) non_null_count [OF f(5) [of rid], of "bs' ! i"]
        by (auto split: if_splits)
      then show "tags p' (bs' ! i) = None \<and> refs p' (bs' ! i) = 1"
        using eq pr p'(4,6) by simp
    qed
    then show "private_tail p' (cached_count ?m rid) bs'" by (simp add: cached_count_def)
  qed
  moreover have "\<forall>i < length ?bs. k div mgr_block_size m \<le> int i \<or> k \<le> 0 \<longrightarrow> bs' ! i = ?bs ! i"
    using same(2) False by auto
  ultimately show ?thesis
    using run p'(2,4-6) len by (intro exI [of _ ?m] exI [of _ p']) auto
qed

text \<open>
  The whole admission of a request by one manager: the prefix hits are added, blocks for external
  tokens and for the new tokens are taken from the pool.
\<close>

definition hits_after :: "manager \<Rightarrow> int \<Rightarrow> nat list \<Rightarrow> nat list" where
  "hits_after m k hits = (if k div mgr_block_size m > 0 then py_from hits (k div mgr_block_size m) else hits)"

definition prefix_len :: "manager \<Rightarrow> int \<Rightarrow> nat list \<Rightarrow> int" where
  "prefix_len m k hits = max (k div mgr_block_size m) (int (length hits))"

definition external_need :: "manager \<Rightarrow> int \<Rightarrow> int \<Rightarrow> int \<Rightarrow> nat list \<Rightarrow> int" where
  "external_need m k tot ext hits =
     (if (if k div mgr_block_size m > 0 then min (tot - k) ext else ext) > 0
      then cdiv tot (mgr_block_size m) - prefix_len m k hits else 0)"

lemma prefix_len_eq:
  "int (length (py_repeat (0::nat) (k div mgr_block_size m) @ hits_after m k hits)) = prefix_len m k hits"
proof (cases "k div mgr_block_size m > 0")
  case True
  then have "py_from hits (k div mgr_block_size m) = drop (nat (k div mgr_block_size m)) hits"
    by (simp add: py_from_nonneg)
  with True show ?thesis by (auto simp: hits_after_def prefix_len_def py_repeat_def)
next
  case False
  then show ?thesis by (simp add: hits_after_def prefix_len_def py_repeat_def)
qed

lemma allocate_computed_effect:
  assumes ok: "mgr_ok m p" and pok: "pool_ok p fl" and new: "num_cached_block m rid = None"
    and empty: "blocks_of m rid = []" and h: "hits_ok p hits" and cach: "enable_caching p \<or> hits = []"
    and sk: "get_num_skipped_tokens m (loc + ext) = Inr k"
    and need: "0 \<le> external_need m k (loc + ext) ext hits"
    and free: "get_num_evictable_blocks p (hits_after m k hits) +
      external_need m k (loc + ext) ext hits \<le> get_num_free_blocks p"
  shows "\<exists>m' p'. base_allocate_new_computed_blocks rid hits loc ext m p = Inr (m', p') \<and>
     (\<exists>fl'. pool_ok p' fl') \<and> step_ok m p m' p' \<and>
     int (length (blocks_of m' rid)) = prefix_len m k hits + external_need m k (loc + ext) ext hits \<and>
     num_cached_block m' rid = Some (prefix_len m k hits) \<and>
     get_num_free_blocks p' = get_num_free_blocks p -
       get_num_evictable_blocks p (hits_after m k hits) - external_need m k (loc + ext) ext hits"
proof -
  note f = mgr_ok_facts [OF ok]
  let ?hits = "hits_after m k hits" and ?E = "external_need m k (loc + ext) ext hits"
  let ?ext = "if k div mgr_block_size m > 0 then min (loc + ext - k) ext else ext"
  let ?bs = "py_repeat (mgr_null m) (k div mgr_block_size m) @ ?hits"
  let ?m1 = "(set_blocks rid ?bs m)\<lparr>num_cached_block :=
        (num_cached_block m)(rid := Some (int (length ?bs)))\<rparr>"
  have "hits_ok p ?hits" using h hits_ok_from by (simp add: hits_after_def)
  moreover have "enable_caching p \<or> ?hits = []" using cach by (auto simp: hits_after_def py_from_def)
  ultimately obtain p1 where
    p1: "(if mgr_caching m then touch ?hits p
          else require (?hits = []) AssertionError (Inr p)) = Inr p1"
      "\<exists>fl'. pool_ok p1 fl'" "step_ok m p ?m1 p1"
      "get_num_free_blocks p1 = get_num_free_blocks p - get_num_evictable_blocks p ?hits"
    using add_hits_effect [OF ok pok empty, of ?hits "nat (k div mgr_block_size m)"]
    unfolding py_repeat_def by blast
  have len: "int (length ?bs) = prefix_len m k hits" using prefix_len_eq f(3) by simp
  have cached: "num_cached_block ?m1 rid = Some (prefix_len m k hits)" using len by simp
  have run: "base_allocate_new_computed_blocks rid hits loc ext m p =
      (if ?ext > 0 then
         res_bind (get_new_blocks (cdiv (loc + ext) (mgr_block_size m) - int (length ?bs)) p1)
           (\<lambda>(allocated, p2). Inr (note_new_ids allocated (set_blocks rid (?bs @ allocated) ?m1), p2))
       else Inr (?m1, p1))"
    using new empty sk f(2) p1(1)
    unfolding base_allocate_new_computed_blocks_def hits_after_def Let_def by simp
  show ?thesis
  proof (cases "?ext > 0")
    case False
    then have "?E = 0" by (auto simp: external_need_def)
    moreover have "blocks_of ?m1 rid = ?bs"
      using blocks_of_cong [of ?m1 "set_blocks rid ?bs m" rid] by simp
    ultimately have "base_allocate_new_computed_blocks rid hits loc ext m p = Inr (?m1, p1) \<and>
     (\<exists>fl'. pool_ok p1 fl') \<and> step_ok m p ?m1 p1 \<and>
     int (length (blocks_of ?m1 rid)) = prefix_len m k hits + ?E \<and>
     num_cached_block ?m1 rid = Some (prefix_len m k hits) \<and>
     get_num_free_blocks p1 = get_num_free_blocks p - get_num_evictable_blocks p ?hits - ?E"
      using run False p1(2-4) len cached by simp
    then show ?thesis by blast
  next
    case True
    then have E: "?E = cdiv (loc + ext) (mgr_block_size m) - int (length ?bs)"
      using len by (simp add: external_need_def)
    obtain fl1 where pok1: "pool_ok p1 fl1" using p1(2) by blast
    have bs1: "blocks_of ?m1 rid = ?bs"
      using blocks_of_cong [of ?m1 "set_blocks rid ?bs m" rid] by simp
    have "?E \<le> get_num_free_blocks p1" using free p1(4) by simp
    from append_new_effect [OF step_ok_mgr [OF p1(3)] pok1 need this, of rid] obtain new p2 where
      g: "get_new_blocks ?E p1 = Inr (new, p2)" "\<exists>fl'. pool_ok p2 fl'"
        "step_ok ?m1 p1 (note_new_ids new (set_blocks rid (?bs @ new) ?m1)) p2"
        "int (length new) = ?E" "get_num_free_blocks p2 = get_num_free_blocks p1 - ?E"
      unfolding bs1 by blast
    let ?m2 = "note_new_ids new (set_blocks rid (?bs @ new) ?m1)"
    have "blocks_of ?m2 rid = ?bs @ new"
      using blocks_of_cong [of ?m2 "set_blocks rid (?bs @ new) ?m1" rid] by simp
    then have "base_allocate_new_computed_blocks rid hits loc ext m p = Inr (?m2, p2) \<and>
     (\<exists>fl'. pool_ok p2 fl') \<and> step_ok m p ?m2 p2 \<and>
     int (length (blocks_of ?m2 rid)) = prefix_len m k hits + ?E \<and>
     num_cached_block ?m2 rid = Some (prefix_len m k hits) \<and>
     get_num_free_blocks p2 = get_num_free_blocks p - get_num_evictable_blocks p ?hits - ?E"
      using run True g step_ok_trans [OF p1(3) g(3)] p1(4) len cached E by simp
    then show ?thesis by blast
  qed
qed

text \<open>The number of skipped tokens does not depend on a manager's state.\<close>

definition skipped_tokens :: "spec_kind \<Rightarrow> int \<Rightarrow> int" where
  "skipped_tokens kind n =
     (case kind of
        SlidingWindow w \<Rightarrow> max 0 (n - w + 1)
      | ChunkedLocalAttention c \<Rightarrow> n div c * c
      | Mamba _ _ \<Rightarrow> n - 1
      | _ \<Rightarrow> 0)"

lemma get_num_skipped_tokens_eq:
  "get_num_skipped_tokens m n = Inr k \<Longrightarrow> k = skipped_tokens (spec_kind (mgr_spec m)) n"
  by (auto simp: get_num_skipped_tokens_def skipped_tokens_def res_simps split: spec_kind.splits)

definition spec_ok :: "kv_cache_spec \<Rightarrow> bool" where
  "spec_ok spec \<longleftrightarrow> 0 < spec_block_size spec \<and>
     (case spec_kind spec of
        SlidingWindow w \<Rightarrow> 1 \<le> w
      | ChunkedLocalAttention c \<Rightarrow> 0 < c \<and> spec_block_size spec dvd c
      | _ \<Rightarrow> True)"

lemma skipped_le:
  assumes "spec_ok spec" and "0 \<le> n"
  shows "skipped_tokens (spec_kind spec) n \<le> n"
proof (cases "spec_kind spec")
  case (ChunkedLocalAttention c)
  then have "0 < c" using assms(1) by (simp add: spec_ok_def)
  then have "n div c * c \<le> n"
    using div_mult_mod_eq [of n c] pos_mod_sign [of c n] by linarith
  then show ?thesis using ChunkedLocalAttention by (simp add: skipped_tokens_def)
qed (use assms in \<open>auto simp: spec_ok_def skipped_tokens_def\<close>)

lemma get_num_skipped_total:
  "spec_ok (mgr_spec m) \<Longrightarrow> get_num_skipped_tokens m n = Inr (skipped_tokens (spec_kind (mgr_spec m)) n)"
  by (auto simp: spec_ok_def get_num_skipped_tokens_def skipped_tokens_def split: spec_kind.splits)

text \<open>The number computed before admission is exactly what admission takes from the free blocks.\<close>

lemma admission_effect:
  assumes ok: "mgr_ok m p" and pok: "pool_ok p fl" and new: "num_cached_block m rid = None"
    and empty: "blocks_of m rid = []" and h: "hits_ok p hits" and cach: "enable_caching p \<or> hits = []"
    and spec: "spec_ok (mgr_spec m)" and ext: "0 \<le> ext"
    and loc: "int (length hits) * mgr_block_size m \<le> loc" and tot: "loc + ext \<le> num_tok"
    and n: "base_num_blocks_to_allocate m p rid num_tok hits (loc + ext) = Inr n"
    and free: "n \<le> get_num_free_blocks p"
  shows "\<exists>m1 p1 new m2 p2. base_allocate_new_computed_blocks rid hits loc ext m p = Inr (m1, p1) \<and>
     base_allocate_new_blocks rid num_tok m1 p1 = Inr (new, m2, p2) \<and>
     (\<exists>fl'. pool_ok p2 fl') \<and> step_ok m p m2 p2 \<and>
     get_num_free_blocks p2 = get_num_free_blocks p - n \<and>
     num_tok \<le> int (length (blocks_of m2 rid)) * mgr_block_size m"
proof -
  let ?bs = "mgr_block_size m" and ?k = "skipped_tokens (spec_kind (mgr_spec m)) (loc + ext)"
  let ?plen = "prefix_len m ?k hits" and ?E = "external_need m ?k (loc + ext) ext hits"
  let ?R = "cdiv num_tok ?bs"
  note f = mgr_ok_facts [OF ok]
  have sk: "get_num_skipped_tokens m (loc + ext) = Inr ?k" by (rule get_num_skipped_total [OF spec])
  have "0 \<le> int (length hits) * ?bs" using f(2) by simp
  then have l0: "0 \<le> loc" using loc by linarith
  have klen: "?k \<le> loc + ext" using skipped_le [OF spec, of "loc + ext"] l0 ext by simp
  have "?k div ?bs \<le> (loc + ext) div ?bs" using klen f(2) by (rule zdiv_mono1)
  also have "\<dots> \<le> cdiv (loc + ext) ?bs" by (rule div_le_cdiv [OF f(2)])
  finally have kc: "?k div ?bs \<le> cdiv (loc + ext) ?bs" .
  have "int (length hits) = cdiv (int (length hits) * ?bs) ?bs" using f(2) by simp
  also have "\<dots> \<le> cdiv (loc + ext) ?bs" using loc ext by (intro cdiv_mono f(2)) simp
  finally have hc: "int (length hits) \<le> cdiv (loc + ext) ?bs" .
  have pc: "?plen \<le> cdiv (loc + ext) ?bs" using kc hc by (simp add: prefix_len_def)
  have cR: "cdiv (loc + ext) ?bs \<le> ?R" by (rule cdiv_mono [OF f(2) tot])
  have E0: "0 \<le> ?E" using pc by (simp add: external_need_def)
  have ER: "?E \<le> max (?R - ?plen) 0" using cR by (auto simp: external_need_def)
  have ha: "py_from hits (max 0 (?k div ?bs)) = hits_after m ?k hits"
    by (simp add: hits_after_def py_from_nonneg max_def)
  have n_eq: "n = max (?R - ?plen) 0 + get_num_evictable_blocks p (hits_after m ?k hits)"
    using n new empty f(2) sk
    by (simp add: base_num_blocks_to_allocate_def num_required_def Let_def ha prefix_len_def)
  have "get_num_evictable_blocks p (hits_after m ?k hits) + ?E \<le> get_num_free_blocks p"
    using n_eq ER free by linarith
  from allocate_computed_effect [OF ok pok new empty h cach sk E0 this] obtain m1 p1 where
    a: "base_allocate_new_computed_blocks rid hits loc ext m p = Inr (m1, p1)"
      "\<exists>fl'. pool_ok p1 fl'" "step_ok m p m1 p1" "int (length (blocks_of m1 rid)) = ?plen + ?E"
      "get_num_free_blocks p1 = get_num_free_blocks p -
         get_num_evictable_blocks p (hits_after m ?k hits) - ?E"
    by blast
  obtain fl1 where pok1: "pool_ok p1 fl1" using a(2) by blast
  have bs1: "mgr_block_size m1 = ?bs" using a(3) by (simp add: step_ok_def same_static_def)
  let ?n1 = "cdiv num_tok (mgr_block_size m1) - int (length (blocks_of m1 rid))"
  have n1: "max ?n1 0 = max (?R - ?plen) 0 - ?E"
    using a(4) bs1 E0 cR pc by (auto simp: external_need_def split: if_splits)
  have "?n1 \<le> get_num_free_blocks p1" using n1 a(5) n_eq free by linarith
  from allocate_new_effect [OF step_ok_mgr [OF a(3)] pok1 refl this] obtain new m2 p2 where
    b: "base_allocate_new_blocks rid num_tok m1 p1 = Inr (new, m2, p2)" "\<exists>fl'. pool_ok p2 fl'"
      "step_ok m1 p1 m2 p2"
      "\<forall>r. blocks_of m2 r = (if r = rid then blocks_of m1 rid @ new else blocks_of m1 r)"
      "int (length new) = max ?n1 0" "get_num_free_blocks p2 = get_num_free_blocks p1 - max ?n1 0"
    by blast
  have "?R \<le> int (length (blocks_of m2 rid))" using b(4,5) a(4) n1 by simp
  then have cap: "num_tok \<le> int (length (blocks_of m2 rid)) * ?bs"
    by (simp add: cdiv_least [OF f(2)])
  have "get_num_free_blocks p2 = get_num_free_blocks p - n" using b(6) a(5) n1 n_eq by linarith
  then show ?thesis using a(1) b(1,2) step_ok_trans [OF a(3) b(3)] cap by blast
qed

lemma non_null_nth_inject:
  assumes "distinct (non_null bs)" and "i < length bs" and "j < length bs" and "bs ! i = bs ! j"
    and "bs ! i \<noteq> 0"
  shows "i = j"
proof -
  have two: False if "i < j" "j < length bs" "bs ! i = bs ! j" "bs ! i \<noteq> 0" for i j
  proof -
    have "bs = take j bs @ drop j bs" by simp
    then have "count_list bs (bs ! i) = count_list (take j bs) (bs ! i) + count_list (drop j bs) (bs ! i)"
      by (metis count_list_append)
    moreover have "bs ! i \<in> set (take j bs)" using that by (auto simp: in_set_conv_nth)
    moreover have "bs ! j \<in> set (drop j bs)"
      using that(2) by (metis Cons_nth_drop_Suc list.set_intros(1))
    then have "bs ! i \<in> set (drop j bs)" using that(3) by simp
    ultimately have "0 < count_list (take j bs) (bs ! i)" "0 < count_list (drop j bs) (bs ! i)"
      "count_list bs (bs ! i) = count_list (take j bs) (bs ! i) + count_list (drop j bs) (bs ! i)"
      by (metis count_list_0_iff gr0I)+
    then have "2 \<le> count_list bs (bs ! i)" by linarith
    then show False using non_null_count [OF assms(1) that(4)] by (auto split: if_splits)
  qed
  show ?thesis
    using two [of i j] two [of j i] assms(2-5) by (metis linorder_neqE_nat)
qed

lemma cache_effect:
  assumes ok: "mgr_ok m p" and pok: "pool_ok p fl" and rid: "rid = request_id r"
    and run: "base_cache_blocks sha r num_tok m p = Inr (r', m', p')"
    and cach: "enable_caching p"
  shows "pool_ok p' fl \<and> step_ok m p m' p' \<and> (\<forall>x. blocks_of m' x = blocks_of m x) \<and> refs p' = refs p \<and>
     cached_count m' rid = max (cached_count m rid) (num_tok div mgr_block_size m) \<and>
     caches_only p (set (blocks_of m rid)) p' \<and> memo_only r r'"
proof -
  note f = mgr_ok_facts [OF ok]
  let ?bs = "blocks_of m rid" and ?c = "cached_count m rid" and ?n = "num_tok div mgr_block_size m"
  show ?thesis
  proof (cases "?c \<ge> ?n")
    case True
    then have "r' = r" "m' = m" "p' = p"
      using run rid f(2) by (auto simp: base_cache_blocks_def cached_count_def res_simps)
    then show ?thesis
      using True pok step_ok_refl [OF ok] pool_ok_facts(5) [OF pok] by (simp add: caches_only_def)
  next
    case False
    let ?m = "(touch_entry rid m)\<lparr>num_cached_block := (num_cached_block m)(rid := Some ?n)\<rparr>"
    have c: "cache_full_blocks sha p r ?bs ?c ?n (mgr_block_size m) (kv_cache_group_id m) = Inr (p', r')"
      and m': "m' = ?m"
      using run rid f(2) False by (auto simp: base_cache_blocks_def cached_count_def res_simps Let_def)
    have inb: "\<forall>b \<in> set ?bs. b < length (blocks p)" using f(4) by blast
    note eff = cache_full_blocks_effect [OF c pok inb f(6)]
    let ?new = "py_slice ?bs ?c ?n"
    have sl: "?new = drop (nat ?c) (take (nat ?n) ?bs)"
      using f(6) [of rid] False by (intro py_slice_nonneg) linarith+
    have sub: "set ?new \<subseteq> set ?bs" by (rule set_py_slice)
    have co: "caches_only p (set ?new) p'" "pool_ok p' fl" "memo_only r r'" using eff by blast+
    then have co': "caches_only p (set ?bs) p'" using sub by (auto simp: caches_only_def)
    have ps: "pool_step p ?bs ?bs p'"
      using caches_only_step [OF co' order_refl] cach by simp
    have cc: "cached_count ?m rid = ?n" by (simp add: cached_count_def)
    have ch: "changes m rid ?bs ?m"
      by (rule changes_cong [OF changes_set_blocks [OF f(1)]])
        (auto simp: touch_entry_def same_static_def)
    have "step_ok m p ?m p'"
    proof (rule step_okI [OF ok ch ps inb f(5)])
      show "0 \<le> cached_count ?m rid" using cc False f(6) [of rid] by simp
      show "private_tail p' (cached_count ?m rid) ?bs"
        unfolding private_tail_def cc
      proof (intro allI impI)
        fix i assume i: "i < length ?bs" "?n \<le> int i \<and> ?bs ! i \<noteq> 0"
        have "?bs ! i \<notin> set ?new"
        proof
          assume "?bs ! i \<in> set ?new"
          then obtain j where j: "j < length ?new" "?new ! j = ?bs ! i" by (auto simp: in_set_conv_nth)
          then have "nat ?c + j < length ?bs" "?bs ! (nat ?c + j) = ?bs ! i" "nat ?c + j < nat ?n"
            using nth_drop_take [of j "nat ?c" "nat ?n" ?bs] unfolding sl by simp_all
          with non_null_nth_inject [OF f(5) this(1) i(1) this(2)] i have "i < nat ?n" by auto
          then show False using i(2) by linarith
        qed
        then have "tags p' (?bs ! i) = tags p (?bs ! i)" using co(1) by (simp add: caches_only_def)
        moreover have "refs p' = refs p" using co(1) by (simp add: caches_only_def)
        ultimately show "tags p' (?bs ! i) = None \<and> refs p' (?bs ! i) = 1"
          using f(7) [of rid] i False by (auto simp: private_tail_def)
      qed
    qed
    moreover have "\<forall>x. blocks_of ?m x = blocks_of m x" using ch by (simp add: changes_def)
    ultimately show ?thesis
      using co co' m' cc False by (simp add: caches_only_def)
  qed
qed

text \<open>Caching a request's blocks never trips over a block that already has a hash.\<close>

lemma cache_total:
  assumes ok: "mgr_ok m p" and pok: "pool_ok p fl" and ev: "\<not> enable_kv_cache_events p"
    and hs: "hashes_at p r (mgr_block_size m) = Inr hs"
    and n: "num_tok div mgr_block_size m \<le> int (length hs)"
      "num_tok div mgr_block_size m \<le> int (length (block_hashes r))"
    and sz: "mgr_block_size m = hash_block_size p \<or>
      hash_block_size p \<noteq> 0 \<and> mgr_block_size m mod hash_block_size p = 0"
  shows "\<exists>m' p'. base_cache_blocks sha r num_tok m p = Inr (r, m', p')"
proof -
  note f = mgr_ok_facts [OF ok]
  let ?rid = "request_id r"
  let ?bs = "blocks_of m ?rid" and ?c = "cached_count m ?rid" and ?n = "num_tok div mgr_block_size m"
  show ?thesis
  proof (cases "?c \<ge> ?n")
    case True
    then show ?thesis using f(2) by (simp add: base_cache_blocks_def cached_count_def)
  next
    case False
    let ?new = "py_slice ?bs ?c ?n"
    have sl: "?new = drop (nat ?c) (take (nat ?n) ?bs)"
      using f(6) [of ?rid] False by (intro py_slice_nonneg) linarith+
    have "?bs = take (nat ?c) ?bs @ drop (nat ?c) (take (nat ?n) ?bs) @ drop (nat ?n) ?bs"
    proof -
      have "take (nat ?c) ?bs = take (nat ?c) (take (nat ?n) ?bs)" using False by (simp add: min_def)
      then show ?thesis by (metis append.assoc append_take_drop_id)
    qed
    then have "non_null ?bs = non_null (take (nat ?c) ?bs) @ non_null ?new @ non_null (drop (nat ?n) ?bs)"
      unfolding sl non_null_def by (metis filter_append)
    then have d: "distinct (filter (\<lambda>b. b \<noteq> 0) ?new)"
      using f(5) [of ?rid] by (simp add: non_null_def)
    have untag: "\<forall>b \<in> set ?new. b \<noteq> 0 \<longrightarrow> tags p b = None"
    proof (intro ballI impI)
      fix b assume b: "b \<in> set ?new" "b \<noteq> 0"
      then obtain j where "j < length ?new" "?new ! j = b" by (auto simp: in_set_conv_nth)
      then have "nat ?c + j < length ?bs" "?bs ! (nat ?c + j) = b"
        using nth_drop_take [of j "nat ?c" "nat ?n" ?bs] unfolding sl by simp_all
      then show "tags p b = None"
        using f(7) [of ?rid] f(6) [of ?rid] b(2) by (auto simp: private_tail_def)
    qed
    have inb: "\<forall>b \<in> set ?bs. b < length (blocks p)" using f(4) by blast
    have g: "0 \<le> kv_cache_group_id m" "kv_cache_group_id m < 2 ^ 32" using ok by (simp_all add: mgr_ok_def)
    obtain p' where "cache_full_blocks sha p r ?bs ?c ?n (mgr_block_size m) (kv_cache_group_id m) = Inr (p', r)"
      using cache_full_blocks_total [OF pok inb f(6) g hs n sz ev d untag] by blast
    then show ?thesis
      using f(2) False by (simp add: base_cache_blocks_def cached_count_def Let_def)
  qed
qed

end

