(* ===== verification/Cache_Hit.thy ===== *)
theory Cache_Hit
  imports KV_Manager
begin

text \<open>
  The lookup of the longest cached prefix of a request: the \<open>find_longest_cache_hit\<close> class methods
  of \<^verbatim>\<open>vllm/v1/core/single_type_kv_cache_manager.py\<close>, one per attention type. A result has one
  list of blocks per KV cache group; skipped blocks are the null block.
\<close>

section \<open>Shared loops\<close>

text \<open>\<open>for computed in computed_blocks: computed.pop()\<close>.\<close>

fun pop_all :: "nat list list \<Rightarrow> nat list list res" where
  "pop_all [] = Inr []"
| "pop_all (c # cs) =
     (if c = [] then Inl IndexError else res_bind (pop_all cs) (\<lambda>r. Inr (butlast c # r)))"

lemma pop_all_Inr:
  "pop_all cs = Inr ds \<longleftrightarrow> [] \<notin> set cs \<and> ds = map butlast cs"
  by (induction cs arbitrary: ds) (auto simp: res_simps)

text \<open>\<open>while block_size != alignment_tokens and len(computed_blocks[0]) * block_size % ..\<close>\<close>

function align_loop :: "int \<Rightarrow> int \<Rightarrow> nat list list \<Rightarrow> nat list list res" where
  "align_loop bs al cs =
     (if bs = al then Inr cs
      else (case cs of
              [] \<Rightarrow> Inl IndexError
            | c # _ \<Rightarrow>
                require (al \<noteq> 0) ZeroDivisionError
                  (if int (length c) * bs mod al = 0 then Inr cs
                   else (case pop_all cs of Inl e \<Rightarrow> Inl e | Inr ds \<Rightarrow> align_loop bs al ds))))"
  by pat_completeness auto
termination
  by (relation "measure (\<lambda>(bs, al, cs). length (hd cs))") (auto simp: pop_all_Inr res_simps split: if_splits)

declare align_loop.simps [simp del]

text \<open>\<open>for computed, cached in zip(computed_blocks, cached_block)\<close>, with the body as a function.\<close>

definition zip_update :: "(nat list \<Rightarrow> nat \<Rightarrow> nat list) \<Rightarrow> nat list list \<Rightarrow> nat list \<Rightarrow> nat list list"
  where "zip_update f cs bs = map2 f (take (length bs) cs) bs @ drop (length bs) cs"

text \<open>The walrus condition: a missing block and an empty list of groups are both falsy.\<close>

definition lookup_hit :: "block_pool \<Rightarrow> block_hash \<Rightarrow> int list \<Rightarrow> nat list option res" where
  "lookup_hit p h gids =
     res_bind (get_cached_block p h gids)
       (\<lambda>r. Inr (case r of Some (b # bs) \<Rightarrow> Some (b # bs) | _ \<Rightarrow> None))"

definition first_group :: "nat list list \<Rightarrow> nat list res" where
  "first_group cs = (case cs of [] \<Rightarrow> Inl IndexError | c # _ \<Rightarrow> Inr c)"

section \<open>Full attention\<close>

fun full_loop :: "block_pool \<Rightarrow> int list \<Rightarrow> block_hash list \<Rightarrow> nat list list \<Rightarrow> nat list list res" where
  "full_loop p gids [] cs = Inr cs"
| "full_loop p gids (h # hs) cs =
     res_bind (lookup_hit p h gids) (\<lambda>r. case r of
       None \<Rightarrow> Inr cs
     | Some bs \<Rightarrow> full_loop p gids hs (zip_update (\<lambda>c b. c @ [b]) cs bs))"

definition full_attention_hit ::
  "block_hash list \<Rightarrow> int \<Rightarrow> int list \<Rightarrow> block_pool \<Rightarrow> kv_cache_spec \<Rightarrow> bool \<Rightarrow> int \<Rightarrow> int \<Rightarrow> int \<Rightarrow>
   nat list list res" where
  "full_attention_hit hs max_len gids p spec eagle al dcp pcp =
     (let bs = (if dcp * pcp > 1 then spec_block_size spec * (dcp * pcp) else spec_block_size spec) in
      require (bs \<noteq> 0) ZeroDivisionError
        (let max_num_blocks = max_len div bs in
         require (0 \<le> max_num_blocks) ValueError
           (res_bind (full_loop p gids (take (nat max_num_blocks) hs) (map (\<lambda>_. []) gids)) (\<lambda>cs.
            res_bind (if eagle then res_bind (first_group cs)
                                      (\<lambda>c. if c \<noteq> [] then pop_all cs else Inr cs)
                      else Inr cs)
              (align_loop bs al)))))"

section \<open>Sliding window\<close>

text \<open>The loop over \<open>range(max_num_blocks - 1, -1, -1)\<close>; the flag is \<open>match_found\<close>.\<close>

fun window_loop ::
  "block_pool \<Rightarrow> block_hash list \<Rightarrow> int list \<Rightarrow> int \<Rightarrow> int \<Rightarrow> int \<Rightarrow> nat \<Rightarrow> nat list list \<Rightarrow> nat \<Rightarrow>
   (nat list list \<times> nat \<times> bool) res" where
  "window_loop p hs gids bs al need 0 cs n = Inr (cs, n, False)"
| "window_loop p hs gids bs al need (Suc i) cs n =
     res_bind (py_get hs (int i)) (\<lambda>h.
     res_bind (lookup_hit p h gids) (\<lambda>r. case r of
       None \<Rightarrow> window_loop p hs gids bs al need i cs 0
     | Some cached \<Rightarrow>
         if n = 0 \<and> bs \<noteq> al \<and> al = 0 then Inl ZeroDivisionError
         else if n = 0 \<and> bs \<noteq> al \<and> (int i + 1) * bs mod al \<noteq> 0 then
           window_loop p hs gids bs al need i cs n
         else
           (let cs' = zip_update (\<lambda>c b. c[i := b]) cs cached; n' = n + 1 in
            if int n' \<ge> need then Inr (map (take (i + n')) cs', n', True)
            else window_loop p hs gids bs al need i cs' n')))"

definition sliding_window_hit ::
  "block_hash list \<Rightarrow> int \<Rightarrow> int list \<Rightarrow> block_pool \<Rightarrow> kv_cache_spec \<Rightarrow> int \<Rightarrow> bool \<Rightarrow> int \<Rightarrow> int \<Rightarrow> int \<Rightarrow>
   nat list list res" where
  "sliding_window_hit hs max_len gids p spec window eagle al dcp pcp =
     require (dcp = 1) AssertionError (require (pcp = 1) AssertionError
     (let bs = spec_block_size spec in
      require (bs \<noteq> 0) ZeroDivisionError
        (let need = cdiv (window - 1) bs + (if eagle then 1 else 0);
             max_num_blocks = max_len div bs
         in res_bind (window_loop p hs gids bs al need (nat max_num_blocks)
                        (map (\<lambda>_. py_repeat (null_block p) max_num_blocks) gids) 0)
              (\<lambda>(cs, n, found).
            res_bind (if found then Inr cs else align_loop bs al (map (take n) cs)) (\<lambda>cs'.
            if eagle then
              res_bind (first_group cs') (\<lambda>c.
                if c \<noteq> [] then require (bs = al) AssertionError (pop_all cs') else Inr cs')
            else Inr cs')))))"

section \<open>Chunked local attention\<close>

fun chunk_loop ::
  "block_pool \<Rightarrow> block_hash list \<Rightarrow> int list \<Rightarrow> int list \<Rightarrow> nat list list \<Rightarrow> nat list list res" where
  "chunk_loop p hs gids [] cs = Inr cs"
| "chunk_loop p hs gids (i # is) cs =
     res_bind (py_get hs i) (\<lambda>h.
     res_bind (lookup_hit p h gids) (\<lambda>r. case r of
       None \<Rightarrow> Inr cs
     | Some bs \<Rightarrow> chunk_loop p hs gids is (zip_update (\<lambda>c b. c @ [b]) cs bs)))"

definition chunked_local_hit ::
  "block_hash list \<Rightarrow> int \<Rightarrow> int list \<Rightarrow> block_pool \<Rightarrow> kv_cache_spec \<Rightarrow> int \<Rightarrow> bool \<Rightarrow> int \<Rightarrow> int \<Rightarrow> int \<Rightarrow>
   nat list list res" where
  "chunked_local_hit hs max_len gids p spec chunk eagle al dcp pcp =
     require (\<not> eagle) AssertionError (require (dcp = 1) AssertionError
     (require (pcp = 1) AssertionError (require (spec_block_size spec = al) AssertionError
     (let bs = spec_block_size spec in
      require (bs \<noteq> 0) ZeroDivisionError (require (max_len > 0 \<longrightarrow> chunk \<noteq> 0) ZeroDivisionError
        (let max_num_blocks = max_len div bs;
             start = (if max_len > 0 then max_len div chunk * chunk else 0);
             start_block = start div bs
         in chunk_loop p hs gids [start_block..max_num_blocks - 1]
              (map (\<lambda>_. py_repeat (null_block p) start_block) gids)))))))"

section \<open>Mamba\<close>

fun mamba_loop ::
  "block_pool \<Rightarrow> block_hash list \<Rightarrow> int list \<Rightarrow> int \<Rightarrow> int \<Rightarrow> nat \<Rightarrow> nat list list \<Rightarrow> nat list list res" where
  "mamba_loop p hs gids bs al 0 cs = Inr cs"
| "mamba_loop p hs gids bs al (Suc i) cs =
     res_bind (py_get hs (int i)) (\<lambda>h.
     res_bind (lookup_hit p h gids) (\<lambda>r. case r of
       None \<Rightarrow> mamba_loop p hs gids bs al i cs
     | Some cached \<Rightarrow>
         if bs \<noteq> al \<and> al = 0 then Inl ZeroDivisionError
         else if bs \<noteq> al \<and> (int i + 1) * bs mod al \<noteq> 0 then mamba_loop p hs gids bs al i cs
         else Inr (zip_update (\<lambda>c b. c @ replicate i (null_block p) @ [b]) cs cached)))"

definition mamba_hit ::
  "block_hash list \<Rightarrow> int \<Rightarrow> int list \<Rightarrow> block_pool \<Rightarrow> kv_cache_spec \<Rightarrow> bool \<Rightarrow> int \<Rightarrow> int \<Rightarrow> int \<Rightarrow>
   nat list list res" where
  "mamba_hit hs max_len gids p spec eagle al dcp pcp =
     require (dcp = 1) AssertionError (require (pcp = 1) AssertionError
     (let bs = spec_block_size spec in
      require (bs \<noteq> 0) ZeroDivisionError
        (mamba_loop p hs gids bs al (nat (max_len div bs)) (map (\<lambda>_. []) gids))))"

section \<open>Dispatch\<close>

text \<open>
  \<open>manager_cls.find_longest_cache_hit\<close>: the class is that of the spec, so that the \<open>isinstance\<close>
  assertions of the methods hold.
\<close>

definition find_longest_cache_hit ::
  "block_hash list \<Rightarrow> int \<Rightarrow> int list \<Rightarrow> block_pool \<Rightarrow> kv_cache_spec \<Rightarrow> bool \<Rightarrow> int \<Rightarrow> int \<Rightarrow> int \<Rightarrow>
   nat list list res" where
  "find_longest_cache_hit hs max_len gids p spec eagle al dcp pcp =
     (case spec_kind spec of
        SlidingWindow w \<Rightarrow> sliding_window_hit hs max_len gids p spec w eagle al dcp pcp
      | ChunkedLocalAttention c \<Rightarrow> chunked_local_hit hs max_len gids p spec c eagle al dcp pcp
      | Mamba _ _ \<Rightarrow> mamba_hit hs max_len gids p spec eagle al dcp pcp
      | CrossAttention \<Rightarrow> Inl NotImplementedError
      | _ \<Rightarrow> full_attention_hit hs max_len gids p spec eagle al dcp pcp)"

section \<open>Columns of cached blocks\<close>

definition has_key :: "block_pool \<Rightarrow> block_hash \<Rightarrow> int \<Rightarrow> nat \<Rightarrow> bool" where
  "has_key p h g b \<longleftrightarrow> (\<exists>key. make_block_hash_with_group_id h g = Inr key \<and> tags p b = Some key)"

text \<open>
  \<open>columns p hs gids cs len I\<close>: every group has \<open>len\<close> blocks; a block that is not null carries the
  key of its position and group; the blocks at the positions in \<open>I\<close> are not null.
\<close>

definition columns ::
  "block_pool \<Rightarrow> block_hash list \<Rightarrow> int list \<Rightarrow> nat list list \<Rightarrow> nat \<Rightarrow> nat set \<Rightarrow> bool" where
  "columns p hs gids cs len I \<longleftrightarrow>
     length cs = length gids \<and>
     (\<forall>j < length gids. length (cs ! j) = len \<and>
        (\<forall>i < len. (cs ! j ! i = null_block p \<or> has_key p (hs ! i) (gids ! j) (cs ! j ! i)) \<and>
                   (i \<in> I \<longrightarrow> cs ! j ! i \<noteq> null_block p)))"

lemma columns_mono: "columns p hs gids cs len I \<Longrightarrow> J \<subseteq> I \<Longrightarrow> columns p hs gids cs len J"
  unfolding columns_def by blast

lemma columns_start: "columns p hs gids (map (\<lambda>_. []) gids) 0 I"
  by (simp add: columns_def)

lemma columns_null: "columns p hs gids (map (\<lambda>_. py_repeat (null_block p) k) gids) (nat k) {}"
  by (simp add: columns_def py_repeat_def)

lemma columns_take:
  "columns p hs gids cs len I \<Longrightarrow> n \<le> len \<Longrightarrow> columns p hs gids (map (take n) cs) n I"
  by (auto simp: columns_def)

lemma columns_pop:
  assumes "columns p hs gids cs len I" and "pop_all cs = Inr ds" and "gids \<noteq> []"
  shows "0 < len \<and> columns p hs gids ds (len - 1) I"
proof -
  have ne: "[] \<notin> set cs" and ds: "ds = map butlast cs" using assms(2) by (simp_all add: pop_all_Inr)
  have "cs ! 0 \<in> set cs" and l0: "length (cs ! 0) = len" using assms(1,3) by (auto simp: columns_def)
  then have "cs ! 0 \<noteq> []" using ne by metis
  then have "0 < len" using l0 by (cases len) auto
  moreover have "ds = map (take (len - 1)) cs"
    unfolding ds using assms(1)
    by (intro map_cong refl) (auto simp: columns_def in_set_conv_nth butlast_conv_take)
  ultimately show ?thesis using columns_take [OF assms(1), of "len - 1"] by simp
qed

lemma columns_pop_total:
  assumes "columns p hs gids cs len I" and "0 < len"
  shows "\<exists>ds. pop_all cs = Inr ds"
  using assms by (auto simp: pop_all_Inr columns_def in_set_conv_nth)

lemma length_zip_update [simp]: "length (zip_update f cs bs) = length cs"
  by (simp add: zip_update_def)

lemma nth_zip_update:
  "length bs = length cs \<Longrightarrow> j < length cs \<Longrightarrow> zip_update f cs bs ! j = f (cs ! j) (bs ! j)"
  by (simp add: zip_update_def)

lemma columns_zip_update:
  assumes "columns p hs gids cs len I" and "length bs = length gids"
    and "\<forall>j < length gids. has_key p (hs ! i) (gids ! j) (bs ! j) \<and> bs ! j \<noteq> null_block p"
    and "\<And>c b. length c = len \<Longrightarrow> length (f c b) = len' \<and> f c b ! i = b \<and>
           (\<forall>k < len'. k \<noteq> i \<longrightarrow> (if k < len then f c b ! k = c ! k
                                  else f c b ! k = null_block p \<and> k \<notin> I))"
  shows "columns p hs gids (zip_update f cs bs) len' (insert i I)"
proof -
  have len: "length cs = length gids" using assms(1) by (simp add: columns_def)
  have "length (zip_update f cs bs ! j) = len' \<and>
     (\<forall>k < len'. (zip_update f cs bs ! j ! k = null_block p \<or>
                  has_key p (hs ! k) (gids ! j) (zip_update f cs bs ! j ! k)) \<and>
        (k \<in> insert i I \<longrightarrow> zip_update f cs bs ! j ! k \<noteq> null_block p))"
    if j: "j < length gids" for j
  proof -
    have c: "length (cs ! j) = len" using assms(1) j by (simp add: columns_def)
    have z: "zip_update f cs bs ! j = f (cs ! j) (bs ! j)"
      using nth_zip_update [of bs cs j f] assms(2) len j by simp
    note f = assms(4) [OF c, of "bs ! j"]
    show ?thesis
    proof (intro conjI allI impI)
      show "length (zip_update f cs bs ! j) = len'" using z f by simp
      fix k assume k: "k < len'"
      show "zip_update f cs bs ! j ! k = null_block p \<or>
          has_key p (hs ! k) (gids ! j) (zip_update f cs bs ! j ! k)"
        using z f k assms(1,3) j by (cases "k = i"; cases "k < len") (auto simp: columns_def)
      show "zip_update f cs bs ! j ! k \<noteq> null_block p" if "k \<in> insert i I"
        using z f k assms(1,3) j that by (cases "k = i"; cases "k < len") (auto simp: columns_def)
    qed
  qed
  then show ?thesis using len by (simp add: columns_def)
qed

lemma lookup_hit_effect:
  assumes ag: "bm.agrees (tags p) (cached_block_hash_to_block p)" and null: "tags p (null_block p) = None"
    and gs: "\<forall>g \<in> set gids. 0 \<le> g \<and> g < 2 ^ 32" and ne: "gids \<noteq> []"
  shows "\<exists>res. lookup_hit p h gids = Inr res \<and>
    (\<forall>bs. res = Some bs \<longrightarrow> length bs = length gids \<and>
       (\<forall>j < length gids. has_key p h (gids ! j) (bs ! j) \<and> bs ! j \<noteq> null_block p)) \<and>
    (res = None \<longrightarrow> (\<exists>g \<in> set gids. \<forall>b. \<not> has_key p h g b))"
proof -
  obtain r where r: "get_cached_block p h gids = Inr r"
    "\<forall>bs. r = Some bs \<longrightarrow> list_all2 (has_key p h) gids bs"
    "r = None \<longrightarrow> (\<exists>g \<in> set gids. \<forall>b. \<not> has_key p h g b)"
  proof -
    have hk: "has_key p h = (\<lambda>g b. \<exists>key. make_block_hash_with_group_id h g = Inr key \<and>
        tags p b = Some key)" by (intro ext) (simp add: has_key_def)
    obtain r where r: "get_cached_block p h gids = Inr r"
      "\<forall>bs. r = Some bs \<longrightarrow> list_all2 (has_key p h) gids bs"
      "r = None \<longrightarrow> (\<exists>g \<in> set gids. \<exists>key. make_block_hash_with_group_id h g = Inr key \<and>
        (\<forall>b. tags p b \<noteq> Some key))"
      using get_cached_block_effect [OF ag gs, of h] unfolding hk by blast
    have "r = None \<longrightarrow> (\<exists>g \<in> set gids. \<forall>b. \<not> has_key p h g b)"
      using r(3) by (force simp: has_key_def)
    with r(1,2) show thesis using that by blast
  qed
  have nn: "b \<noteq> null_block p" if "has_key p h g b" for g b
    using that null by (auto simp: has_key_def)
  show ?thesis
  proof (cases r)
    case None
    then show ?thesis using r by (auto simp: lookup_hit_def)
  next
    case (Some bs)
    have l2: "list_all2 (has_key p h) gids bs" using r(2) Some by blast
    then obtain b bs' where bs: "bs = b # bs'" using ne by (cases bs) auto
    have "\<forall>j < length gids. has_key p h (gids ! j) (bs ! j)" using l2 by (simp add: list_all2_conv_all_nth)
    then show ?thesis
      using Some bs l2 r(1) nn by (auto simp: lookup_hit_def dest: list_all2_lengthD)
  qed
qed

lemma columns_hit_append:
  assumes "columns p hs gids cs len {0..<len}" and "length bs = length gids"
    and "\<forall>j < length gids. has_key p (hs ! len) (gids ! j) (bs ! j) \<and> bs ! j \<noteq> null_block p"
  shows "columns p hs gids (zip_update (\<lambda>c b. c @ [b]) cs bs) (Suc len) {0..<Suc len}"
  using columns_zip_update [OF assms, of "\<lambda>c b. c @ [b]" "Suc len"]
  by (simp add: nth_append less_Suc_eq atLeast0_lessThan_Suc)

lemma align_loop_effect:
  assumes "align_loop bs al cs = Inr ds" and "columns p hs gids cs len I" and "gids \<noteq> []"
    and "bs = al \<longrightarrow> int len * bs mod al = 0"
  shows "\<exists>k \<le> len. columns p hs gids ds k I \<and> int k * bs mod al = 0 \<and> (bs = al \<longrightarrow> k = len)"
  using assms
proof (induction bs al cs arbitrary: len rule: align_loop.induct)
  case (1 bs al cs)
  show ?case
  proof (cases "bs = al")
    case True
    then show ?thesis using "1.prems" by (auto simp: align_loop.simps)
  next
    case False
    obtain c cs' where cs: "cs = c # cs'"
      using "1.prems"(2,3) by (cases cs) (auto simp: columns_def)
    have len: "length c = len" using "1.prems"(2,3) cs by (auto simp: columns_def)
    show ?thesis
    proof (cases "int (length c) * bs mod al = 0")
      case True
      then have "ds = cs"
        using "1.prems"(1) False unfolding cs
        by (auto simp: align_loop.simps [of bs al "c # cs'"] res_simps)
      then show ?thesis using "1.prems"(2) True False len by auto
    next
      case nz: False
      obtain ds' where ds': "pop_all cs = Inr ds'" "align_loop bs al ds' = Inr ds" "al \<noteq> 0"
        using "1.prems"(1) False nz unfolding cs
        by (auto simp: align_loop.simps [of bs al "c # cs'"] res_simps split: sum.splits)
      have "\<exists>k \<le> len - 1. columns p hs gids ds k I \<and> int k * bs mod al = 0 \<and> (bs = al \<longrightarrow> k = len - 1)"
        if pop: "0 < len \<and> columns p hs gids ds' (len - 1) I"
      proof (rule "1.IH" [of c cs' ds'])
        show "bs \<noteq> al" "cs = c # cs'" "int (length c) * bs mod al \<noteq> 0" "pop_all cs = Inr ds'"
          "align_loop bs al ds' = Inr ds" "columns p hs gids ds' (len - 1) I" "gids \<noteq> []"
          using False cs nz ds' pop "1.prems"(3) by simp_all
        show "bs = al \<longrightarrow> int (len - 1) * bs mod al = 0" using False by simp
      qed
      from this [OF columns_pop [OF "1.prems"(2) ds'(1) "1.prems"(3)]] obtain k where
        "k \<le> len - 1" "columns p hs gids ds k I" "int k * bs mod al = 0"
        by (elim exE conjE) (rule that)
      then show ?thesis using False by (intro exI [of _ k]) simp
    qed
  qed
qed

section \<open>What a hit guarantees\<close>

definition lookup_ok :: "block_pool \<Rightarrow> int list \<Rightarrow> bool" where
  "lookup_ok p gids \<longleftrightarrow>
     bm.agrees (tags p) (cached_block_hash_to_block p) \<and> tags p (null_block p) = None \<and>
     (\<forall>g \<in> set gids. 0 \<le> g \<and> g < 2 ^ 32) \<and> gids \<noteq> []"

lemma lookup_ok_ne: "lookup_ok p gids \<Longrightarrow> gids \<noteq> []"
  by (simp add: lookup_ok_def)

lemma lookup_hit_ok:
  assumes "lookup_ok p gids"
  shows "\<exists>res. lookup_hit p h gids = Inr res \<and>
    (\<forall>bs. res = Some bs \<longrightarrow> length bs = length gids \<and>
       (\<forall>j < length gids. has_key p h (gids ! j) (bs ! j) \<and> bs ! j \<noteq> null_block p)) \<and>
    (res = None \<longrightarrow> (\<exists>g \<in> set gids. \<forall>b. \<not> has_key p h g b))"
  using assms unfolding lookup_ok_def by (intro lookup_hit_effect) blast+

lemma hit_Some:
  assumes "lookup_ok p gids" and "lookup_hit p h gids = Inr (Some bs)"
  shows "length bs = length gids"
    and "\<forall>j < length gids. has_key p h (gids ! j) (bs ! j) \<and> bs ! j \<noteq> null_block p"
  using lookup_hit_ok [OF assms(1), of h] assms(2) by auto

lemma full_loop_effect:
  assumes lk: "lookup_ok p gids" and "columns p hs gids cs len {0..<len}" and "len \<le> length hs"
  shows "\<exists>ds k. full_loop p gids (drop len hs) cs = Inr ds \<and> columns p hs gids ds k {0..<k} \<and>
     len \<le> k \<and> k \<le> length hs \<and>
     (k < length hs \<longrightarrow> (\<exists>g \<in> set gids. \<forall>b. \<not> has_key p (hs ! k) g b))"
  using assms(2-)
proof (induction "length hs - len" arbitrary: cs len)
  case 0
  then show ?case by auto
next
  case (Suc n)
  then have lt: "len < length hs" by simp
  then have dr: "drop len hs = hs ! len # drop (Suc len) hs" by (rule Cons_nth_drop_Suc [symmetric])
  obtain res where res: "lookup_hit p (hs ! len) gids = Inr res" using lookup_hit_ok [OF lk] by blast
  show ?case
  proof (cases res)
    case None
    then have "full_loop p gids (drop len hs) cs = Inr cs" using dr res by simp
    moreover have "\<exists>g \<in> set gids. \<forall>b. \<not> has_key p (hs ! len) g b"
      using lookup_hit_ok [OF lk, of "hs ! len"] res None by auto
    ultimately show ?thesis using Suc.prems(1) lt
      by (intro exI [of _ cs] exI [of _ len]) simp
  next
    case (Some bs)
    note col = columns_hit_append [OF Suc.prems(1) hit_Some [OF lk res [unfolded Some]]]
    have "n = length hs - Suc len" using Suc.hyps(2) by simp
    from Suc.hyps(1) [OF this col] lt obtain ds k where
      "full_loop p gids (drop (Suc len) hs) (zip_update (\<lambda>c b. c @ [b]) cs bs) = Inr ds"
      "columns p hs gids ds k {0..<k}" "Suc len \<le> k" "k \<le> length hs"
      "k < length hs \<longrightarrow> (\<exists>g \<in> set gids. \<forall>b. \<not> has_key p (hs ! k) g b)"
      by auto
    then show ?thesis using dr res Some by (intro exI [of _ ds] exI [of _ k]) simp
  qed
qed

lemma window_loop_effect:
  assumes lk: "lookup_ok p gids"
    and "window_loop p hs gids bs al need i cs n = Inr (ds, n', found)"
    and "columns p hs gids cs M {i..<i + n}" and "i + n \<le> M"
    and "n = 0 \<or> int (i + n) * bs mod al = 0" and "al \<noteq> 0"
  shows "(if found then \<exists>k \<le> M. columns p hs gids ds k {k - n'..<k} \<and> need \<le> int n' \<and> n' \<le> k \<and>
                          int k * bs mod al = 0
          else columns p hs gids ds M {0..<n'} \<and> n' \<le> M \<and> (n' = 0 \<or> int n' * bs mod al = 0))"
  using assms(2-)
proof (induction i arbitrary: cs n)
  case 0
  then show ?case by simp
next
  case (Suc i)
  obtain h res where h: "py_get hs (int i) = Inr h" "lookup_hit p h gids = Inr res"
    using Suc.prems(1) by (auto simp: res_simps)
  have hh: "h = hs ! i" using h(1) by (simp split: if_splits)
  show ?case
  proof (cases res)
    case None
    have run: "window_loop p hs gids bs al need i cs 0 = Inr (ds, n', found)"
      using Suc.prems(1) h None by simp
    have "columns p hs gids cs M {i..<i + 0}" by (rule columns_mono [OF Suc.prems(2)]) simp
    from Suc.IH [OF run this] Suc.prems(3,5) show ?thesis by simp
  next
    case (Some cached)
    show ?thesis
    proof (cases "n = 0 \<and> bs \<noteq> al \<and> (int i + 1) * bs mod al \<noteq> 0")
      case True
      have run: "window_loop p hs gids bs al need i cs 0 = Inr (ds, n', found)"
        using Suc.prems(1,5) h Some True by simp
      have "columns p hs gids cs M {i..<i + 0}" by (rule columns_mono [OF Suc.prems(2)]) simp
      from Suc.IH [OF run this] Suc.prems(3,5) show ?thesis by simp
    next
      case False
      let ?cs = "zip_update (\<lambda>c b. c[i := b]) cs cached"
      note hs = hit_Some [OF lk h(2) [unfolded Some], unfolded hh]
      have "columns p hs gids ?cs M (insert i {Suc i..<Suc i + n})"
        using Suc.prems(3)
        by (intro columns_zip_update [OF Suc.prems(2) hs]) (auto simp: nth_list_update)
      then have col: "columns p hs gids ?cs M {i..<i + (n + 1)}"
        by (rule columns_mono) auto
      have al: "int (i + (n + 1)) * bs mod al = 0"
        using Suc.prems(4) False by (cases "n = 0") (auto simp: algebra_simps)
      have le: "i + (n + 1) \<le> M" using Suc.prems(3) by simp
      show ?thesis
      proof (cases "int (n + 1) \<ge> need")
        case True
        then have "ds = map (take (i + (n + 1))) ?cs" "n' = n + 1" "found"
          using Suc.prems(1,5) h Some False by (auto simp: Let_def split: if_splits)
        moreover have "columns p hs gids (map (take (i + (n + 1))) ?cs) (i + (n + 1)) {i..<i + (n + 1)}"
          by (rule columns_take [OF col le])
        ultimately show ?thesis using True le al by (auto intro!: exI [of _ "i + (n + 1)"])
      next
        case nf: False
        have run: "window_loop p hs gids bs al need i ?cs (n + 1) = Inr (ds, n', found)"
          using Suc.prems(1,5) h Some False nf by (auto simp: Let_def split: if_splits)
        show ?thesis using Suc.IH [OF run col le _ Suc.prems(5)] al by simp
      qed
    qed
  qed
qed

lemma chunk_loop_effect:
  assumes lk: "lookup_ok p gids"
    and "chunk_loop p hs gids [int len..M - 1] cs = Inr ds"
    and "columns p hs gids cs len {s..<len}" and "int len \<le> M \<or> len = s" and "s \<le> len"
  shows "\<exists>k \<ge> len. columns p hs gids ds k {s..<k} \<and> (int k \<le> M \<or> k = s)"
  using assms(2-)
proof (induction "nat (M - int len)" arbitrary: len cs)
  case 0
  then have "[int len..M - 1] = []" by simp
  then show ?case using 0 by auto
next
  case (Suc n)
  then have lt: "int len < M" by simp
  then have up: "[int len..M - 1] = int len # [int (Suc len)..M - 1]"
    by (simp add: upto_rec1 add.commute)
  obtain h res where h: "py_get hs (int len) = Inr h" "lookup_hit p h gids = Inr res"
    using Suc.prems(1) unfolding up by (auto simp: res_simps)
  have hh: "h = hs ! len" using h(1) by (simp split: if_splits)
  show ?case
  proof (cases res)
    case None
    then have "ds = cs" using Suc.prems(1) h unfolding up by simp
    then show ?thesis using Suc.prems by auto
  next
    case (Some bs)
    note hs = hit_Some [OF lk h(2) [unfolded Some], unfolded hh]
    let ?cs = "zip_update (\<lambda>c b. c @ [b]) cs bs"
    have "columns p hs gids ?cs (Suc len) (insert len {s..<len})"
      by (rule columns_zip_update [OF Suc.prems(2) hs]) (auto simp: nth_append less_Suc_eq)
    then have col: "columns p hs gids ?cs (Suc len) {s..<Suc len}"
      by (rule columns_mono) (use Suc.prems(4) in auto)
    have run: "chunk_loop p hs gids [int (Suc len)..M - 1] ?cs = Inr ds"
      using Suc.prems(1) h Some unfolding up by simp
    have "n = nat (M - int (Suc len))" using Suc.hyps(2) by simp
    from Suc.hyps(1) [OF this run col] lt Suc.prems(4) obtain k where
      "Suc len \<le> k" "columns p hs gids ds k {s..<k}" "int k \<le> M \<or> k = s" by auto
    then show ?thesis by (intro exI [of _ k]) simp
  qed
qed

lemma mamba_loop_effect:
  assumes lk: "lookup_ok p gids"
    and "mamba_loop p hs gids bs al i (map (\<lambda>_. []) gids) = Inr ds" and "al \<noteq> 0"
  shows "\<exists>k \<le> i. columns p hs gids ds k {k - 1..<k} \<and> int k * bs mod al = 0"
  using assms(2-)
proof (induction i)
  case 0
  then show ?case by (auto simp: columns_def)
next
  case (Suc i)
  obtain h res where h: "py_get hs (int i) = Inr h" "lookup_hit p h gids = Inr res"
    using Suc.prems(1) by (auto simp: res_simps)
  have hh: "h = hs ! i" using h(1) by (simp split: if_splits)
  show ?case
  proof (cases "\<exists>cached. res = Some cached \<and> (bs = al \<or> (int i + 1) * bs mod al = 0)")
    case False
    have "mamba_loop p hs gids bs al i (map (\<lambda>_. []) gids) = Inr ds"
    proof (cases res)
      case None
      then show ?thesis using Suc.prems(1) h by simp
    next
      case (Some cached)
      then have c: "\<not> (bs \<noteq> al \<and> al = 0)" "bs \<noteq> al \<and> (int i + 1) * bs mod al \<noteq> 0"
        using False Suc.prems(2) by auto
      show ?thesis
        using Suc.prems(1) unfolding mamba_loop.simps h(1) res_bind_Inr h(2) Some option.case
          if_not_P [OF c(1)] if_P [OF c(2)] .
    qed
    from Suc.IH [OF this Suc.prems(2)] obtain k where
      "k \<le> i" "columns p hs gids ds k {k - 1..<k}" "int k * bs mod al = 0"
      by (elim exE conjE) (rule that)
    then show ?thesis by (intro exI [of _ k]) simp
  next
    case True
    then obtain cached where c: "res = Some cached" "bs = al \<or> (int i + 1) * bs mod al = 0"
      by (elim exE conjE) (rule that)
    have e: "int (Suc i) = int i + 1" by simp
    have al: "int (Suc i) * bs mod al = 0" unfolding e using c(2) by (elim disjE) simp_all
    have ds: "ds = zip_update (\<lambda>c b. c @ replicate i (null_block p) @ [b]) (map (\<lambda>_. []) gids) cached"
    proof -
      have n: "\<not> (bs \<noteq> al \<and> al = 0)" "\<not> (bs \<noteq> al \<and> (int i + 1) * bs mod al \<noteq> 0)"
        using c(2) Suc.prems(2) by auto
      show ?thesis
        using Suc.prems(1) unfolding mamba_loop.simps h(1) res_bind_Inr h(2) c(1) option.case
          if_not_P [OF n(1)] if_not_P [OF n(2)] by simp
    qed
    note hs = hit_Some [OF lk h(2) [unfolded c(1)], unfolded hh]
    have "columns p hs gids ds (Suc i) (insert i {})"
      unfolding ds
      by (rule columns_zip_update [OF columns_start hs]) (auto simp: nth_append)
    then have "columns p hs gids ds (Suc i) {Suc i - 1..<Suc i}" by (rule columns_mono) auto
    then show ?thesis using al by (intro exI [of _ "Suc i"] conjI order_refl)
  qed
qed

text \<open>
  The contract of a lookup result: equally long columns within the maximal length, aligned, and
  with a real block at every position that the next token's attention still reads.
\<close>

definition hit_ok ::
  "block_pool \<Rightarrow> int list \<Rightarrow> block_hash list \<Rightarrow> spec_kind \<Rightarrow> int \<Rightarrow> int \<Rightarrow> int \<Rightarrow> nat list list \<Rightarrow> nat \<Rightarrow> bool" where
  "hit_ok p gids hs kind bs al max_len cs k \<longleftrightarrow>
     columns p hs gids cs k {i. skipped_tokens kind (int k * bs) div bs \<le> int i} \<and>
     int k * bs \<le> max 0 max_len \<and> int k * bs mod al = 0"

lemma full_attention_hit_ok:
  assumes lk: "lookup_ok p gids"
    and run: "full_attention_hit hs max_len gids p spec eagle al dcp pcp = Inr cs"
    and bs: "bs = (if dcp * pcp > 1 then spec_block_size spec * (dcp * pcp) else spec_block_size spec)"
      "0 < bs" and kind: "\<And>n. skipped_tokens kind n = 0"
  shows "\<exists>k. hit_ok p gids hs kind bs al max_len cs k"
proof -
  let ?n = "nat (max_len div bs)"
  obtain cs1 cs2 where run1: "full_loop p gids (take ?n hs) (map (\<lambda>_. []) gids) = Inr cs1"
    and run2: "(if eagle then res_bind (first_group cs1) (\<lambda>c. if c \<noteq> [] then pop_all cs1 else Inr cs1)
                else Inr cs1) = Inr cs2"
    and run3: "align_loop bs al cs2 = Inr cs" and nn: "0 \<le> max_len div bs"
    using run unfolding full_attention_hit_def Let_def bs(1) [symmetric] by (auto simp: res_simps)
  obtain ds k1 where k1: "full_loop p gids (drop 0 (take ?n hs)) (map (\<lambda>_. []) gids) = Inr ds"
    "columns p (take ?n hs) gids ds k1 {0..<k1}" "k1 \<le> length (take ?n hs)"
    using full_loop_effect [OF lk, of "take ?n hs" _ 0, OF columns_start] by auto
  have c1: "columns p hs gids cs1 k1 {0..<k1}"
    using k1 run1 by (auto simp: columns_def)
  obtain k2 where k2: "k2 \<le> k1" "columns p hs gids cs2 k2 {0..<k1}"
  proof (cases "eagle \<and> cs2 \<noteq> cs1")
    case True
    then have "pop_all cs1 = Inr cs2" using run2 by (auto simp: res_simps split: if_splits)
    from columns_pop [OF c1 this lookup_ok_ne [OF lk]] show ?thesis by (intro that [of "k1 - 1"]) auto
  next
    case False
    then have "cs2 = cs1" using run2 by (auto split: if_splits)
    then show ?thesis using c1 that [of k1] by simp
  qed
  have "bs = al \<longrightarrow> int k2 * bs mod al = 0" by simp
  from align_loop_effect [OF run3 k2(2) lookup_ok_ne [OF lk] this] obtain k where
    k: "k \<le> k2" "columns p hs gids cs k {0..<k1}" "int k * bs mod al = 0"
    by (elim exE conjE) (rule that)
  have "columns p hs gids cs k {i. skipped_tokens kind (int k * bs) div bs \<le> int i}"
    using k(1,2) k2(1) by (auto simp: columns_def kind)
  moreover have "int k \<le> max_len div bs" using k(1) k2(1) k1(3) nn by (simp add: min_def split: if_splits)
  then have "int k * bs \<le> max_len" by (simp add: int_le_div_iff [OF bs(2)])
  ultimately show ?thesis using k(3) unfolding hit_ok_def by (intro exI [of _ k]) simp
qed

lemma window_reaches:
  assumes "0 < bs" and "cdiv (w - 1) bs \<le> int n" and "1 \<le> w"
  shows "int k - int n \<le> skipped_tokens (SlidingWindow w) (int k * bs) div bs"
proof -
  have "w - 1 \<le> int n * bs" using assms(2) by (simp add: cdiv_least [OF assms(1)])
  then have "(int k - int n) * bs \<le> int k * bs - w + 1" by (simp add: algebra_simps)
  then have "int k - int n \<le> (int k * bs - w + 1) div bs" by (simp add: int_le_div_iff [OF assms(1)])
  also have "\<dots> \<le> skipped_tokens (SlidingWindow w) (int k * bs) div bs"
    using assms(1) by (simp add: skipped_tokens_def zdiv_mono1)
  finally show ?thesis .
qed

lemma sliding_window_hit_ok:
  assumes lk: "lookup_ok p gids"
    and run: "sliding_window_hit hs max_len gids p spec w eagle al dcp pcp = Inr cs"
    and bs: "0 < spec_block_size spec" and w: "1 \<le> w" and al: "al \<noteq> 0"
  shows "\<exists>k. hit_ok p gids hs (SlidingWindow w) (spec_block_size spec) al max_len cs k"
proof -
  let ?bs = "spec_block_size spec"
  let ?need = "cdiv (w - 1) ?bs + (if eagle then 1 else 0)"
  let ?M = "max_len div ?bs"
  obtain cs1 n found cs2 where
    loop: "window_loop p hs gids ?bs al ?need (nat ?M)
        (map (\<lambda>_. py_repeat (null_block p) ?M) gids) 0 = Inr (cs1, n, found)"
    and trim: "(if found then Inr cs1 else align_loop ?bs al (map (take n) cs1)) = Inr cs2"
    and last: "(if eagle then res_bind (first_group cs2) (\<lambda>c. if c \<noteq> []
        then require (?bs = al) AssertionError (pop_all cs2) else Inr cs2) else Inr cs2) = Inr cs"
    using run unfolding sliding_window_hit_def Let_def by (auto simp: res_simps)
  have "columns p hs gids (map (\<lambda>_. py_repeat (null_block p) ?M) gids) (nat ?M) {nat ?M..<nat ?M + 0}"
    by (rule columns_mono [OF columns_null]) simp
  note eff = window_loop_effect [OF lk loop this _ _ al, simplified]
  obtain k2 lo where k2: "columns p hs gids cs2 k2 {lo..<k2}" "k2 \<le> nat ?M"
    "int k2 * ?bs mod al = 0" "lo = 0 \<or> cdiv (w - 1) ?bs \<le> int k2 - int lo - (if eagle then 1 else 0)"
  proof (cases found)
    case True
    with eff obtain k where k: "k \<le> nat ?M" "columns p hs gids cs1 k {k - n..<k}"
      "?need \<le> int n" "n \<le> k" "int k * ?bs mod al = 0" by auto
    then show ?thesis using that [of k "k - n"] True trim by (auto split: if_splits)
  next
    case False
    with eff have n: "columns p hs gids cs1 (nat ?M) {0..<n}" "n \<le> nat ?M" by auto
    have c: "columns p hs gids (map (take n) cs1) n {0..<n}" by (rule columns_take [OF n])
    have run: "align_loop ?bs al (map (take n) cs1) = Inr cs2" using trim False by simp
    have "?bs = al \<longrightarrow> int n * ?bs mod al = 0" by simp
    from align_loop_effect [OF run c lookup_ok_ne [OF lk] this] obtain k where
      k: "k \<le> n" "columns p hs gids cs2 k {0..<n}" "int k * ?bs mod al = 0"
      by (elim exE conjE) (rule that)
    have "columns p hs gids cs2 k {0..<k}" by (rule columns_mono [OF k(2)]) (use k(1) in auto)
    then show ?thesis using that [of k 0] k n(2) by simp
  qed
  obtain k where k: "columns p hs gids cs k {lo..<k2}" "k \<le> k2" "int k * ?bs mod al = 0"
    "lo = 0 \<or> cdiv (w - 1) ?bs \<le> int k - int lo"
  proof (cases "eagle \<and> cs \<noteq> cs2")
    case True
    then have pop: "pop_all cs2 = Inr cs" "?bs = al"
      using last by (auto simp: res_simps split: if_splits)
    note c = columns_pop [OF k2(1) pop(1) lookup_ok_ne [OF lk]]
    show ?thesis using that [of "k2 - 1"] c pop(2) k2(4) True by (auto simp: of_nat_diff)
  next
    case False
    then have "cs = cs2" using last by (auto split: if_splits)
    then show ?thesis using that [of k2] k2 by (auto split: if_splits)
  qed
  have "columns p hs gids cs k {i. skipped_tokens (SlidingWindow w) (int k * ?bs) div ?bs \<le> int i}"
  proof -
    have "lo \<le> i" if i: "skipped_tokens (SlidingWindow w) (int k * ?bs) div ?bs \<le> int i" "i < k" for i
    proof (cases "lo = 0")
      case False
      then have need: "cdiv (w - 1) ?bs \<le> int (k - lo)"
        using k(4) cdiv_nonneg [OF bs, of "w - 1"] w by (simp add: of_nat_diff)
      have "int k - int (k - lo) \<le> int i"
        using window_reaches [OF bs need w, of k] i(1) by linarith
      then show ?thesis using need cdiv_nonneg [OF bs, of "w - 1"] w k(4) False by linarith
    qed simp
    then show ?thesis using k(1,2) unfolding columns_def
      by (metis (mono_tags, lifting) atLeastLessThan_iff less_le_trans mem_Collect_eq)
  qed
  moreover have "int k * ?bs \<le> max 0 max_len"
  proof (cases "?M \<ge> 0")
    case True
    then have "int k \<le> ?M" using k(2) k2(2) by linarith
    then show ?thesis by (simp add: int_le_div_iff [OF bs])
  next
    case False
    then have "k = 0" using k(2) k2(2) by simp
    then show ?thesis by simp
  qed
  ultimately show ?thesis using k(3) unfolding hit_ok_def by (intro exI [of _ k]) simp
qed

lemma chunked_local_hit_ok:
  assumes lk: "lookup_ok p gids"
    and run: "chunked_local_hit hs max_len gids p spec c eagle al dcp pcp = Inr cs"
    and bs: "0 < spec_block_size spec" and c: "0 < c" "spec_block_size spec dvd c"
  shows "\<exists>k. hit_ok p gids hs (ChunkedLocalAttention c) (spec_block_size spec) al max_len cs k"
proof -
  let ?bs = "spec_block_size spec"
  let ?start = "if max_len > 0 then max_len div c * c else 0"
  let ?sb = "?start div ?bs"
  have al: "?bs = al" and loop: "chunk_loop p hs gids [?sb..max_len div ?bs - 1]
      (map (\<lambda>_. py_repeat (null_block p) ?sb) gids) = Inr cs"
    using run unfolding chunked_local_hit_def Let_def by (auto simp: res_simps)
  have s0: "0 \<le> ?start" using c(1) by (simp add: pos_imp_zdiv_nonneg_iff)
  then have sb: "0 \<le> ?sb" using bs by (simp add: pos_imp_zdiv_nonneg_iff)
  have sb_eq: "?sb * ?bs = ?start" using c(2) by (auto intro: dvd_div_mult_self)
  have "columns p hs gids (map (\<lambda>_. py_repeat (null_block p) ?sb) gids) (nat ?sb) {nat ?sb..<nat ?sb}"
    by (rule columns_mono [OF columns_null]) simp
  then obtain k where k: "nat ?sb \<le> k" "columns p hs gids cs k {nat ?sb..<k}"
    "int k \<le> max_len div ?bs \<or> k = nat ?sb"
    using chunk_loop_effect [OF lk, of hs "nat ?sb" "max_len div ?bs" _ cs "nat ?sb"] loop sb by auto
  have up: "int k * ?bs \<le> max 0 max_len"
  proof (cases "int k \<le> max_len div ?bs")
    case True
    then show ?thesis by (simp add: int_le_div_iff [OF bs])
  next
    case False
    then have "int k = ?sb" using k(3) sb by simp
    then have "int k * ?bs = ?start" using sb_eq by simp
    also have "\<dots> \<le> max 0 max_len"
    proof -
      have "max_len div c * c \<le> max_len"
        using div_mult_mod_eq [of max_len c] pos_mod_sign [OF c(1), of max_len] by linarith
      then show ?thesis by simp
    qed
    finally show ?thesis .
  qed
  have "?start \<le> int k * ?bs"
  proof -
    have "?sb * ?bs \<le> int k * ?bs" using k(1) sb bs by (intro mult_right_mono) auto
    then show ?thesis by (simp only: sb_eq)
  qed
  then have "?start \<le> int k * ?bs div c * c"
    using c(1) zdiv_mono1 [of ?start "int k * ?bs" c] s0
    by (cases "max_len > 0") (auto simp: pos_imp_zdiv_nonneg_iff)
  then have "?sb \<le> int k * ?bs div c * c div ?bs" using bs zdiv_mono1 by blast
  then have "columns p hs gids cs k
      {i. skipped_tokens (ChunkedLocalAttention c) (int k * ?bs) div ?bs \<le> int i}"
    using k(2) by (auto simp: columns_def skipped_tokens_def nat_le_iff)
  then show ?thesis using up al unfolding hit_ok_def by (intro exI [of _ k]) simp
qed

lemma mamba_hit_ok:
  assumes lk: "lookup_ok p gids"
    and run: "mamba_hit hs max_len gids p spec eagle al dcp pcp = Inr cs"
    and bs: "0 < spec_block_size spec" and al: "al \<noteq> 0"
  shows "\<exists>k. hit_ok p gids hs (Mamba mode ns) (spec_block_size spec) al max_len cs k"
proof -
  let ?bs = "spec_block_size spec"
  have "mamba_loop p hs gids ?bs al (nat (max_len div ?bs)) (map (\<lambda>_. []) gids) = Inr cs"
    using run unfolding mamba_hit_def Let_def by (auto simp: res_simps)
  from mamba_loop_effect [OF lk this al] obtain k where
    k: "k \<le> nat (max_len div ?bs)" "columns p hs gids cs k {k - 1..<k}" "int k * ?bs mod al = 0"
    by (elim exE conjE) (rule that)
  have "int k * ?bs \<le> max 0 max_len"
  proof (cases "max_len div ?bs \<ge> 0")
    case True
    then have "int k \<le> max_len div ?bs" using k(1) by linarith
    then show ?thesis by (simp add: int_le_div_iff [OF bs])
  qed (use k(1) in simp)
  moreover have "columns p hs gids cs k
      {i. skipped_tokens (Mamba mode ns) (int k * ?bs) div ?bs \<le> int i}"
  proof -
    have "k - 1 \<le> i" if "(int k * ?bs - 1) div ?bs \<le> int i" for i
    proof -
      have "int k - 1 \<le> (int k * ?bs - 1) div ?bs"
        using bs by (simp add: int_le_div_iff [OF bs] algebra_simps)
      then show ?thesis using that by linarith
    qed
    then show ?thesis using k(2) by (auto simp: columns_def skipped_tokens_def)
  qed
  ultimately show ?thesis using k(3) unfolding hit_ok_def by (intro exI [of _ k]) simp
qed

definition hit_block_size :: "kv_cache_spec \<Rightarrow> int \<Rightarrow> int \<Rightarrow> int" where
  "hit_block_size spec dcp pcp =
     (if is_full_attention spec \<and> dcp * pcp > 1 then spec_block_size spec * (dcp * pcp)
      else spec_block_size spec)"

lemma find_hit_ok:
  assumes lk: "lookup_ok p gids"
    and run: "find_longest_cache_hit hs max_len gids p spec eagle al dcp pcp = Inr cs"
    and spec: "spec_ok spec" and al: "al \<noteq> 0"
  shows "\<exists>k. hit_ok p gids hs (spec_kind spec) (hit_block_size spec dcp pcp) al max_len cs k"
proof -
  have bs: "0 < spec_block_size spec" using spec by (simp add: spec_ok_def)
  have full: ?thesis
    if f: "is_full_attention spec" "full_attention_hit hs max_len gids p spec eagle al dcp pcp = Inr cs"
  proof (rule full_attention_hit_ok [OF lk f(2)])
    show "hit_block_size spec dcp pcp =
        (if dcp * pcp > 1 then spec_block_size spec * (dcp * pcp) else spec_block_size spec)"
      using f(1) by (simp add: hit_block_size_def)
    show "0 < hit_block_size spec dcp pcp" using bs by (simp add: hit_block_size_def)
    show "skipped_tokens (spec_kind spec) n = 0" for n
      using f(1) by (auto simp: is_full_attention_def skipped_tokens_def split: spec_kind.splits)
  qed
  show ?thesis
  proof (cases "is_full_attention spec")
    case True
    then show ?thesis
      using full run by (auto simp: find_longest_cache_hit_def is_full_attention_def
          split: spec_kind.splits)
  next
    case False
    then have h: "hit_block_size spec dcp pcp = spec_block_size spec" by (simp add: hit_block_size_def)
    show ?thesis
      using run spec False
        sliding_window_hit_ok [OF lk _ bs _ al] chunked_local_hit_ok [OF lk _ bs]
        mamba_hit_ok [OF lk _ bs al]
      unfolding h
      by (cases "spec_kind spec") (auto simp: find_longest_cache_hit_def spec_ok_def
          is_full_attention_def)
  qed
qed

section \<open>Properties\<close>

text \<open>
  C35. A prefix-cache hit covers what attention still reads. For every attention type, if the
  lookup returns, then all groups get the same number \<open>k\<close> of blocks, covering at most \<open>max_len\<close>
  tokens and a multiple of the alignment; every block at a position that is not outside the
  attention window of the next token is a real block whose key is made of the request's hash for
  that position and the group's id, and any other block is null or such a block.
\<close>

theorem hit_covers_window:
  assumes "pool_ok p fl" and "\<forall>g \<in> set gids. 0 \<le> g \<and> g < 2 ^ 32" and "gids \<noteq> []"
    and "find_longest_cache_hit hs max_len gids p spec eagle al dcp pcp = Inr cs"
    and "spec_ok spec" and "al \<noteq> 0"
  shows "\<exists>k. length cs = length gids \<and> (\<forall>c \<in> set cs. length c = k) \<and>
     int k * hit_block_size spec dcp pcp \<le> max 0 max_len \<and>
     int k * hit_block_size spec dcp pcp mod al = 0 \<and>
     (\<forall>j < length gids. \<forall>i < k.
        (cs ! j ! i = null_block p \<or> has_key p (hs ! i) (gids ! j) (cs ! j ! i)) \<and>
        (skipped_tokens (spec_kind spec) (int k * hit_block_size spec dcp pcp)
           div hit_block_size spec dcp pcp \<le> int i \<longrightarrow> cs ! j ! i \<noteq> null_block p))"
proof -
  have "lookup_ok p gids"
    using assms(2,3) pool_ok_facts(2,5,6) [OF assms(1)] by (simp add: lookup_ok_def)
  from find_hit_ok [OF this assms(4,5,6)] obtain k where
    "hit_ok p gids hs (spec_kind spec) (hit_block_size spec dcp pcp) al max_len cs k" by blast
  then show ?thesis
    unfolding hit_ok_def columns_def by (intro exI [of _ k]) (auto simp: in_set_conv_nth)
qed

text \<open>
  C36. For full attention, without EAGLE, with the alignment equal to the block size and without context
  parallelism, the lookup always returns, and the hit is the longest one: it either uses up the hashes
  or the length bound, or the next hash is missing in some group.
\<close>

theorem full_attention_hit_longest:
  assumes "pool_ok p fl" and "\<forall>g \<in> set gids. 0 \<le> g \<and> g < 2 ^ 32" and "gids \<noteq> []"
    and "0 < spec_block_size spec" and "0 \<le> max_len"
  shows "\<exists>cs k. full_attention_hit hs max_len gids p spec False (spec_block_size spec) 1 1 = Inr cs \<and>
     columns p hs gids cs k {0..<k} \<and> k \<le> length hs \<and> int k * spec_block_size spec \<le> max_len \<and>
     (k < length hs \<and> (int k + 1) * spec_block_size spec \<le> max_len \<longrightarrow>
        (\<exists>g \<in> set gids. \<forall>b. \<not> has_key p (hs ! k) g b))"
proof -
  let ?bs = "spec_block_size spec"
  let ?n = "nat (max_len div ?bs)"
  have lk: "lookup_ok p gids"
    using assms(2,3) pool_ok_facts(2,5,6) [OF assms(1)] by (simp add: lookup_ok_def)
  have nn: "0 \<le> max_len div ?bs" using assms(4,5) by (simp add: pos_imp_zdiv_nonneg_iff)
  obtain cs k where k: "full_loop p gids (drop 0 (take ?n hs)) (map (\<lambda>_. []) gids) = Inr cs"
    "columns p (take ?n hs) gids cs k {0..<k}" "k \<le> length (take ?n hs)"
    "k < length (take ?n hs) \<longrightarrow> (\<exists>g \<in> set gids. \<forall>b. \<not> has_key p (take ?n hs ! k) g b)"
    using full_loop_effect [OF lk, of "take ?n hs" _ 0, OF columns_start] by auto
  have "full_attention_hit hs max_len gids p spec False ?bs 1 1 = Inr cs"
    using k(1) nn assms(4) by (simp add: full_attention_hit_def Let_def align_loop.simps)
  moreover have "columns p hs gids cs k {0..<k}" using k(2,3) by (auto simp: columns_def)
  moreover have "int k \<le> max_len div ?bs" using k(3) nn by (simp add: le_nat_iff)
  then have "int k * ?bs \<le> max_len" by (simp add: int_le_div_iff [OF assms(4)])
  moreover have "\<exists>g \<in> set gids. \<forall>b. \<not> has_key p (hs ! k) g b"
    if "k < length hs" "(int k + 1) * ?bs \<le> max_len"
  proof -
    have "int k + 1 \<le> max_len div ?bs" using that(2) by (simp add: int_le_div_iff [OF assms(4)])
    then have "k < ?n" using nn by linarith
    then show ?thesis using k(4) that(1) by simp
  qed
  ultimately show ?thesis using k(3) by (intro exI [of _ cs] exI [of _ k]) simp
qed

section \<open>Examples\<close>

text \<open>A pool in which blocks 1 and 2 hold the blocks with hashes 9 and 10 of group 0.\<close>

lemma cached_pool:
  "\<exists>p. pool_ok p [4] \<and> null_block p = 0 \<and> length (blocks p) = 5 \<and>
     has_key p [9] 0 1 \<and> has_key p [10] 0 2 \<and> (\<forall>b. b \<noteq> 1 \<and> b \<noteq> 2 \<longrightarrow> tags p b = None)"
proof -
  let ?r = "(sample_request ''r'' [5, 6, 7, 8])\<lparr>block_hashes := [[9], [10]]\<rparr>"
  obtain p where p: "pool_ok p [4]" "length (blocks p) = 5" "null_block p = 0" "\<forall>b. tags p b = None"
    "hash_block_size p = 2" "\<not> enable_kv_cache_events p"
    using sample_pool by blast
  have hs: "hashes_at p ?r 2 = Inr [[9], [10]]" using p by (simp add: hashes_at_def)
  have "\<exists>p'. cache_full_blocks id p ?r [1, 2] 0 2 2 0 = Inr (p', ?r)"
    by (rule cache_full_blocks_total [OF p(1) _ _ _ _ hs]) (use p in \<open>auto simp: py_slice_nonneg\<close>)
  then obtain p' where run: "cache_full_blocks id p ?r [1, 2] 0 2 2 0 = Inr (p', ?r)" by blast
  have inb: "\<forall>b \<in> set [1, 2]. b < length (blocks p)" using p(2) by simp
  note eff = cache_full_blocks_effect [OF run p(1) inb]
  have co: "caches_only p {1, 2} p'" "pool_ok p' [4]" using eff by (simp_all add: py_slice_nonneg)
  have key: "has_key p' ([[9], [10]] ! i) 0 ([1, 2] ! i)" if "i < 2" for i
  proof -
    have "[1, 2] ! i \<noteq> (0::nat)" using that by (auto simp: less_Suc_eq numeral_2_eq_2)
    then show ?thesis using eff that hs by (auto simp: has_key_def)
  qed
  have "tags p' b = None" if "b \<noteq> 1 \<and> b \<noteq> 2" for b
    using co(1) p(4) that by (simp add: caches_only_def)
  then show ?thesis
    using co p(2,3) key [of 0] key [of 1]
    by (intro exI [of _ p']) (auto simp: caches_only_def same_frame_def)
qed

definition window_spec :: kv_cache_spec where
  "window_spec = \<lparr>spec_block_size = 2, spec_kind = SlidingWindow 3, spec_layout = []\<rparr>"

theorem hit_covers_window_witness:
  "\<exists>p cs. pool_ok p [4] \<and> find_longest_cache_hit [[9], [10]] 4 [0] p window_spec False 2 1 1 = Inr cs \<and>
     length (cs ! 0) = 2 \<and> has_key p [10] 0 (cs ! 0 ! 1)"
proof -
  obtain p where p: "pool_ok p [4]" "null_block p = 0" "has_key p [9] 0 1" "has_key p [10] 0 2"
    using cached_pool by blast
  have lk: "lookup_ok p [0]" using pool_ok_facts(2,5,6) [OF p(1)] by (simp add: lookup_ok_def)
  obtain b where b: "lookup_hit p [10] [0] = Inr (Some [b])" "has_key p [10] 0 b"
    using lookup_hit_ok [OF lk, of "[10]"] p(4) by (force simp: length_Suc_conv)
  have n: "cdiv 2 2 = 1" "(4::int) div 2 = 2" "nat 2 = Suc (Suc 0)" by (simp_all add: cdiv_def)
  have run: "find_longest_cache_hit [[9], [10]] 4 [0] p window_spec False 2 1 1 = Inr [[0, b]]"
    using b p(2) by (simp add: find_longest_cache_hit_def window_spec_def sliding_window_hit_def n
        py_repeat_def zip_update_def numeral_2_eq_2)
  have "length ([[0, b]] ! 0) = 2 \<and> has_key p [10] 0 ([[0, b]] ! 0 ! 1)"
    using hit_covers_window [OF p(1) _ _ run] b by (auto simp: spec_ok_def window_spec_def)
  with p(1) run show ?thesis by blast
qed

theorem full_attention_hit_longest_witness:
  "\<exists>p cs. pool_ok p [4] \<and> full_attention_hit [[9], [11], [10]] 5 [0] p
       \<lparr>spec_block_size = 2, spec_kind = FullAttention, spec_layout = []\<rparr> False 2 1 1 = Inr cs \<and> length (cs ! 0) = 1"
proof -
  let ?spec = "\<lparr>spec_block_size = 2, spec_kind = FullAttention, spec_layout = []\<rparr>" and ?hs = "[[9], [11], [10]] :: block_hash list"
  obtain p where p: "pool_ok p [4]" "has_key p [9] 0 1" "has_key p [10] 0 2"
    "\<forall>b. b \<noteq> 1 \<and> b \<noteq> 2 \<longrightarrow> tags p b = None"
    using cached_pool by blast
  have sep: "\<not> has_key p [11] 0 b" for b
    using p(2-4) make_key_inject by (cases "b = 1 \<or> b = 2") (fastforce simp: has_key_def)+
  obtain cs k where k: "full_attention_hit ?hs 5 [0] p ?spec False 2 1 1 = Inr cs"
    "columns p ?hs [0] cs k {0..<k}" "int k * 2 \<le> 5"
    "k < length ?hs \<and> (int k + 1) * 2 \<le> 5 \<longrightarrow> (\<exists>g \<in> set [0]. \<forall>b. \<not> has_key p (?hs ! k) g b)"
    using full_attention_hit_longest [OF p(1), of "[0]" ?spec 5 ?hs] by auto
  have "k \<noteq> 0"
  proof
    assume "k = 0"
    with k(4) have "\<forall>b. \<not> has_key p [9] 0 b" by simp
    with p(2) show False by blast
  qed
  moreover have "\<not> 2 \<le> k" using k(2) sep unfolding columns_def by (auto dest!: spec [of _ 1])
  ultimately have "k = 1" by simp
  then show ?thesis using k(1,2) p(1) by (auto simp: columns_def)
qed

end
