(* ===== verification/KV_Coordinator.thy ===== *)
theory KV_Coordinator
  imports Cache_Hit
begin

text \<open>
  \<^verbatim>\<open>vllm/v1/core/kv_cache_coordinator.py\<close>: the three coordinators of the KV cache groups. They
  share the block pool and one manager per group; they differ in how a prefix hit is looked up.
  \<open>each_manager\<close> is the loop over \<open>single_type_managers\<close>, with the state it threads (the pool, and
  the request where caching may update its memo).
\<close>

datatype coordinator_kind = NoPrefixCache | Unitary | Hybrid

record coordinator =
  coord_kind :: coordinator_kind
  coord_max_model_len :: int
  coord_caching :: bool
  block_pool :: block_pool
  coord_eagle :: bool
  single_type_managers :: "manager list"
  kv_cache_groups :: "kv_cache_spec list"
  coord_block_size :: int
  dcp_world_size :: int
  pcp_world_size :: int
  coord_hash_block_size :: int
  attention_groups :: "(kv_cache_spec \<times> int list) list"
  lcm_block_size :: int

section \<open>Construction\<close>

fun make_managers ::
  "kv_cache_spec list \<Rightarrow> bool \<Rightarrow> int \<Rightarrow> int \<Rightarrow> int \<Rightarrow> block_pool \<Rightarrow> (manager list \<times> block_pool) res" where
  "make_managers [] caching i dcp pcp p = Inr ([], p)"
| "make_managers (s # ss) caching i dcp pcp p =
     res_bind (get_manager s p caching i dcp pcp) (\<lambda>(m, p1).
     res_bind (make_managers ss caching (i + 1) dcp pcp p1) (\<lambda>(ms, p2). Inr (m # ms, p2)))"

definition init_coordinator ::
  "coordinator_kind \<Rightarrow> kv_cache_spec list \<Rightarrow> int \<Rightarrow> int \<Rightarrow> bool \<Rightarrow> bool \<Rightarrow> bool \<Rightarrow> bool \<Rightarrow> int \<Rightarrow> int \<Rightarrow> int \<Rightarrow>
   coordinator res" where
  "init_coordinator kind specs num_blocks max_len eagle caching events use_int dcp pcp hash_bs =
     res_bind (init_pool num_blocks caching hash_bs events use_int) (\<lambda>p.
     res_bind (make_managers specs caching 0 dcp pcp p) (\<lambda>(ms, p').
       Inr \<lparr>coord_kind = kind, coord_max_model_len = max_len, coord_caching = caching,
            block_pool = p', coord_eagle = eagle, single_type_managers = ms,
            kv_cache_groups = specs, coord_block_size = 0, dcp_world_size = dcp,
            pcp_world_size = pcp, coord_hash_block_size = hash_bs, attention_groups = [],
            lcm_block_size = 0\<rparr>))"

definition init_no_prefix_cache ::
  "kv_cache_spec list \<Rightarrow> int \<Rightarrow> int \<Rightarrow> bool \<Rightarrow> bool \<Rightarrow> bool \<Rightarrow> int \<Rightarrow> int \<Rightarrow> int \<Rightarrow> coordinator res" where
  "init_no_prefix_cache specs num_blocks max_len eagle events use_int dcp pcp hash_bs =
     init_coordinator NoPrefixCache specs num_blocks max_len eagle False events use_int dcp pcp hash_bs"

definition init_unitary ::
  "kv_cache_spec list \<Rightarrow> int \<Rightarrow> int \<Rightarrow> bool \<Rightarrow> bool \<Rightarrow> bool \<Rightarrow> bool \<Rightarrow> int \<Rightarrow> int \<Rightarrow> int \<Rightarrow> coordinator res" where
  "init_unitary specs num_blocks max_len eagle caching events use_int dcp pcp hash_bs =
     res_bind (init_coordinator Unitary specs num_blocks max_len eagle caching events use_int dcp pcp
                 hash_bs) (\<lambda>c.
     res_bind (py_get specs 0) (\<lambda>spec.
       let bs0 = spec_block_size spec;
           bs1 = (if dcp > 1 then bs0 * dcp else bs0);
           bs = (if pcp > 1 then bs1 * pcp else bs1)
       in require (\<not> caching \<or> hash_bs = bs) AssertionError
            (require (length specs = 1) AssertionError
              (Inr (c\<lparr>coord_block_size := bs\<rparr>)))))"

text \<open>
  \<open>verify_and_split_kv_cache_groups\<close>: the manager class is a function of the spec, so the
  assertion that equal specs have equal classes holds.
\<close>

fun add_to_group :: "kv_cache_spec \<Rightarrow> int \<Rightarrow> (kv_cache_spec \<times> int list) list \<Rightarrow>
    (kv_cache_spec \<times> int list) list" where
  "add_to_group s i [] = [(s, [i])]"
| "add_to_group s i ((t, ids) # gs) =
     (if t = s then (t, ids @ [i]) # gs else (t, ids) # add_to_group s i gs)"

definition split_groups :: "kv_cache_spec list \<Rightarrow> (kv_cache_spec \<times> int list) list" where
  "split_groups specs =
     fold (\<lambda>(i, s) gs. add_to_group s (int i) gs) (zip [0..<length specs] specs) []"

definition verify_and_split :: "coordinator \<Rightarrow> coordinator res" where
  "verify_and_split c =
     (let gs = split_groups (kv_cache_groups c) in
      require (length gs > 1) AssertionError
        (Inr (c\<lparr>attention_groups := sort_key (\<lambda>g. if is_full_attention (fst g) then 0 else 1 :: nat) gs,
                lcm_block_size := foldl lcm 1 (map (\<lambda>g. spec_block_size (fst g)) gs)\<rparr>)))"

definition init_hybrid ::
  "kv_cache_spec list \<Rightarrow> int \<Rightarrow> int \<Rightarrow> bool \<Rightarrow> bool \<Rightarrow> bool \<Rightarrow> bool \<Rightarrow> int \<Rightarrow> int \<Rightarrow> int \<Rightarrow> coordinator res" where
  "init_hybrid specs num_blocks max_len eagle caching events use_int dcp pcp hash_bs =
     res_bind (init_coordinator Hybrid specs num_blocks max_len eagle caching events use_int dcp pcp
                 hash_bs) (\<lambda>c.
       require (hash_bs \<noteq> 0 \<or> specs = []) ZeroDivisionError
       (require (\<forall>s \<in> set specs. spec_block_size s mod hash_bs = 0) AssertionError
       (require (dcp = 1) AssertionError (require (pcp = 1) AssertionError (verify_and_split c)))))"

definition get_kv_cache_coordinator ::
  "kv_cache_spec list \<Rightarrow> int \<Rightarrow> int \<Rightarrow> bool \<Rightarrow> bool \<Rightarrow> bool \<Rightarrow> bool \<Rightarrow> int \<Rightarrow> int \<Rightarrow> int \<Rightarrow> coordinator res" where
  "get_kv_cache_coordinator specs num_blocks max_len eagle caching events use_int dcp pcp hash_bs =
     (if \<not> caching \<or> length specs = 0 then
        init_no_prefix_cache specs num_blocks max_len eagle events use_int dcp pcp hash_bs
      else if length specs = 1 then
        init_unitary specs num_blocks max_len eagle caching events use_int dcp pcp hash_bs
      else init_hybrid specs num_blocks max_len eagle caching events use_int dcp pcp hash_bs)"

section \<open>Operations on all managers\<close>

fun each_manager ::
  "(nat \<Rightarrow> manager \<Rightarrow> 's \<Rightarrow> ('a \<times> manager \<times> 's) res) \<Rightarrow> nat \<Rightarrow> manager list \<Rightarrow> 's \<Rightarrow>
   ('a list \<times> manager list \<times> 's) res" where
  "each_manager f i [] s = Inr ([], [], s)"
| "each_manager f i (m # ms) s =
     res_bind (f i m s) (\<lambda>(a, m', s').
     res_bind (each_manager f (Suc i) ms s') (\<lambda>(as, ms', s'').
       Inr (a # as, m' # ms', s'')))"

definition is_cross_attention :: "manager \<Rightarrow> bool" where
  "is_cross_attention m = (spec_kind (mgr_spec m) = CrossAttention)"

definition coord_num_blocks_to_allocate ::
  "coordinator \<Rightarrow> req_id \<Rightarrow> int \<Rightarrow> nat list list \<Rightarrow> int \<Rightarrow> int \<Rightarrow> int \<Rightarrow> (int \<times> coordinator) res" where
  "coord_num_blocks_to_allocate c rid num_tok new_blocks num_enc total_computed num_main =
     res_bind
       (each_manager (\<lambda>i m s.
          if is_cross_attention m then
            res_bind (get_num_blocks_to_allocate m (block_pool c) rid num_enc [] 0 num_enc)
              (\<lambda>(n, m'). Inr (n, m', s))
          else
            res_bind (py_get new_blocks (int i)) (\<lambda>bs.
            res_bind (get_num_blocks_to_allocate m (block_pool c) rid num_tok bs total_computed num_main)
              (\<lambda>(n, m'). Inr (n, m', s))))
          0 (single_type_managers c) ())
       (\<lambda>(ns, ms, _). Inr (sum_list ns, c\<lparr>single_type_managers := ms\<rparr>))"

text \<open>Running an operation of the managers on the coordinator's pool.\<close>

definition on_managers ::
  "(nat \<Rightarrow> manager \<Rightarrow> block_pool \<Rightarrow> ('a \<times> manager \<times> block_pool) res) \<Rightarrow> coordinator \<Rightarrow>
   ('a list \<times> coordinator) res" where
  "on_managers f c =
     res_bind (each_manager f 0 (single_type_managers c) (block_pool c))
       (\<lambda>(as, ms, p). Inr (as, c\<lparr>single_type_managers := ms, block_pool := p\<rparr>))"

definition coord_allocate_new_computed_blocks ::
  "req_id \<Rightarrow> nat list list \<Rightarrow> int \<Rightarrow> int \<Rightarrow> coordinator \<Rightarrow> coordinator res" where
  "coord_allocate_new_computed_blocks rid new_blocks num_local num_external c =
     res_bind
       (on_managers (\<lambda>i m p.
          res_bind (py_get new_blocks (int i)) (\<lambda>bs.
          res_bind (allocate_new_computed_blocks rid bs num_local num_external m p)
            (\<lambda>(m', p'). Inr ((), m', p')))) c)
       (\<lambda>(_, c'). Inr c')"

definition coord_allocate_new_blocks ::
  "req_id \<Rightarrow> int \<Rightarrow> int \<Rightarrow> int \<Rightarrow> coordinator \<Rightarrow> (nat list list \<times> coordinator) res" where
  "coord_allocate_new_blocks rid num_tok num_main num_enc c =
     on_managers (\<lambda>i m p.
       allocate_new_blocks rid (if is_cross_attention m then num_enc else num_tok) num_main m p) c"

definition coord_cache_blocks ::
  "(byte list \<Rightarrow> block_hash) \<Rightarrow> request \<Rightarrow> int \<Rightarrow> coordinator \<Rightarrow> (request \<times> coordinator) res" where
  "coord_cache_blocks sha r num_computed c =
     res_bind
       (each_manager (\<lambda>i m s.
          res_bind (cache_blocks sha (fst s) num_computed m (snd s))
            (\<lambda>(r', m', p'). Inr ((), m', (r', p'))))
          0 (single_type_managers c) (r, block_pool c))
       (\<lambda>(_, ms, s). Inr (fst s, c\<lparr>single_type_managers := ms, block_pool := snd s\<rparr>))"

definition coord_free :: "req_id \<Rightarrow> coordinator \<Rightarrow> coordinator res" where
  "coord_free rid c =
     res_bind
       (on_managers (\<lambda>i m p. res_bind (free_request rid m p) (\<lambda>(m', p'). Inr ((), m', p'))) c)
       (\<lambda>(_, c'). Inr c')"

definition coord_common_prefix_blocks :: "req_id \<Rightarrow> coordinator \<Rightarrow> int list \<times> coordinator" where
  "coord_common_prefix_blocks rid c =
     (if coord_kind c = NoPrefixCache then (map (\<lambda>_. 0) (single_type_managers c), c)
      else
        (let rs = map (\<lambda>m. get_num_common_prefix_blocks rid m (block_pool c)) (single_type_managers c)
         in (map fst rs, c\<lparr>single_type_managers := map snd rs\<rparr>)))"

definition coord_remove_skipped_blocks :: "req_id \<Rightarrow> int \<Rightarrow> coordinator \<Rightarrow> coordinator res" where
  "coord_remove_skipped_blocks rid total_computed c =
     res_bind
       (on_managers (\<lambda>i m p.
          res_bind (remove_skipped_blocks rid total_computed m p) (\<lambda>(m', p'). Inr ((), m', p'))) c)
       (\<lambda>(_, c'). Inr c')"

definition coord_get_blocks :: "req_id \<Rightarrow> coordinator \<Rightarrow> nat list list" where
  "coord_get_blocks rid c = map (\<lambda>m. blocks_of m rid) (single_type_managers c)"

definition coord_new_step_starts :: "coordinator \<Rightarrow> coordinator" where
  "coord_new_step_starts c =
     c\<lparr>single_type_managers := map mgr_new_step_starts (single_type_managers c)\<rparr>"

section \<open>Looking up a prefix\<close>

definition unitary_hit ::
  "coordinator \<Rightarrow> block_hash list \<Rightarrow> int \<Rightarrow> (nat list list \<times> int) res" where
  "unitary_hit c hs max_len =
     res_bind (py_get (kv_cache_groups c) 0) (\<lambda>spec.
     res_bind (find_longest_cache_hit hs max_len [0] (block_pool c) spec (coord_eagle c)
                 (coord_block_size c) (dcp_world_size c) (pcp_world_size c)) (\<lambda>cs.
     res_bind (first_group cs) (\<lambda>bs. Inr (cs, int (length bs) * coord_block_size c))))"

definition group_hashes :: "coordinator \<Rightarrow> block_hash list \<Rightarrow> kv_cache_spec \<Rightarrow> block_hash list res" where
  "group_hashes c hs spec =
     (if spec_block_size spec = coord_hash_block_size c then Inr hs
      else block_hashes_with_block_size hs (coord_hash_block_size c) (spec_block_size spec))"

text \<open>One iteration of the loop over the attention groups; the state is the current length and
  the blocks found so far, \<open>None\<close> for a group not looked up yet.\<close>

definition hit_group ::
  "coordinator \<Rightarrow> block_hash list \<Rightarrow> kv_cache_spec \<times> int list \<Rightarrow> int \<times> nat list option list \<Rightarrow>
   (int \<times> nat list option list) res" where
  "hit_group c hs g st =
     (case (g, st) of ((spec, gids), (cur_len, found)) \<Rightarrow>
       res_bind (py_get gids 0) (\<lambda>g0.
       res_bind (py_get found g0) (\<lambda>cached.
         if is_full_attention spec \<and> cached \<noteq> None then
           require (spec_block_size spec \<noteq> 0) ZeroDivisionError
             (Inr (cur_len div spec_block_size spec * spec_block_size spec, found))
         else
           res_bind (group_hashes c hs spec) (\<lambda>ghs.
           res_bind (find_longest_cache_hit ghs cur_len gids (block_pool c) spec (coord_eagle c)
                       (lcm_block_size c) 1 1) (\<lambda>cs.
           res_bind (first_group cs) (\<lambda>bs.
             Inr (int (length bs) * spec_block_size spec,
                  fold (\<lambda>(gid, blks) f. f[nat gid := Some blks]) (zip gids cs) found)))))))"

definition is_simple_hybrid :: "coordinator \<Rightarrow> bool" where
  "is_simple_hybrid c =
     (case attention_groups c of
        [g1, g2] \<Rightarrow> is_full_attention (fst g1)
      | _ \<Rightarrow> False)"

partial_function (option) hybrid_loop ::
  "coordinator \<Rightarrow> block_hash list \<Rightarrow> int \<Rightarrow> nat list option list \<Rightarrow>
   (int \<times> nat list option list) res option" where
  "hybrid_loop c hs hit_length found =
     (case fold_res (hit_group c hs) (attention_groups c) (hit_length, found) of
        Inl e \<Rightarrow> Some (Inl e)
      | Inr st \<Rightarrow>
          (if fst st \<ge> hit_length then Some (Inr (hit_length, snd st))
           else if is_simple_hybrid c then Some (Inr (fst st, snd st))
           else hybrid_loop c hs (fst st) (snd st)))"

definition truncate_full ::
  "coordinator \<Rightarrow> int \<Rightarrow> nat list option list \<Rightarrow> nat list option list res" where
  "truncate_full c hit_length found =
     res_bind (py_get (attention_groups c) 0) (\<lambda>(spec, gids).
       if is_full_attention spec then
         require (spec_block_size spec \<noteq> 0) ZeroDivisionError
           (Inr (fold (\<lambda>gid f. f[nat gid :=
                         map_option (\<lambda>bs. py_upto bs (hit_length div spec_block_size spec)) (f ! nat gid)])
                   gids found))
       else Inr found)"

definition hybrid_hit ::
  "coordinator \<Rightarrow> block_hash list \<Rightarrow> int \<Rightarrow> (nat list list \<times> int) res option" where
  "hybrid_hit c hs max_len =
     map_option (\<lambda>res. res_bind res (\<lambda>(hit_length, found).
         res_bind (truncate_full c hit_length found) (\<lambda>found'.
           Inr (map (\<lambda>f. case f of None \<Rightarrow> [] | Some bs \<Rightarrow> bs) found', hit_length))))
       (hybrid_loop c hs max_len (replicate (length (kv_cache_groups c)) None))"

definition coord_find_longest_cache_hit ::
  "coordinator \<Rightarrow> block_hash list \<Rightarrow> int \<Rightarrow> (nat list list \<times> int) res option" where
  "coord_find_longest_cache_hit c hs max_len =
     (case coord_kind c of
        NoPrefixCache \<Rightarrow> Some (Inr (map (\<lambda>_. []) (single_type_managers c), 0))
      | Unitary \<Rightarrow> Some (unitary_hit c hs max_len)
      | Hybrid \<Rightarrow> hybrid_hit c hs max_len)"

section \<open>The managers together\<close>

text \<open>
  All managers are consistent with the pool, and the reference count of a block is exactly the
  number of references that the requests of all managers hold.
\<close>

definition pool_good :: "block_pool \<Rightarrow> bool" where
  "pool_good p \<longleftrightarrow> (\<exists>fl. pool_ok p fl)"

definition mgrs_ok :: "manager list \<Rightarrow> block_pool \<Rightarrow> bool" where
  "mgrs_ok ms p \<longleftrightarrow> pool_good p \<and> (\<forall>m \<in> set ms. mgr_ok m p) \<and>
     (\<forall>b < length (blocks p). b \<noteq> 0 \<longrightarrow> refs p b = sum_list (map (\<lambda>m. held m b) ms))"

lemma held_nonneg: "0 \<le> held m b"
  unfolding held_def by (rule sum_list_nonneg) auto

lemma sum_held_nonneg: "0 \<le> sum_list (map (\<lambda>m. held m b) ms)"
  by (rule sum_list_nonneg) (auto simp: held_nonneg)

lemma held_le_sum: "m \<in> set ms \<Longrightarrow> held m b \<le> sum_list (map (\<lambda>m. held m b) ms)"
  by (induction ms) (use held_nonneg sum_held_nonneg in \<open>auto simp: add_increasing add_increasing2\<close>)

lemma mgrs_ok_step:
  assumes ok: "mgrs_ok (pre @ m # post) p" and st: "step_ok m p m' p'" and good: "pool_good p'"
  shows "mgrs_ok (pre @ m' # post) p'"
proof -
  let ?sum = "\<lambda>ms b. sum_list (map (\<lambda>m. held m b) ms)"
  have fr: "same_frame p p'" using st by (simp add: step_ok_def)
  have len: "length (blocks p') = length (blocks p)" using fr by (simp add: same_frame_def)
  have bal: "refs p' b - held m' b = refs p b - held m b" if "b \<noteq> 0" for b
    using st that by (simp add: step_ok_def)
  have tot: "refs p b = ?sum pre b + (held m b + ?sum post b)" if "b < length (blocks p)" "b \<noteq> 0" for b
    using ok that by (simp add: mgrs_ok_def)
  have tot': "refs p' b = ?sum pre b + (held m' b + ?sum post b)"
    if "b < length (blocks p)" "b \<noteq> 0" for b
    using tot [OF that] bal [OF that(2)] by linarith
  have m': "mgr_ok m' p'" using st by (simp add: step_ok_def)
  have other: "mgr_ok m2 p'" if m2: "m2 \<in> set pre \<union> set post" for m2
  proof -
    have o2: "mgr_ok m2 p" using ok m2 by (auto simp: mgrs_ok_def)
    have le: "held m2 b + held x b \<le> ?sum pre b + (held x b + ?sum post b)" for b x
      using m2 held_le_sum [of m2 pre b] held_le_sum [of m2 post b] sum_held_nonneg [of b pre]
        sum_held_nonneg [of b post] by auto
    have tail: "private_tail p' (cached_count m2 r) (blocks_of m2 r)" for r
      unfolding private_tail_def
    proof (intro allI impI)
      fix i
      let ?b = "blocks_of m2 r ! i"
      assume i: "i < length (blocks_of m2 r)" and nz: "cached_count m2 r \<le> int i \<and> ?b \<noteq> 0"
      have pr: "tags p ?b = None" "refs p ?b = 1"
        using mgr_ok_facts(7) [OF o2, of r] i nz by (auto simp: private_tail_def)
      have inb: "?b < length (blocks p)" using mgr_ok_facts(4) [OF o2 nth_mem [OF i]] .
      have "0 < count_list (blocks_of m2 r) ?b" using i by (metis count_list_0_iff gr0I nth_mem)
      then have "1 \<le> held m2 ?b"
        using count_le_held(2) [OF mgr_ok_facts(1) [OF o2], of r "''x'' @ r" ?b] by simp
      then have "held m ?b = 0"
        using le [of ?b m] tot [OF inb] nz pr(2) held_nonneg [of m ?b] by linarith
      then show "tags p' ?b = None \<and> refs p' ?b = 1"
        using st nz pr by (simp add: step_ok_def)
    qed
    have "held m2 b \<le> refs p' b" if "b < length (blocks p)" "b \<noteq> 0" for b
      using le [of b m'] tot' [OF that] held_nonneg [of m' b] by linarith
    moreover have "\<not> enable_caching p' \<Longrightarrow> tags p' b = None" for b
      using m' by (simp add: mgr_ok_def)
    ultimately show ?thesis
      using o2 tail fr by (simp add: mgr_ok_def same_frame_def)
  qed
  show ?thesis
    using good m' other tot' len by (auto simp: mgrs_ok_def)
qed

text \<open>A loop whose step succeeds on every consistent manager succeeds and keeps the invariant.\<close>

lemma each_manager_total:
  assumes ok: "mgrs_ok (pre @ ms) p" and Q: "\<forall>m \<in> set ms. Q m" and refl: "S p p"
    and step: "\<And>i m p1. mgr_ok m p1 \<Longrightarrow> pool_good p1 \<Longrightarrow> Q m \<Longrightarrow> S p p1 \<Longrightarrow>
      \<exists>a m' p2. f i m p1 = Inr (a, m', p2) \<and> pool_good p2 \<and> step_ok m p1 m' p2 \<and> R m a m' \<and> S p p2"
  shows "\<exists>as ms' p'. each_manager f i ms p = Inr (as, ms', p') \<and> mgrs_ok (pre @ ms') p' \<and> S p p' \<and>
     length as = length ms \<and> list_all2 (\<lambda>m am. R m (fst am) (snd am) \<and> same_static m (snd am)) ms (zip as ms') \<and>
     length ms' = length ms"
proof -
  have "\<exists>as ms' p'. each_manager f i ms q = Inr (as, ms', p') \<and> mgrs_ok (pre @ ms') p' \<and> S p p' \<and>
     length as = length ms \<and> list_all2 (\<lambda>m am. R m (fst am) (snd am) \<and> same_static m (snd am)) ms (zip as ms') \<and>
     length ms' = length ms"
    if "mgrs_ok (pre @ ms) q" "S p q" for i pre q
    using that Q
  proof (induction ms arbitrary: i pre q)
    case Nil
    then show ?case by simp
  next
    case (Cons m ms)
    have m: "mgr_ok m q" "pool_good q" using Cons.prems(1) by (simp_all add: mgrs_ok_def)
    obtain a m' q1 where s: "f i m q = Inr (a, m', q1)" "pool_good q1" "step_ok m q m' q1"
      "R m a m'" "S p q1"
    proof -
      have "Q m" using Cons.prems(3) by simp
      from step [OF m this Cons.prems(2), of i] show thesis using that by blast
    qed
    have Qs: "\<forall>m \<in> set ms. Q m" using Cons.prems(3) by simp
    have "mgrs_ok ((pre @ [m']) @ ms) q1"
      using mgrs_ok_step [OF Cons.prems(1) s(3,2)] by simp
    from Cons.IH [OF this s(5) Qs, of "Suc i"] obtain as ms' p' where
      r: "each_manager f (Suc i) ms q1 = Inr (as, ms', p')" "mgrs_ok ((pre @ [m']) @ ms') p'" "S p p'"
      "length as = length ms" "length ms' = length ms"
      "list_all2 (\<lambda>m am. R m (fst am) (snd am) \<and> same_static m (snd am)) ms (zip as ms')"
      by blast
    then show ?case using s by (auto simp: step_ok_def)
  qed
  from this [OF ok refl] show ?thesis .
qed

section \<open>Freeing and skipping on all managers\<close>

definition static_ok :: "manager \<Rightarrow> bool" where
  "static_ok m \<longleftrightarrow> spec_ok (mgr_spec m) \<and>
     (case spec_kind (mgr_spec m) of
        Mamba mode ns \<Rightarrow> mode \<noteq> MambaAlign \<and> 0 \<le> ns \<and> mgr_block_size m = spec_block_size (mgr_spec m)
      | _ \<Rightarrow> True)"

lemma static_ok_cong: "same_static m m' \<Longrightarrow> static_ok m' = static_ok m"
  by (auto simp: static_ok_def same_static_def split: spec_kind.splits)

lemma coord_free_effect:
  assumes "mgrs_ok (single_type_managers c) (block_pool c)"
  shows "\<exists>c'. coord_free rid c = Inr c' \<and> mgrs_ok (single_type_managers c') (block_pool c') \<and>
     get_num_free_blocks (block_pool c) \<le> get_num_free_blocks (block_pool c') \<and>
     tags (block_pool c') = tags (block_pool c) \<and> same_frame (block_pool c) (block_pool c') \<and>
     list_all2 (\<lambda>m m'. same_static m m' \<and> num_cached_block m' rid = None \<and>
        map_of (req_to_blocks m') rid = None \<and>
        (\<forall>r. r \<noteq> rid \<longrightarrow> blocks_of m' r = blocks_of m r))
       (single_type_managers c) (single_type_managers c')"
proof -
  let ?p = "block_pool c" and ?ms = "single_type_managers c"
  let ?S = "\<lambda>p p'. get_num_free_blocks p \<le> get_num_free_blocks p' \<and> tags p' = tags p \<and> same_frame p p'"
  let ?R = "\<lambda>m (a :: unit) m'. num_cached_block m' rid = None \<and> map_of (req_to_blocks m') rid = None \<and>
      (\<forall>r. r \<noteq> rid \<longrightarrow> blocks_of m' r = blocks_of m r)"
  let ?f = "\<lambda>(i :: nat) m p. res_bind (free_request rid m p) (\<lambda>(m', p'). Inr ((), m', p'))"
  have "\<exists>a m' p2. ?f i m p1 = Inr (a, m', p2) \<and> pool_good p2 \<and> step_ok m p1 m' p2 \<and> ?R m a m' \<and> ?S ?p p2"
    if m: "mgr_ok m p1" "pool_good p1" "?S ?p p1" for i m p1
  proof -
    obtain fl where "pool_ok p1 fl" using m(2) by (auto simp: pool_good_def)
    from free_request_effect [OF m(1) this, of rid] obtain m' p2 where
      e: "free_request rid m p1 = Inr (m', p2)" "pool_good p2" "step_ok m p1 m' p2"
        "\<forall>r. blocks_of m' r = (if r = rid then [] else blocks_of m r)"
        "map_of (req_to_blocks m') rid = None" "num_cached_block m' rid = None" "tags p2 = tags p1"
        "get_num_free_blocks p1 \<le> get_num_free_blocks p2"
      unfolding pool_good_def by blast
    have "same_frame ?p p2" using e(3) m(3) same_frame_trans by (auto simp: step_ok_def)
    then show ?thesis using e m(3) by (intro exI [of _ "()"] exI [of _ m'] exI [of _ p2]) simp
  qed
  then obtain as ms' p' where r: "each_manager ?f 0 ?ms ?p = Inr (as, ms', p')"
    "mgrs_ok ([] @ ms') p'" "?S ?p p'" "length as = length ?ms" "length ms' = length ?ms"
    "list_all2 (\<lambda>m am. ?R m (fst am) (snd am) \<and> same_static m (snd am)) ?ms (zip as ms')"
    using each_manager_total [of "[]" ?ms ?p "\<lambda>_. True" ?S ?f ?R 0] assms by auto
  have "coord_free rid c = Inr (c\<lparr>single_type_managers := ms', block_pool := p'\<rparr>)"
    using r(1) by (simp add: coord_free_def on_managers_def)
  moreover have "list_all2 (\<lambda>m m'. same_static m m' \<and> ?R m () m') ?ms ms'"
    using r(4-6) by (auto simp: list_all2_conv_all_nth)
  ultimately show ?thesis using r(2,3) by simp
qed

lemma base_of_remove_skipped:
  assumes "static_ok m"
  shows "remove_skipped_blocks rid n m p = base_remove_skipped_blocks rid
     (case spec_kind (mgr_spec m) of Mamba _ ns \<Rightarrow> max 0 (n - ns) | _ \<Rightarrow> n) m p"
  using assms
  by (auto simp: remove_skipped_blocks_def static_ok_def Let_def res_bind_def
      split: spec_kind.splits sum.splits)

lemma coord_remove_skipped_effect:
  assumes "mgrs_ok (single_type_managers c) (block_pool c)"
    and "\<forall>m \<in> set (single_type_managers c). static_ok m"
  shows "\<exists>ms' p'. coord_remove_skipped_blocks rid n c =
       Inr (c\<lparr>single_type_managers := ms', block_pool := p'\<rparr>) \<and> mgrs_ok ms' p' \<and>
     get_num_free_blocks (block_pool c) \<le> get_num_free_blocks p' \<and>
     tags p' = tags (block_pool c) \<and> same_frame (block_pool c) p' \<and>
     list_all2 (\<lambda>m m'. same_static m m' \<and> num_cached_block m' = num_cached_block m \<and>
        (\<forall>r. length (blocks_of m' r) = length (blocks_of m r)) \<and>
        (\<forall>r. r \<noteq> rid \<longrightarrow> blocks_of m' r = blocks_of m r) \<and>
        (\<forall>i < length (blocks_of m rid). skipped_tokens (spec_kind (mgr_spec m)) (max 0 n)
              div mgr_block_size m \<le> int i \<longrightarrow> blocks_of m' rid ! i = blocks_of m rid ! i))
       (single_type_managers c) ms'"
proof -
  let ?p = "block_pool c" and ?ms = "single_type_managers c"
  let ?S = "\<lambda>p p'. get_num_free_blocks p \<le> get_num_free_blocks p' \<and> tags p' = tags p \<and> same_frame p p'"
  let ?R = "\<lambda>m (a :: unit) m'. num_cached_block m' = num_cached_block m \<and>
        (\<forall>r. length (blocks_of m' r) = length (blocks_of m r)) \<and>
        (\<forall>r. r \<noteq> rid \<longrightarrow> blocks_of m' r = blocks_of m r) \<and>
        (\<forall>i < length (blocks_of m rid). skipped_tokens (spec_kind (mgr_spec m)) (max 0 n)
              div mgr_block_size m \<le> int i \<longrightarrow> blocks_of m' rid ! i = blocks_of m rid ! i)"
  let ?f = "\<lambda>(i :: nat) m p. res_bind (remove_skipped_blocks rid n m p) (\<lambda>(m', p'). Inr ((), m', p'))"
  have "\<exists>a m' p2. ?f i m p1 = Inr (a, m', p2) \<and> pool_good p2 \<and> step_ok m p1 m' p2 \<and> ?R m a m' \<and> ?S ?p p2"
    if m: "mgr_ok m p1" "pool_good p1" "static_ok m" "?S ?p p1" for i m p1
  proof -
    obtain fl where pok: "pool_ok p1 fl" using m(2) by (auto simp: pool_good_def)
    let ?n = "case spec_kind (mgr_spec m) of Mamba _ ns \<Rightarrow> max 0 (n - ns) | _ \<Rightarrow> n"
    let ?k = "skipped_tokens (spec_kind (mgr_spec m)) ?n"
    have sk: "get_num_skipped_tokens m ?n = Inr ?k"
      by (rule get_num_skipped_total) (use m(3) in \<open>simp add: static_ok_def\<close>)
    from remove_skipped_effect [OF m(1) pok sk, of rid] obtain m' p2 where
      e: "base_remove_skipped_blocks rid ?n m p1 = Inr (m', p2)" "pool_good p2" "step_ok m p1 m' p2"
        "num_cached_block m' = num_cached_block m" "tags p2 = tags p1"
        "get_num_free_blocks p1 \<le> get_num_free_blocks p2"
        "\<forall>r. length (blocks_of m' r) = length (blocks_of m r)"
        "\<forall>r. r \<noteq> rid \<longrightarrow> blocks_of m' r = blocks_of m r"
        "\<forall>i < length (blocks_of m rid). ?k div mgr_block_size m \<le> int i \<or> ?k \<le> 0 \<longrightarrow>
          blocks_of m' rid ! i = blocks_of m rid ! i"
      unfolding pool_good_def by blast
    have kle: "?k \<le> skipped_tokens (spec_kind (mgr_spec m)) (max 0 n) \<or> ?k \<le> 0"
      using m(3) zdiv_mono1 [of n "max 0 n"]
      by (auto simp: static_ok_def spec_ok_def skipped_tokens_def split: spec_kind.splits)
    have bs: "0 < mgr_block_size m" using m(1) by (simp add: mgr_ok_def)
    have keep: "blocks_of m' rid ! i = blocks_of m rid ! i"
      if "i < length (blocks_of m rid)"
        "skipped_tokens (spec_kind (mgr_spec m)) (max 0 n) div mgr_block_size m \<le> int i" for i
      using e(9) that kle zdiv_mono1 [OF _ bs, of ?k "skipped_tokens (spec_kind (mgr_spec m)) (max 0 n)"]
      by fastforce
    have "same_frame ?p p2" using e(3) m(4) same_frame_trans by (auto simp: step_ok_def)
    then show ?thesis
      using e(1-8) m(4) keep base_of_remove_skipped [OF m(3), of rid n p1]
      by (intro exI [of _ "()"] exI [of _ m'] exI [of _ p2]) simp
  qed
  then obtain as ms' p' where r: "each_manager ?f 0 ?ms ?p = Inr (as, ms', p')"
    "mgrs_ok ([] @ ms') p'" "?S ?p p'" "length as = length ?ms" "length ms' = length ?ms"
    "list_all2 (\<lambda>m am. ?R m (fst am) (snd am) \<and> same_static m (snd am)) ?ms (zip as ms')"
    using each_manager_total [of "[]" ?ms ?p static_ok ?S ?f ?R 0] assms by auto
  have "coord_remove_skipped_blocks rid n c = Inr (c\<lparr>single_type_managers := ms', block_pool := p'\<rparr>)"
    using r(1) by (simp add: coord_remove_skipped_blocks_def on_managers_def)
  moreover have "list_all2 (\<lambda>m m'. same_static m m' \<and> ?R m () m') ?ms ms'"
    using r(4-6) by (auto simp: list_all2_conv_all_nth)
  ultimately show ?thesis using r(2,3) by (intro exI [of _ ms'] exI [of _ p']) simp
qed

end
