(* ===== verification/KV_Admission.thy ===== *)
theory KV_Admission
  imports KV_Coordinator
begin

text \<open>
  Allocation over all managers of a coordinator: the steps of \<open>allocate_slots\<close> lifted from one
  manager to the list of managers that share a block pool. \<open>growth\<close> and \<open>hit_cost\<close> are the
  blocks that a manager takes out of the free queue for new tokens and for prefix hits.
\<close>

section \<open>Allocating on all managers\<close>

definition eff_tokens :: "manager \<Rightarrow> int \<Rightarrow> int" where
  "eff_tokens m n =
     (case spec_kind (mgr_spec m) of
        Mamba _ ns \<Rightarrow> if ns > 0 then n + mgr_block_size m * ns else n
      | _ \<Rightarrow> n)"

text \<open>The blocks that \<open>allocate_new_blocks\<close> still has to add for \<open>n\<close> tokens.\<close>

definition growth :: "manager \<Rightarrow> req_id \<Rightarrow> int \<Rightarrow> int" where
  "growth m rid n =
     max (cdiv (eff_tokens m n) (mgr_block_size m) - int (length (blocks_of m rid))) 0"

definition tokens_for :: "int \<Rightarrow> int \<Rightarrow> manager \<Rightarrow> int" where
  "tokens_for num_enc n m = (if is_cross_attention m then num_enc else n)"

lemma allocate_new_blocks_base:
  "static_ok m \<Longrightarrow> allocate_new_blocks rid n main m p = base_allocate_new_blocks rid (eff_tokens m n) m p"
  by (auto simp: allocate_new_blocks_def eff_tokens_def static_ok_def split: spec_kind.splits)

definition grown :: "req_id \<Rightarrow> int \<Rightarrow> int \<Rightarrow> manager \<Rightarrow> manager \<Rightarrow> bool" where
  "grown rid num_enc n m m' \<longleftrightarrow> same_static m m' \<and> num_cached_block m' = num_cached_block m \<and>
     eff_tokens m (tokens_for num_enc n m) \<le> int (length (blocks_of m' rid)) * mgr_block_size m \<and>
     (\<exists>new. blocks_of m' rid = blocks_of m rid @ new) \<and>
     (\<forall>r. r \<noteq> rid \<longrightarrow> blocks_of m' r = blocks_of m r)"

lemma grow_all:
  assumes "mgrs_ok (pre @ ms) p" and "\<forall>m \<in> set ms. static_ok m"
    and "sum_list (map (\<lambda>m. growth m rid (tokens_for num_enc n m)) ms) \<le> get_num_free_blocks p"
  shows "\<exists>news ms' p'. each_manager (\<lambda>i m p. allocate_new_blocks rid (if is_cross_attention m then num_enc else n) main m p)
        i ms p = Inr (news, ms', p') \<and> mgrs_ok (pre @ ms') p' \<and> same_frame p p' \<and>
     get_num_free_blocks p' = get_num_free_blocks p -
       sum_list (map (\<lambda>m. growth m rid (tokens_for num_enc n m)) ms) \<and>
     list_all2 (grown rid num_enc n) ms ms'"
  using assms
proof (induction ms arbitrary: i pre p)
  case Nil
  then show ?case by simp
next
  case (Cons m ms)
  let ?T = "tokens_for num_enc n m" and ?g = "growth m rid (tokens_for num_enc n m)"
  let ?G = "sum_list (map (\<lambda>m. growth m rid (tokens_for num_enc n m)) ms)"
  have m: "mgr_ok m p" "pool_good p" "static_ok m" using Cons.prems by (simp_all add: mgrs_ok_def)
  obtain fl where pok: "pool_ok p fl" using m(2) by (auto simp: pool_good_def)
  have G0: "0 \<le> ?G" by (rule sum_list_nonneg) (auto simp: growth_def)
  have bs: "0 < mgr_block_size m" using m(1) by (simp add: mgr_ok_def)
  have "cdiv (eff_tokens m ?T) (mgr_block_size m) - int (length (blocks_of m rid)) \<le> get_num_free_blocks p"
    using Cons.prems(3) G0 by (simp add: growth_def)
  from allocate_new_effect [OF m(1) pok refl this] obtain new m' q where
    e: "base_allocate_new_blocks rid (eff_tokens m ?T) m p = Inr (new, m', q)" "pool_good q"
      "step_ok m p m' q"
      "\<forall>r. blocks_of m' r = (if r = rid then blocks_of m rid @ new else blocks_of m r)"
      "num_cached_block m' = num_cached_block m" "int (length new) = ?g"
      "get_num_free_blocks q = get_num_free_blocks p - ?g"
    unfolding growth_def pool_good_def by blast
  have "cdiv (eff_tokens m ?T) (mgr_block_size m) \<le> int (length (blocks_of m' rid))"
    using e(4,6) by (simp add: growth_def)
  then have cap: "eff_tokens m ?T \<le> int (length (blocks_of m' rid)) * mgr_block_size m"
    by (simp add: cdiv_least [OF bs])
  have gr: "grown rid num_enc n m m'" using e(3-5) cap by (simp add: grown_def step_ok_def)
  have ok': "mgrs_ok ((pre @ [m']) @ ms) q" using mgrs_ok_step [OF Cons.prems(1) e(3,2)] by simp
  have sm: "\<forall>m \<in> set ms. static_ok m" using Cons.prems(2) by simp
  have fr: "?G \<le> get_num_free_blocks q" using Cons.prems(3) e(7) by simp
  from Cons.IH [OF ok' sm fr, of "Suc i"] obtain news ms' p' where
    r: "each_manager (\<lambda>i m p. allocate_new_blocks rid (if is_cross_attention m then num_enc else n) main m p)
        (Suc i) ms q = Inr (news, ms', p')" "mgrs_ok ((pre @ [m']) @ ms') p'" "same_frame q p'"
      "get_num_free_blocks p' = get_num_free_blocks q - ?G" "list_all2 (grown rid num_enc n) ms ms'"
    by blast
  have run: "allocate_new_blocks rid (if is_cross_attention m then num_enc else n) main m p = Inr (new, m', q)"
    using e(1) allocate_new_blocks_base [OF m(3), of rid ?T main p] by (simp add: tokens_for_def)
  have "same_frame p p'" using e(3) r(3) same_frame_trans by (auto simp: step_ok_def)
  then have "each_manager (\<lambda>i m p. allocate_new_blocks rid (if is_cross_attention m then num_enc else n) main m p)
        i (m # ms) p = Inr (new # news, m' # ms', p') \<and> mgrs_ok (pre @ m' # ms') p' \<and> same_frame p p' \<and>
     get_num_free_blocks p' = get_num_free_blocks p -
       sum_list (map (\<lambda>m. growth m rid (tokens_for num_enc n m)) (m # ms)) \<and>
     list_all2 (grown rid num_enc n) (m # ms) (m' # ms')"
    using run r(1,2,4,5) e(7) gr by simp
  then show ?case by blast
qed

text \<open>Adding the hits of a new request on all managers, without external tokens.\<close>

definition hit_cost :: "block_pool \<Rightarrow> int \<Rightarrow> manager \<Rightarrow> nat list \<Rightarrow> int" where
  "hit_cost p loc m hits =
     (if is_cross_attention m then 0
      else get_num_evictable_blocks p (hits_after m (skipped_tokens (spec_kind (mgr_spec m)) loc) hits))"

definition fresh_for :: "req_id \<Rightarrow> block_pool \<Rightarrow> manager \<Rightarrow> nat list \<Rightarrow> bool" where
  "fresh_for rid p m hits \<longleftrightarrow> static_ok m \<and> num_cached_block m rid = None \<and>
     (if is_cross_attention m then hits = []
      else blocks_of m rid = [] \<and> hits_ok p hits \<and> (enable_caching p \<or> hits = []))"

lemma fresh_for_cong: "tags q = tags p \<Longrightarrow> same_frame p q \<Longrightarrow> fresh_for rid q m hits = fresh_for rid p m hits"
  by (simp add: fresh_for_def hits_ok_def same_frame_def)

text \<open>What an operation on one request leaves alone.\<close>

definition kept :: "req_id \<Rightarrow> manager \<Rightarrow> manager \<Rightarrow> bool" where
  "kept rid m m' \<longleftrightarrow> same_static m m' \<and> (\<forall>r. r \<noteq> rid \<longrightarrow> blocks_of m' r = blocks_of m r)"

lemma kept_static: "kept rid m m' \<Longrightarrow> same_static m m'"
  by (simp add: kept_def)

lemma kept_trans: "kept rid m1 m2 \<Longrightarrow> kept rid m2 m3 \<Longrightarrow> kept rid m1 m3"
  by (simp add: kept_def same_static_def)

lemma all_kept_trans:
  "list_all2 (kept rid) ms1 ms2 \<Longrightarrow> list_all2 (kept rid) ms2 ms3 \<Longrightarrow> list_all2 (kept rid) ms1 ms3"
  by (erule (1) list_all2_trans [rotated]) (rule kept_trans)

definition hits_added :: "req_id \<Rightarrow> int \<Rightarrow> manager \<Rightarrow> nat list \<Rightarrow> manager \<Rightarrow> bool" where
  "hits_added rid loc m hits m' \<longleftrightarrow> kept rid m m' \<and>
     (if is_cross_attention m then m' = m
      else int (length (blocks_of m' rid)) =
             prefix_len m (skipped_tokens (spec_kind (mgr_spec m)) loc) hits)"

lemma evictable_mono:
  assumes ok: "pool_ok p fl" and fr: "same_frame p q" and rng: "\<forall>b \<in> set bs. b < length (blocks p)"
    and mono: "\<And>b. b \<noteq> 0 \<Longrightarrow> refs p b \<le> refs q b"
  shows "get_num_evictable_blocks q bs \<le> get_num_evictable_blocks p bs"
proof -
  let ?P = "\<lambda>p b. ref_cnt (blocks p ! b) = 0 \<and> \<not> is_null (blocks p ! b)"
  have "?P p b" if "b \<in> set bs" "?P q b" for b
  proof -
    have b: "b < length (blocks p)" using rng that(1) by blast
    have nn: "\<not> is_null (blocks p ! b)" using fr b that(2) by (simp add: same_frame_def)
    then have nz: "b \<noteq> 0" using pool_ok_is_null [OF ok b] by simp
    have "refs p b = 0" using mono [OF nz] that(2) pool_ok_refs_nonneg [OF ok b nz] by (simp add: refs_def)
    then show ?thesis using nn by (simp add: refs_def)
  qed
  then have "length (filter (?P q) bs) \<le> length (filter (?P p) bs)"
    by (induction bs) auto
  then show ?thesis by (simp add: get_num_evictable_blocks_def)
qed

lemma add_hits_computed:
  assumes ok: "mgr_ok m p" and pok: "pool_ok p fl" and new: "num_cached_block m rid = None"
    and empty: "blocks_of m rid = []" and h: "hits_ok p hits" and cach: "enable_caching p \<or> hits = []"
    and spec: "spec_ok (mgr_spec m)" and k: "k = skipped_tokens (spec_kind (mgr_spec m)) loc"
  shows "\<exists>m' p'. base_allocate_new_computed_blocks rid hits loc 0 m p = Inr (m', p') \<and> pool_good p' \<and>
     step_ok m p m' p' \<and> int (length (blocks_of m' rid)) = prefix_len m k hits \<and>
     (\<forall>r. r \<noteq> rid \<longrightarrow> blocks_of m' r = blocks_of m r) \<and> tags p' = tags p \<and> (\<forall>b. b \<noteq> 0 \<longrightarrow> refs p b \<le> refs p' b) \<and>
     get_num_free_blocks p' = get_num_free_blocks p - get_num_evictable_blocks p (hits_after m k hits)"
proof -
  note f = mgr_ok_facts [OF ok]
  let ?hits = "hits_after m k hits"
  let ?bs = "py_repeat (mgr_null m) (k div mgr_block_size m) @ ?hits"
  let ?m1 = "(set_blocks rid ?bs m)\<lparr>num_cached_block :=
        (num_cached_block m)(rid := Some (int (length ?bs)))\<rparr>"
  have sk: "get_num_skipped_tokens m loc = Inr k" using get_num_skipped_total [OF spec] k by simp
  have "hits_ok p ?hits" using h hits_ok_from by (simp add: hits_after_def)
  moreover have "enable_caching p \<or> ?hits = []" using cach by (auto simp: hits_after_def py_from_def)
  ultimately obtain p1 where
    p1: "(if mgr_caching m then touch ?hits p
          else require (?hits = []) AssertionError (Inr p)) = Inr p1"
      "pool_good p1" "step_ok m p ?m1 p1" "tags p1 = tags p"
      "get_num_free_blocks p1 = get_num_free_blocks p - get_num_evictable_blocks p ?hits"
    using add_hits_effect [OF ok pok empty, of ?hits "nat (k div mgr_block_size m)"]
    unfolding py_repeat_def pool_good_def by blast
  have len: "int (length ?bs) = prefix_len m k hits" using prefix_len_eq f(3) by simp
  have bs1: "blocks_of ?m1 r = (if r = rid then ?bs else blocks_of m r)" for r
    using blocks_of_cong [of ?m1 "set_blocks rid ?bs m" r] by simp
  have run: "base_allocate_new_computed_blocks rid hits loc 0 m p = Inr (?m1, p1)"
    using new empty sk f(2) p1(1)
    unfolding base_allocate_new_computed_blocks_def hits_after_def Let_def by simp
  have hm: "held ?m1 b = held m b + int (count_list ?bs b)" for b
    using changes_set_blocks [OF f(1), of rid ?bs] empty by (simp add: changes_def held_def)
  have "refs p b \<le> refs p1 b" if "b \<noteq> 0" for b
  proof -
    have "refs p1 b - held ?m1 b = refs p b - held m b" using p1(3) that by (simp add: step_ok_def)
    then show ?thesis using hm [of b] by linarith
  qed
  then show ?thesis using run p1(2-5) len bs1 by (intro exI [of _ ?m1] exI [of _ p1]) simp
qed

lemma add_hits_all:
  assumes "mgrs_ok (pre @ ms) p" and "i + length ms = length bss"
    and "\<forall>j < length ms. fresh_for rid p (ms ! j) (bss ! (i + j))"
  shows "\<exists>as ms' p'. each_manager (\<lambda>i m p.
          res_bind (py_get bss (int i)) (\<lambda>bs.
          res_bind (allocate_new_computed_blocks rid bs loc 0 m p) (\<lambda>(m', p'). Inr ((), m', p'))))
        i ms p = Inr (as, ms', p') \<and> mgrs_ok (pre @ ms') p' \<and> same_frame p p' \<and> tags p' = tags p \<and>
     (\<forall>b. b \<noteq> 0 \<longrightarrow> refs p b \<le> refs p' b) \<and>
     get_num_free_blocks p - sum_list (map2 (hit_cost p loc) ms (drop i bss)) \<le> get_num_free_blocks p' \<and>
     length ms' = length ms \<and> (\<forall>j < length ms. hits_added rid loc (ms ! j) (bss ! (i + j)) (ms' ! j))"
  using assms
proof (induction ms arbitrary: i pre p)
  case Nil
  then show ?case by simp
next
  case (Cons m ms)
  let ?h = "bss ! i" and ?k = "skipped_tokens (spec_kind (mgr_spec m)) loc"
  let ?f = "\<lambda>i m p. res_bind (py_get bss (int i)) (\<lambda>bs.
          res_bind (allocate_new_computed_blocks rid bs loc 0 m p) (\<lambda>(m', p'). Inr ((), m', p')))"
  have m: "mgr_ok m p" "pool_good p" using Cons.prems by (simp_all add: mgrs_ok_def)
  obtain fl where pok: "pool_ok p fl" using m(2) by (auto simp: pool_good_def)
  have fr0: "fresh_for rid p m ?h" using Cons.prems(3) by (auto dest: spec [of _ 0])
  have i: "i < length bss" using Cons.prems(2) by simp
  have dr: "drop i bss = ?h # drop (Suc i) bss" using Cons_nth_drop_Suc [OF i] by simp
  obtain m' q where e: "?f i m p = Inr ((), m', q)" "pool_good q" "step_ok m p m' q"
    "hits_added rid loc m ?h m'" "tags q = tags p" "\<forall>b. b \<noteq> 0 \<longrightarrow> refs p b \<le> refs q b"
    "get_num_free_blocks q = get_num_free_blocks p - hit_cost p loc m ?h"
  proof (cases "is_cross_attention m")
    case True
    then have "?h = []" using fr0 by (simp add: fresh_for_def)
    then have "?f i m p = Inr ((), m, p)"
      using True i by (simp add: allocate_new_computed_blocks_def is_cross_attention_def)
    then show ?thesis
      using that m True step_ok_refl [OF m(1)] by (simp add: hits_added_def hit_cost_def same_static_def kept_def)
  next
    case False
    have c: "num_cached_block m rid = None" "blocks_of m rid = []" "hits_ok p ?h"
      "enable_caching p \<or> ?h = []" "spec_ok (mgr_spec m)"
      using fr0 False by (simp_all add: fresh_for_def static_ok_def)
    from add_hits_computed [OF m(1) pok c refl] obtain m' q where
      e: "base_allocate_new_computed_blocks rid ?h loc 0 m p = Inr (m', q)" "pool_good q"
        "step_ok m p m' q" "int (length (blocks_of m' rid)) = prefix_len m ?k ?h"
        "\<forall>r. r \<noteq> rid \<longrightarrow> blocks_of m' r = blocks_of m r" "tags q = tags p"
        "\<forall>b. b \<noteq> 0 \<longrightarrow> refs p b \<le> refs q b"
        "get_num_free_blocks q = get_num_free_blocks p - get_num_evictable_blocks p (hits_after m ?k ?h)"
      by blast
    have "allocate_new_computed_blocks rid ?h loc 0 m p = Inr (m', q)"
      using e(1) False by (auto simp: allocate_new_computed_blocks_def is_cross_attention_def
          split: spec_kind.splits)
    then show ?thesis
      using that [of m' q] e i False by (simp add: hits_added_def hit_cost_def step_ok_def kept_def)
  qed
  have frq: "same_frame p q" using e(3) by (simp add: step_ok_def)
  have ok': "mgrs_ok ((pre @ [m']) @ ms) q" using mgrs_ok_step [OF Cons.prems(1) e(3,2)] by simp
  have len: "Suc i + length ms = length bss" using Cons.prems(2) by simp
  have fresh: "fresh_for rid p (ms ! j) (bss ! (Suc i + j))" if "j < length ms" for j
    using Cons.prems(3) that by (auto dest: spec [of _ "Suc j"])
  have fresh': "\<forall>j < length ms. fresh_for rid q (ms ! j) (bss ! (Suc i + j))"
  proof (intro allI impI)
    fix j assume "j < length ms"
    from fresh [OF this] show "fresh_for rid q (ms ! j) (bss ! (Suc i + j))"
      using fresh_for_cong [OF e(5) frq] by simp
  qed
  from Cons.IH [OF ok' len fresh'] obtain as ms' p' where
    r: "each_manager ?f (Suc i) ms q = Inr (as, ms', p')" "mgrs_ok ((pre @ [m']) @ ms') p'"
      "same_frame q p'" "tags p' = tags q" "\<forall>b. b \<noteq> 0 \<longrightarrow> refs q b \<le> refs p' b"
      "get_num_free_blocks q - sum_list (map2 (hit_cost q loc) ms (drop (Suc i) bss)) \<le> get_num_free_blocks p'"
      "length ms' = length ms" "\<forall>j < length ms. hits_added rid loc (ms ! j) (bss ! (Suc i + j)) (ms' ! j)"
    by blast
  have cost: "hit_cost q loc (ms ! j) (drop (Suc i) bss ! j) \<le> hit_cost p loc (ms ! j) (drop (Suc i) bss ! j)"
    if "j < length ms" for j
  proof -
    let ?x = "ms ! j" and ?hj = "bss ! (Suc i + j)"
    have nth: "drop (Suc i) bss ! j = ?hj" using len that by simp
    show ?thesis
    proof (cases "is_cross_attention ?x")
      case False
      then have "hits_ok p ?hj" using fresh [OF that] by (simp add: fresh_for_def)
      then have "hits_ok p (hits_after ?x (skipped_tokens (spec_kind (mgr_spec ?x)) loc) ?hj)"
        using hits_ok_from by (simp add: hits_after_def)
      then have "\<forall>b \<in> set (hits_after ?x (skipped_tokens (spec_kind (mgr_spec ?x)) loc) ?hj).
          b < length (blocks p)" by (simp add: hits_ok_def)
      from evictable_mono [OF pok frq this] e(6) show ?thesis using False nth by (simp add: hit_cost_def)
    qed (simp add: hit_cost_def)
  qed
  have "sum_list (map2 (hit_cost q loc) ms (drop (Suc i) bss)) \<le>
      sum_list (map2 (hit_cost p loc) ms (drop (Suc i) bss))"
  proof -
    have l: "length ms = length (drop (Suc i) bss)" using len by simp
    then show ?thesis
      using cost by (intro sum_list_mono2) (auto simp: l)
  qed
  then have free: "get_num_free_blocks p - sum_list (map2 (hit_cost p loc) (m # ms) (drop i bss))
      \<le> get_num_free_blocks p'"
    using r(6) e(7) dr by simp
  have added: "\<forall>j < length (m # ms). hits_added rid loc ((m # ms) ! j) (bss ! (i + j)) ((m' # ms') ! j)"
    using e(4) r(8) by (auto simp: less_Suc_eq_0_disj)
  have mono: "\<forall>b. b \<noteq> 0 \<longrightarrow> refs p b \<le> refs p' b" using e(6) r(5) by (meson order_trans)
  have "each_manager ?f i (m # ms) p = Inr (() # as, m' # ms', p') \<and> mgrs_ok (pre @ m' # ms') p' \<and>
      same_frame p p' \<and> tags p' = tags p \<and> length (m' # ms') = length (m # ms)"
    using e(1,5) r(1,2,4,7) same_frame_trans [OF frq r(3)] by simp
  then show ?case using free added mono by blast
qed

section \<open>Counting the blocks to allocate\<close>

lemma member_le_sum_list_int: "\<forall>x \<in> set xs. 0 \<le> (x :: int) \<Longrightarrow> y \<in> set xs \<Longrightarrow> y \<le> sum_list xs"
proof (induction xs)
  case Nil
  then show ?case by simp
next
  case (Cons x xs)
  have "0 \<le> sum_list xs" by (rule sum_list_nonneg) (use Cons.prems in simp)
  then show ?case using Cons by auto
qed

text \<open>
  A Mamba manager defers a request whose hit was cached in the same step: it asks for more blocks
  than the pool has.
\<close>

definition deferred :: "manager \<Rightarrow> block_pool \<Rightarrow> nat list \<Rightarrow> bool" where
  "deferred m p hits =
     (case spec_kind (mgr_spec m) of
        Mamba _ _ \<Rightarrow> hits \<noteq> [] \<and>
          (case hash_of (blocks p ! last hits) of
             None \<Rightarrow> False | Some key \<Rightarrow> key \<in> cached_blocks_this_step m)
      | _ \<Rightarrow> False)"

definition blocks_needed ::
  "block_pool \<Rightarrow> req_id \<Rightarrow> int \<Rightarrow> int \<Rightarrow> int \<Rightarrow> manager \<Rightarrow> nat list \<Rightarrow> int" where
  "blocks_needed p rid num_enc n tot m hits =
     (if is_cross_attention m then growth m rid num_enc
      else if deferred m p hits then num_gpu_blocks p + 1
      else if num_cached_block m rid \<noteq> None then growth m rid n
      else
        (let k = skipped_tokens (spec_kind (mgr_spec m)) tot div mgr_block_size m;
             len = int (length (blocks_of m rid))
         in max (cdiv (eff_tokens m n) (mgr_block_size m) - max k (int (length hits) + len)) 0 +
            get_num_evictable_blocks p (py_from hits (max 0 (k - len)))))"

definition countable :: "req_id \<Rightarrow> manager \<Rightarrow> nat list \<Rightarrow> bool" where
  "countable rid m hits \<longleftrightarrow> static_ok m \<and> 0 < mgr_block_size m \<and>
     (num_cached_block m rid \<noteq> None \<longrightarrow> \<not> is_cross_attention m \<and> hits = [])"

lemma base_count:
  assumes "0 < mgr_block_size m" and "spec_ok (mgr_spec m)"
    and "num_cached_block m rid \<noteq> None \<longrightarrow> hits = []"
  shows "base_num_blocks_to_allocate m p rid n hits tot = Inr
    (if num_cached_block m rid \<noteq> None then max (cdiv n (mgr_block_size m) - int (length (blocks_of m rid))) 0
     else
       (let k = skipped_tokens (spec_kind (mgr_spec m)) tot div mgr_block_size m;
            len = int (length (blocks_of m rid))
        in max (cdiv n (mgr_block_size m) - max k (int (length hits) + len)) 0 +
           get_num_evictable_blocks p (py_from hits (max 0 (k - len)))))"
  using assms by (auto simp: base_num_blocks_to_allocate_def num_required_def get_num_skipped_total Let_def)

lemma count_cross:
  assumes c: "countable rid m hits" and x: "is_cross_attention m"
  shows "get_num_blocks_to_allocate m p rid num_enc [] 0 num_enc = Inr (growth m rid num_enc, m)"
proof -
  have k: "spec_kind (mgr_spec m) = CrossAttention" using x by (simp add: is_cross_attention_def)
  have "num_cached_block m rid = None" "0 < mgr_block_size m" "spec_ok (mgr_spec m)"
    using c x by (auto simp: countable_def static_ok_def)
  then show ?thesis
    using k base_count [of m rid "[]" p num_enc 0]
    by (simp add: get_num_blocks_to_allocate_def growth_def eff_tokens_def skipped_tokens_def
        get_num_evictable_blocks_def py_from_def)
qed

lemma count_other:
  assumes c: "countable rid m hits" and x: "\<not> is_cross_attention m"
  shows "get_num_blocks_to_allocate m p rid n hits tot main = Inr (blocks_needed p rid num_enc n tot m hits, m)"
proof -
  have f: "0 < mgr_block_size m" "spec_ok (mgr_spec m)" "num_cached_block m rid \<noteq> None \<longrightarrow> hits = []"
    "static_ok m"
    using c by (auto simp: countable_def static_ok_def)
  note base = base_count [OF f(1-3), of p]
  show ?thesis
  proof (cases "\<exists>mode ns. spec_kind (mgr_spec m) = Mamba mode ns")
    case True
    then obtain mode ns where k: "spec_kind (mgr_spec m) = Mamba mode ns" by blast
    then have s: "mode \<noteq> MambaAlign" "mgr_block_size m = spec_block_size (mgr_spec m)"
      using f(4) by (simp_all add: static_ok_def)
    have d: "deferred m p hits \<longleftrightarrow> hits \<noteq> [] \<and>
        (case hash_of (blocks p ! last hits) of
             None \<Rightarrow> False | Some key \<Rightarrow> key \<in> cached_blocks_this_step m)"
      using k by (simp add: deferred_def)
    have e: "(if ns > 0 then n + spec_block_size (mgr_spec m) * ns else n) = eff_tokens m n"
      using k s by (simp add: eff_tokens_def)
    have "mamba_num_blocks_to_allocate m p mode ns rid n hits tot main =
        (if deferred m p hits then Inr (num_gpu_blocks p + 1, m)
         else res_bind (base_num_blocks_to_allocate m p rid (eff_tokens m n) hits tot) (\<lambda>n. Inr (n, m)))"
      unfolding mamba_num_blocks_to_allocate_def d [symmetric] e using s(1) by simp
    then show ?thesis
      using k x base [of "eff_tokens m n" tot]
      by (simp add: get_num_blocks_to_allocate_def blocks_needed_def growth_def)
  next
    case False
    then have e: "eff_tokens m n = n" and d: "\<not> deferred m p hits"
      by (auto simp: eff_tokens_def deferred_def split: spec_kind.splits)
    have "get_num_blocks_to_allocate m p rid n hits tot main =
        res_bind (base_num_blocks_to_allocate m p rid n hits tot) (\<lambda>n. Inr (n, m))"
      using False by (auto simp: get_num_blocks_to_allocate_def split: spec_kind.splits)
    then show ?thesis using x e d base [of n tot] by (simp add: blocks_needed_def growth_def)
  qed
qed

lemma count_all:
  assumes "i + length ms = length bss" and "\<forall>j < length ms. countable rid (ms ! j) (bss ! (i + j))"
  shows "each_manager (\<lambda>i m s.
          if is_cross_attention m then
            res_bind (get_num_blocks_to_allocate m p rid num_enc [] 0 num_enc) (\<lambda>(n, m'). Inr (n, m', s))
          else
            res_bind (py_get bss (int i)) (\<lambda>bs.
            res_bind (get_num_blocks_to_allocate m p rid n bs tot main) (\<lambda>(n, m'). Inr (n, m', s))))
        i ms () = Inr (map2 (blocks_needed p rid num_enc n tot) ms (drop i bss), ms, ())"
  using assms
proof (induction ms arbitrary: i)
  case Nil
  then show ?case by simp
next
  case (Cons m ms)
  have c: "countable rid m (bss ! i)" using Cons.prems(2) by (auto dest: spec [of _ 0])
  have i: "i < length bss" using Cons.prems(1) by simp
  have dr: "drop i bss = bss ! i # drop (Suc i) bss" using Cons_nth_drop_Suc [OF i] by simp
  have "\<forall>j < length ms. countable rid (ms ! j) (bss ! (Suc i + j))"
    using Cons.prems(2) by (auto dest: spec [of _ "Suc _"])
  then have IH: "each_manager (\<lambda>i m s.
          if is_cross_attention m then
            res_bind (get_num_blocks_to_allocate m p rid num_enc [] 0 num_enc) (\<lambda>(n, m'). Inr (n, m', s))
          else
            res_bind (py_get bss (int i)) (\<lambda>bs.
            res_bind (get_num_blocks_to_allocate m p rid n bs tot main) (\<lambda>(n, m'). Inr (n, m', s))))
        (Suc i) ms () = Inr (map2 (blocks_needed p rid num_enc n tot) ms (drop (Suc i) bss), ms, ())"
    using Cons.IH [of "Suc i"] Cons.prems(1) by simp
  show ?case
  proof (cases "is_cross_attention m")
    case True
    then show ?thesis using IH dr count_cross [OF c True] by (simp add: blocks_needed_def)
  next
    case False
    then show ?thesis using IH dr i count_other [OF c False, of p n tot main num_enc] by simp
  qed
qed

lemma coord_count:
  assumes "length bss = length (single_type_managers c)"
    and "\<forall>j < length bss. countable rid (single_type_managers c ! j) (bss ! j)"
  shows "coord_num_blocks_to_allocate c rid n bss num_enc tot main =
    Inr (sum_list (map2 (blocks_needed (block_pool c) rid num_enc n tot) (single_type_managers c) bss), c)"
  using count_all [of 0 "single_type_managers c" bss rid "block_pool c" num_enc n tot main] assms
  by (simp add: coord_num_blocks_to_allocate_def)

lemma blocks_needed_nonneg: "0 \<le> num_gpu_blocks p \<Longrightarrow> 0 \<le> blocks_needed p rid num_enc n tot m hits"
  by (simp add: blocks_needed_def growth_def get_num_evictable_blocks_def Let_def)

lemma free_le_total: "pool_good p \<Longrightarrow> get_num_free_blocks p < num_gpu_blocks p"
proof -
  assume "pool_good p"
  then obtain fl where ok: "pool_ok p fl" by (auto simp: pool_good_def)
  have "0 \<le> num_referenced p" by (simp add: num_referenced_def)
  then show ?thesis using free_plus_referenced [OF ok] by linarith
qed

lemma none_deferred:
  assumes good: "pool_good p" and len: "length bss = length ms"
    and sum: "sum_list (map2 (blocks_needed p rid num_enc n tot) ms bss) \<le> get_num_free_blocks p"
    and j: "j < length ms" and x: "\<not> is_cross_attention (ms ! j)"
  shows "\<not> deferred (ms ! j) p (bss ! j)"
proof
  assume d: "deferred (ms ! j) p (bss ! j)"
  let ?xs = "map2 (blocks_needed p rid num_enc n tot) ms bss"
  have pos: "0 \<le> get_num_free_blocks p"
    using good pool_ok_facts(8) by (auto simp: pool_good_def)
  then have g: "0 \<le> num_gpu_blocks p" using free_le_total [OF good] by linarith
  have "?xs ! j = num_gpu_blocks p + 1" using d x j len by (simp add: blocks_needed_def)
  moreover have "?xs ! j \<in> set ?xs" using j len by (intro nth_mem) simp
  moreover have "\<forall>x \<in> set ?xs. 0 \<le> x" using blocks_needed_nonneg [OF g] by auto
  ultimately have "num_gpu_blocks p + 1 \<le> sum_list ?xs" by (metis member_le_sum_list_int)
  then show False using sum free_le_total [OF good] by linarith
qed

section \<open>Admission\<close>

lemma same_static_tokens:
  assumes "same_static m m'"
  shows "eff_tokens m' n = eff_tokens m n" and "is_cross_attention m' = is_cross_attention m"
    and "tokens_for num_enc n m' = tokens_for num_enc n m" and "mgr_block_size m' = mgr_block_size m"
  using assms
  by (simp_all add: same_static_def eff_tokens_def is_cross_attention_def tokens_for_def split: spec_kind.split)

text \<open>The number counted before admission is what growth and hits cost afterwards.\<close>

lemma needed_fresh:
  assumes f: "fresh_for rid p m hits" and bs: "0 < mgr_block_size m"
    and a: "hits_added rid loc m hits m'" and d: "\<not> is_cross_attention m \<longrightarrow> \<not> deferred m p hits"
  shows "blocks_needed p rid num_enc n loc m hits =
    growth m' rid (tokens_for num_enc n m') + hit_cost p loc m hits"
proof (cases "is_cross_attention m")
  case True
  then show ?thesis using a by (simp add: blocks_needed_def hits_added_def tokens_for_def hit_cost_def)
next
  case False
  let ?k = "skipped_tokens (spec_kind (mgr_spec m)) loc"
  have st: "same_static m m'" and len: "int (length (blocks_of m' rid)) = prefix_len m ?k hits"
    using a False by (simp_all add: hits_added_def kept_def)
  have ha: "py_from hits (max 0 (?k div mgr_block_size m)) = hits_after m ?k hits"
    by (simp add: hits_after_def py_from_nonneg max_def)
  have e: "eff_tokens m' n = eff_tokens m n" "\<not> is_cross_attention m'"
    using same_static_tokens [OF st] False by simp_all
  have c: "num_cached_block m rid = None" "blocks_of m rid = []" using f False by (simp_all add: fresh_for_def)
  show ?thesis
    using False d c e st len
    by (simp add: blocks_needed_def growth_def tokens_for_def hit_cost_def ha same_static_def
        prefix_len_def Let_def)
qed

definition can_resume :: "req_id \<Rightarrow> int \<Rightarrow> manager \<Rightarrow> bool" where
  "can_resume rid tot m \<longleftrightarrow> static_ok m \<and>
     (if is_cross_attention m then num_cached_block m rid = None
      else num_cached_block m rid \<noteq> None \<or>
        skipped_tokens (spec_kind (mgr_spec m)) tot div mgr_block_size m \<le> int (length (blocks_of m rid)))"

lemma needed_resumable:
  "can_resume rid tot m \<Longrightarrow> blocks_needed p rid num_enc n tot m [] = growth m rid (tokens_for num_enc n m)"
  by (auto simp: can_resume_def blocks_needed_def tokens_for_def growth_def deferred_def
      get_num_evictable_blocks_def py_from_def Let_def split: spec_kind.splits)

definition enough_slots :: "req_id \<Rightarrow> int \<Rightarrow> int \<Rightarrow> manager list \<Rightarrow> bool" where
  "enough_slots rid num_enc n ms \<longleftrightarrow>
     (\<forall>m \<in> set ms. eff_tokens m (tokens_for num_enc n m) \<le> int (length (blocks_of m rid)) * mgr_block_size m)"

lemma grown_enough: "list_all2 (grown rid num_enc n) ms ms' \<Longrightarrow> enough_slots rid num_enc n ms'"
  unfolding enough_slots_def
proof
  fix m' assume l: "list_all2 (grown rid num_enc n) ms ms'" and "m' \<in> set ms'"
  then obtain m where "grown rid num_enc n m m'"
    by (auto simp: in_set_conv_nth list_all2_conv_all_nth)
  then show "eff_tokens m' (tokens_for num_enc n m') \<le> int (length (blocks_of m' rid)) * mgr_block_size m'"
    using same_static_tokens [of m m'] by (simp add: grown_def)
qed

lemma coord_grow:
  assumes "mgrs_ok (single_type_managers c) (block_pool c)"
    and "\<forall>m \<in> set (single_type_managers c). static_ok m"
    and "sum_list (map (\<lambda>m. growth m rid (tokens_for num_enc n m)) (single_type_managers c))
      \<le> get_num_free_blocks (block_pool c)"
  shows "\<exists>news ms' p'. coord_allocate_new_blocks rid n main num_enc c =
       Inr (news, c\<lparr>single_type_managers := ms', block_pool := p'\<rparr>) \<and> mgrs_ok ms' p' \<and>
     same_frame (block_pool c) p' \<and> list_all2 (grown rid num_enc n) (single_type_managers c) ms'"
proof -
  obtain news ms' p' where g: "each_manager (\<lambda>i m p. allocate_new_blocks rid
        (if is_cross_attention m then num_enc else n) main m p) 0 (single_type_managers c) (block_pool c) =
      Inr (news, ms', p')" "mgrs_ok ([] @ ms') p'" "same_frame (block_pool c) p'"
    "list_all2 (grown rid num_enc n) (single_type_managers c) ms'"
    using grow_all [where pre = "[]" and i = 0 and main = main, OF _ assms(2,3)] assms(1) by auto
  then have "coord_allocate_new_blocks rid n main num_enc c =
       Inr (news, c\<lparr>single_type_managers := ms', block_pool := p'\<rparr>)"
    by (simp add: coord_allocate_new_blocks_def on_managers_def)
  then show ?thesis using g(2-4) by auto
qed

lemma coord_admit_new:
  fixes c :: coordinator
  defines "ms \<equiv> single_type_managers c" and "p \<equiv> block_pool c"
  assumes ok: "mgrs_ok ms p" and len: "length bss = length ms"
    and fresh: "\<forall>j < length ms. fresh_for rid p (ms ! j) (bss ! j)"
    and free: "sum_list (map2 (blocks_needed p rid num_enc n loc) ms bss) \<le> get_num_free_blocks p"
  shows "\<exists>c3 news ms' p'. coord_allocate_new_computed_blocks rid bss loc 0 c = Inr c3 \<and>
     coord_allocate_new_blocks rid n main num_enc c3 =
       Inr (news, c\<lparr>single_type_managers := ms', block_pool := p'\<rparr>) \<and> mgrs_ok ms' p' \<and>
     same_frame p p' \<and> list_all2 (kept rid) ms ms' \<and> enough_slots rid num_enc n ms'"
proof -
  have good: "pool_good p" using ok by (simp add: mgrs_ok_def)
  from add_hits_all [of "[]" ms p 0 bss rid loc] ok len fresh obtain as ms1 p1 where
    a: "each_manager (\<lambda>i m p.
          res_bind (py_get bss (int i)) (\<lambda>bs.
          res_bind (allocate_new_computed_blocks rid bs loc 0 m p) (\<lambda>(m', p'). Inr ((), m', p'))))
        0 ms p = Inr (as, ms1, p1)" "mgrs_ok ms1 p1" "same_frame p p1"
      "get_num_free_blocks p - sum_list (map2 (hit_cost p loc) ms bss) \<le> get_num_free_blocks p1"
      "length ms1 = length ms" "\<forall>j < length ms. hits_added rid loc (ms ! j) (bss ! j) (ms1 ! j)"
    by auto
  let ?c3 = "c\<lparr>single_type_managers := ms1, block_pool := p1\<rparr>"
  have run: "coord_allocate_new_computed_blocks rid bss loc 0 c = Inr ?c3"
    using a(1) by (simp add: coord_allocate_new_computed_blocks_def on_managers_def ms_def p_def)
  have st: "list_all2 (kept rid) ms ms1"
    using a(5,6) by (auto simp: list_all2_conv_all_nth hits_added_def)
  have st_ok: "\<forall>m \<in> set ms1. static_ok m"
  proof
    fix m assume "m \<in> set ms1"
    then obtain j where j: "j < length ms" "m = ms1 ! j" using a(5) by (auto simp: in_set_conv_nth)
    then have "static_ok (ms ! j)" "same_static (ms ! j) m"
      using fresh st by (auto simp: fresh_for_def list_all2_conv_all_nth kept_def)
    then show "static_ok m" by (simp add: static_ok_cong)
  qed
  have "blocks_needed p rid num_enc n loc (ms ! j) (bss ! j) =
      growth (ms1 ! j) rid (tokens_for num_enc n (ms1 ! j)) + hit_cost p loc (ms ! j) (bss ! j)"
    if j: "j < length ms" for j
  proof (rule needed_fresh)
    show "fresh_for rid p (ms ! j) (bss ! j)" "hits_added rid loc (ms ! j) (bss ! j) (ms1 ! j)"
      using fresh a(6) j by simp_all
    show "0 < mgr_block_size (ms ! j)" using ok j by (simp add: mgrs_ok_def mgr_ok_def)
    show "\<not> is_cross_attention (ms ! j) \<longrightarrow> \<not> deferred (ms ! j) p (bss ! j)"
      using none_deferred [OF good len free j] by simp
  qed
  then have "sum_list (map2 (blocks_needed p rid num_enc n loc) ms bss) =
      sum_list (map (\<lambda>m. growth m rid (tokens_for num_enc n m)) ms1) +
      sum_list (map2 (hit_cost p loc) ms bss)"
    using len a(5) by (simp add: sum_list_sum_nth sum.distrib)
  then have "sum_list (map (\<lambda>m. growth m rid (tokens_for num_enc n m)) ms1) \<le> get_num_free_blocks p1"
    using free a(4) by linarith
  with coord_grow [of ?c3 rid num_enc n main] a(2) st_ok obtain news ms' p' where
    g: "coord_allocate_new_blocks rid n main num_enc ?c3 =
       Inr (news, ?c3\<lparr>single_type_managers := ms', block_pool := p'\<rparr>)" "mgrs_ok ms' p'"
      "same_frame p1 p'" "list_all2 (grown rid num_enc n) ms1 ms'"
    by auto
  have "list_all2 (kept rid) ms1 ms'"
    using g(4) by (auto simp: list_all2_conv_all_nth grown_def kept_def)
  then have "list_all2 (kept rid) ms ms'" by (rule all_kept_trans [OF st])
  then show ?thesis
    using run g(1,2) same_frame_trans [OF a(3) g(3)] grown_enough [OF g(4)] by auto
qed

lemma coord_admit_resumed:
  fixes c :: coordinator
  defines "ms \<equiv> single_type_managers c" and "p \<equiv> block_pool c"
  assumes ok: "mgrs_ok ms p" and res: "\<forall>m \<in> set ms. can_resume rid tot m"
    and free: "sum_list (map2 (blocks_needed p rid num_enc n tot) ms (replicate (length ms) []))
      \<le> get_num_free_blocks p"
  shows "\<exists>news ms' p'. coord_allocate_new_blocks rid n main num_enc c =
       Inr (news, c\<lparr>single_type_managers := ms', block_pool := p'\<rparr>) \<and> mgrs_ok ms' p' \<and>
     same_frame p p' \<and> list_all2 (kept rid) ms ms' \<and> enough_slots rid num_enc n ms'"
proof -
  have "map2 (blocks_needed p rid num_enc n tot) ms (replicate (length ms) []) =
      map (\<lambda>m. growth m rid (tokens_for num_enc n m)) ms"
    using res by (intro nth_equalityI) (simp_all add: needed_resumable)
  then have "sum_list (map (\<lambda>m. growth m rid (tokens_for num_enc n m)) ms) \<le> get_num_free_blocks p"
    using free by simp
  with coord_grow [of c rid num_enc n main] ok res obtain news ms' p' where
    g: "coord_allocate_new_blocks rid n main num_enc c =
       Inr (news, c\<lparr>single_type_managers := ms', block_pool := p'\<rparr>)" "mgrs_ok ms' p'"
      "same_frame p p'" "list_all2 (grown rid num_enc n) ms ms'"
    unfolding ms_def p_def can_resume_def by blast
  have "list_all2 (kept rid) ms ms'"
    using g(4) by (auto simp: list_all2_conv_all_nth grown_def kept_def)
  then show ?thesis using g grown_enough [OF g(4)] by blast
qed

section \<open>Caching on all managers\<close>

lemma note_cached_all:
  assumes "pool_ok p fl" and "\<forall>b \<in> set bs. b < length (blocks p) \<and> (b \<noteq> 0 \<longrightarrow> tags p b \<noteq> None)"
  shows "\<exists>S. fold_res (note_cached p) bs m = Inr (m\<lparr>cached_blocks_this_step := S\<rparr>)"
  using assms(2)
proof (induction bs arbitrary: m)
  case Nil
  then show ?case by (intro exI [of _ "cached_blocks_this_step m"]) simp
next
  case (Cons b bs)
  have "\<exists>S. note_cached p b m = Inr (m\<lparr>cached_blocks_this_step := S\<rparr>)"
  proof (cases "b = 0")
    case True
    then have "note_cached p b m = Inr m"
      using Cons.prems pool_ok_is_null [OF assms(1), of b] by (simp add: note_cached_def)
    then show ?thesis by (intro exI [of _ "cached_blocks_this_step m"]) simp
  next
    case False
    then obtain key where "hash_of (blocks p ! b) = Some key"
      using Cons.prems by (auto simp: tags_def)
    then show ?thesis
      using False Cons.prems pool_ok_is_null [OF assms(1), of b]
      by (intro exI [of _ "insert key (cached_blocks_this_step m)"]) (simp add: note_cached_def)
  qed
  then obtain S where S: "note_cached p b m = Inr (m\<lparr>cached_blocks_this_step := S\<rparr>)" ..
  obtain S' where "fold_res (note_cached p) bs (m\<lparr>cached_blocks_this_step := S\<rparr>) =
      Inr (m\<lparr>cached_blocks_this_step := S\<rparr>\<lparr>cached_blocks_this_step := S'\<rparr>)"
    using Cons.IH [of "m\<lparr>cached_blocks_this_step := S\<rparr>"] Cons.prems by auto
  then show ?case using S by (intro exI [of _ S']) simp
qed

lemma mgr_ok_note [simp]: "mgr_ok (m\<lparr>cached_blocks_this_step := S\<rparr>) p = mgr_ok m p"
  by (simp add: mgr_ok_def blocks_of_def cached_count_def held_def)

lemma step_ok_note: "step_ok m p m' p' \<Longrightarrow> step_ok m p (m'\<lparr>cached_blocks_this_step := S\<rparr>) p'"
  by (simp add: step_ok_def same_static_def held_def)

text \<open>The blocks counted as cached carry a hash.\<close>

lemma cached_tags:
  assumes ok: "mgr_ok m p" and pok: "pool_ok p fl" and rid: "rid = request_id r"
    and run: "base_cache_blocks sha r n m p = Inr (r', m', p')"
    and more: "cached_count m rid < cached_count m' rid"
    and b: "b \<in> set (py_slice (blocks_of m' rid) (cached_count m rid) (cached_count m' rid))" "b \<noteq> 0"
  shows "tags p' b \<noteq> None"
proof -
  note f = mgr_ok_facts [OF ok]
  let ?bs = "blocks_of m rid" and ?c = "cached_count m rid" and ?n = "n div mgr_block_size m"
  have lt: "\<not> ?c \<ge> ?n"
    using run rid f(2) more by (auto simp: base_cache_blocks_def cached_count_def)
  have c: "cache_full_blocks sha p r ?bs ?c ?n (mgr_block_size m) (kv_cache_group_id m) = Inr (p', r')"
    and m': "m' = (touch_entry rid m)\<lparr>num_cached_block := (num_cached_block m)(rid := Some ?n)\<rparr>"
    using run rid f(2) lt by (auto simp: base_cache_blocks_def cached_count_def res_simps Let_def)
  have bs': "blocks_of m' rid = ?bs" "cached_count m' rid = ?n"
    using m' blocks_of_cong [of m' "touch_entry rid m" rid] by (simp_all add: touch_entry_def cached_count_def)
  have inb: "\<forall>b \<in> set ?bs. b < length (blocks p)" using f(4) by blast
  have sl: "py_slice ?bs ?c ?n = drop (nat ?c) (take (nat ?n) ?bs)"
    using f(6) [of rid] lt by (intro py_slice_nonneg) linarith+
  then obtain j where j: "j < length (drop (nat ?c) (take (nat ?n) ?bs))"
    "drop (nat ?c) (take (nat ?n) ?bs) ! j = b"
    using b(1) unfolding bs' sl by (auto simp: in_set_conv_nth)
  then have i: "nat ?c + j < length ?bs" "?bs ! (nat ?c + j) = b" "nat ?c + j < nat ?n"
    using nth_drop_take [of j "nat ?c" "nat ?n" ?bs] by simp_all
  then have "?c \<le> int (nat ?c + j) \<and> int (nat ?c + j) < ?n"
    using f(6) [of rid] by linarith
  then show ?thesis
    using cache_full_blocks_effect [OF c pok inb f(6)] i b(2) by blast
qed

definition hashes_ready :: "block_pool \<Rightarrow> request \<Rightarrow> int \<Rightarrow> manager \<Rightarrow> bool" where
  "hashes_ready p r n m \<longleftrightarrow>
     (\<exists>hs. hashes_at p r (mgr_block_size m) = Inr hs \<and> n div mgr_block_size m \<le> int (length hs)) \<and>
     n div mgr_block_size m \<le> int (length (block_hashes r)) \<and>
     (mgr_block_size m = hash_block_size p \<or>
      hash_block_size p \<noteq> 0 \<and> mgr_block_size m mod hash_block_size p = 0)"

lemma hashes_ready_cong:
  "same_frame p q \<Longrightarrow> same_static m m' \<Longrightarrow> hashes_ready q r n m' = hashes_ready p r n m"
  by (simp add: hashes_ready_def hashes_at_def same_frame_def same_static_def)

lemma cache_one:
  assumes ok: "mgr_ok m p" and good: "pool_good p" and x: "\<not> is_cross_attention m"
    and cach: "enable_caching p" and ev: "\<not> enable_kv_cache_events p" and h: "hashes_ready p r n m"
  shows "\<exists>m' p'. cache_blocks sha r n m p = Inr (r, m', p') \<and> pool_good p' \<and> step_ok m p m' p' \<and>
     (\<forall>x. blocks_of m' x = blocks_of m x) \<and> refs p' = refs p"
proof -
  let ?rid = "request_id r"
  obtain fl where pok: "pool_ok p fl" using good by (auto simp: pool_good_def)
  obtain hs where hs: "hashes_at p r (mgr_block_size m) = Inr hs" "n div mgr_block_size m \<le> int (length hs)"
    "n div mgr_block_size m \<le> int (length (block_hashes r))"
    "mgr_block_size m = hash_block_size p \<or>
      hash_block_size p \<noteq> 0 \<and> mgr_block_size m mod hash_block_size p = 0"
    using h by (auto simp: hashes_ready_def)
  obtain m1 p1 where run: "base_cache_blocks sha r n m p = Inr (r, m1, p1)"
    using cache_total [OF ok pok ev hs] by blast
  note e = cache_effect [OF ok pok refl run cach]
  have pok1: "pool_ok p1 fl" and st: "step_ok m p m1 p1" and bl: "\<forall>x. blocks_of m1 x = blocks_of m x"
    and rf: "refs p1 = refs p" using e by blast+
  show ?thesis
  proof (cases "\<exists>mode ns. spec_kind (mgr_spec m) = Mamba mode ns \<and>
      cached_count m ?rid < cached_count m1 ?rid")
    case False
    then have "cache_blocks sha r n m p = Inr (r, m1, p1)"
      using run x by (auto simp: cache_blocks_def is_cross_attention_def cached_count_def split: spec_kind.splits)
    then show ?thesis using pok1 st bl rf by (auto simp: pool_good_def)
  next
    case True
    then obtain mode ns where k: "spec_kind (mgr_spec m) = Mamba mode ns"
      and lt: "cached_count m ?rid < cached_count m1 ?rid" by blast
    let ?sl = "py_slice (blocks_of m1 ?rid) (cached_count m ?rid) (cached_count m1 ?rid)"
    have "b < length (blocks p1) \<and> (b \<noteq> 0 \<longrightarrow> tags p1 b \<noteq> None)" if "b \<in> set ?sl" for b
    proof
      have "b \<in> set (blocks_of m1 ?rid)" using that set_py_slice by (rule subsetD [rotated])
      then show "b < length (blocks p1)" by (rule mgr_ok_facts(4) [OF step_ok_mgr [OF st]])
      show "b \<noteq> 0 \<longrightarrow> tags p1 b \<noteq> None" using cached_tags [OF ok pok refl run lt that] by blast
    qed
    then have sl: "\<forall>b \<in> set ?sl. b < length (blocks p1) \<and> (b \<noteq> 0 \<longrightarrow> tags p1 b \<noteq> None)" by blast
    obtain S where S: "fold_res (note_cached p1) ?sl (touch_entry ?rid m1) =
        Inr ((touch_entry ?rid m1)\<lparr>cached_blocks_this_step := S\<rparr>)"
      using note_cached_all [OF pok1 sl] by blast
    let ?m2 = "(touch_entry ?rid m1)\<lparr>cached_blocks_this_step := S\<rparr>"
    have "cache_blocks sha r n m p = Inr (r, ?m2, p1)"
      using run k lt S by (simp add: cache_blocks_def cached_count_def Let_def)
    moreover have "step_ok m p ?m2 p1"
      by (rule step_ok_note [OF step_ok_trans [OF st touch_entry_ok [OF step_ok_mgr [OF st]]]])
    moreover have "\<forall>x. blocks_of ?m2 x = blocks_of m x"
    proof
      fix x
      have "blocks_of ?m2 x = blocks_of (touch_entry ?rid m1) x" by (rule blocks_of_cong) simp
      then show "blocks_of ?m2 x = blocks_of m x" using bl by (simp add: touch_entry_def)
    qed
    ultimately show ?thesis using pok1 rf by (auto simp: pool_good_def)
  qed
qed

lemma cache_all:
  assumes "mgrs_ok (pre @ ms) p" and "\<forall>m \<in> set ms. \<not> is_cross_attention m \<and> hashes_ready p r n m"
    and "enable_caching p" and "\<not> enable_kv_cache_events p"
  shows "\<exists>as ms' p'. each_manager (\<lambda>i m s.
          res_bind (cache_blocks sha (fst s) n m (snd s)) (\<lambda>(r', m', p'). Inr ((), m', (r', p'))))
        i ms (r, p) = Inr (as, ms', (r, p')) \<and> mgrs_ok (pre @ ms') p' \<and> same_frame p p' \<and>
     refs p' = refs p \<and>
     list_all2 (\<lambda>m m'. same_static m m' \<and> (\<forall>x. blocks_of m' x = blocks_of m x)) ms ms'"
  using assms
proof (induction ms arbitrary: i pre p)
  case Nil
  then show ?case by simp
next
  case (Cons m ms)
  have m: "mgr_ok m p" "pool_good p" "\<not> is_cross_attention m" "hashes_ready p r n m"
    using Cons.prems by (simp_all add: mgrs_ok_def)
  obtain m' q where e: "cache_blocks sha r n m p = Inr (r, m', q)" "pool_good q" "step_ok m p m' q"
    "\<forall>x. blocks_of m' x = blocks_of m x" "refs q = refs p"
    using cache_one [OF m(1-3) Cons.prems(3,4) m(4)] by blast
  have fr: "same_frame p q" and sm: "same_static m m'" using e(3) by (simp_all add: step_ok_def)
  have ok': "mgrs_ok ((pre @ [m']) @ ms) q" using mgrs_ok_step [OF Cons.prems(1) e(3,2)] by simp
  have "\<forall>m \<in> set ms. \<not> is_cross_attention m \<and> hashes_ready q r n m"
  proof
    fix x assume "x \<in> set ms"
    then show "\<not> is_cross_attention x \<and> hashes_ready q r n x"
      using Cons.prems(2) hashes_ready_cong [OF fr, of x x] by (simp add: same_static_def)
  qed
  from Cons.IH [OF ok' this, of "Suc i"] Cons.prems(3,4) fr obtain as ms' p' where
    r: "each_manager (\<lambda>i m s.
          res_bind (cache_blocks sha (fst s) n m (snd s)) (\<lambda>(r', m', p'). Inr ((), m', (r', p'))))
        (Suc i) ms (r, q) = Inr (as, ms', (r, p'))" "mgrs_ok ((pre @ [m']) @ ms') p'" "same_frame q p'"
      "refs p' = refs q"
      "list_all2 (\<lambda>m m'. same_static m m' \<and> (\<forall>x. blocks_of m' x = blocks_of m x)) ms ms'"
    by (auto simp: same_frame_def)
  then show ?case using e same_frame_trans [OF fr r(3)] sm by auto
qed

lemma coord_cache_total:
  assumes "mgrs_ok (single_type_managers c) (block_pool c)"
    and "\<forall>m \<in> set (single_type_managers c). \<not> is_cross_attention m \<and> hashes_ready (block_pool c) r n m"
    and "enable_caching (block_pool c)" and "\<not> enable_kv_cache_events (block_pool c)"
  shows "\<exists>ms' p'. coord_cache_blocks sha r n c = Inr (r, c\<lparr>single_type_managers := ms', block_pool := p'\<rparr>) \<and>
     mgrs_ok ms' p' \<and> same_frame (block_pool c) p' \<and> refs p' = refs (block_pool c) \<and>
     list_all2 (\<lambda>m m'. same_static m m' \<and> (\<forall>x. blocks_of m' x = blocks_of m x)) (single_type_managers c) ms'"
proof -
  obtain as ms' p' where e: "each_manager (\<lambda>i m s.
          res_bind (cache_blocks sha (fst s) n m (snd s)) (\<lambda>(r', m', p'). Inr ((), m', (r', p'))))
        0 (single_type_managers c) (r, block_pool c) = Inr (as, ms', (r, p'))" "mgrs_ok ([] @ ms') p'"
      "same_frame (block_pool c) p'" "refs p' = refs (block_pool c)"
      "list_all2 (\<lambda>m m'. same_static m m' \<and> (\<forall>x. blocks_of m' x = blocks_of m x)) (single_type_managers c) ms'"
    using cache_all [where pre = "[]" and i = 0 and sha = sha, OF _ assms(2-4)] assms(1) by auto
  then have "coord_cache_blocks sha r n c = Inr (r, c\<lparr>single_type_managers := ms', block_pool := p'\<rparr>)"
    by (simp add: coord_cache_blocks_def)
  then show ?thesis using e(2-5) by auto
qed

end
