(* ===== verification/KV_Cache_Manager.thy ===== *)
theory KV_Cache_Manager
  imports KV_Admission
begin

text \<open>
  \<^verbatim>\<open>vllm/v1/core/kv_cache_manager.py\<close>: the interface of the scheduler to the KV cache, with the
  prefix cache statistics of \<^verbatim>\<open>vllm/v1/metrics/stats.py\<close>. \<open>allocate_slots\<close> is the operation by
  which a request gets its blocks; it returns \<open>None\<close> when the free blocks do not suffice.
\<close>

section \<open>Blocks of a request\<close>

text \<open>
  \<open>KVCacheBlocks\<close>. The code compares one pre-built empty instance by identity; it is the
  constructor \<open>EmptyBlocks\<close> here, any other instance is \<open>KVBlocks\<close>.
\<close>

datatype kv_cache_blocks = EmptyBlocks | KVBlocks "nat list list"

definition group_blocks :: "nat \<Rightarrow> kv_cache_blocks \<Rightarrow> nat list list" where
  "group_blocks n kb = (case kb of EmptyBlocks \<Rightarrow> replicate n [] | KVBlocks bss \<Rightarrow> bss)"

definition add_kv_cache_blocks :: "nat \<Rightarrow> kv_cache_blocks \<Rightarrow> kv_cache_blocks \<Rightarrow> kv_cache_blocks" where
  "add_kv_cache_blocks n a b = KVBlocks (map2 (@) (group_blocks n a) (group_blocks n b))"

definition kv_block_ids :: "nat \<Rightarrow> bool \<Rightarrow> kv_cache_blocks \<Rightarrow> nat list list option" where
  "kv_block_ids n allow_none kb =
     (let bss = group_blocks n kb in
      if allow_none \<and> list_all (\<lambda>bs. bs = []) bss then None else Some bss)"

definition unhashed_block_ids :: "nat \<Rightarrow> block_pool \<Rightarrow> kv_cache_blocks \<Rightarrow> nat list res" where
  "unhashed_block_ids n p kb =
     (let bss = group_blocks n kb in
      require (length bss = 1) AssertionError
        (Inr (filter (\<lambda>b. hash_of (blocks p ! b) = None) (hd bss))))"

definition unhashed_block_ids_all_groups :: "nat \<Rightarrow> block_pool \<Rightarrow> kv_cache_blocks \<Rightarrow> nat list list" where
  "unhashed_block_ids_all_groups n p kb =
     map (filter (\<lambda>b. hash_of (blocks p ! b) = None \<and> \<not> is_null (blocks p ! b))) (group_blocks n kb)"

definition new_empty :: "nat \<Rightarrow> kv_cache_blocks \<Rightarrow> kv_cache_blocks" where
  "new_empty n kb = KVBlocks (map (\<lambda>_. []) (group_blocks n kb))"

section \<open>Statistics\<close>

record prefix_cache_stats =
  stats_reset :: bool
  stats_requests :: int
  stats_queries :: int
  stats_hits :: int
  preempted_requests :: int
  preempted_queries :: int
  preempted_hits :: int

definition new_stats :: prefix_cache_stats where
  "new_stats = \<lparr>stats_reset = False, stats_requests = 0, stats_queries = 0, stats_hits = 0,
     preempted_requests = 0, preempted_queries = 0, preempted_hits = 0\<rparr>"

definition record_stats :: "int \<Rightarrow> int \<Rightarrow> bool \<Rightarrow> prefix_cache_stats \<Rightarrow> prefix_cache_stats" where
  "record_stats num_tok num_hits preempted s =
     (if preempted then
        s\<lparr>preempted_requests := preempted_requests s + 1,
          preempted_queries := preempted_queries s + num_tok,
          preempted_hits := preempted_hits s + num_hits\<rparr>
      else
        s\<lparr>stats_requests := stats_requests s + 1, stats_queries := stats_queries s + num_tok,
          stats_hits := stats_hits s + num_hits\<rparr>)"

section \<open>The manager\<close>

record kv_cache_manager =
  kvm_max_model_len :: int
  kvm_caching :: bool
  kvm_eagle :: bool
  kvm_stats :: "prefix_cache_stats option"
  coordinator :: coordinator
  num_kv_cache_groups :: nat

definition init_kv_cache_manager ::
  "kv_cache_spec list \<Rightarrow> int \<Rightarrow> int \<Rightarrow> int \<Rightarrow> bool \<Rightarrow> bool \<Rightarrow> bool \<Rightarrow> bool \<Rightarrow> bool \<Rightarrow> int \<Rightarrow> int \<Rightarrow>
   kv_cache_manager res" where
  "init_kv_cache_manager specs num_blocks max_len hash_bs caching eagle log_stats events use_int
     dcp pcp =
     res_bind (get_kv_cache_coordinator specs num_blocks max_len eagle caching events use_int dcp pcp
                 hash_bs) (\<lambda>c.
       Inr \<lparr>kvm_max_model_len = max_len, kvm_caching = caching, kvm_eagle = eagle,
            kvm_stats = (if log_stats then Some new_stats else None), coordinator = c,
            num_kv_cache_groups = length specs\<rparr>)"

definition create_kv_cache_blocks :: "nat list list \<Rightarrow> kv_cache_blocks" where
  "create_kv_cache_blocks bss = (if list_ex (\<lambda>bs. bs \<noteq> []) bss then KVBlocks bss else EmptyBlocks)"

definition make_prefix_cache_stats ::
  "kv_cache_manager \<Rightarrow> prefix_cache_stats option \<times> kv_cache_manager" where
  "make_prefix_cache_stats k =
     (case kvm_stats k of
        None \<Rightarrow> (None, k)
      | Some s \<Rightarrow> (Some s, k\<lparr>kvm_stats := Some new_stats\<rparr>))"

text \<open>The length bound leaves the last token to be computed, since its logits are needed.\<close>

definition get_computed_blocks ::
  "request \<Rightarrow> kv_cache_manager \<Rightarrow> ((kv_cache_blocks \<times> int) \<times> kv_cache_manager) res option" where
  "get_computed_blocks r k =
     (if \<not> kvm_caching k \<or> skip_reading_prefix_cache r then Some (Inr ((EmptyBlocks, 0), k))
      else
        map_option (map_sum id (\<lambda>(bss, n).
          ((create_kv_cache_blocks bss, n),
           k\<lparr>kvm_stats := map_option (record_stats (num_tokens r) n (num_preemptions r > 0))
                            (kvm_stats k)\<rparr>)))
          (coord_find_longest_cache_hit (coordinator k) (block_hashes r) (num_tokens r - 1)))"

text \<open>
  The arguments of \<open>allocate_slots\<close> that callers may leave out, and the three token counts it
  computes: of all computed tokens, of the target model, and of the tokens that need a slot.
\<close>

record slot_args =
  num_new_tokens :: int
  num_new_computed_tokens :: int
  new_computed_blocks :: "kv_cache_blocks option"
  num_lookahead_tokens :: int
  num_external_tokens :: int
  delay_cache_blocks :: bool
  num_encoder_tokens :: int

definition default_slots :: "int \<Rightarrow> slot_args" where
  "default_slots n = \<lparr>num_new_tokens = n, num_new_computed_tokens = 0, new_computed_blocks = None,
     num_lookahead_tokens = 0, num_external_tokens = 0, delay_cache_blocks = False,
     num_encoder_tokens = 0\<rparr>"

definition local_computed_tokens :: "request \<Rightarrow> slot_args \<Rightarrow> int" where
  "local_computed_tokens r a = num_computed_tokens r + num_new_computed_tokens a"

definition total_computed_tokens :: "kv_cache_manager \<Rightarrow> request \<Rightarrow> slot_args \<Rightarrow> int" where
  "total_computed_tokens k r a =
     min (local_computed_tokens r a + num_external_tokens a) (kvm_max_model_len k)"

definition tokens_main_model :: "kv_cache_manager \<Rightarrow> request \<Rightarrow> slot_args \<Rightarrow> int" where
  "tokens_main_model k r a = total_computed_tokens k r a + num_new_tokens a"

definition tokens_need_slot :: "kv_cache_manager \<Rightarrow> request \<Rightarrow> slot_args \<Rightarrow> int" where
  "tokens_need_slot k r a = min (tokens_main_model k r a + num_lookahead_tokens a) (kvm_max_model_len k)"

definition set_coord :: "coordinator \<Rightarrow> kv_cache_manager \<Rightarrow> kv_cache_manager" where
  "set_coord c k = k\<lparr>coordinator := c\<rparr>"

definition given_blocks :: "slot_args \<Rightarrow> kv_cache_blocks" where
  "given_blocks a = (case new_computed_blocks a of None \<Rightarrow> EmptyBlocks | Some kb \<Rightarrow> kb)"

definition allocate_slots ::
  "(byte list \<Rightarrow> block_hash) \<Rightarrow> request \<Rightarrow> slot_args \<Rightarrow> kv_cache_manager \<Rightarrow>
   (kv_cache_blocks option \<times> request \<times> kv_cache_manager) res" where
  "allocate_slots sha r a k =
     (if num_new_tokens a = 0 \<and> num_external_tokens a = 0 then Inl ValueError
      else
        let rid = request_id r;
            kb = given_blocks a;
            blks = group_blocks (num_kv_cache_groups k) kb;
            num_local = local_computed_tokens r a;
            num_need = tokens_need_slot k r a;
            num_main = tokens_main_model k r a
        in
        res_bind (coord_remove_skipped_blocks rid (total_computed_tokens k r a) (coordinator k)) (\<lambda>c1.
        res_bind (coord_num_blocks_to_allocate c1 rid num_need blks (num_encoder_tokens a)
                    (num_local + num_external_tokens a) num_main) (\<lambda>(n, c2).
        if n > get_num_free_blocks (block_pool c2) then Inr (None, r, set_coord c2 k)
        else
          res_bind
            (if kb \<noteq> EmptyBlocks \<or> num_external_tokens a > 0 then
               coord_allocate_new_computed_blocks rid blks num_local (num_external_tokens a) c2
             else Inr c2) (\<lambda>c3.
          res_bind (coord_allocate_new_blocks rid num_need num_main (num_encoder_tokens a) c3)
            (\<lambda>(new_blocks, c4).
          if \<not> kvm_caching k \<or> delay_cache_blocks a then
            Inr (Some (create_kv_cache_blocks new_blocks), r, set_coord c4 k)
          else
            res_bind (coord_cache_blocks sha r (min (tokens_main_model k r a) (num_tokens r)) c4)
              (\<lambda>(r', c5). Inr (Some (create_kv_cache_blocks new_blocks), r', set_coord c5 k)))))))"

definition kvm_free :: "request \<Rightarrow> kv_cache_manager \<Rightarrow> kv_cache_manager res" where
  "kvm_free r k = res_bind (coord_free (request_id r) (coordinator k)) (\<lambda>c. Inr (set_coord c k))"

definition kvm_remove_skipped_blocks ::
  "req_id \<Rightarrow> int \<Rightarrow> kv_cache_manager \<Rightarrow> kv_cache_manager res" where
  "kvm_remove_skipped_blocks rid n k =
     res_bind (coord_remove_skipped_blocks rid n (coordinator k)) (\<lambda>c. Inr (set_coord c k))"

definition kvm_evict_blocks :: "int list \<Rightarrow> kv_cache_manager \<Rightarrow> kv_cache_manager res" where
  "kvm_evict_blocks ids k =
     res_bind (evict_blocks ids (block_pool (coordinator k))) (\<lambda>p.
       Inr (set_coord ((coordinator k)\<lparr>block_pool := p\<rparr>) k))"

definition kvm_reset_prefix_cache :: "kv_cache_manager \<Rightarrow> bool \<times> kv_cache_manager" where
  "kvm_reset_prefix_cache k =
     (case reset_prefix_cache (block_pool (coordinator k)) of
        (False, p) \<Rightarrow> (False, set_coord ((coordinator k)\<lparr>block_pool := p\<rparr>) k)
      | (True, p) \<Rightarrow>
          (True, (set_coord ((coordinator k)\<lparr>block_pool := p\<rparr>) k)
                   \<lparr>kvm_stats := map_option (\<lambda>s. s\<lparr>stats_reset := True\<rparr>) (kvm_stats k)\<rparr>))"

definition kvm_common_prefix_blocks :: "req_id \<Rightarrow> kv_cache_manager \<Rightarrow> int list \<times> kv_cache_manager" where
  "kvm_common_prefix_blocks rid k =
     (case coord_common_prefix_blocks rid (coordinator k) of (ns, c) \<Rightarrow> (ns, set_coord c k))"

definition kvm_take_events :: "kv_cache_manager \<Rightarrow> kv_event list \<times> kv_cache_manager" where
  "kvm_take_events k =
     (case take_events (block_pool (coordinator k)) of
        (es, p) \<Rightarrow> (es, set_coord ((coordinator k)\<lparr>block_pool := p\<rparr>) k))"

definition kvm_get_blocks :: "req_id \<Rightarrow> kv_cache_manager \<Rightarrow> kv_cache_blocks" where
  "kvm_get_blocks rid k = create_kv_cache_blocks (coord_get_blocks rid (coordinator k))"

definition kvm_get_block_ids :: "req_id \<Rightarrow> kv_cache_manager \<Rightarrow> nat list list option" where
  "kvm_get_block_ids rid k = kv_block_ids (num_kv_cache_groups k) False (kvm_get_blocks rid k)"

definition kvm_cache_blocks ::
  "(byte list \<Rightarrow> block_hash) \<Rightarrow> request \<Rightarrow> int \<Rightarrow> kv_cache_manager \<Rightarrow> (request \<times> kv_cache_manager) res" where
  "kvm_cache_blocks sha r n k =
     (if kvm_caching k then
        res_bind (coord_cache_blocks sha r n (coordinator k)) (\<lambda>(r', c). Inr (r', set_coord c k))
      else Inr (r, k))"

definition kvm_take_new_block_ids :: "kv_cache_manager \<Rightarrow> nat list \<times> kv_cache_manager" where
  "kvm_take_new_block_ids k =
     (let rs = map take_new_block_ids (single_type_managers (coordinator k)) in
      (concat (map fst rs), set_coord ((coordinator k)\<lparr>single_type_managers := map snd rs\<rparr>) k))"

definition kvm_new_step_starts :: "kv_cache_manager \<Rightarrow> kv_cache_manager" where
  "kvm_new_step_starts k = set_coord (coord_new_step_starts (coordinator k)) k"

section \<open>The invariant of the manager\<close>

text \<open>
  The managers agree with the pool on who holds which block, their specs are sound, and there is
  one manager per group.
\<close>

definition kvm_ok :: "kv_cache_manager \<Rightarrow> bool" where
  "kvm_ok k \<longleftrightarrow>
     mgrs_ok (single_type_managers (coordinator k)) (block_pool (coordinator k)) \<and>
     (\<forall>m \<in> set (single_type_managers (coordinator k)). static_ok m) \<and>
     kvm_caching k = enable_caching (block_pool (coordinator k)) \<and>
     length (single_type_managers (coordinator k)) = num_kv_cache_groups k"

lemma all_kept_static_ok:
  assumes "list_all2 (kept rid) ms ms'" and "\<forall>m \<in> set ms. static_ok m"
  shows "\<forall>m \<in> set ms'. static_ok m"
proof
  fix m' assume "m' \<in> set ms'"
  then obtain j where "j < length ms'" "m' = ms' ! j" by (auto simp: in_set_conv_nth)
  then have "ms ! j \<in> set ms" "kept rid (ms ! j) m'"
    using assms(1) by (auto simp: list_all2_conv_all_nth)
  then show "static_ok m'" using assms(2) static_ok_cong [of "ms ! j" m'] by (simp add: kept_def)
qed

lemma kvm_ok_next:
  assumes "kvm_ok k" and "mgrs_ok ms' p'" and "same_frame (block_pool (coordinator k)) p'"
    and "list_all2 (kept rid) (single_type_managers (coordinator k)) ms'"
  shows "kvm_ok (set_coord ((coordinator k)\<lparr>single_type_managers := ms', block_pool := p'\<rparr>) k)"
  using assms all_kept_static_ok [OF assms(4)] list_all2_lengthD [OF assms(4)]
  by (simp add: kvm_ok_def set_coord_def same_frame_def)

text \<open>
  A request may ask for slots when it is new (with or without prefix hits) or runs with blocks for
  what it has computed. The scheduler calls \<open>allocate_slots\<close> in these states only.
\<close>

definition may_allocate :: "kv_cache_manager \<Rightarrow> request \<Rightarrow> slot_args \<Rightarrow> bool" where
  "may_allocate k r a \<longleftrightarrow>
     (let ms = single_type_managers (coordinator k); p = block_pool (coordinator k); rid = request_id r
      in case new_computed_blocks a of
           Some (KVBlocks bss) \<Rightarrow>
             length bss = length ms \<and> (\<forall>j < length ms. fresh_for rid p (ms ! j) (bss ! j))
         | _ \<Rightarrow> (\<forall>m \<in> set ms. can_resume rid (local_computed_tokens r a) m))"

definition may_cache :: "kv_cache_manager \<Rightarrow> request \<Rightarrow> slot_args \<Rightarrow> bool" where
  "may_cache k r a \<longleftrightarrow>
     kvm_caching k \<and> \<not> delay_cache_blocks a \<longrightarrow>
     (let ms = single_type_managers (coordinator k); p = block_pool (coordinator k)
      in \<not> enable_kv_cache_events p \<and>
         (\<forall>m \<in> set ms. \<not> is_cross_attention m \<and>
            hashes_ready p r (min (tokens_main_model k r a) (num_tokens r)) m))"

lemma skip_keeps_fresh:
  assumes f: "fresh_for rid p m hits" and st: "same_static m m'" and nc: "num_cached_block m' = num_cached_block m"
    and len: "length (blocks_of m' rid) = length (blocks_of m rid)" and t: "tags p' = tags p" and fr: "same_frame p p'"
  shows "fresh_for rid p' m' hits"
proof -
  have "fresh_for rid p m' hits"
    using f nc len unfolding fresh_for_def same_static_tokens(2) [OF st] static_ok_cong [OF st] by auto
  then show ?thesis by (simp add: fresh_for_cong [OF t fr])
qed

lemma skip_keeps_can_resume:
  assumes "can_resume rid tot m" and st: "same_static m m'" and "num_cached_block m' = num_cached_block m"
    and "length (blocks_of m' rid) = length (blocks_of m rid)"
  shows "can_resume rid tot m'"
proof -
  have "mgr_spec m' = mgr_spec m" "mgr_block_size m' = mgr_block_size m" using st by (simp_all add: same_static_def)
  then show ?thesis
    using assms unfolding can_resume_def same_static_tokens(2) [OF st] static_ok_cong [OF st] by (auto split: if_splits)
qed

lemma skip_keeps_may_allocate:
  assumes skip: "list_all2 (\<lambda>m m'. same_static m m' \<and> num_cached_block m' = num_cached_block m \<and>
        (\<forall>r. length (blocks_of m' r) = length (blocks_of m r)) \<and>
        (\<forall>r. r \<noteq> rid \<longrightarrow> blocks_of m' r = blocks_of m r) \<and> Q m m') (single_type_managers (coordinator k)) ms'"
    and t: "tags p' = tags (block_pool (coordinator k))" and fr: "same_frame (block_pool (coordinator k)) p'"
    and may: "may_allocate k r a" and rid: "rid = request_id r"
  shows "may_allocate (set_coord ((coordinator k)\<lparr>single_type_managers := ms', block_pool := p'\<rparr>) k) r a"
proof -
  let ?ms = "single_type_managers (coordinator k)"
  have len: "length ms' = length ?ms" using skip by (simp add: list_all2_lengthD)
  have nth: "same_static (?ms ! j) (ms' ! j)" "num_cached_block (ms' ! j) = num_cached_block (?ms ! j)"
    "length (blocks_of (ms' ! j) rid) = length (blocks_of (?ms ! j) rid)" if "j < length ?ms" for j
    using skip that by (simp_all add: list_all2_conv_all_nth)
  have new: "fresh_for rid p' (ms' ! j) (bss ! j)"
    if "j < length ?ms" "fresh_for rid (block_pool (coordinator k)) (?ms ! j) (bss ! j)" for j bss
    by (rule skip_keeps_fresh [OF that(2) nth [OF that(1)] t fr])
  have old: "\<forall>m \<in> set ms'. can_resume rid tot m" if "\<forall>m \<in> set ?ms. can_resume rid tot m" for tot
  proof
    fix m assume "m \<in> set ms'"
    then obtain j where j: "j < length ?ms" "m = ms' ! j" using len by (auto simp: in_set_conv_nth)
    have "can_resume rid tot (?ms ! j)" using that j(1) by simp
    from skip_keeps_can_resume [OF this nth [OF j(1)]] show "can_resume rid tot m" using j(2) by simp
  qed
  show ?thesis
    using may new old len rid unfolding may_allocate_def set_coord_def Let_def
    by (auto split: option.splits kv_cache_blocks.splits)
qed

section \<open>Allocating slots\<close>

definition needed_in_all :: "kv_cache_manager \<Rightarrow> request \<Rightarrow> slot_args \<Rightarrow> int \<Rightarrow> int" where
  "needed_in_all k r a n =
     sum_list (map2 (blocks_needed (block_pool (coordinator k)) (request_id r) (num_encoder_tokens a) n
                       (local_computed_tokens r a))
        (single_type_managers (coordinator k)) (group_blocks (num_kv_cache_groups k) (given_blocks a)))"

lemma admit_count:
  assumes ok: "kvm_ok k" and may: "may_allocate k r a"
  shows "coord_num_blocks_to_allocate (coordinator k) (request_id r) n
     (group_blocks (num_kv_cache_groups k) (given_blocks a)) (num_encoder_tokens a)
     (local_computed_tokens r a) main = Inr (needed_in_all k r a n, coordinator k)"
  unfolding needed_in_all_def
proof (rule coord_count)
  let ?ms = "single_type_managers (coordinator k)" and ?rid = "request_id r"
  let ?bss = "group_blocks (num_kv_cache_groups k) (given_blocks a)"
  have bs: "0 < mgr_block_size (?ms ! j)" if "j < length ?ms" for j
    using ok that by (simp add: kvm_ok_def mgrs_ok_def mgr_ok_def)
  have n: "length ?ms = num_kv_cache_groups k" using ok by (simp add: kvm_ok_def)
  show len: "length ?bss = length ?ms"
    using may n by (auto simp: may_allocate_def given_blocks_def group_blocks_def Let_def
        split: option.splits kv_cache_blocks.splits)
  show "\<forall>j < length ?bss. countable ?rid (?ms ! j) (?bss ! j)"
  proof (intro allI impI)
    fix j assume "j < length ?bss"
    then have j: "j < length ?ms" using len by simp
    show "countable ?rid (?ms ! j) (?bss ! j)"
    proof (cases "given_blocks a")
      case EmptyBlocks
      then have "can_resume ?rid (local_computed_tokens r a) (?ms ! j)"
        using may j by (auto simp: may_allocate_def given_blocks_def Let_def split: option.splits)
      then show ?thesis
        using bs [OF j] EmptyBlocks j n by (auto simp: can_resume_def countable_def group_blocks_def split: if_splits)
    next
      case (KVBlocks bss)
      then have "fresh_for ?rid (block_pool (coordinator k)) (?ms ! j) (bss ! j)"
        using may j by (auto simp: may_allocate_def given_blocks_def Let_def split: option.splits)
      then show ?thesis
        using bs [OF j] KVBlocks by (auto simp: fresh_for_def countable_def group_blocks_def)
    qed
  qed
qed

lemma admit_run:
  assumes ok: "kvm_ok k" and may: "may_allocate k r a"
    and free: "needed_in_all k r a n \<le> get_num_free_blocks (block_pool (coordinator k))"
  shows "\<exists>c3 news ms' p'.
     (if given_blocks a \<noteq> EmptyBlocks then
        coord_allocate_new_computed_blocks (request_id r)
          (group_blocks (num_kv_cache_groups k) (given_blocks a)) (local_computed_tokens r a) 0 (coordinator k)
      else Inr (coordinator k)) = Inr c3 \<and>
     coord_allocate_new_blocks (request_id r) n main (num_encoder_tokens a) c3 =
       Inr (news, (coordinator k)\<lparr>single_type_managers := ms', block_pool := p'\<rparr>) \<and>
     mgrs_ok ms' p' \<and> same_frame (block_pool (coordinator k)) p' \<and>
     list_all2 (kept (request_id r)) (single_type_managers (coordinator k)) ms' \<and>
     enough_slots (request_id r) (num_encoder_tokens a) n ms'"
proof (cases "given_blocks a")
  case EmptyBlocks
  let ?ms = "single_type_managers (coordinator k)" and ?rid = "request_id r"
  have res: "\<forall>m \<in> set ?ms. can_resume ?rid (local_computed_tokens r a) m"
    using may EmptyBlocks by (auto simp: may_allocate_def given_blocks_def Let_def split: option.splits)
  have n: "length ?ms = num_kv_cache_groups k" and mok: "mgrs_ok ?ms (block_pool (coordinator k))"
    using ok by (simp_all add: kvm_ok_def)
  have "sum_list (map2 (blocks_needed (block_pool (coordinator k)) ?rid (num_encoder_tokens a) n
      (local_computed_tokens r a)) ?ms (replicate (length ?ms) [])) \<le> get_num_free_blocks (block_pool (coordinator k))"
    using free EmptyBlocks n by (simp add: needed_in_all_def group_blocks_def)
  from coord_admit_resumed [OF mok res this, of main] EmptyBlocks show ?thesis by auto
next
  case (KVBlocks bss)
  let ?ms = "single_type_managers (coordinator k)" and ?rid = "request_id r"
  have f: "length bss = length ?ms" "\<forall>j < length ?ms. fresh_for ?rid (block_pool (coordinator k)) (?ms ! j) (bss ! j)"
    using may KVBlocks by (auto simp: may_allocate_def given_blocks_def Let_def split: option.splits)
  have mok: "mgrs_ok ?ms (block_pool (coordinator k))" using ok by (simp add: kvm_ok_def)
  have "sum_list (map2 (blocks_needed (block_pool (coordinator k)) ?rid (num_encoder_tokens a) n
      (local_computed_tokens r a)) ?ms bss) \<le> get_num_free_blocks (block_pool (coordinator k))"
    using free KVBlocks by (simp add: needed_in_all_def group_blocks_def)
  from coord_admit_new [OF mok f this, of main] KVBlocks show ?thesis by (simp add: group_blocks_def)
qed

lemma kvm_cache_step:
  assumes mok: "mgrs_ok ms' p'" and fr: "same_frame (block_pool (coordinator k)) p'"
    and kp: "list_all2 (kept rid) (single_type_managers (coordinator k)) ms'"
    and cach: "kvm_caching k" "kvm_caching k = enable_caching (block_pool (coordinator k))"
    and may: "may_cache k r a" "\<not> delay_cache_blocks a" and c: "single_type_managers c = ms'" "block_pool c = p'"
  shows "\<exists>ms2 p2. coord_cache_blocks sha r (min (tokens_main_model k r a) (num_tokens r)) c =
       Inr (r, c\<lparr>single_type_managers := ms2, block_pool := p2\<rparr>) \<and> mgrs_ok ms2 p2 \<and>
     same_frame (block_pool (coordinator k)) p2 \<and>
     list_all2 (kept rid) (single_type_managers (coordinator k)) ms2 \<and>
     (enough_slots rid num_enc n ms' \<longrightarrow> enough_slots rid num_enc n ms2)"
proof -
  let ?ms = "single_type_managers (coordinator k)" and ?n = "min (tokens_main_model k r a) (num_tokens r)"
  have ready: "\<forall>m \<in> set ms'. \<not> is_cross_attention m \<and> hashes_ready p' r ?n m"
  proof
    fix m assume "m \<in> set ms'"
    then obtain j where j: "j < length ms'" "m = ms' ! j" by (auto simp: in_set_conv_nth)
    then have o: "?ms ! j \<in> set ?ms" "same_static (?ms ! j) m"
      using kp by (auto simp: list_all2_conv_all_nth kept_def)
    then show "\<not> is_cross_attention m \<and> hashes_ready p' r ?n m"
      using may cach(1) same_static_tokens(2) [OF o(2)] hashes_ready_cong [OF fr o(2), of r ?n]
      by (simp add: may_cache_def Let_def)
  qed
  have e: "enable_caching p'" "\<not> enable_kv_cache_events p'"
    using fr cach may by (simp_all add: same_frame_def may_cache_def Let_def)
  obtain ms2 p2 where
    g: "coord_cache_blocks sha r ?n c = Inr (r, c\<lparr>single_type_managers := ms2, block_pool := p2\<rparr>)"
      "mgrs_ok ms2 p2" "same_frame p' p2"
      "list_all2 (\<lambda>m m'. same_static m m' \<and> (\<forall>x. blocks_of m' x = blocks_of m x)) ms' ms2"
    using coord_cache_total [of c r ?n sha] mok ready e unfolding c by blast
  have k2: "list_all2 (kept rid) ms' ms2" using g(4) by (auto simp: list_all2_conv_all_nth kept_def)
  have "enough_slots rid num_enc n ms2" if en: "enough_slots rid num_enc n ms'"
    unfolding enough_slots_def
  proof
    fix m assume "m \<in> set ms2"
    then obtain j where j: "j < length ms2" "m = ms2 ! j" by (auto simp: in_set_conv_nth)
    then have o: "ms' ! j \<in> set ms'" "same_static (ms' ! j) m" "blocks_of m rid = blocks_of (ms' ! j) rid"
      using g(4) by (auto simp: list_all2_conv_all_nth)
    show "eff_tokens m (tokens_for num_enc n m) \<le> int (length (blocks_of m rid)) * mgr_block_size m"
      using en o(1) unfolding enough_slots_def same_static_tokens [OF o(2)] o(3) by blast
  qed
  then show ?thesis using g(1,2) same_frame_trans [OF fr g(3)] all_kept_trans [OF kp k2] by blast
qed

lemma allocate_slots_run:
  assumes "num_new_tokens a \<noteq> 0" and "num_external_tokens a = 0"
    and "coord_remove_skipped_blocks (request_id r) (total_computed_tokens k r a) (coordinator k) = Inr c1"
    and "coord_num_blocks_to_allocate c1 (request_id r) (tokens_need_slot k r a)
       (group_blocks (num_kv_cache_groups k) (given_blocks a)) (num_encoder_tokens a)
       (local_computed_tokens r a) (tokens_main_model k r a) = Inr (n, c2)"
    and "\<not> n > get_num_free_blocks (block_pool c2)"
    and "(if given_blocks a \<noteq> EmptyBlocks then
        coord_allocate_new_computed_blocks (request_id r)
          (group_blocks (num_kv_cache_groups k) (given_blocks a)) (local_computed_tokens r a) 0 c2
      else Inr c2) = Inr c3"
    and "coord_allocate_new_blocks (request_id r) (tokens_need_slot k r a) (tokens_main_model k r a)
       (num_encoder_tokens a) c3 = Inr (news, c4)"
  shows "allocate_slots sha r a k =
    (if \<not> kvm_caching k \<or> delay_cache_blocks a then Inr (Some (create_kv_cache_blocks news), r, set_coord c4 k)
     else res_bind (coord_cache_blocks sha r (min (tokens_main_model k r a) (num_tokens r)) c4)
            (\<lambda>(r', c5). Inr (Some (create_kv_cache_blocks news), r', set_coord c5 k)))"
  using assms by (cases "given_blocks a = EmptyBlocks") (simp_all add: allocate_slots_def Let_def)

lemma allocate_slots_effect:
  assumes ok: "kvm_ok k" and may: "may_allocate k r a" and mc: "may_cache k r a"
    and new: "num_new_tokens a \<noteq> 0" and ext: "num_external_tokens a = 0"
  shows "\<exists>c1 res k'. coord_remove_skipped_blocks (request_id r) (total_computed_tokens k r a) (coordinator k) = Inr c1 \<and>
     allocate_slots sha r a k = Inr (res, r, k') \<and> kvm_ok k' \<and>
     list_all2 (kept (request_id r)) (single_type_managers (coordinator k))
       (single_type_managers (coordinator k')) \<and>
     (res = None \<longleftrightarrow> get_num_free_blocks (block_pool c1)
        < needed_in_all (set_coord c1 k) r a (tokens_need_slot k r a)) \<and>
     (case res of
        None \<Rightarrow> k' = set_coord c1 k
      | Some kb \<Rightarrow> enough_slots (request_id r) (num_encoder_tokens a) (tokens_need_slot k r a)
                    (single_type_managers (coordinator k')))"
proof -
  let ?c = "coordinator k" and ?rid = "request_id r" and ?need = "tokens_need_slot k r a"
  let ?main = "tokens_main_model k r a"
  have mok: "mgrs_ok (single_type_managers ?c) (block_pool ?c)"
    and st: "\<forall>m \<in> set (single_type_managers ?c). static_ok m" using ok by (simp_all add: kvm_ok_def)
  obtain ms1 p1 where skip: "coord_remove_skipped_blocks ?rid (total_computed_tokens k r a) ?c =
       Inr (?c\<lparr>single_type_managers := ms1, block_pool := p1\<rparr>)" "mgrs_ok ms1 p1"
    and t: "tags p1 = tags (block_pool ?c)" and fr: "same_frame (block_pool ?c) p1"
    and all: "list_all2 (\<lambda>m m'. same_static m m' \<and> num_cached_block m' = num_cached_block m \<and>
        (\<forall>r. length (blocks_of m' r) = length (blocks_of m r)) \<and>
        (\<forall>r. r \<noteq> ?rid \<longrightarrow> blocks_of m' r = blocks_of m r) \<and>
        (\<forall>i < length (blocks_of m ?rid). skipped_tokens (spec_kind (mgr_spec m)) (max 0 (total_computed_tokens k r a))
              div mgr_block_size m \<le> int i \<longrightarrow> blocks_of m' ?rid ! i = blocks_of m ?rid ! i))
       (single_type_managers ?c) ms1"
    using coord_remove_skipped_effect [OF mok st, of ?rid "total_computed_tokens k r a"] by blast
  let ?c1 = "?c\<lparr>single_type_managers := ms1, block_pool := p1\<rparr>"
  let ?k1 = "set_coord ?c1 k"
  have kp1: "list_all2 (kept ?rid) (single_type_managers ?c) ms1"
    using all by (auto simp: list_all2_conv_all_nth kept_def)
  have ok1: "kvm_ok ?k1" by (rule kvm_ok_next [OF ok skip(2) fr kp1])
  have may1: "may_allocate ?k1 r a" by (rule skip_keeps_may_allocate [OF all t fr may refl])
  have k1: "coordinator ?k1 = ?c1" "num_kv_cache_groups ?k1 = num_kv_cache_groups k"
    by (simp_all add: set_coord_def)
  let ?n = "needed_in_all ?k1 r a ?need"
  have count: "coord_num_blocks_to_allocate ?c1 ?rid ?need
     (group_blocks (num_kv_cache_groups k) (given_blocks a)) (num_encoder_tokens a)
     (local_computed_tokens r a) ?main = Inr (?n, ?c1)"
    using admit_count [OF ok1 may1, of ?need ?main] unfolding k1 .
  note head = skip(1) count new ext
  show ?thesis
  proof (cases "?n > get_num_free_blocks p1")
    case True
    then have "allocate_slots sha r a k = Inr (None, r, ?k1)"
      using head by (simp add: allocate_slots_def Let_def)
    then show ?thesis using ok1 kp1 True skip(1)
      by (intro exI [of _ ?c1] exI [of _ None] exI [of _ ?k1]) (simp add: k1)
  next
    case False
    then have "?n \<le> get_num_free_blocks (block_pool (coordinator ?k1))" by (simp add: k1)
    from admit_run [OF ok1 may1 this, of ?main, unfolded k1] obtain c3 news ms2 p2 where
      g: "(if given_blocks a \<noteq> EmptyBlocks then
        coord_allocate_new_computed_blocks ?rid (group_blocks (num_kv_cache_groups k) (given_blocks a))
          (local_computed_tokens r a) 0 ?c1 else Inr ?c1) = Inr c3"
      "coord_allocate_new_blocks ?rid ?need ?main (num_encoder_tokens a) c3 =
         Inr (news, ?c1\<lparr>single_type_managers := ms2, block_pool := p2\<rparr>)"
      "mgrs_ok ms2 p2" "same_frame p1 p2" "list_all2 (kept ?rid) ms1 ms2"
      "enough_slots ?rid (num_encoder_tokens a) ?need ms2"
      by auto
    have "\<not> ?n > get_num_free_blocks (block_pool ?c1)" using False by simp
    note run = allocate_slots_run [OF new ext skip(1) count this g(1,2), of sha]
    let ?c4 = "?c\<lparr>single_type_managers := ms2, block_pool := p2\<rparr>"
    have fr2: "same_frame (block_pool ?c) p2" using fr g(4) by (rule same_frame_trans)
    have kp2: "list_all2 (kept ?rid) (single_type_managers ?c) ms2" by (rule all_kept_trans [OF kp1 g(5)])
    let ?kb = "create_kv_cache_blocks news"
    show ?thesis
    proof (cases "\<not> kvm_caching k \<or> delay_cache_blocks a")
      case True
      then have "allocate_slots sha r a k = Inr (Some ?kb, r, set_coord ?c4 k)"
        using run by simp
      then show ?thesis
        using kvm_ok_next [OF ok g(3) fr2 kp2] kp2 g(6) skip(1) False
        by (intro exI [of _ ?c1] exI [of _ "Some ?kb"] exI [of _ "set_coord ?c4 k"]) (simp add: set_coord_def)
    next
      case False': False
      then obtain ms3 p3 where
        h: "coord_cache_blocks sha r (min ?main (num_tokens r)) ?c4 =
           Inr (r, ?c\<lparr>single_type_managers := ms3, block_pool := p3\<rparr>)" "mgrs_ok ms3 p3"
          "same_frame (block_pool ?c) p3" "list_all2 (kept ?rid) (single_type_managers ?c) ms3"
          "enough_slots ?rid (num_encoder_tokens a) ?need ms3"
        using kvm_cache_step [OF g(3) fr2 kp2 _ _ mc, of ?c4 sha "num_encoder_tokens a" ?need] ok g(6)
        by (auto simp: kvm_ok_def)
      let ?c5 = "?c\<lparr>single_type_managers := ms3, block_pool := p3\<rparr>"
      have "allocate_slots sha r a k = Inr (Some ?kb, r, set_coord ?c5 k)"
        using run False' h(1) by simp
      then show ?thesis
        using kvm_ok_next [OF ok h(2-4)] h(4,5) skip(1) False
        by (intro exI [of _ ?c1] exI [of _ "Some ?kb"] exI [of _ "set_coord ?c5 k"]) (simp add: set_coord_def)
    qed
  qed
qed

text \<open>
  C1. For a new request with prefix hits or a request that runs, without blocks for external (KV
  connector) or cross attention tokens to cache, without KV cache events and with groups that are
  not Mamba groups in align mode, \<open>allocate_slots\<close> never raises. It first removes the blocks that
  the attention windows have left behind; it then returns \<open>None\<close>, and changes nothing else, exactly
  when the blocks needed in all groups exceed the free blocks, and otherwise it gives the request
  enough slots in every cache group. In both cases the reference counts stay exactly the numbers of
  holders, no block that is not yet cached has two holders, and no other request's blocks change.
\<close>

theorem allocate_slots_safe:
  assumes "kvm_ok k" and "may_allocate k r a" and "may_cache k r a"
    and "num_new_tokens a \<noteq> 0" and "num_external_tokens a = 0"
  shows "\<exists>c1 res k'. coord_remove_skipped_blocks (request_id r) (total_computed_tokens k r a) (coordinator k) = Inr c1 \<and>
     allocate_slots sha r a k = Inr (res, r, k') \<and> kvm_ok k' \<and>
     list_all2 (kept (request_id r)) (single_type_managers (coordinator k))
       (single_type_managers (coordinator k')) \<and>
     (res = None \<longleftrightarrow> get_num_free_blocks (block_pool c1)
        < needed_in_all (set_coord c1 k) r a (tokens_need_slot k r a)) \<and>
     (case res of
        None \<Rightarrow> k' = set_coord c1 k
      | Some kb \<Rightarrow> enough_slots (request_id r) (num_encoder_tokens a) (tokens_need_slot k r a)
                    (single_type_managers (coordinator k')))"
  by (rule allocate_slots_effect [OF assms])

section \<open>The request survives\<close>

text \<open>
  Caching changes nothing in the request object but the memo of its embedding hashes.
\<close>

lemma memo_only_status: "memo_only r r' \<Longrightarrow> status r' = status r \<and> request_id r' = request_id r"
  by (auto simp: memo_only_def)

lemma cache_full_blocks_memo:
  assumes "cache_full_blocks sha p r bs n_cached n_full bsz gid = Inr (p', r')"
  shows "memo_only r r'"
proof (cases "n_cached \<ge> n_full")
  case False
  then obtain hashes p1 nh where e: "(if enable_kv_cache_events p1
      then stored_event sha p1 r bs hashes nh n_cached n_full bsz else Inr (p1, r)) = Inr (p', r')"
    using assms by (auto simp: cache_full_blocks_def Let_def res_bind_eq_Inr require_eq_Inr)
  then show ?thesis by (auto dest: stored_event_effect split: if_splits)
qed (use assms in \<open>simp add: cache_full_blocks_def\<close>)

lemma base_cache_blocks_memo:
  assumes "base_cache_blocks sha r n m p = Inr (r', m', p')"
  shows "memo_only r r'"
  using assms
  by (auto simp: base_cache_blocks_def Let_def res_bind_eq_Inr require_eq_Inr dest: cache_full_blocks_memo
      split: if_splits)

lemma cache_blocks_memo:
  assumes "cache_blocks sha r n m p = Inr (r', m', p')"
  shows "memo_only r r'"
proof (cases "\<exists>a b. spec_kind (mgr_spec m) = Mamba a b")
  case True
  then obtain m1 p1 where "base_cache_blocks sha r n m p = Inr (r', m1, p1)"
    using assms by (auto simp: cache_blocks_def Let_def res_bind_eq_Inr split: if_splits)
  then show ?thesis by (rule base_cache_blocks_memo)
next
  case False
  then have "base_cache_blocks sha r n m p = Inr (r', m', p')"
    using assms by (cases "spec_kind (mgr_spec m)") (simp_all add: cache_blocks_def)
  then show ?thesis by (rule base_cache_blocks_memo)
qed

lemma coord_cache_blocks_memo:
  assumes "coord_cache_blocks sha r n c = Inr (r', c')"
  shows "memo_only r r'"
proof -
  let ?f = "\<lambda>i m s. res_bind (cache_blocks sha (fst s) n m (snd s)) (\<lambda>(r', m', p'). Inr ((), m', (r', p')))"
  have all: "each_manager ?f i ms s = Inr (us, ms', s') \<Longrightarrow> memo_only (fst s) (fst s')" for i ms s us ms' s'
  proof (induction ms arbitrary: i s us ms' s')
    case (Cons m ms)
    obtain r1 m1 p1 us1 ms1 where "cache_blocks sha (fst s) n m (snd s) = Inr (r1, m1, p1)"
      "each_manager ?f (Suc i) ms (r1, p1) = Inr (us1, ms1, s')"
      using Cons.prems by (auto simp: res_bind_eq_Inr)
    then show ?case using Cons.IH [of "Suc i" "(r1, p1)" us1 ms1 s'] cache_blocks_memo memo_only_trans
      by (metis fst_conv)
  qed simp
  obtain us ms s where "each_manager ?f 0 (single_type_managers c) (r, block_pool c) = Inr (us, ms, s)"
    "r' = fst s" using assms by (auto simp: coord_cache_blocks_def res_bind_eq_Inr)
  then show ?thesis using all by fastforce
qed

lemma kvm_cache_blocks_memo:
  "kvm_cache_blocks sha r n k = Inr (r', k') \<Longrightarrow> memo_only r r'"
  by (auto simp: kvm_cache_blocks_def res_bind_eq_Inr dest: coord_cache_blocks_memo split: if_splits)

lemma allocate_slots_memo:
  assumes "allocate_slots sha r a k = Inr (res, r', k')"
  shows "memo_only r r'"
proof -
  have ne: "\<not> (num_new_tokens a = 0 \<and> num_external_tokens a = 0)"
    using assms by (auto simp: allocate_slots_def)
  then obtain c1 n c2 where c: "coord_remove_skipped_blocks (request_id r) (total_computed_tokens k r a) (coordinator k) = Inr c1"
    "coord_num_blocks_to_allocate c1 (request_id r) (tokens_need_slot k r a)
       (group_blocks (num_kv_cache_groups k) (given_blocks a)) (num_encoder_tokens a)
       (local_computed_tokens r a + num_external_tokens a) (tokens_main_model k r a) = Inr (n, c2)"
    using assms unfolding allocate_slots_def Let_def by (auto simp: res_bind_eq_Inr simp del: split_paired_Ex)
  show ?thesis
  proof (cases "n > get_num_free_blocks (block_pool c2)")
    case True
    then show ?thesis using assms ne c by (simp add: allocate_slots_def Let_def)
  next
    case False
    then obtain c3 news c4 where
      "(if \<not> kvm_caching k \<or> delay_cache_blocks a then Inr (Some (create_kv_cache_blocks news), r, set_coord c4 k)
        else res_bind (coord_cache_blocks sha r (min (tokens_main_model k r a) (num_tokens r)) c4)
          (\<lambda>(r', c5). Inr (Some (create_kv_cache_blocks news), r', set_coord c5 k))) = Inr (res, r', k')"
      using assms ne c unfolding allocate_slots_def Let_def by (auto simp: res_bind_eq_Inr)
    then show ?thesis by (auto simp: res_bind_eq_Inr dest: coord_cache_blocks_memo split: if_splits)
  qed
qed

end
