(* ===== verification/KV_Runs.thy ===== *)
theory KV_Runs
  imports KV_Cache_Manager
begin

text \<open>
  The states a KV cache manager goes through: its construction establishes the invariant, every
  operation the scheduler uses keeps it, and freeing the last request gives all blocks back.
\<close>

section \<open>Construction\<close>

definition fresh_spec :: "int \<Rightarrow> int \<Rightarrow> kv_cache_spec \<Rightarrow> bool" where
  "fresh_spec dcp pcp s \<longleftrightarrow> spec_ok s \<and> 0 < dcp \<and> 0 < pcp \<and>
     (case spec_kind s of
        Mamba mode ns \<Rightarrow> mode \<noteq> MambaAlign \<and> 0 \<le> ns \<and> dcp * pcp = 1
      | SinkFullAttention _ \<Rightarrow> False
      | _ \<Rightarrow> True)"

lemma get_manager_fresh:
  "fresh_spec dcp pcp s \<Longrightarrow> get_manager s p caching gid dcp pcp = Inr (init_manager s p caching gid dcp pcp, p)"
  by (auto simp: fresh_spec_def get_manager_def Let_def split: spec_kind.splits)

lemma init_manager_ok:
  assumes s: "fresh_spec dcp pcp s" and pok: "pool_ok p fl" and g: "0 \<le> gid" "gid < 2 ^ 32"
    and t: "\<not> enable_caching p \<longrightarrow> (\<forall>b. tags p b = None)"
  shows "mgr_ok (init_manager s p (enable_caching p) gid dcp pcp) p"
    and "static_ok (init_manager s p (enable_caching p) gid dcp pcp)"
    and "held (init_manager s p (enable_caching p) gid dcp pcp) b = 0"
proof -
  let ?m = "init_manager s p (enable_caching p) gid dcp pcp"
  have pos: "0 < dcp * pcp" "0 < spec_block_size s" using s by (auto simp: fresh_spec_def spec_ok_def)
  have "0 < spec_block_size s * (dcp * pcp)" by (rule mult_pos_pos [OF pos(2,1)])
  then have bs: "0 < mgr_block_size ?m" using pos by (simp add: init_manager_def)
  have n: "null_block p = 0" "\<forall>b < length (blocks p). b \<noteq> 0 \<longrightarrow> 0 \<le> refs p b"
    using pool_ok_facts(2) [OF pok] pool_ok_refs_nonneg [OF pok] by blast+
  show "mgr_ok ?m p"
    using bs n g t
    by (simp add: mgr_ok_def init_manager_def blocks_of_def held_def cached_count_def private_tail_def
        non_null_def)
  show "static_ok ?m"
    using s by (auto simp: static_ok_def fresh_spec_def init_manager_def split: spec_kind.splits)
  show "held ?m b = 0" by (simp add: held_def init_manager_def)
qed

lemma make_managers_ok:
  assumes "\<forall>s \<in> set specs. fresh_spec dcp pcp s" and pok: "pool_ok p fl" and "0 \<le> gid"
    and "gid + int (length specs) \<le> 2 ^ 32" and t: "\<not> enable_caching p \<longrightarrow> (\<forall>b. tags p b = None)"
  shows "\<exists>ms. make_managers specs (enable_caching p) gid dcp pcp p = Inr (ms, p) \<and>
    length ms = length specs \<and>
    (\<forall>m \<in> set ms. mgr_ok m p \<and> static_ok m \<and> req_to_blocks m = [] \<and> (\<forall>r. num_cached_block m r = None)) \<and>
    map mgr_spec ms = specs"
  using assms(1,3,4)
proof (induction specs arbitrary: gid)
  case Nil
  then show ?case by simp
next
  case (Cons s ss)
  let ?m = "init_manager s p (enable_caching p) gid dcp pcp"
  obtain ms where ms: "make_managers ss (enable_caching p) (gid + 1) dcp pcp p = Inr (ms, p)"
    "length ms = length ss"
    "\<forall>m \<in> set ms. mgr_ok m p \<and> static_ok m \<and> req_to_blocks m = [] \<and> (\<forall>r. num_cached_block m r = None)"
    "map mgr_spec ms = ss"
    using Cons.IH [of "gid + 1"] Cons.prems by auto
  have s: "fresh_spec dcp pcp s" and g: "0 \<le> gid" "gid < 2 ^ 32" using Cons.prems by auto
  have "make_managers (s # ss) (enable_caching p) gid dcp pcp p = Inr (?m # ms, p)"
    using ms(1) by (simp add: get_manager_fresh [OF s])
  moreover have "req_to_blocks ?m = []" "\<forall>r. num_cached_block ?m r = None" "mgr_spec ?m = s"
    by (simp_all add: init_manager_def)
  ultimately show ?case using ms(2-4) init_manager_ok(1,2) [OF s pok g t] by auto
qed

lemma init_coordinator_ok:
  assumes "0 < n" and "\<forall>s \<in> set specs. fresh_spec dcp pcp s" and "int (length specs) \<le> 2 ^ 32"
  shows "\<exists>c. init_coordinator kind specs n max_len eagle caching events use_int dcp pcp h = Inr c \<and>
     mgrs_ok (single_type_managers c) (block_pool c) \<and>
     (\<forall>m \<in> set (single_type_managers c). static_ok m \<and> req_to_blocks m = [] \<and> (\<forall>r. num_cached_block m r = None)) \<and>
     length (single_type_managers c) = length specs \<and> enable_caching (block_pool c) = caching \<and>
     enable_kv_cache_events (block_pool c) = events \<and> hash_block_size (block_pool c) = h \<and>
     get_num_free_blocks (block_pool c) = n - 1 \<and> map mgr_spec (single_type_managers c) = specs \<and>
     kv_cache_groups c = specs \<and> coord_kind c = kind \<and> (\<forall>b. tags (block_pool c) b = None)"
proof -
  obtain p where p: "init_pool n caching h events use_int = Inr p" "pool_ok p [1..<nat n]"
    "\<forall>b < nat n. refs p b = 0 \<and> tags p b = None" "num_gpu_blocks p = n" "enable_caching p = caching"
    "hash_block_size p = h" "enable_kv_cache_events p = events"
    using init_pool_ok [OF assms(1)] by blast
  have len: "length (blocks p) = nat n" using pool_ok_facts(9) [OF p(2)] p(4) by simp
  have t: "tags p b = None" for b using p(3) len by (cases "b < nat n") (auto simp: tags_def)
  obtain ms where ms: "make_managers specs (enable_caching p) 0 dcp pcp p = Inr (ms, p)"
    "length ms = length specs"
    "\<forall>m \<in> set ms. mgr_ok m p \<and> static_ok m \<and> req_to_blocks m = [] \<and> (\<forall>r. num_cached_block m r = None)"
    "map mgr_spec ms = specs"
    using make_managers_ok [OF assms(2) p(2), of 0] assms(3) t by auto
  have "\<forall>m \<in> set ms. held m b = 0" for b using ms(3) by (simp add: held_def)
  then have "sum_list (map (\<lambda>m. held m b) ms) = 0" for b
    by (induction ms) simp_all
  then have "mgrs_ok ms p" using ms(3) p(2,3) len by (auto simp: mgrs_ok_def pool_good_def)
  moreover have "get_num_free_blocks p = n - 1"
    using pool_ok_facts(8) [OF p(2)] assms(1) by (simp add: of_nat_diff)
  ultimately show ?thesis
    using ms p t by (auto simp: init_coordinator_def)
qed

lemma sum_list_all_zero: "\<forall>x \<in> set xs. f x = (0 :: int) \<Longrightarrow> sum_list (map f xs) = 0"
  by (induction xs) auto

text \<open>With no groups the coordinator caches nothing, whatever the manager is told.\<close>

lemma init_kvm_ok:
  assumes n: "0 < n" and s: "\<forall>s \<in> set specs. fresh_spec dcp pcp s" "int (length specs) \<le> 2 ^ 32"
    and ne: "caching \<longrightarrow> specs \<noteq> []"
    and run: "init_kv_cache_manager specs n max_len h caching eagle log_stats events use_int dcp pcp = Inr k"
  shows "kvm_ok k \<and> get_num_free_blocks (block_pool (coordinator k)) = n - 1 \<and>
     (\<forall>m \<in> set (single_type_managers (coordinator k)). req_to_blocks m = [] \<and> (\<forall>r. num_cached_block m r = None)) \<and>
     enable_kv_cache_events (block_pool (coordinator k)) = events \<and>
     hash_block_size (block_pool (coordinator k)) = h \<and> kvm_caching k = caching \<and>
     map mgr_spec (single_type_managers (coordinator k)) = specs \<and> kvm_max_model_len k = max_len \<and>
     (\<forall>b. tags (block_pool (coordinator k)) b = None)"
proof -
  let ?good = "\<lambda>c cach. mgrs_ok (single_type_managers c) (block_pool c) \<and>
     (\<forall>m \<in> set (single_type_managers c). static_ok m \<and> req_to_blocks m = [] \<and> (\<forall>r. num_cached_block m r = None)) \<and>
     length (single_type_managers c) = length specs \<and> enable_caching (block_pool c) = cach \<and>
     enable_kv_cache_events (block_pool c) = events \<and> hash_block_size (block_pool c) = h \<and>
     get_num_free_blocks (block_pool c) = n - 1 \<and> map mgr_spec (single_type_managers c) = specs \<and>
     (\<forall>b. tags (block_pool c) b = None)"
  have base: "?good c cach"
    if "init_coordinator kind specs n max_len eagle cach events use_int dcp pcp h = Inr c" for kind cach c
    using init_coordinator_ok [OF n s, of kind max_len eagle cach events use_int h] that by auto
  obtain c where c: "get_kv_cache_coordinator specs n max_len eagle caching events use_int dcp pcp h = Inr c"
    and k: "k = \<lparr>kvm_max_model_len = max_len, kvm_caching = caching, kvm_eagle = eagle,
            kvm_stats = (if log_stats then Some new_stats else None), coordinator = c,
            num_kv_cache_groups = length specs\<rparr>"
    using run by (auto simp: init_kv_cache_manager_def res_simps)
  have "?good c caching"
  proof (cases "\<not> caching \<or> length specs = 0")
    case True
    then have "\<not> caching" using ne by auto
    with True c show ?thesis
      using base [of NoPrefixCache False c] by (simp add: get_kv_cache_coordinator_def init_no_prefix_cache_def)
  next
    case caching: False
    show ?thesis
    proof (cases "length specs = 1")
      case True
      then obtain c0 bs where "init_coordinator Unitary specs n max_len eagle caching events use_int dcp pcp h = Inr c0"
        "c = c0\<lparr>coord_block_size := bs\<rparr>"
        using c caching by (auto simp: get_kv_cache_coordinator_def init_unitary_def res_simps Let_def)
      then show ?thesis using base [of Unitary caching c0] by simp
    next
      case False
      then obtain c0 where c0: "init_coordinator Hybrid specs n max_len eagle caching events use_int dcp pcp h = Inr c0"
        "verify_and_split c0 = Inr c"
        using c caching by (auto simp: get_kv_cache_coordinator_def init_hybrid_def res_simps)
      then have "single_type_managers c = single_type_managers c0 \<and> block_pool c = block_pool c0"
        by (auto simp: verify_and_split_def res_simps Let_def)
      then show ?thesis using base [OF c0(1)] by simp
    qed
  qed
  then show ?thesis by (simp add: k kvm_ok_def)
qed

section \<open>Steps\<close>

text \<open>Taking blocks out of the prefix cache changes no reference count.\<close>

lemma mgrs_ok_untag:
  assumes ok: "mgrs_ok ms p" and good: "pool_good q" and fr: "same_frame p q"
    and r: "\<And>b. b < length (blocks p) \<Longrightarrow> refs q b = refs p b"
    and t: "\<And>b. tags q b = None \<or> tags q b = tags p b"
  shows "mgrs_ok ms q"
proof -
  have len: "length (blocks q) = length (blocks p)" using fr by (simp add: same_frame_def)
  have "mgr_ok m q" if m: "m \<in> set ms" for m
  proof -
    have mp: "mgr_ok m p" using ok m by (simp add: mgrs_ok_def)
    note f = mgr_ok_facts [OF mp]
    have "private_tail q (cached_count m rid) (blocks_of m rid)" for rid
      unfolding private_tail_def
    proof (intro allI impI)
      fix i assume i: "i < length (blocks_of m rid)" "cached_count m rid \<le> int i \<and> blocks_of m rid ! i \<noteq> 0"
      have "blocks_of m rid ! i < length (blocks p)" by (rule f(4) [OF nth_mem [OF i(1)]])
      then show "tags q (blocks_of m rid ! i) = None \<and> refs q (blocks_of m rid ! i) = 1"
        using f(7) [of rid] i r t [of "blocks_of m rid ! i"] by (auto simp: private_tail_def)
    qed
    moreover have "\<not> enable_caching p \<Longrightarrow> tags q b = None" for b using f(9) t [of b] by auto
    ultimately show ?thesis using mp fr r len by (simp add: mgr_ok_def same_frame_def)
  qed
  then show ?thesis using ok good r len by (simp add: mgrs_ok_def)
qed

lemma kvm_ok_pool:
  assumes "kvm_ok k" and "mgrs_ok (single_type_managers (coordinator k)) q"
    and "same_frame (block_pool (coordinator k)) q"
  shows "kvm_ok (set_coord ((coordinator k)\<lparr>block_pool := q\<rparr>) k)"
  using assms by (simp add: kvm_ok_def set_coord_def same_frame_def)

lemma kvm_ok_stats [simp]: "kvm_ok (k\<lparr>kvm_stats := s\<rparr>) = kvm_ok k"
  by (simp add: kvm_ok_def)

lemma kvm_free_effect:
  assumes ok: "kvm_ok k"
  shows "\<exists>k'. kvm_free r k = Inr k' \<and> kvm_ok k' \<and>
     get_num_free_blocks (block_pool (coordinator k)) \<le> get_num_free_blocks (block_pool (coordinator k')) \<and>
     list_all2 (kept (request_id r)) (single_type_managers (coordinator k)) (single_type_managers (coordinator k')) \<and>
     (\<forall>m \<in> set (single_type_managers (coordinator k')). blocks_of m (request_id r) = []) \<and>
     num_gpu_blocks (block_pool (coordinator k')) = num_gpu_blocks (block_pool (coordinator k))"
proof -
  let ?c = "coordinator k" and ?rid = "request_id r"
  have mok: "mgrs_ok (single_type_managers ?c) (block_pool ?c)" using ok by (simp add: kvm_ok_def)
  obtain c' where c': "coord_free ?rid ?c = Inr c'" "mgrs_ok (single_type_managers c') (block_pool c')"
    "get_num_free_blocks (block_pool ?c) \<le> get_num_free_blocks (block_pool c')"
    "same_frame (block_pool ?c) (block_pool c')"
    "list_all2 (\<lambda>m m'. same_static m m' \<and> num_cached_block m' ?rid = None \<and>
        map_of (req_to_blocks m') ?rid = None \<and> (\<forall>r. r \<noteq> ?rid \<longrightarrow> blocks_of m' r = blocks_of m r))
       (single_type_managers ?c) (single_type_managers c')"
    using coord_free_effect [OF mok, of ?rid] by blast
  have kp: "list_all2 (kept ?rid) (single_type_managers ?c) (single_type_managers c')"
    using c'(5) by (auto simp: list_all2_conv_all_nth kept_def)
  have "kvm_ok (set_coord c' k)"
    using ok c'(2,4) all_kept_static_ok [OF kp] list_all2_lengthD [OF kp]
    by (simp add: kvm_ok_def set_coord_def same_frame_def)
  moreover have "\<forall>m \<in> set (single_type_managers c'). blocks_of m ?rid = []"
  proof
    fix m assume "m \<in> set (single_type_managers c')"
    then obtain j where "j < length (single_type_managers c')" "m = single_type_managers c' ! j"
      by (auto simp: in_set_conv_nth)
    then show "blocks_of m ?rid = []" using c'(5) by (simp add: list_all2_conv_all_nth blocks_of_def)
  qed
  ultimately show ?thesis
    using c'(1,3,4) kp by (intro exI [of _ "set_coord c' k"]) (simp add: kvm_free_def set_coord_def same_frame_def)
qed

lemma kvm_skip_effect:
  assumes ok: "kvm_ok k"
  shows "\<exists>k'. kvm_remove_skipped_blocks rid n k = Inr k' \<and> kvm_ok k' \<and>
     get_num_free_blocks (block_pool (coordinator k)) \<le> get_num_free_blocks (block_pool (coordinator k')) \<and>
     list_all2 (\<lambda>m m'. kept rid m m' \<and> length (blocks_of m' rid) = length (blocks_of m rid) \<and>
         (\<forall>i < length (blocks_of m rid). skipped_tokens (spec_kind (mgr_spec m)) (max 0 n)
              div mgr_block_size m \<le> int i \<longrightarrow> blocks_of m' rid ! i = blocks_of m rid ! i))
       (single_type_managers (coordinator k)) (single_type_managers (coordinator k'))"
proof -
  let ?c = "coordinator k"
  have mok: "mgrs_ok (single_type_managers ?c) (block_pool ?c)"
    and st: "\<forall>m \<in> set (single_type_managers ?c). static_ok m" using ok by (simp_all add: kvm_ok_def)
  obtain ms1 p1 where e: "coord_remove_skipped_blocks rid n ?c =
       Inr (?c\<lparr>single_type_managers := ms1, block_pool := p1\<rparr>)" "mgrs_ok ms1 p1"
      "get_num_free_blocks (block_pool ?c) \<le> get_num_free_blocks p1" "same_frame (block_pool ?c) p1"
    and all: "list_all2 (\<lambda>m m'. same_static m m' \<and> num_cached_block m' = num_cached_block m \<and>
        (\<forall>r. length (blocks_of m' r) = length (blocks_of m r)) \<and>
        (\<forall>r. r \<noteq> rid \<longrightarrow> blocks_of m' r = blocks_of m r) \<and>
        (\<forall>i < length (blocks_of m rid). skipped_tokens (spec_kind (mgr_spec m)) (max 0 n)
              div mgr_block_size m \<le> int i \<longrightarrow> blocks_of m' rid ! i = blocks_of m rid ! i))
       (single_type_managers ?c) ms1"
    using coord_remove_skipped_effect [OF mok st, of rid n] by blast
  have kp: "list_all2 (kept rid) (single_type_managers ?c) ms1"
    using all by (auto simp: list_all2_conv_all_nth kept_def)
  let ?k = "set_coord (?c\<lparr>single_type_managers := ms1, block_pool := p1\<rparr>) k"
  have "kvm_ok ?k" by (rule kvm_ok_next [OF ok e(2,4) kp])
  moreover have "list_all2 (\<lambda>m m'. kept rid m m' \<and> length (blocks_of m' rid) = length (blocks_of m rid) \<and>
         (\<forall>i < length (blocks_of m rid). skipped_tokens (spec_kind (mgr_spec m)) (max 0 n)
              div mgr_block_size m \<le> int i \<longrightarrow> blocks_of m' rid ! i = blocks_of m rid ! i))
       (single_type_managers ?c) ms1"
    using all by (auto simp: list_all2_conv_all_nth kept_def)
  ultimately show ?thesis
    using e(1,3) by (intro exI [of _ ?k]) (simp add: kvm_remove_skipped_blocks_def set_coord_def)
qed

definition may_cache_up_to :: "kv_cache_manager \<Rightarrow> request \<Rightarrow> int \<Rightarrow> bool" where
  "may_cache_up_to k r n \<longleftrightarrow>
     \<not> enable_kv_cache_events (block_pool (coordinator k)) \<and>
     (\<forall>m \<in> set (single_type_managers (coordinator k)).
        \<not> is_cross_attention m \<and> hashes_ready (block_pool (coordinator k)) r n m)"

lemma kvm_cache_effect:
  assumes ok: "kvm_ok k" and may: "kvm_caching k \<longrightarrow> may_cache_up_to k r n"
  shows "\<exists>k'. kvm_cache_blocks sha r n k = Inr (r, k') \<and> kvm_ok k'"
proof (cases "kvm_caching k")
  case False
  then show ?thesis using ok by (simp add: kvm_cache_blocks_def)
next
  case True
  let ?c = "coordinator k"
  have mok: "mgrs_ok (single_type_managers ?c) (block_pool ?c)" and en: "enable_caching (block_pool ?c)"
    using ok True by (simp_all add: kvm_ok_def)
  obtain ms' p' where e: "coord_cache_blocks sha r n ?c = Inr (r, ?c\<lparr>single_type_managers := ms', block_pool := p'\<rparr>)"
    "mgrs_ok ms' p'" "same_frame (block_pool ?c) p'"
    "list_all2 (\<lambda>m m'. same_static m m' \<and> (\<forall>x. blocks_of m' x = blocks_of m x)) (single_type_managers ?c) ms'"
    using coord_cache_total [OF mok _ en, of r n sha] may True by (auto simp: may_cache_up_to_def)
  have "list_all2 (kept ''x'') (single_type_managers ?c) ms'"
    using e(4) by (auto simp: list_all2_conv_all_nth kept_def)
  from kvm_ok_next [OF ok e(2,3) this] show ?thesis using e(1) True by (simp add: kvm_cache_blocks_def)
qed

lemma same_managers_ok:
  assumes "kvm_ok k" and "\<And>m. req_to_blocks (f m) = req_to_blocks m \<and> num_cached_block (f m) = num_cached_block m \<and>
      same_static m (f m)"
  shows "kvm_ok (set_coord ((coordinator k)\<lparr>single_type_managers := map f (single_type_managers (coordinator k))\<rparr>) k)"
proof -
  have "blocks_of (f m) r = blocks_of m r" "held (f m) b = held m b" "cached_count (f m) r = cached_count m r"
    for m r b using assms(2) [of m] by (simp_all add: blocks_of_def held_def cached_count_def)
  moreover have "distinct (map fst (req_to_blocks (f m)))  = distinct (map fst (req_to_blocks m))"
    "mgr_block_size (f m) = mgr_block_size m" "mgr_null (f m) = mgr_null m" "mgr_caching (f m) = mgr_caching m"
    "kv_cache_group_id (f m) = kv_cache_group_id m" for m
    using assms(2) [of m] by (simp_all add: same_static_def)
  ultimately have "mgr_ok (f m) p = mgr_ok m p" "held (f m) b = held m b" for m p b
    by (simp_all add: mgr_ok_def)
  moreover have "static_ok (f m) = static_ok m" for m
    using assms(2) [of m] static_ok_cong [of m "f m"] by simp
  ultimately show ?thesis
    using assms(1) by (simp add: kvm_ok_def set_coord_def mgrs_ok_def comp_def)
qed

lemma allocate_slots_ok:
  assumes "kvm_ok k" and "may_allocate k r a" and "may_cache k r a" and "num_new_tokens a \<noteq> 0"
    and "num_external_tokens a = 0" and "allocate_slots sha r a k = Inr (res, r', k')"
  shows "kvm_ok k'"
  using allocate_slots_effect [OF assms(1-5), of sha] assms(6) by auto

inductive kvm_step ::
  "(byte list \<Rightarrow> block_hash) \<Rightarrow> kv_cache_manager \<Rightarrow> kv_cache_manager \<Rightarrow> bool" for sha where
  allocate: "may_allocate k r a \<Longrightarrow> may_cache k r a \<Longrightarrow> num_new_tokens a \<noteq> 0 \<Longrightarrow>
     num_external_tokens a = 0 \<Longrightarrow> allocate_slots sha r a k = Inr (res, r', k') \<Longrightarrow> kvm_step sha k k'"
| free: "kvm_free r k = Inr k' \<Longrightarrow> kvm_step sha k k'"
| skip: "kvm_remove_skipped_blocks rid n k = Inr k' \<Longrightarrow> kvm_step sha k k'"
| lookup: "get_computed_blocks r k = Some (Inr (res, k')) \<Longrightarrow> kvm_step sha k k'"
| reset: "kvm_reset_prefix_cache k = (done, k') \<Longrightarrow> kvm_step sha k k'"
| evict: "\<forall>i \<in> set ids. 0 \<le> i \<and> i < num_gpu_blocks (block_pool (coordinator k)) \<Longrightarrow>
     kvm_evict_blocks ids k = Inr k' \<Longrightarrow> kvm_step sha k k'"
| cache: "kvm_caching k \<longrightarrow> may_cache_up_to k r n \<Longrightarrow> kvm_cache_blocks sha r n k = Inr (r', k') \<Longrightarrow> kvm_step sha k k'"
| new_ids: "kvm_take_new_block_ids k = (ids, k') \<Longrightarrow> kvm_step sha k k'"
| new_step: "kvm_new_step_starts k = k' \<Longrightarrow> kvm_step sha k k'"
| stats: "make_prefix_cache_stats k = (s, k') \<Longrightarrow> kvm_step sha k k'"

lemma map_sum_Inr: "map_sum f g x = Inr y \<longleftrightarrow> (\<exists>z. x = Inr z \<and> y = g z)"
  by (cases x) auto

lemma kvm_step_ok: "kvm_step sha k k' \<Longrightarrow> kvm_ok k \<Longrightarrow> kvm_ok k'"
proof (induction rule: kvm_step.induct)
  case (allocate k r a res r' k')
  then show ?case using allocate_slots_ok by blast
next
  case (free r k k')
  then show ?case using kvm_free_effect [of k r] by auto
next
  case (skip rid n k k')
  then show ?case using kvm_skip_effect [of k rid n] by auto
next
  case (lookup r k res k')
  then show ?case by (auto simp: get_computed_blocks_def map_sum_Inr split: if_splits)
next
  case (reset k b k')
  let ?p = "block_pool (coordinator k)" and ?q = "snd (reset_prefix_cache (block_pool (coordinator k)))"
  obtain fl where pok: "pool_ok ?p fl" using reset.prems by (auto simp: kvm_ok_def mgrs_ok_def pool_good_def)
  note e = reset_effect [OF pok]
  have t: "tags ?q b = None \<or> tags ?q b = tags ?p b" for b
    using e(2,3) by (cases "fst (reset_prefix_cache ?p)") auto
  have "mgrs_ok (single_type_managers (coordinator k)) ?q"
    by (rule mgrs_ok_untag [of _ ?p]) (use reset.prems e(4,5,6) t in \<open>auto simp: kvm_ok_def pool_good_def\<close>)
  from kvm_ok_pool [OF reset.prems this e(6)] show ?case
    using reset.hyps by (auto simp: kvm_reset_prefix_cache_def split: prod.splits bool.splits)
next
  case (evict ids k k')
  let ?p = "block_pool (coordinator k)"
  obtain fl where pok: "pool_ok ?p fl" using evict.prems by (auto simp: kvm_ok_def mgrs_ok_def pool_good_def)
  obtain q where q: "evict_blocks ids ?p = Inr q" "pool_ok q fl" "same_frame ?p q" "refs q = refs ?p"
    "tags q = (\<lambda>b. if int b \<in> set ids then None else tags ?p b)"
    using evict_blocks_effect [OF pok evict.hyps(1)] by blast
  have "mgrs_ok (single_type_managers (coordinator k)) q"
    by (rule mgrs_ok_untag [of _ ?p]) (use evict.prems q in \<open>auto simp: kvm_ok_def pool_good_def\<close>)
  from kvm_ok_pool [OF evict.prems this q(3)] show ?case
    using evict.hyps(2) q(1) by (simp add: kvm_evict_blocks_def)
next
  case (cache k r n r' k')
  then show ?case using kvm_cache_effect [of k r n sha] by auto
next
  case (new_ids k ids k')
  have "k' = set_coord ((coordinator k)\<lparr>single_type_managers :=
      map (\<lambda>m. m\<lparr>new_block_ids := []\<rparr>) (single_type_managers (coordinator k))\<rparr>) k"
    using new_ids.hyps by (auto simp: kvm_take_new_block_ids_def Let_def take_new_block_ids_def comp_def)
  then show ?case using same_managers_ok [OF new_ids.prems, of "\<lambda>m. m\<lparr>new_block_ids := []\<rparr>"]
    by (simp add: same_static_def)
next
  case (new_step k k')
  have "req_to_blocks (mgr_new_step_starts m) = req_to_blocks m \<and>
      num_cached_block (mgr_new_step_starts m) = num_cached_block m \<and> same_static m (mgr_new_step_starts m)" for m
    by (simp add: mgr_new_step_starts_def same_static_def split: spec_kind.split)
  from same_managers_ok [OF new_step.prems this] show ?case
    using new_step.hyps by (simp add: kvm_new_step_starts_def coord_new_step_starts_def)
next
  case (stats k s k')
  then show ?case by (auto simp: make_prefix_cache_stats_def split: option.splits)
qed

lemma kvm_run_ok: "(kvm_step sha)\<^sup>*\<^sup>* k k' \<Longrightarrow> kvm_ok k \<Longrightarrow> kvm_ok k'"
  by (induction rule: rtranclp_induct) (auto intro: kvm_step_ok)

lemma all_free:
  assumes ok: "kvm_ok k"
    and none: "\<forall>m \<in> set (single_type_managers (coordinator k)). \<forall>rid. blocks_of m rid = []"
  shows "get_num_free_blocks (block_pool (coordinator k)) = num_gpu_blocks (block_pool (coordinator k)) - 1"
proof -
  let ?p = "block_pool (coordinator k)" and ?ms = "single_type_managers (coordinator k)"
  obtain fl where pok: "pool_ok ?p fl" using ok by (auto simp: kvm_ok_def mgrs_ok_def pool_good_def)
  have "held m b = 0" if m: "m \<in> set ?ms" for m b
  proof -
    have d: "distinct (map fst (req_to_blocks m))" using ok m by (simp add: kvm_ok_def mgrs_ok_def mgr_ok_def)
    have "snd e = []" if e: "e \<in> set (req_to_blocks m)" for e
      using none m e map_of_is_SomeI [OF d, of "fst e" "snd e"] by (auto simp: blocks_of_def split: option.splits)
    then show ?thesis unfolding held_def by (intro sum_list_all_zero) simp
  qed
  then have "sum_list (map (\<lambda>m. held m b) ?ms) = 0" for b
    by (intro sum_list_all_zero) blast
  then have "\<forall>b < length (blocks ?p). b \<noteq> 0 \<longrightarrow> refs ?p b = 0"
    using ok by (simp add: kvm_ok_def mgrs_ok_def)
  then have "filter (\<lambda>b. b \<noteq> 0 \<and> refs ?p b \<noteq> 0) [0..<length (blocks ?p)] = []"
    by (auto simp: filter_empty_conv)
  then have "num_referenced ?p = 0" by (simp add: num_referenced_def)
  then show ?thesis using free_plus_referenced [OF pok] by simp
qed

lemma free_all_effect:
  assumes "kvm_ok k"
    and "\<forall>m \<in> set (single_type_managers (coordinator k)). \<forall>rid. blocks_of m rid \<noteq> [] \<longrightarrow> rid \<in> set (map request_id rs) \<union> S"
  shows "\<exists>k'. fold_res kvm_free rs k = Inr k' \<and> kvm_ok k' \<and>
     num_gpu_blocks (block_pool (coordinator k')) = num_gpu_blocks (block_pool (coordinator k)) \<and>
     (\<forall>m \<in> set (single_type_managers (coordinator k')). \<forall>rid. blocks_of m rid \<noteq> [] \<longrightarrow> rid \<in> S)"
  using assms
proof (induction rs arbitrary: k)
  case Nil
  then show ?case by simp
next
  case (Cons r rs)
  obtain k1 where k1: "kvm_free r k = Inr k1" "kvm_ok k1"
    "list_all2 (kept (request_id r)) (single_type_managers (coordinator k)) (single_type_managers (coordinator k1))"
    "\<forall>m \<in> set (single_type_managers (coordinator k1)). blocks_of m (request_id r) = []"
    "num_gpu_blocks (block_pool (coordinator k1)) = num_gpu_blocks (block_pool (coordinator k))"
    using kvm_free_effect [OF Cons.prems(1), of r] by blast
  have "rid \<in> set (map request_id rs) \<union> S"
    if m: "m \<in> set (single_type_managers (coordinator k1))" "blocks_of m rid \<noteq> []" for m rid
  proof -
    obtain j where j: "j < length (single_type_managers (coordinator k1))" "m = single_type_managers (coordinator k1) ! j"
      using m(1) by (auto simp: in_set_conv_nth)
    have ne: "rid \<noteq> request_id r" using k1(4) m by auto
    have mem: "single_type_managers (coordinator k) ! j \<in> set (single_type_managers (coordinator k))"
      using k1(3) j(1) by (simp add: list_all2_lengthD)
    have "blocks_of m rid = blocks_of (single_type_managers (coordinator k) ! j) rid"
      using k1(3) j ne by (simp add: list_all2_conv_all_nth kept_def)
    then have "rid \<in> set (map request_id (r # rs)) \<union> S"
      using Cons.prems(2) mem m(2) by auto
    then show ?thesis using ne by simp
  qed
  then have "\<forall>m \<in> set (single_type_managers (coordinator k1)). \<forall>rid. blocks_of m rid \<noteq> [] \<longrightarrow>
      rid \<in> set (map request_id rs) \<union> S" by blast
  from Cons.IH [OF k1(2) this] show ?case using k1(1,5) by auto
qed

section \<open>Properties\<close>


text \<open>
  C4. Freeing all requests that hold blocks never fails and leaves every block but the null block
  free: no block is lost.
\<close>

theorem freeing_all_returns_pool:
  assumes "kvm_ok k"
    and "\<forall>m \<in> set (single_type_managers (coordinator k)). \<forall>rid.
       blocks_of m rid \<noteq> [] \<longrightarrow> rid \<in> set (map request_id rs)"
  shows "\<exists>k'. fold_res kvm_free rs k = Inr k' \<and>
     get_num_free_blocks (block_pool (coordinator k')) = num_gpu_blocks (block_pool (coordinator k)) - 1"
proof -
  obtain k' where "fold_res kvm_free rs k = Inr k'" "kvm_ok k'"
    "num_gpu_blocks (block_pool (coordinator k')) = num_gpu_blocks (block_pool (coordinator k))"
    "\<forall>m \<in> set (single_type_managers (coordinator k')). \<forall>rid. blocks_of m rid \<noteq> [] \<longrightarrow> rid \<in> {}"
    using free_all_effect [OF assms(1), of rs "{}"] assms(2) by auto
  then show ?thesis using all_free [of k'] by auto
qed

text \<open>
  C22. Removing the skipped blocks of a request only touches blocks that lie entirely before the
  first token that the attention of the group still reads; every later block stays in place, and
  the number of free blocks never shrinks.
\<close>

theorem skipping_keeps_window:
  assumes "kvm_ok k"
  shows "\<exists>k'. kvm_remove_skipped_blocks rid n k = Inr k' \<and> kvm_ok k' \<and>
     get_num_free_blocks (block_pool (coordinator k)) \<le> get_num_free_blocks (block_pool (coordinator k')) \<and>
     list_all2 (\<lambda>m m'. kept rid m m' \<and> length (blocks_of m' rid) = length (blocks_of m rid) \<and>
         (\<forall>i < length (blocks_of m rid). skipped_tokens (spec_kind (mgr_spec m)) (max 0 n)
              div mgr_block_size m \<le> int i \<longrightarrow> blocks_of m' rid ! i = blocks_of m rid ! i))
       (single_type_managers (coordinator k)) (single_type_managers (coordinator k'))"
  by (rule kvm_skip_effect [OF assms])

section \<open>Examples\<close>

text \<open>A manager for one full attention group, 6 blocks of 2 tokens, and a request of 3 tokens.\<close>

definition full_spec :: kv_cache_spec where
  "full_spec = \<lparr>spec_block_size = 2, spec_kind = FullAttention, spec_layout = []\<rparr>"

definition three_tokens :: request where
  "three_tokens = (sample_request ''a'' [1, 2, 3])\<lparr>block_hashes := [[9]], num_computed_tokens := 0\<rparr>"

lemma fresh_full_spec: "fresh_spec 1 1 full_spec"
  by (simp add: fresh_spec_def full_spec_def spec_ok_def)

lemma sample_kvm:
  "\<exists>k. init_kv_cache_manager [full_spec] 6 100 2 True False False False False 1 1 = Inr k \<and> kvm_ok k \<and>
     may_allocate k three_tokens (default_slots 3) \<and> may_cache k three_tokens (default_slots 3) \<and>
     (\<forall>m \<in> set (single_type_managers (coordinator k)). \<forall>rid. blocks_of m rid = [])"
proof -
  obtain c where "init_coordinator Unitary [full_spec] 6 100 False True False False 1 1 2 = Inr c"
    using init_coordinator_ok [of 6 "[full_spec]" 1 1 Unitary 100 False True False False 2] fresh_full_spec by auto
  then have "\<exists>k. init_kv_cache_manager [full_spec] 6 100 2 True False False False False 1 1 = Inr k"
    by (simp add: init_kv_cache_manager_def get_kv_cache_coordinator_def init_unitary_def full_spec_def)
  then obtain k where k: "init_kv_cache_manager [full_spec] 6 100 2 True False False False False 1 1 = Inr k" ..
  have "(0 :: int) < 6" "\<forall>s \<in> set [full_spec]. fresh_spec 1 1 s" "int (length [full_spec]) \<le> 2 ^ 32"
    "True \<longrightarrow> [full_spec] \<noteq> []" using fresh_full_spec by simp_all
  note i = init_kvm_ok [OF this k]
  obtain m where m: "single_type_managers (coordinator k) = [m]" "mgr_spec m = full_spec"
    using i by (auto simp: map_eq_Cons_conv)
  have mb: "req_to_blocks m = []" "\<forall>r. num_cached_block m r = None" "mgr_ok m (block_pool (coordinator k))" "static_ok m"
    using i m by (auto simp: kvm_ok_def mgrs_ok_def)
  have sz: "mgr_block_size m = 2"
    using k m by (auto simp: init_kv_cache_manager_def get_kv_cache_coordinator_def init_unitary_def
        init_coordinator_def get_manager_def init_manager_def full_spec_def res_simps Let_def)
  have x: "\<not> is_cross_attention m" "skipped_tokens (spec_kind (mgr_spec m)) 0 = 0"
    using m(2) by (simp_all add: is_cross_attention_def full_spec_def skipped_tokens_def)
  have "may_allocate k three_tokens (default_slots 3)"
    using m mb x by (simp add: may_allocate_def default_slots_def can_resume_def local_computed_tokens_def
        three_tokens_def)
  moreover have "may_cache k three_tokens (default_slots 3)"
    using m mb x sz i
    by (simp add: may_cache_def hashes_ready_def hashes_at_def default_slots_def tokens_main_model_def
        total_computed_tokens_def local_computed_tokens_def three_tokens_def num_tokens_def sample_request_def)
  moreover have "blocks_of m rid = []" for rid using mb(1) by (simp add: blocks_of_def)
  ultimately show ?thesis using i k m by auto
qed

lemma allocated_kvm:
  "\<exists>k0 res k. init_kv_cache_manager [full_spec] 6 100 2 True False False False False 1 1 = Inr k0 \<and>
     allocate_slots sha three_tokens (default_slots 3) k0 = Inr (res, three_tokens, k) \<and> kvm_ok k \<and>
     (kvm_step sha)\<^sup>*\<^sup>* k0 k \<and>
     (\<forall>m \<in> set (single_type_managers (coordinator k)). \<forall>rid.
        blocks_of m rid \<noteq> [] \<longrightarrow> rid = request_id three_tokens)"
proof -
  obtain k0 where k0: "init_kv_cache_manager [full_spec] 6 100 2 True False False False False 1 1 = Inr k0"
    "kvm_ok k0" "may_allocate k0 three_tokens (default_slots 3)" "may_cache k0 three_tokens (default_slots 3)"
    "\<forall>m \<in> set (single_type_managers (coordinator k0)). \<forall>rid. blocks_of m rid = []"
    using sample_kvm by blast
  have d: "num_new_tokens (default_slots 3) \<noteq> 0" "num_external_tokens (default_slots 3) = 0"
    by (simp_all add: default_slots_def)
  obtain res k where k: "allocate_slots sha three_tokens (default_slots 3) k0 = Inr (res, three_tokens, k)"
    "kvm_ok k" "list_all2 (kept (request_id three_tokens)) (single_type_managers (coordinator k0))
      (single_type_managers (coordinator k))"
    using allocate_slots_effect [OF k0(2-4) d] by blast
  have "kvm_step sha k0 k" by (rule kvm_step.allocate [OF k0(3,4) d k(1)])
  moreover have "rid = request_id three_tokens"
    if m: "m \<in> set (single_type_managers (coordinator k))" "blocks_of m rid \<noteq> []" for m rid
  proof (rule ccontr)
    assume ne: "rid \<noteq> request_id three_tokens"
    obtain j where j: "j < length (single_type_managers (coordinator k))" "m = single_type_managers (coordinator k) ! j"
      using m(1) by (auto simp: in_set_conv_nth)
    then show False
      using k(3) k0(5) ne m(2) by (simp add: list_all2_conv_all_nth kept_def)
  qed
  ultimately show ?thesis using k0(1) k(1,2) by blast
qed


theorem freeing_all_returns_pool_witness:
  "\<exists>k0 res k k'. init_kv_cache_manager [full_spec] 6 100 2 True False False False False 1 1 = Inr k0 \<and>
     allocate_slots (\<lambda>_. [7]) three_tokens (default_slots 3) k0 = Inr (res, three_tokens, k) \<and>
     fold_res kvm_free [three_tokens] k = Inr k' \<and>
     get_num_free_blocks (block_pool (coordinator k')) = num_gpu_blocks (block_pool (coordinator k)) - 1"
proof -
  obtain k0 res k where k: "init_kv_cache_manager [full_spec] 6 100 2 True False False False False 1 1 = Inr k0"
    "allocate_slots (\<lambda>_. [7]) three_tokens (default_slots 3) k0 = Inr (res, three_tokens, k)" "kvm_ok k"
    "\<forall>m \<in> set (single_type_managers (coordinator k)). \<forall>rid. blocks_of m rid \<noteq> [] \<longrightarrow> rid = request_id three_tokens"
    using allocated_kvm [of "\<lambda>_. [7]"] by blast
  then show ?thesis using freeing_all_returns_pool [OF k(3), of "[three_tokens]"] by auto
qed

theorem skipping_keeps_window_witness:
  "\<exists>k k'. init_kv_cache_manager [full_spec] 6 100 2 True False False False False 1 1 = Inr k \<and>
     kvm_remove_skipped_blocks ''a'' 3 k = Inr k' \<and> kvm_ok k'"
proof -
  obtain k where k: "init_kv_cache_manager [full_spec] 6 100 2 True False False False False 1 1 = Inr k" "kvm_ok k"
    using sample_kvm by blast
  then show ?thesis using skipping_keeps_window [OF k(2), of "''a''" 3] by blast
qed

theorem allocate_slots_safe_witness:
  "\<exists>k res k'. init_kv_cache_manager [full_spec] 6 100 2 True False False False False 1 1 = Inr k \<and>
     allocate_slots (\<lambda>_. [7]) three_tokens (default_slots 3) k = Inr (res, three_tokens, k') \<and> kvm_ok k'"
proof -
  obtain k where k: "init_kv_cache_manager [full_spec] 6 100 2 True False False False False 1 1 = Inr k" "kvm_ok k"
    "may_allocate k three_tokens (default_slots 3)" "may_cache k three_tokens (default_slots 3)"
    using sample_kvm by blast
  have "num_new_tokens (default_slots 3) \<noteq> 0" "num_external_tokens (default_slots 3) = 0"
    by (simp_all add: default_slots_def)
  from allocate_slots_safe [OF k(2-4) this, of "\<lambda>_. [7]"] k(1) show ?thesis by blast
qed

end
