(* ===== verification/Hybrid_Hit.thy ===== *)
theory Hybrid_Hit
  imports KV_Coordinator
begin

text \<open>
  The prefix lookup of \<^verbatim>\<open>HybridKVCacheCoordinator.find_longest_cache_hit\<close>: the loop over the
  attention groups ends, and its result is a hit of the same length in every group.
\<close>

section \<open>Groups\<close>

text \<open>
  The attention groups as \<open>verify_and_split_kv_cache_groups\<close> leaves them, with full attention in
  the first group only.
\<close>

definition group_ok :: "coordinator \<Rightarrow> kv_cache_spec \<times> int list \<Rightarrow> bool" where
  "group_ok c ag \<longleftrightarrow> spec_ok (fst ag) \<and> spec_block_size (fst ag) dvd lcm_block_size c \<and>
     snd ag \<noteq> [] \<and> distinct (snd ag) \<and>
     (\<forall>g \<in> set (snd ag). 0 \<le> g \<and> g < int (length (kv_cache_groups c)))"

definition groups_ok :: "coordinator \<Rightarrow> bool" where
  "groups_ok c \<longleftrightarrow> attention_groups c \<noteq> [] \<and> lcm_block_size c \<noteq> 0 \<and>
     int (length (kv_cache_groups c)) \<le> 2 ^ 32 \<and> pool_good (block_pool c) \<and>
     (\<forall>ag \<in> set (attention_groups c). group_ok c ag) \<and>
     distinct (concat (map snd (attention_groups c))) \<and>
     (\<forall>ag \<in> set (tl (attention_groups c)). \<not> is_full_attention (fst ag))"

definition has_blocks :: "int list \<Rightarrow> nat list list \<Rightarrow> nat list option list \<Rightarrow> bool" where
  "has_blocks gids cs found \<longleftrightarrow>
     (\<forall>j < length gids. nat (gids ! j) < length found \<and> found ! nat (gids ! j) = Some (cs ! j))"

text \<open>The entries of a group are a hit of \<open>n\<close> tokens.\<close>

definition hit_of :: "coordinator \<Rightarrow> block_hash list \<Rightarrow> kv_cache_spec \<times> int list \<Rightarrow>
    nat list option list \<Rightarrow> int \<Rightarrow> bool" where
  "hit_of c hs ag found n \<longleftrightarrow>
     (\<exists>ghs cs k. group_hashes c hs (fst ag) = Inr ghs \<and> has_blocks (snd ag) cs found \<and>
        columns (block_pool c) ghs (snd ag) cs k
          {i. skipped_tokens (spec_kind (fst ag)) (int k * spec_block_size (fst ag))
                div spec_block_size (fst ag) \<le> int i} \<and>
        int k * spec_block_size (fst ag) = n)"

lemma fold_update:
  assumes "distinct gids" and "\<forall>g \<in> set gids. 0 \<le> g \<and> nat g < length found" and "length cs = length gids"
  defines "found' \<equiv> fold (\<lambda>(gid, blks) f. f[nat gid := Some blks]) (zip gids cs) found"
  shows "length found' = length found \<and> has_blocks gids cs found' \<and>
     (\<forall>g. 0 \<le> g \<and> g \<notin> set gids \<longrightarrow> found' ! nat g = found ! nat g)"
  unfolding found'_def using assms(1-3)
proof (induction gids arbitrary: cs found)
  case Nil
  then show ?case by (simp add: has_blocks_def)
next
  case (Cons g gids)
  obtain b cs' where cs: "cs = b # cs'" using Cons.prems(3) by (cases cs) auto
  let ?f = "found[nat g := Some b]"
  let ?r = "fold (\<lambda>(gid, blks) f. f[nat gid := Some blks]) (zip gids cs') ?f"
  have g: "0 \<le> g" "nat g < length found" "g \<notin> set gids" using Cons.prems by simp_all
  have IH: "length ?r = length ?f \<and> has_blocks gids cs' ?r \<and>
     (\<forall>g. 0 \<le> g \<and> g \<notin> set gids \<longrightarrow> ?r ! nat g = ?f ! nat g)"
    using Cons.IH [of ?f cs'] Cons.prems cs by simp
  have "has_blocks (g # gids) (b # cs') ?r"
    using IH g by (auto simp: has_blocks_def nth_Cons split: nat.splits)
  moreover have "?r ! nat x = found ! nat x" if "0 \<le> x" "x \<notin> set (g # gids)" for x
    using IH that g by (auto simp: nth_list_update eq_nat_nat_iff)
  ultimately show ?case using IH cs by simp
qed

lemma hit_of_cong:
  assumes "hit_of c hs ag found n" and "group_ok c ag" and "length found' = length found"
    and "\<And>g. g \<in> set (snd ag) \<Longrightarrow> found' ! nat g = found ! nat g"
  shows "hit_of c hs ag found' n"
  using assms unfolding hit_of_def has_blocks_def by fastforce

section \<open>Splitting into groups\<close>

text \<open>\<open>verify_and_split_kv_cache_groups\<close> produces such groups when the specs have one kind of full attention.\<close>

lemma add_to_group_effect:
  shows "set (map fst (add_to_group s i gs)) = insert s (set (map fst gs))"
    and "distinct (map fst gs) \<Longrightarrow> distinct (map fst (add_to_group s i gs))"
    and "mset (concat (map snd (add_to_group s i gs))) = add_mset i (mset (concat (map snd gs)))"
    and "\<forall>g \<in> set gs. snd g \<noteq> [] \<Longrightarrow> \<forall>g \<in> set (add_to_group s i gs). snd g \<noteq> []"
proof -
  show A: "set (map fst (add_to_group s i gs)) = insert s (set (map fst gs))"
    for s i and gs :: "(kv_cache_spec \<times> int list) list"
    by (induction s i gs rule: add_to_group.induct) (simp_all add: insert_commute)
  show "distinct (map fst gs) \<Longrightarrow> distinct (map fst (add_to_group s i gs))"
  proof (induction s i gs rule: add_to_group.induct)
    case (2 s i t ids gs)
    then show ?case using A [of s i gs] by (cases "t = s") simp_all
  qed simp
  show "mset (concat (map snd (add_to_group s i gs))) = add_mset i (mset (concat (map snd gs)))"
    by (induction s i gs rule: add_to_group.induct) simp_all
  show "\<forall>g \<in> set gs. snd g \<noteq> [] \<Longrightarrow> \<forall>g \<in> set (add_to_group s i gs). snd g \<noteq> []"
    by (induction s i gs rule: add_to_group.induct) simp_all
qed

definition add_specs :: "(nat \<times> kv_cache_spec) list \<Rightarrow> (kv_cache_spec \<times> int list) list \<Rightarrow>
    (kv_cache_spec \<times> int list) list" where
  "add_specs xs gs = fold (\<lambda>(i, s) gs. add_to_group s (int i) gs) xs gs"

lemma add_specs_simps [simp]:
  "add_specs [] gs = gs" "add_specs (x # xs) gs = add_specs xs (add_to_group (snd x) (int (fst x)) gs)"
  by (simp_all add: add_specs_def case_prod_beta)

lemma fst_add_specs: "fst ` set (add_specs xs gs) = snd ` set xs \<union> fst ` set gs"
proof (induction xs arbitrary: gs)
  case (Cons x xs)
  show ?case using Cons.IH [of "add_to_group (snd x) (int (fst x)) gs"] add_to_group_effect(1) [of "snd x" "int (fst x)" gs]
    by simp
qed simp

lemma distinct_add_specs: "distinct (map fst gs) \<Longrightarrow> distinct (map fst (add_specs xs gs))"
proof (induction xs arbitrary: gs)
  case (Cons x xs)
  show ?case unfolding add_specs_simps by (rule Cons.IH [OF add_to_group_effect(2) [OF Cons.prems]])
qed simp

lemma mset_add_specs:
  "mset (concat (map snd (add_specs xs gs))) = mset (map (int \<circ> fst) xs) + mset (concat (map snd gs))"
proof (induction xs arbitrary: gs)
  case (Cons x xs)
  show ?case unfolding add_specs_simps Cons.IH add_to_group_effect(3) by (simp add: comp_def)
qed simp

lemma nonempty_add_specs: "\<forall>g \<in> set gs. snd g \<noteq> [] \<Longrightarrow> \<forall>g \<in> set (add_specs xs gs). snd g \<noteq> []"
proof (induction xs arbitrary: gs)
  case (Cons x xs)
  show ?case unfolding add_specs_simps by (rule Cons.IH [OF add_to_group_effect(4) [OF Cons.prems]])
qed simp

lemma split_groups_effect:
  shows "set (map fst (split_groups specs)) = set specs" and "distinct (map fst (split_groups specs))"
    and "mset (concat (map snd (split_groups specs))) = mset (map int [0..<length specs])"
    and "\<forall>g \<in> set (split_groups specs). snd g \<noteq> []"
proof -
  have sp: "split_groups specs = add_specs (zip [0..<length specs] specs) []"
    by (simp add: split_groups_def add_specs_def)
  have fs: "map (int \<circ> fst) (zip [0..<length specs] specs) = map int [0..<length specs]"
    by (simp add: map_map [symmetric] del: map_map)
  have "snd ` set (zip [0..<length specs] specs) = set specs"
    by (metis length_map length_upt map_snd_zip minus_nat.diff_0 set_map)
  then show "set (map fst (split_groups specs)) = set specs" by (simp add: sp fst_add_specs)
  show "distinct (map fst (split_groups specs))" unfolding sp by (rule distinct_add_specs) simp
  show "mset (concat (map snd (split_groups specs))) = mset (map int [0..<length specs])"
    unfolding sp mset_add_specs fs by simp
  show "\<forall>g \<in> set (split_groups specs). snd g \<noteq> []" unfolding sp by (rule nonempty_add_specs) simp
qed

lemma foldl_lcm_dvd: "(x :: int) dvd a \<Longrightarrow> x dvd foldl lcm a xs"
  by (induction xs arbitrary: a) (auto intro: dvd_trans)

lemma mem_dvd_foldl_lcm: "x \<in> set xs \<Longrightarrow> (x :: int) dvd foldl lcm a xs"
  by (induction xs arbitrary: a) (auto intro: foldl_lcm_dvd)

lemma foldl_lcm_nonzero: "a \<noteq> 0 \<Longrightarrow> \<forall>x \<in> set xs. x \<noteq> 0 \<Longrightarrow> foldl lcm a xs \<noteq> (0 :: int)"
  by (induction xs arbitrary: a) auto

lemma verify_and_split_ok:
  assumes run: "verify_and_split c = Inr c'" and good: "pool_good (block_pool c)"
    and n: "int (length (kv_cache_groups c)) \<le> 2 ^ 32" and s: "\<forall>s \<in> set (kv_cache_groups c). spec_ok s"
    and one: "\<forall>s \<in> set (kv_cache_groups c). \<forall>t \<in> set (kv_cache_groups c).
      is_full_attention s \<and> is_full_attention t \<longrightarrow> s = t"
  shows "groups_ok c'"
proof -
  let ?specs = "kv_cache_groups c" and ?key = "\<lambda>g. if is_full_attention (fst g) then 0 else 1 :: nat"
  let ?gs = "split_groups ?specs" and ?ags = "sort_key ?key (split_groups ?specs)"
  let ?l = "foldl lcm 1 (map (\<lambda>g. spec_block_size (fst g)) ?gs)"
  have c': "c' = c\<lparr>attention_groups := ?ags, lcm_block_size := ?l\<rparr>" and len: "1 < length ?gs"
    using run by (simp_all add: verify_and_split_def Let_def res_simps)
  note sp = split_groups_effect [of ?specs]
  have specs: "fst g \<in> set ?specs" if "g \<in> set ?gs" for g
  proof -
    have "fst g \<in> set (map fst ?gs)" using that by simp
    then show ?thesis unfolding sp(1) .
  qed
  have bs: "0 < spec_block_size (fst g)" if "g \<in> set ?gs" for g using s specs [OF that] by (simp add: spec_ok_def)
  have mc: "mset (concat (map snd ?ags)) = mset (map int [0..<length ?specs])"
    using sp(3) unfolding mset_concat sum_mset_sum_list [symmetric] mset_map mset_sort .
  have dc: "distinct (concat (map snd ?ags))"
    by (rule mset_eq_imp_distinct_iff [OF mc, THEN iffD2]) (simp add: distinct_map)
  have rng: "0 \<le> x \<and> x < int (length ?specs)" if "g \<in> set ?gs" "x \<in> set (snd g)" for g x
  proof -
    have "x \<in> set (concat (map snd ?gs))" using that by (simp only: set_concat set_map) (rule UN_I, simp_all)
    then have "x \<in> set (map int [0..<length ?specs])" unfolding mset_eq_setD [OF sp(3)] .
    then show ?thesis by (simp add: image_iff) (elim bexE, simp)
  qed
  have dg: "distinct (snd g)" if "g \<in> set ?gs" for g
  proof -
    have "snd g \<in> set (map snd ?ags)" using that by simp
    then show ?thesis using dc unfolding distinct_concat_iff by blast
  qed
  have gok: "group_ok c' g" if g: "g \<in> set ?gs" for g
  proof -
    have "spec_block_size (fst g) \<in> set (map (\<lambda>g. spec_block_size (fst g)) ?gs)" using g by simp
    from mem_dvd_foldl_lcm [OF this, of 1] show ?thesis
      using sp(4) s specs [OF g] rng [OF g] dg [OF g] g by (simp add: group_ok_def c')
  qed
  have tl: "\<not> is_full_attention (fst ag)" if ag: "ag \<in> set (tl ?ags)" for ag
  proof
    assume f: "is_full_attention (fst ag)"
    obtain h t where ht: "?ags = h # t" using ag by (cases ?ags) auto
    then have at: "ag \<in> set t" using ag by simp
    have "sorted (map ?key (h # t))" using ht sorted_sort_key [of ?key ?gs] by simp
    then have "?key h \<le> ?key ag" using at by (simp only: list.map sorted_simps) simp
    then have fh: "is_full_attention (fst h)" using f by (simp split: if_splits)
    have "h \<in> set ?ags" "ag \<in> set ?ags" unfolding ht using at by simp_all
    then have "h \<in> set ?gs" "ag \<in> set ?gs" by simp_all
    then have eq: "fst h = fst ag" using one specs f fh by blast
    have "mset (map fst ?ags) = mset (map fst ?gs)" by simp
    then have "distinct (map fst ?ags)" using sp(2) mset_eq_imp_distinct_iff by blast
    then have "fst h \<notin> set (map fst t)" using ht by simp
    moreover have "fst ag \<in> set (map fst t)" using at by simp
    ultimately show False using eq by simp
  qed
  have "?l \<noteq> 0" 
  proof (rule foldl_lcm_nonzero)
    show "\<forall>x \<in> set (map (\<lambda>g. spec_block_size (fst g)) ?gs). x \<noteq> 0"
    proof
      fix x assume "x \<in> set (map (\<lambda>g. spec_block_size (fst g)) ?gs)"
      then obtain g where "g \<in> set ?gs" "x = spec_block_size (fst g)" by (simp only: set_map) (elim imageE)
      then show "x \<noteq> 0" using bs [of g] by simp
    qed
  qed simp
  moreover have "length ?ags = length ?gs" by simp
  then have "?ags \<noteq> []" using len by (cases ?ags) simp_all
  ultimately show ?thesis
    using gok dc tl good n by (simp add: groups_ok_def c')
qed

section \<open>One group\<close>

lemma hit_group_effect:
  assumes ok: "groups_ok c" and ag: "ag \<in> set (attention_groups c)"
    and len: "length found = length (kv_cache_groups c)" and L: "0 \<le> L"
    and run: "hit_group c hs ag (L, found) = Inr (L', found')"
    and old: "is_full_attention (fst ag) \<and> found ! nat (hd (snd ag)) \<noteq> None \<longrightarrow>
      (\<exists>n. hit_of c hs ag found n \<and> L \<le> n)"
  shows "0 \<le> L' \<and> L' \<le> L \<and> L' mod spec_block_size (fst ag) = 0 \<and> length found' = length found \<and>
     (\<forall>g. 0 \<le> g \<and> g \<notin> set (snd ag) \<longrightarrow> found' ! nat g = found ! nat g) \<and>
     (\<exists>n. hit_of c hs ag found' n \<and> L' \<le> n \<and> (\<not> is_full_attention (fst ag) \<longrightarrow> n = L' \<and> L' mod lcm_block_size c = 0))"
proof -
  obtain spec gids where sg: "ag = (spec, gids)" by (cases ag)
  let ?bs = "spec_block_size spec"
  have gok: "group_ok c ag" using ok ag by (simp add: groups_ok_def)
  have f: "spec_ok spec" "?bs dvd lcm_block_size c" "gids \<noteq> []" "distinct gids"
    "\<forall>g \<in> set gids. 0 \<le> g \<and> nat g < length found"
    using gok len sg by (auto simp: group_ok_def)
  have bs: "0 < ?bs" using f(1) by (simp add: spec_ok_def)
  have "hd gids \<in> set gids" using f(3) by simp
  then have h: "0 \<le> hd gids" "nat (hd gids) < length found" using f(5) by blast+
  then have h': "hd gids < int (length found)" by linarith
  have e: "hit_group c hs (spec, gids) (L, found) =
      (if is_full_attention spec \<and> found ! nat (hd gids) \<noteq> None then
         require (?bs \<noteq> 0) ZeroDivisionError (Inr (L div ?bs * ?bs, found))
       else
         res_bind (group_hashes c hs spec) (\<lambda>ghs.
         res_bind (find_longest_cache_hit ghs L gids (block_pool c) spec (coord_eagle c)
                     (lcm_block_size c) 1 1) (\<lambda>cs.
         res_bind (first_group cs) (\<lambda>bs.
           Inr (int (length bs) * ?bs,
                fold (\<lambda>(gid, blks) f. f[nat gid := Some blks]) (zip gids cs) found)))))"
    using f(3) h(1) h' by (cases gids) (auto simp: hit_group_def)
  show ?thesis
  proof (cases "is_full_attention spec \<and> found ! nat (hd gids) \<noteq> None")
    case True
    then have r: "L' = L div ?bs * ?bs" "found' = found"
      using run bs unfolding sg e by simp_all
    have "L div ?bs * ?bs \<le> L" using bs div_mult_mod_eq [of L ?bs] pos_mod_sign [of ?bs L] by linarith
    moreover have "0 \<le> L div ?bs * ?bs" using bs L by (simp add: pos_imp_zdiv_nonneg_iff)
    ultimately show ?thesis using r True old sg by (auto intro: order_trans)
  next
    case False
    then obtain ghs cs bs0 where r: "group_hashes c hs spec = Inr ghs"
      "find_longest_cache_hit ghs L gids (block_pool c) spec (coord_eagle c) (lcm_block_size c) 1 1 = Inr cs"
      "first_group cs = Inr bs0" "L' = int (length bs0) * ?bs"
      "found' = fold (\<lambda>(gid, blks) f. f[nat gid := Some blks]) (zip gids cs) found"
      using run False unfolding sg e by (auto simp: res_simps)
    obtain fl where "pool_ok (block_pool c) fl" using ok by (auto simp: groups_ok_def pool_good_def)
    then have "lookup_ok (block_pool c) gids"
      using pool_ok_facts(2,5,6) [of "block_pool c" fl] ok gok f(3) sg
      by (fastforce simp: lookup_ok_def groups_ok_def group_ok_def)
    from find_hit_ok [OF this r(2) f(1)] ok obtain k where
      "hit_ok (block_pool c) gids ghs (spec_kind spec) (hit_block_size spec 1 1) (lcm_block_size c) L cs k"
      by (auto simp: groups_ok_def)
    then have k: "columns (block_pool c) ghs gids cs k {i. skipped_tokens (spec_kind spec) (int k * ?bs) div ?bs \<le> int i}"
      "int k * ?bs \<le> L" "int k * ?bs mod lcm_block_size c = 0"
      using L by (simp_all add: hit_ok_def hit_block_size_def)
    have lc: "length cs = length gids" using k(1) by (simp add: columns_def)
    have "length bs0 = k"
      using r(3) k(1) f(3) lc by (cases cs) (auto simp: first_group_def columns_def)
    then have L': "L' = int k * ?bs" using r(4) by simp
    note up = fold_update [OF f(4,5) lc, folded r(5)]
    have "hit_of c hs ag found' L'"
      unfolding hit_of_def using sg r(1) k(1) L' up by auto
    moreover have "0 \<le> L'" "L' mod ?bs = 0" using L' bs by simp_all
    ultimately show ?thesis using up L' k(2,3) sg by auto
  qed
qed

section \<open>One pass over the groups\<close>

text \<open>
  After a pass that started with length \<open>H\<close> and has reached length \<open>L\<close>: a group that was visited has
  a hit of at least \<open>L\<close> tokens; the length it passed on is a multiple of its block size.
\<close>

definition passed ::
  "coordinator \<Rightarrow> block_hash list \<Rightarrow> nat list option list \<Rightarrow> int \<Rightarrow> int \<Rightarrow> kv_cache_spec \<times> int list \<Rightarrow> bool" where
  "passed c hs found L H ag \<longleftrightarrow>
     (\<exists>n m. hit_of c hs ag found n \<and> L \<le> m \<and> m \<le> n \<and> m \<le> H \<and> m mod spec_block_size (fst ag) = 0 \<and>
        (\<not> is_full_attention (fst ag) \<longrightarrow> n = m \<and> m mod lcm_block_size c = 0))"

lemma passedE:
  assumes "passed c hs found L H ag"
  obtains n m where "hit_of c hs ag found n" and "L \<le> m" and "m \<le> n" and "m \<le> H"
    and "m mod spec_block_size (fst ag) = 0"
    and "\<not> is_full_attention (fst ag) \<longrightarrow> n = m \<and> m mod lcm_block_size c = 0"
  using assms unfolding passed_def by (elim exE conjE) (rule that; assumption)

text \<open>What a pass may assume: full attention blocks of an earlier pass reach beyond \<open>H\<close>.\<close>

definition pass_start :: "coordinator \<Rightarrow> block_hash list \<Rightarrow> nat list option list \<Rightarrow> int \<Rightarrow> bool" where
  "pass_start c hs found H \<longleftrightarrow> length found = length (kv_cache_groups c) \<and>
     (let ag = hd (attention_groups c) in
      is_full_attention (fst ag) \<and> found ! nat (hd (snd ag)) \<noteq> None \<longrightarrow> (\<exists>n. hit_of c hs ag found n \<and> H \<le> n))"

lemma groups_disjoint:
  assumes ok: "groups_ok c" and ags: "attention_groups c = pre @ ag # post" and "ag' \<in> set pre" and "g \<in> set (snd ag')"
  shows "g \<notin> set (snd ag)" and "0 \<le> g"
  using assms unfolding groups_ok_def group_ok_def by auto

lemma one_pass:
  assumes ok: "groups_ok c" and start: "pass_start c hs found H" and H: "0 \<le> H"
    and ags: "attention_groups c = pre @ post" and run: "fold_res (hit_group c hs) post (L, f) = Inr (L', f')"
    and L: "0 \<le> L" "L \<le> H" and len: "length f = length (kv_cache_groups c)"
    and prev: "\<forall>ag \<in> set pre. passed c hs f L H ag" and first: "pre = [] \<longrightarrow> L = H \<and> f = found"
  shows "0 \<le> L' \<and> L' \<le> L \<and> length f' = length (kv_cache_groups c) \<and>
     (\<forall>ag \<in> set (attention_groups c). passed c hs f' L' H ag) \<and>
     (post \<noteq> [] \<and> \<not> is_full_attention (fst (last post)) \<longrightarrow>
        hit_of c hs (last post) f' L' \<and> L' mod lcm_block_size c = 0)"
  using ags run L len prev first
proof (induction post arbitrary: pre L f)
  case Nil
  then show ?case by simp
next
  case (Cons ag post)
  obtain L1 f1 where s: "hit_group c hs ag (L, f) = Inr (L1, f1)"
    "fold_res (hit_group c hs) post (L1, f1) = Inr (L', f')"
    using Cons.prems(2) by (auto simp: res_simps)
  have ag: "ag \<in> set (attention_groups c)" using Cons.prems(1) by simp
  have old: "is_full_attention (fst ag) \<and> f ! nat (hd (snd ag)) \<noteq> None \<longrightarrow> (\<exists>n. hit_of c hs ag f n \<and> L \<le> n)"
  proof (cases pre)
    case Nil
    then show ?thesis using Cons.prems(1,7) start by (simp add: pass_start_def Let_def)
  next
    case (Cons x xs)
    then have "ag \<in> set (tl (attention_groups c))" using Cons.prems(1) by simp
    then show ?thesis using ok by (simp add: groups_ok_def)
  qed
  obtain n where e: "0 \<le> L1" "L1 \<le> L" "L1 mod spec_block_size (fst ag) = 0" "length f1 = length f"
    "\<forall>g. 0 \<le> g \<and> g \<notin> set (snd ag) \<longrightarrow> f1 ! nat g = f ! nat g" "hit_of c hs ag f1 n" "L1 \<le> n"
    "\<not> is_full_attention (fst ag) \<longrightarrow> n = L1 \<and> L1 mod lcm_block_size c = 0"
    using hit_group_effect [OF ok ag Cons.prems(5,3) s(1) old] by (elim conjE exE) (rule that; assumption)
  have L1: "0 \<le> L1" "L1 \<le> H" "L1 \<le> L" "length f1 = length (kv_cache_groups c)"
    using e(1,2,4) Cons.prems(4,5) by simp_all
  have new: "passed c hs f1 L1 H ag"
    unfolding passed_def using e(3,6,7,8) L1(2) by (intro exI [of _ n] exI [of _ L1]) simp
  have keep: "passed c hs f1 L1 H ag'" if a: "ag' \<in> set pre" for ag'
  proof -
    obtain n' m where nm: "hit_of c hs ag' f n'" "L \<le> m" "m \<le> n'" "m \<le> H" "m mod spec_block_size (fst ag') = 0"
      "\<not> is_full_attention (fst ag') \<longrightarrow> n' = m \<and> m mod lcm_block_size c = 0"
    proof -
      have "passed c hs f L H ag'" using Cons.prems(6) a by (rule bspec)
      then show thesis by (rule passedE) (rule that; assumption)
    qed
    have gok: "group_ok c ag'" using ok a Cons.prems(1) by (simp add: groups_ok_def)
    have same: "f1 ! nat g = f ! nat g" if g: "g \<in> set (snd ag')" for g
      using groups_disjoint [OF ok Cons.prems(1) a g] e(5) by simp
    have "hit_of c hs ag' f1 n'" by (rule hit_of_cong [OF nm(1) gok e(4) same])
    moreover have "L1 \<le> m" using nm(2) L1(3) by simp
    ultimately show ?thesis unfolding passed_def using nm(3-6) by (intro exI [of _ n'] exI [of _ m]) simp
  qed
  have ags': "attention_groups c = (pre @ [ag]) @ post" using Cons.prems(1) by simp
  have all: "\<forall>x \<in> set (pre @ [ag]). passed c hs f1 L1 H x" using new keep by simp
  note IH = Cons.IH [OF ags' s(2) L1(1,2,4) all]
  show ?case
  proof (cases post)
    case Nil
    then have "L' = L1" "f' = f1" using s(2) by simp_all
    then show ?thesis using L1 all ags' Nil e(6,8)
      by (cases "is_full_attention (fst ag)") simp_all
  next
    case (Cons x xs)
    then have "last (ag # post) = last post" "post \<noteq> []" by simp_all
    then show ?thesis using IH L1(3) by simp
  qed
qed

section \<open>The loop\<close>

text \<open>The result of the loop before full attention is cut to the common length.\<close>

definition loop_result :: "coordinator \<Rightarrow> block_hash list \<Rightarrow> int \<Rightarrow> int \<times> nat list option list \<Rightarrow> bool" where
  "loop_result c hs H st \<longleftrightarrow>
     (case st of (N, found) \<Rightarrow>
        0 \<le> N \<and> N \<le> H \<and> length found = length (kv_cache_groups c) \<and>
        (\<forall>ag \<in> set (attention_groups c). N mod spec_block_size (fst ag) = 0 \<and>
           (\<exists>n. hit_of c hs ag found n \<and> N \<le> n \<and> (\<not> is_full_attention (fst ag) \<longrightarrow> n = N))))"

lemma pass_end:
  assumes ok: "groups_ok c" and start: "pass_start c hs found H" and H: "0 \<le> H"
    and run: "fold_res (hit_group c hs) (attention_groups c) (H, found) = Inr (L, f)"
  shows "0 \<le> L \<and> L \<le> H \<and> pass_start c hs f L \<and> (L \<ge> H \<longrightarrow> loop_result c hs H (H, f)) \<and>
     (is_simple_hybrid c \<longrightarrow> loop_result c hs H (L, f))"
proof -
  have len: "length found = length (kv_cache_groups c)" using start by (simp add: pass_start_def)
  have p: "0 \<le> L \<and> L \<le> H \<and> length f = length (kv_cache_groups c) \<and>
     (\<forall>ag \<in> set (attention_groups c). passed c hs f L H ag) \<and>
     (attention_groups c \<noteq> [] \<and> \<not> is_full_attention (fst (last (attention_groups c))) \<longrightarrow>
        hit_of c hs (last (attention_groups c)) f L \<and> L mod lcm_block_size c = 0)"
    using one_pass [OF ok start H _ run H order_refl len, of "[]"] by simp
  have ne: "hd (attention_groups c) \<in> set (attention_groups c)" using ok by (simp add: groups_ok_def)
  have all: "passed c hs f L H ag" if "ag \<in> set (attention_groups c)" for ag using p that by simp
  have "pass_start c hs f L"
  proof -
    obtain n m where "hit_of c hs (hd (attention_groups c)) f n" "L \<le> m" "m \<le> n"
      by (rule passedE [OF all [OF ne]])
    then have "\<exists>n. hit_of c hs (hd (attention_groups c)) f n \<and> L \<le> n" by (intro exI [of _ n]) simp
    then show ?thesis using p by (simp add: pass_start_def Let_def)
  qed
  moreover have "loop_result c hs H (H, f)" if "L \<ge> H"
  proof -
    have "H mod spec_block_size (fst ag) = 0 \<and>
         (\<exists>n. hit_of c hs ag f n \<and> H \<le> n \<and> (\<not> is_full_attention (fst ag) \<longrightarrow> n = H))"
      if a: "ag \<in> set (attention_groups c)" for ag
    proof -
      obtain n m where nm: "hit_of c hs ag f n" "L \<le> m" "m \<le> n" "m \<le> H" "m mod spec_block_size (fst ag) = 0"
        "\<not> is_full_attention (fst ag) \<longrightarrow> n = m \<and> m mod lcm_block_size c = 0"
        by (rule passedE [OF all [OF a]])
      then have "m = H" using \<open>L \<ge> H\<close> by simp
      then have "H mod spec_block_size (fst ag) = 0" "H \<le> n" "\<not> is_full_attention (fst ag) \<longrightarrow> n = H"
        using nm(3,5,6) by simp_all
      then show ?thesis using nm(1) by (intro conjI exI [of _ n])
    qed
    then show ?thesis using p H by (simp add: loop_result_def)
  qed
  moreover have "loop_result c hs H (L, f)" if simple: "is_simple_hybrid c"
  proof -
    obtain g1 g2 where ags: "attention_groups c = [g1, g2]" "is_full_attention (fst g1)"
      using simple by (auto simp: is_simple_hybrid_def split: list.splits)
    have nf: "\<not> is_full_attention (fst g2)" using ok ags by (simp add: groups_ok_def)
    have l: "hit_of c hs g2 f L" "L mod lcm_block_size c = 0" using p ags nf by simp_all
    have d: "L mod spec_block_size (fst ag) = 0" if "ag \<in> set (attention_groups c)" for ag
    proof -
      have "spec_block_size (fst ag) dvd lcm_block_size c" using ok that by (simp add: groups_ok_def group_ok_def)
      then have "spec_block_size (fst ag) dvd L" using l(2) dvd_trans [of _ "lcm_block_size c" L] by (simp add: mod_eq_0_iff_dvd)
      then show ?thesis by simp
    qed
    have "g1 \<in> set (attention_groups c)" using ags by simp
    from all [OF this] obtain n m where "hit_of c hs g1 f n" "L \<le> m" "m \<le> n" by (rule passedE)
    then have "\<exists>n. hit_of c hs g1 f n \<and> L \<le> n" by (intro exI [of _ n]) simp
    then show ?thesis using p ags l(1) d nf by (simp add: loop_result_def)
  qed
  ultimately show ?thesis using p by (intro conjI impI) simp_all
qed

lemma hybrid_loop_effect:
  assumes ok: "groups_ok c" and H: "0 \<le> H" and start: "pass_start c hs found H"
  shows "\<exists>res. hybrid_loop c hs H found = Some res \<and> (\<forall>st. res = Inr st \<longrightarrow> loop_result c hs H st)"
  using H start
proof (induction "nat H" arbitrary: H found rule: less_induct)
  case less
  show ?case
  proof (cases "fold_res (hit_group c hs) (attention_groups c) (H, found)")
    case (Inl e)
    then show ?thesis by (simp add: hybrid_loop.simps)
  next
    case (Inr st)
    obtain L f where st: "st = (L, f)" by (cases st)
    note p = pass_end [OF ok less.prems(2,1) Inr [unfolded st]]
    consider "L \<ge> H" | "\<not> L \<ge> H" "is_simple_hybrid c" | "\<not> L \<ge> H" "\<not> is_simple_hybrid c" by blast
    then show ?thesis
    proof cases
      case 1
      then show ?thesis using Inr st p by (simp add: hybrid_loop.simps)
    next
      case 2
      then show ?thesis using Inr st p by (simp add: hybrid_loop.simps)
    next
      case 3
      have "0 \<le> L" using p by simp
      then have lt: "nat L < nat H" using 3 by simp
      have "hybrid_loop c hs H found = hybrid_loop c hs L f"
        using 3 Inr st by (simp add: hybrid_loop.simps [of c hs H])
      moreover obtain res where "hybrid_loop c hs L f = Some res" "\<forall>st. res = Inr st \<longrightarrow> loop_result c hs L st"
        using less.hyps [OF lt] p by blast
      moreover have "loop_result c hs H st" if "loop_result c hs L st" for st
        using that p by (auto simp: loop_result_def)
      ultimately show ?thesis by auto
    qed
  qed
qed

section \<open>The common length\<close>

definition covers :: "coordinator \<Rightarrow> block_hash list \<Rightarrow> kv_cache_spec \<times> int list \<Rightarrow> nat list list \<Rightarrow> int \<Rightarrow> bool" where
  "covers c hs ag blks n \<longleftrightarrow>
     (\<exists>ghs. group_hashes c hs (fst ag) = Inr ghs \<and>
        (\<forall>g \<in> set (snd ag). int (length (blks ! nat g)) * spec_block_size (fst ag) = n \<and>
           (\<forall>i < length (blks ! nat g).
              (blks ! nat g ! i = null_block (block_pool c) \<or>
                 has_key (block_pool c) (ghs ! i) g (blks ! nat g ! i)) \<and>
              (skipped_tokens (spec_kind (fst ag)) n div spec_block_size (fst ag) \<le> int i \<longrightarrow>
                 blks ! nat g ! i \<noteq> null_block (block_pool c)))))"

lemma fold_truncate:
  assumes "distinct gids" and "\<forall>g \<in> set gids. 0 \<le> g \<and> nat g < length found"
  shows "length (fold (\<lambda>gid f. f[nat gid := h (f ! nat gid)]) gids found) = length found \<and>
     (\<forall>g. 0 \<le> g \<longrightarrow> fold (\<lambda>gid f. f[nat gid := h (f ! nat gid)]) gids found ! nat g =
        (if g \<in> set gids then h (found ! nat g) else found ! nat g))"
  using assms
proof (induction gids arbitrary: found)
  case Nil
  then show ?case by simp
next
  case (Cons g gids)
  let ?f = "found[nat g := h (found ! nat g)]"
  have g: "0 \<le> g" "nat g < length found" "g \<notin> set gids" using Cons.prems by simp_all
  have IH: "length (fold (\<lambda>gid f. f[nat gid := h (f ! nat gid)]) gids ?f) = length ?f \<and>
     (\<forall>x. 0 \<le> x \<longrightarrow> fold (\<lambda>gid f. f[nat gid := h (f ! nat gid)]) gids ?f ! nat x =
        (if x \<in> set gids then h (?f ! nat x) else ?f ! nat x))"
    by (rule Cons.IH) (use Cons.prems in simp_all)
  have "?f ! nat x = (if x = g then h (found ! nat g) else found ! nat x)" if "0 \<le> x" for x
    using g that by (auto simp: nth_list_update eq_nat_nat_iff)
  then show ?case using IH g(1,3) by (auto split: if_splits)
qed

lemma hit_of_covers:
  assumes h: "hit_of c hs ag found n" and le: "0 \<le> N" "N \<le> n" and md: "N mod spec_block_size (fst ag) = 0"
    and bs: "0 < spec_block_size (fst ag)" and ws: "N = n \<or> is_full_attention (fst ag)"
    and blks: "\<And>g b. g \<in> set (snd ag) \<Longrightarrow> found ! nat g = Some b \<Longrightarrow>
      blks ! nat g = take (nat (N div spec_block_size (fst ag))) b"
  shows "covers c hs ag blks N"
proof -
  let ?bs = "spec_block_size (fst ag)" and ?k = "nat (N div spec_block_size (fst ag))"
  obtain ghs cs k where h: "group_hashes c hs (fst ag) = Inr ghs" "has_blocks (snd ag) cs found"
    "columns (block_pool c) ghs (snd ag) cs k {i. skipped_tokens (spec_kind (fst ag)) (int k * ?bs) div ?bs \<le> int i}"
    "int k * ?bs = n"
    using h unfolding hit_of_def by (elim exE conjE) (rule that; assumption)
  have N: "N = int ?k * ?bs"
    using md bs le(1) div_mult_mod_eq [of N ?bs] by (simp add: pos_imp_zdiv_nonneg_iff)
  have "int ?k * ?bs \<le> int k * ?bs" using N h(4) le(2) by simp
  then have "int ?k \<le> int k" using bs by (rule mult_right_le_imp_le)
  then have kk: "?k \<le> k" by (rule of_nat_le_iff [THEN iffD1])
  have win: "{i. skipped_tokens (spec_kind (fst ag)) N div ?bs \<le> int i} \<subseteq>
      {i. skipped_tokens (spec_kind (fst ag)) (int k * ?bs) div ?bs \<le> int i}"
  proof (cases "N = n")
    case False
    then have "is_full_attention (fst ag)" using ws by simp
    then show ?thesis by (auto simp: is_full_attention_def skipped_tokens_def split: spec_kind.splits)
  qed (simp add: h(4))
  have col: "columns (block_pool c) ghs (snd ag) (map (take ?k) cs) ?k
      {i. skipped_tokens (spec_kind (fst ag)) N div ?bs \<le> int i}"
    by (rule columns_mono [OF columns_take [OF h(3) kk] win])
  have lc: "length cs = length (snd ag)" using h(3) by (simp add: columns_def)
  have eq: "blks ! nat (snd ag ! j) = map (take ?k) cs ! j" if "j < length (snd ag)" for j
    using h(2) that blks [of "snd ag ! j" "cs ! j"] lc by (simp add: has_blocks_def)
  show ?thesis
    unfolding covers_def
  proof (intro exI conjI ballI)
    show "group_hashes c hs (fst ag) = Inr ghs" by (rule h(1))
    fix g assume "g \<in> set (snd ag)"
    then obtain j where j: "j < length (snd ag)" "g = snd ag ! j" by (auto simp: in_set_conv_nth)
    have l: "length (blks ! nat g) = ?k"
      unfolding j(2) eq [OF j(1)] using col j(1) unfolding columns_def by blast
    then show "int (length (blks ! nat g)) * ?bs = N" using N by simp
    show "\<forall>i < length (blks ! nat g).
              (blks ! nat g ! i = null_block (block_pool c) \<or> has_key (block_pool c) (ghs ! i) g (blks ! nat g ! i)) \<and>
              (skipped_tokens (spec_kind (fst ag)) N div ?bs \<le> int i \<longrightarrow> blks ! nat g ! i \<noteq> null_block (block_pool c))"
      using col j(1) unfolding l unfolding j(2) eq [OF j(1)] columns_def by blast
  qed
qed

lemma truncate_covers:
  assumes ok: "groups_ok c" and res: "loop_result c hs H (N, found)" and run: "truncate_full c N found = Inr found'"
    and ag: "ag \<in> set (attention_groups c)"
  shows "length found' = length found \<and>
     covers c hs ag (map (\<lambda>f. case f of None \<Rightarrow> [] | Some bs \<Rightarrow> bs) found') N"
proof -
  let ?out = "map (\<lambda>f. case f of None \<Rightarrow> [] | Some bs \<Rightarrow> bs) found'"
  obtain spec gids rest where ags: "attention_groups c = (spec, gids) # rest"
    using ok by (cases "attention_groups c") (auto simp: groups_ok_def)
  have gok: "group_ok c ag'" if "ag' \<in> set (attention_groups c)" for ag' using ok that by (simp add: groups_ok_def)
  have hd: "group_ok c (spec, gids)" using gok ags by simp
  have bs: "0 < spec_block_size spec" using hd by (simp add: group_ok_def spec_ok_def)
  have N: "0 \<le> N" and len: "length found = length (kv_cache_groups c)" using res by (simp_all add: loop_result_def)
  have rng: "\<forall>g \<in> set gids. 0 \<le> g \<and> nat g < length found" using hd len by (auto simp: group_ok_def)
  have k0: "0 \<le> N div spec_block_size spec" using N bs by (simp add: pos_imp_zdiv_nonneg_iff)
  let ?cut = "map_option (\<lambda>bs. take (nat (N div spec_block_size spec)) bs)"
  have f': "found' = (if is_full_attention spec then fold (\<lambda>gid f. f[nat gid := ?cut (f ! nat gid)]) gids found else found)"
    using run bs ags k0 by (auto simp: truncate_full_def py_upto_nonneg split: if_splits)
  note cut = fold_truncate [of gids found ?cut, OF _ rng]
  have d: "distinct gids" using hd by (simp add: group_ok_def)
  have lf: "length found' = length found" using f' cut [OF d] by simp
  obtain n where n: "N mod spec_block_size (fst ag) = 0" "hit_of c hs ag found n" "N \<le> n"
    "\<not> is_full_attention (fst ag) \<longrightarrow> n = N"
    using res ag by (auto simp: loop_result_def)
  have bsa: "0 < spec_block_size (fst ag)" using gok [OF ag] by (simp add: group_ok_def spec_ok_def)
  have "?out ! nat g = take (nat (N div spec_block_size (fst ag))) b"
    if g: "g \<in> set (snd ag)" "found ! nat g = Some b" for g b
  proof -
    have gr: "0 \<le> g" "nat g < length found" using gok [OF ag] g(1) len by (auto simp: group_ok_def)
    show ?thesis
    proof (cases "is_full_attention (fst ag)")
      case True
      then have "ag = (spec, gids)" using ok ag ags by (auto simp: groups_ok_def)
      then show ?thesis using f' cut [OF d] True g gr lf by simp
    next
      case False
      then have "n = N" using n(4) by simp
      then obtain ghs cs k where h: "has_blocks (snd ag) cs found"
        "columns (block_pool c) ghs (snd ag) cs k {i. skipped_tokens (spec_kind (fst ag)) (int k * spec_block_size (fst ag)) div spec_block_size (fst ag) \<le> int i}"
        "int k * spec_block_size (fst ag) = N"
        using n(2) unfolding hit_of_def by auto
      obtain j where j: "j < length (snd ag)" "g = snd ag ! j" using g(1) by (auto simp: in_set_conv_nth)
      have "b = cs ! j" using h(1) j g(2) by (simp add: has_blocks_def)
      then have "length b = k" using h(2) j by (simp add: columns_def)
      then have tk: "take (nat (N div spec_block_size (fst ag))) b = b" using h(3) bsa by auto
      have "found' ! nat g = found ! nat g"
      proof (cases "ag = (spec, gids)")
        case True
        then show ?thesis using f' False by simp
      next
        case other: False
        have "g \<notin> set gids"
          using ok ags ag g(1) other unfolding groups_ok_def by auto
        then show ?thesis using f' cut [OF d] gr(1) by simp
      qed
      then show ?thesis using g(2) gr lf tk by simp
    qed
  qed
  from hit_of_covers [OF n(2) N n(3,1) bsa _ this] n(4) lf show ?thesis by blast
qed

lemma first_pass_start:
  assumes "groups_ok c"
  shows "pass_start c hs (replicate (length (kv_cache_groups c)) None) max_len"
proof -
  have "hd (attention_groups c) \<in> set (attention_groups c)" using assms by (simp add: groups_ok_def)
  then have "group_ok c (hd (attention_groups c))" using assms by (simp add: groups_ok_def)
  then have ne: "snd (hd (attention_groups c)) \<noteq> []" and
    rng: "\<forall>g \<in> set (snd (hd (attention_groups c))). 0 \<le> g \<and> g < int (length (kv_cache_groups c))"
    by (simp_all add: group_ok_def)
  have "hd (snd (hd (attention_groups c))) \<in> set (snd (hd (attention_groups c)))" using ne by simp
  then have "nat (hd (snd (hd (attention_groups c)))) < length (kv_cache_groups c)"
    using rng nat_less_iff by blast
  then show ?thesis by (simp add: pass_start_def Let_def)
qed

lemma hybrid_hit_effect:
  assumes ok: "groups_ok c" and H: "0 \<le> max_len"
  shows "\<exists>res. hybrid_hit c hs max_len = Some res \<and>
     (\<forall>blks n. res = Inr (blks, n) \<longrightarrow> 0 \<le> n \<and> n \<le> max_len \<and> length blks = length (kv_cache_groups c) \<and>
        (\<forall>ag \<in> set (attention_groups c). covers c hs ag blks n))"
proof -
  obtain res where r: "hybrid_loop c hs max_len (replicate (length (kv_cache_groups c)) None) = Some res"
    "\<forall>st. res = Inr st \<longrightarrow> loop_result c hs max_len st"
    using hybrid_loop_effect [OF ok H first_pass_start [OF ok]] by blast
  let ?fin = "res_bind res (\<lambda>(hit_length, found).
         res_bind (truncate_full c hit_length found) (\<lambda>found'.
           Inr (map (\<lambda>f. case f of None \<Rightarrow> [] | Some bs \<Rightarrow> bs) found', hit_length)))"
  have "0 \<le> n \<and> n \<le> max_len \<and> length blks = length (kv_cache_groups c) \<and>
      (\<forall>ag \<in> set (attention_groups c). covers c hs ag blks n)" if fin: "?fin = Inr (blks, n)" for blks n
  proof -
    obtain found found' where f: "res = Inr (n, found)" "truncate_full c n found = Inr found'"
      "blks = map (\<lambda>f. case f of None \<Rightarrow> [] | Some bs \<Rightarrow> bs) found'"
      using fin by (auto simp: res_simps)
    have lr: "loop_result c hs max_len (n, found)" using r(2) f(1) by blast
    have hd: "hd (attention_groups c) \<in> set (attention_groups c)" using ok by (simp add: groups_ok_def)
    have len: "length found' = length found" using truncate_covers [OF ok lr f(2) hd] by simp
    have "\<forall>ag \<in> set (attention_groups c). covers c hs ag blks n"
      using truncate_covers [OF ok lr f(2)] unfolding f(3) by blast
    then show ?thesis using lr len f(3) by (simp add: loop_result_def)
  qed
  then show ?thesis using r(1) by (simp add: hybrid_hit_def)
qed

section \<open>Properties\<close>

text \<open>
  C6. The fixed point of the hybrid prefix lookup is reached: for every request and every state of
  the pool, the loop over the attention groups returns.
\<close>

theorem hybrid_hit_terminates:
  assumes "groups_ok c" and "0 \<le> max_len"
  shows "\<exists>res. hybrid_hit c hs max_len = Some res"
  using hybrid_hit_effect [OF assms] by blast

text \<open>
  C5. With full attention in no attention group but the first, a hybrid hit has one length \<open>n\<close> for all
  groups: in every group the blocks found hold exactly \<open>n\<close> tokens, each is null or carries the key
  of its position, and none is null where the next token still attends. A second group of full
  attention is not cut to this length (\<open>second_full_group_not_cut\<close>).
\<close>

theorem hybrid_hit_covers:
  assumes "groups_ok c" and "0 \<le> max_len" and "hybrid_hit c hs max_len = Some (Inr (blks, n))"
  shows "n \<le> max_len \<and> length blks = length (kv_cache_groups c) \<and>
     (\<forall>(spec, gids) \<in> set (attention_groups c). \<exists>ghs. group_hashes c hs spec = Inr ghs \<and>
        (\<forall>g \<in> set gids. int (length (blks ! nat g)) * spec_block_size spec = n \<and>
           (\<forall>i < length (blks ! nat g).
              (blks ! nat g ! i = null_block (block_pool c) \<or>
                 has_key (block_pool c) (ghs ! i) g (blks ! nat g ! i)) \<and>
              (skipped_tokens (spec_kind spec) n div spec_block_size spec \<le> int i \<longrightarrow>
                 blks ! nat g ! i \<noteq> null_block (block_pool c)))))"
proof -
  have "n \<le> max_len" "length blks = length (kv_cache_groups c)"
    "\<forall>ag \<in> set (attention_groups c). covers c hs ag blks n"
    using hybrid_hit_effect [OF assms(1,2), of hs] assms(3) by auto
  then show ?thesis unfolding covers_def by (simp add: case_prod_beta)
qed

section \<open>Examples\<close>

text \<open>A pool in which block 1 holds the block with hash 9 of group 0 and block 2 that of group 1.\<close>

lemma two_group_pool:
  "\<exists>p. pool_ok p [4] \<and> null_block p = 0 \<and> has_key p [9] 0 1 \<and> has_key p [9] 1 2 \<and>
     (\<forall>b. b \<noteq> 1 \<and> b \<noteq> 2 \<longrightarrow> tags p b = None) \<and> length (blocks p) = 5 \<and>
     (\<forall>b \<in> {1, 2, 3}. refs p b = 1) \<and> enable_caching p"
proof -
  let ?r = "(sample_request ''r'' [5, 6])\<lparr>block_hashes := [[9]]\<rparr>"
  obtain p where p: "pool_ok p [4]" "length (blocks p) = 5" "null_block p = 0" "\<forall>b. tags p b = None"
    "hash_block_size p = 2" "\<not> enable_kv_cache_events p" "\<forall>b \<in> {1, 2, 3}. refs p b = 1" "enable_caching p"
    using sample_pool by blast
  have step: "\<exists>p'. pool_ok p' [4] \<and> caches_only q {b} p' \<and> has_key p' [9] g b"
    if q: "pool_ok q [4]" "same_frame p q" "tags q b = None" and b: "b \<in> {1, 2}" and g: "0 \<le> g" "g < 2 ^ 32" for q b g
  proof -
    have h: "hashes_at q ?r 2 = Inr [[9]]" "\<not> enable_kv_cache_events q" "hash_block_size q = 2"
      using p q by (simp_all add: hashes_at_def same_frame_def)
    have inb: "\<forall>x \<in> set [b]. x < length (blocks q)" using p(2) q(2) b by (auto simp: same_frame_def)
    have sl: "py_slice [b] 0 1 = [b]" by (simp add: py_slice_nonneg)
    have "\<exists>p'. cache_full_blocks id q ?r [b] 0 1 2 g = Inr (p', ?r)"
      by (rule cache_full_blocks_total [OF q(1) inb _ g h(1)]) (use q(3) h in \<open>simp_all add: sl\<close>)
    then obtain p' where run: "cache_full_blocks id q ?r [b] 0 1 2 g = Inr (p', ?r)" ..
    note e = cache_full_blocks_effect [OF run q(1) inb]
    have "caches_only q {b} p'" "pool_ok p' [4]" using e by (simp_all add: sl)
    moreover have "b \<noteq> 0" using b by auto
    then have "has_key p' [9] g b" using e h(1) by (auto simp: has_key_def)
    ultimately show ?thesis by blast
  qed
  obtain p1 where p1: "pool_ok p1 [4]" "caches_only p {1} p1" "has_key p1 [9] 0 1"
    using step [of p 1 0] p by auto
  have "same_frame p p1" "tags p1 2 = None" using p1(2) p(4) by (simp_all add: caches_only_def)
  then obtain p2 where p2: "pool_ok p2 [4]" "caches_only p1 {2} p2" "has_key p2 [9] 1 2"
    using step [of p1 2 1] p1(1) by auto
  have "tags p2 1 = tags p1 1" using p2(2) by (simp add: caches_only_def)
  then have "has_key p2 [9] 0 1" using p1(3) by (simp add: has_key_def)
  moreover have "tags p2 b = None" if "b \<noteq> 1 \<and> b \<noteq> 2" for b
    using that p1(2) p2(2) p(4) by (simp add: caches_only_def)
  moreover have "null_block p2 = 0" using p1(2) p2(2) p(3) by (simp add: caches_only_def same_frame_def)
  moreover have "length (blocks p2) = 5" "enable_caching p2" "\<forall>b \<in> {1, 2, 3}. refs p2 b = 1"
    using p1(2) p2(2) p(2,7,8) by (simp_all add: caches_only_def same_frame_def)
  ultimately show ?thesis using p2(1,3) by blast
qed

lemma lookup_unique:
  assumes ok: "pool_ok p fl" and g: "0 \<le> g" "g < 2 ^ 32" and k: "has_key p h g b"
    and u: "\<And>x. has_key p h g x \<Longrightarrow> x = b"
  shows "lookup_hit p h [g] = Inr (Some [b])"
proof -
  have lk: "lookup_ok p [g]" using pool_ok_facts(2,5,6) [OF ok] g by (simp add: lookup_ok_def)
  obtain res where r: "lookup_hit p h [g] = Inr res"
    "\<forall>bs. res = Some bs \<longrightarrow> length bs = 1 \<and> has_key p h g (bs ! 0)" "res \<noteq> None"
    using lookup_hit_ok [OF lk, of h] k by auto
  then obtain bs where "res = Some bs" "length bs = 1" "has_key p h g (bs ! 0)" by auto
  then have "res = Some [b]" using u by (cases bs) auto
  then show ?thesis using r(1) by simp
qed

lemma lookup_miss:
  assumes ok: "pool_ok p fl" and g: "0 \<le> g" "g < 2 ^ 32" and u: "\<And>x. \<not> has_key p h g x"
  shows "lookup_hit p h [g] = Inr None"
proof -
  have lk: "lookup_ok p [g]" using pool_ok_facts(2,5,6) [OF ok] g by (simp add: lookup_ok_def)
  obtain res where r: "lookup_hit p h [g] = Inr res" "\<forall>bs. res = Some bs \<longrightarrow> has_key p h g (bs ! 0)"
    using lookup_hit_ok [OF lk, of h] by auto
  then show ?thesis using u by (cases res) auto
qed

definition full_a :: kv_cache_spec where
  "full_a = \<lparr>spec_block_size = 2, spec_kind = FullAttention, spec_layout = ''a''\<rparr>"

definition full_b :: kv_cache_spec where
  "full_b = \<lparr>spec_block_size = 2, spec_kind = FullAttention, spec_layout = ''b''\<rparr>"

lemma sample_hybrid:
  assumes "specs = [full_a, window_spec] \<and> gs = [(full_a, [0]), (window_spec, [1])] \<or>
    specs = [full_a, full_b, window_spec] \<and> gs = [(full_a, [0]), (full_b, [1]), (window_spec, [2])]"
  shows "\<exists>c. init_hybrid specs 5 100 False True False False 1 1 2 = Inr c \<and> attention_groups c = gs \<and>
     lcm_block_size c = 2 \<and> kv_cache_groups c = specs \<and> coord_hash_block_size c = 2 \<and> \<not> coord_eagle c"
proof -
  have ne: "full_a \<noteq> full_b" "full_a \<noteq> window_spec" "full_b \<noteq> window_spec" "window_spec \<noteq> full_a" "full_b \<noteq> full_a"
    by (simp_all add: full_a_def full_b_def window_spec_def)
  have fa: "is_full_attention full_a" "is_full_attention full_b" "\<not> is_full_attention window_spec"
    by (simp_all add: full_a_def full_b_def window_spec_def is_full_attention_def)
  have bs: "spec_block_size full_a = 2" "spec_block_size full_b = 2" "spec_block_size window_spec = 2"
    by (simp_all add: full_a_def full_b_def window_spec_def)
  have gm: "get_manager s p True i 1 1 = Inr (init_manager s p True i 1 1, p)"
    if "s \<in> {full_a, full_b, window_spec}" for s p i
    using that by (auto simp: get_manager_def full_a_def full_b_def window_spec_def)
  obtain p where p: "init_pool 5 True 2 False False = Inr p" using sample_pool by blast
  show ?thesis
    using assms
  proof
    assume a: "specs = [full_a, window_spec] \<and> gs = [(full_a, [0]), (window_spec, [1])]"
    have "split_groups specs = gs" using a ne by (simp add: split_groups_def)
    then show ?thesis
      using a p fa bs gm by (simp add: init_hybrid_def init_coordinator_def verify_and_split_def Let_def)
  next
    assume a: "specs = [full_a, full_b, window_spec] \<and> gs = [(full_a, [0]), (full_b, [1]), (window_spec, [2])]"
    have "split_groups specs = gs" using a ne by (simp add: split_groups_def)
    then show ?thesis
      using a p fa bs gm by (simp add: init_hybrid_def init_coordinator_def verify_and_split_def Let_def)
  qed
qed

lemma two_group_lookups:
  assumes p: "pool_ok p [4]" "has_key p [9] 0 1" "has_key p [9] 1 2" "\<forall>b. b \<noteq> 1 \<and> b \<noteq> 2 \<longrightarrow> tags p b = None"
  shows "lookup_hit p [9] [0] = Inr (Some [1])" and "lookup_hit p [9] [1] = Inr (Some [2])"
    and "lookup_hit p [9] [2] = Inr None"
proof -
  obtain k0 k1 where k: "make_block_hash_with_group_id [9] 0 = Inr k0" "tags p 1 = Some k0"
    "make_block_hash_with_group_id [9] 1 = Inr k1" "tags p 2 = Some k1"
    using p(2,3) by (auto simp: has_key_def)
  have ne: "k0 \<noteq> k1" using make_key_inject [of "[9]" 0 k0 "[9]" 1] k(1,3) by auto
  have k2: "make_block_hash_with_group_id [9] 2 \<noteq> Inr k0" "make_block_hash_with_group_id [9] 2 \<noteq> Inr k1"
    using make_key_inject [of "[9]" 0 k0 "[9]" 2] make_key_inject [of "[9]" 1 k1 "[9]" 2] k(1,3) by auto
  have only: "x = 1 \<or> x = 2" if "tags p x = Some key" for x key
    using p(4) that by fastforce
  have u: "x = 1" if "tags p x = Some k0" for x using only [OF that] that k(4) ne by auto
  have v: "x = 2" if "tags p x = Some k1" for x using only [OF that] that k(2) ne by auto
  have w: "\<not> has_key p [9] 2 x" for x
  proof
    assume "has_key p [9] 2 x"
    then obtain key where key: "make_block_hash_with_group_id [9] 2 = Inr key" "tags p x = Some key"
      by (auto simp: has_key_def)
    then show False using only [OF key(2)] k(2,4) k2 by auto
  qed
  have "x = 1" if "has_key p [9] 0 x" for x using that k(1) u by (simp add: has_key_def)
  from lookup_unique [OF p(1) _ _ p(2) this] show "lookup_hit p [9] [0] = Inr (Some [1])" by simp
  have "x = 2" if "has_key p [9] 1 x" for x using that k(3) v by (simp add: has_key_def)
  from lookup_unique [OF p(1) _ _ p(3) this] show "lookup_hit p [9] [1] = Inr (Some [2])" by simp
  show "lookup_hit p [9] [2] = Inr None" by (rule lookup_miss [OF p(1) _ _ w]) simp_all
qed

lemma hybrid_run:
  "\<exists>c p. init_hybrid [full_a, window_spec] 5 100 False True False False 1 1 2 = Inr c \<and>
     groups_ok (c\<lparr>block_pool := p\<rparr>) \<and>
     hybrid_hit (c\<lparr>block_pool := p\<rparr>) [[9]] 3 = Some (Inr ([[1], [2]], 2))"
proof -
  obtain p where p: "pool_ok p [4]" "null_block p = 0" "has_key p [9] 0 1" "has_key p [9] 1 2"
    "\<forall>b. b \<noteq> 1 \<and> b \<noteq> 2 \<longrightarrow> tags p b = None"
    using two_group_pool by blast
  note lk = two_group_lookups [OF p(1,3,4,5)]
  obtain c where c: "init_hybrid [full_a, window_spec] 5 100 False True False False 1 1 2 = Inr c"
    "attention_groups c = [(full_a, [0]), (window_spec, [1])]" "lcm_block_size c = 2"
    "kv_cache_groups c = [full_a, window_spec]" "coord_hash_block_size c = 2" "\<not> coord_eagle c"
    using sample_hybrid [of "[full_a, window_spec]" "[(full_a, [0]), (window_spec, [1])]"] by blast
  let ?c = "c\<lparr>block_pool := p\<rparr>"
  have ok: "groups_ok ?c"
    using c p(1) by (auto simp: groups_ok_def group_ok_def pool_good_def spec_ok_def full_a_def window_spec_def
        is_full_attention_def)
  have n: "cdiv 2 2 = 1" "nat 2 = Suc (Suc 0)" by (simp_all add: cdiv_def)
  have A: "hit_group ?c [[9]] (full_a, [0]) (3, [None, None]) = Inr (2, [Some [1], None])"
    using lk(1) c
    by (simp add: hit_group_def full_a_def is_full_attention_def group_hashes_def find_longest_cache_hit_def
        full_attention_hit_def zip_update_def first_group_def align_loop.simps)
  have B: "hit_group ?c [[9]] (window_spec, [1]) (2, [Some [1], None]) = Inr (2, [Some [1], Some [2]])"
    using lk(2) c p(2)
    by (simp add: hit_group_def window_spec_def is_full_attention_def group_hashes_def find_longest_cache_hit_def
        sliding_window_hit_def zip_update_def first_group_def n py_repeat_def)
  have simple: "is_simple_hybrid ?c"
    using c(2) by (simp add: is_simple_hybrid_def full_a_def is_full_attention_def)
  have tr: "truncate_full ?c 2 [Some [1], Some [2]] = Inr [Some [1], Some [2]]"
    using c(2) by (simp add: truncate_full_def full_a_def is_full_attention_def py_upto_nonneg)
  have "hybrid_loop ?c [[9]] 3 [None, None] = Some (Inr (2, [Some [1], Some [2]]))"
    using A B simple c(2) by (simp add: hybrid_loop.simps)
  then have "hybrid_hit ?c [[9]] 3 = Some (Inr ([[1], [2]], 2))"
    using tr c(4) by (simp add: hybrid_hit_def numeral_2_eq_2)
  then show ?thesis using c(1) ok by blast
qed

theorem hybrid_hit_terminates_witness:
  "\<exists>c p res. init_hybrid [full_a, window_spec] 5 100 False True False False 1 1 2 = Inr c \<and>
     hybrid_hit (c\<lparr>block_pool := p\<rparr>) [[9]] 3 = Some res"
proof -
  obtain c p where c: "init_hybrid [full_a, window_spec] 5 100 False True False False 1 1 2 = Inr c"
    "groups_ok (c\<lparr>block_pool := p\<rparr>)" using hybrid_run by blast
  have "\<exists>res. hybrid_hit (c\<lparr>block_pool := p\<rparr>) [[9]] 3 = Some res"
    by (rule hybrid_hit_terminates [OF c(2)]) simp
  then show ?thesis using c(1) by blast
qed

theorem hybrid_hit_covers_witness:
  "\<exists>c p. init_hybrid [full_a, window_spec] 5 100 False True False False 1 1 2 = Inr c \<and>
     hybrid_hit (c\<lparr>block_pool := p\<rparr>) [[9]] 3 = Some (Inr ([[1], [2]], 2)) \<and> (2 :: int) \<le> 3 \<and>
     length [[1 :: nat], [2]] = length (kv_cache_groups (c\<lparr>block_pool := p\<rparr>))"
proof -
  obtain c p where c: "init_hybrid [full_a, window_spec] 5 100 False True False False 1 1 2 = Inr c"
    "groups_ok (c\<lparr>block_pool := p\<rparr>)" "hybrid_hit (c\<lparr>block_pool := p\<rparr>) [[9]] 3 = Some (Inr ([[1], [2]], 2))"
    using hybrid_run by blast
  have "(0 :: int) \<le> 3" by simp
  from hybrid_hit_covers [OF c(2) this c(3)] c(1,3) show ?thesis by blast
qed

text \<open>
  With two kinds of full attention and a third group, the result is not one hit: only the first
  attention group is cut to the common length. Here the common length is 0 because the sliding
  window group has nothing cached, yet the second full attention group still returns its block.
\<close>

theorem second_full_group_not_cut:
  "\<exists>c p. init_hybrid [full_a, full_b, window_spec] 5 100 False True False False 1 1 2 = Inr c \<and>
     pool_ok p [4] \<and> hybrid_hit (c\<lparr>block_pool := p\<rparr>) [[9]] 3 = Some (Inr ([[], [2], []], 0))"
proof -
  obtain p where p: "pool_ok p [4]" "null_block p = 0" "has_key p [9] 0 1" "has_key p [9] 1 2"
    "\<forall>b. b \<noteq> 1 \<and> b \<noteq> 2 \<longrightarrow> tags p b = None"
    using two_group_pool by blast
  note lk = two_group_lookups [OF p(1,3,4,5)]
  obtain c where c: "init_hybrid [full_a, full_b, window_spec] 5 100 False True False False 1 1 2 = Inr c"
    "attention_groups c = [(full_a, [0]), (full_b, [1]), (window_spec, [2])]" "lcm_block_size c = 2"
    "kv_cache_groups c = [full_a, full_b, window_spec]" "coord_hash_block_size c = 2" "\<not> coord_eagle c"
    using sample_hybrid [of "[full_a, full_b, window_spec]" "[(full_a, [0]), (full_b, [1]), (window_spec, [2])]"]
    by blast
  let ?c = "c\<lparr>block_pool := p\<rparr>"
  have n: "cdiv 2 2 = 1" "nat 2 = Suc (Suc 0)" by (simp_all add: cdiv_def)
  note group_simps = hit_group_def full_a_def full_b_def window_spec_def is_full_attention_def group_hashes_def
    find_longest_cache_hit_def full_attention_hit_def sliding_window_hit_def zip_update_def first_group_def n
    py_repeat_def align_loop.simps
  have A: "hit_group ?c [[9]] (full_a, [0]) (3, [None, None, None]) = Inr (2, [Some [1], None, None])"
    using lk(1) c by (simp add: group_simps)
  have B: "hit_group ?c [[9]] (full_b, [1]) (2, [Some [1], None, None]) = Inr (2, [Some [1], Some [2], None])"
    using lk(2) c by (simp add: group_simps)
  have C: "hit_group ?c [[9]] (window_spec, [2]) (2, [Some [1], Some [2], None]) =
      Inr (0, [Some [1], Some [2], Some []])"
    using lk(3) c p(2) by (simp add: group_simps)
  have D: "hit_group ?c [[9]] (full_a, [0]) (0, [Some [1], Some [2], Some []]) = Inr (0, [Some [1], Some [2], Some []])"
    "hit_group ?c [[9]] (full_b, [1]) (0, [Some [1], Some [2], Some []]) = Inr (0, [Some [1], Some [2], Some []])"
    by (simp_all add: group_simps)
  have E: "hit_group ?c [[9]] (window_spec, [2]) (0, [Some [1], Some [2], Some []]) =
      Inr (0, [Some [1], Some [2], Some []])"
    using c p(2) by (simp add: group_simps)
  have simple: "\<not> is_simple_hybrid ?c" using c(2) by (simp add: is_simple_hybrid_def)
  have "hybrid_loop ?c [[9]] 0 [Some [1], Some [2], Some []] = Some (Inr (0, [Some [1], Some [2], Some []]))"
    using D E simple c(2) by (simp add: hybrid_loop.simps)
  then have loop: "hybrid_loop ?c [[9]] 3 [None, None, None] = Some (Inr (0, [Some [1], Some [2], Some []]))"
    using A B C simple c(2) by (simp add: hybrid_loop.simps [of ?c _ 3])
  have tr: "truncate_full ?c 0 [Some [1], Some [2], Some []] = Inr [Some [], Some [2], Some []]"
    using c(2) by (simp add: truncate_full_def full_a_def is_full_attention_def py_upto_nonneg)
  have "hybrid_hit ?c [[9]] 3 = Some (Inr ([[], [2], []], 0))"
    using tr c(4) loop by (simp add: hybrid_hit_def numeral_3_eq_3)
  then show ?thesis using c(1) p(1) by blast
qed

end
