(* ===== verification/KV_External.thy ===== *)
theory KV_External
  imports KV_Runs Hybrid_Hit
begin

text \<open>
  External tokens (a KV connector) together with several cache groups: in
  \<^verbatim>\<open>KVCacheCoordinator.allocate_new_computed_blocks\<close> the managers run one after the other, and the
  blocks that one takes for external tokens may be prefix hits that the next has not touched yet.
\<close>

text \<open>Freeing the blocks brings the free queue into an order in which the hit of the second group is first.\<close>

lemma free_order:
  assumes p: "pool_ok p [4]" "length (blocks p) = 5" "\<forall>b \<in> {1, 2, 3}. refs p b = 1"
    and t: "\<forall>b. b \<noteq> 1 \<and> b \<noteq> 2 \<longrightarrow> tags p b = None"
  shows "\<exists>p1 p2 q. free_blocks [2, 1, 3] p = Inr p1 \<and> get_new_blocks 1 p1 = Inr ([4], p2) \<and>
     free_blocks [4] p2 = Inr q \<and> pool_ok q [2, 1, 3, 4] \<and> same_frame p q \<and>
     (\<forall>b \<in> {1, 2, 3, 4}. refs q b = 0) \<and> tags q 1 = tags p 1 \<and> tags q 2 = tags p 2"
proof -
  have r4: "refs p 4 = 0" 
  proof -
    have "(4 :: nat) \<in> set [4]" by simp
    then show ?thesis unfolding pool_ok_facts(4) [OF p(1)] by simp
  qed
  obtain p1 where p1: "free_blocks [2, 1, 3] p = Inr p1" "pool_ok p1 [4, 2, 1, 3]" "same_frame p p1"
    "refs p1 = (\<lambda>b. refs p b - int (count_list [2, 1, 3] b))" "tags p1 = tags p"
  proof -
    have d: "distinct (filter (\<lambda>b. b \<noteq> 0) [2, 1, 3 :: nat])" by simp
    have live: "\<forall>b \<in> set [2, 1, 3]. b < length (blocks p) \<and> (b \<noteq> 0 \<longrightarrow> 0 < refs p b)" using p(2,3) by simp
    have "[4] @ filter (\<lambda>b. b \<noteq> 0 \<and> refs p b = 1) [2, 1, 3] = [4, 2, 1, 3]" using p(3) by simp
    from free_blocks_effect [OF p(1) d live, unfolded this] show thesis
      by (elim exE conjE) (rule that; assumption)
  qed
  have f1: "(1 :: int) \<le> get_num_free_blocks p1" using pool_ok_facts(8) [OF p1(2)] by simp
  obtain p2 where p2: "get_new_blocks 1 p1 = Inr ([4], p2)" "pool_ok p2 [2, 1, 3]" "same_frame p1 p2"
    "refs p2 = (\<lambda>x. if x = 4 then 1 else refs p1 x)"
    "tags p2 = (\<lambda>x. if enable_caching p1 \<and> x = 4 then None else tags p1 x)"
  proof -
    have "(0 :: int) \<le> 1" by simp
    note e = get_new_blocks_effect [OF p1(2) this f1]
    have "take (nat 1) [4, 2, 1, 3] = [4 :: nat]" "drop (nat 1) [4, 2, 1, 3] = [2, 1, 3 :: nat]" by simp_all
    note e [unfolded this]
    then show thesis by (elim exE conjE) (rule that; simp)
  qed
  have fr: "same_frame p p2" using p1(3) p2(3) by (rule same_frame_trans)
  obtain q where q: "free_blocks [4] p2 = Inr q" "pool_ok q [2, 1, 3, 4]" "same_frame p2 q"
    "refs q = (\<lambda>b. refs p2 b - int (count_list [4] b))" "tags q = tags p2"
  proof -
    have d: "distinct (filter (\<lambda>b. b \<noteq> 0) [4 :: nat])" by simp
    have live: "\<forall>b \<in> set [4]. b < length (blocks p2) \<and> (b \<noteq> 0 \<longrightarrow> 0 < refs p2 b)"
      using p2(4) fr p(2) by (simp add: same_frame_def)
    have "[2, 1, 3] @ filter (\<lambda>b. b \<noteq> 0 \<and> refs p2 b = 1) [4] = [2, 1, 3, 4]" using p2(4) by simp
    from free_blocks_effect [OF p2(2) d live, unfolded this] show thesis
      by (elim exE conjE) (rule that; assumption)
  qed
  have "\<forall>b \<in> {1, 2, 3, 4}. refs q b = 0" unfolding q(4) p2(4) p1(4) using p(3) r4 by simp
  moreover have "tags q 1 = tags p 1" "tags q 2 = tags p 2" unfolding q(5) p2(5) p1(5) by simp_all
  ultimately show ?thesis using p1(1) p2(1) q(1,2) same_frame_trans [OF fr q(3)] by blast
qed

text \<open>One manager of a full attention group with 2 tokens per block: a hit of one block and 2 external tokens.\<close>

lemma external_step:
  assumes ok: "pool_ok p fl" and h: "h < length (blocks p)" and fl: "filter (\<lambda>y. y \<notin> set [h]) fl = x # fl2"
    and m: "mgr_block_size m = 2" "spec_kind (mgr_spec m) = FullAttention" "mgr_caching m" "req_to_blocks m = []"
      "num_cached_block m rid = None"
  shows "\<exists>m' p'. allocate_new_computed_blocks rid [h] 2 2 m p = Inr (m', p') \<and> pool_ok p' fl2 \<and>
     same_frame p p' \<and> blocks_of m' rid = [h, x] \<and> refs p' x = 1 \<and> mgr_block_size m' = 2 \<and>
     mgr_spec m' = mgr_spec m \<and> refs p' h = (if h = x then 1 else refs p h + 1)"
proof -
  obtain p1 where p1: "touch [h] p = Inr p1" "pool_ok p1 (x # fl2)" "same_frame p p1"
    "refs p1 = (\<lambda>b. refs p b + int (count_list [h] b))"
    using touch_effect [OF ok, of "[h]"] h unfolding fl by auto
  have f1: "(1 :: int) \<le> get_num_free_blocks p1" using pool_ok_facts(8) [OF p1(2)] by simp
  obtain p2 where p2: "get_new_blocks 1 p1 = Inr ([x], p2)" "pool_ok p2 fl2" "same_frame p1 p2"
    "refs p2 = (\<lambda>y. if y = x then 1 else refs p1 y)"
  proof -
    have "(0 :: int) \<le> 1" by simp
    note e = get_new_blocks_effect [OF p1(2) this f1]
    have "take (nat 1) (x # fl2) = [x]" "drop (nat 1) (x # fl2) = fl2" by simp_all
    from e [unfolded this] show thesis by (elim exE conjE) (rule that; simp)
  qed
  have c: "cdiv 4 2 = 2" by (simp add: cdiv_def)
  have e: "blocks_of m rid = []" using m(4) by (simp add: blocks_of_def)
  let ?m1 = "(set_blocks rid [h] m)\<lparr>num_cached_block := (num_cached_block m)(rid := Some 1)\<rparr>"
  let ?m2 = "note_new_ids [x] (set_blocks rid [h, x] ?m1)"
  have run: "allocate_new_computed_blocks rid [h] 2 2 m p = Inr (?m2, p2)"
    using m e p1(1) p2(1) c
    by (simp add: allocate_new_computed_blocks_def base_allocate_new_computed_blocks_def get_num_skipped_tokens_def
        py_repeat_def)
  have b2: "blocks_of ?m2 rid = [h, x]" using blocks_of_cong [of ?m2 "set_blocks rid [h, x] ?m1" rid] by simp
  have "mgr_block_size ?m2 = 2" "mgr_spec ?m2 = mgr_spec m" using m(1) by simp_all
  moreover have "refs p2 x = 1" "refs p2 h = (if h = x then 1 else refs p h + 1)" using p2(4) p1(4) by simp_all
  ultimately show ?thesis
    using run p2(2) same_frame_trans [OF p1(3) p2(3)] b2 by (intro exI [of _ ?m2] exI [of _ p2]) simp
qed

definition load_args :: slot_args where
  "load_args = (default_slots 0)\<lparr>num_new_computed_tokens := 2, new_computed_blocks := Some (KVBlocks [[1], [2]]),
     num_external_tokens := 2, delay_cache_blocks := True\<rparr>"

definition two_groups :: "block_pool \<Rightarrow> manager \<Rightarrow> manager \<Rightarrow> kv_cache_manager" where
  "two_groups q ma mb =
     \<lparr>kvm_max_model_len = 100, kvm_caching = True, kvm_eagle = False, kvm_stats = None,
      coordinator =
        \<lparr>coord_kind = Hybrid, coord_max_model_len = 100, coord_caching = True, block_pool = q,
         coord_eagle = False, single_type_managers = [ma, mb], kv_cache_groups = [full_a, full_b],
         coord_block_size = 0, dcp_world_size = 1, pcp_world_size = 1, coord_hash_block_size = 2,
         attention_groups = [(full_a, [0]), (full_b, [1])], lcm_block_size = 2\<rparr>,
      num_kv_cache_groups = 2\<rparr>"

lemma two_hits_pool:
  "\<exists>q. pool_ok q [2, 1, 3, 4] \<and> length (blocks q) = 5 \<and> enable_caching q \<and> (\<forall>b \<in> {1, 2, 3, 4}. refs q b = 0) \<and>
     has_key q [9] 0 1 \<and> has_key q [9] 1 2"
proof -
  obtain p where p: "pool_ok p [4]" "null_block p = 0" "has_key p [9] 0 1" "has_key p [9] 1 2"
    "\<forall>b. b \<noteq> 1 \<and> b \<noteq> 2 \<longrightarrow> tags p b = None" "length (blocks p) = 5" "\<forall>b \<in> {1, 2, 3}. refs p b = 1"
    "enable_caching p"
    using two_group_pool by (elim exE conjE) (rule that; assumption)
  obtain q where q: "pool_ok q [2, 1, 3, 4]" "same_frame p q" "\<forall>b \<in> {1, 2, 3, 4}. refs q b = 0"
    "tags q 1 = tags p 1" "tags q 2 = tags p 2"
    using free_order [OF p(1,6,7,5)] by (elim exE conjE) (rule that; assumption)
  have "length (blocks q) = 5" "enable_caching q" using p(6,8) q(2) by (simp_all add: same_frame_def)
  moreover have "has_key q [9] 0 1" "has_key q [9] 1 2" using p(3,4) q(4,5) by (simp_all add: has_key_def)
  ultimately show ?thesis using q(1,3) by blast
qed

text \<open>The managers of both groups before the request comes.\<close>

lemma two_groups_ok:
  assumes q: "pool_ok q [2, 1, 3, 4]" "length (blocks q) = 5" "enable_caching q" "\<forall>b \<in> {1, 2, 3, 4}. refs q b = 0"
  shows "kvm_ok (two_groups q (init_manager full_a q True 0 1 1) (init_manager full_b q True 1 1 1))"
proof -
  let ?ma = "init_manager full_a q True 0 1 1" and ?mb = "init_manager full_b q True 1 1 1"
  have fs: "fresh_spec 1 1 full_a" "fresh_spec 1 1 full_b"
    by (simp_all add: fresh_spec_def full_a_def full_b_def spec_ok_def)
  have mok: "mgr_ok ?ma q" "mgr_ok ?mb q" "static_ok ?ma" "static_ok ?mb" "held ?ma b = 0" "held ?mb b = 0" for b
    using init_manager_ok [OF fs(1) q(1), of 0] init_manager_ok [OF fs(2) q(1), of 1] q(3) by simp_all
  have "refs q b = 0" if "b < 5" "b \<noteq> 0" for b
  proof -
    have "b \<in> {1, 2, 3, 4}" using that by auto
    then show ?thesis using q(4) by blast
  qed
  then have "mgrs_ok [?ma, ?mb] q" using mok q(1,2) by (auto simp: mgrs_ok_def pool_good_def)
  then show ?thesis using mok q(3) by (simp add: kvm_ok_def two_groups_def)
qed

text \<open>The call: four blocks are needed and four are free, and each group allocates as its manager does.\<close>

lemma two_groups_allocate:
  assumes q: "pool_ok q [2, 1, 3, 4]" "length (blocks q) = 5" "\<forall>b \<in> {1, 2, 3, 4}. refs q b = 0"
    and m: "mgr_block_size m1 = 2" "mgr_block_size m2 = 2" "spec_kind (mgr_spec m1) = FullAttention"
      "spec_kind (mgr_spec m2) = FullAttention" "req_to_blocks m1 = []" "req_to_blocks m2 = []"
      "num_cached_block m1 ''a'' = None" "num_cached_block m2 ''a'' = None"
    and a: "allocate_new_computed_blocks ''a'' [1] 2 2 m1 q = Inr (ma, p1)" "blocks_of ma ''a'' = [b1, b2]"
      "mgr_block_size ma = 2" "mgr_spec ma = mgr_spec m1"
    and b: "allocate_new_computed_blocks ''a'' [2] 2 2 m2 p1 = Inr (mb, p2)" "blocks_of mb ''a'' = [b3, b4]"
      "mgr_block_size mb = 2" "mgr_spec mb = mgr_spec m2"
  shows "allocate_slots sha (sample_request ''a'' [5, 6, 7, 8, 9]) load_args (two_groups q m1 m2) =
    Inr (Some EmptyBlocks, sample_request ''a'' [5, 6, 7, 8, 9],
      set_coord ((coordinator (two_groups q m1 m2))\<lparr>single_type_managers := [touch_entry ''a'' ma, touch_entry ''a'' mb],
        block_pool := p2\<rparr>) (two_groups q m1 m2))"
proof -
  let ?r = "sample_request ''a'' [5, 6, 7, 8, 9]" and ?k = "two_groups q m1 m2"
  let ?c = "coordinator ?k"
  note [simp] = two_groups_def
  have free: "get_num_free_blocks q = 4" using pool_ok_facts(8) [OF q(1)] by simp
  have t: "total_computed_tokens ?k ?r load_args = 4" "tokens_main_model ?k ?r load_args = 4"
    "tokens_need_slot ?k ?r load_args = 4" "local_computed_tokens ?r load_args = 2" "request_id ?r = ''a''"
    "num_new_tokens load_args = 0" "num_external_tokens load_args = 2" "given_blocks load_args = KVBlocks [[1], [2]]"
    "delay_cache_blocks load_args" "num_encoder_tokens load_args = 0"
    by (simp_all add: total_computed_tokens_def tokens_main_model_def tokens_need_slot_def local_computed_tokens_def
        load_args_def default_slots_def sample_request_def given_blocks_def)
  have skip: "coord_remove_skipped_blocks ''a'' 4 ?c = Inr ?c"
    using m by (simp add: coord_remove_skipped_blocks_def on_managers_def remove_skipped_blocks_def
        base_remove_skipped_blocks_def get_num_skipped_tokens_def)
  have c4: "cdiv 4 2 = 2" by (simp add: cdiv_def)
  have ev: "get_num_evictable_blocks q [1] = 1" "get_num_evictable_blocks q [2] = 1"
    using q(3) pool_ok_is_null [OF q(1)] q(2) by (simp_all add: get_num_evictable_blocks_def refs_def)
  have count: "coord_num_blocks_to_allocate ?c ''a'' 4 [[1], [2]] 0 4 4 = Inr (4, ?c)"
    using m ev c4
    by (simp add: coord_num_blocks_to_allocate_def is_cross_attention_def get_num_blocks_to_allocate_def
        base_num_blocks_to_allocate_def num_required_def get_num_skipped_tokens_def blocks_of_def py_from_nonneg)
  have alloc: "coord_allocate_new_computed_blocks ''a'' [[1], [2]] 2 2 ?c =
      Inr (?c\<lparr>single_type_managers := [ma, mb], block_pool := p2\<rparr>)"
    using a(1) b(1) by (simp add: coord_allocate_new_computed_blocks_def on_managers_def)
  have grow: "coord_allocate_new_blocks ''a'' 4 4 0 (?c\<lparr>single_type_managers := [ma, mb], block_pool := p2\<rparr>) =
      Inr ([[], []], ?c\<lparr>single_type_managers := [touch_entry ''a'' ma, touch_entry ''a'' mb], block_pool := p2\<rparr>)"
    using a(2,3,4) b(2,3,4) m(3,4) c4
    by (simp add: coord_allocate_new_blocks_def on_managers_def is_cross_attention_def allocate_new_blocks_def
        base_allocate_new_blocks_def num_required_def)
  show ?thesis
    unfolding allocate_slots_def Let_def t
    using skip count alloc grow free t(9)
    by (simp add: group_blocks_def create_kv_cache_blocks_def)
qed

text \<open>
  C23. A KV connector with two cache groups can give one block to both. The free queue holds blocks 2,
  1, 3, 4; block 1 is cached for group 0 and block 2 for group 1. A request hits both and loads two
  more tokens. \<open>allocate_slots\<close> finds that the four free blocks suffice, but group 0 takes block 2 for
  the external tokens before group 1 touches it: both groups end up writing to block 2, whose cached
  contents are lost, and block 4 stays free.
\<close>

theorem external_allocation_steals_hit:
  "\<exists>k k'. kvm_ok k \<and> get_num_free_blocks (block_pool (coordinator k)) = 4 \<and>
     has_key (block_pool (coordinator k)) [9] 0 1 \<and> has_key (block_pool (coordinator k)) [9] 1 2 \<and>
     map req_to_blocks (single_type_managers (coordinator k)) = [[], []] \<and>
     allocate_slots sha (sample_request ''a'' [5, 6, 7, 8, 9]) load_args k =
       Inr (Some EmptyBlocks, sample_request ''a'' [5, 6, 7, 8, 9], k') \<and>
     coord_get_blocks ''a'' (coordinator k') = [[1, 2], [2, 3]] \<and> refs (block_pool (coordinator k')) 2 = 2"
proof -
  obtain q where q: "pool_ok q [2, 1, 3, 4]" "length (blocks q) = 5" "enable_caching q" "\<forall>b \<in> {1, 2, 3, 4}. refs q b = 0"
    "has_key q [9] 0 1" "has_key q [9] 1 2"
    using two_hits_pool by (elim exE conjE) (rule that; assumption)
  let ?ma = "init_manager full_a q True 0 1 1" and ?mb = "init_manager full_b q True 1 1 1"
  let ?k = "two_groups q ?ma ?mb"
  have ok: "kvm_ok ?k" by (rule two_groups_ok [OF q(1-4)])
  have mf: "mgr_block_size ?ma = 2" "mgr_block_size ?mb = 2" "spec_kind (mgr_spec ?ma) = FullAttention"
    "spec_kind (mgr_spec ?mb) = FullAttention" "req_to_blocks ?ma = []" "req_to_blocks ?mb = []"
    "num_cached_block ?ma rid = None" "num_cached_block ?mb rid = None" "mgr_caching ?ma" "mgr_caching ?mb" for rid
    by (simp_all add: init_manager_def full_a_def full_b_def)
  obtain ma p1 where a: "allocate_new_computed_blocks ''a'' [1] 2 2 ?ma q = Inr (ma, p1)" "pool_ok p1 [3, 4]"
    "same_frame q p1" "blocks_of ma ''a'' = [1, 2]" "refs p1 2 = 1" "mgr_block_size ma = 2" "mgr_spec ma = mgr_spec ?ma"
    using external_step [OF q(1) _ _ mf(1,3,9,5,7), of 1 2 "[3, 4]" "''a''"] q(2) by auto
  obtain mb p2 where b: "allocate_new_computed_blocks ''a'' [2] 2 2 ?mb p1 = Inr (mb, p2)" "pool_ok p2 [4]"
    "blocks_of mb ''a'' = [2, 3]" "refs p2 2 = 2" "mgr_block_size mb = 2" "mgr_spec mb = mgr_spec ?mb"
    using external_step [OF a(2) _ _ mf(2,4,10,6,8), of 2 3 "[4]" "''a''"] q(2) a(3,5) by (auto simp: same_frame_def)
  let ?k' = "set_coord ((coordinator ?k)\<lparr>single_type_managers := [touch_entry ''a'' ma, touch_entry ''a'' mb], block_pool := p2\<rparr>) ?k"
  note run = two_groups_allocate [OF q(1,2,4) mf(1-8) a(1,4,6,7) b(1,3,5,6)]
  have res: "coord_get_blocks ''a'' (coordinator ?k') = [[1, 2], [2, 3]]" "refs (block_pool (coordinator ?k')) 2 = 2"
    using a(4) b(3,4) by (simp_all add: coord_get_blocks_def set_coord_def touch_entry_def)
  have k: "block_pool (coordinator ?k) = q" "single_type_managers (coordinator ?k) = [?ma, ?mb]" by (simp_all add: two_groups_def)
  have free: "get_num_free_blocks q = 4" using pool_ok_facts(8) [OF q(1)] by simp
  show ?thesis
    using ok free q(5,6) run res mf(5,6) k by (intro exI [of _ ?k] exI [of _ ?k']) simp
qed

end
