(* ===== verification/KV_Spec.thy ===== *)
theory KV_Spec
  imports Block_Hash
begin

text \<open>
  The KV cache specs of the layers of a model (\<^verbatim>\<open>vllm/v1/kv_cache_interface.py\<close>): the size of a page,
  the memory that one request can take, and the merging of the specs of several layers. A subclass of
  \<open>AttentionSpec\<close> is a constructor with its own fields; those that inherit from \<open>FullAttentionSpec\<close> share
  \<open>full_fields\<close>. A data type of torch is its name and the size of an element.
\<close>

section \<open>Specs\<close>

datatype dtype = Dtype string (element_size: int)

record attention_fields =
  attn_block_size :: int
  num_kv_heads :: int
  head_size :: int
  attn_dtype :: dtype
  attn_page_padded :: "int option"

record full_fields =
  head_size_v :: int
  full_window :: "int option"
  full_chunk :: "int option"

record mamba_fields =
  mamba_block_size :: int
  mamba_shapes :: "int list list"
  mamba_dtypes :: "dtype list"
  mamba_page_padded :: "int option"
  mamba_type :: string
  mamba_mode_field :: string
  mamba_spec_blocks :: int

datatype layer_spec =
    FullSpec attention_fields full_fields
  | MLASpec attention_fields full_fields "string option"
  | SinkSpec attention_fields full_fields "int option"
  | ChunkedSpec attention_fields int
  | WindowSpec attention_fields int
  | CrossSpec attention_fields
  | EncoderOnlySpec attention_fields
  | MambaSpec mamba_fields

fun attention_of :: "layer_spec \<Rightarrow> attention_fields option" where
  "attention_of (FullSpec a _) = Some a"
| "attention_of (MLASpec a _ _) = Some a"
| "attention_of (SinkSpec a _ _) = Some a"
| "attention_of (ChunkedSpec a _) = Some a"
| "attention_of (WindowSpec a _) = Some a"
| "attention_of (CrossSpec a) = Some a"
| "attention_of (EncoderOnlySpec a) = Some a"
| "attention_of (MambaSpec _) = None"

text \<open>\<open>isinstance(spec, FullAttentionSpec)\<close>, with the fields of that class.\<close>

fun full_of :: "layer_spec \<Rightarrow> (attention_fields \<times> full_fields) option" where
  "full_of (FullSpec a f) = Some (a, f)"
| "full_of (MLASpec a f _) = Some (a, f)"
| "full_of (SinkSpec a f _) = Some (a, f)"
| "full_of _ = None"

fun is_mla :: "layer_spec \<Rightarrow> bool" where
  "is_mla (MLASpec _ _ _) = True"
| "is_mla _ = False"

fun block_size_of :: "layer_spec \<Rightarrow> int" where
  "block_size_of (MambaSpec m) = mamba_block_size m"
| "block_size_of (FullSpec a _) = attn_block_size a"
| "block_size_of (MLASpec a _ _) = attn_block_size a"
| "block_size_of (SinkSpec a _ _) = attn_block_size a"
| "block_size_of (ChunkedSpec a _) = attn_block_size a"
| "block_size_of (WindowSpec a _) = attn_block_size a"
| "block_size_of (CrossSpec a) = attn_block_size a"
| "block_size_of (EncoderOnlySpec a) = attn_block_size a"

section \<open>Pages\<close>

text \<open>\<open>real_page_size_bytes\<close>; \<open>zip\<close> stops at the shorter list.\<close>

definition attention_page :: "attention_fields \<Rightarrow> int \<Rightarrow> int" where
  "attention_page a heads_size = attn_block_size a * num_kv_heads a * heads_size * element_size (attn_dtype a)"

fun real_page_size :: "layer_spec \<Rightarrow> int" where
  "real_page_size (FullSpec a f) = attention_page a (head_size a + head_size_v f)"
| "real_page_size (SinkSpec a f _) = attention_page a (head_size a + head_size_v f)"
| "real_page_size (MLASpec a f c) =
     (if c = Some ''fp8_ds_mla'' then attn_block_size a * 656 else attention_page a (head_size a))"
| "real_page_size (ChunkedSpec a _) = 2 * attention_page a (head_size a)"
| "real_page_size (WindowSpec a _) = 2 * attention_page a (head_size a)"
| "real_page_size (CrossSpec a) = 2 * attention_page a (head_size a)"
| "real_page_size (EncoderOnlySpec a) = 2 * attention_page a (head_size a)"
| "real_page_size (MambaSpec m) =
     sum_list (map (\<lambda>(shape, d). prod_list shape * element_size d) (zip (mamba_shapes m) (mamba_dtypes m)))"

definition padded_page :: "layer_spec \<Rightarrow> int option" where
  "padded_page s =
     (case s of MambaSpec m \<Rightarrow> mamba_page_padded m
      | _ \<Rightarrow> (case attention_of s of None \<Rightarrow> None | Some a \<Rightarrow> attn_page_padded a))"

definition page_size_bytes :: "layer_spec \<Rightarrow> int res" where
  "page_size_bytes s =
     (case padded_page s of
        None \<Rightarrow> Inr (real_page_size s)
      | Some n \<Rightarrow> require (n \<ge> real_page_size s) AssertionError (Inr n))"

text \<open>\<open>dataclasses.replace(spec, block_size=n)\<close>.\<close>

fun with_block_size :: "int \<Rightarrow> layer_spec \<Rightarrow> layer_spec" where
  "with_block_size n (FullSpec a f) = FullSpec (a\<lparr>attn_block_size := n\<rparr>) f"
| "with_block_size n (MLASpec a f c) = MLASpec (a\<lparr>attn_block_size := n\<rparr>) f c"
| "with_block_size n (SinkSpec a f l) = SinkSpec (a\<lparr>attn_block_size := n\<rparr>) f l"
| "with_block_size n (ChunkedSpec a c) = ChunkedSpec (a\<lparr>attn_block_size := n\<rparr>) c"
| "with_block_size n (WindowSpec a w) = WindowSpec (a\<lparr>attn_block_size := n\<rparr>) w"
| "with_block_size n (CrossSpec a) = CrossSpec (a\<lparr>attn_block_size := n\<rparr>)"
| "with_block_size n (EncoderOnlySpec a) = EncoderOnlySpec (a\<lparr>attn_block_size := n\<rparr>)"
| "with_block_size n (MambaSpec m) = MambaSpec (m\<lparr>mamba_block_size := n\<rparr>)"

section \<open>The memory of a request\<close>

text \<open>What the code reads of \<open>VllmConfig\<close>.\<close>

record mem_config =
  max_model_len :: int
  original_max_model_len :: int
  dcp_size :: int
  pcp_size :: int
  max_num_batched_tokens :: int
  max_num_encoder_input_tokens :: int
  config_mamba_mode :: string
  num_gpu_blocks_override :: "int option"
  disable_hybrid_kv_cache_manager :: bool

definition cdiv_res :: "int \<Rightarrow> int \<Rightarrow> int res" where
  "cdiv_res a b = require (b \<noteq> 0) ZeroDivisionError (Inr (cdiv a b))"

text \<open>\<open>cdiv(num_tokens, self.block_size) * self.page_size_bytes\<close>, and blocks that are always there.\<close>

definition blocks_memory :: "layer_spec \<Rightarrow> int \<Rightarrow> int \<Rightarrow> int res" where
  "blocks_memory s tokens additional =
     res_bind (cdiv_res tokens (block_size_of s)) (\<lambda>n.
     res_bind (page_size_bytes s) (\<lambda>page. Inr ((n + additional) * page)))"

definition full_memory :: "mem_config \<Rightarrow> layer_spec \<Rightarrow> int res" where
  "full_memory cfg s =
     (let ranks = dcp_size cfg * pcp_size cfg in
      blocks_memory s (if ranks > 1 then cdiv (max_model_len cfg) ranks else max_model_len cfg) 0)"

fun max_memory_usage_bytes :: "mem_config \<Rightarrow> layer_spec \<Rightarrow> int res" where
  "max_memory_usage_bytes cfg (ChunkedSpec a chunk) =
     blocks_memory (ChunkedSpec a chunk) (min (chunk + max_num_batched_tokens cfg) (max_model_len cfg)) 0"
| "max_memory_usage_bytes cfg (WindowSpec a window) =
     require (dcp_size cfg = 1) AssertionError
       (blocks_memory (WindowSpec a window)
          (min (window - 1 + max_num_batched_tokens cfg) (max_model_len cfg)) 1)"
| "max_memory_usage_bytes cfg (MambaSpec m) =
     (if config_mamba_mode cfg = ''all'' then blocks_memory (MambaSpec m) (max_model_len cfg) 0
      else
        res_bind (page_size_bytes (MambaSpec m)) (\<lambda>page.
          Inr (page * ((if config_mamba_mode cfg = ''align'' then 2 else 1) + mamba_spec_blocks m))))"
| "max_memory_usage_bytes cfg (EncoderOnlySpec a) = Inr 0"
| "max_memory_usage_bytes cfg (CrossSpec a) =
     blocks_memory (CrossSpec a) (max_num_encoder_input_tokens cfg) 0"
| "max_memory_usage_bytes cfg s = full_memory cfg s"

section \<open>Merging\<close>

definition merge_window_sizes :: "int list \<Rightarrow> int option res" where
  "merge_window_sizes ws =
     (case remdups ws of [] \<Rightarrow> Inr None | [w] \<Rightarrow> Inr (Some w) | _ \<Rightarrow> Inl ValueError)"

definition given :: "'a option list \<Rightarrow> 'a list" where
  "given xs = map the (filter (\<lambda>x. x \<noteq> None) xs)"

text \<open>
  \<open>FullAttentionSpec.merge\<close> and \<open>SinkFullAttentionSpec.merge\<close>; \<open>cls\<close> is the constructor of the class.
  The last assertion compares the fields of \<open>AttentionSpec\<close>, so not the size of the values' heads.
\<close>

definition merge_full ::
  "(attention_fields \<Rightarrow> full_fields \<Rightarrow> layer_spec) \<Rightarrow> attention_fields \<Rightarrow> full_fields \<Rightarrow> layer_spec list \<Rightarrow>
   layer_spec res" where
  "merge_full cls a f specs =
     require (list_all (\<lambda>s. full_of s \<noteq> None) specs) AssertionError
     (let fs = map (\<lambda>s. snd (the (full_of s))) specs in
      require (\<not> list_ex is_mla specs) AssertionError
      (res_bind (merge_window_sizes (given (map full_window fs))) (\<lambda>w.
       res_bind (merge_window_sizes (given (map full_chunk fs))) (\<lambda>c.
       require (list_all (\<lambda>s. attention_of s = Some a) specs) AssertionError
       (require (w = None \<or> c = None) AssertionError
         (Inr (cls a (f\<lparr>full_window := w, full_chunk := c\<rparr>))))))))"

definition merge_mla :: "attention_fields \<Rightarrow> layer_spec list \<Rightarrow> layer_spec res" where
  "merge_mla a specs =
     require (list_all is_mla specs) AssertionError
     (case remdups (map (\<lambda>s. case s of MLASpec _ _ c \<Rightarrow> c | _ \<Rightarrow> None) specs) of
        [c] \<Rightarrow> Inr (MLASpec a \<lparr>head_size_v = head_size a, full_window = None, full_chunk = None\<rparr> c)
      | _ \<Rightarrow> Inl AssertionError)"

fun merge_specs :: "layer_spec list \<Rightarrow> layer_spec res" where
  "merge_specs [] = Inl IndexError"
| "merge_specs (FullSpec a f # ss) = merge_full FullSpec a f (FullSpec a f # ss)"
| "merge_specs (SinkSpec a f l # ss) = merge_full (\<lambda>a f. SinkSpec a f l) a f (SinkSpec a f l # ss)"
| "merge_specs (MLASpec a f c # ss) = merge_mla a (MLASpec a f c # ss)"
| "merge_specs (s # ss) = require (list_all (\<lambda>t. t = s) ss) AssertionError (Inr s)"

section \<open>Layers of one type\<close>

type_synonym layer_specs = "(string \<times> layer_spec) list"

datatype group_spec =
    OneSpec layer_spec
  | UniformTypeSpecs int layer_specs

definition same_kind :: "layer_spec \<Rightarrow> layer_spec \<Rightarrow> bool res" where
  "same_kind one s =
     (if full_of one \<noteq> None then Inr (full_of s \<noteq> None)
      else
        (case one of
           CrossSpec _ \<Rightarrow> Inr (case s of CrossSpec _ \<Rightarrow> True | _ \<Rightarrow> False)
         | WindowSpec _ w \<Rightarrow> Inr (case s of WindowSpec _ w' \<Rightarrow> w' = w | _ \<Rightarrow> False)
         | ChunkedSpec _ c \<Rightarrow> Inr (case s of ChunkedSpec _ c' \<Rightarrow> c' = c | _ \<Rightarrow> False)
         | MambaSpec m \<Rightarrow> Inr (case s of MambaSpec m' \<Rightarrow> mamba_spec_blocks m' = mamba_spec_blocks m | _ \<Rightarrow> False)
         | _ \<Rightarrow> Inl NotImplementedError))"

definition is_uniform_type :: "layer_specs \<Rightarrow> bool res" where
  "is_uniform_type ks =
     (case ks of
        [] \<Rightarrow> Inl StopIteration
      | (_, one) # _ \<Rightarrow>
          if \<not> list_all (\<lambda>(_, s). block_size_of s = block_size_of one) ks then Inr False
          else res_bind (seq_res (map (\<lambda>(_, s). same_kind one s) ks)) (\<lambda>bs. Inr (list_all id bs)))"

definition from_specs :: "layer_specs \<Rightarrow> group_spec option res" where
  "from_specs ks =
     res_bind (is_uniform_type ks) (\<lambda>b.
       Inr (if b then Some (UniformTypeSpecs (block_size_of (snd (hd ks))) ks) else None))"

definition sum_res :: "int res list \<Rightarrow> int res" where
  "sum_res ms = res_bind (seq_res ms) (\<lambda>ns. Inr (sum_list ns))"

fun group_block_size :: "group_spec \<Rightarrow> int" where
  "group_block_size (OneSpec s) = block_size_of s"
| "group_block_size (UniformTypeSpecs bs _) = bs"

fun group_page_size :: "group_spec \<Rightarrow> int res" where
  "group_page_size (OneSpec s) = page_size_bytes s"
| "group_page_size (UniformTypeSpecs _ ks) = sum_res (map (page_size_bytes \<circ> snd) ks)"

definition pages_needed :: "mem_config \<Rightarrow> layer_spec \<Rightarrow> int res" where
  "pages_needed cfg s =
     res_bind (max_memory_usage_bytes cfg s) (\<lambda>m. res_bind (page_size_bytes s) (\<lambda>page. cdiv_res m page))"

definition max_res :: "int list \<Rightarrow> int res" where
  "max_res ns = (if ns = [] then Inl ValueError else Inr (Max (set ns)))"

fun group_max_memory :: "mem_config \<Rightarrow> group_spec \<Rightarrow> int res" where
  "group_max_memory cfg (OneSpec s) = max_memory_usage_bytes cfg s"
| "group_max_memory cfg (UniformTypeSpecs bs ks) =
     res_bind (seq_res (map (pages_needed cfg \<circ> snd) ks)) (\<lambda>ns.
     res_bind (max_res ns) (\<lambda>n.
     res_bind (group_page_size (UniformTypeSpecs bs ks)) (\<lambda>page. Inr (n * page))))"

end
