(* ===== verification/KV_Config.thy ===== *)
theory KV_Config
  imports KV_Spec
begin

text \<open>
  The KV cache configuration of a model (\<^verbatim>\<open>vllm/v1/core/kv_cache_utils.py\<close>): the layers are split into
  groups that share a block table, the memory of each worker into blocks, and the model length is
  checked against the memory or fitted to it. A dictionary from layer names to specs is an
  association list in insertion order. Where the code changes \<open>max_model_len\<close> for a trial and
  restores it, the model passes the changed configuration.
\<close>

record kv_group =
  layer_names :: "string list"
  group_spec_of :: group_spec

record kv_tensor =
  tensor_size :: int
  shared_by :: "string list"

record kv_config =
  config_num_blocks :: int
  config_tensors :: "kv_tensor list"
  config_groups :: "kv_group list"

section \<open>Memory checks\<close>

definition max_memory_usage :: "mem_config \<Rightarrow> group_spec list \<Rightarrow> int res" where
  "max_memory_usage cfg gs = sum_res (map (group_max_memory cfg) gs)"

text \<open>The loop of the binary search, and what is around it.\<close>

function search_len :: "(int \<Rightarrow> bool res) \<Rightarrow> int \<Rightarrow> int \<Rightarrow> int \<Rightarrow> int res" where
  "search_len fits lo hi best =
     (if lo \<le> hi then
        let mid = (lo + hi) div 2 in
        res_bind (fits mid) (\<lambda>b.
          if b then search_len fits (mid + 1) hi mid else search_len fits lo (mid - 1) best)
      else Inr best)"
  by pat_completeness auto
termination
  by (relation "measure (\<lambda>(fits, lo, hi, best). nat (hi - lo + 1))") auto

declare search_len.simps [simp del]

definition longest_fitting :: "(int \<Rightarrow> bool res) \<Rightarrow> int \<Rightarrow> int res" where
  "longest_fitting fits original =
     res_bind (fits 1) (\<lambda>b. if b then search_len fits 1 original 1 else Inr 0)"

definition estimate_max_model_len :: "mem_config \<Rightarrow> layer_specs \<Rightarrow> int \<Rightarrow> int res" where
  "estimate_max_model_len cfg ks available =
     longest_fitting
       (\<lambda>n. res_bind (max_memory_usage (cfg\<lparr>max_model_len := n\<rparr>) (map (OneSpec \<circ> snd) ks))
              (\<lambda>m. Inr (m \<le> available)))
       (max_model_len cfg)"

definition check_memory :: "int \<Rightarrow> int res \<Rightarrow> (int \<Rightarrow> int res) \<Rightarrow> unit res" where
  "check_memory available needed estimate =
     require (available > 0) ValueError
       (res_bind needed (\<lambda>n.
         if n > available then res_bind (estimate available) (\<lambda>_. Inl ValueError) else Inr ()))"

definition check_enough_kv_cache_memory :: "mem_config \<Rightarrow> layer_specs \<Rightarrow> int \<Rightarrow> unit res" where
  "check_enough_kv_cache_memory cfg ks available =
     (if ks = [] then Inr ()
      else check_memory available (max_memory_usage cfg (map (OneSpec \<circ> snd) ks)) (estimate_max_model_len cfg ks))"

section \<open>Groups\<close>

definition spec_at :: "layer_specs \<Rightarrow> string \<Rightarrow> layer_spec res" where
  "spec_at ks name = (case map_of ks name of None \<Rightarrow> Inl KeyError | Some s \<Rightarrow> Inr s)"

fun create_kv_cache_group_specs :: "layer_specs \<Rightarrow> string list list \<Rightarrow> kv_group list res" where
  "create_kv_cache_group_specs ks [] = Inr []"
| "create_kv_cache_group_specs ks (names # rest) =
     res_bind (seq_res (map (spec_at ks) names)) (\<lambda>ss.
     res_bind (merge_specs ss) (\<lambda>m.
     res_bind (create_kv_cache_group_specs ks rest) (\<lambda>gs.
       Inr (\<lparr>layer_names = names, group_spec_of = OneSpec m\<rparr> # gs))))"

definition is_kv_cache_spec_uniform :: "layer_specs \<Rightarrow> bool res" where
  "is_kv_cache_spec_uniform ks =
     (if ks = [] then Inr True
      else
        (case merge_specs (map snd ks) of
           Inr _ \<Rightarrow> Inr True
         | Inl e \<Rightarrow> if e = AssertionError then Inr False else Inl e))"

definition get_kv_cache_groups_uniform_spec :: "layer_specs \<Rightarrow> kv_group list res" where
  "get_kv_cache_groups_uniform_spec ks = create_kv_cache_group_specs ks [map fst ks]"

definition get_kv_cache_groups_uniform_type :: "group_spec \<Rightarrow> kv_group list" where
  "get_kv_cache_groups_uniform_type g =
     (case g of UniformTypeSpecs _ ks \<Rightarrow> [\<lparr>layer_names = map fst ks, group_spec_of = g\<rparr>] | OneSpec _ \<Rightarrow> [])"

definition page_sizes :: "layer_specs \<Rightarrow> int list res" where
  "page_sizes ks = seq_res (map (page_size_bytes \<circ> snd) ks)"

definition is_kv_cache_page_size_uniform :: "layer_specs \<Rightarrow> bool res" where
  "is_kv_cache_page_size_uniform ks = res_bind (page_sizes ks) (\<lambda>ps. Inr (length (remdups ps) = 1))"

definition unify_layer :: "int \<Rightarrow> string \<times> layer_spec \<Rightarrow> (string \<times> layer_spec) res" where
  "unify_layer max_page layer =
     (case layer of (name, s) \<Rightarrow>
        res_bind (page_size_bytes s) (\<lambda>page.
          if page = max_page then Inr (name, s)
          else
            require (page \<noteq> 0) ZeroDivisionError
            (require (max_page mod page = 0) NotImplementedError
            (let s' = with_block_size (block_size_of s * (max_page div page)) s in
             res_bind (page_size_bytes s') (\<lambda>page'.
               require (page' = max_page) AssertionError (Inr (name, s')))))))"

definition unify_kv_cache_spec_page_size :: "layer_specs \<Rightarrow> layer_specs res" where
  "unify_kv_cache_spec_page_size ks =
     res_bind (page_sizes ks) (\<lambda>ps.
       if length (remdups ps) \<le> 1 then Inr ks else seq_res (map (unify_layer (Max (set ps))) ks))"

text \<open>The dictionary \<open>same_type_layers\<close>, and \<open>layers[i::n]\<close>.\<close>

fun add_layer :: "string \<times> layer_spec \<Rightarrow> (layer_spec \<times> string list) list \<Rightarrow> (layer_spec \<times> string list) list" where
  "add_layer (name, s) [] = [(s, [name])]"
| "add_layer (name, s) ((t, names) # rest) =
     (if t = s then (t, names @ [name]) # rest else (t, names) # add_layer (name, s) rest)"

definition same_type_layers :: "layer_specs \<Rightarrow> (layer_spec \<times> string list) list" where
  "same_type_layers ks = fold add_layer ks []"

definition stride :: "nat \<Rightarrow> nat \<Rightarrow> 'a list \<Rightarrow> 'a list" where
  "stride i n xs = map (\<lambda>j. xs ! j) (filter (\<lambda>j. i \<le> j \<and> (j - i) mod n = 0) [0..<length xs])"

text \<open>\<open>max_num_layers < min_num_layers * 1.5\<close>, in integers.\<close>

definition layers_per_group :: "nat list \<Rightarrow> nat" where
  "layers_per_group lens =
     (let mn = Min (set lens); mx = Max (set lens) in if 2 * mx < 3 * mn then mx else mn)"

definition split_layers :: "nat \<Rightarrow> 'a list \<Rightarrow> 'a list list" where
  "split_layers group_size layers =
     (let n = nat (cdiv (int (length layers)) (int group_size)) in map (\<lambda>i. stride i n layers) [0..<n])"

definition get_kv_cache_groups_uniform_page_size :: "layer_specs \<Rightarrow> kv_group list res" where
  "get_kv_cache_groups_uniform_page_size ks =
     require (ks \<noteq> []) ValueError
     (let layers = map snd (same_type_layers ks) in
      create_kv_cache_group_specs ks
        (concat (map (split_layers (layers_per_group (map length layers))) layers)))"

text \<open>\<open>unify_hybrid_kv_cache_specs\<close> changes the dictionary it is given.\<close>

definition as_full_attention :: "layer_spec \<Rightarrow> layer_spec" where
  "as_full_attention s =
     (case s of
        WindowSpec a w \<Rightarrow> FullSpec a \<lparr>head_size_v = head_size a, full_window = Some w, full_chunk = None\<rparr>
      | ChunkedSpec a c \<Rightarrow> FullSpec a \<lparr>head_size_v = head_size a, full_window = None, full_chunk = Some c\<rparr>
      | _ \<Rightarrow> s)"

definition uniform_or_one_type :: "layer_specs \<Rightarrow> bool res" where
  "uniform_or_one_type ks =
     res_bind (is_kv_cache_spec_uniform ks) (\<lambda>b. if b then Inr True else is_uniform_type ks)"

fun is_window_or_chunk :: "layer_spec \<Rightarrow> bool" where
  "is_window_or_chunk (WindowSpec _ _) = True"
| "is_window_or_chunk (ChunkedSpec _ _) = True"
| "is_window_or_chunk _ = False"

definition unify_hybrid_kv_cache_specs :: "layer_specs \<Rightarrow> layer_specs res" where
  "unify_hybrid_kv_cache_specs ks =
     res_bind (uniform_or_one_type ks) (\<lambda>b.
       if b then Inr ks
       else
         let ks' = (if list_ex (\<lambda>(_, s). full_of s \<noteq> None) ks \<and> list_ex (\<lambda>(_, s). is_window_or_chunk s) ks
                    then map (\<lambda>(name, s). (name, as_full_attention s)) ks else ks)
         in res_bind (uniform_or_one_type ks') (\<lambda>b'. require b' ValueError (Inr ks')))"

definition get_kv_cache_groups :: "mem_config \<Rightarrow> layer_specs \<Rightarrow> kv_group list res" where
  "get_kv_cache_groups cfg specs =
     res_bind (if disable_hybrid_kv_cache_manager cfg then unify_hybrid_kv_cache_specs specs else Inr specs) (\<lambda>ks.
       if ks = [] then Inr []
       else
         res_bind (is_kv_cache_spec_uniform ks) (\<lambda>uniform.
           if uniform then get_kv_cache_groups_uniform_spec ks
           else
             res_bind (from_specs ks) (\<lambda>one_type.
               (case one_type of
                  Some g \<Rightarrow> Inr (get_kv_cache_groups_uniform_type g)
                | None \<Rightarrow>
                    res_bind (unify_kv_cache_spec_page_size ks) get_kv_cache_groups_uniform_page_size))))"

section \<open>Blocks and tensors\<close>

definition may_override_num_blocks :: "mem_config \<Rightarrow> int \<Rightarrow> int" where
  "may_override_num_blocks cfg n = (case num_gpu_blocks_override cfg of None \<Rightarrow> n | Some k \<Rightarrow> k)"

definition get_num_blocks :: "mem_config \<Rightarrow> int \<Rightarrow> int \<Rightarrow> int \<Rightarrow> int res" where
  "get_num_blocks cfg num_layers available page_size =
     require (page_size \<noteq> 0 \<and> num_layers \<noteq> 0) ZeroDivisionError
       (Inr (may_override_num_blocks cfg (max (available div page_size div num_layers) 0)))"

definition get_uniform_page_size :: "group_spec list \<Rightarrow> int res" where
  "get_uniform_page_size gs =
     res_bind (seq_res (map group_page_size gs)) (\<lambda>ps.
       (case remdups ps of [p] \<Rightarrow> Inr p | _ \<Rightarrow> Inl AssertionError))"

definition group_sizes :: "kv_group list \<Rightarrow> nat list" where
  "group_sizes gs = map (length \<circ> layer_names) gs"

definition layer_tensor :: "kv_group list \<Rightarrow> int \<Rightarrow> nat \<Rightarrow> kv_tensor" where
  "layer_tensor gs bytes i =
     \<lparr>tensor_size = bytes,
      shared_by = map (\<lambda>g. layer_names g ! i) (filter (\<lambda>g. i < length (layer_names g)) gs)\<rparr>"

text \<open>The special case of one group whose layers have specs of their own.\<close>

fun uniform_layers :: "kv_group list \<Rightarrow> layer_specs option" where
  "uniform_layers [g] = (case group_spec_of g of UniformTypeSpecs _ ks \<Rightarrow> Some ks | OneSpec _ \<Rightarrow> None)"
| "uniform_layers gs = None"

definition get_kv_cache_config_from_groups :: "mem_config \<Rightarrow> kv_group list \<Rightarrow> int \<Rightarrow> kv_config res" where
  "get_kv_cache_config_from_groups cfg gs available =
     (if gs = [] then Inr \<lparr>config_num_blocks = 1, config_tensors = [], config_groups = []\<rparr>
      else
        (case uniform_layers gs of
           Some ks \<Rightarrow>
             res_bind (group_page_size (group_spec_of (hd gs))) (\<lambda>page.
             require (page \<noteq> 0) ZeroDivisionError
             (let n = may_override_num_blocks cfg (available div page) in
              res_bind (seq_res (map (\<lambda>name.
                  res_bind (spec_at ks name) (\<lambda>s. res_bind (page_size_bytes s) (\<lambda>p.
                    Inr \<lparr>tensor_size = p * n, shared_by = [name]\<rparr>))) (layer_names (hd gs)))) (\<lambda>ts.
                Inr \<lparr>config_num_blocks = n, config_tensors = ts, config_groups = gs\<rparr>)))
         | None \<Rightarrow>
             (let group_size = Max (set (group_sizes gs)) in
              res_bind (get_uniform_page_size (map group_spec_of gs)) (\<lambda>page.
              require (group_size > 0) AssertionError
              (res_bind (get_num_blocks cfg (int group_size) available page) (\<lambda>n.
                Inr \<lparr>config_num_blocks = n,
                     config_tensors = map (layer_tensor gs (page * n)) [0..<group_size],
                     config_groups = gs\<rparr>))))))"

section \<open>The memory of groups\<close>

definition max_memory_usage_from_groups :: "mem_config \<Rightarrow> kv_group list \<Rightarrow> int res" where
  "max_memory_usage_from_groups cfg gs =
     (if gs = [] then Inr 0
      else
        (case uniform_layers gs of
           Some ks \<Rightarrow> sum_res (map (max_memory_usage_bytes cfg \<circ> snd) ks)
         | None \<Rightarrow>
             res_bind (get_uniform_page_size (map group_spec_of gs)) (\<lambda>page.
             res_bind (group_max_memory cfg (group_spec_of (hd gs))) (\<lambda>m.
             res_bind (cdiv_res m page) (\<lambda>blocks_needed.
               Inr (int (Max (set (group_sizes gs))) * page * blocks_needed))))))"

definition estimate_max_model_len_from_groups :: "mem_config \<Rightarrow> kv_group list \<Rightarrow> int \<Rightarrow> int res" where
  "estimate_max_model_len_from_groups cfg gs available =
     longest_fitting
       (\<lambda>n. res_bind (max_memory_usage_from_groups (cfg\<lparr>max_model_len := n\<rparr>) gs) (\<lambda>m. Inr (m \<le> available)))
       (max_model_len cfg)"

definition auto_fit_max_model_len :: "mem_config \<Rightarrow> kv_group list list \<Rightarrow> int list \<Rightarrow> mem_config res" where
  "auto_fit_max_model_len cfg projected available =
     (if list_all (\<lambda>gs. gs = []) projected then Inr cfg
      else
        require (available \<noteq> []) IndexError
        (res_bind
          (fold_res
            (\<lambda>(gs, mem) fit.
               if gs = [] then Inr fit
               else res_bind (estimate_max_model_len_from_groups cfg gs mem) (\<lambda>n. Inr (if n < fit then n else fit)))
            (zip projected available) (max_model_len cfg))
          (\<lambda>fit.
             if fit \<le> 0 then Inl ValueError
             else if fit \<ge> max_model_len cfg then Inr cfg
             else Inr (cfg\<lparr>max_model_len := fit\<rparr>))))"

text \<open>A worker keeps the layers that it has.\<close>

definition project_group :: "layer_specs \<Rightarrow> kv_group \<Rightarrow> kv_group res" where
  "project_group worker g =
     (let names = filter (\<lambda>name. name \<in> fst ` set worker) (layer_names g) in
      (case group_spec_of g of
         UniformTypeSpecs bs ks \<Rightarrow>
           if names = [] then Inr \<lparr>layer_names = names, group_spec_of = group_spec_of g\<rparr>
           else
             res_bind (seq_res (map (\<lambda>name. res_bind (spec_at ks name) (\<lambda>s. Inr (name, s))) names)) (\<lambda>ks'.
               Inr \<lparr>layer_names = names, group_spec_of = UniformTypeSpecs bs ks'\<rparr>)
       | OneSpec s \<Rightarrow> Inr \<lparr>layer_names = names, group_spec_of = OneSpec s\<rparr>))"

definition project_kv_cache_groups_to_worker :: "kv_group list \<Rightarrow> layer_specs \<Rightarrow> kv_group list res" where
  "project_kv_cache_groups_to_worker gs worker = seq_res (map (project_group worker) gs)"

section \<open>The configurations of all workers\<close>

text \<open>
  What \<open>_report_kv_cache_config\<close> logs: the number of tokens that fit, and the two numbers whose quotient
  is the maximum concurrency.
\<close>

definition max_concurrency :: "mem_config \<Rightarrow> kv_config \<Rightarrow> (int \<times> int) res" where
  "max_concurrency cfg c =
     (let gs = config_groups c; layers = int (Max (set (group_sizes gs))) in
      res_bind (max_memory_usage cfg (map group_spec_of gs)) (\<lambda>m.
      res_bind (group_page_size (group_spec_of (hd gs))) (\<lambda>page.
      res_bind (cdiv_res (layers * m) (page * layers)) (\<lambda>per_request.
        require (per_request \<noteq> 0) ZeroDivisionError (Inr (config_num_blocks c, per_request))))))"

definition report_kv_cache_config :: "mem_config \<Rightarrow> kv_config \<Rightarrow> (int \<times> int \<times> int) res" where
  "report_kv_cache_config cfg c =
     (let gs = config_groups c;
          tokens = config_num_blocks c div int (length gs) * Min (set (map (group_block_size \<circ> group_spec_of) gs));
          ranks = pcp_size cfg * dcp_size cfg
      in res_bind (max_concurrency cfg c) (\<lambda>(n, k). Inr (if ranks > 1 then tokens * ranks else tokens, n, k)))"

definition merge_worker_specs :: "layer_specs list \<Rightarrow> layer_specs res" where
  "merge_worker_specs specs =
     fold_res
       (\<lambda>(name, s) merged.
          (case map_of merged name of
             None \<Rightarrow> Inr (merged @ [(name, s)])
           | Some t \<Rightarrow> require (t = s) AssertionError (Inr merged)))
       (concat specs) []"

definition shrink_tensor :: "int \<Rightarrow> int \<Rightarrow> kv_tensor \<Rightarrow> kv_tensor res" where
  "shrink_tensor n_old n t =
     require (n_old \<noteq> 0) ZeroDivisionError
     (require (tensor_size t mod n_old = 0) AssertionError
       (Inr (t\<lparr>tensor_size := tensor_size t div n_old * n\<rparr>)))"

definition shrink_config :: "mem_config \<Rightarrow> int \<Rightarrow> kv_config \<Rightarrow> kv_config res" where
  "shrink_config cfg n c =
     res_bind (seq_res (map (shrink_tensor (config_num_blocks c) n) (config_tensors c))) (\<lambda>ts.
       let c' = c\<lparr>config_num_blocks := n, config_tensors := ts\<rparr> in
       if config_groups c' = [] then Inr c'
       else res_bind (report_kv_cache_config cfg c') (\<lambda>_. Inr c'))"

definition worker_config ::
  "mem_config \<Rightarrow> kv_group list \<times> layer_specs \<times> int \<Rightarrow> kv_config res" where
  "worker_config cfg w =
     (case w of (gs, worker, mem) \<Rightarrow>
        require (sum_list (group_sizes gs) = length worker) AssertionError
          (get_kv_cache_config_from_groups cfg gs mem))"

text \<open>The length of the model that is in force afterwards is part of the result.\<close>

definition get_kv_cache_configs ::
  "mem_config \<Rightarrow> layer_specs list \<Rightarrow> int list \<Rightarrow> (mem_config \<times> kv_config list) res" where
  "get_kv_cache_configs cfg0 specs available =
     res_bind (merge_worker_specs specs) (\<lambda>merged.
     res_bind (get_kv_cache_groups cfg0 merged) (\<lambda>global_groups.
     res_bind (seq_res (map (project_kv_cache_groups_to_worker global_groups) specs)) (\<lambda>projected.
     res_bind (if original_max_model_len cfg0 = -1 then auto_fit_max_model_len cfg0 projected available
               else Inr cfg0) (\<lambda>cfg.
     res_bind (seq_res (map (\<lambda>(gs, mem).
         if gs = [] then Inr ()
         else check_memory mem (max_memory_usage_from_groups cfg gs) (estimate_max_model_len_from_groups cfg gs))
         (zip projected available))) (\<lambda>_.
     res_bind (seq_res (map (worker_config cfg) (zip projected (zip specs available)))) (\<lambda>configs.
     require (configs \<noteq> []) ValueError
     (let n = Min (set (map config_num_blocks configs)) in
      res_bind (seq_res (map (shrink_config cfg n) configs)) (\<lambda>configs'. Inr (cfg, configs')))))))))"

definition generate_scheduler_kv_cache_config :: "kv_config list \<Rightarrow> kv_config res" where
  "generate_scheduler_kv_cache_config configs =
     (case configs of
        [] \<Rightarrow> Inl IndexError
      | c # _ \<Rightarrow>
          require (list_all (\<lambda>d. config_num_blocks d = config_num_blocks c) configs) AssertionError
          (res_bind
            (seq_res (map (\<lambda>g.
               (case group_spec_of g of
                  UniformTypeSpecs _ [] \<Rightarrow> Inl StopIteration
                | UniformTypeSpecs _ ((_, s) # _) \<Rightarrow> Inr (g\<lparr>group_spec_of := OneSpec s\<rparr>)
                | OneSpec _ \<Rightarrow> Inr g)) (config_groups c)))
            (\<lambda>gs. Inr (c\<lparr>config_groups := gs\<rparr>))))"

end
