(* ===== verification/KV_Grouping.thy ===== *)
theory KV_Grouping
  imports KV_Config
begin

text \<open>
  The groups that the layers of a model are split into: every layer is in exactly one group, no group
  is empty, and all groups have pages of one size.
\<close>

section \<open>Results of lists\<close>

lemma seq_res_map: "seq_res (map f xs) = Inr ys \<longleftrightarrow> list_all2 (\<lambda>x y. f x = Inr y) xs ys"
proof (induction xs arbitrary: ys)
  case (Cons x xs)
  show ?case
  proof (cases "f x")
    case (Inr y)
    then show ?thesis using Cons by (cases ys) (auto simp: res_simps)
  qed (cases ys, auto)
qed (cases ys, auto)

lemma seq_res_all: "(\<And>x. x \<in> set xs \<Longrightarrow> f x = Inr (g x)) \<Longrightarrow> seq_res (map f xs) = Inr (map g xs)"
  by (simp add: seq_res_map list_all2_conv_all_nth)

section \<open>Splitting a list\<close>

lemma mset_filter_disj:
  "(\<And>x. \<not> (P x \<and> Q x)) \<Longrightarrow> mset (filter P xs) + mset (filter Q xs) = mset (filter (\<lambda>x. P x \<or> Q x) xs)"
  by (induction xs) auto

lemma mset_classes:
  "mset (concat (map (\<lambda>i. filter (\<lambda>j. f j = i) ys) [0..<n])) = mset (filter (\<lambda>j. f j < n) ys)"
proof (induction n)
  case (Suc n)
  have "mset (filter (\<lambda>j. f j < n) ys) + mset (filter (\<lambda>j. f j = n) ys) = mset (filter (\<lambda>j. f j < n \<or> f j = n) ys)"
    by (rule mset_filter_disj) simp
  then show ?case using Suc by (simp add: less_Suc_eq)
qed simp

lemma stride_eq: "i < n \<Longrightarrow> stride i n xs = map ((!) xs) (filter (\<lambda>j. j mod n = i) [0..<length xs])"
proof -
  assume i: "i < n"
  have "(i \<le> j \<and> (j - i) mod n = 0) = (j mod n = i)" for j
  proof
    assume a: "i \<le> j \<and> (j - i) mod n = 0"
    then have "j mod n = i mod n" by (metis mod_eq_dvd_iff_nat mod_0_imp_dvd)
    then show "j mod n = i" using i by simp
  next
    assume a: "j mod n = i"
    then show "i \<le> j \<and> (j - i) mod n = 0" by (metis minus_mod_eq_div_mult mod_less_eq_dividend mod_mult_self2_is_0)
  qed
  then show ?thesis by (simp add: stride_def)
qed

lemma mset_strides:
  assumes "0 < n"
  shows "mset (concat (map (\<lambda>i. stride i n xs) [0..<n])) = mset xs"
proof -
  have "map (\<lambda>i. stride i n xs) [0..<n] = map (\<lambda>i. map ((!) xs) (filter (\<lambda>j. j mod n = i) [0..<length xs])) [0..<n]"
    by (rule map_cong) (simp_all add: stride_eq)
  then have "mset (concat (map (\<lambda>i. stride i n xs) [0..<n]))
      = image_mset ((!) xs) (mset (concat (map (\<lambda>i. filter (\<lambda>j. j mod n = i) [0..<length xs]) [0..<n])))"
    by (simp only: map_concat map_map comp_def mset_map [symmetric])
  also have "\<dots> = image_mset ((!) xs) (mset [0..<length xs])" using assms by (simp add: mset_classes)
  also have "\<dots> = mset xs" by (simp only: mset_map [symmetric] map_nth)
  finally show ?thesis .
qed

lemma stride_nonempty: "i < n \<Longrightarrow> n \<le> length xs \<Longrightarrow> stride i n xs \<noteq> []"
proof -
  assume "i < n" "n \<le> length xs"
  then have "i \<in> set (filter (\<lambda>j. j mod n = i) [0..<length xs])" by simp
  then have "filter (\<lambda>j. j mod n = i) [0..<length xs] \<noteq> []" by force
  then show ?thesis by (simp only: stride_eq [OF \<open>i < n\<close>] map_is_Nil_conv not_False_eq_True)
qed

lemma length_stride:
  assumes "i < n" and "length xs \<le> n * k"
  shows "length (stride i n xs) \<le> k"
proof -
  let ?S = "{j. j < length xs \<and> j mod n = i}"
  have "length (stride i n xs) = length (filter (\<lambda>j. j mod n = i) [0..<length xs])"
    using assms(1) by (simp add: stride_eq)
  also have "\<dots> = card (set (filter (\<lambda>j. j mod n = i) [0..<length xs]))"
    by (rule distinct_card [symmetric]) simp
  also have "\<dots> = card ?S" by (rule arg_cong [where f = card]) auto
  also have "\<dots> \<le> card {..<k}"
  proof (rule card_inj_on_le [where f = "\<lambda>j. j div n"])
    show "inj_on (\<lambda>j. j div n) ?S" by (rule inj_onI) (metis (mono_tags, lifting) div_mod_decomp mem_Collect_eq)
    show "(\<lambda>j. j div n) ` ?S \<subseteq> {..<k}"
    proof
      fix q assume "q \<in> (\<lambda>j. j div n) ` ?S"
      then obtain j where j: "j < length xs" "q = j div n" by auto
      then have "j < n * k" using assms(2) by simp
      then show "q \<in> {..<k}" using assms(1) j(2) by (simp add: less_mult_imp_div_less mult.commute)
    qed
  qed simp
  finally show ?thesis by simp
qed

text \<open>Every layer goes to exactly one of the parts, no part is empty or longer than \<open>k\<close>.\<close>

lemma split_layers_parts:
  assumes "0 < k"
  shows "mset (concat (split_layers k xs)) = mset xs"
    and "ys \<in> set (split_layers k xs) \<Longrightarrow> ys \<noteq> [] \<and> length ys \<le> k \<and> set ys \<subseteq> set xs"
proof -
  let ?n = "nat (cdiv (int (length xs)) (int k))"
  have k: "0 < int k" using assms by simp
  have up: "int (length xs) \<le> cdiv (int (length xs)) (int k) * int k" by (rule cdiv_upper [OF k])
  have n: "int ?n = cdiv (int (length xs)) (int k)" using cdiv_nonneg [OF k, of "int (length xs)"] by simp
  have len: "length xs \<le> ?n * k"
  proof -
    have "int (length xs) \<le> int ?n * int k" using up n by simp
    then show ?thesis by (metis of_nat_le_iff of_nat_mult)
  qed
  have small: "?n \<le> length xs"
  proof -
    have "cdiv (int (length xs)) (int k) \<le> int (length xs)" using assms by (simp add: cdiv_least [OF k] mult_le_cancel_left1)
    then show ?thesis using n by linarith
  qed
  show m: "mset (concat (split_layers k xs)) = mset xs"
  proof (cases "?n = 0")
    case True
    then show ?thesis using len by (simp add: split_layers_def Let_def)
  next
    case False
    then show ?thesis using mset_strides [of ?n xs] by (simp add: split_layers_def Let_def)
  qed
  show "ys \<in> set (split_layers k xs) \<Longrightarrow> ys \<noteq> [] \<and> length ys \<le> k \<and> set ys \<subseteq> set xs"
  proof -
    assume ys: "ys \<in> set (split_layers k xs)"
    then obtain i where i: "i < ?n" "ys = stride i ?n xs" by (auto simp: split_layers_def Let_def)
    have "set ys \<subseteq> set (concat (split_layers k xs))" using ys by auto
    then have "set ys \<subseteq> set xs" using m by (metis set_mset_mset)
    then show ?thesis using stride_nonempty [OF i(1) small] length_stride [OF i(1) len] i(2) by simp
  qed
qed

section \<open>Layers of one spec\<close>

definition sorted_by_spec :: "layer_specs \<Rightarrow> (layer_spec \<times> string list) list \<Rightarrow> bool" where
  "sorted_by_spec ks L \<longleftrightarrow> mset (concat (map snd L)) = mset (map fst ks) \<and>
     (\<forall>(s, names) \<in> set L. names \<noteq> [] \<and> (\<forall>name \<in> set names. (name, s) \<in> set ks))"

lemma add_layer_names: "mset (concat (map snd (add_layer (name, s) L))) = add_mset name (mset (concat (map snd L)))"
  by (induction L) auto

lemma add_layer_entries:
  "(t, names) \<in> set (add_layer (name, s) L) \<Longrightarrow> (t, names) \<in> set L \<or>
     t = s \<and> (\<exists>old. names = old @ [name] \<and> (old = [] \<or> (s, old) \<in> set L))"
  by (induction L) (auto split: if_splits)

lemma sorted_by_spec_add:
  assumes "sorted_by_spec ks L"
  shows "sorted_by_spec (ks @ [(name, s)]) (add_layer (name, s) L)"
  unfolding sorted_by_spec_def
proof (intro conjI ballI)
  show "mset (concat (map snd (add_layer (name, s) L))) = mset (map fst (ks @ [(name, s)]))"
    using assms by (simp only: add_layer_names sorted_by_spec_def) simp
  fix e assume e: "e \<in> set (add_layer (name, s) L)"
  obtain t names where t: "e = (t, names)" by fastforce
  show "case e of (s', names) \<Rightarrow> names \<noteq> [] \<and> (\<forall>n \<in> set names. (n, s') \<in> set (ks @ [(name, s)]))"
    using add_layer_entries [of t names name s L] e assms unfolding sorted_by_spec_def t by fastforce
qed

lemma same_type_layers_sorted: "sorted_by_spec ks (same_type_layers ks)"
proof (induction ks rule: rev_induct)
  case (snoc k ks)
  then show ?case using sorted_by_spec_add by (cases k) (simp add: same_type_layers_def)
qed (simp add: sorted_by_spec_def same_type_layers_def)

section \<open>Merged specs\<close>

lemma merge_page: "merge_specs (s # ss) = Inr m \<Longrightarrow> page_size_bytes m = page_size_bytes s"
proof (cases s)
  case (MLASpec a f c)
  assume "merge_specs (s # ss) = Inr m"
  then have "is_mla s" and r: "(case remdups (map (\<lambda>s. case s of MLASpec _ _ c \<Rightarrow> c | _ \<Rightarrow> None) (s # ss)) of
      [c] \<Rightarrow> Inr (MLASpec a \<lparr>head_size_v = head_size a, full_window = None, full_chunk = None\<rparr> c) | _ \<Rightarrow> Inl AssertionError) = Inr m"
    by (simp_all add: MLASpec merge_mla_def res_simps)
  from r obtain d where d: "remdups (map (\<lambda>s. case s of MLASpec _ _ c \<Rightarrow> c | _ \<Rightarrow> None) (s # ss)) = [d]"
    "m = MLASpec a \<lparr>head_size_v = head_size a, full_window = None, full_chunk = None\<rparr> d"
    by (auto split: list.splits)
  have "c \<in> set (map (\<lambda>s. case s of MLASpec _ _ c \<Rightarrow> c | _ \<Rightarrow> None) (s # ss))" by (simp add: MLASpec)
  then have "c \<in> {d}" using d(1) by (metis set_remdups list.set(1) list.set(2))
  then show ?thesis by (simp add: d(2) MLASpec page_size_bytes_def padded_page_def split: option.split)
qed (auto simp: merge_full_def Let_def res_simps page_size_bytes_def padded_page_def split: option.split)

lemma create_groups_names:
  "create_kv_cache_group_specs ks parts = Inr gs \<Longrightarrow> map layer_names gs = parts"
proof (induction parts arbitrary: gs)
  case (Cons names parts)
  then show ?case by (auto simp: res_simps)
qed simp

lemma create_groups_page:
  assumes "create_kv_cache_group_specs ks parts = Inr gs" and "g \<in> set gs"
    and "\<And>names name s. names \<in> set parts \<Longrightarrow> name \<in> set names \<Longrightarrow> spec_at ks name = Inr s \<Longrightarrow> page_size_bytes s = Inr page"
  shows "group_page_size (group_spec_of g) = Inr page"
  using assms
proof (induction parts arbitrary: gs)
  case (Cons names parts)
  then obtain ss m gs' where s: "seq_res (map (spec_at ks) names) = Inr ss" "merge_specs ss = Inr m"
    "create_kv_cache_group_specs ks parts = Inr gs'" "gs = \<lparr>layer_names = names, group_spec_of = OneSpec m\<rparr> # gs'"
    by (auto simp: res_simps)
  show ?case
  proof (cases "g \<in> set gs'")
    case True
    show ?thesis by (rule Cons.IH [OF s(3) True]) (rule Cons.prems(3), auto)
  next
    case False
    then have g: "group_spec_of g = OneSpec m" using Cons.prems(2) s(4) by auto
    from s(2) obtain s0 ss' where ss: "ss = s0 # ss'" by (cases ss) auto
    then obtain n0 ns where n: "names = n0 # ns" using s(1) by (cases names) auto
    then have "spec_at ks n0 = Inr s0" using s(1) ss by (auto simp: res_simps)
    then have "page_size_bytes s0 = Inr page" using Cons.prems(3) [of names n0 s0] n by simp
    then show ?thesis using merge_page s(2) g unfolding ss by simp
  qed
qed simp

section \<open>Pages of one size\<close>

lemma unify_layer_result:
  "unify_layer p l = Inr l' \<Longrightarrow> fst l' = fst l \<and> page_size_bytes (snd l') = Inr p"
  by (cases l) (auto simp: unify_layer_def Let_def res_simps split: if_splits)

lemma list_all2_map_fst: "list_all2 (\<lambda>x y. f x = Inr y) xs ys \<Longrightarrow> (\<And>x y. f x = Inr y \<Longrightarrow> fst y = fst x) \<Longrightarrow> map fst ys = map fst xs"
  by (induction rule: list_all2_induct) auto

lemma remdups_le_one: "length (remdups xs) \<le> 1 \<Longrightarrow> x \<in> set xs \<Longrightarrow> y \<in> set xs \<Longrightarrow> x = y"
  by (metis One_nat_def card_le_Suc0_iff_eq length_remdups_card_conv List.finite_set)

lemma unified_pages:
  assumes "unify_kv_cache_spec_page_size ks = Inr ks'"
  shows "map fst ks' = map fst ks \<and> (\<exists>p. \<forall>l \<in> set ks'. page_size_bytes (snd l) = Inr p)"
proof -
  from assms obtain ps where ps: "page_sizes ks = Inr ps"
    and r: "(if length (remdups ps) \<le> 1 then Inr ks else seq_res (map (unify_layer (Max (set ps))) ks)) = Inr ks'"
    by (auto simp: unify_kv_cache_spec_page_size_def res_simps)
  have all: "list_all2 (\<lambda>l p. page_size_bytes (snd l) = Inr p) ks ps" using ps by (simp add: page_sizes_def seq_res_map)
  show ?thesis
  proof (cases "length (remdups ps) \<le> 1")
    case True
    have "page_size_bytes (snd l) = Inr (hd ps)" if "l \<in> set ks" for l
    proof -
      from that obtain i where i: "i < length ks" "l = ks ! i" by (auto simp: in_set_conv_nth)
      then have "i < length ps" "page_size_bytes (snd l) = Inr (ps ! i)" using all by (auto simp: list_all2_conv_all_nth)
      moreover from this have "ps ! i = hd ps"
        by (intro remdups_le_one [OF True]) (auto intro: hd_in_set nth_mem)
      ultimately show ?thesis by simp
    qed
    then show ?thesis using r True by auto
  next
    case False
    then have "list_all2 (\<lambda>l l'. unify_layer (Max (set ps)) l = Inr l') ks ks'" using r by (simp add: seq_res_map)
    then have "map fst ks' = map fst ks" by (rule list_all2_map_fst) (simp add: unify_layer_result)
    moreover have "page_size_bytes (snd l) = Inr (Max (set ps))" if "l \<in> set ks'" for l
    proof -
      from that obtain i where i: "i < length ks'" "l = ks' ! i" by (auto simp: in_set_conv_nth)
      then have "unify_layer (Max (set ps)) (ks ! i) = Inr l"
        using \<open>list_all2 _ ks ks'\<close> by (simp add: list_all2_conv_all_nth)
      then show ?thesis using unify_layer_result by blast
    qed
    ultimately show ?thesis by auto
  qed
qed

lemma unify_hybrid_names: "unify_hybrid_kv_cache_specs ks = Inr ks' \<Longrightarrow> map fst ks' = map fst ks"
  by (auto simp: unify_hybrid_kv_cache_specs_def Let_def res_simps split: if_splits)

section \<open>The groups of a model\<close>

definition one_page_size :: "kv_group list \<Rightarrow> bool" where
  "one_page_size gs \<longleftrightarrow> (\<exists>p. get_uniform_page_size (map group_spec_of gs) = Inr p)"

definition partition_of :: "layer_specs \<Rightarrow> kv_group list \<Rightarrow> bool" where
  "partition_of ks gs \<longleftrightarrow> mset (concat (map layer_names gs)) = mset (map fst ks) \<and>
     (\<forall>g \<in> set gs. layer_names g \<noteq> [])"

lemma partition_of_single: "map layer_names gs = [map fst ks] \<Longrightarrow> ks \<noteq> [] \<Longrightarrow> partition_of ks gs"
  by (auto simp: partition_of_def)

lemma split_each: "0 < k \<Longrightarrow> mset (concat (concat (map (split_layers k) xss))) = mset (concat xss)"
  by (induction xss) (simp_all add: split_layers_parts(1))

lemma remdups_constant: "xs \<noteq> [] \<Longrightarrow> remdups (map (\<lambda>_. p) xs) = [p]"
  by (induction xs rule: list_nonempty_induct) (auto simp: image_constant_conv)

lemma split_all_layers:
  assumes L: "sorted_by_spec ks L" and ks: "ks \<noteq> []"
  defines "parts \<equiv> concat (map (split_layers (layers_per_group (map length (map snd L)))) (map snd L))"
  shows "mset (concat parts) = mset (map fst ks)" and "\<forall>names \<in> set parts. names \<noteq> [] \<and> set names \<subseteq> fst ` set ks"
proof -
  let ?k = "layers_per_group (map length (map snd L))"
  have sum: "mset (concat (map snd L)) = mset (map fst ks)" using L by (simp add: sorted_by_spec_def)
  then have ne: "L \<noteq> []" using ks by auto
  have "0 < length names" if "names \<in> snd ` set L" for names using L that by (auto simp: sorted_by_spec_def)
  then have pos: "0 < n" if "n \<in> set (map length (map snd L))" for n using that by auto
  have "Min (set (map length (map snd L))) \<in> set (map length (map snd L))"
    "Max (set (map length (map snd L))) \<in> set (map length (map snd L))" using ne by (auto intro!: Min_in Max_in)
  then have k: "0 < ?k" unfolding layers_per_group_def Let_def using pos by (auto split: if_split)
  show "mset (concat parts) = mset (map fst ks)" unfolding parts_def split_each [OF k] by (rule sum)
  then have "set (concat parts) = fst ` set ks" by (metis set_mset_mset set_map)
  moreover have "names \<noteq> []" if "names \<in> set parts" for names
    using that split_layers_parts(2) [OF k] unfolding parts_def by auto
  ultimately show "\<forall>names \<in> set parts. names \<noteq> [] \<and> set names \<subseteq> fst ` set ks" by auto
qed

lemma uniform_page_size_groups:
  assumes "get_kv_cache_groups_uniform_page_size ks = Inr gs" and page: "\<forall>l \<in> set ks. page_size_bytes (snd l) = Inr p"
  shows "partition_of ks gs \<and> one_page_size gs"
proof -
  let ?L = "same_type_layers ks"
  let ?parts = "concat (map (split_layers (layers_per_group (map length (map snd ?L)))) (map snd ?L))"
  have ks: "ks \<noteq> []" and c: "create_kv_cache_group_specs ks ?parts = Inr gs"
    using assms(1) by (simp_all add: get_kv_cache_groups_uniform_page_size_def Let_def res_simps)
  note parts = split_all_layers [OF same_type_layers_sorted ks]
  have names: "map layer_names gs = ?parts" by (rule create_groups_names [OF c])
  have part: "partition_of ks gs"
    unfolding partition_of_def
  proof (intro conjI ballI)
    show "mset (concat (map layer_names gs)) = mset (map fst ks)" unfolding names by (rule parts(1))
    fix g assume "g \<in> set gs"
    then have "layer_names g \<in> set ?parts" by (metis names image_eqI set_map)
    then show "layer_names g \<noteq> []" using parts(2) by blast
  qed
  have "gs \<noteq> []" using part ks by (auto simp: partition_of_def)
  have pages: "group_page_size (group_spec_of g) = Inr p" if "g \<in> set gs" for g
  proof (rule create_groups_page [OF c that])
    fix names name s assume "names \<in> set ?parts" "name \<in> set names" and s: "spec_at ks name = Inr s"
    from s have "(name, s) \<in> set ks" by (auto simp: spec_at_def split: option.splits dest: map_of_SomeD)
    then show "page_size_bytes s = Inr p" using page by force
  qed
  have "seq_res (map group_page_size (map group_spec_of gs)) = Inr (map (\<lambda>_. p) (map group_spec_of gs))"
    by (rule seq_res_all) (use pages in auto)
  moreover have "remdups (map (\<lambda>_. p) (map group_spec_of gs)) = [p]" using \<open>gs \<noteq> []\<close>
    by (intro remdups_constant) simp
  ultimately have "one_page_size gs" by (simp add: one_page_size_def get_uniform_page_size_def)
  then show ?thesis using part by blast
qed

text \<open>The ways in which the groups come about.\<close>

lemma get_groups_cases:
  assumes "get_kv_cache_groups cfg ks = Inr gs"
  obtains ks1 where "(if disable_hybrid_kv_cache_manager cfg then unify_hybrid_kv_cache_specs ks else Inr ks) = Inr ks1"
    and "ks1 = [] \<and> gs = [] \<or> ks1 \<noteq> [] \<and>
      (get_kv_cache_groups_uniform_spec ks1 = Inr gs \<or>
       (\<exists>bs. gs = [\<lparr>layer_names = map fst ks1, group_spec_of = UniformTypeSpecs bs ks1\<rparr>]) \<or>
       (\<exists>ks2. unify_kv_cache_spec_page_size ks1 = Inr ks2 \<and> get_kv_cache_groups_uniform_page_size ks2 = Inr gs))"
proof -
  from assms obtain ks1 where ks1: "(if disable_hybrid_kv_cache_manager cfg then unify_hybrid_kv_cache_specs ks else Inr ks) = Inr ks1"
    and r: "(if ks1 = [] then Inr []
       else res_bind (is_kv_cache_spec_uniform ks1) (\<lambda>uniform.
           if uniform then get_kv_cache_groups_uniform_spec ks1
           else res_bind (from_specs ks1) (\<lambda>one_type.
               (case one_type of Some g \<Rightarrow> Inr (get_kv_cache_groups_uniform_type g)
                | None \<Rightarrow> res_bind (unify_kv_cache_spec_page_size ks1) get_kv_cache_groups_uniform_page_size)))) = Inr gs"
    by (auto simp: get_kv_cache_groups_def res_simps)
  show ?thesis
  proof (rule that [OF ks1], cases "ks1 = []")
    case False
    then obtain uniform where u: "(if uniform then get_kv_cache_groups_uniform_spec ks1
           else res_bind (from_specs ks1) (\<lambda>one_type.
               (case one_type of Some g \<Rightarrow> Inr (get_kv_cache_groups_uniform_type g)
                | None \<Rightarrow> res_bind (unify_kv_cache_spec_page_size ks1) get_kv_cache_groups_uniform_page_size))) = Inr gs"
      using r by (auto simp: res_simps)
    have "get_kv_cache_groups_uniform_spec ks1 = Inr gs \<or>
       (\<exists>bs. gs = [\<lparr>layer_names = map fst ks1, group_spec_of = UniformTypeSpecs bs ks1\<rparr>]) \<or>
       (\<exists>ks2. unify_kv_cache_spec_page_size ks1 = Inr ks2 \<and> get_kv_cache_groups_uniform_page_size ks2 = Inr gs)"
    proof (cases uniform)
      case no: False
      then obtain one_type where o: "from_specs ks1 = Inr one_type"
        "(case one_type of Some g \<Rightarrow> Inr (get_kv_cache_groups_uniform_type g)
          | None \<Rightarrow> res_bind (unify_kv_cache_spec_page_size ks1) get_kv_cache_groups_uniform_page_size) = Inr gs"
        using u by (auto simp: res_simps)
      then show ?thesis
        by (cases one_type) (auto simp: from_specs_def get_kv_cache_groups_uniform_type_def res_simps split: if_splits)
    qed (use u in simp)
    then show "ks1 = [] \<and> gs = [] \<or> ks1 \<noteq> [] \<and>
      (get_kv_cache_groups_uniform_spec ks1 = Inr gs \<or>
       (\<exists>bs. gs = [\<lparr>layer_names = map fst ks1, group_spec_of = UniformTypeSpecs bs ks1\<rparr>]) \<or>
       (\<exists>ks2. unify_kv_cache_spec_page_size ks1 = Inr ks2 \<and> get_kv_cache_groups_uniform_page_size ks2 = Inr gs))"
      using False by blast
  qed (use r in simp)
qed

lemma groups_partition:
  assumes "get_kv_cache_groups cfg ks = Inr gs"
  shows "partition_of ks gs \<and> (length gs \<le> 1 \<or> one_page_size gs)"
proof -
  obtain ks1 where ks1: "(if disable_hybrid_kv_cache_manager cfg then unify_hybrid_kv_cache_specs ks else Inr ks) = Inr ks1"
    and c: "ks1 = [] \<and> gs = [] \<or> ks1 \<noteq> [] \<and>
      (get_kv_cache_groups_uniform_spec ks1 = Inr gs \<or>
       (\<exists>bs. gs = [\<lparr>layer_names = map fst ks1, group_spec_of = UniformTypeSpecs bs ks1\<rparr>]) \<or>
       (\<exists>ks2. unify_kv_cache_spec_page_size ks1 = Inr ks2 \<and> get_kv_cache_groups_uniform_page_size ks2 = Inr gs))"
    by (rule get_groups_cases [OF assms])
  have names: "map fst ks1 = map fst ks" using ks1 unify_hybrid_names by (auto split: if_splits)
  consider "ks1 = []" "gs = []" | "ks1 \<noteq> []" "get_kv_cache_groups_uniform_spec ks1 = Inr gs"
    | bs where "ks1 \<noteq> []" "gs = [\<lparr>layer_names = map fst ks1, group_spec_of = UniformTypeSpecs bs ks1\<rparr>]"
    | ks2 where "unify_kv_cache_spec_page_size ks1 = Inr ks2" "get_kv_cache_groups_uniform_page_size ks2 = Inr gs"
    using c by blast
  then have "partition_of ks1 gs \<and> (length gs \<le> 1 \<or> one_page_size gs)"
  proof cases
    case 2
    have n: "map layer_names gs = [map fst ks1]"
      using 2(2) create_groups_names by (simp add: get_kv_cache_groups_uniform_spec_def)
    then have "length gs = 1" by (metis length_map length_Cons list.size(3) One_nat_def)
    then show ?thesis using partition_of_single [OF n 2(1)] by simp
  next
    case 4
    then show ?thesis using unified_pages [of ks1 ks2] uniform_page_size_groups [of ks2 gs] unfolding partition_of_def by metis
  qed (simp_all add: partition_of_def)
  then show ?thesis using names unfolding partition_of_def by simp
qed

text \<open>
  C12. Every layer of a model is in exactly one group and no group is empty. When there are several
  groups, their pages have one size, so that they can share a pool of blocks, as the later steps of the
  configuration assert.
\<close>

theorem groups_partition_layers:
  assumes "get_kv_cache_groups cfg ks = Inr gs"
  shows "mset (concat (map layer_names gs)) = mset (map fst ks) \<and> (\<forall>g \<in> set gs. layer_names g \<noteq> []) \<and>
    (length gs \<le> 1 \<or> (\<exists>p. get_uniform_page_size (map group_spec_of gs) = Inr p))"
  using groups_partition [OF assms] by (simp add: partition_of_def one_page_size_def)

section \<open>A hybrid model\<close>

definition small_attention :: "int \<Rightarrow> attention_fields" where
  "small_attention bs = \<lparr>attn_block_size = bs, num_kv_heads = 1, head_size = 1,
     attn_dtype = Dtype ''int8'' 1, attn_page_padded = None\<rparr>"

definition small_full :: "int \<Rightarrow> layer_spec" where
  "small_full bs = FullSpec (small_attention bs) \<lparr>head_size_v = 1, full_window = None, full_chunk = None\<rparr>"

definition small_window :: "int \<Rightarrow> layer_spec" where
  "small_window bs = WindowSpec (small_attention bs) 4"

definition small_config :: "int \<Rightarrow> mem_config" where
  "small_config len = \<lparr>max_model_len = len, original_max_model_len = len, dcp_size = 1,
     pcp_size = 1, max_num_batched_tokens = len, max_num_encoder_input_tokens = 0,
     config_mamba_mode = ''none'', num_gpu_blocks_override = None, disable_hybrid_kv_cache_manager = False\<rparr>"

definition five_layers :: layer_specs where
  "five_layers = [(''l0'', small_full 2), (''l1'', small_window 2), (''l2'', small_window 1),
     (''l3'', small_full 2), (''l4'', small_window 2)]"

lemma groups_partition_layers_witness:
  "\<exists>gs. get_kv_cache_groups (small_config 8) five_layers = Inr gs \<and>
     map layer_names gs = [[''l0'', ''l3''], [''l1'', ''l4''], [''l2'']] \<and>
     (\<exists>p. get_uniform_page_size (map group_spec_of gs) = Inr p)"
proof -
  have "res_bind (get_kv_cache_groups (small_config 8) five_layers) (\<lambda>gs. Inr (map layer_names gs))
      = Inr [[''l0'', ''l3''], [''l1'', ''l4''], [''l2'']]" by code_simp
  then obtain gs where g: "get_kv_cache_groups (small_config 8) five_layers = Inr gs"
    "map layer_names gs = [[''l0'', ''l3''], [''l1'', ''l4''], [''l2'']]" by (auto simp: res_simps)
  from g(2) have "length gs = 3" by (metis length_map length_Cons list.size(3) numeral_3_eq_3)
  then show ?thesis using groups_partition_layers [OF g(1)] g by auto
qed

end
