(* ===== verification/KV_Sizing.thy ===== *)
theory KV_Sizing
  imports KV_Grouping
begin

text \<open>
  The length of a model that fits into the memory of a worker: the memory that a request needs grows
  with its length, so that the binary search finds the longest one.
\<close>

section \<open>The binary search\<close>

lemma search_len_exact:
  assumes "\<And>m. 1 \<le> m \<Longrightarrow> m \<le> N \<Longrightarrow> fits m = Inr (P m)" and anti: "\<And>m m'. m \<le> m' \<Longrightarrow> P m' \<Longrightarrow> P m"
    and "1 \<le> lo" "hi \<le> N" "P best" "1 \<le> best" "best \<le> N"
    and "\<And>m. 1 \<le> m \<Longrightarrow> m < lo \<Longrightarrow> m \<le> best" and "\<And>m. hi < m \<Longrightarrow> m \<le> N \<Longrightarrow> \<not> P m"
  shows "\<exists>n. search_len fits lo hi best = Inr n \<and> 1 \<le> n \<and> n \<le> N \<and> (\<forall>m. 1 \<le> m \<and> m \<le> N \<longrightarrow> (P m \<longleftrightarrow> m \<le> n))"
  using assms(3-)
proof (induction "nat (hi - lo + 1)" arbitrary: lo hi best rule: less_induct)
  case less
  show ?case
  proof (cases "lo \<le> hi")
    case False
    have "P m \<longleftrightarrow> m \<le> best" if "1 \<le> m" "m \<le> N" for m
    proof
      assume "P m"
      then have "\<not> hi < m" using less.prems(7) [of m] that by blast
      then show "m \<le> best" using less.prems(6) [of m] that False by linarith
    next
      assume "m \<le> best"
      then show "P m" using anti less.prems(3) by blast
    qed
    then show ?thesis using less.prems(4,5) False by (simp add: search_len.simps [of _ lo])
  next
    case True
    let ?mid = "(lo + hi) div 2"
    have mid: "lo \<le> ?mid" "?mid \<le> hi" using True by simp_all
    have f: "fits ?mid = Inr (P ?mid)" using assms(1) mid less.prems(1,2) by simp
    show ?thesis
    proof (cases "P ?mid")
      case pm: True
      have "\<exists>n. search_len fits (?mid + 1) hi ?mid = Inr n \<and> 1 \<le> n \<and> n \<le> N \<and> (\<forall>m. 1 \<le> m \<and> m \<le> N \<longrightarrow> (P m \<longleftrightarrow> m \<le> n))"
        using less.prems mid pm by (intro less.hyps) auto
      then show ?thesis using True f pm by (simp add: search_len.simps [of _ lo] Let_def)
    next
      case pm: False
      have "\<not> P m" if "?mid - 1 < m" "m \<le> N" for m using pm anti [of ?mid m] that by auto
      then have "\<exists>n. search_len fits lo (?mid - 1) best = Inr n \<and> 1 \<le> n \<and> n \<le> N \<and> (\<forall>m. 1 \<le> m \<and> m \<le> N \<longrightarrow> (P m \<longleftrightarrow> m \<le> n))"
        using less.prems mid by (intro less.hyps) auto
      then show ?thesis using True f pm by (simp add: search_len.simps [of _ lo] Let_def)
    qed
  qed
qed

lemma longest_fitting_exact:
  assumes "\<And>m. 1 \<le> m \<Longrightarrow> m \<le> N \<Longrightarrow> fits m = Inr (P m)" and "\<And>m m'. m \<le> m' \<Longrightarrow> P m' \<Longrightarrow> P m" and "1 \<le> N"
  shows "\<exists>n. longest_fitting fits N = Inr n \<and> 0 \<le> n \<and> n \<le> N \<and> (\<forall>m. 1 \<le> m \<and> m \<le> N \<longrightarrow> (P m \<longleftrightarrow> m \<le> n))"
proof (cases "P 1")
  case True
  have "\<exists>n. search_len fits 1 N 1 = Inr n \<and> 1 \<le> n \<and> n \<le> N \<and> (\<forall>m. 1 \<le> m \<and> m \<le> N \<longrightarrow> (P m \<longleftrightarrow> m \<le> n))"
    using assms True by (intro search_len_exact) auto
  then obtain n where "search_len fits 1 N 1 = Inr n" "1 \<le> n" "n \<le> N" "\<forall>m. 1 \<le> m \<and> m \<le> N \<longrightarrow> (P m \<longleftrightarrow> m \<le> n)" by blast
  then show ?thesis using True assms(1) [of 1] assms(3) by (intro exI [of _ n]) (simp add: longest_fitting_def)
next
  case False
  then have "\<not> P m" if "1 \<le> m" for m using assms(2) [OF that] by blast
  then show ?thesis using False assms(1) [of 1] assms(3) by (intro exI [of _ 0]) (auto simp: longest_fitting_def)
qed

section \<open>Memory grows with the length\<close>

definition spec_sizes_ok :: "layer_spec \<Rightarrow> bool" where
  "spec_sizes_ok s \<longleftrightarrow> 0 < block_size_of s \<and> 0 < real_page_size s"

lemma page_pos: "spec_sizes_ok s \<Longrightarrow> page_size_bytes s = Inr p \<Longrightarrow> 0 < p"
  by (auto simp: page_size_bytes_def spec_sizes_ok_def res_simps split: option.splits)

definition grows :: "(int \<Rightarrow> int res) \<Rightarrow> bool" where
  "grows u \<longleftrightarrow> (\<exists>f. (\<forall>m. u m = Inr (f m)) \<and> (\<forall>m m'. m \<le> m' \<longrightarrow> f m \<le> f m'))"

lemma growsI: "(\<And>m. u m = Inr (f m)) \<Longrightarrow> (\<And>m m'. m \<le> m' \<Longrightarrow> f m \<le> f m') \<Longrightarrow> grows u"
  unfolding grows_def by blast

lemma blocks_memory_grows:
  assumes "spec_sizes_ok s" and "blocks_memory s k a = Inr u" and "\<And>m m'. m \<le> m' \<Longrightarrow> t m \<le> t m'"
  shows "grows (\<lambda>m. blocks_memory s (t m) a)"
proof -
  have bs: "0 < block_size_of s" using assms(1) by (simp add: spec_sizes_ok_def)
  then obtain p where p: "page_size_bytes s = Inr p" using assms(2) by (auto simp: blocks_memory_def res_simps)
  have "0 < p" by (rule page_pos [OF assms(1) p])
  then show ?thesis using bs cdiv_mono [OF bs assms(3)]
    by (intro growsI [where f = "\<lambda>m. (cdiv (t m) (block_size_of s) + a) * p"])
      (simp_all add: blocks_memory_def cdiv_res_def p mult_right_mono)
qed

lemma constant_grows: "u = (\<lambda>_. Inr c) \<Longrightarrow> grows u"
  by (rule growsI [where f = "\<lambda>_. c"]) simp_all

lemma usage_grows:
  assumes "spec_sizes_ok s" and u: "max_memory_usage_bytes cfg s = Inr u"
  shows "grows (\<lambda>m. max_memory_usage_bytes (cfg\<lparr>max_model_len := m\<rparr>) s)"
proof -
  have full: "grows (\<lambda>m. full_memory (cfg\<lparr>max_model_len := m\<rparr>) s)" if "full_memory cfg s = Inr u"
  proof -
    let ?r = "dcp_size cfg * pcp_size cfg"
    have "grows (\<lambda>m. blocks_memory s (if ?r > 1 then cdiv m ?r else m) 0)"
      using that by (intro blocks_memory_grows [OF assms(1)]) (auto simp: full_memory_def Let_def cdiv_mono)
    then show ?thesis by (simp add: full_memory_def Let_def cong: if_cong)
  qed
  show ?thesis
  proof (cases s)
    case (ChunkedSpec a c)
    have "grows (\<lambda>m. blocks_memory s (min (c + max_num_batched_tokens cfg) m) 0)"
      using u by (intro blocks_memory_grows [OF assms(1)]) (auto simp: ChunkedSpec)
    then show ?thesis by (simp add: ChunkedSpec)
  next
    case (WindowSpec a w)
    have "grows (\<lambda>m. blocks_memory s (min (w - 1 + max_num_batched_tokens cfg) m) 1)"
      using u by (intro blocks_memory_grows [OF assms(1)]) (auto simp: WindowSpec res_simps)
    then show ?thesis using u by (simp add: WindowSpec res_simps)
  next
    case (MambaSpec m)
    show ?thesis
    proof (cases "config_mamba_mode cfg = ''all''")
      case True
      then have "grows (\<lambda>n. blocks_memory s n 0)"
        using u by (intro blocks_memory_grows [OF assms(1)]) (auto simp: MambaSpec)
      then show ?thesis using True by (simp add: MambaSpec)
    next
      case False
      then show ?thesis using u by (intro constant_grows [where c = u]) (simp add: MambaSpec)
    qed
  next
    case (CrossSpec a)
    then show ?thesis using u by (intro constant_grows [where c = u]) simp
  next
    case (EncoderOnlySpec a)
    then show ?thesis by (intro constant_grows [where c = 0]) simp
  qed (use u full in auto)
qed

lemma sum_grows:
  assumes "\<And>x. x \<in> set xs \<Longrightarrow> grows (u x)"
  shows "grows (\<lambda>m. sum_res (map (\<lambda>x. u x m) xs))"
proof -
  obtain f where f: "\<And>x m. x \<in> set xs \<Longrightarrow> u x m = Inr (f x m)" "\<And>x m m'. x \<in> set xs \<Longrightarrow> m \<le> m' \<Longrightarrow> f x m \<le> f x m'"
    using assms unfolding grows_def by metis
  have "seq_res (map (\<lambda>x. u x m) xs) = Inr (map (\<lambda>x. f x m) xs)" for m using f(1) by (rule seq_res_all)
  then show ?thesis using f(2)
    by (intro growsI [where f = "\<lambda>m. sum_list (map (\<lambda>x. f x m) xs)"]) (simp_all add: sum_res_def sum_list_mono)
qed

section \<open>The longest length that fits\<close>

text \<open>The groups whose memory the code can compute: one group of layers with specs of their own, or a first group of one spec.\<close>

definition group_sizes_ok :: "kv_group list \<Rightarrow> bool" where
  "group_sizes_ok gs \<longleftrightarrow>
     (case uniform_layers gs of
        Some ks \<Rightarrow> list_all (spec_sizes_ok \<circ> snd) ks
      | None \<Rightarrow> (case gs of [] \<Rightarrow> True | g # _ \<Rightarrow> (case group_spec_of g of OneSpec s \<Rightarrow> spec_sizes_ok s | UniformTypeSpecs _ _ \<Rightarrow> False)))"

lemma seq_res_Inr: "seq_res (map f xs) = Inr ys \<Longrightarrow> x \<in> set xs \<Longrightarrow> \<exists>y. f x = Inr y"
  by (induction xs arbitrary: ys) (auto simp: res_simps)

lemma uniform_pageD:
  assumes "get_uniform_page_size gs = Inr page"
  shows "\<exists>ps. list_all2 (\<lambda>g p. group_page_size g = Inr p) gs ps \<and> remdups ps = [page]"
proof -
  from assms obtain ps where ps: "seq_res (map group_page_size gs) = Inr ps"
    and r: "(case remdups ps of [p] \<Rightarrow> Inr p | _ \<Rightarrow> Inl AssertionError) = Inr page"
    by (auto simp: get_uniform_page_size_def res_simps simp del: remdups_eq_nil_iff)
  have "remdups ps = [page]"
  proof (cases "remdups ps")
    case (Cons q qs)
    then show ?thesis using r by (cases qs) auto
  qed (use r in simp)
  then show ?thesis using ps by (auto simp: seq_res_map)
qed

lemma uniform_page_of:
  assumes "get_uniform_page_size gs = Inr page" and "group_page_size g = Inr p" and "g \<in> set gs"
  shows "p = page"
proof -
  obtain ps where l: "list_all2 (\<lambda>g p. group_page_size g = Inr p) gs ps" and ps: "remdups ps = [page]"
    using uniform_pageD [OF assms(1)] by blast
  from assms(3) obtain i where i: "i < length gs" "g = gs ! i" by (auto simp: in_set_conv_nth)
  have "group_page_size g = Inr (ps ! i)" "i < length ps" using i l by (auto simp: list_all2_conv_all_nth)
  then have "p \<in> set (remdups ps)" using assms(2) by auto
  then show ?thesis using ps by simp
qed

lemma groups_usage_grows:
  assumes ok: "group_sizes_ok gs" and u: "max_memory_usage_from_groups cfg gs = Inr u"
  shows "grows (\<lambda>m. max_memory_usage_from_groups (cfg\<lparr>max_model_len := m\<rparr>) gs)"
proof (cases "gs = []")
  case True
  then show ?thesis by (intro constant_grows [where c = 0]) (simp add: max_memory_usage_from_groups_def)
next
  case ne: False
  show ?thesis
  proof (cases "uniform_layers gs")
    case (Some ks)
    have "grows (\<lambda>m. max_memory_usage_bytes (cfg\<lparr>max_model_len := m\<rparr>) (snd l))" if "l \<in> set ks" for l
    proof -
      obtain vs where "seq_res (map (max_memory_usage_bytes cfg \<circ> snd) ks) = Inr vs"
        using u ne Some by (auto simp: max_memory_usage_from_groups_def sum_res_def res_simps)
      from seq_res_Inr [OF this that] have "\<exists>v. (max_memory_usage_bytes cfg \<circ> snd) l = Inr v" .
      moreover have "spec_sizes_ok (snd l)" using ok Some that by (simp add: group_sizes_ok_def list_all_iff)
      ultimately show ?thesis using usage_grows by auto
    qed
    from sum_grows [OF this] show ?thesis using ne Some by (simp add: max_memory_usage_from_groups_def comp_def)
  next
    case None
    then obtain s where s: "group_spec_of (hd gs) = OneSpec s" "spec_sizes_ok s"
      using ok ne by (auto simp: group_sizes_ok_def split: list.splits group_spec.splits)
    obtain page v b where pv: "get_uniform_page_size (map group_spec_of gs) = Inr page"
      "max_memory_usage_bytes cfg s = Inr v" "cdiv_res v page = Inr b"
      using u ne None s(1) by (auto simp: max_memory_usage_from_groups_def res_simps)
    obtain p where p: "page_size_bytes s = Inr p"
      using uniform_pageD [OF pv(1)] ne s(1) by (cases gs) (auto simp: list_all2_Cons1)
    then have "p = page" using uniform_page_of [OF pv(1), of "OneSpec s" p] ne s(1) by (cases gs) auto
    then have page: "0 < page" using page_pos [OF s(2) p] by simp
    obtain f where f: "\<And>m. max_memory_usage_bytes (cfg\<lparr>max_model_len := m\<rparr>) s = Inr (f m)" "\<And>m m'. m \<le> m' \<Longrightarrow> f m \<le> f m'"
      using usage_grows [OF s(2) pv(2)] unfolding grows_def by blast
    let ?G = "int (Max (set (group_sizes gs)))"
    show ?thesis
    proof (rule growsI [where f = "\<lambda>m. ?G * page * cdiv (f m) page"])
      fix m show "max_memory_usage_from_groups (cfg\<lparr>max_model_len := m\<rparr>) gs = Inr (?G * page * cdiv (f m) page)"
        using ne None s(1) pv(1) f(1) page by (simp add: max_memory_usage_from_groups_def cdiv_res_def)
    next
      fix m m' :: int assume "m \<le> m'"
      then have "cdiv (f m) page \<le> cdiv (f m') page" by (intro cdiv_mono [OF page] f(2))
      moreover have "0 \<le> ?G * page" using page by simp
      ultimately show "?G * page * cdiv (f m) page \<le> ?G * page * cdiv (f m') page" by (rule mult_left_mono)
    qed
  qed
qed

text \<open>
  C13. The length that a worker reports as its longest is exact: up to it the memory that the groups need
  is available, beyond it it is not, and 0 means that not even one token fits. So \<open>max_model_len\<close> is
  fitted, when it is to be fitted, to the longest length that the check lets pass.
\<close>

theorem estimate_is_longest_fitting:
  assumes "group_sizes_ok gs" and "max_memory_usage_from_groups cfg gs = Inr u" and "1 \<le> max_model_len cfg"
  shows "\<exists>n. estimate_max_model_len_from_groups cfg gs available = Inr n \<and> 0 \<le> n \<and> n \<le> max_model_len cfg \<and>
    (\<forall>m. 1 \<le> m \<and> m \<le> max_model_len cfg \<longrightarrow>
      (\<exists>v. max_memory_usage_from_groups (cfg\<lparr>max_model_len := m\<rparr>) gs = Inr v \<and> (v \<le> available \<longleftrightarrow> m \<le> n)))"
proof -
  obtain f where f: "\<And>m. max_memory_usage_from_groups (cfg\<lparr>max_model_len := m\<rparr>) gs = Inr (f m)" "\<And>m m'. m \<le> m' \<Longrightarrow> f m \<le> f m'"
    using groups_usage_grows [OF assms(1,2)] unfolding grows_def by blast
  have "\<exists>n. longest_fitting (\<lambda>n. Inr (f n \<le> available)) (max_model_len cfg) = Inr n \<and> 0 \<le> n \<and> n \<le> max_model_len cfg \<and>
      (\<forall>m. 1 \<le> m \<and> m \<le> max_model_len cfg \<longrightarrow> (f m \<le> available \<longleftrightarrow> m \<le> n))"
    by (rule longest_fitting_exact) (use f(2) assms(3) order_trans in blast)+
  then show ?thesis by (simp add: estimate_max_model_len_from_groups_def f(1))
qed

end
