(* ===== verification/KV_Tensors.thy ===== *)
theory KV_Tensors
  imports KV_Sizing
begin

text \<open>
  The tensors of the KV cache of each worker: together they hold every layer of the worker once and
  take no more memory than there is, and all workers have the same number of blocks.
\<close>

section \<open>Layers of the tensors\<close>

lemma nth_if_short: "length xs \<le> n \<Longrightarrow> concat (map (\<lambda>i. if i < length xs then [xs ! i] else []) [0..<n]) = xs"
proof -
  assume "length xs \<le> n"
  then have "[0..<n] = [0..<length xs] @ [length xs..<n]" by (metis le_add_diff_inverse upt_add_eq_append zero_le)
  moreover have "concat (map (\<lambda>i. if i < length xs then [xs ! i] else []) [0..<length xs]) = map ((!) xs) [0..<length xs]"
    by (subst map_cong [OF refl, of _ _ "\<lambda>i. [xs ! i]"]) (simp_all add: concat_map_singleton)
  moreover have "concat (map (\<lambda>i. if i < length xs then [xs ! i] else []) [length xs..<n]) = []" by simp
  ultimately show ?thesis by (simp add: map_nth)
qed

lemma mset_concat_append: "mset (concat (map (\<lambda>i. f i @ h i) is)) = mset (concat (map f is)) + mset (concat (map h is))"
  by (induction "is") auto

lemma layer_tensors_share:
  assumes "\<And>g. g \<in> set gs \<Longrightarrow> length (layer_names g) \<le> n"
  shows "mset (concat (map (shared_by \<circ> layer_tensor gs b) [0..<n])) = mset (concat (map layer_names gs))"
  using assms
proof (induction gs)
  case Nil
  then show ?case by (simp add: layer_tensor_def comp_def)
next
  case (Cons g gs)
  have "shared_by \<circ> layer_tensor (g # gs) b
      = (\<lambda>i. (if i < length (layer_names g) then [layer_names g ! i] else []) @ (shared_by \<circ> layer_tensor gs b) i)"
    by (auto simp: layer_tensor_def)
  then have "mset (concat (map (shared_by \<circ> layer_tensor (g # gs) b) [0..<n]))
      = mset (concat (map (\<lambda>i. if i < length (layer_names g) then [layer_names g ! i] else []) [0..<n]))
        + mset (concat (map (shared_by \<circ> layer_tensor gs b) [0..<n]))" by (simp only: mset_concat_append)
  also have "\<dots> = mset (layer_names g) + mset (concat (map layer_names gs))"
    using Cons.IH Cons.prems by (simp add: nth_if_short comp_def)
  finally show ?case by (simp add: comp_def)
qed

section \<open>One worker\<close>

definition tensors_fit :: "int \<Rightarrow> string multiset \<Rightarrow> kv_config \<Rightarrow> bool" where
  "tensors_fit available names c \<longleftrightarrow>
     sum_list (map tensor_size (config_tensors c)) \<le> available \<and> 0 \<le> config_num_blocks c \<and>
     (\<forall>t \<in> set (config_tensors c). 0 \<le> tensor_size t) \<and>
     mset (concat (map shared_by (config_tensors c))) = names"

text \<open>Layers with specs of their own: their names are those of the specs, and their pages are positive.\<close>

definition uniform_ok :: "kv_group list \<Rightarrow> bool" where
  "uniform_ok gs \<longleftrightarrow>
     (case uniform_layers gs of
        None \<Rightarrow> True
      | Some ks \<Rightarrow> list_all (spec_sizes_ok \<circ> snd) ks \<and>
          (layer_names (hd gs) = [] \<or> layer_names (hd gs) = map fst ks \<and> distinct (map fst ks)))"

lemma floor_le: "0 < b \<Longrightarrow> b * (a div b) \<le> (a :: int)"
  by (simp add: minus_mod_eq_mult_div [symmetric])

lemma div_neg_le0: "0 \<le> a \<Longrightarrow> b \<le> 0 \<Longrightarrow> a div b \<le> (0 :: int)"
  by (cases "b = 0") (simp_all add: div_nonneg_neg_le0)

lemma floor_pages:
  fixes available page :: int
  assumes "0 \<le> available" and "0 < G"
  shows "G * (page * max (available div page div G) 0) \<le> available"
proof (cases "0 < page")
  case True
  let ?n = "available div page div G"
  have n: "0 \<le> ?n" using assms True by (simp add: pos_imp_zdiv_nonneg_iff)
  have "G * ?n \<le> available div page" using assms(2) by (rule floor_le)
  then have "page * (G * ?n) \<le> page * (available div page)" using True by (intro mult_left_mono) simp_all
  also have "\<dots> \<le> available" by (rule floor_le [OF True])
  finally show ?thesis using n by (simp add: max_absorb1 mult.left_commute)
next
  case False
  then have "available div page \<le> 0" using div_neg_le0 [OF assms(1)] by simp
  then have "available div page div G \<le> 0" using assms(2) by (simp add: div_nonpos_pos_le0)
  then show ?thesis using assms(1) by simp
qed

lemma sum_list_constant: "sum_list (map (\<lambda>_. c) xs) = int (length xs) * c"
  by (induction xs) (simp_all add: algebra_simps)

lemma general_config_fits:
  assumes c: "get_kv_cache_config_from_groups cfg gs available = Inr c" and "gs \<noteq> []" and "uniform_layers gs = None"
    and "num_gpu_blocks_override cfg = None" and "0 \<le> available"
  shows "tensors_fit available (mset (concat (map layer_names gs))) c"
proof -
  let ?G = "Max (set (group_sizes gs))"
  obtain page n where g: "0 < ?G" "get_num_blocks cfg (int ?G) available page = Inr n"
    "c = \<lparr>config_num_blocks = n, config_tensors = map (layer_tensor gs (page * n)) [0..<?G], config_groups = gs\<rparr>"
    using assms by (auto simp: get_kv_cache_config_from_groups_def Let_def res_simps)
  have n: "n = max (available div page div int ?G) 0"
    using g(2) assms(4) by (simp add: get_num_blocks_def may_override_num_blocks_def res_simps)
  have size: "map tensor_size (config_tensors c) = map (\<lambda>_. page * n) [0..<?G]" by (simp add: g(3) layer_tensor_def)
  have "sum_list (map tensor_size (config_tensors c)) \<le> available"
    unfolding size sum_list_constant n using floor_pages [OF assms(5), of "int ?G" page] g(1) by simp
  moreover have "0 \<le> page * n"
  proof (cases "0 < page")
    case True then show ?thesis using n by simp
  next
    case False
    then have "available div page \<le> 0" using div_neg_le0 [OF assms(5)] by simp
    then have "available div page div int ?G \<le> 0" using g(1) by (simp add: div_nonpos_pos_le0)
    then show ?thesis using n by simp
  qed
  moreover have "mset (concat (map (shared_by \<circ> layer_tensor gs (page * n)) [0..<?G])) = mset (concat (map layer_names gs))"
    by (rule layer_tensors_share) (auto simp: group_sizes_def intro!: Max_ge)
  ultimately show ?thesis using n by (auto simp: tensors_fit_def g(3) layer_tensor_def)
qed

lemma own_tensors:
  assumes "seq_res (map (page_size_bytes \<circ> snd) ks) = Inr ps" and "distinct (map fst ks)"
    and "seq_res (map (\<lambda>name. res_bind (spec_at ks name) (\<lambda>s. res_bind (page_size_bytes s) (\<lambda>p.
           Inr \<lparr>tensor_size = p * n, shared_by = [name]\<rparr>))) (map fst ks)) = Inr ts"
  shows "map tensor_size ts = map (\<lambda>p. p * n) ps \<and> map shared_by ts = map (\<lambda>l. [fst l]) ks"
proof -
  have l: "list_all2 (\<lambda>l p. page_size_bytes (snd l) = Inr p) ks ps" using assms(1) by (simp add: seq_res_map)
  have t: "list_all2 (\<lambda>name t. res_bind (spec_at ks name) (\<lambda>s. res_bind (page_size_bytes s) (\<lambda>p.
      Inr \<lparr>tensor_size = p * n, shared_by = [name]\<rparr>)) = Inr t) (map fst ks) ts"
    using assms(3) by (simp only: seq_res_map)
  have len: "length ps = length ks" "length ts = length ks" using l t by (auto dest: list_all2_lengthD)
  have "ts ! i = \<lparr>tensor_size = ps ! i * n, shared_by = [fst (ks ! i)]\<rparr>" if "i < length ks" for i
  proof -
    have "page_size_bytes (snd (ks ! i)) = Inr (ps ! i)" using l that by (simp add: list_all2_conv_all_nth)
    moreover have "map_of ks (fst (ks ! i)) = Some (snd (ks ! i))" using that assms(2) by (simp add: map_of_is_SomeI)
    moreover have "res_bind (spec_at ks (fst (ks ! i))) (\<lambda>s. res_bind (page_size_bytes s) (\<lambda>p.
        Inr \<lparr>tensor_size = p * n, shared_by = [fst (ks ! i)]\<rparr>)) = Inr (ts ! i)"
      using t that by (simp add: list_all2_conv_all_nth)
    ultimately show ?thesis by (simp add: spec_at_def)
  qed
  then show ?thesis using len by (auto intro!: nth_equalityI)
qed

lemma uniform_config_fits:
  assumes c: "get_kv_cache_config_from_groups cfg gs available = Inr c" and "uniform_layers gs = Some ks"
    and ok: "uniform_ok gs" and "num_gpu_blocks_override cfg = None" and "0 \<le> available"
  shows "tensors_fit available (mset (concat (map layer_names gs))) c"
proof -
  from assms(2) obtain g where gs: "gs = [g]" by (cases gs rule: uniform_layers.cases) auto
  obtain bs where spec: "group_spec_of g = UniformTypeSpecs bs ks" using assms(2) by (auto simp: gs split: group_spec.splits)
  obtain page ts where p: "group_page_size (group_spec_of g) = Inr page" "page \<noteq> 0"
    and ts: "seq_res (map (\<lambda>name. res_bind (spec_at ks name) (\<lambda>s. res_bind (page_size_bytes s) (\<lambda>p.
        Inr \<lparr>tensor_size = p * (available div page), shared_by = [name]\<rparr>))) (layer_names g)) = Inr ts"
    and ceq: "c = \<lparr>config_num_blocks = available div page, config_tensors = ts, config_groups = gs\<rparr>"
    using c assms(2,4) by (auto simp: get_kv_cache_config_from_groups_def may_override_num_blocks_def gs Let_def res_simps)
  obtain ps where ps: "seq_res (map (page_size_bytes \<circ> snd) ks) = Inr ps" "page = sum_list ps"
    using p(1) by (auto simp: spec sum_res_def res_simps)
  have l: "list_all2 (\<lambda>l p. page_size_bytes (snd l) = Inr p) ks ps" using ps(1) by (simp add: seq_res_map)
  have pos: "0 < q" if "q \<in> set ps" for q
  proof -
    from that obtain i where i: "i < length ps" "q = ps ! i" by (auto simp: in_set_conv_nth)
    then have "page_size_bytes (snd (ks ! i)) = Inr q" "ks ! i \<in> set ks" using l by (auto simp: list_all2_conv_all_nth)
    then show ?thesis using page_pos ok assms(2) by (auto simp: uniform_ok_def list_all_iff)
  qed
  then have page: "0 < page" using p(2) ps(2) sum_list_nonneg [of ps] by (simp add: order_less_le)
  then have n: "0 \<le> available div page" using assms(5) by (simp add: pos_imp_zdiv_nonneg_iff)
  show ?thesis
  proof (cases "layer_names g = []")
    case True
    then show ?thesis using ts n assms(5) by (simp add: tensors_fit_def ceq gs)
  next
    case False
    then have names: "layer_names g = map fst ks" "distinct (map fst ks)" using ok assms(2) by (auto simp: uniform_ok_def gs)
    have t: "map tensor_size ts = map (\<lambda>p. p * (available div page)) ps" "map shared_by ts = map (\<lambda>l. [fst l]) ks"
      using own_tensors [OF ps(1) names(2)] ts unfolding names(1) by blast+
    have "sum_list (map tensor_size ts) = page * (available div page)" unfolding t(1) ps(2) by (simp add: sum_list_mult_const)
    also have "\<dots> \<le> available" by (rule floor_le [OF page])
    finally have "sum_list (map tensor_size ts) \<le> available" .
    moreover have "0 \<le> tensor_size u" if "u \<in> set ts" for u
    proof -
      have "tensor_size u \<in> set (map (\<lambda>p. p * (available div page)) ps)" using that t(1) by (metis image_eqI set_map)
      then show ?thesis using pos n by force
    qed
    ultimately show ?thesis using n names(1) t(2) by (simp add: tensors_fit_def ceq gs comp_def concat_map_singleton)
  qed
qed

lemma config_fits:
  assumes "get_kv_cache_config_from_groups cfg gs available = Inr c" and "uniform_ok gs"
    and "num_gpu_blocks_override cfg = None" and "gs = [] \<or> 0 \<le> available"
  shows "tensors_fit (max 0 available) (mset (concat (map layer_names gs))) c"
proof (cases "gs = []")
  case True
  then show ?thesis using assms(1) by (auto simp: get_kv_cache_config_from_groups_def tensors_fit_def)
next
  case False
  then show ?thesis using assms general_config_fits uniform_config_fits by (cases "uniform_layers gs") (auto simp: max_absorb2)
qed

section \<open>All workers\<close>

lemma merge_workers_loop:
  assumes "fold_res (\<lambda>(name, s) merged. (case map_of merged name of None \<Rightarrow> Inr (merged @ [(name, s)])
      | Some t \<Rightarrow> require (t = s) AssertionError (Inr merged))) xs m = Inr r" and "distinct (map fst m)"
  shows "distinct (map fst r) \<and> fst ` set r = fst ` set m \<union> fst ` set xs \<and> set r \<subseteq> set m \<union> set xs"
  using assms
proof (induction xs arbitrary: m)
  case (Cons x xs)
  obtain name s where x: "x = (name, s)" by fastforce
  show ?case
  proof (cases "map_of m name")
    case None
    then have "name \<notin> fst ` set m" by (simp add: map_of_eq_None_iff)
    then show ?thesis using Cons.IH [of "m @ [(name, s)]"] Cons.prems None by (auto simp: x)
  next
    case (Some t)
    then have "name \<in> fst ` set m" by (metis domI dom_map_of_conv_image_fst)
    then show ?thesis using Cons.IH [of m] Cons.prems Some by (auto simp: x res_simps)
  qed
qed simp

lemma merge_workers:
  assumes "merge_worker_specs specs = Inr merged"
  shows "distinct (map fst merged)" "fst ` set merged = fst ` set (concat specs)" "set merged \<subseteq> set (concat specs)"
  using merge_workers_loop [OF assms [unfolded merge_worker_specs_def]] by simp_all

lemma sizes_as_full: "spec_sizes_ok s \<Longrightarrow> spec_sizes_ok (as_full_attention s)"
  by (cases s) (auto simp: spec_sizes_ok_def as_full_attention_def attention_page_def algebra_simps)

lemma unify_hybrid_sizes:
  "unify_hybrid_kv_cache_specs ks = Inr ks' \<Longrightarrow> list_all (spec_sizes_ok \<circ> snd) ks \<Longrightarrow> list_all (spec_sizes_ok \<circ> snd) ks'"
  by (fastforce simp: unify_hybrid_kv_cache_specs_def Let_def res_simps list_all_iff split: if_splits intro: sizes_as_full)

lemma create_groups_one_spec:
  "create_kv_cache_group_specs ks parts = Inr gs \<Longrightarrow> g \<in> set gs \<Longrightarrow> \<exists>s. group_spec_of g = OneSpec s"
  by (induction parts arbitrary: gs) (auto simp: res_simps)

lemma groups_with_own_specs:
  assumes "get_kv_cache_groups cfg ks = Inr gs" and "list_all (spec_sizes_ok \<circ> snd) ks" and "g \<in> set gs"
    and "group_spec_of g = UniformTypeSpecs bs us"
  shows "layer_names g = map fst us \<and> list_all (spec_sizes_ok \<circ> snd) us"
proof -
  obtain ks1 where ks1: "(if disable_hybrid_kv_cache_manager cfg then unify_hybrid_kv_cache_specs ks else Inr ks) = Inr ks1"
    and c: "ks1 = [] \<and> gs = [] \<or> ks1 \<noteq> [] \<and>
      (get_kv_cache_groups_uniform_spec ks1 = Inr gs \<or>
       (\<exists>bs. gs = [\<lparr>layer_names = map fst ks1, group_spec_of = UniformTypeSpecs bs ks1\<rparr>]) \<or>
       (\<exists>ks2. unify_kv_cache_spec_page_size ks1 = Inr ks2 \<and> get_kv_cache_groups_uniform_page_size ks2 = Inr gs))"
    by (rule get_groups_cases [OF assms(1)])
  have sizes: "list_all (spec_sizes_ok \<circ> snd) ks1" using ks1 assms(2) unify_hybrid_sizes by (auto split: if_splits)
  have "\<nexists>parts ks. create_kv_cache_group_specs ks parts = Inr gs"
    using create_groups_one_spec assms(3,4) by (metis group_spec.distinct(1))
  then have "\<exists>bs. gs = [\<lparr>layer_names = map fst ks1, group_spec_of = UniformTypeSpecs bs ks1\<rparr>]"
    using c assms(3) by (auto simp: get_kv_cache_groups_uniform_spec_def get_kv_cache_groups_uniform_page_size_def Let_def res_simps
        simp del: create_kv_cache_group_specs.simps)
  then show ?thesis using assms(3,4) sizes by auto
qed

text \<open>What a worker keeps of the groups.\<close>

lemma project_group_names:
  "project_group worker g = Inr g' \<Longrightarrow> layer_names g' = filter (\<lambda>name. name \<in> fst ` set worker) (layer_names g)"
  by (auto simp: project_group_def Let_def res_simps split: group_spec.splits if_splits)

lemma projected_names:
  assumes "project_kv_cache_groups_to_worker gs worker = Inr pr"
  shows "concat (map layer_names pr) = filter (\<lambda>name. name \<in> fst ` set worker) (concat (map layer_names gs))"
proof -
  have "list_all2 (\<lambda>g g'. project_group worker g = Inr g') gs pr"
    using assms by (simp add: project_kv_cache_groups_to_worker_def seq_res_map)
  then show ?thesis by (induction rule: list_all2_induct) (simp_all add: project_group_names)
qed

lemma projected_layers:
  assumes "project_kv_cache_groups_to_worker gs worker = Inr pr" and "mset (concat (map layer_names gs)) = mset (map fst merged)"
    and "distinct (map fst merged)" and "distinct (map fst worker)" and "fst ` set worker \<subseteq> fst ` set merged"
  shows "mset (concat (map layer_names pr)) = mset (map fst worker)"
proof -
  have "mset (concat (map layer_names pr)) = filter_mset (\<lambda>name. name \<in> fst ` set worker) (mset (map fst merged))"
    unfolding projected_names [OF assms(1)] mset_filter assms(2) by (rule refl)
  also have "\<dots> = mset (filter (\<lambda>name. name \<in> fst ` set worker) (map fst merged))" by (simp only: mset_filter)
  also have "\<dots> = mset (map fst worker)"
    using assms(3-5) by (intro set_eq_iff_mset_eq_distinct [THEN iffD1]) auto
  finally show ?thesis .
qed

lemma own_specs_of:
  assumes "list_all2 (\<lambda>name l. res_bind (spec_at us name) (\<lambda>s. Inr (name, s)) = Inr l) names ks"
  shows "map fst ks = names \<and> set ks \<subseteq> set us"
  using assms
proof (induction rule: list_all2_induct)
  case (Cons name names l ks)
  then show ?case by (auto simp: res_simps spec_at_def split: option.splits dest: map_of_SomeD)
qed simp

lemma projected_uniform_ok:
  assumes pr: "project_kv_cache_groups_to_worker gs worker = Inr pr"
    and own: "\<And>g bs us. g \<in> set gs \<Longrightarrow> group_spec_of g = UniformTypeSpecs bs us \<Longrightarrow>
      layer_names g = map fst us \<and> list_all (spec_sizes_ok \<circ> snd) us"
    and dist: "distinct (concat (map layer_names gs))"
  shows "uniform_ok pr"
proof (cases "uniform_layers pr")
  case (Some ks)
  then obtain g' where g': "pr = [g']" by (cases pr rule: uniform_layers.cases) auto
  then obtain bs where spec: "group_spec_of g' = UniformTypeSpecs bs ks" using Some by (auto split: group_spec.splits)
  have "list_all2 (\<lambda>g g'. project_group worker g = Inr g') gs pr"
    using pr by (simp add: project_kv_cache_groups_to_worker_def seq_res_map)
  then obtain g where g: "gs = [g]" "project_group worker g = Inr g'" by (auto simp: g' list_all2_Cons2)
  let ?names = "filter (\<lambda>name. name \<in> fst ` set worker) (layer_names g)"
  obtain bs' us where us: "group_spec_of g = UniformTypeSpecs bs' us"
    using g(2) spec by (auto simp: project_group_def Let_def split: group_spec.splits)
  note o = own [OF _ us]
  have ok: "list_all (spec_sizes_ok \<circ> snd) us" using own [OF _ us] g(1) by simp
  have n: "layer_names g' = ?names" by (rule project_group_names [OF g(2)])
  show ?thesis
  proof (cases "?names = []")
    case True
    then have "ks = us" using g(2) spec us by (auto simp: project_group_def Let_def)
    then show ?thesis using ok n True by (simp add: uniform_ok_def g' spec)
  next
    case False
    then have "seq_res (map (\<lambda>name. res_bind (spec_at us name) (\<lambda>s. Inr (name, s))) ?names) = Inr ks"
      using g(2) spec us by (auto simp: project_group_def Let_def res_simps)
    then have "map fst ks = ?names \<and> set ks \<subseteq> set us" using own_specs_of by (simp only: seq_res_map)
    moreover have "distinct ?names" using dist g(1) by simp
    ultimately show ?thesis using ok n by (auto simp: uniform_ok_def g' spec list_all_iff)
  qed
qed (simp add: uniform_ok_def)

text \<open>All workers take the smallest number of blocks; the tensors only get smaller.\<close>

lemma shrink_fits:
  assumes "shrink_config cfg n c = Inr c'" and fit: "tensors_fit available names c" and n: "0 \<le> n" "n \<le> config_num_blocks c"
  shows "tensors_fit available names c' \<and> config_num_blocks c' = n"
proof -
  let ?old = "config_num_blocks c"
  obtain ts where ts: "list_all2 (\<lambda>t t'. shrink_tensor ?old n t = Inr t') (config_tensors c) ts"
    and c': "c' = c\<lparr>config_num_blocks := n, config_tensors := ts\<rparr>"
    using assms(1) by (auto simp: shrink_config_def Let_def res_simps seq_res_map split: if_splits)
  have one: "0 \<le> tensor_size t' \<and> tensor_size t' \<le> tensor_size t \<and> shared_by t' = shared_by t"
    if "shrink_tensor ?old n t = Inr t'" "0 \<le> tensor_size t" for t t'
  proof -
    have old: "0 < ?old" and t': "t' = t\<lparr>tensor_size := tensor_size t div ?old * n\<rparr>" and m: "tensor_size t mod ?old = 0"
      using that(1) n by (auto simp: shrink_tensor_def res_simps)
    have q: "0 \<le> tensor_size t div ?old" using that(2) old by (simp add: pos_imp_zdiv_nonneg_iff)
    then have "tensor_size t div ?old * n \<le> tensor_size t div ?old * ?old" by (intro mult_left_mono n(2))
    then show ?thesis using q n(1) m by (simp add: t' mod_0_imp_dvd)
  qed
  have "sum_list (map tensor_size ts) \<le> sum_list (map tensor_size (config_tensors c)) \<and>
      map shared_by ts = map shared_by (config_tensors c) \<and> (\<forall>t \<in> set ts. 0 \<le> tensor_size t)"
    if "\<forall>t \<in> set (config_tensors c). 0 \<le> tensor_size t"
    using ts that
  proof (induction rule: list_all2_induct)
    case (Cons t us t' us')
    then show ?case using one [of t t'] by simp
  qed simp
  then show ?thesis using fit n(1) by (auto simp: tensors_fit_def c')
qed

text \<open>One worker, whose layers are a part of the merged ones.\<close>

lemma worker_config_fits:
  assumes m: "merge_worker_specs specs = Inr merged" and g: "get_kv_cache_groups cfg merged = Inr gs"
    and sp: "\<forall>w \<in> set specs. distinct (map fst w) \<and> list_all (spec_sizes_ok \<circ> snd) w"
    and over: "num_gpu_blocks_override cfg' = None" and wi: "w \<in> set specs"
    and pr: "project_kv_cache_groups_to_worker gs w = Inr pr"
    and c: "get_kv_cache_config_from_groups cfg' pr avail = Inr c" and mem: "pr = [] \<or> 0 \<le> avail"
  shows "tensors_fit (max 0 avail) (mset (map fst w)) c"
proof -
  have sizes: "list_all (spec_sizes_ok \<circ> snd) merged" using merge_workers(3) [OF m] sp by (fastforce simp: list_all_iff)
  have part: "mset (concat (map layer_names gs)) = mset (map fst merged)"
    using groups_partition [OF g] by (simp add: partition_of_def)
  then have "distinct (concat (map layer_names gs))"
    using merge_workers(1) [OF m] by (metis mset_eq_imp_distinct_iff)
  from projected_uniform_ok [OF pr groups_with_own_specs [OF g sizes] this] have "uniform_ok pr" .
  then have "tensors_fit (max 0 avail) (mset (concat (map layer_names pr))) c"
    using c mem over by (intro config_fits)
  moreover have "fst ` set w \<subseteq> fst ` set merged" using merge_workers(2) [OF m] wi by auto
  ultimately show ?thesis using projected_layers [OF pr part merge_workers(1) [OF m]] sp wi by simp
qed

text \<open>
  C11. The configurations of all workers fit, when \<open>num_gpu_blocks_override\<close> is not set: the tensors of a
  worker together take no more than its memory, every layer of the worker is in exactly one tensor,
  and all workers get the same number of blocks. With the override the code takes the given number of
  blocks whatever the memory.
\<close>

theorem configs_fit_workers:
  assumes "get_kv_cache_configs cfg specs available = Inr (cfg', cs)" and "num_gpu_blocks_override cfg = None"
    and "\<forall>w \<in> set specs. distinct (map fst w) \<and> list_all (spec_sizes_ok \<circ> snd) w"
  shows "\<forall>i < length cs.
    sum_list (map tensor_size (config_tensors (cs ! i))) \<le> max 0 (available ! i) \<and>
    mset (concat (map shared_by (config_tensors (cs ! i)))) = mset (map fst (specs ! i)) \<and>
    config_num_blocks (cs ! i) = config_num_blocks (cs ! 0)"
proof -
  obtain merged gs projected checks configs where m: "merge_worker_specs specs = Inr merged"
    and g: "get_kv_cache_groups cfg merged = Inr gs"
    and p: "list_all2 (\<lambda>w pr. project_kv_cache_groups_to_worker gs w = Inr pr) specs projected"
    and f: "(if original_max_model_len cfg = -1 then auto_fit_max_model_len cfg projected available else Inr cfg) = Inr cfg'"
    and ch: "list_all2 (\<lambda>(gs, mem) u. (if gs = [] then Inr ()
         else check_memory mem (max_memory_usage_from_groups cfg' gs) (estimate_max_model_len_from_groups cfg' gs)) = Inr u)
         (zip projected available) checks"
    and w: "list_all2 (\<lambda>x c. worker_config cfg' x = Inr c) (zip projected (zip specs available)) configs"
    and s: "list_all2 (\<lambda>c c'. shrink_config cfg' (Min (set (map config_num_blocks configs))) c = Inr c') configs cs"
    using assms(1) unfolding get_kv_cache_configs_def Let_def
    by (auto simp: res_simps seq_res_map split_def)
  have over: "num_gpu_blocks_override cfg' = None"
    using f assms(2) by (auto simp: auto_fit_max_model_len_def res_simps split: if_splits)
  have len: "length cs = length configs" "length configs = min (length projected) (min (length specs) (length available))"
    "length projected = length specs" using s w p by (auto dest: list_all2_lengthD)
  have fits: "tensors_fit (max 0 (available ! i)) (mset (map fst (specs ! i))) (configs ! i)" if i: "i < length configs" for i
  proof (rule worker_config_fits [OF m g _ over])
    show "specs ! i \<in> set specs" "project_kv_cache_groups_to_worker gs (specs ! i) = Inr (projected ! i)"
      using p i len by (auto simp: list_all2_conv_all_nth)
    show "get_kv_cache_config_from_groups cfg' (projected ! i) (available ! i) = Inr (configs ! i)"
      using w i len by (auto simp: list_all2_conv_all_nth worker_config_def res_simps)
    have "(if projected ! i = [] then Inr () else check_memory (available ! i)
        (max_memory_usage_from_groups cfg' (projected ! i)) (estimate_max_model_len_from_groups cfg' (projected ! i))) = Inr (checks ! i)"
      using list_all2_nthD [OF ch, of i] i len by simp
    then show "projected ! i = [] \<or> 0 \<le> available ! i" by (auto simp: check_memory_def res_simps split: if_splits)
  qed (rule assms(3))
  let ?n = "Min (set (map config_num_blocks configs))"
  have shrunk: "tensors_fit (max 0 (available ! i)) (mset (map fst (specs ! i))) (cs ! i) \<and> config_num_blocks (cs ! i) = ?n"
    if i: "i < length configs" for i
  proof (rule shrink_fits [OF _ fits [OF i]])
    show "shrink_config cfg' ?n (configs ! i) = Inr (cs ! i)" using s i by (simp add: list_all2_conv_all_nth)
    show "?n \<le> config_num_blocks (configs ! i)" using i by (intro Min_le) auto
    have "0 \<le> config_num_blocks c" if "c \<in> set configs" for c
      using that fits by (auto simp: in_set_conv_nth tensors_fit_def)
    moreover have "configs \<noteq> []" using i by auto
    ultimately show "0 \<le> ?n" by (intro Min.boundedI) auto
  qed
  show ?thesis
  proof (intro allI impI)
    fix i assume "i < length cs"
    then have "i < length configs" "0 < length configs" using len by auto
    then show "sum_list (map tensor_size (config_tensors (cs ! i))) \<le> max 0 (available ! i) \<and>
        mset (concat (map shared_by (config_tensors (cs ! i)))) = mset (map fst (specs ! i)) \<and>
        config_num_blocks (cs ! i) = config_num_blocks (cs ! 0)"
      using shrunk [of i] shrunk [of 0] by (simp add: tensors_fit_def)
  qed
qed

end
