(* ===== verification/KV_Limits.thy ===== *)
theory KV_Limits
  imports KV_Tensors KV_Cache_Manager
begin

text \<open>
  What the start-up checks let pass, on small models, and how the KV cache manager then fares with the
  number of blocks it is given.
\<close>

section \<open>Two workers\<close>

definition two_stages :: "layer_specs list" where
  "two_stages = [[(''l0'', small_full 2), (''l1'', small_window 2)], [(''l2'', small_full 2), (''l3'', small_window 2)]]"

lemma configs_fit_workers_witness:
  "\<exists>cs. get_kv_cache_configs (small_config 8) two_stages [40, 50] = Inr (small_config 8, cs) \<and>
     map config_num_blocks cs = [10, 10] \<and> sum_list (map tensor_size (config_tensors (cs ! 1))) \<le> 50"
proof -
  let ?w = "\<forall>w \<in> set two_stages. distinct (map fst w) \<and> list_all (spec_sizes_ok \<circ> snd) w"
  have "res_bind (get_kv_cache_configs (small_config 8) two_stages [40, 50]) (\<lambda>(cfg, cs). Inr (cfg, map config_num_blocks cs))
      = Inr (small_config 8, [10, 10])" by code_simp
  then obtain cs where c: "get_kv_cache_configs (small_config 8) two_stages [40, 50] = Inr (small_config 8, cs)"
    "map config_num_blocks cs = [10, 10]" by (auto simp: res_simps)
  have "?w" by (simp add: two_stages_def spec_sizes_ok_def small_full_def small_window_def small_attention_def attention_page_def)
  note fit = configs_fit_workers [OF c(1) _ this]
  have "num_gpu_blocks_override (small_config 8) = None" by (simp add: small_config_def)
  moreover have "length cs = 2" using c(2) by (metis length_map length_Cons list.size(3) numeral_2_eq_2)
  ultimately have "sum_list (map tensor_size (config_tensors (cs ! 1))) \<le> max 0 ([40, 50] ! 1)"
    using fit [rule_format, of 1] by (simp del: nth_Cons_Suc add: numeral_2_eq_2)
  then show ?thesis using c by simp
qed

definition one_group :: "kv_group list" where
  "one_group = [\<lparr>layer_names = [''l0''], group_spec_of = OneSpec (small_full 2)\<rparr>]"

lemma estimate_is_longest_fitting_witness:
  "estimate_max_model_len_from_groups (small_config 100) one_group 30 = Inr 14 \<and>
     (\<exists>v. max_memory_usage_from_groups (small_config 100\<lparr>max_model_len := 14\<rparr>) one_group = Inr v \<and> v \<le> 30) \<and>
     (\<exists>v. max_memory_usage_from_groups (small_config 100\<lparr>max_model_len := 15\<rparr>) one_group = Inr v \<and> 30 < v)"
proof -
  have u: "max_memory_usage_from_groups (small_config 100) one_group = Inr 200" by code_simp
  have e: "estimate_max_model_len_from_groups (small_config 100) one_group 30 = Inr 14" by code_simp
  have "group_sizes_ok one_group"
    by (simp add: group_sizes_ok_def one_group_def spec_sizes_ok_def small_full_def small_attention_def attention_page_def)
  moreover have len: "max_model_len (small_config 100) = 100" by (simp add: small_config_def)
  ultimately have "\<forall>m. 1 \<le> m \<and> m \<le> 100 \<longrightarrow>
      (\<exists>v. max_memory_usage_from_groups (small_config 100\<lparr>max_model_len := m\<rparr>) one_group = Inr v \<and> (v \<le> 30 \<longleftrightarrow> m \<le> 14))"
    using estimate_is_longest_fitting [OF _ u, of 30] e by auto
  from this [rule_format, of 14] this [rule_format, of 15] e show ?thesis by auto
qed

section \<open>More than one group\<close>

text \<open>The spec of a group as the managers of the scheduler see it.\<close>

fun manager_spec :: "layer_spec \<Rightarrow> kv_cache_spec" where
  "manager_spec (FullSpec a f) = \<lparr>spec_block_size = attn_block_size a, spec_kind = FullAttention, spec_layout = []\<rparr>"
| "manager_spec (MLASpec a f c) = \<lparr>spec_block_size = attn_block_size a, spec_kind = MLAAttention, spec_layout = []\<rparr>"
| "manager_spec (SinkSpec a f l) = \<lparr>spec_block_size = attn_block_size a, spec_kind = SinkFullAttention l, spec_layout = []\<rparr>"
| "manager_spec (ChunkedSpec a c) = \<lparr>spec_block_size = attn_block_size a, spec_kind = ChunkedLocalAttention c, spec_layout = []\<rparr>"
| "manager_spec (WindowSpec a w) = \<lparr>spec_block_size = attn_block_size a, spec_kind = SlidingWindow w, spec_layout = []\<rparr>"
| "manager_spec (CrossSpec a) = \<lparr>spec_block_size = attn_block_size a, spec_kind = CrossAttention, spec_layout = []\<rparr>"
| "manager_spec (EncoderOnlySpec a) = \<lparr>spec_block_size = attn_block_size a, spec_kind = FullAttention, spec_layout = []\<rparr>"
| "manager_spec (MambaSpec m) = \<lparr>spec_block_size = mamba_block_size m,
     spec_kind = Mamba (if mamba_mode_field m = ''all'' then MambaAll else if mamba_mode_field m = ''align'' then MambaAlign else MambaNone)
       (mamba_spec_blocks m), spec_layout = []\<rparr>"

definition hybrid_layers :: layer_specs where
  "hybrid_layers = [(''l0'', small_full 2), (''l1'', small_window 2)]"

definition eight_tokens :: request where
  "eight_tokens = sample_request ''a'' [1, 2, 3, 4, 5, 6, 7, 8]"

definition started :: "kv_config \<Rightarrow> int \<Rightarrow> kv_cache_manager res" where
  "started c len =
     init_kv_cache_manager
       (map (\<lambda>g. case group_spec_of g of OneSpec s \<Rightarrow> manager_spec s | UniformTypeSpecs _ ks \<Rightarrow> manager_spec (snd (hd ks)))
         (config_groups c))
       (config_num_blocks c) len 2 False False False False False 1 1"

text \<open>
  The memory check at start-up counts the blocks of one group only. With one full attention layer
  and one sliding window layer, 16 bytes are 4 blocks, as many as the full attention group needs for
  the 8 tokens of the model length, so the check passes; but a request of 8 tokens needs blocks in both
  groups, 9 by the code's own estimate of the concurrency, and a fresh KV cache manager with these
  blocks turns it away: it is never served.
\<close>

theorem hybrid_check_counts_one_group:
  "\<exists>c k r k'. get_kv_cache_configs (small_config 8) [hybrid_layers] [16] = Inr (small_config 8, [c]) \<and>
     config_num_blocks c = 4 \<and> max_concurrency (small_config 8) c = Inr (4, 9) \<and>
     started c 8 = Inr k \<and> allocate_slots sha eight_tokens (default_slots 8) k = Inr (None, r, k')"
proof -
  have "res_bind (get_kv_cache_configs (small_config 8) [hybrid_layers] [16]) (\<lambda>(cfg, cs).
      res_bind (max_concurrency (small_config 8) (hd cs)) (\<lambda>mc.
      res_bind (started (hd cs) 8) (\<lambda>k.
      res_bind (allocate_slots sha eight_tokens (default_slots 8) k) (\<lambda>(r, _, _).
        Inr (cfg = small_config 8, length cs, config_num_blocks (hd cs), mc, r = None))))) = Inr (True, 1, 4, (4, 9), True)"
    by code_simp
  then obtain cs k r k' where "get_kv_cache_configs (small_config 8) [hybrid_layers] [16] = Inr (small_config 8, cs)"
    "length cs = 1" "config_num_blocks (hd cs) = 4" "max_concurrency (small_config 8) (hd cs) = Inr (4, 9)"
    "started (hd cs) 8 = Inr k" "allocate_slots sha eight_tokens (default_slots 8) k = Inr (None, r, k')"
    by (auto simp: res_simps)
  then show ?thesis by (cases cs) auto
qed

text \<open>
  Nor does the check count the null block. With one full attention layer the 16 bytes are again 4
  blocks, the logged concurrency is 1, but only 3 blocks can be used.
\<close>

lemma null_block_not_counted:
  "\<exists>c k r k'. get_kv_cache_configs (small_config 8) [[(''l0'', small_full 2)]] [16] = Inr (small_config 8, [c]) \<and>
     config_num_blocks c = 4 \<and> max_concurrency (small_config 8) c = Inr (4, 4) \<and>
     started c 8 = Inr k \<and> allocate_slots sha eight_tokens (default_slots 8) k = Inr (None, r, k')"
proof -
  have "res_bind (get_kv_cache_configs (small_config 8) [[(''l0'', small_full 2)]] [16]) (\<lambda>(cfg, cs).
      res_bind (max_concurrency (small_config 8) (hd cs)) (\<lambda>mc.
      res_bind (started (hd cs) 8) (\<lambda>k.
      res_bind (allocate_slots sha eight_tokens (default_slots 8) k) (\<lambda>(r, _, _).
        Inr (cfg = small_config 8, length cs, config_num_blocks (hd cs), mc, r = None))))) = Inr (True, 1, 4, (4, 4), True)"
    by code_simp
  then obtain cs k r k' where "get_kv_cache_configs (small_config 8) [[(''l0'', small_full 2)]] [16] = Inr (small_config 8, cs)"
    "length cs = 1" "config_num_blocks (hd cs) = 4" "max_concurrency (small_config 8) (hd cs) = Inr (4, 4)"
    "started (hd cs) 8 = Inr k" "allocate_slots sha eight_tokens (default_slots 8) k = Inr (None, r, k')"
    by (auto simp: res_simps)
  then show ?thesis by (cases cs) auto
qed

section \<open>Layers that do not fit together\<close>

text \<open>
  Merging compares the fields of \<open>AttentionSpec\<close>, so not the size of the heads of the values: two full
  attention layers that differ in it become one group with the pages of the first, and the tensor of
  the second is too small for its blocks.
\<close>

definition wide_values :: layer_spec where
  "wide_values = FullSpec (small_attention 2) \<lparr>head_size_v = 3, full_window = None, full_chunk = None\<rparr>"

lemma merge_ignores_value_heads:
  "res_bind (get_kv_cache_configs (small_config 8) [[(''l0'', small_full 2), (''l1'', wide_values)]] [80]) (\<lambda>(_, cs).
     Inr (map config_num_blocks cs, map (map tensor_size \<circ> config_tensors) cs)) = Inr ([10], [[40, 40]])"
  "page_size_bytes wide_values = Inr 8"
  by code_simp+

text \<open>
  Pages that cannot be made equal raise \<open>AssertionError\<close> when the page does not depend on the block size
  or is padded, not the documented \<open>NotImplementedError\<close>.
\<close>

definition small_mamba :: layer_spec where
  "small_mamba = MambaSpec \<lparr>mamba_block_size = 2, mamba_shapes = [[2]], mamba_dtypes = [Dtype ''int8'' 1],
     mamba_page_padded = None, mamba_type = ''mamba2'', mamba_mode_field = ''none'', mamba_spec_blocks = 0\<rparr>"

lemma mamba_page_not_unified:
  "unify_kv_cache_spec_page_size [(''l0'', small_full 2), (''l1'', small_mamba)] = Inl AssertionError"
  by code_simp

text \<open>
  Without the hybrid manager, sliding window layers become full attention layers that record their
  window. Two different windows make the merge raise \<open>ValueError\<close>, although \<open>is_uniform_type\<close>, which is
  not asked any more, accepts the layers.
\<close>

definition two_windows :: layer_specs where
  "two_windows = [(''l0'', small_full 2), (''l1'', WindowSpec (small_attention 2) 4), (''l2'', WindowSpec (small_attention 2) 6)]"

lemma two_windows_not_unified:
  "unify_hybrid_kv_cache_specs two_windows = Inl ValueError \<and>
   is_kv_cache_spec_uniform (map (\<lambda>(n, s). (n, as_full_attention s)) two_windows) = Inl ValueError \<and>
   is_uniform_type (map (\<lambda>(n, s). (n, as_full_attention s)) two_windows) = Inr True"
  by code_simp

end
