(* ===== verification/Sched_Output.thy ===== *)
theory Sched_Output
  imports KV_Cache_Manager
begin

text \<open>
  What the scheduler exchanges with the workers and the front end: its output for a step
  (\<^verbatim>\<open>vllm/v1/core/sched/output.py\<close>), the part of the model runner's output that it reads
  (\<^verbatim>\<open>vllm/v1/outputs.py\<close>) and the outputs per request (\<^verbatim>\<open>vllm/v1/engine/__init__.py\<close>). Sets are
  lists of their elements; metadata of connectors, log probabilities, events and statistics are
  left out.
\<close>

section \<open>From the scheduler to the workers\<close>

record new_request_data =
  nrd_req_id :: req_id
  nrd_prompt_token_ids :: "token list option"
  nrd_mm_features :: "mm_feature list"
  nrd_sampling_params :: "sampling_params option"
  nrd_pooling_params :: "pooling_params option"
  nrd_block_ids :: "nat list list option"
  nrd_num_computed_tokens :: int
  nrd_lora_request :: "lora_request option"
  nrd_prompt_embeds :: "byte list list option"
  nrd_prefill_token_ids :: "token list option"

record cached_request_data =
  crd_req_ids :: "req_id list"
  crd_resumed_req_ids :: "req_id list"
  crd_new_token_ids :: "token list list"
  crd_all_token_ids :: "(req_id \<times> token list) list"
  crd_new_block_ids :: "nat list list option list"
  crd_num_computed_tokens :: "int list"
  crd_num_output_tokens :: "int list"

record scheduler_output =
  so_new_reqs :: "new_request_data list"
  so_cached_reqs :: cached_request_data
  so_num_scheduled_tokens :: "(req_id \<times> int) list"
  so_total_num_scheduled_tokens :: int
  so_spec_decode_tokens :: "(req_id \<times> token list) list"
  so_encoder_inputs :: "(req_id \<times> int list) list"
  so_num_common_prefix_blocks :: "int list"
  so_finished_req_ids :: "req_id list"
  so_free_encoder_mm_hashes :: "string list"
  so_preempted_req_ids :: "req_id list"
  so_has_structured_output :: bool
  so_pending_structured_output :: bool
  so_num_invalid_spec_tokens :: "(req_id \<times> int) list option"
  so_new_block_ids_to_zero :: "nat list option"

definition new_request_data_from ::
  "request \<Rightarrow> nat list list option \<Rightarrow> token list option \<Rightarrow> new_request_data" where
  "new_request_data_from r block_ids prefill =
     \<lparr>nrd_req_id = request_id r, nrd_prompt_token_ids = prompt_token_ids r,
      nrd_mm_features = mm_features r, nrd_sampling_params = sampling_params r,
      nrd_pooling_params = pooling_params r, nrd_block_ids = block_ids,
      nrd_num_computed_tokens = num_computed_tokens r, nrd_lora_request = lora_request r,
      nrd_prompt_embeds = prompt_embeds r, nrd_prefill_token_ids = prefill\<rparr>"

section \<open>From the workers to the scheduler\<close>

record kv_connector_output =
  ko_finished_sending :: "req_id list"
  ko_finished_recving :: "req_id list"
  ko_invalid_block_ids :: "int list"

text \<open>
  A pooling output is opaque; of the log probabilities of the prompt only the requests that have
  them are kept.
\<close>

record model_runner_output =
  mo_req_id_to_index :: "(req_id \<times> int) list"
  mo_sampled_token_ids :: "token list list"
  mo_pooler_output :: "string option list"
  mo_prompt_logprobs :: "req_id list"
  mo_kv_connector_output :: "kv_connector_output option"

record draft_token_ids =
  dt_req_ids :: "req_id list"
  dt_draft_token_ids :: "token list list"

section \<open>To the front end\<close>

text \<open>The transfer parameters of a KV connector, a dict of opaque values.\<close>

type_synonym kv_transfer_params = "(string \<times> string) list option"

record engine_core_output =
  eco_request_id :: req_id
  eco_new_token_ids :: "token list"
  eco_pooling_output :: "string option"
  eco_finish_reason :: "finish_reason option"
  eco_stop_reason :: "stop_reason option"
  eco_kv_transfer_params :: kv_transfer_params
  eco_num_cached_tokens :: int
  eco_num_external_computed_tokens :: int

record engine_core_outputs =
  ecos_outputs :: "engine_core_output list"
  ecos_finished_requests :: "req_id list option"

end
