(* ===== verification/Heapq.thy ===== *)
theory Heapq
  imports Prelude
begin

text \<open>
  Python's \<open>heapq\<close> on a list, with the comparison \<open>lt\<close> of the elements as an argument:
  \<open>sift_down\<close> and \<open>sift_up\<close> move a hole through the list as the library does (\<open>_siftdown\<close>,
  \<open>_siftup\<close>), \<open>heappush\<close>, \<open>heappop\<close> and \<open>heapify\<close> are built from them. The locale
  \<open>heap_order\<close> states what the comparison must satisfy; inside it the operations are shown to
  keep the heap property and the multiset of the elements, and popping until the heap is empty
  to give the elements in order.
\<close>

section \<open>Operations\<close>

function sift_down :: "('a \<Rightarrow> 'a \<Rightarrow> bool) \<Rightarrow> nat \<Rightarrow> nat \<Rightarrow> 'a \<Rightarrow> 'a list \<Rightarrow> 'a list" where
  "sift_down lt start pos x xs =
     (if start < pos then
        (let parent = (pos - 1) div 2 in
         if lt x (xs ! parent) then sift_down lt start parent x (xs[pos := xs ! parent])
         else xs[pos := x])
      else xs[pos := x])"
  by pat_completeness auto
termination by (relation "measure (\<lambda>(lt, start, pos, x, xs). pos)") auto

definition smaller_child :: "('a \<Rightarrow> 'a \<Rightarrow> bool) \<Rightarrow> nat \<Rightarrow> 'a list \<Rightarrow> nat" where
  "smaller_child lt pos xs =
     (let c = 2 * pos + 1; r = c + 1 in
      if r < length xs \<and> \<not> lt (xs ! c) (xs ! r) then r else c)"

lemma smaller_child_bounds: "pos < smaller_child lt pos xs" "smaller_child lt pos xs \<le> 2 * pos + 2"
  by (auto simp: smaller_child_def Let_def)

text \<open>The hole moves to a leaf; the result is its final position and the list.\<close>

function sink_hole :: "('a \<Rightarrow> 'a \<Rightarrow> bool) \<Rightarrow> nat \<Rightarrow> 'a list \<Rightarrow> nat \<times> 'a list" where
  "sink_hole lt pos xs =
     (if 2 * pos + 1 < length xs then
        (let c = smaller_child lt pos xs in sink_hole lt c (xs[pos := xs ! c]))
      else (pos, xs))"
  by pat_completeness auto
termination
proof (relation "measure (\<lambda>(lt, pos, xs). length xs - pos)")
  fix lt :: "'a \<Rightarrow> 'a \<Rightarrow> bool" and pos :: nat and xs :: "'a list" and c
  assume "2 * pos + 1 < length xs" and "c = smaller_child lt pos xs"
  then show "((lt, c, xs[pos := xs ! c]), lt, pos, xs) \<in> measure (\<lambda>(lt, pos, xs). length xs - pos)"
    using smaller_child_bounds(1) [of pos lt xs] by auto
qed auto

declare sift_down.simps [simp del] sink_hole.simps [simp del]

definition sift_up :: "('a \<Rightarrow> 'a \<Rightarrow> bool) \<Rightarrow> nat \<Rightarrow> 'a list \<Rightarrow> 'a list" where
  "sift_up lt pos xs =
     (let x = xs ! pos; (p, ys) = sink_hole lt pos xs in sift_down lt pos p x (ys[p := x]))"

definition heappush :: "('a \<Rightarrow> 'a \<Rightarrow> bool) \<Rightarrow> 'a \<Rightarrow> 'a list \<Rightarrow> 'a list" where
  "heappush lt x xs = sift_down lt 0 (length xs) x (xs @ [x])"

definition heappop :: "('a \<Rightarrow> 'a \<Rightarrow> bool) \<Rightarrow> 'a list \<Rightarrow> ('a \<times> 'a list) res" where
  "heappop lt xs =
     (if xs = [] then Inl IndexError
      else if butlast xs = [] then Inr (last xs, [])
      else Inr (butlast xs ! 0, sift_up lt 0 ((butlast xs)[0 := last xs])))"

definition heapify :: "('a \<Rightarrow> 'a \<Rightarrow> bool) \<Rightarrow> 'a list \<Rightarrow> 'a list" where
  "heapify lt xs = fold (sift_up lt) (rev [0..<length xs div 2]) xs"

section \<open>Contents\<close>

lemma length_sift_down [simp]: "length (sift_down lt s p x xs) = length xs"
  by (induction lt s p x xs rule: sift_down.induct) (subst sift_down.simps, simp add: Let_def)

lemma mset_move:
  assumes "h < length xs" "c < length xs"
  shows "mset ((xs[h := xs ! c])[c := x]) = mset (xs[h := x])"
proof (cases "h = c")
  case True
  then show ?thesis by simp
next
  case False
  then show ?thesis
    using mset_swap [of c "xs[h := x]" h] assms by (simp add: list_update_swap)
qed

lemma mset_sift_down:
  "p < length xs \<Longrightarrow> mset (sift_down lt s p x xs) = mset (xs[p := x])"
proof (induction lt s p x xs rule: sift_down.induct)
  case (1 lt s p x xs)
  let ?q = "(p - 1) div 2"
  have q: "?q < length xs" using 1(2) by linarith
  show ?case
  proof (cases "s < p \<and> lt x (xs ! ?q)")
    case True
    then have "mset (sift_down lt s p x xs) = mset ((xs[p := xs ! ?q])[?q := x])"
      using 1(1) [OF _ refl] q by (subst sift_down.simps) (simp add: Let_def)
    then show ?thesis using mset_move [OF 1(2) q] by simp
  next
    case False
    then show ?thesis by (subst sift_down.simps) (auto simp: Let_def)
  qed
qed

lemma smaller_child_less: "2 * p + 1 < length xs \<Longrightarrow> smaller_child lt p xs < length xs"
  by (auto simp: smaller_child_def Let_def)

lemma sink_hole_shape:
  assumes "p < length xs" and "sink_hole lt p xs = (q, ys)"
  shows "length ys = length xs \<and> q < length xs \<and> length xs \<le> 2 * q + 1
    \<and> mset (ys[q := x]) = mset (xs[p := x])"
  using assms
proof (induction lt p xs rule: sink_hole.induct)
  case (1 lt p xs)
  let ?c = "smaller_child lt p xs"
  show ?case
  proof (cases "2 * p + 1 < length xs")
    case True
    note c = smaller_child_less [OF True, of lt]
    have "sink_hole lt ?c (xs[p := xs ! ?c]) = (q, ys)"
      using 1(3) True by (subst (asm) sink_hole.simps) (simp add: Let_def)
    from 1(1) [OF True refl _ this] c show ?thesis
      using mset_move [OF 1(2) c, of x] by simp
  next
    case False
    then show ?thesis using 1(2,3) by (subst (asm) sink_hole.simps) (auto simp: Let_def)
  qed
qed

lemma sift_up_contents:
  assumes "p < length xs"
  shows "mset (sift_up lt p xs) = mset xs" "length (sift_up lt p xs) = length xs"
proof -
  obtain q ys where q: "sink_hole lt p xs = (q, ys)" by fastforce
  from sink_hole_shape [OF assms q, of "xs ! p"]
  have "length ys = length xs" "q < length xs" "mset (ys[q := xs ! p]) = mset xs" by auto
  then show "mset (sift_up lt p xs) = mset xs" "length (sift_up lt p xs) = length xs"
    by (simp_all add: sift_up_def q mset_sift_down Let_def)
qed

lemma mset_heappush [simp]: "mset (heappush lt x xs) = add_mset x (mset xs)"
  by (simp add: heappush_def mset_sift_down)

lemma length_heappush [simp]: "length (heappush lt x xs) = Suc (length xs)"
  by (simp add: heappush_def)

lemma heappop_contents:
  assumes "heappop lt xs = Inr (x, ys)"
  shows "mset xs = add_mset x (mset ys)" "length xs = Suc (length ys)" "x = xs ! 0"
proof -
  have ne: "xs \<noteq> []" using assms by (auto simp: heappop_def)
  then obtain b l where xs: "xs = b @ [l]" by (cases xs rule: rev_cases) simp_all
  have "mset xs = add_mset x (mset ys) \<and> x = xs ! 0"
  proof (cases b)
    case Nil
    then show ?thesis using assms by (simp add: heappop_def xs)
  next
    case (Cons a b')
    then have y: "x = a" "ys = sift_up lt 0 (b[0 := l])"
      using assms by (simp_all add: heappop_def xs)
    have "mset ys = mset (b[0 := l])"
      unfolding y(2) by (rule sift_up_contents) (simp add: Cons)
    then show ?thesis by (simp add: xs Cons y(1))
  qed
  then show "x = xs ! 0" and m: "mset xs = add_mset x (mset ys)" by blast+
  show "length xs = Suc (length ys)"
    using arg_cong [OF m, of size] by simp
qed

lemma heappop_total: "xs \<noteq> [] \<Longrightarrow> \<exists>ys. heappop lt xs = Inr (xs ! 0, ys)"
  using heappop_contents(3) [of lt xs] by (auto simp: heappop_def nth_butlast)

lemma heapify_contents: "mset (heapify lt xs) = mset xs \<and> length (heapify lt xs) = length xs"
proof -
  have "mset (fold (sift_up lt) is ys) = mset ys \<and> length (fold (sift_up lt) is ys) = length ys"
    if "\<forall>i \<in> set is. i < length ys" for "is" ys
    using that by (induction "is" arbitrary: ys) (simp_all add: sift_up_contents)
  moreover have "\<forall>i \<in> set (rev [0..<length xs div 2]). i < length xs" by auto
  ultimately show ?thesis unfolding heapify_def by blast
qed

section \<open>The heap property\<close>

text \<open>
  \<open>heap_from lt s xs\<close>: every element whose parent is at \<open>s\<close> or later is not smaller than its
  parent. \<open>below s p\<close>: \<open>p\<close> is in the subtree of \<open>s\<close>.
\<close>

definition heap_from :: "('a \<Rightarrow> 'a \<Rightarrow> bool) \<Rightarrow> nat \<Rightarrow> 'a list \<Rightarrow> bool" where
  "heap_from lt s xs \<longleftrightarrow>
     (\<forall>i < length xs. 0 < i \<and> s \<le> (i - 1) div 2 \<longrightarrow> \<not> lt (xs ! i) (xs ! ((i - 1) div 2)))"

inductive below :: "nat \<Rightarrow> nat \<Rightarrow> bool" for s where
  below_refl [intro]: "below s s"
| below_child: "below s p \<Longrightarrow> (c - 1) div 2 = p \<Longrightarrow> 0 < c \<Longrightarrow> below s c"

lemma below_le: "below s p \<Longrightarrow> s \<le> p"
  by (induction rule: below.induct) auto

lemma below_parent: "below s p \<Longrightarrow> s < p \<Longrightarrow> below s ((p - 1) div 2)"
  by (cases rule: below.cases) auto

lemma heap_fromD:
  "heap_from lt s xs \<Longrightarrow> i < length xs \<Longrightarrow> 0 < i \<Longrightarrow> s \<le> (i - 1) div 2 \<Longrightarrow>
     \<not> lt (xs ! i) (xs ! ((i - 1) div 2))"
  by (simp add: heap_from_def)

lemma heap_fromI:
  "(\<And>i. i < length xs \<Longrightarrow> 0 < i \<Longrightarrow> s \<le> (i - 1) div 2 \<Longrightarrow>
     \<not> lt (xs ! i) (xs ! ((i - 1) div 2))) \<Longrightarrow> heap_from lt s xs"
  by (simp add: heap_from_def)

locale heap_order =
  fixes lt :: "'a \<Rightarrow> 'a \<Rightarrow> bool"
  assumes not_less_trans: "\<not> lt b a \<Longrightarrow> \<not> lt c b \<Longrightarrow> \<not> lt c a"
    and less_asym: "lt a b \<Longrightarrow> \<not> lt b a"
begin

lemma less_irrefl [simp]: "\<not> lt a a"
  using less_asym by blast

text \<open>
  The invariant of \<open>sift_down\<close> at the hole \<open>p\<close>: with \<open>x\<close> in the hole only the edge from the
  parent of \<open>p\<close> to \<open>p\<close> may be wrong, and the children of \<open>p\<close> are not smaller than its parent.
\<close>

definition hole_ok :: "nat \<Rightarrow> nat \<Rightarrow> 'a \<Rightarrow> 'a list \<Rightarrow> bool" where
  "hole_ok s p x xs \<longleftrightarrow> p < length xs \<and> below s p
     \<and> (\<forall>i < length xs. 0 < i \<and> s \<le> (i - 1) div 2 \<and> i \<noteq> p \<longrightarrow>
          \<not> lt (xs[p := x] ! i) (xs[p := x] ! ((i - 1) div 2)))
     \<and> (\<forall>i < length xs. 0 < i \<and> (i - 1) div 2 = p \<and> s < p \<longrightarrow>
          \<not> lt (xs ! i) (xs ! ((p - 1) div 2)))"

lemma hole_okD:
  assumes "hole_ok s p x xs"
  shows "p < length xs" "below s p"
    "\<And>i. i < length xs \<Longrightarrow> 0 < i \<Longrightarrow> s \<le> (i - 1) div 2 \<Longrightarrow> i \<noteq> p \<Longrightarrow>
       \<not> lt (xs[p := x] ! i) (xs[p := x] ! ((i - 1) div 2))"
    "\<And>i. i < length xs \<Longrightarrow> 0 < i \<Longrightarrow> (i - 1) div 2 = p \<Longrightarrow> s < p \<Longrightarrow>
       \<not> lt (xs ! i) (xs ! ((p - 1) div 2))"
  using assms unfolding hole_ok_def by blast+

lemma hole_at_leaf:
  assumes "p < length xs" "below s p" "xs ! p = x"
    and "\<And>i. i < length xs \<Longrightarrow> 0 < i \<Longrightarrow> s \<le> (i - 1) div 2 \<Longrightarrow> i \<noteq> p \<Longrightarrow>
       \<not> lt (xs ! i) (xs ! ((i - 1) div 2))"
    and "\<And>i. i < length xs \<Longrightarrow> 0 < i \<Longrightarrow> (i - 1) div 2 \<noteq> p"
  shows "hole_ok s p x xs"
proof -
  have "xs[p := x] = xs" using assms(3) by auto
  then show ?thesis unfolding hole_ok_def using assms(1,2,4,5) by presburger
qed

lemma hole_step:
  assumes h: "hole_ok s p x xs" and sp: "s < p" and q_def: "q = (p - 1) div 2"
    and lt: "lt x (xs ! q)"
  shows "hole_ok s q x (xs[p := xs ! q])"
proof -
  let ?ys = "xs[p := xs ! q]"
  note H = hole_okD [OF h]
  have qp: "q < p" "q \<noteq> p" using sp q_def by linarith+
  have ql: "q < length xs" using qp H(1) by linarith
  have bq: "below s q" unfolding q_def by (rule below_parent [OF H(2) sp])
  have sq: "s \<le> q" by (rule below_le [OF bq])
  have new: "?ys[q := x] ! i = (if i = q then x else if i = p then xs ! q else xs ! i)"
    "xs[p := x] ! i = (if i = p then x else xs ! i)" if "i < length xs" for i
    using that H(1) ql by (simp_all add: nth_list_update)
  have edge: "\<not> lt (?ys[q := x] ! i) (?ys[q := x] ! j)"
    if i: "i < length xs" "0 < i" "s \<le> j" "i \<noteq> q" and j: "j = (i - 1) div 2" for i j
  proof -
    have jl: "j < length xs" using i j by linarith
    have e: "\<not> lt (xs[p := x] ! i) (xs[p := x] ! j)" if "i \<noteq> p"
      using H(3) [OF i(1,2) _ that] i(3) unfolding j .
    have xq: "\<not> lt (xs ! q) x" by (rule less_asym [OF lt])
    consider "i = p" | "i \<noteq> p" "j = p" | "i \<noteq> p" "j \<noteq> p" by blast
    then show ?thesis
    proof cases
      case 1
      then have "j = q" using j q_def by simp
      then show ?thesis unfolding new [OF i(1)] new [OF jl] using 1 qp xq by auto
    next
      case 2
      have "\<not> lt (xs ! i) (xs ! q)" using H(4) [OF i(1,2) _ sp] 2 j unfolding q_def by blast
      then show ?thesis unfolding new [OF i(1)] new [OF jl] using 2 qp i(4) by auto
    next
      case 3
      have a: "\<not> lt (xs ! i) (xs ! j)" using e [OF 3(1)] 3 unfolding new [OF i(1)] new [OF jl] by simp
      have "\<not> lt (xs ! i) x" if "j = q" using not_less_trans [OF xq] a that by blast
      then show ?thesis unfolding new [OF i(1)] new [OF jl] using 3 a i(4) by auto
    qed
  qed
  have grand: "\<not> lt (?ys ! i) (?ys ! r)"
    if i: "i < length xs" "0 < i" "(i - 1) div 2 = q" "s < q" and r_def: "r = (q - 1) div 2" for i r
  proof -
    have r: "r < q" "s \<le> r"
      using i(4) below_le [OF below_parent [OF bq i(4)]] unfolding r_def by linarith+
    have up: "\<not> lt (xs ! q) (xs ! r)"
      using H(3) [OF ql] r qp i(4) H(1) ql unfolding r_def by simp
    have c: "\<not> lt (xs ! i) (xs ! q)" if "i \<noteq> p"
      using H(3) [OF i(1,2) _ that] that sq qp i(1,3) by simp
    show ?thesis
    proof (cases "i = p")
      case True
      then show ?thesis using up r qp H(1) by simp
    next
      case False
      have "\<not> lt (xs ! i) (xs ! r)" by (rule not_less_trans [OF up c [OF False]])
      then show ?thesis using False r qp by simp
    qed
  qed
  show ?thesis unfolding hole_ok_def
    using ql bq edge grand by simp
qed

lemma sift_down_heap:
  "hole_ok s p x xs \<Longrightarrow> heap_from lt s (sift_down lt s p x xs)"
proof (induction p arbitrary: xs rule: less_induct)
  case (less p)
  let ?q = "(p - 1) div 2"
  note H = hole_okD [OF less.prems]
  show ?case
  proof (cases "s < p \<and> lt x (xs ! ?q)")
    case True
    then have "heap_from lt s (sift_down lt s ?q x (xs[p := xs ! ?q]))"
      using less.IH [OF _ hole_step [OF less.prems _ refl]] by auto
    then show ?thesis using True by (subst sift_down.simps) (simp add: Let_def)
  next
    case False
    then have eq: "sift_down lt s p x xs = xs[p := x]"
      by (subst sift_down.simps) (auto simp: Let_def)
    have "\<not> lt (xs[p := x] ! i) (xs[p := x] ! ((i - 1) div 2))"
      if i: "i < length xs" "0 < i" "s \<le> (i - 1) div 2" for i
    proof (cases "i = p")
      case True
      then have "s < p" using i by linarith
      then show ?thesis using False True i by (simp add: nth_list_update)
    next
      case ne: False
      then show ?thesis using H(3) i by blast
    qed
    then show ?thesis unfolding eq by (intro heap_fromI) simp
  qed
qed

text \<open>
  The invariant of \<open>sink_hole\<close>: the list with the stale element in the hole is a heap from \<open>s\<close>
  on, except that before the first move only the part after \<open>s\<close> is one.
\<close>

lemma smaller_child_edges:
  assumes "2 * p + 1 < length xs" "c = smaller_child lt p xs"
  shows "(c - 1) div 2 = p" "p < c" "c < length xs"
    "\<And>i. i < length xs \<Longrightarrow> 0 < i \<Longrightarrow> (i - 1) div 2 = p \<Longrightarrow> \<not> lt (xs ! i) (xs ! c)"
proof -
  show "(c - 1) div 2 = p" "p < c" "c < length xs"
    using assms by (auto simp: smaller_child_def Let_def)
  fix i assume i: "i < length xs" "0 < i" "(i - 1) div 2 = p"
  let ?l = "2 * p + 1" and ?r = "2 * p + 1 + 1"
  have c: "c = (if ?r < length xs \<and> \<not> lt (xs ! ?l) (xs ! ?r) then ?r else ?l)"
    unfolding assms(2) smaller_child_def Let_def ..
  consider "i = ?l" | "i = ?r" using i by linarith
  then show "\<not> lt (xs ! i) (xs ! c)"
  proof cases
    case 1
    then show ?thesis unfolding c by simp
  next
    case 2
    have "\<not> lt (xs ! ?r) (xs ! ?l)" if "lt (xs ! ?l) (xs ! ?r)" by (rule less_asym [OF that])
    then show ?thesis unfolding c using 2 i(1) by (cases "lt (xs ! ?l) (xs ! ?r)") simp_all
  qed
qed

lemma sink_step:
  assumes p: "2 * p + 1 < length xs" "below s p" and c: "c = smaller_child lt p xs"
    and h: "p = s \<and> heap_from lt (Suc s) xs \<or> heap_from lt s xs"
  shows "heap_from lt s (xs[p := xs ! c])"
proof (rule heap_fromI)
  note E = smaller_child_edges [OF p(1) c]
  let ?ys = "xs[p := xs ! c]"
  have S: "heap_from lt (Suc s) xs" using h by (auto simp: heap_from_def)
  fix i assume i: "i < length ?ys" "0 < i" "s \<le> (i - 1) div 2"
  show "\<not> lt (?ys ! i) (?ys ! ((i - 1) div 2))"
  proof (cases "(i - 1) div 2 = p")
    case True
    then have "i \<noteq> p" using i by linarith
    then show ?thesis using E(4) [OF _ i(2) True] i(1) True p by (simp add: nth_list_update)
  next
    case np: False
    show ?thesis
    proof (cases "i = p")
      case True
      then have "s < p" using i by linarith
      then have "\<not> lt (xs ! p) (xs ! ((p - 1) div 2))" using h i True by (auto dest!: heap_fromD)
      moreover have "\<not> lt (xs ! c) (xs ! p)"
        using heap_fromD [OF S E(3)] E(1,2) \<open>s < p\<close> by simp
      ultimately have "\<not> lt (xs ! c) (xs ! ((p - 1) div 2))" using not_less_trans by blast
      then show ?thesis using True i np by (simp add: nth_list_update)
    next
      case False
      have "p \<noteq> s \<or> heap_from lt s xs \<or> Suc s \<le> (i - 1) div 2" using np i by linarith
      then have "\<not> lt (xs ! i) (xs ! ((i - 1) div 2))"
        using h i heap_fromD by (metis length_list_update)
      then show ?thesis using np False i by (simp add: nth_list_update)
    qed
  qed
qed

lemma sink_hole_heap:
  assumes "below s p" "p < length xs" "sink_hole lt p xs = (q, ys)"
    and "p = s \<and> heap_from lt (Suc s) xs \<or> heap_from lt s xs"
  shows "below s q \<and> (q = s \<and> heap_from lt (Suc s) ys \<or> heap_from lt s ys)"
  using assms
proof (induction "length xs - p" arbitrary: p xs rule: less_induct)
  case less
  let ?c = "smaller_child lt p xs"
  show ?case
  proof (cases "2 * p + 1 < length xs")
    case True
    note E = smaller_child_edges [OF True refl]
    let ?ys = "xs[p := xs ! ?c]"
    have b: "below s ?c" by (rule below_child [OF less.prems(1) E(1)]) (use E(2) in linarith)
    have m: "length ?ys - ?c < length xs - p" using E(2) True by simp
    have cl: "?c < length ?ys" using E(3) by simp
    have "sink_hole lt ?c ?ys = (q, ys)"
      using less.prems(3) True by (subst (asm) sink_hole.simps) (simp add: Let_def)
    from less.hyps [OF m b cl this disjI2 [OF sink_step [OF True less.prems(1) refl less.prems(4)]]]
    show ?thesis .
  next
    case False
    then have "q = p" "ys = xs"
      using less.prems(3) by (subst (asm) sink_hole.simps, simp add: Let_def)+
    then show ?thesis using less.prems(1,4) by blast
  qed
qed

lemma sift_up_heap:
  assumes s: "s < length xs" and h: "heap_from lt (Suc s) xs"
  shows "heap_from lt s (sift_up lt s xs)"
proof -
  obtain q ys where q: "sink_hole lt s xs = (q, ys)" by fastforce
  from sink_hole_shape [OF s q] have shape: "length ys = length xs" "q < length xs"
    "length xs \<le> 2 * q + 1" by auto
  from sink_hole_heap [OF _ s q] h have b: "below s q"
    and hp: "q = s \<and> heap_from lt (Suc s) ys \<or> heap_from lt s ys" by auto
  let ?x = "xs ! s"
  let ?zs = "ys[q := ?x]"
  have leaf: "(i - 1) div 2 \<noteq> q" if "i < length xs" "0 < i" for i
    using that shape(3) by linarith
  have "\<not> lt (?zs ! i) (?zs ! ((i - 1) div 2))"
    if i: "i < length ys" "0 < i" "s \<le> (i - 1) div 2" "i \<noteq> q" for i
  proof -
    have "q \<noteq> s \<or> Suc s \<le> (i - 1) div 2" using leaf [of i] i shape(1) by force
    then have "\<not> lt (ys ! i) (ys ! ((i - 1) div 2))"
      using hp heap_fromD i by metis
    then show ?thesis using leaf [of i] i shape by (simp add: nth_list_update)
  qed
  moreover have "\<not> ((i - 1) div 2 = q)" if "i < length ys" "0 < i" for i
    using leaf that shape(1) by simp
  ultimately have "hole_ok s q ?x ?zs" using shape b by (intro hole_at_leaf) simp_all
  from sift_down_heap [OF this] show ?thesis by (simp add: sift_up_def q Let_def)
qed

section \<open>The operations on heaps\<close>

lemma heappush_heap:
  assumes "heap_from lt 0 xs"
  shows "heap_from lt 0 (heappush lt x xs)"
proof -
  let ?p = "length xs"
  have par: "(i - 1) div 2 < ?p" if "i < Suc ?p" "0 < i" for i using that by linarith
  have root: "below 0 i" for i
  proof (induction i rule: less_induct)
    case (less i)
    show ?case
    proof (cases "i = 0")
      case False
      then have "(i - 1) div 2 < i" by linarith
      from below_child [OF less [OF this] refl] False show ?thesis by simp
    qed auto
  qed
  have "\<not> lt ((xs @ [x]) ! i) ((xs @ [x]) ! ((i - 1) div 2))"
    if i: "i < length (xs @ [x])" "0 < i" "i \<noteq> ?p" for i
    using heap_fromD [OF assms, of i] par [of i] i by (auto simp: nth_append)
  moreover have "(i - 1) div 2 \<noteq> ?p" if "i < length (xs @ [x])" "0 < i" for i
    using par [of i] that by simp
  ultimately have "hole_ok 0 ?p x (xs @ [x])" by (intro hole_at_leaf root) simp_all
  from sift_down_heap [OF this] show ?thesis by (simp add: heappush_def)
qed

lemma root_least:
  assumes "heap_from lt 0 xs" and "i < length xs"
  shows "\<not> lt (xs ! i) (xs ! 0)"
  using assms(2)
proof (induction i rule: less_induct)
  case (less i)
  show ?case
  proof (cases "i = 0")
    case False
    then have p: "(i - 1) div 2 < i" by linarith
    then have "\<not> lt (xs ! ((i - 1) div 2)) (xs ! 0)" using less by simp
    moreover have "\<not> lt (xs ! i) (xs ! ((i - 1) div 2))"
      using heap_fromD [OF assms(1) less.prems] False by simp
    ultimately show ?thesis using not_less_trans by blast
  qed simp
qed

lemma heappop_heap:
  assumes h: "heap_from lt 0 xs" and pop: "heappop lt xs = Inr (x, ys)"
  shows "heap_from lt 0 ys" and "\<And>y. y \<in> set ys \<Longrightarrow> \<not> lt y x"
proof -
  have ne: "xs \<noteq> []" using pop by (auto simp: heappop_def)
  let ?b = "butlast xs"
  show "heap_from lt 0 ys"
  proof (cases "?b = []")
    case True
    then show ?thesis using pop ne by (auto simp: heappop_def heap_from_def)
  next
    case False
    then have y: "ys = sift_up lt 0 (?b[0 := last xs])" using pop ne by (auto simp: heappop_def)
    have "heap_from lt (Suc 0) (?b[0 := last xs])"
    proof (rule heap_fromI)
      fix i assume i: "i < length (?b[0 := last xs])" "0 < i" "Suc 0 \<le> (i - 1) div 2"
      then have "(i - 1) div 2 < length ?b" "(i - 1) div 2 \<noteq> 0" by auto
      then show "\<not> lt (?b[0 := last xs] ! i) (?b[0 := last xs] ! ((i - 1) div 2))"
        using heap_fromD [OF h, of i] i by (simp add: nth_list_update nth_butlast)
    qed
    moreover have "0 < length (?b[0 := last xs])"
      using False by (metis length_greater_0_conv length_list_update)
    ultimately show ?thesis unfolding y by (rule sift_up_heap [rotated])
  qed
  fix y assume "y \<in> set ys"
  then have "y \<in> set xs"
    using heappop_contents(1) [OF pop] by (metis in_multiset_in_set union_iff add_mset_add_single)
  then obtain i where "i < length xs" "xs ! i = y" by (auto simp: in_set_conv_nth)
  then show "\<not> lt y x" using root_least [OF h] heappop_contents(3) [OF pop] by metis
qed

lemma heapify_heap: "heap_from lt 0 (heapify lt xs)"
proof -
  have "heap_from lt 0 (fold (sift_up lt) (rev [0..<n]) ys)"
    if "heap_from lt n ys" "n \<le> length ys" for n ys
    using that
  proof (induction n arbitrary: ys)
    case (Suc n)
    then have "heap_from lt n (sift_up lt n ys)" "length (sift_up lt n ys) = length ys"
      by (auto intro: sift_up_heap sift_up_contents)
    then show ?case using Suc by simp
  qed simp
  moreover have "heap_from lt (length xs div 2) xs" by (rule heap_fromI) linarith
  ultimately show ?thesis by (simp add: heapify_def)
qed

end

end
