(* ===== verification/Request_Queue.thy ===== *)
theory Request_Queue
  imports Requests Heapq
begin

text \<open>
  The request queues of the scheduler (\<^verbatim>\<open>vllm/v1/core/sched/request_queue.py\<close>): the
  first-come-first-served deque and the priority heap. A queue holds references to requests, which
  are modelled by their ids; the object behind an id is looked up in a store \<open>objs\<close> when two
  requests are compared. The locale \<open>request_queue\<close> states what the scheduler relies on: a queue
  has an order of service, popping follows it and adding or removing changes its contents only by
  the given requests. Both queues provide it.
\<close>

section \<open>Definitions\<close>

datatype scheduling_policy = FCFS | PRIORITY

definition queue_less :: "(req_id \<Rightarrow> request) \<Rightarrow> req_id \<Rightarrow> req_id \<Rightarrow> bool" where
  "queue_less objs a b = request_less (objs a) (objs b)"

text \<open>\<open>FCFSRequestQueue\<close>, a \<open>deque\<close>.\<close>

definition fcfs_add :: "'a \<Rightarrow> 'a list \<Rightarrow> 'a list" where
  "fcfs_add r q = q @ [r]"

definition fcfs_pop :: "'a list \<Rightarrow> ('a \<times> 'a list) res" where
  "fcfs_pop q = (case q of [] \<Rightarrow> Inl IndexError | r # q' \<Rightarrow> Inr (r, q'))"

definition fcfs_peek :: "'a list \<Rightarrow> 'a res" where
  "fcfs_peek q = (if q = [] then Inl IndexError else Inr (q ! 0))"

definition fcfs_prepend :: "'a \<Rightarrow> 'a list \<Rightarrow> 'a list" where
  "fcfs_prepend r q = r # q"

definition fcfs_prepend_all :: "'a list \<Rightarrow> 'a list \<Rightarrow> 'a list" where
  "fcfs_prepend_all rs q = fold fcfs_prepend rs q"

definition fcfs_remove :: "'a \<Rightarrow> 'a list \<Rightarrow> 'a list res" where
  "fcfs_remove r q = (if r \<in> set q then Inr (remove1 r q) else Inl ValueError)"

definition fcfs_remove_all :: "'a set \<Rightarrow> 'a list \<Rightarrow> 'a list" where
  "fcfs_remove_all rs q = filter (\<lambda>r. r \<notin> rs) q"

text \<open>\<open>PriorityRequestQueue\<close>, a heap.\<close>

definition prio_add :: "('a \<Rightarrow> 'a \<Rightarrow> bool) \<Rightarrow> 'a \<Rightarrow> 'a list \<Rightarrow> 'a list" where
  "prio_add lt r q = heappush lt r q"

definition prio_pop :: "('a \<Rightarrow> 'a \<Rightarrow> bool) \<Rightarrow> 'a list \<Rightarrow> ('a \<times> 'a list) res" where
  "prio_pop lt q = (if q = [] then Inl IndexError else heappop lt q)"

definition prio_peek :: "'a list \<Rightarrow> 'a res" where
  "prio_peek q = (if q = [] then Inl IndexError else Inr (q ! 0))"

definition prio_prepend_all :: "('a \<Rightarrow> 'a \<Rightarrow> bool) \<Rightarrow> 'a list \<Rightarrow> 'a list \<Rightarrow> 'a list" where
  "prio_prepend_all lt rs q = fold (prio_add lt) rs q"

definition prio_remove :: "('a \<Rightarrow> 'a \<Rightarrow> bool) \<Rightarrow> 'a \<Rightarrow> 'a list \<Rightarrow> 'a list res" where
  "prio_remove lt r q =
     (if r \<in> set q then Inr (heapify lt (remove1 r q)) else Inl ValueError)"

definition prio_remove_all :: "('a \<Rightarrow> 'a \<Rightarrow> bool) \<Rightarrow> 'a set \<Rightarrow> 'a list \<Rightarrow> 'a list" where
  "prio_remove_all lt rs q = heapify lt (filter (\<lambda>r. r \<notin> rs) q)"

text \<open>Iteration pops from a copy of the heap.\<close>

function prio_iter :: "('a \<Rightarrow> 'a \<Rightarrow> bool) \<Rightarrow> 'a list \<Rightarrow> 'a list" where
  "prio_iter lt q = (case heappop lt q of Inl _ \<Rightarrow> [] | Inr (r, q') \<Rightarrow> r # prio_iter lt q')"
  by pat_completeness auto
termination
  by (relation "measure (\<lambda>(lt, q). length q)") (auto dest!: heappop_contents(2))

declare prio_iter.simps [simp del]

text \<open>A queue of either kind, as the scheduler holds it.\<close>

datatype request_queue = FCFSRequestQueue "req_id list" | PriorityRequestQueue "req_id list"

fun create_request_queue :: "scheduling_policy \<Rightarrow> request_queue" where
  "create_request_queue PRIORITY = PriorityRequestQueue []"
| "create_request_queue FCFS = FCFSRequestQueue []"

fun rq_items :: "request_queue \<Rightarrow> req_id list" where
  "rq_items (FCFSRequestQueue q) = q"
| "rq_items (PriorityRequestQueue q) = q"

fun rq_add :: "(req_id \<Rightarrow> request) \<Rightarrow> req_id \<Rightarrow> request_queue \<Rightarrow> request_queue" where
  "rq_add objs r (FCFSRequestQueue q) = FCFSRequestQueue (fcfs_add r q)"
| "rq_add objs r (PriorityRequestQueue q) = PriorityRequestQueue (prio_add (queue_less objs) r q)"

fun rq_pop :: "(req_id \<Rightarrow> request) \<Rightarrow> request_queue \<Rightarrow> (req_id \<times> request_queue) res" where
  "rq_pop objs (FCFSRequestQueue q) =
     res_bind (fcfs_pop q) (\<lambda>(r, q'). Inr (r, FCFSRequestQueue q'))"
| "rq_pop objs (PriorityRequestQueue q) =
     res_bind (prio_pop (queue_less objs) q) (\<lambda>(r, q'). Inr (r, PriorityRequestQueue q'))"

fun rq_peek :: "request_queue \<Rightarrow> req_id res" where
  "rq_peek (FCFSRequestQueue q) = fcfs_peek q"
| "rq_peek (PriorityRequestQueue q) = prio_peek q"

fun rq_prepend :: "(req_id \<Rightarrow> request) \<Rightarrow> req_id \<Rightarrow> request_queue \<Rightarrow> request_queue" where
  "rq_prepend objs r (FCFSRequestQueue q) = FCFSRequestQueue (fcfs_prepend r q)"
| "rq_prepend objs r (PriorityRequestQueue q) =
     PriorityRequestQueue (prio_add (queue_less objs) r q)"

fun rq_iter :: "(req_id \<Rightarrow> request) \<Rightarrow> request_queue \<Rightarrow> req_id list" where
  "rq_iter objs (FCFSRequestQueue q) = q"
| "rq_iter objs (PriorityRequestQueue q) = prio_iter (queue_less objs) q"

fun rq_prepend_all :: "(req_id \<Rightarrow> request) \<Rightarrow> request_queue \<Rightarrow> request_queue \<Rightarrow> request_queue"
where
  "rq_prepend_all objs rs (FCFSRequestQueue q) =
     FCFSRequestQueue (fcfs_prepend_all (rq_iter objs rs) q)"
| "rq_prepend_all objs rs (PriorityRequestQueue q) =
     PriorityRequestQueue (prio_prepend_all (queue_less objs) (rq_iter objs rs) q)"

fun rq_remove_all ::
  "(req_id \<Rightarrow> request) \<Rightarrow> req_id set \<Rightarrow> request_queue \<Rightarrow> request_queue" where
  "rq_remove_all objs rs (FCFSRequestQueue q) = FCFSRequestQueue (fcfs_remove_all rs q)"
| "rq_remove_all objs rs (PriorityRequestQueue q) =
     PriorityRequestQueue (prio_remove_all (queue_less objs) rs q)"

definition rq_len :: "request_queue \<Rightarrow> int" where
  "rq_len q = int (length (rq_items q))"

definition rq_bool :: "request_queue \<Rightarrow> bool" where
  "rq_bool q = (0 < length (rq_items q))"

section \<open>The contract of a queue\<close>

locale request_queue =
  fixes wf :: "'q \<Rightarrow> bool"
    and order :: "'q \<Rightarrow> 'a list"
    and add :: "'a \<Rightarrow> 'q \<Rightarrow> 'q"
    and pop :: "'q \<Rightarrow> ('a \<times> 'q) res"
    and peek :: "'q \<Rightarrow> 'a res"
    and remove :: "'a set \<Rightarrow> 'q \<Rightarrow> 'q"
  assumes pop_empty: "wf q \<Longrightarrow> order q = [] \<Longrightarrow> pop q = Inl IndexError"
    and pop_first: "wf q \<Longrightarrow> order q = r # rs \<Longrightarrow>
      \<exists>q'. pop q = Inr (r, q') \<and> wf q' \<and> order q' = rs"
    and peek_first: "wf q \<Longrightarrow> order q = r # rs \<Longrightarrow> peek q = Inr r"
    and add_wf: "wf q \<Longrightarrow> wf (add r q)"
    and add_contents: "wf q \<Longrightarrow> mset (order (add r q)) = add_mset r (mset (order q))"
    and remove_wf: "wf q \<Longrightarrow> wf (remove X q)"
    and remove_contents:
      "wf q \<Longrightarrow> mset (order (remove X q)) = filter_mset (\<lambda>r. r \<notin> X) (mset (order q))"
begin

text \<open>Popping \<open>n\<close> times.\<close>

primrec pops :: "nat \<Rightarrow> 'q \<Rightarrow> ('a list \<times> 'q) res" where
  "pops 0 q = Inr ([], q)"
| "pops (Suc n) q =
     res_bind (pop q) (\<lambda>(r, q'). res_bind (pops n q') (\<lambda>(rs, q''). Inr (r # rs, q'')))"

lemma pops_order:
  assumes "wf q" and "n \<le> length (order q)"
  shows "\<exists>q'. pops n q = Inr (take n (order q), q') \<and> wf q' \<and> order q' = drop n (order q)"
  using assms
proof (induction n arbitrary: q)
  case (Suc n)
  then obtain r rs where o: "order q = r # rs" by (cases "order q") auto
  from pop_first [OF Suc.prems(1) o] obtain q' where
    q': "pop q = Inr (r, q')" "wf q'" "order q' = rs" by blast
  with Suc.IH [OF q'(2)] Suc.prems(2) o obtain q'' where
    "pops n q' = Inr (take n rs, q'')" "wf q''" "order q'' = drop n rs" by auto
  with q' o show ?case by simp
qed simp

lemma peek_is_pop:
  assumes "wf q" and "pop q = Inr (r, q')"
  shows "peek q = Inr r" "wf q'" "order q = r # order q'"
proof -
  obtain a as where o: "order q = a # as"
    using pop_empty [OF assms(1)] assms(2) by (cases "order q") auto
  from pop_first [OF assms(1) o] assms(2) have "a = r" "wf q'" "order q' = as" by auto
  then show "peek q = Inr r" "wf q'" "order q = r # order q'"
    using peek_first [OF assms(1) o] o by auto
qed

lemma add_served:
  assumes "wf q"
  shows "\<exists>n rs q'. pops n (add r q) = Inr (rs, q') \<and> r \<in> set rs \<and> n \<le> Suc (length (order q))"
proof -
  let ?o = "order (add r q)"
  from pops_order [OF add_wf [OF assms], of "length ?o" r]
  obtain q' where p: "pops (length ?o) (add r q) = Inr (?o, q')" by auto
  have "size (mset ?o) = Suc (length (order q))" using add_contents [OF assms, of r] by simp
  moreover have "r \<in># mset ?o" using add_contents [OF assms, of r] by simp
  ultimately show ?thesis using p by (metis order_refl set_mset_mset size_mset)
qed

end

interpretation fcfs: request_queue "\<lambda>_. True" "\<lambda>q. q" fcfs_add fcfs_pop fcfs_peek fcfs_remove_all
  by unfold_locales
    (auto simp: fcfs_add_def fcfs_pop_def fcfs_peek_def fcfs_remove_all_def mset_filter)

lemma prio_iter_Nil [simp]: "prio_iter lt [] = []"
  by (subst prio_iter.simps) (simp add: heappop_def)

lemma prio_iter_pop: "heappop lt q = Inr (r, q') \<Longrightarrow> prio_iter lt q = r # prio_iter lt q'"
  by (subst prio_iter.simps) simp

lemma prio_iter_cases:
  obtains "q = []" "prio_iter lt q = []"
  | q' where "q \<noteq> []" "heappop lt q = Inr (q ! 0, q')" "prio_iter lt q = q ! 0 # prio_iter lt q'"
  using heappop_total [of q lt] prio_iter_pop [of lt q] by (cases "q = []") auto

lemma mset_prio_iter [simp]: "mset (prio_iter lt q) = mset q"
proof (induction "length q" arbitrary: q rule: less_induct)
  case less
  show ?case
    by (rule prio_iter_cases [of q lt])
      (use less heappop_contents(1,2) [of lt q] in \<open>auto\<close>)
qed

lemma set_prio_iter [simp]: "set (prio_iter lt q) = set q"
  using mset_prio_iter [of lt q] by (metis set_mset_mset)

lemma prio_iter_Nil_iff [simp]: "prio_iter lt q = [] \<longleftrightarrow> q = []"
  by (metis mset_prio_iter mset_zero_iff)

sublocale heap_order \<subseteq> prio: request_queue "heap_from lt 0" "prio_iter lt" "prio_add lt"
  "prio_pop lt" prio_peek "prio_remove_all lt"
proof
  fix q :: "'a list" and r rs X
  assume q: "heap_from lt 0 q"
  show "prio_iter lt q = [] \<Longrightarrow> prio_pop lt q = Inl IndexError" by (simp add: prio_pop_def)
  show "\<exists>q'. prio_pop lt q = Inr (r, q') \<and> heap_from lt 0 q' \<and> prio_iter lt q' = rs"
    and "prio_peek q = Inr r" if "prio_iter lt q = r # rs"
    by (rule prio_iter_cases [of q lt];
        use that heappop_heap(1) [OF q] in \<open>auto simp: prio_pop_def prio_peek_def\<close>)+
  show "heap_from lt 0 (prio_add lt r q)" by (simp add: prio_add_def heappush_heap q)
  show "mset (prio_iter lt (prio_add lt r q)) = add_mset r (mset (prio_iter lt q))"
    by (simp add: prio_add_def)
  show "heap_from lt 0 (prio_remove_all lt X q)" by (simp add: prio_remove_all_def heapify_heap)
  show "mset (prio_iter lt (prio_remove_all lt X q)) = {#r \<in># mset (prio_iter lt q). r \<notin> X#}"
    by (simp add: prio_remove_all_def heapify_contents)
qed

context heap_order
begin

text \<open>The order of service of the heap is that of the comparison.\<close>

lemma prio_iter_sorted:
  "heap_from lt 0 q \<Longrightarrow> sorted_wrt (\<lambda>a b. \<not> lt b a) (prio_iter lt q)"
proof (induction "length q" arbitrary: q rule: less_induct)
  case less
  show ?case
  proof (rule prio_iter_cases [of q lt])
    fix q' assume q': "heappop lt q = Inr (q ! 0, q')" "prio_iter lt q = q ! 0 # prio_iter lt q'"
    have "sorted_wrt (\<lambda>a b. \<not> lt b a) (prio_iter lt q')"
      using less.hyps heappop_contents(2) [OF q'(1)] heappop_heap(1) [OF less.prems q'(1)] by simp
    then show ?thesis using q' heappop_heap(2) [OF less.prems q'(1)] by simp
  qed simp
qed

end

text \<open>
  Two lists sorted by a comparison that is total on their elements and have the same contents are
  equal; so the order of service of a heap is determined by its contents.
\<close>

lemma sorted_wrt_unique:
  assumes "sorted_wrt (\<lambda>a b. \<not> lt b a) xs" "sorted_wrt (\<lambda>a b. \<not> lt b a) ys"
    and "mset xs = mset ys"
    and "\<And>a b. a \<in> set xs \<Longrightarrow> b \<in> set xs \<Longrightarrow> a \<noteq> b \<Longrightarrow> lt a b \<or> lt b a"
  shows "xs = ys"
  using assms
proof (induction xs arbitrary: ys)
  case (Cons x xs)
  then obtain y ys' where ys: "ys = y # ys'" by (cases ys) auto
  have s: "set (x # xs) = set ys" using Cons.prems(3) by (metis set_mset_mset)
  have "x = y"
  proof (rule ccontr)
    assume ne: "x \<noteq> y"
    then have "x \<in> set ys'" "y \<in> set xs" using s ys by auto
    then have "\<not> lt x y" "\<not> lt y x" using Cons.prems(1,2) ys by auto
    then show False using Cons.prems(4) [of x y] \<open>y \<in> set xs\<close> ne by auto
  qed
  then show ?case using Cons.IH [of ys'] Cons.prems ys by auto
qed simp

lemma queue_less_order: "heap_order (queue_less objs)"
  by unfold_locales (auto simp: queue_less_def dest: not_request_less_trans request_less_asym)

interpretation ro: heap_order "queue_less objs" for objs
  by (rule queue_less_order)

text \<open>\<open>objs\<close> gives every id the request with that id.\<close>

definition named :: "(req_id \<Rightarrow> request) \<Rightarrow> bool" where
  "named objs \<longleftrightarrow> (\<forall>i. request_id (objs i) = i)"

lemma queue_less_total: "named objs \<Longrightarrow> a \<noteq> b \<Longrightarrow> queue_less objs a b \<or> queue_less objs b a"
  unfolding queue_less_def named_def by (metis request_less_total)

section \<open>The queue of the scheduler\<close>

fun rq_wf :: "(req_id \<Rightarrow> request) \<Rightarrow> request_queue \<Rightarrow> bool" where
  "rq_wf objs (FCFSRequestQueue q) = True"
| "rq_wf objs (PriorityRequestQueue q) = heap_from (queue_less objs) 0 q"

lemma mset_rq_iter [simp]: "mset (rq_iter objs q) = mset (rq_items q)"
  by (cases q) simp_all

interpretation rq: request_queue "rq_wf objs" "rq_iter objs" "rq_add objs" "rq_pop objs" rq_peek
  "rq_remove_all objs" for objs
proof
  fix q :: Request_Queue.request_queue and r rs X
  assume q: "rq_wf objs q"
  show "rq_iter objs q = [] \<Longrightarrow> rq_pop objs q = Inl IndexError"
    using q by (cases q) (auto simp: fcfs_pop_def ro.prio.pop_empty)
  show "\<exists>q'. rq_pop objs q = Inr (r, q') \<and> rq_wf objs q' \<and> rq_iter objs q' = rs"
    and "rq_peek q = Inr r" if "rq_iter objs q = r # rs"
    using q that ro.prio.pop_first [of objs _ r rs] ro.prio.peek_first [of objs _ r rs]
    by (cases q, force simp: fcfs_pop_def fcfs_peek_def, force simp: fcfs_pop_def fcfs_peek_def)+
  show "rq_wf objs (rq_add objs r q)" "rq_wf objs (rq_remove_all objs X q)"
    using q by (cases q; simp add: ro.prio.add_wf ro.prio.remove_wf)+
  show "mset (rq_iter objs (rq_add objs r q)) = add_mset r (mset (rq_iter objs q))"
    by (cases q) (simp_all add: fcfs_add_def prio_add_def)
  show "mset (rq_iter objs (rq_remove_all objs X q)) = {#r \<in># mset (rq_iter objs q). r \<notin> X#}"
    by (cases q) (simp_all add: fcfs_remove_all_def prio_remove_all_def heapify_contents)
qed

lemma rq_prepend_wf: "rq_wf objs q \<Longrightarrow> rq_wf objs (rq_prepend objs r q)"
  by (cases q) (simp_all add: ro.prio.add_wf)

lemma mset_rq_prepend: "mset (rq_items (rq_prepend objs r q)) = add_mset r (mset (rq_items q))"
  by (cases q) (simp_all add: fcfs_prepend_def prio_add_def)

lemma fold_prio_add:
  "heap_from (queue_less objs) 0 q \<Longrightarrow>
     heap_from (queue_less objs) 0 (fold (prio_add (queue_less objs)) rs q)
     \<and> mset (fold (prio_add (queue_less objs)) rs q) = mset rs + mset q"
  by (induction rs arbitrary: q) (simp_all add: ro.heappush_heap prio_add_def)

lemma fold_fcfs_prepend: "fold fcfs_prepend rs q = rev rs @ q"
  by (induction rs arbitrary: q) (simp_all add: fcfs_prepend_def)

lemma rq_prepend_all_effect:
  assumes "rq_wf objs q"
  shows "rq_wf objs (rq_prepend_all objs rs q)"
    and "mset (rq_items (rq_prepend_all objs rs q)) = mset (rq_items rs) + mset (rq_items q)"
  using assms fold_prio_add
  by (cases q; simp add: prio_prepend_all_def fcfs_prepend_all_def fold_fcfs_prepend)+

section \<open>Refinement of a sorted list\<close>

text \<open>
  The abstract queue is the list of the waiting requests in the order of \<open>Request.__lt__\<close>; a
  client sees the results of its pops.
\<close>

datatype 'a queue_op = AddOp 'a | PopOp | RemoveOp "'a set"

fun insert_in_order :: "('a \<Rightarrow> 'a \<Rightarrow> bool) \<Rightarrow> 'a \<Rightarrow> 'a list \<Rightarrow> 'a list" where
  "insert_in_order lt x [] = [x]"
| "insert_in_order lt x (y # ys) =
     (if lt x y then x # y # ys else y # insert_in_order lt x ys)"

fun sorted_list_run :: "('a \<Rightarrow> 'a \<Rightarrow> bool) \<Rightarrow> 'a queue_op list \<Rightarrow> 'a list \<Rightarrow> 'a res list" where
  "sorted_list_run lt [] xs = []"
| "sorted_list_run lt (AddOp r # ops) xs = sorted_list_run lt ops (insert_in_order lt r xs)"
| "sorted_list_run lt (PopOp # ops) [] = Inl IndexError # sorted_list_run lt ops []"
| "sorted_list_run lt (PopOp # ops) (x # xs) = Inr x # sorted_list_run lt ops xs"
| "sorted_list_run lt (RemoveOp X # ops) xs =
     sorted_list_run lt ops (filter (\<lambda>r. r \<notin> X) xs)"

fun prio_run :: "('a \<Rightarrow> 'a \<Rightarrow> bool) \<Rightarrow> 'a queue_op list \<Rightarrow> 'a list \<Rightarrow> 'a res list" where
  "prio_run lt [] q = []"
| "prio_run lt (AddOp r # ops) q = prio_run lt ops (prio_add lt r q)"
| "prio_run lt (PopOp # ops) q =
     (case prio_pop lt q of
        Inl e \<Rightarrow> Inl e # prio_run lt ops q
      | Inr (r, q') \<Rightarrow> Inr r # prio_run lt ops q')"
| "prio_run lt (RemoveOp X # ops) q = prio_run lt ops (prio_remove_all lt X q)"

lemma mset_insert_in_order [simp]: "mset (insert_in_order lt x ys) = add_mset x (mset ys)"
  by (induction ys) simp_all

lemma insert_in_order_sorted:
  assumes "heap_order lt" and "sorted_wrt (\<lambda>a b. \<not> lt b a) ys"
  shows "sorted_wrt (\<lambda>a b. \<not> lt b a) (insert_in_order lt x ys)"
  using assms(2)
proof (induction ys)
  case (Cons y ys)
  have s: "set (insert_in_order lt x ys) = insert x (set ys)"
    using mset_insert_in_order [of lt x ys] by (metis set_mset_add_mset_insert set_mset_mset)
  show ?case
  proof (cases "lt x y")
    case True
    then have "\<not> lt y x" using heap_order.less_asym [OF assms(1)] by blast
    moreover have "\<not> lt z x" if "z \<in> set ys" for z
      using Cons.prems that heap_order.not_less_trans [OF assms(1) \<open>\<not> lt y x\<close>] by simp
    ultimately show ?thesis using Cons.prems True by simp
  next
    case False
    then show ?thesis using Cons s by simp
  qed
qed simp

text \<open>
  C25. The priority queue is a correct implementation of a sorted list: whatever requests are added,
  popped and removed, and in whatever order, every pop of the binary heap returns the request that
  is first in the order (priority, arrival time, id) among those in the queue, or raises IndexError
  exactly when the queue is empty.
\<close>

theorem priority_queue_refines_sorted_list:
  assumes "named objs" and "heap_from (queue_less objs) 0 q"
  shows "prio_run (queue_less objs) ops q
    = sorted_list_run (queue_less objs) ops (prio_iter (queue_less objs) q)"
  using assms(2)
proof (induction ops arbitrary: q)
  case (Cons op ops)
  let ?lt = "queue_less objs"
  note total = queue_less_total [OF assms(1)]
  note sorted = ro.prio_iter_sorted
  show ?case
  proof (cases op)
    case (AddOp r)
    have h: "heap_from ?lt 0 (prio_add ?lt r q)" by (rule ro.prio.add_wf [OF Cons.prems])
    have "prio_iter ?lt (prio_add ?lt r q) = insert_in_order ?lt r (prio_iter ?lt q)"
      by (rule sorted_wrt_unique [OF sorted [OF h]
            insert_in_order_sorted [OF queue_less_order sorted [OF Cons.prems]]])
        (simp_all add: prio_add_def total)
    then show ?thesis using Cons.IH [OF h] AddOp by simp
  next
    case PopOp
    show ?thesis
    proof (cases "prio_iter ?lt q")
      case Nil
      then show ?thesis using ro.prio.pop_empty [OF Cons.prems] Cons PopOp by simp
    next
      case o: (Cons r rs)
      from ro.prio.pop_first [OF Cons.prems o] obtain q' where
        "prio_pop ?lt q = Inr (r, q')" "heap_from ?lt 0 q'" "prio_iter ?lt q' = rs" by blast
      then show ?thesis using Cons.IH [of q'] o PopOp by simp
    qed
  next
    case (RemoveOp X)
    have h: "heap_from ?lt 0 (prio_remove_all ?lt X q)" by (rule ro.prio.remove_wf [OF Cons.prems])
    have "prio_iter ?lt (prio_remove_all ?lt X q) = filter (\<lambda>r. r \<notin> X) (prio_iter ?lt q)"
      by (rule sorted_wrt_unique [OF sorted [OF h] sorted_wrt_filter [OF sorted [OF Cons.prems]]])
        (simp_all add: prio_remove_all_def heapify_contents total)
    then show ?thesis using Cons.IH [OF h] RemoveOp by simp
  qed
qed simp

definition two_priorities :: "req_id \<Rightarrow> request" where
  "two_priorities i = (sample_request i [])\<lparr>priority := (if i = ''late'' then 1 else 0)\<rparr>"

lemma priority_queue_refines_sorted_list_witness:
  "prio_run (queue_less two_priorities)
      [AddOp ''late'', AddOp ''b'', AddOp ''a'', PopOp, RemoveOp {''b''}, PopOp, PopOp] []
    = [Inr ''a'', Inr ''late'', Inl IndexError]"
proof -
  have n: "named two_priorities" and h: "heap_from (queue_less two_priorities) 0 []"
    by (simp_all add: named_def two_priorities_def sample_request_def heap_from_def)
  show ?thesis
    by (subst priority_queue_refines_sorted_list [OF n h])
      (simp add: queue_less_def request_less_def two_priorities_def sample_request_def)
qed

end
