(* ===== verification/Sched_Utils.thy ===== *)
theory Sched_Utils
  imports Requests
begin

text \<open>
  The stop checks of the scheduler (\<^verbatim>\<open>vllm/v1/core/sched/utils.py\<close>): detection of a repeating
  pattern at the end of the output, removal of a set of items from a list, and \<open>check_stop\<close>,
  which ends a request on the end-of-sequence token, a stop token, its length limits or a
  repetition.
\<close>

section \<open>Definitions\<close>

fun repeats_at :: "token list \<Rightarrow> int \<Rightarrow> int \<Rightarrow> token \<Rightarrow> int list \<Rightarrow> bool res" where
  "repeats_at toks plen n target [] = Inr True"
| "repeats_at toks plen n target (m # ms) =
     res_bind (py_get toks (- (plen * m + n))) (\<lambda>t.
       if t \<noteq> target then Inr False else repeats_at toks plen n target ms)"

fun pattern_loop :: "token list \<Rightarrow> int \<Rightarrow> int \<Rightarrow> int list \<Rightarrow> bool res" where
  "pattern_loop toks plen cnt [] = Inr True"
| "pattern_loop toks plen cnt (n # ns) =
     res_bind (py_get toks (- n)) (\<lambda>target.
     res_bind (repeats_at toks plen n target [1..cnt - 1]) (\<lambda>ok.
       if ok then pattern_loop toks plen cnt ns else Inr False))"

definition has_repeating_pattern :: "token list \<Rightarrow> int \<Rightarrow> int \<Rightarrow> bool res" where
  "has_repeating_pattern toks plen cnt = pattern_loop toks plen cnt [1..plen]"

fun repetition_loop :: "token list \<Rightarrow> int \<Rightarrow> int list \<Rightarrow> bool res" where
  "repetition_loop toks cnt [] = Inr False"
| "repetition_loop toks cnt (plen # plens) =
     (if plen * cnt > int (length toks) then Inr False
      else res_bind (has_repeating_pattern toks plen cnt) (\<lambda>b.
        if b then Inr True else repetition_loop toks cnt plens))"

definition check_sequence_repetition :: "token list \<Rightarrow> repetition_params \<Rightarrow> bool res" where
  "check_sequence_repetition toks p =
     (let lo = (if min_pattern_size p \<le> 0 then 1 else min_pattern_size p) in
      if max_pattern_size p \<le> 0 \<or> min_count p < 2 \<or> lo > max_pattern_size p then Inr False
      else repetition_loop toks (min_count p) [lo..max_pattern_size p])"

text \<open>
  A Python set of removed items is the list of its elements. One item is removed by
  \<open>list.remove\<close>, its first occurrence only and without an error when it is absent.
\<close>

definition remove_all :: "'a list \<Rightarrow> 'a list \<Rightarrow> 'a list" where
  "remove_all lst items =
     (if items = [] then lst
      else if length items = 1 then remove1 (hd items) lst
      else filter (\<lambda>x. x \<notin> set items) lst)"

definition check_stop :: "request \<Rightarrow> int \<Rightarrow> (bool \<times> request) res" where
  "check_stop r max_model_len =
     require (pooling_params r = None) AssertionError
       (case sampling_params r of
          None \<Rightarrow> Inl AssertionError
        | Some sp \<Rightarrow>
            if num_output_tokens r < min_tokens sp then Inr (False, r)
            else res_bind (py_get (output_token_ids r) (- 1)) (\<lambda>last_token_id.
              if eos_token_id sp = Some last_token_id then
                Inr (True, r\<lparr>status := FINISHED_STOPPED\<rparr>)
              else if last_token_id \<in> set (stop_token_ids sp) then
                Inr (True, r\<lparr>status := FINISHED_STOPPED,
                  stop_reason := Some (StopToken last_token_id)\<rparr>)
              else if num_tokens r \<ge> max_model_len \<or> num_output_tokens r \<ge> max_tokens r then
                Inr (True, r\<lparr>status := FINISHED_LENGTH_CAPPED\<rparr>)
              else
                (case repetition_detection sp of
                   None \<Rightarrow> Inr (False, r)
                 | Some rd \<Rightarrow>
                     res_bind (check_sequence_repetition (output_token_ids r) rd) (\<lambda>b.
                       if b then
                         Inr (True, r\<lparr>status := FINISHED_REPETITION,
                           stop_reason := Some (StopString ''repetition_detected'')\<rparr>)
                       else Inr (False, r)))))"

section \<open>Repetition detection\<close>

text \<open>The last \<open>n\<close>-th element, counted from 1.\<close>

definition from_end :: "'a list \<Rightarrow> nat \<Rightarrow> 'a" where
  "from_end xs n = rev xs ! (n - 1)"

lemma py_get_from_end:
  assumes "0 < n" "n \<le> int (length xs)"
  shows "py_get xs (- n) = Inr (from_end xs (nat n))"
proof -
  have "nat (int (length xs) - n) = length xs - Suc (nat n - 1)" using assms by linarith
  then show ?thesis using assms
    by (auto simp: py_get_def py_index_def from_end_def rev_nth)
qed

lemma repeats_at_spec:
  assumes "0 < n" "0 < plen" and "\<forall>m \<in> set ms. 0 \<le> m \<and> plen * m + n \<le> int (length toks)"
  shows "repeats_at toks plen n t ms =
    Inr (\<forall>m \<in> set ms. from_end toks (nat (plen * m + n)) = t)"
  using assms(3)
proof (induction ms)
  case (Cons m ms)
  have "0 < plen * m + n" using assms(1,2) Cons.prems by (simp add: add_nonneg_pos)
  then show ?case using Cons py_get_from_end [of "plen * m + n" toks] by simp
qed simp

lemma pattern_loop_spec:
  assumes "0 < plen" "1 \<le> cnt" "plen * cnt \<le> int (length toks)"
    and "\<forall>n \<in> set ns. 1 \<le> n \<and> n \<le> plen"
  shows "pattern_loop toks plen cnt ns =
    Inr (\<forall>n \<in> set ns. \<forall>m \<in> {1..cnt - 1}.
           from_end toks (nat (plen * m + n)) = from_end toks (nat n))"
  using assms(4)
proof (induction ns)
  case (Cons n ns)
  have n: "1 \<le> n" "n \<le> plen" using Cons.prems by auto
  have "plen * 1 \<le> plen * cnt" using assms(1,2) by (intro mult_left_mono) auto
  then have "n \<le> int (length toks)" using n assms(3) by linarith
  then have g: "py_get toks (- n) = Inr (from_end toks (nat n))"
    using n by (intro py_get_from_end) auto
  have m: "plen * m + n \<le> int (length toks)" if "m \<in> {1..cnt - 1}" for m
  proof -
    have "plen * m \<le> plen * (cnt - 1)" using that assms(1) by (intro mult_left_mono) auto
    then show ?thesis using n assms(3) by (simp add: algebra_simps)
  qed
  have "repeats_at toks plen n t [1..cnt - 1] =
      Inr (\<forall>m \<in> {1..cnt - 1}. from_end toks (nat (plen * m + n)) = t)" for t
    using repeats_at_spec [of n plen "[1..cnt - 1]" toks t] n assms(1) m by simp
  then show ?case using Cons g by simp
qed simp

text \<open>The specification: the list ends in \<open>cnt\<close> copies of a pattern of length \<open>plen\<close>.\<close>

definition ends_in_copies :: "'a list \<Rightarrow> nat \<Rightarrow> nat \<Rightarrow> bool" where
  "ends_in_copies xs plen cnt \<longleftrightarrow>
     (\<exists>pre p. length p = plen \<and> xs = pre @ concat (replicate cnt p))"

lemma nth_concat_replicate:
  "i < length (concat (replicate k p)) \<Longrightarrow> concat (replicate k p) ! i = p ! (i mod length p)"
proof (induction k arbitrary: i)
  case (Suc k)
  show ?case
  proof (cases "i < length p")
    case False
    then have "i - length p < length (concat (replicate k p))" using Suc.prems by simp
    from Suc.IH [OF this] False show ?thesis by (simp add: nth_append le_mod_geq)
  qed (simp add: nth_append)
qed simp

lemma length_concat_replicate [simp]: "length (concat (replicate k p)) = k * length p"
  by (induction k) simp_all

lemma rev_concat_replicate: "rev (concat (replicate k p)) = concat (replicate k (rev p))"
proof (induction k)
  case (Suc k)
  have "concat (replicate k q) @ q = q @ concat (replicate k q)" for q :: "'a list"
    by (induction k) simp_all
  then show ?case using Suc by simp
qed simp

text \<open>In terms of the reversed list the copies are a prefix, equal at distance \<open>plen\<close>.\<close>

lemma copies_of_prefix:
  assumes "0 < plen" "cnt * plen \<le> length ys" "1 \<le> cnt"
    and "\<forall>n < plen. \<forall>m < cnt. ys ! (plen * m + n) = ys ! n"
  shows "take (cnt * plen) ys = concat (replicate cnt (take plen ys))"
proof (rule nth_equalityI)
  have pl: "plen \<le> length ys" using assms(2,3) by (metis le_trans mult_1 mult_le_mono1)
  then show "length (take (cnt * plen) ys) = length (concat (replicate cnt (take plen ys)))"
    using assms(2) by simp
  fix i assume "i < length (take (cnt * plen) ys)"
  then have i: "i < cnt * plen" by simp
  have q: "i div plen < cnt" using i by (rule less_mult_imp_div_less)
  have r: "i mod plen < plen" using assms(1) by simp
  have "ys ! (plen * (i div plen) + i mod plen) = ys ! (i mod plen)" using assms(4) q r by blast
  then have "ys ! i = ys ! (i mod plen)" by simp
  moreover have "concat (replicate cnt (take plen ys)) ! i = take plen ys ! (i mod plen)"
    using nth_concat_replicate [of i cnt "take plen ys"] i pl by simp
  ultimately show "take (cnt * plen) ys ! i = concat (replicate cnt (take plen ys)) ! i"
    using i r by simp
qed

lemma ends_in_copies_iff:
  assumes "0 < plen" "1 \<le> cnt"
  shows "ends_in_copies xs plen cnt \<longleftrightarrow> cnt * plen \<le> length xs
    \<and> (\<forall>n < plen. \<forall>m < cnt. rev xs ! (plen * m + n) = rev xs ! n)"
proof
  assume "ends_in_copies xs plen cnt"
  then obtain pre p where p: "length p = plen" and xs: "xs = pre @ concat (replicate cnt p)"
    unfolding ends_in_copies_def by blast
  let ?c = "concat (replicate cnt (rev p))"
  have r: "rev xs = ?c @ rev pre" by (simp add: xs rev_concat_replicate)
  have "rev xs ! (plen * m + n) = rev xs ! n" if "n < plen" "m < cnt" for n m
  proof -
    have "plen * m + n < plen * Suc m" using that by simp
    also have "\<dots> \<le> plen * cnt" using that by (intro mult_le_mono2) simp
    finally have "plen * m + n < cnt * plen" "n < cnt * plen"
      by (simp_all add: mult.commute)
    then show ?thesis
      using nth_concat_replicate [of "plen * m + n" cnt "rev p"]
        nth_concat_replicate [of n cnt "rev p"] that p
      by (simp add: r nth_append)
  qed
  then show "cnt * plen \<le> length xs \<and> (\<forall>n < plen. \<forall>m < cnt. rev xs ! (plen * m + n) = rev xs ! n)"
    using xs p by simp
next
  assume h: "cnt * plen \<le> length xs \<and> (\<forall>n < plen. \<forall>m < cnt. rev xs ! (plen * m + n) = rev xs ! n)"
  let ?p = "take plen (rev xs)"
  from h have "take (cnt * plen) (rev xs) = concat (replicate cnt ?p)"
    using assms by (intro copies_of_prefix) auto
  then have "rev xs = concat (replicate cnt ?p) @ drop (cnt * plen) (rev xs)"
    by (metis append_take_drop_id)
  then have "xs = rev (drop (cnt * plen) (rev xs)) @ concat (replicate cnt (rev ?p))"
    by (metis rev_append rev_concat_replicate rev_rev_ident)
  moreover have "plen \<le> length xs" using h assms(2) by (metis le_trans mult_1 mult_le_mono1)
  then have "length (rev ?p) = plen" by simp
  ultimately show "ends_in_copies xs plen cnt" unfolding ends_in_copies_def by blast
qed

lemma has_repeating_pattern_spec:
  assumes "0 < plen" "2 \<le> cnt" "plen * cnt \<le> int (length toks)"
  shows "has_repeating_pattern toks plen cnt = Inr (ends_in_copies toks (nat plen) (nat cnt))"
proof -
  have "(\<forall>n \<in> {1..plen}. \<forall>m \<in> {1..cnt - 1}.
          from_end toks (nat (plen * m + n)) = from_end toks (nat n))
    \<longleftrightarrow> (\<forall>n < nat plen. \<forall>m < nat cnt. rev toks ! (nat plen * m + n) = rev toks ! n)" (is "?l = ?r")
  proof
    assume l: ?l
    show ?r
    proof (intro allI impI)
      fix n m assume n: "n < nat plen" and m: "m < nat cnt"
      show "rev toks ! (nat plen * m + n) = rev toks ! n"
      proof (cases "m = 0")
        case False
        then have "int n + 1 \<in> {1..plen}" "int m \<in> {1..cnt - 1}" using n m by auto
        with l have "from_end toks (nat (plen * int m + (int n + 1))) = from_end toks (nat (int n + 1))"
          by blast
        moreover have "nat (plen * int m + (int n + 1)) - 1 = nat plen * m + n"
          using assms(1) by (simp add: nat_eq_iff2 nat_add_distrib nat_mult_distrib)
        moreover have "nat (int n + 1) - 1 = n" by simp
        ultimately show ?thesis by (simp add: from_end_def)
      qed simp
    qed
  next
    assume r: ?r
    show ?l
    proof (intro ballI)
      fix n m assume n: "n \<in> {1..plen}" and m: "m \<in> {1..cnt - 1}"
      then have "nat n - 1 < nat plen" "nat m < nat cnt" by auto
      with r have "rev toks ! (nat plen * nat m + (nat n - 1)) = rev toks ! (nat n - 1)" by blast
      moreover have "nat (plen * m + n) - 1 = nat plen * nat m + (nat n - 1)"
      proof -
        have eq: "nat (plen * m + n) = nat plen * nat m + nat n"
          using n m assms(1) by (simp add: nat_add_distrib nat_mult_distrib)
        have "0 < n" using n by simp
        then have "1 \<le> nat n" by (simp add: Suc_le_eq)
        then show ?thesis unfolding eq by linarith
      qed
      ultimately show "from_end toks (nat (plen * m + n)) = from_end toks (nat n)"
        by (simp add: from_end_def)
    qed
  qed
  moreover have "nat cnt * nat plen \<le> length toks"
    using assms by (simp add: nat_mult_distrib [symmetric] nat_le_iff mult.commute)
  moreover have "0 < nat plen" "1 \<le> nat cnt" using assms by linarith+
  ultimately have eq: "ends_in_copies toks (nat plen) (nat cnt) \<longleftrightarrow>
      (\<forall>n \<in> {1..plen}. \<forall>m \<in> {1..cnt - 1}.
          from_end toks (nat (plen * m + n)) = from_end toks (nat n))"
    using ends_in_copies_iff [of "nat plen" "nat cnt" toks] by blast
  have "1 \<le> cnt" "\<forall>n \<in> set [1..plen]. 1 \<le> n \<and> n \<le> plen" using assms by auto
  from pattern_loop_spec [OF assms(1) this(1) assms(3) this(2)]
  show ?thesis unfolding has_repeating_pattern_def eq set_upto .
qed

lemma repetition_check_exact:
  "check_sequence_repetition toks p = Inr (2 \<le> min_count p
     \<and> (\<exists>plen. max 1 (min_pattern_size p) \<le> plen \<and> plen \<le> max_pattern_size p
         \<and> ends_in_copies toks (nat plen) (nat (min_count p))))"
proof -
  let ?c = "min_count p" and ?hi = "max_pattern_size p"
  let ?ok = "\<lambda>l. ends_in_copies toks (nat l) (nat ?c)"
  have loop: "repetition_loop toks ?c [lo..hi] = Inr (\<exists>l. lo \<le> l \<and> l \<le> hi \<and> ?ok l)"
    if c: "2 \<le> ?c" and lo: "1 \<le> lo" for lo hi
    using lo
  proof (induction "nat (hi - lo + 1)" arbitrary: lo)
    case 0
    then show ?case by simp
  next
    case (Suc k)
    then have le: "lo \<le> hi" by linarith
    have up: "[lo..hi] = lo # [lo + 1..hi]" using le by (simp add: upto_rec1)
    show ?case
    proof (cases "lo * ?c > int (length toks)")
      case True
      have "\<not> ?ok l" if "lo \<le> l" for l
      proof -
        have "lo * ?c \<le> l * ?c" using that c by (intro mult_right_mono) auto
        then have "int (length toks) < l * ?c" using True by linarith
        then have "\<not> nat ?c * nat l \<le> length toks"
          using that Suc.prems c by (simp add: nat_mult_distrib [symmetric] nat_le_iff mult.commute)
        then show ?thesis using ends_in_copies_iff [of "nat l" "nat ?c" toks] that Suc.prems c by simp
      qed
      then show ?thesis using True up by auto
    next
      case False
      then have h: "has_repeating_pattern toks lo ?c = Inr (?ok lo)"
        using Suc.prems c by (intro has_repeating_pattern_spec) auto
      have "k = nat (hi - (lo + 1) + 1)" using Suc.hyps(2) by linarith
      from Suc.hyps(1) [OF this] Suc.prems
      have "repetition_loop toks ?c [lo + 1..hi] = Inr (\<exists>l. lo + 1 \<le> l \<and> l \<le> hi \<and> ?ok l)" by simp
      moreover have "(\<exists>l. lo \<le> l \<and> l \<le> hi \<and> ?ok l)
          \<longleftrightarrow> ?ok lo \<or> (\<exists>l. lo + 1 \<le> l \<and> l \<le> hi \<and> ?ok l)"
        using le by (metis add1_zle_eq order_le_less order_refl)
      ultimately show ?thesis using False h up by simp
    qed
  qed
  have lo: "(if min_pattern_size p \<le> 0 then 1 else min_pattern_size p) = max 1 (min_pattern_size p)"
    by auto
  show ?thesis
  proof (cases "?hi \<le> 0 \<or> ?c < 2 \<or> max 1 (min_pattern_size p) > ?hi")
    case True
    then show ?thesis unfolding check_sequence_repetition_def Let_def lo by auto
  next
    case False
    then show ?thesis
      using loop [of "max 1 (min_pattern_size p)" ?hi]
      unfolding check_sequence_repetition_def Let_def lo by auto
  qed
qed

lemma repetition_check_total: "\<exists>b. check_sequence_repetition toks p = Inr b"
  using repetition_check_exact by blast

text \<open>
  C29. Repetition detection is exact and never reads out of range: \<open>check_sequence_repetition\<close>
  returns True exactly when the output ends in \<open>min_count\<close> (at least two) adjacent copies of some
  pattern whose length is between the minimum size (at least one) and the maximum size. In
  particular leaving the loop at the first pattern length that no longer fits loses nothing.
\<close>

theorem repetition_detected_iff:
  "check_sequence_repetition toks p = Inr (2 \<le> min_count p
     \<and> (\<exists>plen. max 1 (min_pattern_size p) \<le> plen \<and> plen \<le> max_pattern_size p
         \<and> ends_in_copies toks (nat plen) (nat (min_count p))))"
  by (rule repetition_check_exact)

section \<open>Stopping\<close>

lemma remove_all_eq: "distinct xs \<Longrightarrow> remove_all xs items = filter (\<lambda>x. x \<notin> set items) xs"
  by (cases items rule: remdups_adj.cases)
    (auto simp: remove_all_def distinct_remove1_removeAll removeAll_filter_not_eq intro!: filter_cong)

definition may_stop :: "request \<Rightarrow> bool" where
  "may_stop r \<longleftrightarrow> pooling_params r = None \<and> sampling_params r \<noteq> None \<and> output_token_ids r \<noteq> []"

definition stop_state :: "request \<Rightarrow> request_status \<Rightarrow> stop_reason option \<Rightarrow> request" where
  "stop_state r st why = r\<lparr>status := st, stop_reason := why\<rparr>"

lemma py_get_last: "xs \<noteq> [] \<Longrightarrow> py_get xs (- 1) = Inr (last xs)"
  using py_get_from_end [of 1 xs] by (simp add: from_end_def rev_nth last_conv_nth Suc_le_eq)

text \<open>The three reasons to stop: a stop token, a limit on the length, a repetition.\<close>

definition at_stop_token :: "sampling_params \<Rightarrow> request \<Rightarrow> bool" where
  "at_stop_token sp r \<longleftrightarrow> eos_token_id sp = Some (last (output_token_ids r))
     \<or> last (output_token_ids r) \<in> set (stop_token_ids sp)"

definition at_length_limit :: "int \<Rightarrow> request \<Rightarrow> bool" where
  "at_length_limit max_model_len r \<longleftrightarrow>
     max_model_len \<le> num_tokens r \<or> max_tokens r \<le> num_output_tokens r"

definition ends_repeating :: "sampling_params \<Rightarrow> request \<Rightarrow> bool" where
  "ends_repeating sp r = (case repetition_detection sp of
       None \<Rightarrow> False
     | Some p \<Rightarrow> 2 \<le> min_count p \<and> (\<exists>plen \<in> {max 1 (min_pattern_size p)..max_pattern_size p}.
         ends_in_copies (output_token_ids r) (nat plen) (nat (min_count p))))"

lemma ends_repeating_check:
  "repetition_detection sp = Some p \<Longrightarrow>
     check_sequence_repetition (output_token_ids r) p = Inr (ends_repeating sp r)"
  unfolding ends_repeating_def repetition_check_exact by (simp add: Bex_def conj_assoc)

lemma check_stop_cases:
  assumes "may_stop r" and "sampling_params r = Some sp"
  shows "check_stop r max_model_len = Inr (
     if num_output_tokens r < min_tokens sp then (False, r)
     else if eos_token_id sp = Some (last (output_token_ids r)) then
       (True, stop_state r FINISHED_STOPPED (stop_reason r))
     else if at_stop_token sp r then
       (True, stop_state r FINISHED_STOPPED (Some (StopToken (last (output_token_ids r)))))
     else if at_length_limit max_model_len r then
       (True, stop_state r FINISHED_LENGTH_CAPPED (stop_reason r))
     else if ends_repeating sp r then
       (True, stop_state r FINISHED_REPETITION (Some (StopString ''repetition_detected'')))
     else (False, r))"
proof -
  have ne: "output_token_ids r \<noteq> []" "pooling_params r = None" using assms(1) by (simp_all add: may_stop_def)
  have none: "repetition_detection sp = None \<Longrightarrow> \<not> ends_repeating sp r" by (simp add: ends_repeating_def)
  show ?thesis
  proof (cases "repetition_detection sp")
    case None
    then show ?thesis using none ne assms(2)
      by (simp add: check_stop_def py_get_last stop_state_def at_stop_token_def at_length_limit_def)
  next
    case (Some p)
    then show ?thesis using ends_repeating_check [OF Some] ne assms(2)
      by (simp add: check_stop_def py_get_last stop_state_def at_stop_token_def at_length_limit_def)
  qed
qed

text \<open>
  C30. \<open>check_stop\<close> never raises for a generating request with output, and it changes nothing but the
  status and the stop reason. It says stop exactly when at least \<open>min_tokens\<close> tokens were generated
  and the last token is the end-of-sequence token or a stop token, or the model length or the token
  limit of the request is reached, or the output ends in a repetition; the finished status it then
  sets names the first of these reasons. When it says go on, the request is left as it was.
\<close>

theorem check_stop_outcome:
  assumes "may_stop r" and "\<not> is_finished r" and "sampling_params r = Some sp"
  shows "\<exists>b st why. check_stop r max_model_len = Inr (b, stop_state r st why)
    \<and> b = is_finished_status st
    \<and> (b \<longleftrightarrow> min_tokens sp \<le> num_output_tokens r
        \<and> (at_stop_token sp r \<or> at_length_limit max_model_len r \<or> ends_repeating sp r))
    \<and> (b \<longrightarrow> st = (if at_stop_token sp r then FINISHED_STOPPED
          else if at_length_limit max_model_len r then FINISHED_LENGTH_CAPPED
          else FINISHED_REPETITION))
    \<and> (\<not> b \<longrightarrow> st = status r \<and> why = stop_reason r)"
proof -
  have same: "r = stop_state r (status r) (stop_reason r)" by (simp add: stop_state_def)
  have live: "\<not> is_finished_status (status r)" using assms(2) by (simp add: is_finished_def)
  have eos: "eos_token_id sp = Some (last (output_token_ids r)) \<Longrightarrow> at_stop_token sp r"
    by (simp add: at_stop_token_def)
  note eq = check_stop_cases [OF assms(1,3), of max_model_len]
  consider "num_output_tokens r < min_tokens sp" | "\<not> num_output_tokens r < min_tokens sp" by blast
  then show ?thesis
  proof cases
    case 1
    then show ?thesis using eq live same by (intro exI conjI) (assumption | simp)+
  next
    case 2
    show ?thesis
    proof (cases "at_stop_token sp r \<or> at_length_limit max_model_len r \<or> ends_repeating sp r")
      case True
      then show ?thesis using eq 2 eos
        by (cases "eos_token_id sp = Some (last (output_token_ids r))")
          (auto simp: is_finished_status_iff split: if_splits)
    next
      case False
      then have "check_stop r max_model_len = Inr (False, r)" using eq 2 eos by simp blast
      with same have "check_stop r max_model_len = Inr (False, stop_state r (status r) (stop_reason r))"
        by (rule subst)
      then show ?thesis using live 2 False by (intro exI conjI) (assumption | simp)+
    qed
  qed
qed

text \<open>A request at its limits is capped, one below them goes on.\<close>

lemma check_stop_outcome_witness:
  "let r = (sample_request ''a'' [1])\<lparr>output_token_ids := [3], all_token_ids := [1, 3]\<rparr>
   in (\<exists>why. check_stop r 2 = Inr (True, stop_state r FINISHED_LENGTH_CAPPED why))
      \<and> check_stop r 100 = Inr (False, stop_state r WAITING None)"
proof -
  obtain r where r: "r = (sample_request ''a'' [1])\<lparr>output_token_ids := [3], all_token_ids := [1, 3]\<rparr>"
    by blast
  have ok: "may_stop r" "\<not> is_finished r" "sampling_params r = Some sample_params"
    by (simp_all add: r may_stop_def sample_request_def is_finished_def is_finished_status_iff)
  have facts: "\<not> at_stop_token sample_params r" "at_length_limit 2 r" "\<not> at_length_limit 100 r"
    "\<not> ends_repeating sample_params r" "min_tokens sample_params \<le> num_output_tokens r"
    "status r = WAITING" "stop_reason r = None"
    by (simp_all add: r at_stop_token_def at_length_limit_def ends_repeating_def sample_params_def
        sample_request_def num_tokens_def num_output_tokens_def)
  from check_stop_outcome [OF ok, of 2] facts
  have "\<exists>why. check_stop r 2 = Inr (True, stop_state r FINISHED_LENGTH_CAPPED why)" by auto
  moreover from check_stop_outcome [OF ok, of 100] facts
  have "check_stop r 100 = Inr (False, stop_state r WAITING None)" by auto
  ultimately show ?thesis unfolding Let_def r by (rule conjI)
qed

text \<open>
  A request that has generated fewer than \<open>min_tokens\<close> tokens is not stopped at the maximum
  model length, although no further token of it can be scheduled: the check of the minimum comes
  before the check of the length.
\<close>

theorem min_tokens_outlives_model_length:
  "check_stop ((sample_request ''a'' [1, 1, 1])\<lparr>sampling_params :=
       Some (sample_params\<lparr>sp_max_tokens := Some 50, min_tokens := 20\<rparr>), max_tokens := 50,
       output_token_ids := [7], all_token_ids := [1, 1, 1, 7]\<rparr>) 4
   = Inr (False, (sample_request ''a'' [1, 1, 1])\<lparr>sampling_params :=
       Some (sample_params\<lparr>sp_max_tokens := Some 50, min_tokens := 20\<rparr>), max_tokens := 50,
       output_token_ids := [7], all_token_ids := [1, 1, 1, 7]\<rparr>)"
  by (simp add: check_stop_def sample_request_def sample_params_def num_output_tokens_def)

end
