(* ===== verification/Encoder_Cache.thy ===== *)
theory Encoder_Cache
  imports Requests
begin

text \<open>
  The cache of encoder outputs (\<^verbatim>\<open>vllm/v1/core/encoder_cache_manager.py\<close>): which multimodal
  inputs are cached, which requests reference them, and which unreferenced ones can be evicted,
  oldest first. Sizes are counted in embeddings. A dict is an association list in insertion order
  and a set of request ids the list of its elements.
\<close>

section \<open>Definitions\<close>

record enc_cache =
  cache_size :: int
  num_free_slots :: int
  num_freeable_slots :: int
  cached :: "(string \<times> req_id list) list"
  freeable :: "(string \<times> int) list"
  freed :: "string list"

definition init_enc_cache :: "int \<Rightarrow> enc_cache" where
  "init_enc_cache n = \<lparr>cache_size = n, num_free_slots = n, num_freeable_slots = n, cached = [],
     freeable = [], freed = []\<rparr>"

definition ec_reset :: "enc_cache \<Rightarrow> enc_cache" where
  "ec_reset c = c\<lparr>cached := [], freeable := [], freed := [], num_free_slots := cache_size c,
     num_freeable_slots := cache_size c\<rparr>"

definition mm_hash_of :: "request \<Rightarrow> int \<Rightarrow> string res" where
  "mm_hash_of r input_id = res_bind (py_get (mm_features r) input_id) (\<lambda>f. Inr (mm_identifier f))"

definition ec_check_and_update_cache :: "request \<Rightarrow> int \<Rightarrow> enc_cache \<Rightarrow> (bool \<times> enc_cache) res" where
  "ec_check_and_update_cache r input_id c =
     res_bind (mm_hash_of r input_id) (\<lambda>h.
       case map_of (cached c) h of
         None \<Rightarrow> Inr (False, c)
       | Some refs \<Rightarrow>
           res_bind
             (if refs = [] then
                (case map_of (freeable c) h of
                   None \<Rightarrow> Inl KeyError
                 | Some n \<Rightarrow> Inr (c\<lparr>freeable := AList.delete h (freeable c),
                     num_freeable_slots := num_freeable_slots c - n\<rparr>))
              else Inr c)
             (\<lambda>c1. Inr (True,
                c1\<lparr>cached := AList.update h (List.insert (request_id r) refs) (cached c1)\<rparr>)))"

text \<open>The eviction loop: \<open>popitem\<close> of an empty dict and \<open>del\<close> of a missing key raise.\<close>

function ec_evict_loop :: "int \<Rightarrow> enc_cache \<Rightarrow> enc_cache res" where
  "ec_evict_loop n c =
     (if n > num_free_slots c then
        (case freeable c of
           [] \<Rightarrow> Inl KeyError
         | (h, k) # rest \<Rightarrow>
             if map_of (cached c) h = None then Inl KeyError
             else ec_evict_loop n (c\<lparr>freeable := rest, cached := AList.delete h (cached c),
                    freed := freed c @ [h], num_free_slots := num_free_slots c + k\<rparr>))
      else Inr c)"
  by pat_completeness auto
termination by (relation "measure (\<lambda>(n, c). length (freeable c))") auto

declare ec_evict_loop.simps [simp del]

definition ec_can_allocate ::
  "request \<Rightarrow> int \<Rightarrow> int \<Rightarrow> int \<Rightarrow> enc_cache \<Rightarrow> (bool \<times> enc_cache) res" where
  "ec_can_allocate r input_id encoder_compute_budget num_embeds_to_schedule c =
     res_bind (get_num_encoder_embeds r input_id) (\<lambda>k.
       if k > encoder_compute_budget then Inr (False, c)
       else
         (let n = k + num_embeds_to_schedule in
          if n \<le> num_free_slots c then Inr (True, c)
          else if n > num_freeable_slots c then Inr (False, c)
          else res_bind (ec_evict_loop n c) (\<lambda>c1. Inr (True, c1))))"

definition ec_allocate :: "request \<Rightarrow> int \<Rightarrow> enc_cache \<Rightarrow> enc_cache res" where
  "ec_allocate r input_id c =
     res_bind (mm_hash_of r input_id) (\<lambda>h.
     res_bind (get_num_encoder_embeds r input_id) (\<lambda>k.
       require (num_free_slots c \<ge> k) AssertionError
       (require (num_freeable_slots c \<ge> k) AssertionError
         (let refs = (case map_of (cached c) h of None \<Rightarrow> [] | Some refs \<Rightarrow> refs) in
          Inr (c\<lparr>cached := AList.update h (List.insert (request_id r) refs) (cached c),
            num_free_slots := num_free_slots c - k,
            num_freeable_slots := num_freeable_slots c - k\<rparr>)))))"

definition ec_get_cached_input_ids :: "request \<Rightarrow> enc_cache \<Rightarrow> int list" where
  "ec_get_cached_input_ids r c =
     filter (\<lambda>i. map_of (cached c) (mm_identifier (mm_features r ! nat i)) \<noteq> None)
       [0..int (length (mm_features r)) - 1]"

definition ec_free_encoder_input :: "request \<Rightarrow> int \<Rightarrow> enc_cache \<Rightarrow> enc_cache res" where
  "ec_free_encoder_input r input_id c =
     res_bind (mm_hash_of r input_id) (\<lambda>h.
       case map_of (cached c) h of
         None \<Rightarrow> Inr c
       | Some refs \<Rightarrow>
           if refs = [] then Inr c
           else
             (let refs' = removeAll (request_id r) refs;
                  c1 = c\<lparr>cached := AList.update h refs' (cached c)\<rparr> in
              if refs' = [] then
                res_bind (get_num_encoder_embeds r input_id) (\<lambda>k.
                  Inr (c1\<lparr>freeable := AList.update h k (freeable c1),
                    num_freeable_slots := num_freeable_slots c1 + k\<rparr>))
              else Inr c1))"

definition ec_free :: "request \<Rightarrow> enc_cache \<Rightarrow> enc_cache res" where
  "ec_free r c = fold_res (ec_free_encoder_input r) (ec_get_cached_input_ids r c) c"

definition ec_get_freed_mm_hashes :: "enc_cache \<Rightarrow> string list \<times> enc_cache" where
  "ec_get_freed_mm_hashes c = (freed c, c\<lparr>freed := []\<rparr>)"

text \<open>\<open>max\<close> of an empty mapping is not reached; \<open>mm_max_toks_per_item\<close> is an association list.\<close>

definition compute_mm_encoder_budget ::
  "bool \<Rightarrow> int \<Rightarrow> int \<Rightarrow> int \<Rightarrow> (string \<times> int) list \<Rightarrow> (int \<times> int) res" where
  "compute_mm_encoder_budget disable_chunked_mm_input max_num_batched_tokens
     max_num_encoder_input_tokens enc_cache_size mm_max_toks_per_item =
     (if mm_max_toks_per_item = [] then Inr (0, 0)
      else
        (let m = fold max (map snd (tl mm_max_toks_per_item)) (snd (hd mm_max_toks_per_item)) in
         require (\<not> (disable_chunked_mm_input \<and> m > max_num_batched_tokens)) ValueError
           (Inr (max max_num_encoder_input_tokens m, max enc_cache_size m))))"

text \<open>\<open>EncoderDecoderCacheManager\<close>.\<close>

record encdec_cache =
  ed_cache_size :: int
  ed_num_free_slots :: int
  ed_allocated :: "string list"
  ed_to_free :: "string list"

definition init_encdec_cache :: "int \<Rightarrow> encdec_cache" where
  "init_encdec_cache n = \<lparr>ed_cache_size = n, ed_num_free_slots = n, ed_allocated = [],
     ed_to_free = []\<rparr>"

definition ed_reset :: "encdec_cache \<Rightarrow> encdec_cache" where
  "ed_reset c = c\<lparr>ed_num_free_slots := ed_cache_size c, ed_allocated := [], ed_to_free := []\<rparr>"

definition ed_can_allocate :: "request \<Rightarrow> int \<Rightarrow> int \<Rightarrow> int \<Rightarrow> encdec_cache \<Rightarrow> bool res" where
  "ed_can_allocate r input_id encoder_compute_budget num_embeds_to_schedule c =
     res_bind (get_num_encoder_embeds r input_id) (\<lambda>k.
       if k > encoder_compute_budget then Inr False
       else Inr (k + num_embeds_to_schedule \<le> ed_num_free_slots c))"

definition ed_allocate :: "request \<Rightarrow> int \<Rightarrow> encdec_cache \<Rightarrow> encdec_cache res" where
  "ed_allocate r input_id c =
     res_bind (get_num_encoder_embeds r input_id) (\<lambda>k.
     res_bind (mm_hash_of r input_id) (\<lambda>h.
       Inr (c\<lparr>ed_num_free_slots := ed_num_free_slots c - k, ed_allocated := ed_allocated c @ [h]\<rparr>)))"

definition ed_free_encoder_input :: "request \<Rightarrow> int \<Rightarrow> encdec_cache \<Rightarrow> encdec_cache res" where
  "ed_free_encoder_input r input_id c =
     res_bind (get_num_encoder_embeds r input_id) (\<lambda>k.
       Inr (c\<lparr>ed_num_free_slots := ed_num_free_slots c + k\<rparr>))"

definition ed_free :: "request \<Rightarrow> encdec_cache \<Rightarrow> encdec_cache res" where
  "ed_free r c = fold_res (ed_free_encoder_input r) [0..int (length (mm_features r)) - 1] c"

definition ed_get_cached_input_ids :: "request \<Rightarrow> int list" where
  "ed_get_cached_input_ids r = [0..int (length (mm_features r)) - 1]"

definition ed_get_freed_mm_hashes :: "encdec_cache \<Rightarrow> string list \<times> encdec_cache" where
  "ed_get_freed_mm_hashes c =
     (ed_to_free c, c\<lparr>ed_to_free := ed_allocated c, ed_allocated := []\<rparr>)"

section \<open>The state of the cache\<close>

text \<open>
  \<open>sz\<close> gives the number of embeddings of an input by its identifier: the identifier is the hash of
  the input, so that requests which share it agree on the size.
\<close>

definition sizes_ok :: "(string \<Rightarrow> int) \<Rightarrow> request \<Rightarrow> bool" where
  "sizes_ok sz r \<longleftrightarrow> (\<forall>f \<in> set (mm_features r).
     get_num_embeds (mm_position f) = Inr (sz (mm_identifier f)) \<and> 0 \<le> sz (mm_identifier f))"

definition total_size :: "(string \<Rightarrow> int) \<Rightarrow> string list \<Rightarrow> int" where
  "total_size sz hs = sum_list (map sz hs)"

definition cached_hashes :: "enc_cache \<Rightarrow> string list" where
  "cached_hashes c = map fst (cached c)"

definition unreferenced :: "enc_cache \<Rightarrow> string list" where
  "unreferenced c = map fst (filter (\<lambda>(h, refs). refs = []) (cached c))"

definition ec_ok :: "(string \<Rightarrow> int) \<Rightarrow> enc_cache \<Rightarrow> bool" where
  "ec_ok sz c \<longleftrightarrow>
     distinct (cached_hashes c) \<and> distinct (map fst (freeable c))
     \<and> (\<forall>h. map_of (cached c) h = Some [] \<longleftrightarrow> h \<in> fst ` set (freeable c))
     \<and> (\<forall>(h, k) \<in> set (freeable c). k = sz h)
     \<and> (\<forall>h \<in> set (cached_hashes c). 0 \<le> sz h)
     \<and> num_free_slots c = cache_size c - total_size sz (cached_hashes c)
     \<and> num_freeable_slots c = num_free_slots c + total_size sz (map fst (freeable c))
     \<and> 0 \<le> num_free_slots c"

lemma total_size_simps [simp]:
  "total_size sz [] = 0" "total_size sz (h # hs) = sz h + total_size sz hs"
  "total_size sz (hs @ hs') = total_size sz hs + total_size sz hs'"
  by (simp_all add: total_size_def)

lemma total_size_nonneg: "(\<And>h. h \<in> set hs \<Longrightarrow> 0 \<le> sz h) \<Longrightarrow> 0 \<le> total_size sz hs"
  unfolding total_size_def by (intro sum_list_nonneg) auto

lemma total_size_removeAll:
  "distinct hs \<Longrightarrow> total_size sz (removeAll h hs)
     = total_size sz hs - (if h \<in> set hs then sz h else 0)"
  by (induction hs) auto

lemma keys_delete [simp]: "map fst (AList.delete h al) = removeAll h (map fst al)"
  by (induction al) (auto simp: AList.delete_eq)

lemma keys_update: "map fst (AList.update h v al)
    = (if h \<in> fst ` set al then map fst al else map fst al @ [h])"
  by (induction al) auto

lemma ec_okD:
  assumes "ec_ok sz c"
  shows "distinct (map fst (cached c))" "distinct (map fst (freeable c))"
    "map_of (cached c) h = Some [] \<longleftrightarrow> h \<in> fst ` set (freeable c)"
    "(h, k) \<in> set (freeable c) \<Longrightarrow> k = sz h"
    "h \<in> fst ` set (cached c) \<Longrightarrow> 0 \<le> sz h"
    "num_free_slots c = cache_size c - total_size sz (map fst (cached c))"
    "num_freeable_slots c = num_free_slots c + total_size sz (map fst (freeable c))"
    "0 \<le> num_free_slots c"
  using assms by (auto simp: ec_ok_def cached_hashes_def)

lemma ec_okI:
  assumes "distinct (map fst (cached c))" "distinct (map fst (freeable c))"
    "\<And>h. map_of (cached c) h = Some [] \<longleftrightarrow> h \<in> fst ` set (freeable c)"
    "\<And>h k. (h, k) \<in> set (freeable c) \<Longrightarrow> k = sz h"
    "\<And>h. h \<in> fst ` set (cached c) \<Longrightarrow> 0 \<le> sz h"
    "num_free_slots c = cache_size c - total_size sz (map fst (cached c))"
    "num_freeable_slots c = num_free_slots c + total_size sz (map fst (freeable c))"
    "0 \<le> num_free_slots c"
  shows "ec_ok sz c"
  using assms by (auto simp: ec_ok_def cached_hashes_def)

lemma freeable_cached: "ec_ok sz c \<Longrightarrow> h \<in> fst ` set (freeable c) \<Longrightarrow> h \<in> fst ` set (cached c)"
  using ec_okD(3) [of sz c h] by (metis fst_conv image_eqI map_of_SomeD)

lemma init_ec_ok: "0 \<le> n \<Longrightarrow> ec_ok sz (init_enc_cache n)"
  by (rule ec_okI) (simp_all add: init_enc_cache_def)

lemma reset_ec_ok: "0 \<le> cache_size c \<Longrightarrow> ec_ok sz (ec_reset c)"
  by (rule ec_okI) (simp_all add: ec_reset_def)

section \<open>Eviction\<close>

lemma delete_filter: "AList.delete h al = filter (\<lambda>x. fst x \<noteq> h) al"
  unfolding AList.delete_eq by (rule filter_cong) auto

lemma map_of_filter_keys:
  "map_of (filter (\<lambda>x. fst x \<notin> G) al) h = (if h \<in> G then None else map_of al h)"
  by (induction al) auto

text \<open>The state after \<open>j\<close> evictions.\<close>

definition evicted :: "nat \<Rightarrow> enc_cache \<Rightarrow> enc_cache" where
  "evicted j c = c\<lparr>freeable := drop j (freeable c),
     cached := filter (\<lambda>x. fst x \<notin> fst ` set (take j (freeable c))) (cached c),
     freed := freed c @ map fst (take j (freeable c)),
     num_free_slots := num_free_slots c + sum_list (map snd (take j (freeable c)))\<rparr>"

lemma evicted_0 [simp]: "evicted 0 c = c"
  by (simp add: evicted_def)

lemma evicted_Suc:
  assumes "freeable c = (h, k) # rest"
  shows "evicted j (c\<lparr>freeable := rest, cached := AList.delete h (cached c),
       freed := freed c @ [h], num_free_slots := num_free_slots c + k\<rparr>) = evicted (Suc j) c"
proof -
  have "(\<lambda>x. fst x \<noteq> h \<and> fst x \<notin> G) = (\<lambda>x. fst x \<notin> insert h G)" for G by auto
  then show ?thesis by (simp add: evicted_def assms delete_filter add.assoc)
qed

lemma evict_one_ok:
  assumes ok: "ec_ok sz c" and f: "freeable c = (h, k) # rest"
  shows "ec_ok sz (c\<lparr>freeable := rest, cached := AList.delete h (cached c),
       freed := freed c @ [h], num_free_slots := num_free_slots c + k\<rparr>)" (is "ec_ok sz ?d")
    and "map_of (cached c) h \<noteq> None" "k = sz h" "0 \<le> k"
proof -
  note C = ec_okD [OF ok]
  have h: "h \<in> fst ` set (cached c)" using freeable_cached [OF ok, of h] f by simp
  show k: "k = sz h" using C(4) f by simp
  show "0 \<le> k" using C(5) [OF h] k by simp
  have "map_of (cached c) h = Some []" using C(3) f by simp
  then show "map_of (cached c) h \<noteq> None" by simp
  show "ec_ok sz ?d"
  proof (rule ec_okI)
    show "map_of (cached ?d) g = Some [] \<longleftrightarrow> g \<in> fst ` set (freeable ?d)" for g
      using C(2) [unfolded f] C(3) [of g, unfolded f] by (auto simp: delete_conv')
    show "num_free_slots ?d = cache_size ?d - total_size sz (map fst (cached ?d))"
      using C(6) k h by (simp add: total_size_removeAll [OF C(1)])
    show "num_freeable_slots ?d = num_free_slots ?d + total_size sz (map fst (freeable ?d))"
      using C(7) k f by simp
    show "0 \<le> num_free_slots ?d" using C(8) \<open>0 \<le> k\<close> by simp
    show "g \<in> fst ` set (cached ?d) \<Longrightarrow> 0 \<le> sz g" for g
      using C(5) [of g] by (auto simp: AList.delete_eq)
  qed (use C(1,2,4) f in \<open>auto simp: distinct_removeAll simp del: set_map\<close>)
qed

lemma evict_loop_effect:
  assumes "ec_ok sz c" and "n \<le> num_freeable_slots c"
  shows "\<exists>j. ec_evict_loop n c = Inr (evicted j c) \<and> ec_ok sz (evicted j c)
    \<and> n \<le> num_free_slots (evicted j c) \<and> j \<le> length (freeable c)
    \<and> (\<forall>i < j. num_free_slots (evicted i c) < n)"
  using assms
proof (induction "length (freeable c)" arbitrary: c)
  case 0
  then have "n \<le> num_free_slots c" using ec_okD(7) [OF 0(2)] by simp
  then show ?case using 0 by (intro exI [of _ 0]) (simp add: ec_evict_loop.simps)
next
  case (Suc m)
  show ?case
  proof (cases "n \<le> num_free_slots c")
    case True
    then show ?thesis using Suc.prems by (intro exI [of _ 0]) (simp add: ec_evict_loop.simps)
  next
    case False
    obtain h k rest where f: "freeable c = (h, k) # rest"
      using Suc.hyps(2) by (cases "freeable c") auto
    let ?d = "c\<lparr>freeable := rest, cached := AList.delete h (cached c),
       freed := freed c @ [h], num_free_slots := num_free_slots c + k\<rparr>"
    note one = evict_one_ok [OF Suc.prems(1) f]
    have "m = length (freeable ?d)" "n \<le> num_freeable_slots ?d"
      using Suc.hyps(2) Suc.prems(2) f by simp_all
    from Suc.hyps(1) [OF this(1) one(1) this(2)] obtain j where
      j: "ec_evict_loop n ?d = Inr (evicted j ?d)" "ec_ok sz (evicted j ?d)"
        "n \<le> num_free_slots (evicted j ?d)" "j \<le> length (freeable ?d)"
        "\<forall>i < j. num_free_slots (evicted i ?d) < n" by blast
    note E = evicted_Suc [OF f]
    have "ec_evict_loop n c = Inr (evicted (Suc j) c)"
      using False f one(2) j(1) E by (subst ec_evict_loop.simps) auto
    moreover have "num_free_slots (evicted i c) < n" if "i < Suc j" for i
      using that j(5) False E by (cases i) auto
    ultimately show ?thesis using j E f by (intro exI [of _ "Suc j"]) simp
  qed
qed

section \<open>The operations\<close>

definition ident :: "request \<Rightarrow> int \<Rightarrow> string" where
  "ident r i = mm_identifier (mm_features r ! nat i)"

definition input_of :: "request \<Rightarrow> int \<Rightarrow> bool" where
  "input_of r i \<longleftrightarrow> 0 \<le> i \<and> i < int (length (mm_features r))"

lemma input_facts:
  assumes "input_of r i"
  shows "mm_hash_of r i = Inr (ident r i)"
    and "sizes_ok sz r \<Longrightarrow> get_num_encoder_embeds r i = Inr (sz (ident r i))"
    and "sizes_ok sz r \<Longrightarrow> 0 \<le> sz (ident r i)"
proof -
  have i: "0 \<le> i" "i < int (length (mm_features r))" using assms by (simp_all add: input_of_def)
  then have m: "mm_features r ! nat i \<in> set (mm_features r)" by (simp add: nat_less_iff)
  show "mm_hash_of r i = Inr (ident r i)" using i by (simp add: mm_hash_of_def ident_def)
  show "get_num_encoder_embeds r i = Inr (sz (ident r i))" "0 \<le> sz (ident r i)"
    if "sizes_ok sz r"
    using that m i by (simp_all add: get_num_encoder_embeds_def ident_def sizes_ok_def)
qed

definition refs_of :: "enc_cache \<Rightarrow> string \<Rightarrow> req_id set" where
  "refs_of c h = (case map_of (cached c) h of None \<Rightarrow> {} | Some refs \<Rightarrow> set refs)"

lemma refs_of_evicted:
  assumes "ec_ok sz c"
  shows "refs_of (evicted j c) h = refs_of c h"
proof -
  let ?G = "fst ` set (take j (freeable c))"
  have m: "map_of (cached (evicted j c)) h = (if h \<in> ?G then None else map_of (cached c) h)"
    by (simp add: evicted_def map_of_filter_keys)
  have "map_of (cached c) h = Some []" if "h \<in> ?G"
    using that ec_okD(3) [OF assms, of h] by (meson image_mono set_take_subset subsetD)
  then show ?thesis using m by (auto simp: refs_of_def)
qed

lemma freeable_bound: "ec_ok sz c \<Longrightarrow> num_free_slots c \<le> num_freeable_slots c"
  using ec_okD(5,7) [of sz c] freeable_cached [of sz c]
    total_size_nonneg [of "map fst (freeable c)" sz] by fastforce

lemma can_allocate_effect:
  assumes ok: "ec_ok sz c" and r: "sizes_ok sz r" "input_of r i"
    and "need = sz (ident r i) + pending"
    and b: "b = (sz (ident r i) \<le> budget \<and> need \<le> num_freeable_slots c)"
  shows "\<exists>j. ec_can_allocate r i budget pending c = Inr (b, evicted j c)
    \<and> ec_ok sz (evicted j c) \<and> (\<forall>h. refs_of (evicted j c) h = refs_of c h)
    \<and> (b \<longrightarrow> need \<le> num_free_slots (evicted j c)) \<and> (\<not> b \<longrightarrow> j = 0)
    \<and> (\<forall>k < j. num_free_slots (evicted k c) < need)"
proof -
  note g = input_facts(2) [OF r(2,1)]
  note def = ec_can_allocate_def g res_bind_Inr Let_def assms(4) [symmetric]
  show ?thesis
  proof (cases "sz (ident r i) \<le> budget \<and> num_free_slots c < need \<and> need \<le> num_freeable_slots c")
    case True
    then have "b" using b by simp
    from True evict_loop_effect [OF ok, of need] obtain j where
      j: "ec_evict_loop need c = Inr (evicted j c)" "ec_ok sz (evicted j c)"
        "need \<le> num_free_slots (evicted j c)" "\<forall>k < j. num_free_slots (evicted k c) < need" by blast
    then show ?thesis using True \<open>b\<close> refs_of_evicted [OF ok]
      by (intro exI [of _ j]) (simp add: def)
  next
    case False
    then show ?thesis using b ok freeable_bound [OF ok]
      by (intro exI [of _ 0]) (auto simp: def)
  qed
qed

lemma check_cache_effect:
  assumes ok: "ec_ok sz c" and r: "input_of r i" and h: "h = ident r i"
  shows "\<exists>c'. ec_check_and_update_cache r i c = Inr (h \<in> set (cached_hashes c), c')
    \<and> ec_ok sz c' \<and> cached_hashes c' = cached_hashes c \<and> num_free_slots c' = num_free_slots c
    \<and> cache_size c' = cache_size c
    \<and> (\<forall>g. refs_of c' g = refs_of c g \<union>
         (if g = h \<and> h \<in> set (cached_hashes c) then {request_id r} else {}))"
proof (cases "map_of (cached c) h")
  case None
  then have "h \<notin> set (cached_hashes c)" by (simp add: cached_hashes_def map_of_eq_None_iff)
  then show ?thesis using None ok
    by (simp add: ec_check_and_update_cache_def input_facts(1) [OF r] h [symmetric])
next
  case (Some refs)
  note C = ec_okD [OF ok]
  have hin: "h \<in> fst ` set (cached c)" using Some by (metis fst_conv image_eqI map_of_SomeD)
  let ?new = "AList.update h (List.insert (request_id r) refs) (cached c)"
  have keys: "map fst ?new = map fst (cached c)" using hin by (simp add: keys_update)
  then have fkeys: "fst ` set ?new = fst ` set (cached c)" by (metis list.set_map)
  have upd: "map_of ?new g = (if g = h then Some (List.insert (request_id r) refs) else map_of (cached c) g)"
    for g by (simp add: update_conv')
  have ref: "(case map_of ?new g of None \<Rightarrow> {} | Some refs \<Rightarrow> set refs)
      = refs_of c g \<union> (if g = h then {request_id r} else {})" for g
    using Some by (simp add: upd refs_of_def)
  have nonempty: "List.insert (request_id r) refs \<noteq> []" by (auto simp: List.insert_def)
  show ?thesis
  proof (cases "refs = []")
    case True
    then have "h \<in> fst ` set (freeable c)" using C(3) Some by simp
    then obtain k where k: "map_of (freeable c) h = Some k" "k = sz h"
      using C(4) by (metis map_of_SomeD map_of_eq_None_iff not_None_eq)
    let ?d = "c\<lparr>freeable := AList.delete h (freeable c),
       num_freeable_slots := num_freeable_slots c - k, cached := ?new\<rparr>"
    have "ec_check_and_update_cache r i c = Inr (True, ?d)"
      using Some True k by (simp add: ec_check_and_update_cache_def input_facts(1) [OF r] h [symmetric])
    moreover have "ec_ok sz ?d"
    proof (rule ec_okI)
      show "map_of (cached ?d) g = Some [] \<longleftrightarrow> g \<in> fst ` set (freeable ?d)" for g
        using C(3) [of g] nonempty by (auto simp: upd delete_filter)
      show "num_freeable_slots ?d = num_free_slots ?d + total_size sz (map fst (freeable ?d))"
        using C(7) k \<open>h \<in> fst ` set (freeable c)\<close> by (simp add: total_size_removeAll [OF C(2)])
      show "g \<in> fst ` set (cached ?d) \<Longrightarrow> 0 \<le> sz g" for g using C(5) fkeys by simp
      show "num_free_slots ?d = cache_size ?d - total_size sz (map fst (cached ?d))"
        using C(6) keys by simp
      show "distinct (map fst (cached ?d))" using C(1) keys by simp
      show "distinct (map fst (freeable ?d))" using C(2) by (simp add: distinct_removeAll)
    qed (use C(4,8) in \<open>auto simp: delete_filter\<close>)
    ultimately show ?thesis using hin keys ref by (auto simp: cached_hashes_def refs_of_def)
  next
    case False
    let ?d = "c\<lparr>cached := ?new\<rparr>"
    have "ec_check_and_update_cache r i c = Inr (True, ?d)"
      using Some False by (simp add: ec_check_and_update_cache_def input_facts(1) [OF r] h [symmetric])
    moreover have "ec_ok sz ?d"
    proof (rule ec_okI)
      show "map_of (cached ?d) g = Some [] \<longleftrightarrow> g \<in> fst ` set (freeable ?d)" for g
        using C(3) [of g] nonempty False Some by (auto simp: upd)
      show "g \<in> fst ` set (cached ?d) \<Longrightarrow> 0 \<le> sz g" for g using C(5) fkeys by simp
      show "num_free_slots ?d = cache_size ?d - total_size sz (map fst (cached ?d))"
        using C(6) keys by simp
      show "distinct (map fst (cached ?d))" using C(1) keys by simp
    qed (use C in auto)
    ultimately show ?thesis using hin keys ref by (auto simp: cached_hashes_def refs_of_def)
  qed
qed

lemma allocate_effect:
  assumes ok: "ec_ok sz c" and r: "sizes_ok sz r" "input_of r i" and h: "h = ident r i"
    and new: "h \<notin> set (cached_hashes c)" and fits: "sz h \<le> num_free_slots c"
  shows "\<exists>c'. ec_allocate r i c = Inr c' \<and> ec_ok sz c'
    \<and> cached_hashes c' = cached_hashes c @ [h] \<and> num_free_slots c' = num_free_slots c - sz h
    \<and> cache_size c' = cache_size c
    \<and> (\<forall>g. refs_of c' g = refs_of c g \<union> (if g = h then {request_id r} else {}))"
proof -
  note C = ec_okD [OF ok]
  have h0: "h \<notin> fst ` set (cached c)" using new by (simp add: cached_hashes_def)
  then have n: "map_of (cached c) h = None" by (simp add: map_of_eq_None_iff)
  let ?d = "c\<lparr>cached := AList.update h [request_id r] (cached c),
     num_free_slots := num_free_slots c - sz h, num_freeable_slots := num_freeable_slots c - sz h\<rparr>"
  have keys: "map fst (AList.update h [request_id r] (cached c)) = map fst (cached c) @ [h]"
    using h0 by (simp add: keys_update)
  then have fkeys: "fst ` set (AList.update h [request_id r] (cached c)) = insert h (fst ` set (cached c))"
    by (metis Un_insert_right list.set(1) list.simps(15) set_append set_map sup_bot_right)
  have "ec_allocate r i c = Inr ?d"
    using fits freeable_bound [OF ok] n
    by (simp add: ec_allocate_def input_facts(1) [OF r(2)] input_facts(2) [OF r(2,1)] h [symmetric] Let_def)
  moreover have "ec_ok sz ?d"
  proof (rule ec_okI)
    show "map_of (cached ?d) g = Some [] \<longleftrightarrow> g \<in> fst ` set (freeable ?d)" for g
      using C(3) [of g] h0 freeable_cached [OF ok, of g] by (auto simp: update_conv')
    show "num_free_slots ?d = cache_size ?d - total_size sz (map fst (cached ?d))"
      using C(6) keys by simp
    show "distinct (map fst (cached ?d))" using C(1) keys h0 by simp
    show "0 \<le> sz g" if "g \<in> fst ` set (cached ?d)" for g
    proof -
      have "g \<in> insert h (fst ` set (cached c))" unfolding fkeys [symmetric] using that by simp
      then show ?thesis using C(5) [of g] input_facts(3) [OF r(2,1)] h by blast
    qed
  qed (use C fits in auto)
  moreover have "refs_of ?d g = refs_of c g \<union> (if g = h then {request_id r} else {})" for g
    using n by (simp add: refs_of_def update_conv')
  ultimately show ?thesis using keys by (auto simp: cached_hashes_def)
qed

lemma free_input_effect:
  assumes ok: "ec_ok sz c" and r: "sizes_ok sz r" "input_of r i" and h: "h = ident r i"
  shows "\<exists>c'. ec_free_encoder_input r i c = Inr c' \<and> ec_ok sz c'
    \<and> cached_hashes c' = cached_hashes c \<and> num_free_slots c' = num_free_slots c
    \<and> cache_size c' = cache_size c
    \<and> (\<forall>g. refs_of c' g = refs_of c g - (if g = h then {request_id r} else {}))"
proof -
  note C = ec_okD [OF ok]
  note def = ec_free_encoder_input_def input_facts(1) [OF r(2)] input_facts(2) [OF r(2,1)]
    h [symmetric] Let_def
  consider (none) "refs_of c h = {}" | (refs) refs where "map_of (cached c) h = Some refs" "refs \<noteq> []"
    by (cases "map_of (cached c) h") (auto simp: refs_of_def)
  then show ?thesis
  proof cases
    case none
    then have "ec_free_encoder_input r i c = Inr c"
      by (cases "map_of (cached c) h") (auto simp: def refs_of_def)
    then show ?thesis using ok none by auto
  next
    case refs
    let ?rest = "removeAll (request_id r) refs"
    let ?new = "AList.update h ?rest (cached c)"
    have hin: "h \<in> fst ` set (cached c)" using refs(1) by (metis fst_conv image_eqI map_of_SomeD)
    have keys: "map fst ?new = map fst (cached c)" using hin by (simp add: keys_update)
    then have fkeys: "fst ` set ?new = fst ` set (cached c)" by (metis list.set_map)
    have upd: "map_of ?new g = (if g = h then Some ?rest else map_of (cached c) g)" for g
      by (simp add: update_conv')
    have ref: "(case map_of ?new g of None \<Rightarrow> {} | Some refs \<Rightarrow> set refs)
        = refs_of c g - (if g = h then {request_id r} else {})" for g
      using refs by (simp add: upd refs_of_def)
    have hf: "h \<notin> fst ` set (freeable c)" using C(3) [of h] refs by simp
    show ?thesis
    proof (cases "?rest = []")
      case True
      let ?d = "c\<lparr>cached := ?new, freeable := AList.update h (sz h) (freeable c),
         num_freeable_slots := num_freeable_slots c + sz h\<rparr>"
      have fk: "map fst (AList.update h (sz h) (freeable c)) = map fst (freeable c) @ [h]"
        using hf by (simp add: keys_update)
      have "ec_free_encoder_input r i c = Inr ?d" using refs True by (simp add: def)
      moreover have "ec_ok sz ?d"
      proof (rule ec_okI)
        have "fst ` set (AList.update h (sz h) (freeable c)) = set (map fst (freeable c) @ [h])"
          unfolding fk [symmetric] by simp
        then show "map_of (cached ?d) g = Some [] \<longleftrightarrow> g \<in> fst ` set (freeable ?d)" for g
          using C(3) [of g] True by (auto simp: update_conv')
        show "k = sz g" if "(g, k) \<in> set (freeable ?d)" for g k
        proof -
          have "distinct (map fst (freeable ?d))" using C(2) hf fk by simp
          then have "map_of (freeable ?d) g = Some k" using that by (rule map_of_is_SomeI)
          then show ?thesis using C(4) [of g k] map_of_SomeD [of "freeable c" g k]
            by (auto simp: update_conv' split: if_splits)
        qed
        show "num_freeable_slots ?d = num_free_slots ?d + total_size sz (map fst (freeable ?d))"
          using C(7) fk by simp
        show "num_free_slots ?d = cache_size ?d - total_size sz (map fst (cached ?d))"
          using C(6) keys by simp
        show "distinct (map fst (cached ?d))" using C(1) keys by simp
        show "distinct (map fst (freeable ?d))" using C(2) hf fk by simp
        show "g \<in> fst ` set (cached ?d) \<Longrightarrow> 0 \<le> sz g" for g using C(5) fkeys by simp
      qed (use C(8) in simp)
      ultimately show ?thesis using keys ref by (auto simp: cached_hashes_def refs_of_def)
    next
      case False
      let ?d = "c\<lparr>cached := ?new\<rparr>"
      have "ec_free_encoder_input r i c = Inr ?d" using refs False by (simp add: def)
      moreover have "ec_ok sz ?d"
      proof (rule ec_okI)
        show "map_of (cached ?d) g = Some [] \<longleftrightarrow> g \<in> fst ` set (freeable ?d)" for g
          using C(3) [of g] False hf by (auto simp: upd)
        show "g \<in> fst ` set (cached ?d) \<Longrightarrow> 0 \<le> sz g" for g using C(5) fkeys by simp
        show "num_free_slots ?d = cache_size ?d - total_size sz (map fst (cached ?d))"
          using C(6) keys by simp
        show "distinct (map fst (cached ?d))" using C(1) keys by simp
      qed (use C in auto)
      ultimately show ?thesis using keys ref by (auto simp: cached_hashes_def refs_of_def)
    qed
  qed
qed

lemma free_inputs_effect:
  assumes "ec_ok sz c" "sizes_ok sz r" "\<forall>i \<in> set is. input_of r i"
  shows "\<exists>c'. fold_res (ec_free_encoder_input r) is c = Inr c' \<and> ec_ok sz c'
    \<and> cached_hashes c' = cached_hashes c \<and> num_free_slots c' = num_free_slots c
    \<and> cache_size c' = cache_size c
    \<and> (\<forall>g. refs_of c' g = refs_of c g - (if g \<in> ident r ` set is then {request_id r} else {}))"
  using assms(1,3)
proof (induction "is" arbitrary: c)
  case (Cons i "is")
  from free_input_effect [OF Cons.prems(1) assms(2) _ refl, of i] Cons.prems(2) obtain d where
    d: "ec_free_encoder_input r i c = Inr d" "ec_ok sz d" "cached_hashes d = cached_hashes c"
      "num_free_slots d = num_free_slots c" "cache_size d = cache_size c"
      "\<And>g. refs_of d g = refs_of c g - (if g = ident r i then {request_id r} else {})" by auto
  from Cons.IH [OF d(2)] Cons.prems(2) obtain e where
    "fold_res (ec_free_encoder_input r) is d = Inr e" "ec_ok sz e" "cached_hashes e = cached_hashes d"
      "num_free_slots e = num_free_slots d" "cache_size e = cache_size d"
      "\<And>g. refs_of e g = refs_of d g - (if g \<in> ident r ` set is then {request_id r} else {})" by auto
  with d show ?case by auto
qed simp

lemma cached_input_ids: "set (ec_get_cached_input_ids r c)
    = {i. input_of r i \<and> ident r i \<in> set (cached_hashes c)}"
  by (auto simp: ec_get_cached_input_ids_def input_of_def ident_def cached_hashes_def
      map_of_eq_None_iff)

lemma free_effect:
  assumes "ec_ok sz c" "sizes_ok sz r"
  shows "\<exists>c'. ec_free r c = Inr c' \<and> ec_ok sz c' \<and> cached_hashes c' = cached_hashes c
    \<and> num_free_slots c' = num_free_slots c \<and> cache_size c' = cache_size c
    \<and> (\<forall>g. refs_of c' g = refs_of c g - (if g \<in> ident r ` {i. input_of r i} then {request_id r} else {}))"
proof -
  let ?is = "ec_get_cached_input_ids r c"
  from free_inputs_effect [OF assms, of ?is] obtain c' where c':
    "ec_free r c = Inr c'" "ec_ok sz c'" "cached_hashes c' = cached_hashes c"
    "num_free_slots c' = num_free_slots c" "cache_size c' = cache_size c"
    "\<And>g. refs_of c' g = refs_of c g - (if g \<in> ident r ` set ?is then {request_id r} else {})"
    by (auto simp: ec_free_def cached_input_ids)
  have "refs_of c g = {}" if "g \<notin> set (cached_hashes c)" for g
    using that by (simp add: refs_of_def cached_hashes_def map_of_eq_None_iff [THEN iffD2])
  then have "refs_of c' g = refs_of c g
      - (if g \<in> ident r ` {i. input_of r i} then {request_id r} else {})" for g
    using c'(6) [of g] by (auto simp: cached_input_ids)
  with c' show ?thesis by blast
qed

section \<open>Properties\<close>

text \<open>An image of ten embeddings at position 0, in a cache of twelve.\<close>

definition image_request :: "req_id \<Rightarrow> string \<Rightarrow> request" where
  "image_request rid h = (sample_request rid (replicate 12 1))\<lparr>mm_features :=
     [\<lparr>mm_identifier = h, mm_position = \<lparr>offset = 0, ph_length = 10, is_embed = None\<rparr>\<rparr>]\<rparr>"

definition image_cache :: enc_cache where
  "image_cache = \<lparr>cache_size = 12, num_free_slots = 2, num_freeable_slots = 12,
     cached = [(''img1'', [])], freeable = [(''img1'', 10)], freed = []\<rparr>"

text \<open>
  C27. The admission check of the encoder cache is exact and evicts no more than needed: it says yes
  exactly when the input fits the compute budget and, together with the inputs already planned for
  this step, the space that is free or occupied by unreferenced entries. It then evicts the oldest
  unreferenced entries, one fewer of which would not have been enough, after which the input really
  fits; the eviction loop never runs out of entries and no entry that some request references is
  touched. When it says no the cache is unchanged.
\<close>

theorem can_allocate_exact:
  assumes ok: "ec_ok sz c" and r: "sizes_ok sz r" "input_of r i"
    and "need = sz (ident r i) + pending"
    and b: "b = (sz (ident r i) \<le> budget \<and> need \<le> num_freeable_slots c)"
  shows "\<exists>j. ec_can_allocate r i budget pending c = Inr (b, evicted j c)
    \<and> ec_ok sz (evicted j c) \<and> (\<forall>h. refs_of (evicted j c) h = refs_of c h)
    \<and> (b \<longrightarrow> need \<le> num_free_slots (evicted j c)) \<and> (\<not> b \<longrightarrow> j = 0)
    \<and> (\<forall>k < j. num_free_slots (evicted k c) < need)"
  by (rule can_allocate_effect [OF assms])

lemma can_allocate_exact_witness:
  "ec_can_allocate (image_request ''b'' ''img2'') 0 16 0 image_cache
     = Inr (True, evicted 1 image_cache)"
proof -
  have ok: "ec_ok (\<lambda>_. 10) image_cache" "sizes_ok (\<lambda>_. 10) (image_request ''b'' ''img2'')"
    "input_of (image_request ''b'' ''img2'') 0"
    by (auto simp: ec_ok_def image_cache_def cached_hashes_def sizes_ok_def image_request_def
        get_num_embeds_def input_of_def)
  have b: "True = ((\<lambda>_. 10) (ident (image_request ''b'' ''img2'') 0) \<le> (16::int)
      \<and> 10 \<le> num_freeable_slots image_cache)" by (simp add: image_cache_def)
  from can_allocate_exact [OF ok, of 10 0 True 16] b obtain j where
    j: "ec_can_allocate (image_request ''b'' ''img2'') 0 16 0 image_cache
          = Inr (True, evicted j image_cache)"
      "10 \<le> num_free_slots (evicted j image_cache)"
      "\<forall>k < j. num_free_slots (evicted k image_cache) < 10" by auto
  have "j = 1"
  proof -
    have "j \<noteq> 0" using j(2) by (cases j) (simp_all add: image_cache_def)
    moreover have "\<not> 1 < j" using j(3) by (auto simp: evicted_def image_cache_def dest!: spec [of _ 1])
    ultimately show ?thesis by simp
  qed
  then show ?thesis using j(1) by simp
qed

text \<open>
  C28. Freeing a request releases all its encoder inputs and keeps what it leaves behind: afterwards
  no entry for an input of the request counts it as a user, no other request's reference is
  dropped, and every entry stays cached, so that the space changes hands only by a later eviction.
  The bookkeeping stays consistent.
\<close>

theorem freeing_releases_inputs:
  assumes "ec_ok sz c" "sizes_ok sz r"
  shows "\<exists>c'. ec_free r c = Inr c' \<and> ec_ok sz c' \<and> cached_hashes c' = cached_hashes c
    \<and> (\<forall>i. input_of r i \<longrightarrow> request_id r \<notin> refs_of c' (ident r i))
    \<and> (\<forall>g rid. rid \<noteq> request_id r \<longrightarrow> (rid \<in> refs_of c' g \<longleftrightarrow> rid \<in> refs_of c g))"
proof -
  from free_effect [OF assms] obtain c' where c': "ec_free r c = Inr c'" "ec_ok sz c'"
    "cached_hashes c' = cached_hashes c"
    "\<And>g. refs_of c' g = refs_of c g
       - (if g \<in> ident r ` {i. input_of r i} then {request_id r} else {})" by blast
  have "request_id r \<notin> refs_of c' (ident r i)" if "input_of r i" for i
    using that by (auto simp: c'(4))
  moreover have "rid \<in> refs_of c' g \<longleftrightarrow> rid \<in> refs_of c g" if "rid \<noteq> request_id r" for g rid
    using that by (simp add: c'(4))
  ultimately show ?thesis using c'(1-3) by blast
qed

lemma freeing_releases_inputs_witness:
  "\<exists>c'. ec_free (image_request ''a'' ''img1'') (image_cache\<lparr>cached := [(''img1'', [''a''])],
      freeable := [], num_freeable_slots := 2\<rparr>) = Inr c' \<and> ''a'' \<notin> refs_of c' ''img1''"
proof -
  let ?r = "image_request ''a'' ''img1''"
  let ?c = "image_cache\<lparr>cached := [(''img1'', [''a''])], freeable := [], num_freeable_slots := 2\<rparr>"
  have ok: "ec_ok (\<lambda>_. 10) ?c" "sizes_ok (\<lambda>_. 10) ?r" "input_of ?r 0"
    by (auto simp: ec_ok_def image_cache_def cached_hashes_def sizes_ok_def image_request_def
        get_num_embeds_def input_of_def)
  have i: "ident ?r 0 = ''img1''" "request_id ?r = ''a''"
    by (simp_all add: ident_def image_request_def sample_request_def)
  from freeing_releases_inputs [OF ok(1,2)] ok(3) i show ?thesis by metis
qed

text \<open>
  The cache of encoder-decoder models loses its limit: every call of \<open>free_encoder_input\<close> adds
  the size of the input to the free slots, and the scheduler calls it for every input after every
  step once decoding has begun, so after one allocation and \<open>k\<close> such calls the cache of size \<open>n\<close>
  claims \<open>n + (k - 1)\<close> inputs' worth of free slots.
\<close>

theorem encdec_free_slots_grow:
  "res_bind (ed_allocate (image_request ''a'' h) 0 (init_encdec_cache n))
     (\<lambda>c. fold_res (ed_free_encoder_input (image_request ''a'' h)) (replicate k 0) c)
   = Inr \<lparr>ed_cache_size = n, ed_num_free_slots = n + (int k - 1) * 10, ed_allocated = [h],
       ed_to_free = []\<rparr>"
proof -
  let ?r = "image_request ''a'' h"
  have e: "get_num_encoder_embeds ?r 0 = Inr 10" and m: "mm_hash_of ?r 0 = Inr h"
    by (simp_all add: get_num_encoder_embeds_def mm_hash_of_def image_request_def get_num_embeds_def)
  have "fold_res (ed_free_encoder_input ?r) (replicate k 0) c
      = Inr (c\<lparr>ed_num_free_slots := ed_num_free_slots c + int k * 10\<rparr>)" for c
    by (induction k arbitrary: c) (simp_all add: ed_free_encoder_input_def e algebra_simps)
  then show ?thesis by (simp add: ed_allocate_def e m init_encdec_cache_def algebra_simps)
qed

end
