(* ===== verification/Sched_State.thy ===== *)
theory Sched_State
  imports Sched_Output Request_Queue Sched_Utils Encoder_Cache
begin

text \<open>
  The state of the scheduler (\<^verbatim>\<open>vllm/v1/core/sched/scheduler.py\<close>) and the operations on single
  requests that its steps are made of: preemption, choice of the queue, promotion of blocked
  requests, admission of encoder inputs.

  Request objects are shared by reference in the code: the same object is in \<open>self.requests\<close>, in a
  queue and in the local lists of a step. Here references are request ids and \<open>objects\<close> gives the
  object behind an id; \<open>requests\<close> holds the keys of the dict \<open>self.requests\<close>. Sets of ids are lists
  of their elements. The connectors, the grammars of structured outputs and the state behind them
  are code that the configuration chooses: they are the functions of an \<open>environment\<close> over a state
  of arbitrary type.
\<close>

section \<open>Configuration and state\<close>

record 'c environment =
  kv_matched_tokens :: "'c \<Rightarrow> request \<Rightarrow> int \<Rightarrow> (int option \<times> bool) \<times> 'c"
  kv_after_alloc :: "'c \<Rightarrow> request \<Rightarrow> kv_cache_blocks \<Rightarrow> int \<Rightarrow> 'c"
  kv_request_finished :: "'c \<Rightarrow> request \<Rightarrow> nat list list \<Rightarrow> (bool \<times> kv_transfer_params) \<times> 'c"
  kv_reset_cache :: "'c \<Rightarrow> bool \<times> 'c"
  kv_build_meta :: "'c \<Rightarrow> scheduler_output \<Rightarrow> 'c"
  kv_update_output :: "'c \<Rightarrow> kv_connector_output \<Rightarrow> 'c"
  kv_connector_events :: "'c \<Rightarrow> 'c"
  ec_build_meta :: "'c \<Rightarrow> scheduler_output \<Rightarrow> 'c"
  ec_has_cache_item :: "'c \<Rightarrow> string \<Rightarrow> bool"
  ec_after_alloc :: "'c \<Rightarrow> request \<Rightarrow> int \<Rightarrow> 'c"
  grammar_ready :: "'c \<Rightarrow> req_id \<Rightarrow> bool"
  should_advance :: "'c \<Rightarrow> request \<Rightarrow> bool"
  validate_tokens :: "'c \<Rightarrow> req_id \<Rightarrow> token list \<Rightarrow> token list"
  accept_tokens :: "'c \<Rightarrow> req_id \<Rightarrow> token list \<Rightarrow> 'c"

text \<open>
  \<open>c_max_loras\<close> is \<open>None\<close> without LoRA; the block hasher and the hash function of the KV cache are
  part of the configuration because every request of an engine gets the same ones.
\<close>

record 'c sched_config =
  c_env :: "'c environment"
  c_policy :: scheduling_policy
  c_max_num_running_reqs :: int
  c_max_num_scheduled_tokens :: int
  c_max_model_len :: int
  c_long_prefill_token_threshold :: int
  c_enable_chunked_prefill :: bool
  c_disable_chunked_mm_input :: bool
  c_is_encoder_decoder :: bool
  c_max_num_encoder_input_tokens :: int
  c_num_spec_tokens :: int
  c_num_lookahead_tokens :: int
  c_use_eagle :: bool
  c_mamba_block_aligned_split :: bool
  c_cache_block_size :: int
  c_block_size :: int
  c_max_loras :: "int option"
  c_use_pp :: bool
  c_async_scheduling :: bool
  c_use_v2_model_runner :: bool
  c_needs_kv_cache_zeroing :: bool
  c_kv_connector :: bool
  c_supports_hma :: bool
  c_ec_connector :: bool
  c_recompute_kv_load_failures :: bool
  c_log_stats :: bool
  c_hasher :: "hasher option"
  c_sha :: "byte list \<Rightarrow> block_hash"
  c_client_index :: "req_id \<Rightarrow> int"

datatype pause_state = UNPAUSED | PAUSED_NEW | PAUSED_ALL

datatype enc_manager = MMCache enc_cache | EncDecCache encdec_cache

record 'c scheduler =
  objects :: "req_id \<Rightarrow> request"
  requests :: "req_id list"
  waiting :: request_queue
  skipped_waiting :: request_queue
  running :: "req_id list"
  finished_req_ids :: "req_id list"
  finished_req_ids_dict :: "(int \<times> req_id list) list option"
  prev_step_scheduled_req_ids :: "req_id list"
  num_waiting_for_streaming_input :: int
  finished_recving_kv_req_ids :: "req_id list"
  failed_recving_kv_req_ids :: "req_id list"
  enc_manager :: enc_manager
  kvm :: kv_cache_manager
  sched_pause_state :: pause_state
  connector_stats :: "prefix_cache_stats option"
  env_state :: 'c

definition set_obj :: "req_id \<Rightarrow> request \<Rightarrow> 'c scheduler \<Rightarrow> 'c scheduler" where
  "set_obj rid r s = s\<lparr>objects := (objects s)(rid := r)\<rparr>"

definition upd_obj :: "req_id \<Rightarrow> (request \<Rightarrow> request) \<Rightarrow> 'c scheduler \<Rightarrow> 'c scheduler" where
  "upd_obj rid f s = set_obj rid (f (objects s rid)) s"

section \<open>The encoder cache behind either manager\<close>

fun em_check :: "request \<Rightarrow> int \<Rightarrow> enc_manager \<Rightarrow> (bool \<times> enc_manager) res" where
  "em_check r i (MMCache c) =
     res_bind (ec_check_and_update_cache r i c) (\<lambda>(b, c'). Inr (b, MMCache c'))"
| "em_check r i (EncDecCache c) = Inr (False, EncDecCache c)"

fun em_can_allocate ::
  "request \<Rightarrow> int \<Rightarrow> int \<Rightarrow> int \<Rightarrow> enc_manager \<Rightarrow> (bool \<times> enc_manager) res" where
  "em_can_allocate r i budget n (MMCache c) =
     res_bind (ec_can_allocate r i budget n c) (\<lambda>(b, c'). Inr (b, MMCache c'))"
| "em_can_allocate r i budget n (EncDecCache c) =
     res_bind (ed_can_allocate r i budget n c) (\<lambda>b. Inr (b, EncDecCache c))"

fun em_allocate :: "request \<Rightarrow> int \<Rightarrow> enc_manager \<Rightarrow> enc_manager res" where
  "em_allocate r i (MMCache c) = res_bind (ec_allocate r i c) (\<lambda>c'. Inr (MMCache c'))"
| "em_allocate r i (EncDecCache c) = res_bind (ed_allocate r i c) (\<lambda>c'. Inr (EncDecCache c'))"

fun em_free_encoder_input :: "request \<Rightarrow> int \<Rightarrow> enc_manager \<Rightarrow> enc_manager res" where
  "em_free_encoder_input r i (MMCache c) =
     res_bind (ec_free_encoder_input r i c) (\<lambda>c'. Inr (MMCache c'))"
| "em_free_encoder_input r i (EncDecCache c) =
     res_bind (ed_free_encoder_input r i c) (\<lambda>c'. Inr (EncDecCache c'))"

fun em_free :: "request \<Rightarrow> enc_manager \<Rightarrow> enc_manager res" where
  "em_free r (MMCache c) = res_bind (ec_free r c) (\<lambda>c'. Inr (MMCache c'))"
| "em_free r (EncDecCache c) = res_bind (ed_free r c) (\<lambda>c'. Inr (EncDecCache c'))"

fun em_cached_input_ids :: "request \<Rightarrow> enc_manager \<Rightarrow> int list" where
  "em_cached_input_ids r (MMCache c) = ec_get_cached_input_ids r c"
| "em_cached_input_ids r (EncDecCache c) = ed_get_cached_input_ids r"

fun em_get_freed :: "enc_manager \<Rightarrow> string list \<times> enc_manager" where
  "em_get_freed (MMCache c) = (case ec_get_freed_mm_hashes c of (hs, c') \<Rightarrow> (hs, MMCache c'))"
| "em_get_freed (EncDecCache c) =
     (case ed_get_freed_mm_hashes c of (hs, c') \<Rightarrow> (hs, EncDecCache c'))"

fun em_reset :: "enc_manager \<Rightarrow> enc_manager" where
  "em_reset (MMCache c) = MMCache (ec_reset c)"
| "em_reset (EncDecCache c) = EncDecCache (ed_reset c)"

section \<open>Queues\<close>

definition is_blocked_waiting_status :: "request_status \<Rightarrow> bool" where
  "is_blocked_waiting_status st =
     (st \<in> {WAITING_FOR_FSM, WAITING_FOR_REMOTE_KVS, WAITING_FOR_STREAMING_REQ})"

definition enqueue_waiting_request :: "req_id \<Rightarrow> 'c scheduler \<Rightarrow> 'c scheduler" where
  "enqueue_waiting_request rid s =
     (if is_blocked_waiting_status (status (objects s rid)) then
        s\<lparr>skipped_waiting := rq_add (objects s) rid (skipped_waiting s)\<rparr>
      else s\<lparr>waiting := rq_add (objects s) rid (waiting s)\<rparr>)"

datatype queue_name = Waiting | Skipped

definition queue_of :: "queue_name \<Rightarrow> 'c scheduler \<Rightarrow> request_queue" where
  "queue_of q s = (case q of Waiting \<Rightarrow> waiting s | Skipped \<Rightarrow> skipped_waiting s)"

definition set_queue :: "queue_name \<Rightarrow> request_queue \<Rightarrow> 'c scheduler \<Rightarrow> 'c scheduler" where
  "set_queue q v s =
     (case q of Waiting \<Rightarrow> s\<lparr>waiting := v\<rparr> | Skipped \<Rightarrow> s\<lparr>skipped_waiting := v\<rparr>)"

definition select_waiting_queue ::
  "'c sched_config \<Rightarrow> 'c scheduler \<Rightarrow> queue_name option res" where
  "select_waiting_queue cfg s =
     (case c_policy cfg of
        FCFS \<Rightarrow>
          Inr (if rq_bool (skipped_waiting s) then Some Skipped
               else if rq_bool (waiting s) then Some Waiting else None)
      | PRIORITY \<Rightarrow>
          if rq_bool (waiting s) \<and> rq_bool (skipped_waiting s) then
            res_bind (rq_peek (waiting s)) (\<lambda>w.
            res_bind (rq_peek (skipped_waiting s)) (\<lambda>k.
              Inr (Some (if queue_less (objects s) w k then Waiting else Skipped))))
          else
            Inr (if rq_bool (waiting s) then Some Waiting
                 else if rq_bool (skipped_waiting s) then Some Skipped else None))"

definition get_request_counts :: "'c scheduler \<Rightarrow> int \<times> int" where
  "get_request_counts s =
     (int (length (running s)), rq_len (waiting s) + rq_len (skipped_waiting s))"

definition get_num_unfinished_requests :: "'c scheduler \<Rightarrow> int" where
  "get_num_unfinished_requests s =
     (case sched_pause_state s of
        PAUSED_ALL \<Rightarrow> 0
      | PAUSED_NEW \<Rightarrow> int (length (running s))
      | UNPAUSED \<Rightarrow>
          rq_len (waiting s) + rq_len (skipped_waiting s) - num_waiting_for_streaming_input s
          + int (length (running s)))"

definition has_finished_requests :: "'c scheduler \<Rightarrow> bool" where
  "has_finished_requests s = (0 < length (finished_req_ids s))"

definition set_pause_state :: "pause_state \<Rightarrow> 'c scheduler \<Rightarrow> 'c scheduler" where
  "set_pause_state p s = s\<lparr>sched_pause_state := p\<rparr>"

section \<open>Preemption\<close>

definition preempt_request :: "req_id \<Rightarrow> 'c scheduler \<Rightarrow> 'c scheduler res" where
  "preempt_request rid s =
     require (status (objects s rid) = RUNNING) AssertionError
       (res_bind (kvm_free (objects s rid) (kvm s)) (\<lambda>k.
        res_bind (em_free (objects s rid) (enc_manager s)) (\<lambda>m.
          let s1 = upd_obj rid (\<lambda>r. r\<lparr>status := PREEMPTED, num_computed_tokens := 0,
                     spec_token_ids := [], num_preemptions := num_preemptions r + 1\<rparr>)
                     (s\<lparr>kvm := k, enc_manager := m\<rparr>)
          in Inr (s1\<lparr>waiting := rq_prepend (objects s1) rid (waiting s1)\<rparr>))))"

section \<open>Block alignment for Mamba\<close>

definition mamba_block_aligned_split ::
  "'c sched_config \<Rightarrow> request \<Rightarrow> int \<Rightarrow> int \<Rightarrow> int \<Rightarrow> int res" where
  "mamba_block_aligned_split cfg r num_new num_new_local num_external =
     require (num_external = 0) AssertionError
       (let computed = num_computed_tokens r + num_new_local + num_external in
        if computed < max (num_prompt_tokens r) (num_tokens r - 1) then
          (let bs = c_cache_block_size cfg;
               last0 = num_tokens r - num_tokens r mod bs;
               last_cache = (if c_use_eagle cfg then max (last0 - bs) 0 else last0);
               after = computed + num_new in
           Inr (if after < last_cache then num_new div bs * bs
                else if computed < last_cache \<and> last_cache < after then last_cache - computed
                else num_new))
        else Inr num_new)"

section \<open>Promotion of blocked requests\<close>

text \<open>What of the loaded KV cache is kept: all of it, or the part before the first failed block.\<close>

definition settle_remote_kv ::
  "'c sched_config \<Rightarrow> req_id \<Rightarrow> 'c scheduler \<Rightarrow> 'c scheduler res" where
  "settle_remote_kv cfg rid s =
     (let r = objects s rid in
      if rid \<in> set (failed_recving_kv_req_ids s) then
        res_bind
          (if num_computed_tokens r \<noteq> 0 then
             kvm_cache_blocks (c_sha cfg) r (num_computed_tokens r) (kvm s)
           else res_bind (kvm_free r (kvm s)) (\<lambda>k. Inr (r, k)))
          (\<lambda>(r1, k). Inr (set_obj rid r1 (s\<lparr>kvm := k, failed_recving_kv_req_ids :=
                              removeAll rid (failed_recving_kv_req_ids s)\<rparr>)))
      else
        res_bind (kvm_cache_blocks (c_sha cfg) r (num_computed_tokens r) (kvm s)) (\<lambda>(r1, k).
          let r2 = (if num_computed_tokens r1 = num_tokens r1
                    then r1\<lparr>num_computed_tokens := num_tokens r1 - 1\<rparr> else r1);
              r3 = (if num_cached_tokens r2 < 0
                    then r2\<lparr>num_cached_tokens := num_computed_tokens r2\<rparr> else r2)
          in Inr (set_obj rid r3 (s\<lparr>kvm := k\<rparr>))))"

definition update_waiting_for_remote_kv ::
  "'c sched_config \<Rightarrow> req_id \<Rightarrow> 'c scheduler \<Rightarrow> 'c scheduler res" where
  "update_waiting_for_remote_kv cfg rid s =
     require (c_kv_connector cfg) AssertionError
       (res_bind (settle_remote_kv cfg rid s) (\<lambda>s1.
          require (rid \<in> set (finished_recving_kv_req_ids s1)) KeyError
            (Inr (s1\<lparr>finished_recving_kv_req_ids :=
                    removeAll rid (finished_recving_kv_req_ids s1)\<rparr>))))"

definition try_promote_blocked_waiting_request ::
  "'c sched_config \<Rightarrow> req_id \<Rightarrow> 'c scheduler \<Rightarrow> (bool \<times> 'c scheduler) res" where
  "try_promote_blocked_waiting_request cfg rid s =
     (case status (objects s rid) of
        WAITING_FOR_REMOTE_KVS \<Rightarrow>
          if rid \<notin> set (finished_recving_kv_req_ids s) then Inr (False, s)
          else res_bind (update_waiting_for_remote_kv cfg rid s) (\<lambda>s1.
            Inr (True, upd_obj rid (\<lambda>r. r\<lparr>status :=
              (if num_preemptions r \<noteq> 0 then PREEMPTED else WAITING)\<rparr>) s1))
      | WAITING_FOR_FSM \<Rightarrow>
          if \<not> grammar_ready (c_env cfg) (env_state s) rid then Inr (False, s)
          else Inr (True, upd_obj rid (\<lambda>r. r\<lparr>status := WAITING\<rparr>) s)
      | WAITING_FOR_STREAMING_REQ \<Rightarrow>
          require (case streaming_queue (objects s rid) of None \<Rightarrow> True | Some q \<Rightarrow> q = [])
            AssertionError (Inr (False, s))
      | _ \<Rightarrow> Inl AssertionError)"

end
