(* ===== verification/Sched_Encoder.thy ===== *)
theory Sched_Encoder
  imports Sched_State
begin

text \<open>
  The encoder inputs of a scheduling step: \<open>_try_schedule_encoder_inputs\<close> of
  \<^verbatim>\<open>vllm/v1/core/sched/scheduler.py\<close>, which decides what inputs to run in this step and shortens
  the step when one of them does not fit, and \<open>_free_encoder_inputs\<close>.
\<close>

section \<open>Definitions\<close>

text \<open>
  \<open>embeds_cumsum\<close> and \<open>get_embeds_indices_in_range\<close> of \<^verbatim>\<open>vllm/multimodal/inputs.py\<close>: how many
  of the first positions of a placeholder take an embedding.
\<close>

definition embeds_cumsum :: "bool list \<Rightarrow> int list" where
  "embeds_cumsum m = map (\<lambda>i. int (length (filter id (take (Suc i) m)))) [0..<length m]"

definition get_embeds_indices_in_range ::
  "placeholder_range \<Rightarrow> int \<Rightarrow> int \<Rightarrow> (int \<times> int) res" where
  "get_embeds_indices_in_range p start_idx end_idx =
     (case is_embed p of
        None \<Rightarrow> Inr (start_idx, end_idx)
      | Some m \<Rightarrow>
          res_bind (if start_idx > 0 then py_get (embeds_cumsum m) (start_idx - 1) else Inr 0)
            (\<lambda>a. res_bind (py_get (embeds_cumsum m) (end_idx - 1)) (\<lambda>b. Inr (a, b))))"

text \<open>
  The local variables of the loop: the inputs to run and to load, the number of new tokens, the
  remaining compute budget, the hashes and the number of embeddings planned so far, the cache.
\<close>

record enc_plan =
  ep_inputs :: "int list"
  ep_external :: "int list"
  ep_new_tokens :: int
  ep_budget :: int
  ep_hashes :: "string list"
  ep_embeds :: int
  ep_manager :: enc_manager

text \<open>One input; the flag tells whether the loop goes on.\<close>

definition encoder_step ::
  "'c sched_config \<Rightarrow> 'c \<Rightarrow> request \<Rightarrow> int \<Rightarrow> int \<Rightarrow> int \<Rightarrow> mm_feature \<Rightarrow> enc_plan \<Rightarrow>
   (bool \<times> enc_plan) res" where
  "encoder_step cfg w r computed shift i f p =
     (let start = offset (mm_position f);
          len = ph_length (mm_position f);
          name = mm_identifier f;
          new = ep_new_tokens p in
      res_bind (get_num_embeds (mm_position f)) (\<lambda>embeds.
      if start \<ge> computed + new + shift then Inr (False, p)
      else if c_is_encoder_decoder cfg \<and> computed > 0 then
        require (start = 0) AssertionError (Inr (True, p))
      else if start + len \<le> computed then Inr (True, p)
      else if \<not> c_is_encoder_decoder cfg \<and> name \<in> set (ep_hashes p) then Inr (True, p)
      else
        res_bind (if c_is_encoder_decoder cfg then Inr (False, ep_manager p)
                  else em_check r i (ep_manager p)) (\<lambda>(hit, m).
        let p1 = p\<lparr>ep_manager := m\<rparr> in
        if hit then Inr (True, p1)
        else if c_disable_chunked_mm_input cfg \<and> computed < start \<and> computed + new < start + len then
          Inr (False, p1\<lparr>ep_new_tokens := max 0 (start - (computed + shift))\<rparr>)
        else
          res_bind (em_can_allocate r i (ep_budget p1) (ep_embeds p1) (ep_manager p1)) (\<lambda>(ok, m2).
          let p2 = p1\<lparr>ep_manager := m2\<rparr> in
          if \<not> ok then
            Inr (False, p2\<lparr>ep_new_tokens :=
              (if computed + shift < start then start - (computed + shift) else 0)\<rparr>)
          else
            res_bind (get_embeds_indices_in_range (mm_position f) (max 0 (computed - start))
                        (min len (computed + new - start))) (\<lambda>(a, b).
            if b - a = 0 then Inr (True, p2)
            else if c_ec_connector cfg \<and> ec_has_cache_item (c_env cfg) w name then
              Inr (True, p2\<lparr>ep_hashes := List.insert name (ep_hashes p2),
                ep_external := ep_external p2 @ [i], ep_embeds := ep_embeds p2 + embeds\<rparr>)
            else
              Inr (True, p2\<lparr>ep_embeds := ep_embeds p2 + embeds, ep_budget := ep_budget p2 - embeds,
                ep_hashes := List.insert name (ep_hashes p2),
                ep_inputs := ep_inputs p2 @ [i]\<rparr>))))))"

fun encoder_loop ::
  "'c sched_config \<Rightarrow> 'c \<Rightarrow> request \<Rightarrow> int \<Rightarrow> int \<Rightarrow> int \<Rightarrow> mm_feature list \<Rightarrow> enc_plan \<Rightarrow> enc_plan res"
where
  "encoder_loop cfg w r computed shift i [] p = Inr p"
| "encoder_loop cfg w r computed shift i (f # fs) p =
     res_bind (encoder_step cfg w r computed shift i f p) (\<lambda>(go, p1).
       if go then encoder_loop cfg w r computed shift (i + 1) fs p1 else Inr p1)"

definition start_plan :: "int \<Rightarrow> int \<Rightarrow> enc_manager \<Rightarrow> enc_plan" where
  "start_plan new budget m = \<lparr>ep_inputs = [], ep_external = [], ep_new_tokens = new,
     ep_budget = budget, ep_hashes = [], ep_embeds = 0, ep_manager = m\<rparr>"

definition try_schedule_encoder_inputs ::
  "'c sched_config \<Rightarrow> 'c \<Rightarrow> request \<Rightarrow> int \<Rightarrow> int \<Rightarrow> int \<Rightarrow> int \<Rightarrow> enc_manager \<Rightarrow> enc_plan res" where
  "try_schedule_encoder_inputs cfg w r computed new budget shift m =
     (if new = 0 \<or> \<not> has_encoder_inputs r then Inr (start_plan new budget m)
      else encoder_loop cfg w r computed shift 0 (mm_features r) (start_plan new budget m))"

text \<open>
  The allocation of the planned inputs: each is recorded in the cache, and the encoder cache
  connector is told when there is one.
\<close>

definition allocate_encoder_inputs ::
  "'c sched_config \<Rightarrow> req_id \<Rightarrow> int list \<Rightarrow> 'c scheduler \<Rightarrow> 'c scheduler res" where
  "allocate_encoder_inputs cfg rid is s =
     fold_res (\<lambda>i s. res_bind (em_allocate (objects s rid) i (enc_manager s)) (\<lambda>m.
       let s1 = s\<lparr>enc_manager := m\<rparr> in
       Inr (if c_ec_connector cfg
            then s1\<lparr>env_state := ec_after_alloc (c_env cfg) (env_state s1) (objects s1 rid) i\<rparr>
            else s1))) is s"

definition free_encoder_inputs ::
  "'c sched_config \<Rightarrow> req_id \<Rightarrow> 'c scheduler \<Rightarrow> 'c scheduler res" where
  "free_encoder_inputs cfg rid s =
     fold_res (\<lambda>i s.
       res_bind (py_get (mm_features (objects s rid)) i) (\<lambda>f.
         let r = objects s rid; start = offset (mm_position f); len = ph_length (mm_position f) in
         if c_is_encoder_decoder cfg \<and> num_computed_tokens r > 0
            \<or> start + len \<le> num_computed_tokens r then
           res_bind (em_free_encoder_input r i (enc_manager s)) (\<lambda>m. Inr (s\<lparr>enc_manager := m\<rparr>))
         else Inr s))
       (em_cached_input_ids (objects s rid) (enc_manager s)) s"

text \<open>
  What the model runner asks for: the test of \<open>_gather_mm_embeddings\<close>
  (\<^verbatim>\<open>vllm/v1/worker/gpu_model_runner.py\<close>) that decides whether the encoder output of an input must
  be in the worker's cache when \<open>sched\<close> tokens run at position \<open>computed\<close>; the drafter runs the
  same test with \<open>shift\<close> one.
\<close>

definition gather_needs :: "int \<Rightarrow> int \<Rightarrow> int \<Rightarrow> mm_feature \<Rightarrow> bool res" where
  "gather_needs shift computed0 sched f =
     (let computed = computed0 + shift; start = offset (mm_position f);
          len = ph_length (mm_position f) in
      if start \<ge> computed + sched then Inr False
      else if start + len \<le> computed then Inr False
      else
        (let a = max (computed - start) 0; b = min (computed - start + sched) len in
         require (a < b) AssertionError
           (res_bind (get_embeds_indices_in_range (mm_position f) a b)
             (\<lambda>(i, j). Inr (i \<noteq> j)))))"

section \<open>Ranges of embeddings\<close>

definition feature_ok :: "mm_feature \<Rightarrow> bool" where
  "feature_ok f \<longleftrightarrow> 0 < ph_length (mm_position f) \<and>
     (case is_embed (mm_position f) of
        None \<Rightarrow> True | Some m \<Rightarrow> int (length m) = ph_length (mm_position f))"

text \<open>The number of embeddings in the first \<open>k\<close> positions.\<close>

definition embeds_before :: "placeholder_range \<Rightarrow> int \<Rightarrow> int" where
  "embeds_before p k =
     (case is_embed p of None \<Rightarrow> k | Some m \<Rightarrow> int (length (filter id (take (nat k) m))))"

lemma length_embeds_cumsum [simp]: "length (embeds_cumsum m) = length m"
  by (simp add: embeds_cumsum_def)

lemma embeds_cumsum_get:
  assumes "0 < k" "k \<le> int (length m)"
  shows "py_get (embeds_cumsum m) (k - 1) = Inr (int (length (filter id (take (nat k) m))))"
proof -
  have "Suc (nat (k - 1)) = nat k" using assms by linarith
  then show ?thesis using assms by (simp add: embeds_cumsum_def nat_less_iff)
qed

lemma indices_in_range:
  assumes "feature_ok f" "0 \<le> a" "0 < b" "a \<le> ph_length (mm_position f)" "b \<le> ph_length (mm_position f)"
  shows "get_embeds_indices_in_range (mm_position f) a b
    = Inr (embeds_before (mm_position f) a, embeds_before (mm_position f) b)"
proof (cases "is_embed (mm_position f)")
  case None
  then show ?thesis by (simp add: get_embeds_indices_in_range_def embeds_before_def)
next
  case (Some m)
  then have len: "int (length m) = ph_length (mm_position f)" using assms(1) by (simp add: feature_ok_def)
  have "py_get (embeds_cumsum m) (b - 1) = Inr (int (length (filter id (take (nat b) m))))"
    using assms len by (intro embeds_cumsum_get) auto
  moreover have "py_get (embeds_cumsum m) (a - 1) = Inr (int (length (filter id (take (nat a) m))))"
    if "0 < a" using assms that len by (intro embeds_cumsum_get) auto
  ultimately show ?thesis
    using assms(2) Some by (auto simp: get_embeds_indices_in_range_def embeds_before_def)
qed

lemma embeds_before_mono:
  assumes "a \<le> b"
  shows "embeds_before p a \<le> embeds_before p b"
proof (cases "is_embed p")
  case (Some m)
  have "take (nat a) m = take (nat a) (take (nat b) m)" using assms by (simp add: min_absorb1 nat_mono)
  then have "length (filter id (take (nat a) m)) \<le> length (filter id (take (nat b) m))"
    by (metis append_take_drop_id filter_append le_add1 length_append)
  then show ?thesis using Some by (simp add: embeds_before_def)
qed (use assms in \<open>simp add: embeds_before_def\<close>)

text \<open>
  The runner needs an input in fewer steps when fewer tokens run, and only when the range it
  computes holds an embedding.
\<close>

lemma gather_needs_iff:
  assumes f: "feature_ok f" and n: "0 < n"
  shows "gather_needs 0 computed n f = Inr
    (offset (mm_position f) < computed + n
     \<and> computed < offset (mm_position f) + ph_length (mm_position f)
     \<and> embeds_before (mm_position f) (max (computed - offset (mm_position f)) 0)
       \<noteq> embeds_before (mm_position f)
           (min (computed - offset (mm_position f) + n) (ph_length (mm_position f))))"
proof -
  let ?s = "offset (mm_position f)" and ?l = "ph_length (mm_position f)"
  have l: "0 < ?l" using f by (simp add: feature_ok_def)
  show ?thesis
  proof (cases "?s < computed + n \<and> computed < ?s + ?l")
    case True
    then have "max (computed - ?s) 0 < min (computed - ?s + n) ?l" using n l by auto
    with True indices_in_range [OF f, of "max (computed - ?s) 0" "min (computed - ?s + n) ?l"]
    show ?thesis by (simp add: gather_needs_def Let_def)
  next
    case False
    then show ?thesis by (auto simp: gather_needs_def Let_def)
  qed
qed

lemma gather_needs_fewer:
  assumes "feature_ok f" "0 < n" "n \<le> n'" "gather_needs 0 computed n f = Inr True"
  shows "gather_needs 0 computed n' f = Inr True"
proof -
  let ?p = "mm_position f"
  let ?a = "max (computed - offset ?p) 0" and ?b = "\<lambda>n. min (computed - offset ?p + n) (ph_length ?p)"
  have g: "offset ?p < computed + n" "computed < offset ?p + ph_length ?p"
    "embeds_before ?p ?a \<noteq> embeds_before ?p (?b n)"
    using assms(4) by (simp_all add: gather_needs_iff [OF assms(1,2)])
  have "0 < ph_length ?p" using assms(1) by (simp add: feature_ok_def)
  then have "?a \<le> ?b n" "?b n \<le> ?b n'" using g assms(2,3) by auto
  then have "embeds_before ?p ?a \<le> embeds_before ?p (?b n)" "embeds_before ?p (?b n) \<le> embeds_before ?p (?b n')"
    by (auto intro: embeds_before_mono)
  then have "embeds_before ?p ?a \<noteq> embeds_before ?p (?b n')" using g(3) by linarith
  moreover have "0 < n'" using assms(2,3) by simp
  ultimately show ?thesis using g(1,2) assms(3) by (simp add: gather_needs_iff [OF assms(1)])
qed

lemma indices_total:
  assumes f: "feature_ok f" and "0 \<le> a" "a \<le> ph_length (mm_position f)" "0 \<le> b"
    "b \<le> ph_length (mm_position f)"
  shows "\<exists>i j. get_embeds_indices_in_range (mm_position f) a b = Inr (i, j)"
proof (cases "b = 0")
  case False
  then show ?thesis using indices_in_range [OF f, of a b] assms by simp
next
  case True
  show ?thesis
  proof (cases "is_embed (mm_position f)")
    case (Some m)
    then have len: "int (length m) = ph_length (mm_position f)" "m \<noteq> []"
      using f by (auto simp: feature_ok_def)
    have "py_get (embeds_cumsum m) (- 1) = Inr (last (embeds_cumsum m))"
      using len(2) by (intro py_get_last) (metis length_0_conv length_embeds_cumsum)
    moreover have "a - 1 < int (length m)" using assms(3) len(1) by linarith
    ultimately show ?thesis
      using True Some by (simp add: get_embeds_indices_in_range_def)
  qed (simp add: get_embeds_indices_in_range_def)
qed

section \<open>The plan\<close>

definition planned :: "enc_plan \<Rightarrow> int list" where
  "planned p = ep_inputs p @ ep_external p"

text \<open>
  The invariant of the loop: the planned inputs are distinct, not yet cached, within the budget and
  fit together in the free slots.
\<close>

definition plan_ok :: "(string \<Rightarrow> int) \<Rightarrow> request \<Rightarrow> int \<Rightarrow> enc_plan \<Rightarrow> enc_cache \<Rightarrow> bool" where
  "plan_ok sz r budget p c \<longleftrightarrow>
     ep_manager p = MMCache c \<and> ec_ok sz c \<and>
     (\<forall>i \<in> set (planned p). input_of r i) \<and> distinct (map (ident r) (planned p)) \<and>
     set (ep_hashes p) = ident r ` set (planned p) \<and>
     ident r ` set (planned p) \<inter> set (cached_hashes c) = {} \<and>
     ep_embeds p = total_size sz (map (ident r) (planned p)) \<and> ep_embeds p \<le> num_free_slots c \<and>
     ep_budget p = budget - total_size sz (map (ident r) (ep_inputs p)) \<and> 0 \<le> ep_budget p"

definition avail :: "request \<Rightarrow> enc_plan \<Rightarrow> enc_cache \<Rightarrow> string \<Rightarrow> bool" where
  "avail r p c h \<longleftrightarrow> h \<in> set (ep_hashes p) \<or> request_id r \<in> refs_of c h"

lemma plan_ok_new_tokens [simp]:
  "plan_ok sz r budget (p\<lparr>ep_new_tokens := n\<rparr>) c = plan_ok sz r budget p c"
  by (simp add: plan_ok_def planned_def)

lemma plan_ok_cache:
  assumes ok: "plan_ok sz r budget p c" and d: "ec_ok sz d" "num_free_slots c \<le> num_free_slots d"
    and sub: "set (cached_hashes d) \<subseteq> set (cached_hashes c)"
  shows "plan_ok sz r budget (p\<lparr>ep_manager := MMCache d\<rparr>) d"
proof -
  have "ident r ` set (planned p) \<inter> set (cached_hashes c) = {}" using ok by (simp add: plan_ok_def)
  then have "ident r ` set (planned p) \<inter> set (cached_hashes d) = {}" using sub by blast
  moreover have "ep_embeds p \<le> num_free_slots d" using ok d(2) by (simp add: plan_ok_def)
  ultimately show ?thesis using ok d(1) by (simp add: plan_ok_def planned_def)
qed

text \<open>The result of one iteration, with what it guarantees for the input it looked at.\<close>

definition step_result ::
  "request \<Rightarrow> int \<Rightarrow> int \<Rightarrow> mm_feature \<Rightarrow> enc_plan \<Rightarrow> enc_cache \<Rightarrow> bool \<Rightarrow> enc_plan \<Rightarrow> enc_cache \<Rightarrow> bool"
where
  "step_result r computed shift f p c go p' c' \<longleftrightarrow>
     0 \<le> ep_new_tokens p' \<and> ep_new_tokens p' \<le> ep_new_tokens p \<and> cache_size c' = cache_size c \<and>
     (\<forall>h. avail r p c h \<longrightarrow> avail r p' c' h) \<and>
     (go \<longrightarrow> ep_new_tokens p' = ep_new_tokens p \<and>
        (shift = 0 \<and> 0 < ep_new_tokens p \<and> gather_needs 0 computed (ep_new_tokens p) f = Inr True
           \<longrightarrow> avail r p' c' (mm_identifier f))) \<and>
     (\<not> go \<and> 0 < ep_new_tokens p' \<longrightarrow> computed + shift + ep_new_tokens p' \<le> offset (mm_position f))"

lemma cached_evicted: "set (cached_hashes (evicted j c)) \<subseteq> set (cached_hashes c)"
  by (auto simp: cached_hashes_def evicted_def)

lemma num_free_evicted:
  assumes "ec_ok sz c"
  shows "num_free_slots c \<le> num_free_slots (evicted j c)"
proof -
  have "0 \<le> sum_list (map snd (take j (freeable c)))"
  proof (rule sum_list_nonneg)
    fix x assume "x \<in> set (map snd (take j (freeable c)))"
    then obtain h where h: "(h, x) \<in> set (freeable c)" by (auto dest: in_set_takeD)
    then have "h \<in> fst ` set (freeable c)" by force
    from ec_okD(5) [OF assms freeable_cached [OF assms this]] ec_okD(4) [OF assms h]
    show "0 \<le> x" by simp
  qed
  then show ?thesis by (simp add: evicted_def)
qed

lemma encoder_step_effect:
  assumes ok: "plan_ok sz r budget p c" and cfg: "\<not> c_is_encoder_decoder cfg"
    and r: "sizes_ok sz r" and i: "input_of r i" and f: "f = mm_features r ! nat i" "feature_ok f"
    and n: "0 \<le> ep_new_tokens p" and sh: "0 \<le> shift" "shift \<le> 1"
  shows "\<exists>go p' c'. encoder_step cfg w r computed shift i f p = Inr (go, p')
    \<and> plan_ok sz r budget p' c' \<and> step_result r computed shift f p c go p' c'"
proof -
  let ?start = "offset (mm_position f)" and ?len = "ph_length (mm_position f)"
  let ?new = "ep_new_tokens p" and ?h = "mm_identifier f"
  have P: "ep_manager p = MMCache c" "ec_ok sz c" using ok by (simp_all add: plan_ok_def)
  have h: "?h = ident r i" by (simp add: ident_def f(1))
  have fin: "f \<in> set (mm_features r)" using i by (simp add: f(1) input_of_def nat_less_iff)
  then have g: "get_num_embeds (mm_position f) = Inr (sz ?h)" "0 \<le> sz ?h"
    using r by (simp_all add: sizes_ok_def)
  note def = encoder_step_def Let_def g(1) res_bind_Inr cfg
  have same: "step_result r computed shift f p c True p c"
    if "shift = 0 \<and> 0 < ?new \<longrightarrow> gather_needs 0 computed ?new f = Inr False \<or> avail r p c ?h"
    using that n by (auto simp: step_result_def)
  show ?thesis
  proof (cases "?start \<ge> computed + ?new + shift")
    case True
    then show ?thesis using ok n
      by (intro exI [of _ False] exI [of _ p] exI [of _ c]) (simp add: def step_result_def)
  next
    case before: False
    show ?thesis
    proof (cases "?start + ?len \<le> computed")
      case True
      then have "gather_needs 0 computed ?new f = Inr False" if "0 < ?new"
        using that by (simp add: gather_needs_iff [OF f(2)])
      then show ?thesis using ok before True same
        by (intro exI [of _ True] exI [of _ p] exI [of _ c]) (simp add: def)
    next
      case overlap: False
      show ?thesis
      proof (cases "?h \<in> set (ep_hashes p)")
        case True
        then show ?thesis using ok before overlap same
          by (intro exI [of _ True] exI [of _ p] exI [of _ c]) (simp add: def avail_def)
      next
        case fresh: False
        from check_cache_effect [OF P(2) i h] obtain c1 where
          c1: "ec_check_and_update_cache r i c = Inr (?h \<in> set (cached_hashes c), c1)" "ec_ok sz c1"
            "cached_hashes c1 = cached_hashes c" "num_free_slots c1 = num_free_slots c"
            "cache_size c1 = cache_size c"
            "\<And>g. refs_of c1 g = refs_of c g \<union>
               (if g = ?h \<and> ?h \<in> set (cached_hashes c) then {request_id r} else {})" by blast
        let ?p1 = "p\<lparr>ep_manager := MMCache c1\<rparr>"
        have chk: "em_check r i (ep_manager p) = Inr (?h \<in> set (cached_hashes c), MMCache c1)"
          by (simp add: P(1) c1(1))
        have ok1: "plan_ok sz r budget ?p1 c1"
          using c1(2-4) by (intro plan_ok_cache [OF ok]) simp_all
        have av1: "avail r p c g \<Longrightarrow> avail r ?p1 c1 g" for g by (auto simp: avail_def c1(6))
        note head = before overlap fresh chk
        show ?thesis
        proof (cases "?h \<in> set (cached_hashes c)")
          case True
          then have "avail r ?p1 c1 ?h" by (simp add: avail_def c1(6))
          then show ?thesis using head True ok1 av1 n c1(5)
            by (intro exI [of _ True] exI [of _ ?p1] exI [of _ c1]) (simp add: def step_result_def)
        next
          case miss: False
          show ?thesis
          proof (cases "c_disable_chunked_mm_input cfg \<and> computed < ?start \<and> computed + ?new < ?start + ?len")
            case True
            let ?p2 = "?p1\<lparr>ep_new_tokens := max 0 (?start - (computed + shift))\<rparr>"
            have "plan_ok sz r budget ?p2 c1" using ok1 by simp
            moreover have "avail r p c g \<Longrightarrow> avail r ?p2 c1 g" for g using av1 by (simp add: avail_def)
            ultimately show ?thesis using head miss True n before c1(5)
              by (intro exI [of _ False] exI [of _ ?p2] exI [of _ c1])
                (auto simp: def step_result_def)
          next
            case False
            then have whole: "(c_disable_chunked_mm_input cfg \<and> computed < ?start
                \<and> computed + ?new < ?start + ?len) = False" by simp
            let ?need = "sz ?h + ep_embeds p"
            let ?b = "sz ?h \<le> ep_budget p \<and> ?need \<le> num_freeable_slots c1"
            from can_allocate_effect [OF c1(2) r i refl refl, of "ep_budget p" "ep_embeds p"]
            obtain j where
              j: "ec_can_allocate r i (ep_budget p) (ep_embeds p) c1 = Inr (?b, evicted j c1)"
                "ec_ok sz (evicted j c1)" "\<And>g. refs_of (evicted j c1) g = refs_of c1 g"
                "?b \<longrightarrow> ?need \<le> num_free_slots (evicted j c1)" "\<not> ?b \<longrightarrow> j = 0"
              unfolding h [symmetric] by blast
            let ?c2 = "evicted j c1"
            let ?p2 = "?p1\<lparr>ep_manager := MMCache ?c2\<rparr>"
            have can: "em_can_allocate r i (ep_budget ?p1) (ep_embeds ?p1) (ep_manager ?p1)
                = Inr (?b, MMCache ?c2)" by (simp add: j(1))
            have cs: "cache_size ?c2 = cache_size c" using c1(5) by (simp add: evicted_def)
            have ok2: "plan_ok sz r budget ?p2 ?c2"
              using plan_ok_cache [OF ok1 j(2) num_free_evicted [OF c1(2)] cached_evicted] by simp
            have av2: "avail r p c g \<Longrightarrow> avail r ?p2 ?c2 g" for g
              using av1 by (simp add: avail_def j(3))
            show ?thesis
            proof (cases ?b)
              case False
              let ?p3 = "?p2\<lparr>ep_new_tokens :=
                (if computed + shift < ?start then ?start - (computed + shift) else 0)\<rparr>"
              have "plan_ok sz r budget ?p3 ?c2" using ok2 by simp
              moreover have "avail r p c g \<Longrightarrow> avail r ?p3 ?c2 g" for g using av2 by (simp add: avail_def)
              moreover have "encoder_step cfg w r computed shift i f p = Inr (False, ?p3)"
                using head miss can False by (simp add: def whole)
              ultimately show ?thesis using n before cs
                by (intro exI [of _ False] exI [of _ ?p3] exI [of _ ?c2])
                  (auto simp: step_result_def)
            next
              case fits: True
              let ?a = "max 0 (computed - ?start)" and ?e = "min ?len (computed + ?new - ?start)"
              have len: "0 < ?len" using f(2) by (simp add: feature_ok_def)
              then have rng: "0 \<le> ?a" "?a \<le> ?len" "0 \<le> ?e" "?e \<le> ?len"
                using before overlap n sh by auto
              obtain x y where xy: "get_embeds_indices_in_range (mm_position f) ?a ?e = Inr (x, y)"
                using indices_total [OF f(2) rng] by blast
              note go = head miss can fits xy
              show ?thesis
              proof (cases "y - x = 0")
                case True
                have "gather_needs 0 computed ?new f = Inr False" if "shift = 0" "0 < ?new"
                proof -
                  have e: "0 < ?e" using that before len by auto
                  have "x = y" using True by simp
                  then show ?thesis
                    using indices_in_range [OF f(2) rng(1) e rng(2,4)] xy
                    by (simp add: gather_needs_iff [OF f(2) that(2)] max.commute min.commute
                        add_diff_eq diff_add_eq)
                qed
                moreover have "encoder_step cfg w r computed shift i f p = Inr (True, ?p2)"
                  using go True by (simp add: def whole)
                ultimately show ?thesis using ok2 av2 n cs
                  by (intro exI [of _ True] exI [of _ ?p2] exI [of _ ?c2])
                    (auto simp: step_result_def)
              next
                case False
                have new: "?h \<notin> set (cached_hashes ?c2)" "?h \<notin> ident r ` set (planned p)"
                  using miss cached_evicted [of j c1] c1(3) fresh ok by (auto simp: plan_ok_def)
                let ?ext = "c_ec_connector cfg \<and> ec_has_cache_item (c_env cfg) w ?h"
                let ?p3 = "if ?ext then
                    ?p2\<lparr>ep_hashes := List.insert ?h (ep_hashes p), ep_external := ep_external p @ [i],
                      ep_embeds := ep_embeds p + sz ?h\<rparr>
                  else ?p2\<lparr>ep_embeds := ep_embeds p + sz ?h, ep_budget := ep_budget p - sz ?h,
                      ep_hashes := List.insert ?h (ep_hashes p), ep_inputs := ep_inputs p @ [i]\<rparr>"
                have "encoder_step cfg w r computed shift i f p = Inr (True, ?p3)"
                  using go False by (simp add: def whole)
                moreover have "plan_ok sz r budget ?p3 ?c2"
                proof -
                  have "?need \<le> num_free_slots ?c2" "sz ?h \<le> ep_budget p" using j(4) fits by auto
                  then show ?thesis
                    using ok2 new i j(2) h unfolding plan_ok_def planned_def
                    by (cases ?ext) (auto simp: h)
                qed
                moreover have "avail r ?p3 ?c2 ?h" by (simp add: avail_def)
                moreover have "avail r p c g \<Longrightarrow> avail r ?p3 ?c2 g" for g
                  using av2 [of g] by (auto simp: avail_def)
                ultimately show ?thesis using n cs
                  by (intro exI [of _ True] exI [of _ ?p3] exI [of _ ?c2])
                    (auto simp: step_result_def)
              qed
            qed
          qed
        qed
      qed
    qed
  qed
qed

lemma encoder_loop_effect:
  assumes "plan_ok sz r budget p c" and cfg: "\<not> c_is_encoder_decoder cfg"
    and r: "sizes_ok sz r" "\<forall>f \<in> set (mm_features r). feature_ok f"
    and "fs = drop k (mm_features r)" and "0 \<le> ep_new_tokens p" and sh: "0 \<le> shift" "shift \<le> 1"
  shows "\<exists>p' c'. encoder_loop cfg w r computed shift (int k) fs p = Inr p'
    \<and> plan_ok sz r budget p' c' \<and> 0 \<le> ep_new_tokens p' \<and> ep_new_tokens p' \<le> ep_new_tokens p
    \<and> cache_size c' = cache_size c \<and> (\<forall>h. avail r p c h \<longrightarrow> avail r p' c' h)
    \<and> (shift = 0 \<and> 0 < ep_new_tokens p' \<longrightarrow>
        (\<forall>f \<in> set (takeWhile (\<lambda>f. offset (mm_position f) < computed + ep_new_tokens p') fs).
           gather_needs 0 computed (ep_new_tokens p') f = Inr True \<longrightarrow> avail r p' c' (mm_identifier f)))"
  using assms(1,5,6)
proof (induction fs arbitrary: k p c)
  case Nil
  then show ?case by (intro exI [of _ p] exI [of _ c]) simp
next
  case (Cons f fs)
  have k: "k < length (mm_features r)" "mm_features r ! k = f" "drop (Suc k) (mm_features r) = fs"
    using drop_eq_Cons_nth [OF Cons.prems(2) [symmetric]] by auto
  then have i: "input_of r (int k)" "f = mm_features r ! nat (int k)" by (simp_all add: input_of_def)
  have f: "feature_ok f" using r(2) k by (metis nth_mem)
  from encoder_step_effect [OF Cons.prems(1) cfg r(1) i f Cons.prems(3) sh, of w computed]
  obtain go p1 c1 where st: "encoder_step cfg w r computed shift (int k) f p = Inr (go, p1)"
    "plan_ok sz r budget p1 c1" "step_result r computed shift f p c go p1 c1" by blast
  have sr: "0 \<le> ep_new_tokens p1" "ep_new_tokens p1 \<le> ep_new_tokens p" "cache_size c1 = cache_size c"
    "\<And>h. avail r p c h \<Longrightarrow> avail r p1 c1 h"
    using st(3) by (simp_all add: step_result_def)
  show ?case
  proof (cases go)
    case False
    then have "computed + shift + ep_new_tokens p1 \<le> offset (mm_position f)" if "0 < ep_new_tokens p1"
      using st(3) that by (simp add: step_result_def)
    then have "\<not> offset (mm_position f) < computed + ep_new_tokens p1" if "0 < ep_new_tokens p1"
      using that sh by force
    then show ?thesis using st sr False by (intro exI [of _ p1] exI [of _ c1]) auto
  next
    case True
    have same: "ep_new_tokens p1 = ep_new_tokens p"
      and need: "shift = 0 \<Longrightarrow> 0 < ep_new_tokens p \<Longrightarrow>
        gather_needs 0 computed (ep_new_tokens p) f = Inr True \<Longrightarrow> avail r p1 c1 (mm_identifier f)"
      using st(3) True by (simp_all add: step_result_def)
    from Cons.IH [OF st(2) k(3) [symmetric] sr(1)] obtain p' c' where
      rest: "encoder_loop cfg w r computed shift (int (Suc k)) fs p1 = Inr p'"
        "plan_ok sz r budget p' c'" "0 \<le> ep_new_tokens p'" "ep_new_tokens p' \<le> ep_new_tokens p1"
        "cache_size c' = cache_size c1" "\<And>h. avail r p1 c1 h \<Longrightarrow> avail r p' c' h"
        "shift = 0 \<and> 0 < ep_new_tokens p' \<longrightarrow>
          (\<forall>f \<in> set (takeWhile (\<lambda>f. offset (mm_position f) < computed + ep_new_tokens p') fs).
             gather_needs 0 computed (ep_new_tokens p') f = Inr True \<longrightarrow> avail r p' c' (mm_identifier f))"
      by blast
    have "avail r p' c' (mm_identifier f)"
      if "shift = 0" "0 < ep_new_tokens p'" "gather_needs 0 computed (ep_new_tokens p') f = Inr True"
    proof -
      have "ep_new_tokens p' \<le> ep_new_tokens p" using rest(4) same by simp
      from gather_needs_fewer [OF f that(2) this that(3)] show ?thesis
        using need [OF that(1)] that(2) \<open>ep_new_tokens p' \<le> ep_new_tokens p\<close> rest(6) by force
    qed
    moreover have "encoder_loop cfg w r computed shift (int k) (f # fs) p = Inr p'"
      using st(1) True rest(1) by (simp add: add.commute)
    ultimately show ?thesis using rest sr same by (intro exI [of _ p'] exI [of _ c']) auto
  qed
qed

text \<open>Recording the planned inputs in the cache.\<close>

lemma allocate_planned:
  assumes "ec_ok sz c" and r: "sizes_ok sz r" and "\<forall>i \<in> set is. input_of r i"
    and "distinct (map (ident r) is)" and "ident r ` set is \<inter> set (cached_hashes c) = {}"
    and "total_size sz (map (ident r) is) \<le> num_free_slots c"
  shows "\<exists>c'. fold_res (ec_allocate r) is c = Inr c' \<and> ec_ok sz c' \<and> cache_size c' = cache_size c
    \<and> (\<forall>h. refs_of c h \<subseteq> refs_of c' h) \<and> (\<forall>i \<in> set is. request_id r \<in> refs_of c' (ident r i))"
  using assms(1,3-)
proof (induction "is" arbitrary: c)
  case (Cons i "is")
  let ?h = "ident r i"
  have "0 \<le> total_size sz (map (ident r) is)"
    using Cons.prems(2) input_facts(3) r by (intro total_size_nonneg) auto
  then have fit: "sz ?h \<le> num_free_slots c" using Cons.prems(5) by simp
  have new: "?h \<notin> set (cached_hashes c)" using Cons.prems(4) by auto
  from allocate_effect [OF Cons.prems(1) r _ refl new fit] Cons.prems(2) obtain d where
    d: "ec_allocate r i c = Inr d" "ec_ok sz d" "cached_hashes d = cached_hashes c @ [?h]"
      "num_free_slots d = num_free_slots c - sz ?h" "cache_size d = cache_size c"
      "\<And>g. refs_of d g = refs_of c g \<union> (if g = ?h then {request_id r} else {})" by auto
  have "ident r ` set is \<inter> set (cached_hashes d) = {}" using Cons.prems(3,4) d(3) by auto
  from Cons.IH [OF d(2) _ _ this] Cons.prems(2,3,5) d(4) obtain c' where
    "fold_res (ec_allocate r) is d = Inr c'" "ec_ok sz c'" "cache_size c' = cache_size d"
    "\<forall>h. refs_of d h \<subseteq> refs_of c' h" "\<forall>i \<in> set is. request_id r \<in> refs_of c' (ident r i)" by auto
  then show ?case using d by (intro exI [of _ c']) (auto simp: d(6) dest!: spec [of _ "?h"])
qed simp

lemma start_plan_ok:
  assumes "ec_ok sz c" "0 \<le> budget"
  shows "plan_ok sz r budget (start_plan new budget (MMCache c)) c"
  using assms ec_okD(8) [OF assms(1)] by (simp add: plan_ok_def start_plan_def planned_def)

lemma try_schedule_effect:
  assumes c: "ec_ok sz c" and cfg: "\<not> c_is_encoder_decoder cfg"
    and r: "sizes_ok sz r" "\<forall>f \<in> set (mm_features r). feature_ok f"
    and n: "0 \<le> new" "0 \<le> budget" and sh: "0 \<le> shift" "shift \<le> 1"
  shows "\<exists>p c' c''. try_schedule_encoder_inputs cfg w r computed new budget shift (MMCache c) = Inr p
    \<and> ep_manager p = MMCache c' \<and> ec_ok sz c' \<and> 0 \<le> ep_new_tokens p \<and> ep_new_tokens p \<le> new
    \<and> 0 \<le> ep_budget p \<and> ep_budget p = budget - total_size sz (map (ident r) (ep_inputs p))
    \<and> fold_res (ec_allocate r) (planned p) c' = Inr c'' \<and> ec_ok sz c''
    \<and> (\<forall>i \<in> set (planned p). input_of r i)
    \<and> (shift = 0 \<and> 0 < ep_new_tokens p \<longrightarrow>
        (\<forall>f \<in> set (takeWhile (\<lambda>f. offset (mm_position f) < computed + ep_new_tokens p) (mm_features r)).
           gather_needs 0 computed (ep_new_tokens p) f = Inr True
             \<longrightarrow> request_id r \<in> refs_of c'' (mm_identifier f)))"
proof -
  let ?p0 = "start_plan new budget (MMCache c)"
  have ok0: "plan_ok sz r budget ?p0 c" by (rule start_plan_ok [OF c n(2)])
  have n0: "ep_new_tokens ?p0 = new" by (simp add: start_plan_def)
  have "\<exists>p c'. try_schedule_encoder_inputs cfg w r computed new budget shift (MMCache c) = Inr p
    \<and> plan_ok sz r budget p c' \<and> 0 \<le> ep_new_tokens p \<and> ep_new_tokens p \<le> new
    \<and> (shift = 0 \<and> 0 < ep_new_tokens p \<longrightarrow>
        (\<forall>f \<in> set (takeWhile (\<lambda>f. offset (mm_position f) < computed + ep_new_tokens p) (mm_features r)).
           gather_needs 0 computed (ep_new_tokens p) f = Inr True \<longrightarrow> avail r p c' (mm_identifier f)))"
  proof (cases "new = 0 \<or> \<not> has_encoder_inputs r")
    case True
    then have "new = 0 \<or> mm_features r = []" by (simp add: has_encoder_inputs_def)
    then show ?thesis using True ok0 n n0
      by (intro exI [of _ ?p0] exI [of _ c]) (auto simp: try_schedule_encoder_inputs_def)
  next
    case False
    from encoder_loop_effect [OF ok0 cfg r, of "mm_features r" 0 shift w computed] n n0 sh
    show ?thesis using False by (auto simp: try_schedule_encoder_inputs_def)
  qed
  then obtain p c' where p: "try_schedule_encoder_inputs cfg w r computed new budget shift (MMCache c) = Inr p"
    "plan_ok sz r budget p c'" "0 \<le> ep_new_tokens p" "ep_new_tokens p \<le> new"
    "shift = 0 \<and> 0 < ep_new_tokens p \<longrightarrow>
        (\<forall>f \<in> set (takeWhile (\<lambda>f. offset (mm_position f) < computed + ep_new_tokens p) (mm_features r)).
           gather_needs 0 computed (ep_new_tokens p) f = Inr True \<longrightarrow> avail r p c' (mm_identifier f))"
    by blast
  have P: "ep_manager p = MMCache c'" "ec_ok sz c'" "\<forall>i \<in> set (planned p). input_of r i"
    "distinct (map (ident r) (planned p))" "ident r ` set (planned p) \<inter> set (cached_hashes c') = {}"
    "total_size sz (map (ident r) (planned p)) \<le> num_free_slots c'" "0 \<le> ep_budget p"
    "ep_budget p = budget - total_size sz (map (ident r) (ep_inputs p))"
    "set (ep_hashes p) = ident r ` set (planned p)"
    using p(2) by (simp_all add: plan_ok_def)
  from allocate_planned [OF P(2) r(1) P(3-6)] obtain c'' where
    c'': "fold_res (ec_allocate r) (planned p) c' = Inr c''" "ec_ok sz c''"
      "\<And>h. refs_of c' h \<subseteq> refs_of c'' h" "\<forall>i \<in> set (planned p). request_id r \<in> refs_of c'' (ident r i)"
    by blast
  have "request_id r \<in> refs_of c'' h" if "avail r p c' h" for h
    using that c''(3,4) P(9) by (auto simp: avail_def)
  then show ?thesis using p(1,3-5) P(1-3,7,8) c''(1,2)
    by (intro exI [of _ p] exI [of _ c'] exI [of _ c'']) blast
qed

section \<open>Properties\<close>

text \<open>
  C26. The encoder plan is safe and sufficient for a decoder-only model without EAGLE (a shift of 0).
  Planning the encoder inputs of a step never raises, never plans more tokens than asked nor more
  embeddings than the compute budget, and recording the planned inputs afterwards never fails the
  space assertions of the cache. When the step then runs the planned number of tokens, every encoder
  output that the model runner looks up for it is in the cache and referenced by the request, so that
  it cannot have been evicted. With EAGLE this fails (\<open>eagle_boundary_input_not_planned\<close>).
\<close>

theorem encoder_plan_covers_step:
  assumes "ec_ok sz c" and "\<not> c_is_encoder_decoder cfg"
    and "sizes_ok sz r" "\<forall>f \<in> set (mm_features r). feature_ok f" and "0 \<le> new" "0 \<le> budget"
  shows "\<exists>p c' c''. try_schedule_encoder_inputs cfg w r computed new budget 0 (MMCache c) = Inr p
    \<and> ep_manager p = MMCache c' \<and> 0 \<le> ep_new_tokens p \<and> ep_new_tokens p \<le> new
    \<and> total_size sz (map (ident r) (ep_inputs p)) \<le> budget
    \<and> fold_res (ec_allocate r) (planned p) c' = Inr c'' \<and> ec_ok sz c''
    \<and> (0 < ep_new_tokens p \<longrightarrow>
        (\<forall>f \<in> set (takeWhile (\<lambda>f. offset (mm_position f) < computed + ep_new_tokens p) (mm_features r)).
           gather_needs 0 computed (ep_new_tokens p) f = Inr True
             \<longrightarrow> request_id r \<in> refs_of c'' (mm_identifier f)))"
  using try_schedule_effect [OF assms, of 0 w computed] by fastforce

text \<open>A configuration for examples: no connector, chunked inputs allowed.\<close>

definition plain_env :: "unit environment" where
  "plain_env = \<lparr>kv_matched_tokens = (\<lambda>_ _ _. ((Some 0, False), ())), kv_after_alloc = (\<lambda>_ _ _ _. ()),
     kv_request_finished = (\<lambda>_ _ _. ((False, None), ())), kv_reset_cache = (\<lambda>_. (True, ())),
     kv_build_meta = (\<lambda>_ _. ()), kv_update_output = (\<lambda>_ _. ()), kv_connector_events = id,
     ec_build_meta = (\<lambda>_ _. ()), ec_has_cache_item = (\<lambda>_ _. False),
     ec_after_alloc = (\<lambda>_ _ _. ()), grammar_ready = (\<lambda>_ _. True),
     should_advance = (\<lambda>_ _. False), validate_tokens = (\<lambda>_ _ ts. ts), accept_tokens = (\<lambda>_ _ _. ())\<rparr>"

definition plain_config :: "unit sched_config" where
  "plain_config = \<lparr>c_env = plain_env, c_policy = FCFS, c_max_num_running_reqs = 4,
     c_max_num_scheduled_tokens = 64, c_max_model_len = 128, c_long_prefill_token_threshold = 0,
     c_enable_chunked_prefill = True, c_disable_chunked_mm_input = False,
     c_is_encoder_decoder = False, c_max_num_encoder_input_tokens = 64, c_num_spec_tokens = 0,
     c_num_lookahead_tokens = 0, c_use_eagle = False, c_mamba_block_aligned_split = False,
     c_cache_block_size = 4, c_block_size = 4, c_max_loras = None, c_use_pp = False,
     c_async_scheduling = False, c_use_v2_model_runner = False, c_needs_kv_cache_zeroing = False,
     c_kv_connector = False, c_supports_hma = True, c_ec_connector = False,
     c_recompute_kv_load_failures = True, c_log_stats = False, c_hasher = None, c_sha = id,
     c_client_index = (\<lambda>_. 0)\<rparr>"

lemma encoder_plan_covers_step_witness:
  "\<exists>p c' c''. try_schedule_encoder_inputs plain_config () (image_request ''b'' ''img2'') 0 12 16 0
      (MMCache image_cache) = Inr p
    \<and> ep_manager p = MMCache c' \<and> fold_res (ec_allocate (image_request ''b'' ''img2'')) (planned p) c' = Inr c''
    \<and> (0 < ep_new_tokens p \<longrightarrow> ''b'' \<in> refs_of c'' ''img2'')"
proof -
  let ?r = "image_request ''b'' ''img2''"
  have f: "mm_features ?r = [\<lparr>mm_identifier = ''img2'',
      mm_position = \<lparr>offset = 0, ph_length = 10, is_embed = None\<rparr>\<rparr>]" "request_id ?r = ''b''"
    by (simp_all add: image_request_def sample_request_def)
  have "ec_ok (\<lambda>_. 10) image_cache" "sizes_ok (\<lambda>_. 10) ?r" "\<forall>f \<in> set (mm_features ?r). feature_ok f"
    by (auto simp: ec_ok_def image_cache_def cached_hashes_def sizes_ok_def f
        get_num_embeds_def feature_ok_def)
  from encoder_plan_covers_step [OF this(1) _ this(2,3), of plain_config 12 16 "()" 0]
  obtain p c' c'' where p: "try_schedule_encoder_inputs plain_config () ?r 0 12 16 0 (MMCache image_cache) = Inr p"
    "ep_manager p = MMCache c'" "fold_res (ec_allocate ?r) (planned p) c' = Inr c''"
    "0 < ep_new_tokens p \<longrightarrow>
        (\<forall>f \<in> set (takeWhile (\<lambda>f. offset (mm_position f) < 0 + ep_new_tokens p) (mm_features ?r)).
           gather_needs 0 0 (ep_new_tokens p) f = Inr True
             \<longrightarrow> request_id ?r \<in> refs_of c'' (mm_identifier f))"
    by (auto simp: plain_config_def)
  have "gather_needs 0 0 (ep_new_tokens p) (hd (mm_features ?r)) = Inr True" if "0 < ep_new_tokens p"
    using that by (auto simp: f gather_needs_iff feature_ok_def embeds_before_def)
  then have "''b'' \<in> refs_of c'' ''img2''" if "0 < ep_new_tokens p"
    using that p(4) by (simp add: f)
  with p show ?thesis by blast
qed

text \<open>
  With EAGLE the plan misses an input. When a step ends exactly where an image begins, the loop
  looks at the image, because the drafter runs one position ahead, but computes an empty range of
  its embeddings and skips it; the drafter's lookup for the same step then needs the encoder output
  of the image.
\<close>

theorem eagle_boundary_input_not_planned:
  assumes "mm_features r = [\<lparr>mm_identifier = h,
      mm_position = \<lparr>offset = computed + new, ph_length = len, is_embed = None\<rparr>\<rparr>]"
    and "0 < new" "0 < len" and cfg: "\<not> c_is_encoder_decoder cfg" "\<not> c_disable_chunked_mm_input cfg"
    and c: "cached c = []" "len \<le> num_free_slots c" "len \<le> budget"
  shows "\<exists>p. try_schedule_encoder_inputs cfg w r computed new budget 1 (MMCache c) = Inr p
      \<and> planned p = [] \<and> ep_new_tokens p = new
      \<and> gather_needs 1 computed (ep_new_tokens p) (hd (mm_features r)) = Inr True"
proof -
  let ?f = "\<lparr>mm_identifier = h,
      mm_position = \<lparr>offset = computed + new, ph_length = len, is_embed = None\<rparr>\<rparr>"
  let ?p = "start_plan new budget (MMCache c)"
  have g: "get_num_embeds (mm_position ?f) = Inr len" by (simp add: get_num_embeds_def)
  have chk: "em_check r 0 (MMCache c) = Inr (False, MMCache c)"
    using assms(1) c(1) by (simp add: ec_check_and_update_cache_def mm_hash_of_def)
  have can: "em_can_allocate r 0 budget 0 (MMCache c) = Inr (True, MMCache c)"
    using assms(1) c by (simp add: ec_can_allocate_def get_num_encoder_embeds_def get_num_embeds_def Let_def)
  have "encoder_step cfg w r computed 1 0 ?f ?p = Inr (True, ?p)"
    using g chk can assms(2,3) cfg
    by (simp add: encoder_step_def Let_def start_plan_def get_embeds_indices_in_range_def)
  then have "try_schedule_encoder_inputs cfg w r computed new budget 1 (MMCache c) = Inr ?p"
    using assms(1,2) by (simp add: try_schedule_encoder_inputs_def has_encoder_inputs_def)
  moreover have "gather_needs 1 computed new (hd (mm_features r)) = Inr True"
    using assms(1-3) by (simp add: gather_needs_def Let_def get_embeds_indices_in_range_def)
  ultimately show ?thesis by (auto simp: planned_def start_plan_def)
qed

definition late_image :: request where
  "late_image = (sample_request ''b'' (replicate 18 1))\<lparr>mm_features :=
     [\<lparr>mm_identifier = ''img2'', mm_position = \<lparr>offset = 8, ph_length = 10, is_embed = None\<rparr>\<rparr>]\<rparr>"

lemma eagle_boundary_input_not_planned_witness:
  "\<exists>p. try_schedule_encoder_inputs plain_config () late_image 0 8 16 1
      (MMCache (init_enc_cache 12)) = Inr p \<and> planned p = []
    \<and> gather_needs 1 0 (ep_new_tokens p) (hd (mm_features late_image)) = Inr True"
proof -
  have f: "mm_features late_image = [\<lparr>mm_identifier = ''img2'',
      mm_position = \<lparr>offset = 0 + 8, ph_length = 10, is_embed = None\<rparr>\<rparr>]"
    by (simp add: late_image_def)
  show ?thesis
    using eagle_boundary_input_not_planned [OF f, of plain_config "init_enc_cache 12" 16 "()"]
    by (auto simp: plain_config_def init_enc_cache_def)
qed

end
