(* ===== verification/Sched_Running.thy ===== *)
theory Sched_Running
  imports Sched_Encoder
begin

text \<open>
  The first phase of a scheduling step, \<open>Scheduler.schedule\<close> of \<^verbatim>\<open>vllm/v1/core/sched/scheduler.py\<close>. The running
  requests are scheduled first, preempting others when the KV cache is full. The local variables of
  the method are a record, a dict is an association list in insertion order.
\<close>

section \<open>Local variables\<close>

record sched_locals =
  token_budget :: int
  encoder_budget :: int
  req_index :: int
  new_reqs :: "req_id list"
  resumed_reqs :: "req_id list"
  running_reqs :: "req_id list"
  preempted_reqs :: "req_id list"
  req_blocks :: "(req_id \<times> kv_cache_blocks) list"
  sched_tokens :: "(req_id \<times> int) list"
  sched_encoder :: "(req_id \<times> int list) list"
  sched_spec :: "(req_id \<times> token list) list"
  loras :: "int list"
  step_skipped :: request_queue

definition init_locals :: "'c sched_config \<Rightarrow> 'c scheduler \<Rightarrow> sched_locals" where
  "init_locals cfg s =
     \<lparr>token_budget = (if sched_pause_state s = PAUSED_ALL then 0
                      else c_max_num_scheduled_tokens cfg),
      encoder_budget = c_max_num_encoder_input_tokens cfg, req_index = 0, new_reqs = [],
      resumed_reqs = [], running_reqs = [], preempted_reqs = [], req_blocks = [], sched_tokens = [],
      sched_encoder = [], sched_spec = [], loras = [],
      step_skipped = create_request_queue (c_policy cfg)\<rparr>"

section \<open>Running requests\<close>

text \<open>\<open>max(self.running, key=lambda r: (r.priority, r.arrival_time))\<close>, the first of the maximal ones.\<close>

definition key_less :: "request \<Rightarrow> request \<Rightarrow> bool" where
  "key_less a b \<longleftrightarrow> priority a < priority b \<or> priority a = priority b \<and> arrival_time a < arrival_time b"

fun last_served :: "(req_id \<Rightarrow> request) \<Rightarrow> req_id \<Rightarrow> req_id list \<Rightarrow> req_id" where
  "last_served objs best [] = best"
| "last_served objs best (x # xs) =
     (if key_less (objs best) (objs x) then last_served objs x xs else last_served objs best xs)"

definition dict_pop :: "'k \<Rightarrow> ('k \<times> 'v) list \<Rightarrow> ('v \<times> ('k \<times> 'v) list) res" where
  "dict_pop k d = (case map_of d k of None \<Rightarrow> Inl KeyError | Some v \<Rightarrow> Inr (v, AList.delete k d))"

text \<open>Undoing what this step had already scheduled for a request that is preempted.\<close>

definition unschedule :: "req_id \<Rightarrow> request \<Rightarrow> sched_locals \<Rightarrow> sched_locals res" where
  "unschedule rid r l =
     res_bind (dict_pop rid (sched_tokens l)) (\<lambda>(n, toks).
     res_bind (dict_pop rid (req_blocks l)) (\<lambda>(_, blks).
     res_bind
       (case map_of (sched_encoder l) rid of
          None \<Rightarrow> Inr 0
        | Some is \<Rightarrow>
            fold_res (\<lambda>i acc. res_bind (get_num_encoder_embeds r i) (\<lambda>k. Inr (acc + k))) is 0)
       (\<lambda>restored.
         Inr (l\<lparr>running_reqs := remove1 rid (running_reqs l), token_budget := token_budget l + n,
           sched_tokens := toks, req_blocks := blks, sched_spec := AList.delete rid (sched_spec l),
           sched_encoder := AList.delete rid (sched_encoder l),
           encoder_budget := encoder_budget l + restored, req_index := req_index l - 1\<rparr>))))"

text \<open>The request to preempt leaves \<open>running\<close>: the last served one, or the last of the list.\<close>

definition take_victim ::
  "'c sched_config \<Rightarrow> 'c scheduler \<Rightarrow> sched_locals \<Rightarrow> (req_id \<times> 'c scheduler \<times> sched_locals) res"
where
  "take_victim cfg s l =
     (case c_policy cfg of
        PRIORITY \<Rightarrow>
          (case running s of
             [] \<Rightarrow> Inl ValueError
           | x # xs \<Rightarrow>
               let v = last_served (objects s) x xs; s1 = s\<lparr>running := remove1 v (running s)\<rparr> in
               if v \<in> set (running_reqs l) then
                 res_bind (unschedule v (objects s v) l) (\<lambda>l1. Inr (v, s1, l1))
               else Inr (v, s1, l))
      | FCFS \<Rightarrow>
          if running s = [] then Inl IndexError
          else Inr (last (running s), s\<lparr>running := butlast (running s)\<rparr>, l))"

lemma take_victim_shorter:
  "take_victim cfg s l = Inr (v, s', l') \<Longrightarrow> length (running s') < length (running s)"
proof (cases "running s")
  case (Cons x xs)
  have "last_served (objects s) b ys \<in> insert b (set ys)" for b ys
    by (induction ys arbitrary: b) (auto split: if_splits)
  from this [of x xs] have v: "last_served (objects s) x xs \<in> set (running s)" using Cons by simp
  then have "length (remove1 (last_served (objects s) x xs) (running s)) < length (running s)"
    using length_pos_if_in_set [OF v] by (simp add: length_remove1)
  then show "take_victim cfg s l = Inr (v, s', l') \<Longrightarrow> ?thesis"
    using Cons by (auto simp: take_victim_def res_simps Let_def split: scheduling_policy.splits if_splits)
qed (auto simp: take_victim_def split: scheduling_policy.splits)

lemma preempt_request_running: "preempt_request v s = Inr s' \<Longrightarrow> running s' = running s"
  by (auto simp: preempt_request_def res_simps Let_def upd_obj_def set_obj_def)

text \<open>
  The loop around \<open>allocate_slots\<close>: while the request cannot get its slots another request is
  preempted, until it is the request itself.
\<close>

function alloc_or_preempt ::
  "'c sched_config \<Rightarrow> req_id \<Rightarrow> int \<Rightarrow> 'c scheduler \<Rightarrow> sched_locals \<Rightarrow>
   (kv_cache_blocks option \<times> 'c scheduler \<times> sched_locals) res" where
  "alloc_or_preempt cfg rid n s l =
     res_bind (allocate_slots (c_sha cfg) (objects s rid)
                 ((default_slots n)\<lparr>num_lookahead_tokens := c_num_lookahead_tokens cfg\<rparr>) (kvm s))
       (\<lambda>(res, r, k).
          let s1 = set_obj rid r (s\<lparr>kvm := k\<rparr>) in
          case res of
            Some kb \<Rightarrow> Inr (Some kb, s1, l)
          | None \<Rightarrow>
              res_bind (take_victim cfg s1 l) (\<lambda>(v, s2, l2).
              res_bind (preempt_request v s2) (\<lambda>s3.
                let l3 = l2\<lparr>preempted_reqs := preempted_reqs l2 @ [v]\<rparr> in
                if v = rid then Inr (None, s3, l3) else alloc_or_preempt cfg rid n s3 l3)))"
  by pat_completeness auto
termination
proof (relation "measure (\<lambda>(cfg, rid, n, s, l). length (running s))", goal_cases)
  case (2 cfg rid n s l p res q r k s1 t v u s2 l2 s3 l3)
  then have "length (running s2) < length (running s1)" "running s3 = running s2"
    by (auto dest: take_victim_shorter preempt_request_running)
  then show ?case using 2 by (simp add: set_obj_def)
qed simp

declare alloc_or_preempt.simps [simp del]

text \<open>The number of tokens to schedule for a running request.\<close>

definition async_exhausted :: "request \<Rightarrow> bool" where
  "async_exhausted r \<longleftrightarrow>
     num_output_placeholders r > 0 \<and>
     num_computed_tokens r + 2 - num_output_placeholders r \<ge> num_prompt_tokens r + max_tokens r"

definition running_new_tokens :: "'c sched_config \<Rightarrow> request \<Rightarrow> int \<Rightarrow> int" where
  "running_new_tokens cfg r budget =
     (let n = num_tokens_with_spec r + num_output_placeholders r - num_computed_tokens r;
          t = c_long_prefill_token_threshold cfg;
          n1 = (if 0 < t \<and> t < n then t else n)
      in min (min n1 budget) (c_max_model_len cfg - 1 - num_computed_tokens r))"

text \<open>Recording a running request that got its slots.\<close>

definition note_spec_tokens :: "req_id \<Rightarrow> int \<Rightarrow> 'c scheduler \<Rightarrow> sched_locals \<Rightarrow> 'c scheduler \<times> sched_locals"
where
  "note_spec_tokens rid n s l =
     (let r = objects s rid; spec = spec_token_ids r in
      if spec = [] then (s, l)
      else
        (let k = n + num_computed_tokens r - num_tokens r - num_output_placeholders r;
             l1 = (if k > 0 then
                     l\<lparr>sched_spec := AList.update rid
                         (if int (length spec) > k then py_upto spec k else spec) (sched_spec l)\<rparr>
                   else l)
         in (upd_obj rid (\<lambda>r. r\<lparr>spec_token_ids := []\<rparr>) s, l1)))"

definition note_encoder_inputs ::
  "'c sched_config \<Rightarrow> req_id \<Rightarrow> enc_plan \<Rightarrow> 'c scheduler \<Rightarrow> sched_locals \<Rightarrow>
   ('c scheduler \<times> sched_locals) res" where
  "note_encoder_inputs cfg rid plan s l =
     res_bind
       (if ep_inputs plan \<noteq> [] then
          res_bind (allocate_encoder_inputs cfg rid (ep_inputs plan) s) (\<lambda>s1.
            Inr (s1, l\<lparr>sched_encoder := AList.update rid (ep_inputs plan) (sched_encoder l),
                       encoder_budget := ep_budget plan\<rparr>))
        else Inr (s, l))
       (\<lambda>(s1, l1). res_bind (allocate_encoder_inputs cfg rid (ep_external plan) s1) (\<lambda>s2.
          Inr (s2, l1)))"

definition place_running ::
  "'c sched_config \<Rightarrow> req_id \<Rightarrow> int \<Rightarrow> kv_cache_blocks \<Rightarrow> enc_plan \<Rightarrow> 'c scheduler \<Rightarrow> sched_locals \<Rightarrow>
   ('c scheduler \<times> sched_locals) res" where
  "place_running cfg rid n kb plan s l =
     (let l1 = l\<lparr>running_reqs := running_reqs l @ [rid],
                 req_blocks := AList.update rid kb (req_blocks l),
                 sched_tokens := AList.update rid n (sched_tokens l),
                 token_budget := token_budget l - n, req_index := req_index l + 1\<rparr>;
          (s2, l2) = note_spec_tokens rid n s l1
      in note_encoder_inputs cfg rid plan s2 l2)"

definition encoder_shift :: "'c sched_config \<Rightarrow> int" where
  "encoder_shift cfg = (if c_use_eagle cfg then 1 else 0)"

definition plan_encoder ::
  "'c sched_config \<Rightarrow> request \<Rightarrow> int \<Rightarrow> int \<Rightarrow> 'c scheduler \<Rightarrow> sched_locals \<Rightarrow> enc_plan res" where
  "plan_encoder cfg r computed n s l =
     (if has_encoder_inputs r then
        try_schedule_encoder_inputs cfg (env_state s) r computed n (encoder_budget l)
          (encoder_shift cfg) (enc_manager s)
      else Inr (start_plan n (encoder_budget l) (enc_manager s)))"

text \<open>The encoder plan and the number of tokens of a running request.\<close>

definition running_plan ::
  "'c sched_config \<Rightarrow> request \<Rightarrow> 'c scheduler \<Rightarrow> sched_locals \<Rightarrow> (enc_plan \<times> int) res" where
  "running_plan cfg r s l =
     res_bind (plan_encoder cfg r (num_computed_tokens r) (running_new_tokens cfg r (token_budget l)) s l)
       (\<lambda>plan.
          res_bind (if c_mamba_block_aligned_split cfg
                    then mamba_block_aligned_split cfg r (ep_new_tokens plan) 0 0
                    else Inr (ep_new_tokens plan)) (\<lambda>n. Inr (plan, n)))"

definition schedule_running ::
  "'c sched_config \<Rightarrow> req_id \<Rightarrow> int \<Rightarrow> enc_plan \<Rightarrow> 'c scheduler \<Rightarrow> sched_locals \<Rightarrow>
   (bool \<times> 'c scheduler \<times> sched_locals) res" where
  "schedule_running cfg rid n plan s l =
     res_bind (alloc_or_preempt cfg rid n s l) (\<lambda>(kb, s1, l1).
       case kb of
         None \<Rightarrow> Inr (False, s1, l1)
       | Some kb \<Rightarrow>
           res_bind (place_running cfg rid n kb plan s1 l1) (\<lambda>(s2, l2). Inr (True, s2, l2)))"

text \<open>One iteration over the running requests; the flag tells whether the loop goes on.\<close>

definition run_one ::
  "'c sched_config \<Rightarrow> 'c scheduler \<Rightarrow> sched_locals \<Rightarrow> (bool \<times> 'c scheduler \<times> sched_locals) res"
where
  "run_one cfg s l =
     res_bind (py_get (running s) (req_index l)) (\<lambda>rid.
       if async_exhausted (objects s rid) then Inr (True, s, l\<lparr>req_index := req_index l + 1\<rparr>)
       else
         res_bind (running_plan cfg (objects s rid) s l) (\<lambda>(plan, n).
           let s1 = s\<lparr>enc_manager := ep_manager plan\<rparr> in
           if n = 0 then Inr (True, s1, l\<lparr>req_index := req_index l + 1\<rparr>)
           else schedule_running cfg rid n plan s1 l))"

text \<open>
  The loop ends because each iteration brings \<open>req_index\<close> closer to the end of \<open>running\<close>: a
  preemption may move both by one.
\<close>

definition left :: "'c scheduler \<Rightarrow> sched_locals \<Rightarrow> int" where
  "left s l = int (length (running s)) - req_index l"

lemma running_set_obj [simp]: "running (set_obj rid r s) = running s" "running (upd_obj rid f s) = running s"
  by (simp_all add: set_obj_def upd_obj_def)

lemma unschedule_index: "unschedule rid r l = Inr l' \<Longrightarrow> req_index l' = req_index l - 1"
  by (auto simp: unschedule_def res_simps)

lemma take_victim_left:
  assumes "take_victim cfg s l = Inr (v, s', l')"
  shows "left s' l' \<le> left s l"
proof -
  have "req_index l - 1 \<le> req_index l'"
    using assms by (auto simp: take_victim_def res_simps Let_def dest!: unschedule_index
        split: scheduling_policy.splits list.splits if_splits)
  then show ?thesis using take_victim_shorter [OF assms] by (simp add: left_def)
qed

lemma alloc_or_preempt_left:
  "alloc_or_preempt cfg rid n s l = Inr (kb, s', l') \<Longrightarrow> left s' l' \<le> left s l"
proof (induction cfg rid n s l arbitrary: kb s' l' rule: alloc_or_preempt.induct)
  case (1 cfg rid n s l)
  from 1(2) obtain res r k where a: "allocate_slots (c_sha cfg) (objects s rid)
      ((default_slots n)\<lparr>num_lookahead_tokens := c_num_lookahead_tokens cfg\<rparr>) (kvm s) = Inr (res, r, k)"
    by (subst (asm) alloc_or_preempt.simps) (auto simp: res_simps)
  let ?s1 = "set_obj rid r (s\<lparr>kvm := k\<rparr>)"
  have l1: "left ?s1 l = left s l" by (simp add: left_def)
  show ?case
  proof (cases res)
    case (Some b)
    then show ?thesis using 1(2) a l1
      by (subst (asm) alloc_or_preempt.simps) (auto simp: Let_def)
  next
    case None
    obtain v s2 l2 s3 where v: "take_victim cfg ?s1 l = Inr (v, s2, l2)" "preempt_request v s2 = Inr s3"
      and rest: "(if v = rid then Inr (None, s3, l2\<lparr>preempted_reqs := preempted_reqs l2 @ [v]\<rparr>)
        else alloc_or_preempt cfg rid n s3 (l2\<lparr>preempted_reqs := preempted_reqs l2 @ [v]\<rparr>)) = Inr (kb, s', l')"
      using 1(2) a None by (subst (asm) alloc_or_preempt.simps) (auto simp: Let_def res_simps)
    have le: "left s3 (l2\<lparr>preempted_reqs := preempted_reqs l2 @ [v]\<rparr>) \<le> left s l"
      using take_victim_left [OF v(1)] preempt_request_running [OF v(2)] l1 by (simp add: left_def)
    show ?thesis
    proof (cases "v = rid")
      case True
      then show ?thesis using rest le by auto
    next
      case False
      then have "left s' l' \<le> left s3 (l2\<lparr>preempted_reqs := preempted_reqs l2 @ [v]\<rparr>)"
        using rest by (intro 1(1) [OF a refl refl refl None v(1) refl refl v(2) refl False]) simp
      then show ?thesis using le by simp
    qed
  qed
qed

lemma allocate_encoder_frame:
  assumes run: "allocate_encoder_inputs cfg rid is s = Inr s'"
  shows "\<exists>m w. s' = s\<lparr>enc_manager := m, env_state := w\<rparr>"
proof (rule fold_res_invariant [OF run [unfolded allocate_encoder_inputs_def],
      of "\<lambda>t. \<exists>m w. t = s\<lparr>enc_manager := m, env_state := w\<rparr>"])
  show "\<exists>m w. s = s\<lparr>enc_manager := m, env_state := w\<rparr>"
    by (intro exI [of _ "enc_manager s"] exI [of _ "env_state s"]) simp
next
  fix i t u
  assume "\<exists>m w. t = s\<lparr>enc_manager := m, env_state := w\<rparr>"
    and u: "res_bind (em_allocate (objects t rid) i (enc_manager t)) (\<lambda>m.
       let s1 = t\<lparr>enc_manager := m\<rparr> in
       Inr (if c_ec_connector cfg
            then s1\<lparr>env_state := ec_after_alloc (c_env cfg) (env_state s1) (objects s1 rid) i\<rparr>
            else s1)) = Inr u"
  then obtain m w where t: "t = s\<lparr>enc_manager := m, env_state := w\<rparr>" by blast
  from u obtain m' where "em_allocate (objects t rid) i (enc_manager t) = Inr m'"
    by (auto simp: res_bind_eq_Inr)
  with u have "u = (if c_ec_connector cfg then t\<lparr>enc_manager := m',
      env_state := ec_after_alloc (c_env cfg) (env_state t) (objects t rid) i\<rparr>
      else t\<lparr>enc_manager := m'\<rparr>)" by (auto simp: Let_def)
  then show "\<exists>m w. u = s\<lparr>enc_manager := m, env_state := w\<rparr>"
  proof (cases "c_ec_connector cfg")
    case True
    then have "u = s\<lparr>enc_manager := m', env_state :=
        ec_after_alloc (c_env cfg) (env_state t) (objects t rid) i\<rparr>" using \<open>u = _\<close> t by simp
    then show ?thesis by blast
  next
    case False
    then have "u = s\<lparr>enc_manager := m', env_state := w\<rparr>" using \<open>u = _\<close> t by simp
    then show ?thesis by blast
  qed
qed

lemma note_encoder_frame:
  assumes "note_encoder_inputs cfg rid plan s l = Inr (s', l')"
  shows "\<exists>m w es b. s' = s\<lparr>enc_manager := m, env_state := w\<rparr>
    \<and> l' = l\<lparr>sched_encoder := es, encoder_budget := b\<rparr>"
proof -
  obtain s1 l1 where one: "(if ep_inputs plan \<noteq> [] then
          res_bind (allocate_encoder_inputs cfg rid (ep_inputs plan) s) (\<lambda>s1.
            Inr (s1, l\<lparr>sched_encoder := AList.update rid (ep_inputs plan) (sched_encoder l),
                       encoder_budget := ep_budget plan\<rparr>))
        else Inr (s, l)) = Inr (s1, l1)"
    and two: "allocate_encoder_inputs cfg rid (ep_external plan) s1 = Inr s'" "l' = l1"
    using assms by (auto simp: note_encoder_inputs_def res_simps)
  obtain m w es b where "s1 = s\<lparr>enc_manager := m, env_state := w\<rparr>"
    "l1 = l\<lparr>sched_encoder := es, encoder_budget := b\<rparr>"
  proof (cases "ep_inputs plan = []")
    case True
    then have "s1 = s\<lparr>enc_manager := enc_manager s, env_state := env_state s\<rparr>"
      "l1 = l\<lparr>sched_encoder := sched_encoder l, encoder_budget := encoder_budget l\<rparr>"
      using one by simp_all
    then show ?thesis by (rule that)
  next
    case False
    then have a: "allocate_encoder_inputs cfg rid (ep_inputs plan) s = Inr s1"
      and "l1 = l\<lparr>sched_encoder := AList.update rid (ep_inputs plan) (sched_encoder l),
                   encoder_budget := ep_budget plan\<rparr>"
      using one by (auto simp: res_simps)
    then show ?thesis using allocate_encoder_frame [OF a] that by blast
  qed
  moreover obtain m' w' where "s' = s1\<lparr>enc_manager := m', env_state := w'\<rparr>"
    using allocate_encoder_frame [OF two(1)] by blast
  ultimately show ?thesis using two(2)
    by (intro exI [of _ m'] exI [of _ w'] exI [of _ es] exI [of _ b]) simp
qed

lemma place_running_left:
  assumes "place_running cfg rid n kb plan s l = Inr (s', l')"
  shows "left s' l' = left s l - 1"
proof -
  obtain s2 l2 where n: "note_spec_tokens rid n s (l\<lparr>running_reqs := running_reqs l @ [rid],
        req_blocks := AList.update rid kb (req_blocks l),
        sched_tokens := AList.update rid n (sched_tokens l),
        token_budget := token_budget l - n, req_index := req_index l + 1\<rparr>) = (s2, l2)"
    by fastforce
  have e: "note_encoder_inputs cfg rid plan s2 l2 = Inr (s', l')"
    using assms n by (simp add: place_running_def)
  have "running s2 = running s \<and> req_index l2 = req_index l + 1"
    using n by (auto simp: note_spec_tokens_def Let_def split: if_splits)
  then show ?thesis using note_encoder_frame [OF e] by (auto simp: left_def)
qed

lemma schedule_running_left:
  assumes "schedule_running cfg rid n plan s l = Inr (True, s', l')"
  shows "left s' l' < left s l"
proof -
  obtain kb s2 l2 where a: "alloc_or_preempt cfg rid n s l = Inr (Some kb, s2, l2)"
    and p: "place_running cfg rid n kb plan s2 l2 = Inr (s', l')"
    using assms by (auto simp: schedule_running_def res_simps split: option.splits)
  show ?thesis using alloc_or_preempt_left [OF a] place_running_left [OF p] by simp
qed

lemma run_one_cases:
  assumes "run_one cfg s l = Inr (go, s', l')"
  obtains (skip) rid m where "py_get (running s) (req_index l) = Inr rid" "go"
      "s' = s\<lparr>enc_manager := m\<rparr>" "l' = l\<lparr>req_index := req_index l + 1\<rparr>"
  | (run) rid plan n where "py_get (running s) (req_index l) = Inr rid"
      "running_plan cfg (objects s rid) s l = Inr (plan, n)" "n \<noteq> 0"
      "schedule_running cfg rid n plan (s\<lparr>enc_manager := ep_manager plan\<rparr>) l = Inr (go, s', l')"
proof -
  obtain rid where rid: "py_get (running s) (req_index l) = Inr rid"
    using assms by (auto simp: run_one_def res_bind_eq_Inr)
  show thesis
  proof (cases "async_exhausted (objects s rid)")
    case True
    then have "s' = s\<lparr>enc_manager := enc_manager s\<rparr>" "go" "l' = l\<lparr>req_index := req_index l + 1\<rparr>"
      using assms rid by (simp_all add: run_one_def)
    then show thesis using skip rid by blast
  next
    case False
    then obtain plan n where p: "running_plan cfg (objects s rid) s l = Inr (plan, n)"
      using assms rid by (auto simp: run_one_def res_bind_eq_Inr)
    show thesis
    proof (cases "n = 0")
      case True
      then show thesis using assms rid False p skip by (auto simp: run_one_def)
    next
      case n: False
      then show thesis using assms rid False p run by (simp add: run_one_def Let_def)
    qed
  qed
qed

lemma run_one_left:
  assumes "run_one cfg s l = Inr (True, s', l')"
  shows "left s' l' < left s l"
  using assms
proof (cases rule: run_one_cases)
  case (run rid plan n)
  then show ?thesis using schedule_running_left [OF run(4)] by (simp add: left_def)
qed (simp add: left_def)

function run_loop ::
  "'c sched_config \<Rightarrow> 'c scheduler \<Rightarrow> sched_locals \<Rightarrow> ('c scheduler \<times> sched_locals) res" where
  "run_loop cfg s l =
     (if req_index l < int (length (running s)) \<and> token_budget l > 0 then
        res_bind (run_one cfg s l) (\<lambda>(go, s1, l1).
          if go then run_loop cfg s1 l1 else Inr (s1, l1))
      else Inr (s, l))"
  by pat_completeness auto
termination
proof (relation "measure (\<lambda>(cfg, s, l). nat (left s l))", goal_cases)
  case (2 cfg s l x go y s1 l1)
  then have "left s1 l1 < left s l" by (auto intro: run_one_left)
  then show ?case using 2(1) by (simp add: left_def)
qed simp

declare run_loop.simps [simp del]

end
