(* ===== verification/Sched_Waiting.thy ===== *)
theory Sched_Waiting
  imports Sched_Running
begin

text \<open>
  The second phase of \<open>Scheduler.schedule\<close>: requests are admitted from the waiting queues. Requests
  that cannot run yet (blocked, one LoRA adapter too many, a connector that cannot tell) are put
  aside for this step; the first request that does not fit ends the phase. Waiting requests may be
  new, preempted, or back from a remote load of their KV cache.
\<close>

section \<open>Definitions\<close>

text \<open>\<open>request_queue.pop_request()\<close> and \<open>step_skipped_waiting.prepend_request(request)\<close>.\<close>

definition skip_request ::
  "queue_name \<Rightarrow> req_id \<Rightarrow> 'c scheduler \<Rightarrow> sched_locals \<Rightarrow> ('c scheduler \<times> sched_locals) res" where
  "skip_request q rid s l =
     res_bind (rq_pop (objects s) (queue_of q s)) (\<lambda>(_, v).
       Inr (set_queue q v s, l\<lparr>step_skipped := rq_prepend (objects s) rid (step_skipped l)\<rparr>))"

definition lora_blocked :: "'c sched_config \<Rightarrow> request \<Rightarrow> sched_locals \<Rightarrow> bool" where
  "lora_blocked cfg r l =
     (case (c_max_loras cfg, lora_request r) of
        (Some m, Some lr) \<Rightarrow> int (length (loras l)) = m \<and> lora_int_id lr \<notin> set (loras l)
      | _ \<Rightarrow> False)"

text \<open>What is known of a candidate before tokens are counted; \<open>None\<close> if the connector cannot tell.\<close>

record candidate =
  cand_blocks :: kv_cache_blocks
  cand_local :: int
  cand_external :: int
  cand_async :: bool
  cand_computed :: int
  cand_queries :: int

definition external_tokens ::
  "'c sched_config \<Rightarrow> req_id \<Rightarrow> int \<Rightarrow> 'c scheduler \<Rightarrow> (int \<times> bool) option \<times> 'c scheduler" where
  "external_tokens cfg rid local s =
     (if \<not> c_kv_connector cfg then (Some (0, False), s)
      else
        (case kv_matched_tokens (c_env cfg) (env_state s) (objects s rid) local of
           ((ext, async), w) \<Rightarrow>
             (case ext of
                None \<Rightarrow> (None, s\<lparr>env_state := w\<rparr>)
              | Some n \<Rightarrow> (Some (n, async),
                  upd_obj rid (\<lambda>r. r\<lparr>num_external_computed_tokens := n\<rparr>) (s\<lparr>env_state := w\<rparr>)))))"

definition find_computed ::
  "'c sched_config \<Rightarrow> req_id \<Rightarrow> 'c scheduler \<Rightarrow> (candidate option \<times> 'c scheduler) res" where
  "find_computed cfg rid s =
     (let r = objects s rid in
      if num_computed_tokens r = 0 then
        res_bind (run_res (get_computed_blocks r (kvm s))) (\<lambda>((kb, local), k).
          case external_tokens cfg rid local (s\<lparr>kvm := k\<rparr>) of
            (None, s1) \<Rightarrow> Inr (None, s1)
          | (Some (ext, async), s1) \<Rightarrow>
              require (local + ext \<le> num_tokens r) AssertionError
                (Inr (Some \<lparr>cand_blocks = kb, cand_local = local, cand_external = ext,
                            cand_async = async, cand_computed = local + ext,
                            cand_queries = (if c_kv_connector cfg then num_tokens r - local else 0)\<rparr>,
                      s1)))
      else
        Inr (Some \<lparr>cand_blocks = EmptyBlocks, cand_local = 0, cand_external = 0, cand_async = False,
                   cand_computed = num_computed_tokens r, cand_queries = 0\<rparr>, s))"

definition waiting_new_tokens :: "'c sched_config \<Rightarrow> request \<Rightarrow> int \<Rightarrow> int" where
  "waiting_new_tokens cfg r computed =
     (let n = num_tokens r - computed; t = c_long_prefill_token_threshold cfg in
      if 0 < t \<and> t < n then t else n)"

text \<open>
  The number of new tokens and the encoder inputs of a candidate; the flag is False where the code
  leaves the loop.
\<close>

definition waiting_plan ::
  "'c sched_config \<Rightarrow> request \<Rightarrow> candidate \<Rightarrow> 'c scheduler \<Rightarrow> sched_locals \<Rightarrow> (bool \<times> enc_plan) res"
where
  "waiting_plan cfg r cand s l =
     (if cand_async cand then
        require (cand_external cand > 0) AssertionError
          (Inr (True, start_plan 0 (encoder_budget l) (enc_manager s)))
      else
        let n = waiting_new_tokens cfg r (cand_computed cand);
            n1 = min n (token_budget l)
        in
        if \<not> c_enable_chunked_prefill cfg \<and> n > token_budget l then
          Inr (False, start_plan n (encoder_budget l) (enc_manager s))
        else
          require (n1 > 0) AssertionError
            (res_bind (plan_encoder cfg r (cand_computed cand) n1 s l) (\<lambda>plan.
               Inr (\<not> (has_encoder_inputs r \<and> ep_new_tokens plan = 0), plan))))"

definition waiting_align ::
  "'c sched_config \<Rightarrow> request \<Rightarrow> candidate \<Rightarrow> int \<Rightarrow> (bool \<times> int) res" where
  "waiting_align cfg r cand n =
     (if c_mamba_block_aligned_split cfg then
        res_bind (mamba_block_aligned_split cfg r n (cand_local cand) (cand_external cand))
          (\<lambda>n1. Inr (n1 \<noteq> 0, n1))
      else Inr (True, n))"

definition encoder_tokens :: "'c sched_config \<Rightarrow> request \<Rightarrow> enc_plan \<Rightarrow> int res" where
  "encoder_tokens cfg r plan =
     (if c_is_encoder_decoder cfg \<and> has_encoder_inputs r \<and> ep_inputs plan \<noteq> [] then
        fold_res (\<lambda>i acc. res_bind (get_num_encoder_embeds r i) (\<lambda>k. Inr (acc + k)))
          (ep_inputs plan) 0
      else Inr 0)"

definition waiting_slots :: "'c sched_config \<Rightarrow> request \<Rightarrow> candidate \<Rightarrow> int \<Rightarrow> int \<Rightarrow> slot_args" where
  "waiting_slots cfg r cand n enc =
     \<lparr>num_new_tokens = n, num_new_computed_tokens = cand_local cand,
      new_computed_blocks = Some (cand_blocks cand),
      num_lookahead_tokens = (if num_computed_tokens r = 0 then 0 else c_num_lookahead_tokens cfg),
      num_external_tokens = cand_external cand, delay_cache_blocks = cand_async cand,
      num_encoder_tokens = enc\<rparr>"

text \<open>The connector is told of the allocation.\<close>

definition tell_connector ::
  "'c sched_config \<Rightarrow> req_id \<Rightarrow> candidate \<Rightarrow> 'c scheduler \<Rightarrow> 'c scheduler" where
  "tell_connector cfg rid cand s =
     (if \<not> c_kv_connector cfg then s
      else
        let s1 = s\<lparr>env_state := kv_after_alloc (c_env cfg) (env_state s) (objects s rid)
                     (kvm_get_blocks rid (kvm s)) (cand_external cand)\<rparr>
        in if cand_queries cand = 0 then s1
           else s1\<lparr>connector_stats := map_option (record_stats (cand_queries cand)
                     (cand_external cand) (num_preemptions (objects s1 rid) > 0)) (connector_stats s1)\<rparr>)"

text \<open>The request starts to load its KV cache: it goes back to the waiting requests.\<close>

definition start_async_load ::
  "req_id \<Rightarrow> candidate \<Rightarrow> 'c scheduler \<Rightarrow> sched_locals \<Rightarrow> 'c scheduler \<times> sched_locals" where
  "start_async_load rid cand s l =
     (let s1 = upd_obj rid (\<lambda>r. r\<lparr>status := WAITING_FOR_REMOTE_KVS,
                                  num_computed_tokens := cand_computed cand\<rparr>) s
      in (s1, l\<lparr>step_skipped := rq_prepend (objects s1) rid (step_skipped l)\<rparr>))"

text \<open>The request starts to run.\<close>

definition place_waiting ::
  "'c sched_config \<Rightarrow> req_id \<Rightarrow> candidate \<Rightarrow> int \<Rightarrow> enc_plan \<Rightarrow> 'c scheduler \<Rightarrow> sched_locals \<Rightarrow>
   ('c scheduler \<times> sched_locals) res" where
  "place_waiting cfg rid cand n plan s l =
     (let r = objects s rid;
          s1 = s\<lparr>running := running s @ [rid]\<rparr>
      in
      res_bind
        (case status r of
           WAITING \<Rightarrow> Inr (l\<lparr>new_reqs := new_reqs l @ [rid]\<rparr>)
         | PREEMPTED \<Rightarrow> Inr (l\<lparr>resumed_reqs := resumed_reqs l @ [rid]\<rparr>)
         | _ \<Rightarrow> Inl RuntimeError)
        (\<lambda>l1.
           let l2 = (case (c_max_loras cfg, lora_request r) of
                       (Some _, Some lr) \<Rightarrow> l1\<lparr>loras := List.insert (lora_int_id lr) (loras l1)\<rparr>
                     | _ \<Rightarrow> l1);
               l3 = l2\<lparr>req_blocks := AList.update rid (kvm_get_blocks rid (kvm s1)) (req_blocks l2),
                       sched_tokens := AList.update rid n (sched_tokens l2),
                       token_budget := token_budget l2 - n\<rparr>;
               s2 = upd_obj rid (\<lambda>r. r\<lparr>status := RUNNING, num_computed_tokens := cand_computed cand,
                      num_cached_tokens := (if num_cached_tokens r < 0 then cand_computed cand
                                            else num_cached_tokens r)\<rparr>) s1
           in note_encoder_inputs cfg rid plan s2 l3))"

text \<open>The candidate gets its slots, or the phase ends.\<close>

definition admit_waiting ::
  "'c sched_config \<Rightarrow> queue_name \<Rightarrow> req_id \<Rightarrow> candidate \<Rightarrow> int \<Rightarrow> enc_plan \<Rightarrow> 'c scheduler \<Rightarrow>
   sched_locals \<Rightarrow> (bool \<times> 'c scheduler \<times> sched_locals) res" where
  "admit_waiting cfg q rid cand n plan s l =
     res_bind (encoder_tokens cfg (objects s rid) plan) (\<lambda>enc.
     res_bind (allocate_slots (c_sha cfg) (objects s rid)
                 (waiting_slots cfg (objects s rid) cand n enc) (kvm s)) (\<lambda>(res, r, k).
       let s1 = set_obj rid r (s\<lparr>kvm := k\<rparr>) in
       case res of
         None \<Rightarrow>
           if has_encoder_inputs r then
             res_bind (em_free r (enc_manager s1)) (\<lambda>m. Inr (False, s1\<lparr>enc_manager := m\<rparr>, l))
           else Inr (False, s1, l)
       | Some _ \<Rightarrow>
           let s2 = tell_connector cfg rid cand s1 in
           res_bind (rq_pop (objects s2) (queue_of q s2)) (\<lambda>(popped, v).
             let s3 = set_queue q v s2 in
             if cand_async cand then
               (case start_async_load popped cand s3 l of (s4, l4) \<Rightarrow> Inr (True, s4, l4))
             else
               res_bind (place_waiting cfg popped cand n plan s3 l) (\<lambda>(s4, l4).
                 Inr (True, s4, l4)))))"

text \<open>A candidate that is neither blocked nor one adapter too many.\<close>

definition try_candidate ::
  "'c sched_config \<Rightarrow> queue_name \<Rightarrow> req_id \<Rightarrow> 'c scheduler \<Rightarrow> sched_locals \<Rightarrow>
   (bool \<times> 'c scheduler \<times> sched_locals) res" where
  "try_candidate cfg q rid s l =
     res_bind (find_computed cfg rid s) (\<lambda>(cand, s1).
       case cand of
         None \<Rightarrow> res_bind (skip_request q rid s1 l) (\<lambda>(s2, l2). Inr (True, s2, l2))
       | Some cand \<Rightarrow>
           res_bind (waiting_plan cfg (objects s1 rid) cand s1 l) (\<lambda>(go, plan).
             let s2 = s1\<lparr>enc_manager := ep_manager plan\<rparr> in
             if \<not> go then Inr (False, s2, l)
             else
               res_bind (waiting_align cfg (objects s2 rid) cand (ep_new_tokens plan)) (\<lambda>(go, n).
                 if \<not> go then Inr (False, s2, l)
                 else admit_waiting cfg q rid cand n plan s2 l)))"

definition wait_one ::
  "'c sched_config \<Rightarrow> 'c scheduler \<Rightarrow> sched_locals \<Rightarrow> (bool \<times> 'c scheduler \<times> sched_locals) res" where
  "wait_one cfg s l =
     (if int (length (running s)) = c_max_num_running_reqs cfg then Inr (False, s, l)
      else
        res_bind (select_waiting_queue cfg s) (\<lambda>qo.
          case qo of
            None \<Rightarrow> Inl AssertionError
          | Some q \<Rightarrow>
              res_bind (rq_peek (queue_of q s)) (\<lambda>rid.
                res_bind
                  (if is_blocked_waiting_status (status (objects s rid)) then
                     try_promote_blocked_waiting_request cfg rid s
                   else Inr (True, s))
                  (\<lambda>(ready, s1).
                     if \<not> ready \<or> lora_blocked cfg (objects s1 rid) l then
                       res_bind (skip_request q rid s1 l) (\<lambda>(s2, l2). Inr (True, s2, l2))
                     else try_candidate cfg q rid s1 l))))"

text \<open>The loop ends because every iteration that goes on takes one request from the queues.\<close>

definition num_waiting :: "'c scheduler \<Rightarrow> nat" where
  "num_waiting s = length (rq_items (waiting s)) + length (rq_items (skipped_waiting s))"

lemma rq_pop_length:
  "rq_pop objs q = Inr (x, q') \<Longrightarrow> length (rq_items q) = Suc (length (rq_items q'))"
  by (cases q) (auto simp: fcfs_pop_def prio_pop_def res_simps dest: heappop_contents(2)
      split: list.splits if_splits)

lemma num_waiting_set_queue:
  assumes "rq_pop objs (queue_of q s) = Inr (x, v)"
  shows "num_waiting (set_queue q v s) < num_waiting s"
  using rq_pop_length [OF assms]
  by (cases q) (simp_all add: num_waiting_def set_queue_def queue_of_def)

lemma num_waiting_cong:
  "waiting s' = waiting s \<Longrightarrow> skipped_waiting s' = skipped_waiting s \<Longrightarrow> num_waiting s' = num_waiting s"
  by (simp add: num_waiting_def)

lemma queues_obj [simp]:
  "waiting (set_obj rid r s) = waiting s" "skipped_waiting (set_obj rid r s) = skipped_waiting s"
  "waiting (upd_obj rid f s) = waiting s" "skipped_waiting (upd_obj rid f s) = skipped_waiting s"
  by (simp_all add: set_obj_def upd_obj_def)

lemma skip_request_shrinks:
  "skip_request q rid s l = Inr (s', l') \<Longrightarrow> num_waiting s' < num_waiting s"
  by (auto simp: skip_request_def res_simps intro: num_waiting_set_queue)

lemma settle_remote_frame:
  assumes "settle_remote_kv cfg rid s = Inr s'"
  shows "\<exists>r k xs. s' = set_obj rid r (s\<lparr>kvm := k, failed_recving_kv_req_ids := xs\<rparr>)
    \<and> request_id r = request_id (objects s rid)"
proof (cases "rid \<in> set (failed_recving_kv_req_ids s)")
  case True
  then obtain r k where s': "s' = set_obj rid r (s\<lparr>kvm := k, failed_recving_kv_req_ids :=
      removeAll rid (failed_recving_kv_req_ids s)\<rparr>)"
    and r: "(if num_computed_tokens (objects s rid) \<noteq> 0
      then kvm_cache_blocks (c_sha cfg) (objects s rid) (num_computed_tokens (objects s rid)) (kvm s)
      else res_bind (kvm_free (objects s rid) (kvm s)) (\<lambda>k. Inr (objects s rid, k))) = Inr (r, k)"
    using assms by (auto simp: settle_remote_kv_def res_bind_eq_Inr Let_def)
  have "request_id r = request_id (objects s rid)"
    using r by (auto simp: res_bind_eq_Inr dest!: kvm_cache_blocks_memo memo_only_status split: if_splits)
  then show ?thesis using s' by blast
next
  case False
  then obtain r0 k where c: "kvm_cache_blocks (c_sha cfg) (objects s rid) (num_computed_tokens (objects s rid)) (kvm s)
      = Inr (r0, k)"
    using assms by (auto simp: settle_remote_kv_def res_bind_eq_Inr Let_def)
  let ?r2 = "if num_computed_tokens r0 = num_tokens r0 then r0\<lparr>num_computed_tokens := num_tokens r0 - 1\<rparr> else r0"
  let ?r3 = "if num_cached_tokens ?r2 < 0 then ?r2\<lparr>num_cached_tokens := num_computed_tokens ?r2\<rparr> else ?r2"
  have "s' = set_obj rid ?r3 (s\<lparr>kvm := k, failed_recving_kv_req_ids := failed_recving_kv_req_ids s\<rparr>)"
    using assms False c by (simp add: settle_remote_kv_def Let_def)
  moreover have "request_id ?r3 = request_id (objects s rid)"
    using memo_only_status [OF kvm_cache_blocks_memo [OF c]] by simp
  ultimately show ?thesis by blast
qed

lemma update_remote_frame:
  assumes "update_waiting_for_remote_kv cfg rid s = Inr s'"
  shows "\<exists>r k xs ys. s' = (set_obj rid r (s\<lparr>kvm := k, failed_recving_kv_req_ids := xs\<rparr>))
    \<lparr>finished_recving_kv_req_ids := ys\<rparr> \<and> request_id r = request_id (objects s rid)"
proof -
  obtain s1 where s1: "settle_remote_kv cfg rid s = Inr s1"
    and s': "s' = s1\<lparr>finished_recving_kv_req_ids := removeAll rid (finished_recving_kv_req_ids s1)\<rparr>"
    using assms by (auto simp: update_waiting_for_remote_kv_def res_bind_eq_Inr require_eq_Inr)
  show ?thesis unfolding s' using settle_remote_frame [OF s1] by blast
qed

lemma try_promote_cases:
  assumes "try_promote_blocked_waiting_request cfg rid s = Inr (b, s')"
  obtains (stay) "\<not> b" "s' = s"
  | (remote) s1 where "status (objects s rid) = WAITING_FOR_REMOTE_KVS" "b"
      "update_waiting_for_remote_kv cfg rid s = Inr s1"
      "s' = upd_obj rid (\<lambda>r. r\<lparr>status := (if num_preemptions r \<noteq> 0 then PREEMPTED else WAITING)\<rparr>) s1"
  | (grammar) "status (objects s rid) = WAITING_FOR_FSM" "b"
      "s' = upd_obj rid (\<lambda>r. r\<lparr>status := WAITING\<rparr>) s"
  using assms
  by (cases "status (objects s rid)")
    (auto simp: try_promote_blocked_waiting_request_def res_simps split: if_splits)

lemma try_promote_queues:
  assumes "try_promote_blocked_waiting_request cfg rid s = Inr (b, s')"
  shows "waiting s' = waiting s \<and> skipped_waiting s' = skipped_waiting s \<and> running s' = running s"
  using assms
proof (cases rule: try_promote_cases)
  case (remote s1)
  from update_remote_frame [OF remote(3)] obtain r k xs ys where
    "s1 = (set_obj rid r (s\<lparr>kvm := k, failed_recving_kv_req_ids := xs\<rparr>))
      \<lparr>finished_recving_kv_req_ids := ys\<rparr>" by blast
  then show ?thesis by (simp add: remote(4))
qed simp_all

lemma external_tokens_queues:
  assumes "external_tokens cfg rid local s = (e, s')"
  shows "waiting s' = waiting s" "skipped_waiting s' = skipped_waiting s" "running s' = running s"
  using assms
  by (cases "kv_matched_tokens (c_env cfg) (env_state s) (objects s rid) local"; cases "c_kv_connector cfg";
      auto simp: external_tokens_def split: prod.splits option.splits)+

lemma find_computed_external:
  assumes "find_computed cfg rid s = Inr (c, s')"
  shows "s' = s \<or> (\<exists>k local e. external_tokens cfg rid local (s\<lparr>kvm := k\<rparr>) = (e, s'))"
proof (cases "num_computed_tokens (objects s rid) = 0")
  case True
  then obtain kb local k where g: "run_res (get_computed_blocks (objects s rid) (kvm s)) = Inr ((kb, local), k)"
    using assms by (auto simp: find_computed_def res_bind_eq_Inr Let_def)
  obtain e s1 where x: "external_tokens cfg rid local (s\<lparr>kvm := k\<rparr>) = (e, s1)" by fastforce
  have "s' = s1" using assms True g x
    by (cases e) (auto simp: find_computed_def Let_def require_eq_Inr split: prod.splits)
  then show ?thesis using x by blast
qed (use assms in \<open>simp add: find_computed_def\<close>)

lemma find_computed_queues:
  assumes "find_computed cfg rid s = Inr (c, s')"
  shows "waiting s' = waiting s" "skipped_waiting s' = skipped_waiting s" "running s' = running s"
  using find_computed_external [OF assms] by (auto dest: external_tokens_queues)

lemma tell_connector_queues [simp]:
  "waiting (tell_connector cfg rid c s) = waiting s"
  "skipped_waiting (tell_connector cfg rid c s) = skipped_waiting s"
  "running (tell_connector cfg rid c s) = running s"
  by (simp_all add: tell_connector_def Let_def)

lemma place_waiting_queues:
  assumes "place_waiting cfg rid cand n plan s l = Inr (s', l')"
  shows "waiting s' = waiting s" "skipped_waiting s' = skipped_waiting s"
  using assms
  by (auto simp: place_waiting_def res_simps Let_def dest!: note_encoder_frame)

text \<open>The ways an admission may go.\<close>

lemma admit_waiting_cases:
  assumes "admit_waiting cfg q rid cand n plan s l = Inr (go, s', l')"
  obtains (full) enc r k m where "encoder_tokens cfg (objects s rid) plan = Inr enc"
      "allocate_slots (c_sha cfg) (objects s rid) (waiting_slots cfg (objects s rid) cand n enc)
         (kvm s) = Inr (None, r, k)"
      "\<not> go" "s' = (set_obj rid r (s\<lparr>kvm := k\<rparr>))\<lparr>enc_manager := m\<rparr>" "l' = l"
  | (load) enc kb r k popped v where "encoder_tokens cfg (objects s rid) plan = Inr enc"
      "allocate_slots (c_sha cfg) (objects s rid) (waiting_slots cfg (objects s rid) cand n enc)
         (kvm s) = Inr (Some kb, r, k)"
      "rq_pop (objects (set_obj rid r s)) (queue_of q s) = Inr (popped, v)" "cand_async cand" "go"
      "(s', l') = start_async_load popped cand
         (set_queue q v (tell_connector cfg rid cand (set_obj rid r (s\<lparr>kvm := k\<rparr>)))) l"
  | (place) enc kb r k popped v where "encoder_tokens cfg (objects s rid) plan = Inr enc"
      "allocate_slots (c_sha cfg) (objects s rid) (waiting_slots cfg (objects s rid) cand n enc)
         (kvm s) = Inr (Some kb, r, k)"
      "rq_pop (objects (set_obj rid r s)) (queue_of q s) = Inr (popped, v)" "\<not> cand_async cand" "go"
      "place_waiting cfg popped cand n plan
         (set_queue q v (tell_connector cfg rid cand (set_obj rid r (s\<lparr>kvm := k\<rparr>)))) l = Inr (s', l')"
proof -
  obtain enc where enc: "encoder_tokens cfg (objects s rid) plan = Inr enc"
    using assms by (auto simp: admit_waiting_def res_bind_eq_Inr)
  obtain res r k where a: "allocate_slots (c_sha cfg) (objects s rid)
      (waiting_slots cfg (objects s rid) cand n enc) (kvm s) = Inr (res, r, k)"
    using assms enc by (auto simp: admit_waiting_def res_bind_eq_Inr)
  let ?s1 = "set_obj rid r (s\<lparr>kvm := k\<rparr>)"
  have obj: "objects (tell_connector cfg rid cand ?s1) = objects (set_obj rid r s)"
    "queue_of q (tell_connector cfg rid cand ?s1) = queue_of q s"
    by (simp_all add: tell_connector_def Let_def set_obj_def queue_of_def split: queue_name.splits)
  show thesis
  proof (cases res)
    case None
    show thesis
    proof (cases "has_encoder_inputs r")
      case True
      then obtain m where "s' = ?s1\<lparr>enc_manager := m\<rparr>" "\<not> go" "l' = l"
        using assms enc a None by (auto simp: admit_waiting_def Let_def res_bind_eq_Inr)
      then show thesis using full enc a None by blast
    next
      case False
      then have "s' = ?s1\<lparr>enc_manager := enc_manager ?s1\<rparr>" "\<not> go" "l' = l"
        using assms enc a None by (auto simp: admit_waiting_def Let_def)
      then show thesis using full enc a None by blast
    qed
  next
    case (Some kb)
    obtain popped v where p: "rq_pop (objects (set_obj rid r s)) (queue_of q s) = Inr (popped, v)"
      using assms enc a Some by (auto simp: admit_waiting_def Let_def res_bind_eq_Inr obj)
    show thesis
    proof (cases "cand_async cand")
      case True
      have "go" "(s', l') = start_async_load popped cand
          (set_queue q v (tell_connector cfg rid cand ?s1)) l"
        using assms enc a Some p True by (auto simp: admit_waiting_def Let_def obj split: prod.splits)
      then show thesis using load [OF enc _ p True] a Some by blast
    next
      case False
      have "go" "place_waiting cfg popped cand n plan
          (set_queue q v (tell_connector cfg rid cand ?s1)) l = Inr (s', l')"
        using assms enc a Some p False by (auto simp: admit_waiting_def Let_def obj res_bind_eq_Inr)
      then show thesis using place [OF enc _ p False] a Some by blast
    qed
  qed
qed

lemma pop_after_tell:
  assumes "rq_pop objs (queue_of q s) = Inr (x, v)"
  shows "num_waiting (set_queue q v (tell_connector cfg rid cand (set_obj rid r (s\<lparr>kvm := k\<rparr>))))
    < num_waiting s"
  using rq_pop_length [OF assms]
  by (cases q) (simp_all add: num_waiting_def set_queue_def queue_of_def)

lemma admit_waiting_shrinks:
  assumes "admit_waiting cfg q rid cand n plan s l = Inr (True, s', l')"
  shows "num_waiting s' < num_waiting s"
  using assms
proof (cases rule: admit_waiting_cases)
  case (load enc kb r k popped v)
  then show ?thesis using pop_after_tell [OF load(3), of cfg rid cand r k]
    by (simp add: start_async_load_def Let_def num_waiting_def)
next
  case (place enc kb r k popped v)
  then show ?thesis using pop_after_tell [OF place(3), of cfg rid cand r k] place_waiting_queues [OF place(6)]
    by (simp add: num_waiting_def)
qed simp

lemma try_candidate_cases:
  assumes "try_candidate cfg q rid s l = Inr (go, s', l')"
  obtains (unknown) s1 where "find_computed cfg rid s = Inr (None, s1)" "go"
      "skip_request q rid s1 l = Inr (s', l')"
  | (no_room) cand s1 m where "find_computed cfg rid s = Inr (Some cand, s1)" "\<not> go"
      "s' = s1\<lparr>enc_manager := m\<rparr>" "l' = l"
  | (admit) cand s1 plan n where "find_computed cfg rid s = Inr (Some cand, s1)"
      "waiting_plan cfg (objects s1 rid) cand s1 l = Inr (True, plan)"
      "waiting_align cfg (objects s1 rid) cand (ep_new_tokens plan) = Inr (True, n)"
      "admit_waiting cfg q rid cand n plan (s1\<lparr>enc_manager := ep_manager plan\<rparr>) l = Inr (go, s', l')"
proof -
  obtain co s1 where f: "find_computed cfg rid s = Inr (co, s1)"
    using assms by (auto simp: try_candidate_def res_bind_eq_Inr)
  show thesis
  proof (cases co)
    case None
    then show thesis using assms f unknown by (auto simp: try_candidate_def res_bind_eq_Inr)
  next
    case (Some cand)
    then obtain ok plan where p: "waiting_plan cfg (objects s1 rid) cand s1 l = Inr (ok, plan)"
      using assms f by (auto simp: try_candidate_def res_bind_eq_Inr)
    show thesis
    proof (cases ok)
      case False
      then have "\<not> go" "s' = s1\<lparr>enc_manager := ep_manager plan\<rparr>" "l' = l"
        using assms f Some p by (simp_all add: try_candidate_def Let_def)
      then show thesis using no_room f Some by blast
    next
      case True
      then obtain ok2 n where w: "waiting_align cfg (objects s1 rid) cand (ep_new_tokens plan) = Inr (ok2, n)"
        using assms f Some p by (auto simp: try_candidate_def res_bind_eq_Inr Let_def)
      show thesis
      proof (cases ok2)
        case False
        then have "\<not> go" "s' = s1\<lparr>enc_manager := ep_manager plan\<rparr>" "l' = l"
          using assms f Some p w True by (simp_all add: try_candidate_def Let_def)
        then show thesis using no_room f Some by blast
      next
        case ok2: True
        then show thesis using assms f Some p w True admit
          by (simp add: try_candidate_def Let_def)
      qed
    qed
  qed
qed

lemma try_candidate_shrinks:
  assumes "try_candidate cfg q rid s l = Inr (True, s', l')"
  shows "num_waiting s' < num_waiting s"
  using assms
proof (cases rule: try_candidate_cases)
  case (unknown s1)
  then show ?thesis using skip_request_shrinks [OF unknown(3)] find_computed_queues [OF unknown(1)]
    by (simp add: num_waiting_def)
next
  case (admit cand s1 plan n)
  then show ?thesis using admit_waiting_shrinks [OF admit(4)] find_computed_queues [OF admit(1)]
    by (simp add: num_waiting_def)
qed simp

lemma wait_one_cases:
  assumes "wait_one cfg s l = Inr (go, s', l')"
  obtains (full) "int (length (running s)) = c_max_num_running_reqs cfg" "\<not> go" "s' = s" "l' = l"
  | (skip) q rid b s1 where "int (length (running s)) \<noteq> c_max_num_running_reqs cfg"
      "select_waiting_queue cfg s = Inr (Some q)" "rq_peek (queue_of q s) = Inr rid"
      "s1 = s \<or> try_promote_blocked_waiting_request cfg rid s = Inr (b, s1)" "go"
      "skip_request q rid s1 l = Inr (s', l')"
  | (candidate) q rid s1 where "int (length (running s)) \<noteq> c_max_num_running_reqs cfg"
      "select_waiting_queue cfg s = Inr (Some q)" "rq_peek (queue_of q s) = Inr rid"
      "if is_blocked_waiting_status (status (objects s rid))
       then try_promote_blocked_waiting_request cfg rid s = Inr (True, s1) else s1 = s"
      "\<not> lora_blocked cfg (objects s1 rid) l"
      "try_candidate cfg q rid s1 l = Inr (go, s', l')"
proof (cases "int (length (running s)) = c_max_num_running_reqs cfg")
  case True
  have "(False, s, l) = (go, s', l')" using assms unfolding wait_one_def if_P [OF True] by simp
  then show thesis using full [OF True] by simp
next
  case False
  then obtain q rid where q: "select_waiting_queue cfg s = Inr (Some q)" "rq_peek (queue_of q s) = Inr rid"
    using assms by (auto simp: wait_one_def res_bind_eq_Inr split: option.splits)
  obtain ready s1 where p: "(if is_blocked_waiting_status (status (objects s rid)) then
       try_promote_blocked_waiting_request cfg rid s else Inr (True, s)) = Inr (ready, s1)"
    using assms False q by (auto simp: wait_one_def res_bind_eq_Inr)
  show thesis
  proof (cases "\<not> ready \<or> lora_blocked cfg (objects s1 rid) l")
    case True
    then have k: "go" "skip_request q rid s1 l = Inr (s', l')"
      using assms False q p by (auto simp: wait_one_def res_bind_eq_Inr)
    have "s1 = s \<or> try_promote_blocked_waiting_request cfg rid s = Inr (ready, s1)"
      using p by (auto split: if_splits)
    then show thesis using skip [OF False q _ k] by blast
  next
    case ready: False
    then have k: "try_candidate cfg q rid s1 l = Inr (go, s', l')"
      using assms False q p by (simp add: wait_one_def)
    have "if is_blocked_waiting_status (status (objects s rid))
       then try_promote_blocked_waiting_request cfg rid s = Inr (True, s1) else s1 = s"
      using p ready by (auto split: if_splits)
    then show thesis using candidate [OF False q _ _ k] ready by blast
  qed
qed

lemma wait_one_shrinks:
  assumes "wait_one cfg s l = Inr (True, s', l')"
  shows "num_waiting s' < num_waiting s"
  using assms
proof (cases rule: wait_one_cases)
  case (skip q rid b s1)
  have "num_waiting s1 = num_waiting s"
    using skip(4) by (auto dest: try_promote_queues simp: num_waiting_def)
  then show ?thesis using skip_request_shrinks [OF skip(6)] by simp
next
  case (candidate q rid s1)
  have "num_waiting s1 = num_waiting s"
    using candidate(4) by (auto dest: try_promote_queues simp: num_waiting_def split: if_splits)
  then show ?thesis using try_candidate_shrinks [OF candidate(6)] by simp
qed simp

function wait_loop ::
  "'c sched_config \<Rightarrow> 'c scheduler \<Rightarrow> sched_locals \<Rightarrow> ('c scheduler \<times> sched_locals) res" where
  "wait_loop cfg s l =
     (if (rq_bool (waiting s) \<or> rq_bool (skipped_waiting s)) \<and> token_budget l > 0 then
        res_bind (wait_one cfg s l) (\<lambda>(go, s1, l1).
          if go then wait_loop cfg s1 l1 else Inr (s1, l1))
      else Inr (s, l))"
  by pat_completeness auto
termination
  by (relation "measure (\<lambda>(cfg, s, l). num_waiting s)") (auto intro: wait_one_shrinks)

declare wait_loop.simps [simp del]

text \<open>
  The LoRA adapters of the running requests, the phase itself, and the requests that were put
  aside: they go back in front of those skipped earlier.
\<close>

definition running_loras :: "'c sched_config \<Rightarrow> 'c scheduler \<Rightarrow> sched_locals \<Rightarrow> sched_locals res" where
  "running_loras cfg s l =
     (case c_max_loras cfg of
        None \<Rightarrow> Inr (l\<lparr>loras := []\<rparr>)
      | Some m \<Rightarrow>
          let ids = remdups (filter (\<lambda>i. i > 0) (concat (map (\<lambda>rid.
                case lora_request (objects s rid) of None \<Rightarrow> [] | Some lr \<Rightarrow> [lora_int_id lr])
                (running_reqs l))))
          in require (int (length ids) \<le> m) AssertionError (Inr (l\<lparr>loras := ids\<rparr>)))"

definition waiting_phase ::
  "'c sched_config \<Rightarrow> 'c scheduler \<Rightarrow> sched_locals \<Rightarrow> ('c scheduler \<times> sched_locals) res" where
  "waiting_phase cfg s l =
     (if preempted_reqs l = [] \<and> sched_pause_state s = UNPAUSED then
        res_bind (wait_loop cfg s (l\<lparr>step_skipped := create_request_queue (c_policy cfg)\<rparr>))
          (\<lambda>(s1, l1).
             Inr (if rq_bool (step_skipped l1) then
                    s1\<lparr>skipped_waiting := rq_prepend_all (objects s1) (step_skipped l1) (skipped_waiting s1)\<rparr>
                  else s1, l1))
      else Inr (s, l))"

end
