(* ===== verification/Sched_Step.thy ===== *)
theory Sched_Step
  imports Sched_Waiting
begin

text \<open>
  The end of \<open>Scheduler.schedule\<close>: the checks of the constraints, the output for the workers and the
  state after the step (\<open>_make_cached_request_data\<close>, \<open>_update_after_schedule\<close> of the scheduler and
  of the asynchronous scheduler), and the whole step.
\<close>

section \<open>The output of a step\<close>

definition cached_request_step ::
  "'c sched_config \<Rightarrow> 'c scheduler \<Rightarrow> sched_locals \<Rightarrow> nat \<Rightarrow> nat \<times> req_id \<Rightarrow> cached_request_data \<Rightarrow>
   cached_request_data res" where
  "cached_request_step cfg s l num_running = (\<lambda>(idx, rid) d.
     let r = objects s rid;
         in_prev_step = (rid \<in> set (prev_step_scheduled_req_ids s));
         d1 = d\<lparr>crd_req_ids := crd_req_ids d @ [rid]\<rparr>
     in
     res_bind
       (if c_use_pp cfg \<and> \<not> c_async_scheduling cfg then
          (case map_of (sched_tokens l) rid of
             None \<Rightarrow> Inl KeyError
           | Some n \<Rightarrow>
               let num_spec = (case map_of (sched_spec l) rid of None \<Rightarrow> 0 | Some ts \<Rightarrow> int (length ts));
                   toks = py_slice (all_token_ids r) (num_computed_tokens r)
                            (num_computed_tokens r + (n - num_spec))
               in Inr (d1\<lparr>crd_new_token_ids := crd_new_token_ids d1 @ [toks]\<rparr>))
        else Inr d1)
       (\<lambda>d2.
          require (num_running \<le> idx \<longrightarrow> \<not> in_prev_step) AssertionError
            (let d3 = (if num_running \<le> idx
                       then d2\<lparr>crd_resumed_req_ids := List.insert rid (crd_resumed_req_ids d2)\<rparr> else d2);
                 d4 = (if in_prev_step then d3
                       else d3\<lparr>crd_all_token_ids := AList.update rid (all_token_ids r) (crd_all_token_ids d3)\<rparr>)
             in
             case map_of (req_blocks l) rid of
               None \<Rightarrow> Inl KeyError
             | Some kb \<Rightarrow>
                 Inr (d4\<lparr>crd_new_block_ids := crd_new_block_ids d4
                           @ [kv_block_ids (num_kv_cache_groups (kvm s)) True kb],
                         crd_num_computed_tokens := crd_num_computed_tokens d4 @ [num_computed_tokens r],
                         crd_num_output_tokens := crd_num_output_tokens d4
                           @ [num_output_tokens r + num_output_placeholders r]\<rparr>))))"

definition make_cached_request_data ::
  "'c sched_config \<Rightarrow> 'c scheduler \<Rightarrow> sched_locals \<Rightarrow> req_id list \<Rightarrow> cached_request_data res" where
  "make_cached_request_data cfg s l resumed =
     fold_res (cached_request_step cfg s l (length (running_reqs l)))
       (List.enumerate 0 (running_reqs l @ resumed))
       \<lparr>crd_req_ids = [], crd_resumed_req_ids = [], crd_new_token_ids = [], crd_all_token_ids = [],
        crd_new_block_ids = [], crd_num_computed_tokens = [], crd_num_output_tokens = []\<rparr>"

definition make_new_request_data ::
  "'c sched_config \<Rightarrow> 'c scheduler \<Rightarrow> sched_locals \<Rightarrow> req_id list \<Rightarrow> new_request_data list res" where
  "make_new_request_data cfg s l news =
     fold_res (\<lambda>rid ds.
         case map_of (req_blocks l) rid of
           None \<Rightarrow> Inl KeyError
         | Some kb \<Rightarrow>
             Inr (ds @ [new_request_data_from (objects s rid)
                          (kv_block_ids (num_kv_cache_groups (kvm s)) False kb)
                          (if c_use_v2_model_runner cfg then Some (all_token_ids (objects s rid)) else None)]))
       news []"

section \<open>After the step\<close>

text \<open>The state of one scheduled request, and whether it uses structured outputs in this step.\<close>

definition advance_computed :: "int \<Rightarrow> request \<Rightarrow> request" where
  "advance_computed n r =
     (let c = num_computed_tokens r + n in
      r\<lparr>num_computed_tokens := c,
        is_prefill_chunk := (c < num_tokens r + num_output_placeholders r)\<rparr>)"

definition update_after_schedule ::
  "'c sched_config \<Rightarrow> scheduler_output \<Rightarrow> 'c scheduler \<Rightarrow> (scheduler_output \<times> 'c scheduler) res" where
  "update_after_schedule cfg out s =
     res_bind
       (fold_res (\<lambda>(rid, n) (out, s).
            require (rid \<in> set (requests s)) KeyError
              (let s1 = upd_obj rid (advance_computed n) s;
                   r = objects s1 rid;
                   out1 = out\<lparr>so_has_structured_output := so_has_structured_output out
                            \<or> use_structured_output r \<and> \<not> is_prefill_chunk r\<rparr>
               in
               if has_encoder_inputs r then
                 res_bind (free_encoder_inputs cfg rid s1) (\<lambda>s2. Inr (out1, s2))
               else Inr (out1, s1)))
          (so_num_scheduled_tokens out) (out, s))
       (\<lambda>(out1, s1). Inr (out1, s1\<lparr>finished_req_ids := []\<rparr>))"

definition async_update_after_schedule ::
  "'c sched_config \<Rightarrow> scheduler_output \<Rightarrow> 'c scheduler \<Rightarrow> (scheduler_output \<times> 'c scheduler) res" where
  "async_update_after_schedule cfg out s =
     res_bind (update_after_schedule cfg out s) (\<lambda>(out1, s1).
       fold_res (\<lambda>rid (out, s).
           require (rid \<in> set (requests s)) KeyError
             (let r = objects s rid in
              if is_prefill_chunk r then Inr (out, s)
              else
                let num_spec = (case map_of (so_spec_decode_tokens out) rid of
                                  None \<Rightarrow> 0 | Some ts \<Rightarrow> int (length ts))
                in Inr (out\<lparr>so_pending_structured_output := so_pending_structured_output out
                              \<or> use_structured_output r \<and> num_output_placeholders r > 0\<rparr>,
                        upd_obj rid (\<lambda>r. r\<lparr>
                          num_output_placeholders := num_output_placeholders r + (1 + num_spec),
                          spec_token_ids := py_repeat (- 1) (c_num_spec_tokens cfg)\<rparr>) s)))
         (map fst (so_num_scheduled_tokens out1)) (out1, s1))"

section \<open>The whole step\<close>

text \<open>The assertions on the constraints after both phases.\<close>

definition total_scheduled :: "sched_locals \<Rightarrow> int" where
  "total_scheduled l = sum_list (map snd (sched_tokens l))"

definition constraints_ok :: "'c sched_config \<Rightarrow> 'c scheduler \<Rightarrow> sched_locals \<Rightarrow> bool" where
  "constraints_ok cfg s l \<longleftrightarrow>
     total_scheduled l \<le> c_max_num_scheduled_tokens cfg \<and> token_budget l \<ge> 0 \<and>
     int (length (running s)) \<le> c_max_num_running_reqs cfg \<and>
     length (new_reqs l) + length (resumed_reqs l) + length (running_reqs l) \<le> length (running s)"

definition common_prefix_blocks :: "'c scheduler \<Rightarrow> int list \<times> 'c scheduler" where
  "common_prefix_blocks s =
     (case running s of
        [] \<Rightarrow> (replicate (num_kv_cache_groups (kvm s)) 0, s)
      | rid # _ \<Rightarrow> (case kvm_common_prefix_blocks rid (kvm s) of (ns, k) \<Rightarrow> (ns, s\<lparr>kvm := k\<rparr>)))"

definition blocks_to_zero :: "'c sched_config \<Rightarrow> 'c scheduler \<Rightarrow> nat list option \<times> 'c scheduler" where
  "blocks_to_zero cfg s =
     (if c_needs_kv_cache_zeroing cfg then
        (case kvm_take_new_block_ids (kvm s) of
           (bs, k) \<Rightarrow> (if bs = [] then None else Some bs, s\<lparr>kvm := k\<rparr>))
      else (None, s))"

definition build_connector_meta :: "'c sched_config \<Rightarrow> scheduler_output \<Rightarrow> 'c scheduler \<Rightarrow> 'c scheduler"
where
  "build_connector_meta cfg out s =
     (let s1 = (if c_kv_connector cfg
                then s\<lparr>env_state := kv_build_meta (c_env cfg) (env_state s) out\<rparr> else s)
      in if c_ec_connector cfg
         then s1\<lparr>env_state := ec_build_meta (c_env cfg) (env_state s1) out\<rparr> else s1)"

definition make_output ::
  "'c sched_config \<Rightarrow> 'c scheduler \<Rightarrow> sched_locals \<Rightarrow> (scheduler_output \<times> 'c scheduler) res" where
  "make_output cfg s l =
     (let (common, s1) = common_prefix_blocks s;
          news = (if c_use_v2_model_runner cfg then new_reqs l @ resumed_reqs l else new_reqs l);
          resumed = (if c_use_v2_model_runner cfg then [] else resumed_reqs l)
      in
      res_bind (make_new_request_data cfg s1 l news) (\<lambda>new_data.
      res_bind (make_cached_request_data cfg s1 l resumed) (\<lambda>cached_data.
        let s2 = s1\<lparr>prev_step_scheduled_req_ids := map fst (sched_tokens l)\<rparr>;
            (zero, s3) = blocks_to_zero cfg s2;
            (freed, m) = em_get_freed (enc_manager s3)
        in Inr (\<lparr>so_new_reqs = new_data, so_cached_reqs = cached_data,
                 so_num_scheduled_tokens = sched_tokens l,
                 so_total_num_scheduled_tokens = total_scheduled l,
                 so_spec_decode_tokens = sched_spec l, so_encoder_inputs = sched_encoder l,
                 so_num_common_prefix_blocks = common, so_finished_req_ids = finished_req_ids s3,
                 so_free_encoder_mm_hashes = freed, so_preempted_req_ids = remdups (preempted_reqs l),
                 so_has_structured_output = False, so_pending_structured_output = False,
                 so_num_invalid_spec_tokens = None, so_new_block_ids_to_zero = zero\<rparr>,
                s3\<lparr>enc_manager := m\<rparr>))))"

definition finish_step ::
  "'c sched_config \<Rightarrow> 'c scheduler \<Rightarrow> sched_locals \<Rightarrow> (scheduler_output \<times> 'c scheduler) res" where
  "finish_step cfg s l =
     require (constraints_ok cfg s l) AssertionError
       (res_bind (make_output cfg s l) (\<lambda>(out, s1).
          let s2 = build_connector_meta cfg out s1 in
          if c_async_scheduling cfg then async_update_after_schedule cfg out s2
          else update_after_schedule cfg out s2))"

definition schedule_phases ::
  "'c sched_config \<Rightarrow> 'c scheduler \<Rightarrow> ('c scheduler \<times> sched_locals) res" where
  "schedule_phases cfg s =
     res_bind (run_loop cfg (s\<lparr>kvm := kvm_new_step_starts (kvm s)\<rparr>) (init_locals cfg s)) (\<lambda>(s1, l1).
     res_bind (running_loras cfg s1 l1) (\<lambda>l2. waiting_phase cfg s1 l2))"

definition schedule :: "'c sched_config \<Rightarrow> 'c scheduler \<Rightarrow> (scheduler_output \<times> 'c scheduler) res" where
  "schedule cfg s = res_bind (schedule_phases cfg s) (\<lambda>(s1, l1). finish_step cfg s1 l1)"

text \<open>\<open>get_grammar_bitmask\<close>: the requests whose next token the grammar constrains.\<close>

definition get_grammar_bitmask :: "scheduler_output \<Rightarrow> 'c scheduler \<Rightarrow> req_id list option" where
  "get_grammar_bitmask out s =
     (if \<not> so_has_structured_output out then None
      else
        let ids = filter (\<lambda>rid. rid \<in> set (requests s) \<and> use_structured_output (objects s rid)
                            \<and> \<not> is_prefill_chunk (objects s rid)) (map fst (so_num_scheduled_tokens out))
        in if ids = [] then None else Some ids)"

end
