(* ===== verification/Sched_Update.thy ===== *)
theory Sched_Update
  imports Sched_Step
begin

text \<open>
  What happens to the scheduler between two steps: requests arrive (\<open>add_request\<close>), are aborted
  (\<open>finish_requests\<close>), get the tokens the model produced (\<open>update_from_output\<close>) and their draft
  tokens, and finish; a streaming session takes its next chunk of input; caches are reset. All of
  \<^verbatim>\<open>vllm/v1/core/sched/scheduler.py\<close> and \<^verbatim>\<open>vllm/v1/core/sched/async_scheduler.py\<close>.
\<close>

section \<open>Freeing a request\<close>

definition connector_finished ::
  "'c sched_config \<Rightarrow> req_id \<Rightarrow> 'c scheduler \<Rightarrow> ((bool \<times> kv_transfer_params) \<times> 'c scheduler) res" where
  "connector_finished cfg rid s =
     (if \<not> c_kv_connector cfg then Inr ((False, None), s)
      else
        res_bind (kvm_remove_skipped_blocks rid (num_tokens (objects s rid)) (kvm s)) (\<lambda>k.
          let s1 = s\<lparr>kvm := k\<rparr> in
          case kvm_get_block_ids rid k of
            None \<Rightarrow> Inl AssertionError
          | Some ids \<Rightarrow>
              res_bind
                (if c_supports_hma cfg then Inr ids
                 else require (num_kv_cache_groups k = 1) AssertionError
                        (res_bind (py_get ids 0) (\<lambda>bs. Inr [bs])))
                (\<lambda>ids. case kv_request_finished (c_env cfg) (env_state s1) (objects s1 rid) ids of
                   (res, w) \<Rightarrow> Inr (res, s1\<lparr>env_state := w\<rparr>))))"

definition free_request_blocks :: "req_id \<Rightarrow> 'c scheduler \<Rightarrow> 'c scheduler res" where
  "free_request_blocks rid s =
     require (is_finished (objects s rid)) AssertionError
       (res_bind (kvm_free (objects s rid) (kvm s)) (\<lambda>k.
          require (rid \<in> set (requests s)) KeyError
            (Inr (s\<lparr>kvm := k, requests := removeAll rid (requests s)\<rparr>))))"

definition note_finished :: "'c sched_config \<Rightarrow> req_id \<Rightarrow> 'c scheduler \<Rightarrow> 'c scheduler" where
  "note_finished cfg rid s =
     s\<lparr>finished_req_ids := List.insert rid (finished_req_ids s),
       finished_req_ids_dict := map_option (\<lambda>d.
         let c = c_client_index cfg rid;
             ids = (case map_of d c of None \<Rightarrow> [] | Some xs \<Rightarrow> xs)
         in AList.update c (List.insert rid ids) d) (finished_req_ids_dict s)\<rparr>"

definition free_scheduled_request ::
  "'c sched_config \<Rightarrow> req_id \<Rightarrow> bool \<Rightarrow> 'c scheduler \<Rightarrow> (kv_transfer_params \<times> 'c scheduler) res" where
  "free_scheduled_request cfg rid delay s =
     require (is_finished (objects s rid)) AssertionError
       (res_bind (connector_finished cfg rid s) (\<lambda>((delay_conn, params), s1).
        res_bind (em_free (objects s1 rid) (enc_manager s1)) (\<lambda>m.
          let s2 = note_finished cfg rid (s1\<lparr>enc_manager := m\<rparr>) in
          if delay \<or> delay_conn then Inr (params, s2)
          else res_bind (free_request_blocks rid s2) (\<lambda>s3. Inr (params, s3)))))"

section \<open>Aborting requests\<close>

text \<open>The requests of a list of ids that are known and not finished, and how their queues change.\<close>

definition valid_requests :: "req_id list \<Rightarrow> 'c scheduler \<Rightarrow> req_id list" where
  "valid_requests ids s = filter (\<lambda>rid. rid \<in> set (requests s) \<and> \<not> is_finished (objects s rid)) ids"

definition leave_queues :: "req_id list \<Rightarrow> 'c scheduler \<Rightarrow> 'c scheduler" where
  "leave_queues valid s =
     (let run = filter (\<lambda>rid. status (objects s rid) = RUNNING) valid;
          wait = filter (\<lambda>rid. status (objects s rid) \<noteq> RUNNING) valid;
          stream = filter (\<lambda>rid. status (objects s rid) = WAITING_FOR_STREAMING_REQ) wait;
          s1 = s\<lparr>num_waiting_for_streaming_input := num_waiting_for_streaming_input s - int (length stream)\<rparr>;
          s2 = (if run = [] then s1 else s1\<lparr>running := remove_all (running s1) run\<rparr>)
      in if wait = [] then s2
         else s2\<lparr>waiting := rq_remove_all (objects s2) (set wait) (waiting s2),
                 skipped_waiting := rq_remove_all (objects s2) (set wait) (skipped_waiting s2)\<rparr>)"

definition finish_one ::
  "'c sched_config \<Rightarrow> request_status \<Rightarrow> req_id \<Rightarrow> 'c scheduler \<Rightarrow> 'c scheduler res" where
  "finish_one cfg st rid s =
     (let remote = (status (objects s rid) = WAITING_FOR_REMOTE_KVS);
          delay = (remote \<and> rid \<notin> set (finished_recving_kv_req_ids s));
          s1 = (if remote then
                  s\<lparr>finished_recving_kv_req_ids := removeAll rid (finished_recving_kv_req_ids s),
                    failed_recving_kv_req_ids := removeAll rid (failed_recving_kv_req_ids s)\<rparr>
                else s);
          s2 = upd_obj rid (\<lambda>r. r\<lparr>status := st\<rparr>) s1
      in res_bind (free_scheduled_request cfg rid delay s2) (\<lambda>(_, s3). Inr s3))"

definition finish_requests ::
  "'c sched_config \<Rightarrow> req_id list option \<Rightarrow> request_status \<Rightarrow> 'c scheduler \<Rightarrow>
   ((req_id \<times> int) list \<times> 'c scheduler) res" where
  "finish_requests cfg ids st s =
     require (is_finished_status st) AssertionError
       (let valid = valid_requests (case ids of None \<Rightarrow> requests s | Some xs \<Rightarrow> remdups xs) s
        in res_bind (fold_res (finish_one cfg st) valid (leave_queues valid s)) (\<lambda>s1.
             Inr (map (\<lambda>rid. (rid, c_client_index cfg rid)) valid, s1)))"

section \<open>Streaming sessions and arrival\<close>

definition streaming_update_from :: "request \<Rightarrow> streaming_update option" where
  "streaming_update_from r =
     (if resumable r then
            Some \<lparr>su_mm_features = mm_features r,
                  su_prompt_token_ids = (case prompt_token_ids r of None \<Rightarrow> [] | Some ts \<Rightarrow> ts),
                  su_max_tokens = max_tokens r, su_arrival_time = arrival_time r,
                  su_sampling_params = sampling_params r\<rparr>
          else None)"

definition shift_feature :: "int \<Rightarrow> mm_feature \<Rightarrow> mm_feature" where
  "shift_feature base f =
     f\<lparr>mm_position := (mm_position f)\<lparr>offset := offset (mm_position f) + base\<rparr>\<rparr>"

text \<open>The session takes the next chunk of input; the last sampled token is dropped.\<close>

definition extend_session ::
  "hasher option \<Rightarrow> streaming_update \<Rightarrow> request \<Rightarrow> request res" where
  "extend_session hasher u r =
     (let kept = py_slice (all_token_ids r) (num_prompt_tokens r) (num_computed_tokens r);
          r1 = r\<lparr>all_token_ids := py_upto (all_token_ids r) (num_computed_tokens r), output_token_ids := []\<rparr>
      in
      case prompt_token_ids r1 of
        None \<Rightarrow> Inl AssertionError
      | Some prompt \<Rightarrow>
          let prompt2 = prompt @ kept @ su_prompt_token_ids u;
              r2 = r1\<lparr>mm_features := mm_features r1 @ map (shift_feature (num_tokens r1)) (su_mm_features u),
                      all_token_ids := all_token_ids r1 @ su_prompt_token_ids u,
                      prompt_token_ids := Some prompt2\<rparr>
          in
          res_bind (run_res (update_block_hashes hasher r2)) (\<lambda>r3.
            Inr (r3\<lparr>num_prompt_tokens := int (length prompt2), arrival_time := su_arrival_time u,
                    sampling_params := su_sampling_params u\<rparr>)))"

definition update_request_as_session ::
  "'c sched_config \<Rightarrow> req_id \<Rightarrow> streaming_update \<Rightarrow> 'c scheduler \<Rightarrow> 'c scheduler res" where
  "update_request_as_session cfg rid u s =
     res_bind (extend_session (c_hasher cfg) u (objects s rid)) (\<lambda>r.
       let s1 = (if status r = WAITING_FOR_STREAMING_REQ
                 then s\<lparr>num_waiting_for_streaming_input := num_waiting_for_streaming_input s - 1\<rparr> else s)
       in Inr (set_obj rid (r\<lparr>status := WAITING\<rparr>) s1))"

definition add_request ::
  "'c sched_config \<Rightarrow> request \<Rightarrow> 'c scheduler \<Rightarrow> 'c scheduler res" where
  "add_request cfg r s =
     (let rid = request_id r in
      if rid \<in> set (requests s) then
        (let u = streaming_update_from r; e = objects s rid in
          if status e \<noteq> WAITING_FOR_STREAMING_REQ then
            (case streaming_queue e of
               None \<Rightarrow> Inl AssertionError
             | Some q \<Rightarrow> Inr (set_obj rid (e\<lparr>streaming_queue := Some (q @ [u])\<rparr>) s))
          else
            (case u of
               Some upd \<Rightarrow> update_request_as_session cfg rid upd s
             | None \<Rightarrow>
                 res_bind (finish_requests cfg (Some [rid]) FINISHED_ABORTED s) (\<lambda>(_, s1). Inr s1)))
      else
        let r1 = (if resumable r then r\<lparr>streaming_queue := Some []\<rparr> else r);
            s1 = enqueue_waiting_request rid (set_obj rid r1 s)
        in Inr (s1\<lparr>requests := requests s1 @ [rid]\<rparr>))"

end
