(* ===== verification/Sched_Results.thy ===== *)
theory Sched_Results
  imports Sched_Update
begin

text \<open>
  \<open>update_from_output\<close>: the tokens that the model produced are appended to their requests, requests
  stop or continue, failed loads of external KV blocks are handled, and the outputs for the front
  end are collected. Further the draft tokens of speculative decoding and the resets of the caches.
\<close>

section \<open>Failed loads of external blocks\<close>

text \<open>
  The local variables of \<open>_update_requests_with_invalid_blocks\<close>; the first two belong to the
  request of the current iteration.
\<close>

record invalid_scan =
  is_affected :: bool
  marked_invalid_block :: bool
  marked_invalid_ids :: "int list"
  affected_tokens :: int
  scan_evict :: "int list"
  scan_request :: request

definition scan_block ::
  "int \<Rightarrow> int list \<Rightarrow> bool \<Rightarrow> int \<Rightarrow> int list \<Rightarrow> nat \<times> int \<Rightarrow> invalid_scan \<Rightarrow> invalid_scan" where
  "scan_block bs invalid evict num_tok ids = (\<lambda>(idx, b) a.
     if b \<notin> set invalid then a
     else
       let a1 = a\<lparr>is_affected := True\<rparr> in
       if b \<in> set (marked_invalid_ids a1) then a1
       else
         let a2 = a1\<lparr>marked_invalid_ids := List.insert b (marked_invalid_ids a1)\<rparr> in
         if marked_invalid_block a2 then a2
         else
           let c = int idx * bs; lost = num_tok - c; r = scan_request a2 in
           a2\<lparr>marked_invalid_block := True, affected_tokens := affected_tokens a2 + lost,
              scan_request := r\<lparr>num_computed_tokens := c,
                num_external_computed_tokens := num_external_computed_tokens r - lost\<rparr>,
              scan_evict := (if evict then remdups (scan_evict a2 @ drop idx ids) else scan_evict a2)\<rparr>)"

definition scan_request_blocks ::
  "int \<Rightarrow> int list \<Rightarrow> bool \<Rightarrow> int list \<Rightarrow> invalid_scan \<Rightarrow> invalid_scan" where
  "scan_request_blocks bs invalid evict ids a0 =
     (let r = scan_request a0;
          num_tok = (if status r = WAITING_FOR_REMOTE_KVS then num_computed_tokens r
                     else num_cached_tokens r);
          num_blocks = (num_tok + bs - 1) div bs;
          a = fold (scan_block bs invalid evict num_tok ids)
                (List.enumerate 0 (take (nat num_blocks) ids))
                (a0\<lparr>is_affected := False, marked_invalid_block := False\<rparr>);
          r1 = scan_request a
      in if is_affected a \<and> \<not> marked_invalid_block a then
           a\<lparr>affected_tokens := affected_tokens a + (num_computed_tokens r1 - num_cached_tokens r1),
             scan_request := r1\<lparr>num_computed_tokens := num_cached_tokens r1\<rparr>\<rparr>
         else a)"

text \<open>
  The affected requests, the tokens to recompute, the blocks to evict, the marked blocks. The code
  unpacks the block ids of exactly one group.
\<close>

definition update_requests_with_invalid_blocks ::
  "'c sched_config \<Rightarrow> req_id list \<Rightarrow> int list \<Rightarrow> bool \<Rightarrow> 'c scheduler \<Rightarrow>
   ((req_id list \<times> int \<times> int list) \<times> 'c scheduler) res" where
  "update_requests_with_invalid_blocks cfg rids invalid evict s =
     res_bind
       (fold_res (\<lambda>rid ((hit, total, ev, marked), s).
           case kvm_get_block_ids rid (kvm s) of
             Some [ids] \<Rightarrow>
               let a = scan_request_blocks (c_block_size cfg) invalid evict (map int ids)
                         \<lparr>is_affected = False, marked_invalid_block = False, marked_invalid_ids = marked,
                          affected_tokens = total, scan_evict = ev, scan_request = objects s rid\<rparr>
               in Inr ((if is_affected a then List.insert rid hit else hit, affected_tokens a,
                        scan_evict a, marked_invalid_ids a), set_obj rid (scan_request a) s)
           | _ \<Rightarrow> Inl ValueError)
          rids (([], 0, [], []), s))
       (\<lambda>((hit, total, ev, _), s1). Inr ((hit, total, ev), s1))"

definition handle_invalid_blocks ::
  "'c sched_config \<Rightarrow> int list \<Rightarrow> 'c scheduler \<Rightarrow> (req_id list \<times> 'c scheduler) res" where
  "handle_invalid_blocks cfg invalid s =
     (let loading = filter (\<lambda>rid. status (objects s rid) = WAITING_FOR_REMOTE_KVS)
                      (rq_iter (objects s) (skipped_waiting s))
      in
      res_bind (update_requests_with_invalid_blocks cfg loading invalid False s)
        (\<lambda>((async_failed, _, _), s1).
      res_bind (update_requests_with_invalid_blocks cfg (running s1) invalid True s1)
        (\<lambda>((sync_failed, _, ev), s2).
      if length async_failed + length sync_failed = 0 then Inr ([], s2)
      else
        res_bind
          (if ev \<noteq> [] \<and> \<not> c_recompute_kv_load_failures cfg then
             res_bind (kvm_evict_blocks ev (kvm s2)) (\<lambda>k. Inr (s2\<lparr>kvm := k\<rparr>))
           else Inr s2)
          (\<lambda>s3.
             if \<not> c_recompute_kv_load_failures cfg then Inr (List.union async_failed sync_failed, s3)
             else Inr (sync_failed, s3\<lparr>failed_recving_kv_req_ids :=
                         List.union (failed_recving_kv_req_ids s3) async_failed\<rparr>)))))"

section \<open>The tokens of a request\<close>

text \<open>The loop of \<open>_update_request_with_output\<close>; the tokens after the one that stops are cut off.\<close>

fun output_loop ::
  "'c sched_config \<Rightarrow> token list \<Rightarrow> token list \<Rightarrow> request \<Rightarrow> ((token list \<times> bool) \<times> request) res" where
  "output_loop cfg got [] r = Inr ((got, False), r)"
| "output_loop cfg got (t # ts) r =
     res_bind (run_res (append_output_token_ids (c_hasher cfg) [t] r)) (\<lambda>r1.
     res_bind (check_stop r1 (c_max_model_len cfg)) (\<lambda>(stopped, r2).
       if stopped then Inr ((got @ [t], True), r2) else output_loop cfg (got @ [t]) ts r2))"

definition base_update_with_output ::
  "'c sched_config \<Rightarrow> req_id \<Rightarrow> token list \<Rightarrow> 'c scheduler \<Rightarrow> ((token list \<times> bool) \<times> 'c scheduler) res"
where
  "base_update_with_output cfg rid toks s =
     res_bind (output_loop cfg [] toks (objects s rid)) (\<lambda>(res, r). Inr (res, set_obj rid r s))"

definition async_update_with_output ::
  "'c sched_config \<Rightarrow> req_id \<Rightarrow> token list \<Rightarrow> 'c scheduler \<Rightarrow> ((token list \<times> bool) \<times> 'c scheduler) res"
where
  "async_update_with_output cfg rid toks s =
     (let r0 = objects s rid in
      if discard_latest_async_tokens r0 then
        Inr (([], False), set_obj rid (r0\<lparr>discard_latest_async_tokens := False\<rparr>) s)
      else
        res_bind (base_update_with_output cfg rid toks s) (\<lambda>((new, stopped), s1).
          let s2 = upd_obj rid (\<lambda>r. r\<lparr>num_output_placeholders :=
                     num_output_placeholders r - int (length new)\<rparr>) s1;
              r = objects s2 rid
          in
          require (num_output_placeholders r \<ge> 0) AssertionError
            (if status r0 = RUNNING then
               res_bind (kvm_cache_blocks (c_sha cfg) r
                           (num_computed_tokens r - num_output_placeholders r) (kvm s2)) (\<lambda>(r1, k).
                 Inr ((new, stopped), set_obj rid r1 (s2\<lparr>kvm := k\<rparr>)))
             else Inr ((new, stopped), s2))))"

definition update_request_with_output ::
  "'c sched_config \<Rightarrow> req_id \<Rightarrow> token list \<Rightarrow> 'c scheduler \<Rightarrow> ((token list \<times> bool) \<times> 'c scheduler) res"
where
  "update_request_with_output cfg =
     (if c_async_scheduling cfg then async_update_with_output cfg else base_update_with_output cfg)"

definition handle_stopped_request ::
  "'c sched_config \<Rightarrow> req_id \<Rightarrow> 'c scheduler \<Rightarrow> (bool \<times> 'c scheduler) res" where
  "handle_stopped_request cfg rid s =
     (let r = objects s rid in
      if \<not> resumable r then Inr (True, s)
      else
        (case streaming_queue r of
           Some (u # us) \<Rightarrow>
             let s1 = set_obj rid (r\<lparr>streaming_queue := Some us\<rparr>) s in
             (case u of
                None \<Rightarrow> Inr (True, s1)
              | Some upd \<Rightarrow>
                  res_bind (update_request_as_session cfg rid upd s1) (\<lambda>s2.
                    Inr (False, enqueue_waiting_request rid s2)))
         | _ \<Rightarrow>
             let s1 = upd_obj rid (\<lambda>r. r\<lparr>status := WAITING_FOR_STREAMING_REQ\<rparr>)
                        (s\<lparr>num_waiting_for_streaming_input := num_waiting_for_streaming_input s + 1\<rparr>)
             in Inr (False, enqueue_waiting_request rid s1)))"

section \<open>The loop over the scheduled requests\<close>

record update_locals =
  ul_outputs :: "(int \<times> engine_core_output list) list"
  ul_stopped_running :: "req_id list"
  ul_stopped_preempted :: "req_id list"

definition emit_output ::
  "int \<Rightarrow> engine_core_output \<Rightarrow> (int \<times> engine_core_output list) list \<Rightarrow>
   (int \<times> engine_core_output list) list" where
  "emit_output client eo d =
     AList.update client ((case map_of d client of None \<Rightarrow> [] | Some os \<Rightarrow> os) @ [eo]) d"

text \<open>Rejected draft tokens do not count as computed.\<close>

definition reject_drafts :: "token list option \<Rightarrow> token list \<Rightarrow> request \<Rightarrow> request" where
  "reject_drafts spec gen r =
     (case spec of
        Some (d # ds) \<Rightarrow>
          if gen = [] then r
          else
            let rejected = int (length (d # ds)) - (int (length gen) - 1);
                r1 = (if num_computed_tokens r > 0
                      then r\<lparr>num_computed_tokens := num_computed_tokens r - rejected\<rparr> else r)
            in if num_output_placeholders r1 > 0
               then r1\<lparr>num_output_placeholders := num_output_placeholders r1 - rejected\<rparr> else r1
      | _ \<Rightarrow> r)"

text \<open>A stopped request: its finish reason, its transfer parameters, and what became of it.\<close>

definition stop_request ::
  "'c sched_config \<Rightarrow> req_id \<Rightarrow> request_status \<Rightarrow> 'c scheduler \<Rightarrow> update_locals \<Rightarrow>
   ((finish_reason option \<times> kv_transfer_params) \<times> 'c scheduler \<times> update_locals) res" where
  "stop_request cfg rid before s u =
     (let why = get_finished_reason (status (objects s rid)) in
      res_bind (handle_stopped_request cfg rid s) (\<lambda>(finished, s1).
      res_bind (if finished then free_scheduled_request cfg rid False s1 else Inr (None, s1))
        (\<lambda>(params, s2).
           Inr ((why, params), s2,
             if before = RUNNING
             then u\<lparr>ul_stopped_running := List.insert rid (ul_stopped_running u)\<rparr>
             else u\<lparr>ul_stopped_preempted := List.insert rid (ul_stopped_preempted u)\<rparr>))))"

definition take_tokens ::
  "'c sched_config \<Rightarrow> req_id \<Rightarrow> token list \<Rightarrow> string option \<Rightarrow> 'c scheduler \<Rightarrow>
   ((token list \<times> bool) \<times> 'c scheduler) res" where
  "take_tokens cfg rid gen pooler s =
     (if gen \<noteq> [] then update_request_with_output cfg rid gen s
      else if pooling_params (objects s rid) \<noteq> None \<and> pooler \<noteq> None then
        Inr ((gen, True), upd_obj rid (\<lambda>r. r\<lparr>status := FINISHED_STOPPED\<rparr>) s)
      else Inr ((gen, False), s))"

definition advance_grammar ::
  "'c sched_config \<Rightarrow> req_id \<Rightarrow> token list \<Rightarrow> 'c scheduler \<Rightarrow> 'c scheduler res" where
  "advance_grammar cfg rid toks s =
     (if toks \<noteq> [] \<and> should_advance (c_env cfg) (env_state s) (objects s rid) then
        require (use_structured_output (objects s rid) \<and> grammar_ready (c_env cfg) (env_state s) rid)
          AssertionError
          (Inr (s\<lparr>env_state := accept_tokens (c_env cfg) (env_state s) rid toks\<rparr>))
      else Inr s)"

definition request_output ::
  "request \<Rightarrow> token list \<Rightarrow> string option \<Rightarrow> finish_reason option \<Rightarrow> kv_transfer_params \<Rightarrow> engine_core_output"
where
  "request_output r toks pooler why params =
     \<lparr>eco_request_id = request_id r, eco_new_token_ids = toks, eco_pooling_output = pooler,
      eco_finish_reason = why, eco_stop_reason = stop_reason r, eco_kv_transfer_params = params,
      eco_num_cached_tokens = num_cached_tokens r,
      eco_num_external_computed_tokens = num_external_computed_tokens r\<rparr>"

definition update_live_request ::
  "'c sched_config \<Rightarrow> scheduler_output \<Rightarrow> model_runner_output \<Rightarrow> req_id \<Rightarrow> 'c scheduler \<Rightarrow> update_locals \<Rightarrow>
   ('c scheduler \<times> update_locals) res" where
  "update_live_request cfg out mo rid s u =
     (case map_of (mo_req_id_to_index mo) rid of
        None \<Rightarrow> Inl KeyError
      | Some idx \<Rightarrow>
          res_bind (if mo_sampled_token_ids mo \<noteq> [] then py_get (mo_sampled_token_ids mo) idx else Inr [])
            (\<lambda>gen.
          res_bind (if mo_pooler_output mo \<noteq> [] then py_get (mo_pooler_output mo) idx else Inr None)
            (\<lambda>pooler.
             let s1 = upd_obj rid (reject_drafts (map_of (so_spec_decode_tokens out) rid) gen) s;
                 before = status (objects s1 rid)
             in
             res_bind (take_tokens cfg rid gen pooler s1) (\<lambda>((toks, stopped), s2).
             res_bind (if stopped then stop_request cfg rid before s2 u else Inr ((None, None), s2, u))
               (\<lambda>((why, params), s3, u3).
             res_bind (advance_grammar cfg rid toks s3) (\<lambda>s4.
               if toks \<noteq> [] \<or> pooler \<noteq> None \<or> (params \<noteq> None \<and> params \<noteq> Some []) \<or> stopped then
                 Inr (s4, u3\<lparr>ul_outputs := emit_output (c_client_index cfg rid)
                            (request_output (objects s4 rid) toks pooler why params) (ul_outputs u3)\<rparr>)
               else require (rid \<notin> set (mo_prompt_logprobs mo)) AssertionError (Inr (s4, u3))))))))"

definition update_one ::
  "'c sched_config \<Rightarrow> scheduler_output \<Rightarrow> model_runner_output \<Rightarrow> req_id list \<Rightarrow> req_id \<times> int \<Rightarrow>
   'c scheduler \<times> update_locals \<Rightarrow> ('c scheduler \<times> update_locals) res" where
  "update_one cfg out mo failed = (\<lambda>(rid, n) (s, u).
     require (n > 0) AssertionError
       (if rid \<in> set failed \<or> rid \<notin> set (requests s) \<or> is_finished (objects s rid) then Inr (s, u)
        else update_live_request cfg out mo rid s u))"

section \<open>The whole update\<close>

definition update_from_kv_xfer_finished ::
  "'c sched_config \<Rightarrow> kv_connector_output \<Rightarrow> 'c scheduler \<Rightarrow> 'c scheduler res" where
  "update_from_kv_xfer_finished cfg ko s =
     (let s0 = (if c_kv_connector cfg
                then s\<lparr>env_state := kv_update_output (c_env cfg) (env_state s) ko\<rparr> else s)
      in
      res_bind
        (fold_res (\<lambda>rid s.
            require (rid \<in> set (requests s)) AssertionError
              (if status (objects s rid) = WAITING_FOR_REMOTE_KVS then
                 Inr (s\<lparr>finished_recving_kv_req_ids :=
                        List.insert rid (finished_recving_kv_req_ids s)\<rparr>)
               else require (is_finished (objects s rid)) AssertionError (free_request_blocks rid s)))
           (ko_finished_recving ko) s0)
        (fold_res (\<lambda>rid s.
            require (rid \<in> set (requests s)) AssertionError (free_request_blocks rid s))
           (ko_finished_sending ko)))"

definition remove_stopped :: "'c scheduler \<Rightarrow> update_locals \<Rightarrow> 'c scheduler" where
  "remove_stopped s u =
     (let s1 = (if ul_stopped_running u = [] then s
                else s\<lparr>running := remove_all (running s) (ul_stopped_running u)\<rparr>)
      in if ul_stopped_preempted u = [] then s1
         else s1\<lparr>waiting := rq_remove_all (objects s1) (set (ul_stopped_preempted u)) (waiting s1)\<rparr>)"

definition fail_loads ::
  "'c sched_config \<Rightarrow> req_id list \<Rightarrow> 'c scheduler \<Rightarrow> update_locals \<Rightarrow> ('c scheduler \<times> update_locals) res"
where
  "fail_loads cfg failed s u =
     (if failed \<noteq> [] \<and> \<not> c_recompute_kv_load_failures cfg then
        require (\<forall>rid \<in> set failed. rid \<in> set (requests s)) KeyError
          (res_bind (finish_requests cfg (Some failed) FINISHED_ERROR s) (\<lambda>(_, s1).
             Inr (s1, u\<lparr>ul_outputs := fold (\<lambda>rid.
               emit_output (c_client_index cfg rid)
                 \<lparr>eco_request_id = rid, eco_new_token_ids = [], eco_pooling_output = None,
                  eco_finish_reason = get_finished_reason (status (objects s1 rid)),
                  eco_stop_reason = None, eco_kv_transfer_params = None,
                  eco_num_cached_tokens = num_cached_tokens (objects s1 rid),
                  eco_num_external_computed_tokens = 0\<rparr>) failed (ul_outputs u)\<rparr>)))
      else Inr (s, u))"

definition take_all_events :: "'c sched_config \<Rightarrow> 'c scheduler \<Rightarrow> 'c scheduler" where
  "take_all_events cfg s =
     (let s1 = s\<lparr>kvm := snd (kvm_take_events (kvm s))\<rparr>
      in if c_kv_connector cfg then s1\<lparr>env_state := kv_connector_events (c_env cfg) (env_state s1)\<rparr> else s1)"

text \<open>\<open>make_stats\<close>, as far as it changes the state.\<close>

definition take_stats :: "'c sched_config \<Rightarrow> 'c scheduler \<Rightarrow> 'c scheduler res" where
  "take_stats cfg s =
     (if \<not> c_log_stats cfg then Inr s
      else
        (case make_prefix_cache_stats (kvm s) of
           (st, k) \<Rightarrow>
             require (st \<noteq> None) AssertionError
               (Inr (s\<lparr>kvm := k, connector_stats := map_option (\<lambda>_. new_stats) (connector_stats s)\<rparr>))))"

definition client_outputs ::
  "bool \<Rightarrow> (int \<times> engine_core_output list) list \<Rightarrow> (int \<times> req_id list) list option \<Rightarrow>
   (int \<times> engine_core_outputs) list" where
  "client_outputs log_stats outs fin =
     (let d = map (\<lambda>(c, os). (c, \<lparr>ecos_outputs = os, ecos_finished_requests = None\<rparr>)) outs;
          d1 = (case fin of
                  None \<Rightarrow> d
                | Some f \<Rightarrow> fold (\<lambda>(c, ids) d.
                    AList.update c
                      (case map_of d c of
                         Some o' \<Rightarrow> o'\<lparr>ecos_finished_requests := Some ids\<rparr>
                       | None \<Rightarrow> \<lparr>ecos_outputs = [], ecos_finished_requests = Some ids\<rparr>) d) f d)
      in if log_stats \<and> d1 = [] then [(0, \<lparr>ecos_outputs = [], ecos_finished_requests = None\<rparr>)] else d1)"

definition update_requests ::
  "'c sched_config \<Rightarrow> scheduler_output \<Rightarrow> model_runner_output \<Rightarrow> 'c scheduler \<Rightarrow>
   ('c scheduler \<times> update_locals) res" where
  "update_requests cfg out mo s =
     res_bind
       (case mo_kv_connector_output mo of
          None \<Rightarrow> Inr ([], s)
        | Some ko \<Rightarrow>
            if ko_invalid_block_ids ko = [] then Inr ([], s)
            else handle_invalid_blocks cfg (ko_invalid_block_ids ko) s)
       (\<lambda>(failed, s1).
     res_bind (fold_res (update_one cfg out mo failed) (so_num_scheduled_tokens out)
                 (s1, \<lparr>ul_outputs = [], ul_stopped_running = [], ul_stopped_preempted = []\<rparr>))
       (\<lambda>(s2, u2). fail_loads cfg failed (remove_stopped s2 u2) u2))"

definition update_from_output ::
  "'c sched_config \<Rightarrow> scheduler_output \<Rightarrow> model_runner_output \<Rightarrow> 'c scheduler \<Rightarrow>
   ((int \<times> engine_core_outputs) list \<times> 'c scheduler) res" where
  "update_from_output cfg out mo s =
     res_bind (update_requests cfg out mo s) (\<lambda>(s1, u).
     res_bind (case mo_kv_connector_output mo of
                 None \<Rightarrow> Inr s1
               | Some ko \<Rightarrow> update_from_kv_xfer_finished cfg ko s1) (\<lambda>s2.
     let s3 = take_all_events cfg s2;
         outs = client_outputs (c_log_stats cfg) (ul_outputs u) (finished_req_ids_dict s3);
         s4 = s3\<lparr>finished_req_ids_dict := map_option (\<lambda>_. []) (finished_req_ids_dict s3)\<rparr>
     in res_bind (take_stats cfg s4) (\<lambda>s5. Inr (outs, s5))))"

section \<open>Draft tokens\<close>

definition take_draft ::
  "'c sched_config \<Rightarrow> req_id \<times> token list \<Rightarrow> 'c scheduler \<Rightarrow> 'c scheduler" where
  "take_draft cfg = (\<lambda>(rid, toks) s.
     let r = objects s rid in
     if rid \<notin> set (requests s) \<or> is_finished r then s
     else if is_prefill_chunk r then upd_obj rid (\<lambda>r. r\<lparr>spec_token_ids := []\<rparr>) s
     else upd_obj rid (\<lambda>r. r\<lparr>spec_token_ids :=
            (if should_advance (c_env cfg) (env_state s) r
             then validate_tokens (c_env cfg) (env_state s) rid toks else toks)\<rparr>) s)"

definition update_draft_token_ids ::
  "'c sched_config \<Rightarrow> draft_token_ids \<Rightarrow> 'c scheduler \<Rightarrow> 'c scheduler" where
  "update_draft_token_ids cfg d s = fold (take_draft cfg) (zip (dt_req_ids d) (dt_draft_token_ids d)) s"

definition draft_in_output ::
  "'c sched_config \<Rightarrow> 'c scheduler \<Rightarrow> req_id \<times> token list \<Rightarrow>
   (req_id \<times> token list) list \<times> (req_id \<times> int) list \<Rightarrow>
   ((req_id \<times> token list) list \<times> (req_id \<times> int) list) res" where
  "draft_in_output cfg s = (\<lambda>(rid, toks) (spec, bad).
     let r = objects s rid in
     if rid \<notin> set (requests s) \<or> is_finished r then Inr (spec, bad)
     else
       (case map_of spec rid of
          Some (p # ps) \<Rightarrow>
            let n = length (p # ps); cut = take n toks; adv = should_advance (c_env cfg) (env_state s) r in
            require (adv \<longrightarrow> use_structured_output r \<and> grammar_ready (c_env cfg) (env_state s) rid)
              AssertionError
              (let new = (if adv then validate_tokens (c_env cfg) (env_state s) rid cut else cut);
                   num_bad = int n - int (length new)
               in Inr (AList.update rid (new @ py_repeat (- 1) num_bad) spec,
                       if num_bad \<noteq> 0 then AList.update rid num_bad bad else bad))
        | _ \<Rightarrow> Inr (spec, bad)))"

definition update_draft_token_ids_in_output ::
  "'c sched_config \<Rightarrow> draft_token_ids \<Rightarrow> scheduler_output \<Rightarrow> 'c scheduler \<Rightarrow> scheduler_output res" where
  "update_draft_token_ids_in_output cfg d out s =
     res_bind (fold_res (draft_in_output cfg s) (zip (dt_req_ids d) (dt_draft_token_ids d))
                 (so_spec_decode_tokens out, []))
       (\<lambda>(spec, bad). Inr (out\<lparr>so_spec_decode_tokens := spec, so_num_invalid_spec_tokens := Some bad\<rparr>))"

section \<open>Resets\<close>

text \<open>Preempting all running requests, the last one first.\<close>

function preempt_all :: "'c scheduler \<Rightarrow> 'c scheduler res" where
  "preempt_all s =
     (if running s = [] then Inr s
      else
        res_bind (preempt_request (last (running s)) (s\<lparr>running := butlast (running s)\<rparr>)) (\<lambda>s1.
          preempt_all (upd_obj (last (running s))
            (\<lambda>r. r\<lparr>num_output_placeholders := 0, discard_latest_async_tokens := True\<rparr>) s1)))"
  by pat_completeness auto
termination
  by (relation "measure (\<lambda>s. length (running s))") (auto dest!: preempt_request_running)

declare preempt_all.simps [simp del]

definition reset_connector_cache :: "'c sched_config \<Rightarrow> 'c scheduler \<Rightarrow> (bool \<times> 'c scheduler) res" where
  "reset_connector_cache cfg s =
     (if \<not> c_kv_connector cfg then Inr (False, s)
      else
        (case kv_reset_cache (c_env cfg) (env_state s) of
           (ok, w) \<Rightarrow>
             let s1 = s\<lparr>env_state := w\<rparr> in
             if \<not> ok then Inr (False, s1)
             else if c_log_stats cfg then
               (case connector_stats s1 of
                  None \<Rightarrow> Inl AssertionError
                | Some st \<Rightarrow> Inr (True, s1\<lparr>connector_stats := Some (st\<lparr>stats_reset := True\<rparr>)\<rparr>))
             else Inr (True, s1)))"

definition reset_scheduler_prefix_cache ::
  "'c sched_config \<Rightarrow> bool \<Rightarrow> bool \<Rightarrow> 'c scheduler \<Rightarrow> (bool \<times> 'c scheduler) res" where
  "reset_scheduler_prefix_cache cfg reset_running reset_connector s =
     res_bind
       (if reset_running then
          res_bind (preempt_all s) (\<lambda>s1. Inr (s1\<lparr>prev_step_scheduled_req_ids := []\<rparr>))
        else Inr s)
       (\<lambda>s1.
          case kvm_reset_prefix_cache (kvm s1) of
            (ok, k) \<Rightarrow>
              let s2 = s1\<lparr>kvm := k\<rparr> in
              require (\<not> (reset_running \<and> \<not> ok)) RuntimeError
                (if reset_connector then
                   res_bind (reset_connector_cache cfg s2) (\<lambda>(ok2, s3). Inr (ok2 \<and> ok, s3))
                 else Inr (ok, s2)))"

definition reset_encoder_cache :: "'c scheduler \<Rightarrow> 'c scheduler" where
  "reset_encoder_cache s = s\<lparr>enc_manager := em_reset (enc_manager s)\<rparr>"

end
