(* ===== verification/Sched_Invariant.thy ===== *)
theory Sched_Invariant
  imports Sched_Results
begin

text \<open>
  The queues of the scheduler through a step: every unfinished request is in exactly one of
  \<open>running\<close>, \<open>waiting\<close>, \<open>skipped_waiting\<close> and the queue of the requests put aside in the current
  step, it is in \<open>running\<close> exactly when its status says so, and the counter of the sessions that
  wait for input is right. With it the accounting of a step:
  the tokens scheduled and the token budget left add up, and every request is scheduled once.
\<close>

section \<open>The queues\<close>

definition run_set :: "'c scheduler \<Rightarrow> req_id set" where
  "run_set s = {rid \<in> set (requests s). status (objects s rid) = RUNNING}"

definition wait_set :: "'c scheduler \<Rightarrow> req_id set" where
  "wait_set s = {rid \<in> set (requests s). status (objects s rid) \<noteq> RUNNING \<and> \<not> is_finished (objects s rid)}"

definition stream_set :: "'c scheduler \<Rightarrow> req_id set" where
  "stream_set s = {rid \<in> set (requests s). status (objects s rid) = WAITING_FOR_STREAMING_REQ}"

definition waiting_ids :: "req_id list \<Rightarrow> 'c scheduler \<Rightarrow> req_id list" where
  "waiting_ids X s = rq_items (waiting s) @ rq_items (skipped_waiting s) @ X"

definition queues_ok :: "req_id list \<Rightarrow> 'c scheduler \<Rightarrow> bool" where
  "queues_ok X s \<longleftrightarrow>
     distinct (requests s) \<and> distinct (running s) \<and> set (running s) = run_set s \<and>
     distinct (waiting_ids X s) \<and> set (waiting_ids X s) = wait_set s \<and> named (objects s) \<and>
     num_waiting_for_streaming_input s = int (card (stream_set s))"

text \<open>States that agree on the queues and on the status of every request.\<close>

definition same_queues :: "'c scheduler \<Rightarrow> 'c scheduler \<Rightarrow> bool" where
  "same_queues s s' \<longleftrightarrow>
     running s' = running s \<and> waiting s' = waiting s \<and> skipped_waiting s' = skipped_waiting s \<and>
     requests s' = requests s \<and> num_waiting_for_streaming_input s' = num_waiting_for_streaming_input s \<and>
     (\<forall>rid. status (objects s' rid) = status (objects s rid)) \<and>
     (\<forall>rid. request_id (objects s' rid) = request_id (objects s rid))"

lemma same_queues_refl [simp]: "same_queues s s"
  by (simp add: same_queues_def)

lemma same_queues_trans: "same_queues s t \<Longrightarrow> same_queues t u \<Longrightarrow> same_queues s u"
  by (simp add: same_queues_def)

lemma same_queues_sets:
  assumes "same_queues s s'"
  shows "run_set s' = run_set s" "wait_set s' = wait_set s" "waiting_ids X s' = waiting_ids X s"
    "stream_set s' = stream_set s"
  using assms by (simp_all add: same_queues_def stream_set_def run_set_def wait_set_def waiting_ids_def is_finished_def)

lemma queues_ok_same:
  assumes "same_queues s s'"
  shows "queues_ok X s' = queues_ok X s"
proof -
  have "requests s' = requests s" "running s' = running s" "named (objects s') = named (objects s)"
    "num_waiting_for_streaming_input s' = num_waiting_for_streaming_input s"
    using assms by (simp_all add: same_queues_def named_def)
  then show ?thesis by (simp only: queues_ok_def same_queues_sets [OF assms])
qed

lemma same_queues_simps [simp]:
  "same_queues s (t\<lparr>kvm := k\<rparr>) = same_queues s t"
  "same_queues s (t\<lparr>enc_manager := m\<rparr>) = same_queues s t"
  "same_queues s (t\<lparr>env_state := w\<rparr>) = same_queues s t"
  "same_queues s (t\<lparr>finished_recving_kv_req_ids := xs\<rparr>) = same_queues s t"
  "same_queues s (t\<lparr>failed_recving_kv_req_ids := xs\<rparr>) = same_queues s t"
  "same_queues s (t\<lparr>prev_step_scheduled_req_ids := xs\<rparr>) = same_queues s t"
  "same_queues s (t\<lparr>finished_req_ids := xs\<rparr>) = same_queues s t"
  "same_queues s (t\<lparr>finished_req_ids_dict := d\<rparr>) = same_queues s t"
  "same_queues s (t\<lparr>connector_stats := st\<rparr>) = same_queues s t"
  "same_queues s (t\<lparr>sched_pause_state := p\<rparr>) = same_queues s t"
  by (simp_all add: same_queues_def)

lemma same_queues_set_obj [simp]:
  "status r = status (objects t rid) \<Longrightarrow> request_id r = request_id (objects t rid) \<Longrightarrow>
     same_queues s (set_obj rid r t) = same_queues s t"
  by (auto simp: same_queues_def set_obj_def)

lemma same_queues_upd_obj [simp]:
  "status (f (objects t rid)) = status (objects t rid) \<Longrightarrow>
     request_id (f (objects t rid)) = request_id (objects t rid) \<Longrightarrow> same_queues s (upd_obj rid f t) = same_queues s t"
  by (simp add: upd_obj_def)

lemma obj_simps [simp]:
  "requests (set_obj rid r s) = requests s" "requests (upd_obj rid f s) = requests s"
  "kvm (set_obj rid r s) = kvm s" "kvm (upd_obj rid f s) = kvm s"
  "enc_manager (set_obj rid r s) = enc_manager s" "enc_manager (upd_obj rid f s) = enc_manager s"
  "sched_pause_state (set_obj rid r s) = sched_pause_state s"
  "num_waiting_for_streaming_input (set_obj rid r s) = num_waiting_for_streaming_input s"
  "num_waiting_for_streaming_input (upd_obj rid f s) = num_waiting_for_streaming_input s"
  "objects (set_obj rid r s) = (objects s)(rid := r)"
  "objects (upd_obj rid f s) = (objects s)(rid := f (objects s rid))"
  by (simp_all add: set_obj_def upd_obj_def)

text \<open>The contents of the queues after their operations, whatever the order of the heap.\<close>

lemma mset_rq_pop: "rq_pop objs q = Inr (x, q') \<Longrightarrow> mset (rq_items q) = add_mset x (mset (rq_items q'))"
  by (cases q) (auto simp: fcfs_pop_def prio_pop_def res_simps dest: heappop_contents(1)
      split: list.splits if_splits)

lemma rq_peek_pop: "rq_peek q = Inr y \<Longrightarrow> rq_pop objs q = Inr (x, q') \<Longrightarrow> x = y"
  by (cases q) (auto simp: fcfs_peek_def fcfs_pop_def prio_peek_def prio_pop_def res_simps
      dest: heappop_contents(3) split: list.splits if_splits)

lemma rq_peek_in: "rq_peek q = Inr y \<Longrightarrow> y \<in> set (rq_items q)"
  by (cases q) (auto simp: fcfs_peek_def prio_peek_def split: list.splits if_splits)

lemma mset_rq_add: "mset (rq_items (rq_add objs r q)) = add_mset r (mset (rq_items q))"
  by (cases q) (simp_all add: fcfs_add_def prio_add_def)

lemma mset_rq_remove_all:
  "mset (rq_items (rq_remove_all objs X q)) = {#r \<in># mset (rq_items q). r \<notin> X#}"
  by (cases q) (simp_all add: fcfs_remove_all_def prio_remove_all_def heapify_contents)

lemma mset_rq_prepend_all:
  "mset (rq_items (rq_prepend_all objs rs q)) = mset (rq_items rs) + mset (rq_items q)"
proof (cases q)
  case (PriorityRequestQueue xs)
  have "mset (fold (prio_add (queue_less objs)) ys zs) = mset ys + mset zs" for ys zs
    by (induction ys arbitrary: zs) (simp_all add: prio_add_def)
  then show ?thesis using PriorityRequestQueue by (simp add: prio_prepend_all_def)
qed (simp add: fcfs_prepend_all_def fold_fcfs_prepend)

lemma mset_distinct_set: "mset xs = mset ys \<Longrightarrow> distinct xs = distinct ys \<and> set xs = set ys"
  by (metis mset_eq_imp_distinct_iff mset_eq_setD)

text \<open>\<open>queues_ok\<close> depends on the waiting queues only through their joint contents.\<close>

lemma queues_okI:
  assumes "distinct (requests s')" "distinct (running s')" "set (running s') = run_set s'"
    and "mset (waiting_ids X' s') = mset ys" "distinct ys" "set ys = wait_set s'"
    and "named (objects s')" "num_waiting_for_streaming_input s' = int (card (stream_set s'))"
  shows "queues_ok X' s'"
  unfolding queues_ok_def using assms mset_distinct_set [OF assms(4)] by simp

section \<open>The accounting of a step\<close>

lemma total_delete:
  "distinct (map fst d) \<Longrightarrow> map_of d k = Some n \<Longrightarrow>
     sum_list (map snd (AList.delete k d)) = sum_list (map snd d) - (n::int)"
proof (induction d)
  case (Cons a d)
  show ?case
  proof (cases "fst a = k")
    case True
    then have "AList.delete k d = d" using Cons.prems(1) by (intro delete_id) auto
    then show ?thesis using True Cons.prems(2) by (cases a) simp
  next
    case False
    then show ?thesis using Cons by (cases a) simp
  qed
qed simp

lemma keys_deleted: "fst ` set (AList.delete k d) = fst ` set d - {k}"
  by (auto simp: AList.delete_eq image_iff)

lemma update_fresh: "k \<notin> fst ` set d \<Longrightarrow> AList.update k v d = d @ [(k, v)]"
  by (induction d) auto

lemma take_remove1_shift:
  "v \<in> set (take i xs) \<Longrightarrow> set (take i xs) - {v} \<subseteq> set (take (i - 1) (remove1 v xs))"
proof (induction xs arbitrary: i)
  case (Cons x xs)
  obtain j where i: "i = Suc j" using Cons.prems by (cases i) simp_all
  show ?case
  proof (cases "x = v")
    case True
    then show ?thesis using i by auto
  next
    case False
    then have v: "v \<in> set (take j xs)" using Cons.prems i by simp
    then obtain m where m: "j = Suc m" by (cases j) simp_all
    show ?thesis using Cons.IH [OF v] False i m by auto
  qed
qed simp

lemma take_remove1: "set (take i xs) - {v} \<subseteq> set (take i (remove1 v xs))"
proof (induction xs arbitrary: i)
  case (Cons x xs)
  show ?case
  proof (cases i)
    case (Suc j)
    have "set (take j xs) \<subseteq> set (take (Suc j) xs)" by (rule set_take_subset_set_take) simp
    then show ?thesis using Cons.IH [of j] Suc by auto
  qed simp
qed simp

lemma remove1_last: "distinct xs \<Longrightarrow> xs \<noteq> [] \<Longrightarrow> remove1 (last xs) xs = butlast xs"
  by (cases xs rule: rev_cases) (auto simp: remove1_append)

definition scheduled :: "sched_locals \<Rightarrow> req_id list" where
  "scheduled l = new_reqs l @ resumed_reqs l @ running_reqs l"

text \<open>
  The dicts of the step have an entry for exactly the requests scheduled so far, each of which
  runs and is scheduled once; scheduled tokens and budget left make the budget of the step. The flag
  \<open>full\<close> tells whether the sums are followed too: they need limits on the lengths of requests.
\<close>

definition step_keys :: "'c scheduler \<Rightarrow> sched_locals \<Rightarrow> bool" where
  "step_keys s l \<longleftrightarrow>
     distinct (scheduled l) \<and> set (scheduled l) \<subseteq> set (running s) \<and>
     distinct (map fst (sched_tokens l)) \<and> fst ` set (sched_tokens l) = set (scheduled l) \<and>
     fst ` set (req_blocks l) = set (scheduled l)"

definition step_sums :: "int \<Rightarrow> sched_locals \<Rightarrow> bool" where
  "step_sums B l \<longleftrightarrow> total_scheduled l + token_budget l = B \<and> 0 \<le> token_budget l \<and>
     (\<forall>n \<in> snd ` set (sched_tokens l). 0 < n)"

definition step_books :: "bool \<Rightarrow> int \<Rightarrow> 'c scheduler \<Rightarrow> sched_locals \<Rightarrow> bool" where
  "step_books full B s l \<longleftrightarrow> step_keys s l \<and> (full \<longrightarrow> step_sums B l)"

lemmas books_defs = step_books_def step_keys_def step_sums_def

lemma init_books:
  "full \<longrightarrow> 0 \<le> c_max_num_scheduled_tokens cfg \<Longrightarrow>
     step_books full (token_budget (init_locals cfg s)) s' (init_locals cfg s)"
  by (simp add: books_defs init_locals_def scheduled_def total_scheduled_def)

text \<open>Positions: what is scheduled lies before \<open>req_index\<close>, in the running phase.\<close>

definition run_pos :: "'c scheduler \<Rightarrow> sched_locals \<Rightarrow> bool" where
  "run_pos s l \<longleftrightarrow> new_reqs l = [] \<and> resumed_reqs l = [] \<and> 0 \<le> req_index l \<and>
     set (running_reqs l) \<subseteq> set (take (nat (req_index l)) (running s))"

text \<open>While slots are sought for \<open>rid\<close>.\<close>

definition seeks :: "'c sched_config \<Rightarrow> req_id \<Rightarrow> 'c scheduler \<Rightarrow> sched_locals \<Rightarrow> bool" where
  "seeks cfg rid s l \<longleftrightarrow> rid \<in> set (take (Suc (nat (req_index l))) (running s)) \<and>
     rid \<notin> set (running_reqs l) \<and>
     (c_policy cfg = FCFS \<longrightarrow>
        nat (req_index l) < length (running s) \<and> running s ! nat (req_index l) = rid)"

lemma unschedule_books:
  assumes u: "unschedule rid r l = Inr l'" and b: "step_books full B s l" and pos: "run_pos s l"
    and rid: "rid \<in> set (running_reqs l)" and d: "distinct (running s)"
    and s': "running s' = remove1 rid (running s)"
  shows "step_books full B s' l' \<and> run_pos s' l' \<and> running_reqs l' = remove1 rid (running_reqs l)
    \<and> nat (req_index l') = nat (req_index l) - 1 \<and> (full \<longrightarrow> token_budget l \<le> token_budget l')"
proof -
  obtain n kb where n: "map_of (sched_tokens l) rid = Some n" and kb: "map_of (req_blocks l) rid = Some kb"
    using u by (auto simp: unschedule_def dict_pop_def res_bind_eq_Inr split: option.splits)
  obtain k where l': "l' = l\<lparr>running_reqs := remove1 rid (running_reqs l), token_budget := token_budget l + n,
           sched_tokens := AList.delete rid (sched_tokens l), req_blocks := AList.delete rid (req_blocks l),
           sched_spec := AList.delete rid (sched_spec l),
           sched_encoder := AList.delete rid (sched_encoder l),
           encoder_budget := encoder_budget l + k, req_index := req_index l - 1\<rparr>"
    using u n kb by (simp add: unschedule_def dict_pop_def) (auto simp only: res_bind_eq_Inr sum.inject)
  have none: "new_reqs l = []" "resumed_reqs l = []" "0 \<le> req_index l"
    and sub: "set (running_reqs l) \<subseteq> set (take (nat (req_index l)) (running s))"
    using pos by (simp_all add: run_pos_def)
  have dr: "distinct (running_reqs l)" using b none by (simp add: books_defs scheduled_def)
  have set1: "set (remove1 rid (running_reqs l)) = set (running_reqs l) - {rid}"
    using dr by simp
  have "0 < nat (req_index l)" using sub rid by (cases "nat (req_index l)") auto
  then have i: "nat (req_index l - 1) = nat (req_index l) - 1" "0 \<le> req_index l - 1" by linarith+
  have "set (take (nat (req_index l)) (running s)) - {rid}
      \<subseteq> set (take (nat (req_index l) - 1) (remove1 rid (running s)))"
    using sub rid by (intro take_remove1_shift) auto
  then have p: "run_pos s' l'" using sub none i s' by (auto simp: run_pos_def l' set1)
  have n0: "full \<longrightarrow> 0 \<le> n" using map_of_SomeD [OF n] b by (force simp: books_defs)
  have "step_keys s' l'"
    unfolding step_keys_def
  proof (intro conjI)
    show "distinct (scheduled l')" using dr none by (simp add: l' scheduled_def)
    show "set (scheduled l') \<subseteq> set (running s')"
      using b none d s' by (auto simp: l' scheduled_def books_defs)
    show "distinct (map fst (sched_tokens l'))"
      using b by (auto simp: l' books_defs delete_keys distinct_removeAll)
    show "fst ` set (sched_tokens l') = set (scheduled l')" "fst ` set (req_blocks l') = set (scheduled l')"
      using b none dr by (simp_all add: l' scheduled_def books_defs keys_deleted)
  qed
  moreover have "step_sums B l'" if full
  proof -
    have "distinct (map fst (sched_tokens l))" using b by (simp add: books_defs)
    from total_delete [OF this n] have "total_scheduled l' + token_budget l' = B"
      using b that by (simp add: l' total_scheduled_def books_defs)
    moreover have "0 \<le> token_budget l'" using b n0 that by (simp add: l' books_defs)
    moreover have "\<forall>n \<in> snd ` set (sched_tokens l'). 0 < n"
      using b that by (auto simp: l' books_defs AList.delete_eq)
    ultimately show ?thesis by (simp add: step_sums_def)
  qed
  ultimately have "step_books full B s' l'" by (simp add: step_books_def)
  then show ?thesis using p i n0 by (simp add: l')
qed

section \<open>Preemption\<close>

lemma books_cong:
  assumes "running s' = running s"
  shows "step_books full B s' l = step_books full B s l" "run_pos s' l = run_pos s l" "seeks cfg rid s' l = seeks cfg rid s l"
  using assms by (simp_all add: books_defs run_pos_def seeks_def)

lemma last_served_in: "last_served objs b xs \<in> insert b (set xs)"
  by (induction xs arbitrary: b) (auto split: if_splits)

lemma take_victim_effect:
  assumes t: "take_victim cfg s l = Inr (v, s', l')" and d: "distinct (running s)"
    and b: "step_books full B s l" and pos: "run_pos s l" and sk: "seeks cfg rid s l"
  shows "v \<in> set (running s) \<and> s' = s\<lparr>running := remove1 v (running s)\<rparr> \<and> step_books full B s' l' \<and>
    run_pos s' l' \<and> (v \<noteq> rid \<longrightarrow> seeks cfg rid s' l') \<and> (full \<longrightarrow> token_budget l \<le> token_budget l')"
proof -
  let ?i = "nat (req_index l)" and ?xs = "running s"
  have none: "new_reqs l = []" "resumed_reqs l = []" and sub: "set (running_reqs l) \<subseteq> set (take ?i ?xs)"
    using pos by (simp_all add: run_pos_def)
  have other: "step_books full B s' l \<and> run_pos s' l"
    if "v \<notin> set (running_reqs l)" "s' = s\<lparr>running := remove1 v ?xs\<rparr>"
    using that b pos d take_remove1 [of ?i ?xs v]
    by (auto simp: books_defs run_pos_def scheduled_def)
  show ?thesis
  proof (cases "c_policy cfg")
    case FCFS
    then have ne: "?xs \<noteq> []" and v: "v = last ?xs" "s' = s\<lparr>running := butlast ?xs\<rparr>" "l' = l"
      using t by (auto simp: take_victim_def split: if_splits)
    have s': "s' = s\<lparr>running := remove1 v ?xs\<rparr>" using v remove1_last [OF d ne] by simp
    obtain ys where ys: "?xs = ys @ [v]" using ne v(1) by (metis append_butlast_last_id)
    have i: "?i \<le> length ys" and at: "?xs ! ?i = rid" using sk FCFS ys by (simp_all add: seeks_def)
    have out: "v \<notin> set (running_reqs l)" using sub d i in_set_takeD by (fastforce simp: ys)
    have sk': "seeks cfg rid s' l'" if "v \<noteq> rid"
    proof -
      have i2: "?i < length ys" using i at that ys by (cases "?i = length ys") auto
      then have "ys ! ?i = rid" using at by (simp add: ys nth_append)
      then have "rid \<in> set (take (Suc ?i) ys)" using i2 by (auto simp: take_Suc_conv_app_nth)
      then show ?thesis using sk i2 \<open>ys ! ?i = rid\<close> by (simp add: seeks_def v(2,3) ys)
    qed
    have "v \<in> set ?xs" using ys by simp
    then show ?thesis using other [OF out s'] s' sk' by (simp add: v(3))
  next
    case PRIORITY
    then obtain x xs where xs: "?xs = x # xs" and v: "v = last_served (objects s) x xs"
      and s': "s' = s\<lparr>running := remove1 v ?xs\<rparr>"
      and l': "if v \<in> set (running_reqs l) then unschedule v (objects s v) l = Inr l' else l' = l"
      using t by (auto simp: take_victim_def Let_def res_bind_eq_Inr split: list.splits if_splits)
    have mem: "v \<in> set ?xs" using last_served_in [of "objects s" x xs] xs v by auto
    have r: "rid \<in> set (take (Suc ?i) ?xs)" "rid \<notin> set (running_reqs l)" using sk by (simp_all add: seeks_def)
    show ?thesis
    proof (cases "v \<in> set (running_reqs l)")
      case True
      then have u: "unschedule v (objects s v) l = Inr l'" using l' by simp
      from unschedule_books [OF u b pos True d, of s'] have
        bk: "step_books full B s' l'" "run_pos s' l'" "full \<longrightarrow> token_budget l \<le> token_budget l'" and rr: "running_reqs l' = remove1 v (running_reqs l)"
        and i': "nat (req_index l') = ?i - 1" using s' by simp_all
      have vi: "v \<in> set (take ?i ?xs)" using True sub by blast
      then have "0 < ?i" by (cases ?i) auto
      then have i2: "Suc (nat (req_index l')) = ?i" using i' by simp
      have "v \<in> set (take (Suc ?i) ?xs)" using vi set_take_subset_set_take [of ?i "Suc ?i" ?xs] by auto
      from take_remove1_shift [OF this] have "rid \<in> set (take ?i (remove1 v ?xs))" if "v \<noteq> rid"
        using r(1) that by auto
      then have "seeks cfg rid s' l'" if "v \<noteq> rid"
        using that r(2) PRIORITY i2 s' by (auto simp: seeks_def rr dest: notin_set_remove1)
      then show ?thesis using mem s' bk by simp
    next
      case False
      then have l': "l' = l" using l' by simp
      have "seeks cfg rid s' l'" if "v \<noteq> rid"
        using that r take_remove1 [of "Suc ?i" ?xs v] PRIORITY s' l' by (auto simp: seeks_def)
      then show ?thesis using mem s' other [OF False s'] l' by simp
    qed
  qed
qed

lemma preempt_request_queues:
  assumes q: "queues_ok X s" and v: "v \<in> set (running s)"
    and p: "preempt_request v (s\<lparr>running := remove1 v (running s)\<rparr>) = Inr s'"
  shows "queues_ok X s'"
proof -
  obtain k m where s': "s' = (upd_obj v (\<lambda>r. r\<lparr>status := PREEMPTED, num_computed_tokens := 0,
        spec_token_ids := [], num_preemptions := num_preemptions r + 1\<rparr>)
        (s\<lparr>running := remove1 v (running s), kvm := k, enc_manager := m\<rparr>))
      \<lparr>waiting := rq_prepend ((objects s)(v := (objects s v)\<lparr>status := PREEMPTED, num_computed_tokens := 0,
        spec_token_ids := [], num_preemptions := num_preemptions (objects s v) + 1\<rparr>)) v (waiting s)\<rparr>"
    using p by (auto simp: preempt_request_def Let_def res_bind_eq_Inr require_eq_Inr upd_obj_def set_obj_def)
  have ok: "distinct (requests s)" "distinct (running s)" "set (running s) = run_set s"
    "distinct (waiting_ids X s)" "set (waiting_ids X s) = wait_set s" using q by (simp_all add: queues_ok_def)
  have vr: "v \<in> set (requests s)" "status (objects s v) = RUNNING" using v ok(3) by (auto simp: run_set_def)
  have fin: "\<not> is_finished_status PREEMPTED" by (simp add: is_finished_status_iff)
  have rs: "run_set s' = run_set s - {v}"
    by (auto simp: s' run_set_def upd_obj_def set_obj_def)
  have ws: "wait_set s' = insert v (wait_set s)"
    using vr fin by (auto simp: s' wait_set_def upd_obj_def set_obj_def is_finished_def)
  show ?thesis
  proof (rule queues_okI)
    show "distinct (requests s')" "distinct (running s')" "set (running s') = run_set s'"
      using ok rs by (simp_all add: s' distinct_remove1)
    show "mset (waiting_ids X s') = mset (v # waiting_ids X s)"
      by (simp add: s' waiting_ids_def mset_rq_prepend)
    show "distinct (v # waiting_ids X s)" using ok vr by (simp add: wait_set_def)
    show "set (v # waiting_ids X s) = wait_set s'" using ok ws by simp
    show "named (objects s')" using q by (auto simp: s' queues_ok_def named_def)
    have "stream_set s' = stream_set s" using vr by (auto simp: s' stream_set_def upd_obj_def set_obj_def)
    then show "num_waiting_for_streaming_input s' = int (card (stream_set s'))"
      using q by (simp add: s' queues_ok_def upd_obj_def set_obj_def)
  qed
qed

section \<open>The running phase\<close>

text \<open>
  No running request has reached the maximum model length, or has computed more than it has.
\<close>

definition has_room :: "'c sched_config \<Rightarrow> request \<Rightarrow> bool" where
  "has_room cfg r \<longleftrightarrow> num_computed_tokens r < c_max_model_len cfg \<and>
     num_computed_tokens r \<le> num_tokens r + num_output_placeholders r"

definition within_length :: "'c sched_config \<Rightarrow> 'c scheduler \<Rightarrow> bool" where
  "within_length cfg s \<longleftrightarrow> (\<forall>rid \<in> set (running s). has_room cfg (objects s rid))"

definition step_state :: "'c sched_config \<Rightarrow> bool \<Rightarrow> int \<Rightarrow> req_id list \<Rightarrow> 'c scheduler \<Rightarrow> sched_locals \<Rightarrow> bool" where
  "step_state cfg full B X s l \<longleftrightarrow> queues_ok X s \<and> step_books full B s l \<and>
     (full \<longrightarrow> within_length cfg s \<and> int (length (running s)) \<le> c_max_num_running_reqs cfg)"

lemma memo_only_room: "memo_only r r' \<Longrightarrow> has_room cfg r' = has_room cfg r"
  by (auto simp: memo_only_def has_room_def num_tokens_def)

lemma step_state_same:
  assumes "step_state cfg full B X s l" and "same_queues s s'"
    and "\<And>rid. has_room cfg (objects s' rid) = has_room cfg (objects s rid)"
  shows "step_state cfg full B X s' l"
proof -
  have r: "running s' = running s" using assms(2) by (simp add: same_queues_def)
  show ?thesis using assms(1,3) r queues_ok_same [OF assms(2), of X]
    by (simp add: step_state_def books_defs within_length_def)
qed

lemma allocate_keeps:
  assumes "allocate_slots sha (objects s rid) a k = Inr (res, r, k')" and "step_state cfg full B X s l"
  shows "step_state cfg full B X (set_obj rid r (s\<lparr>kvm := k'\<rparr>)) l"
proof -
  have m: "memo_only (objects s rid) r" using assms(1) by (rule allocate_slots_memo)
  show ?thesis
    by (rule step_state_same [OF assms(2)]) (simp_all add: memo_only_status [OF m] memo_only_room [OF m])
qed

lemma preempt_request_others:
  assumes "preempt_request v s = Inr s'" and "rid \<noteq> v"
  shows "objects s' rid = objects s rid"
  using assms by (auto simp: preempt_request_def Let_def res_bind_eq_Inr require_eq_Inr)

lemma length_remove1_le: "length (remove1 x xs) \<le> length xs"
  by (simp add: length_remove1)

lemma alloc_or_preempt_keeps:
  assumes "alloc_or_preempt cfg rid n s l = Inr (kb, s', l')" and "step_state cfg full B X s l"
    and "run_pos s l" and "seeks cfg rid s l"
  shows "step_state cfg full B X s' l' \<and> run_pos s' l' \<and> (full \<longrightarrow> token_budget l \<le> token_budget l') \<and>
    (kb \<noteq> None \<longrightarrow> seeks cfg rid s' l')"
  using assms
proof (induction cfg rid n s l arbitrary: kb s' l' rule: alloc_or_preempt.induct)
  case (1 cfg rid n s l)
  from 1(2) obtain res r k where a: "allocate_slots (c_sha cfg) (objects s rid)
      ((default_slots n)\<lparr>num_lookahead_tokens := c_num_lookahead_tokens cfg\<rparr>) (kvm s) = Inr (res, r, k)"
    by (subst (asm) alloc_or_preempt.simps) (auto simp: res_simps)
  let ?s1 = "set_obj rid r (s\<lparr>kvm := k\<rparr>)"
  have ok1: "step_state cfg full B X ?s1 l" by (rule allocate_keeps [OF a 1(3)])
  have pos1: "run_pos ?s1 l" "seeks cfg rid ?s1 l" using 1(4,5) books_cong [of ?s1 s] by simp_all
  show ?case
  proof (cases res)
    case (Some b)
    then have "s' = ?s1" "l' = l" using 1(2) a by (subst (asm) alloc_or_preempt.simps, simp add: Let_def)+
    then show ?thesis using ok1 pos1 by simp
  next
    case None
    obtain v s2 l2 s3 where v: "take_victim cfg ?s1 l = Inr (v, s2, l2)" "preempt_request v s2 = Inr s3"
      and rest: "(if v = rid then Inr (None, s3, l2\<lparr>preempted_reqs := preempted_reqs l2 @ [v]\<rparr>)
        else alloc_or_preempt cfg rid n s3 (l2\<lparr>preempted_reqs := preempted_reqs l2 @ [v]\<rparr>)) = Inr (kb, s', l')"
      using 1(2) a None by (subst (asm) alloc_or_preempt.simps) (auto simp: Let_def res_simps)
    let ?l3 = "l2\<lparr>preempted_reqs := preempted_reqs l2 @ [v]\<rparr>"
    have q1: "queues_ok X ?s1" "step_books full B ?s1 l" "full \<longrightarrow> within_length cfg ?s1"
      and len: "full \<longrightarrow> int (length (running ?s1)) \<le> c_max_num_running_reqs cfg" using ok1 by (simp_all add: step_state_def)
    then have dist: "distinct (running ?s1)" by (simp add: queues_ok_def)
    from take_victim_effect [OF v(1) this q1(2) pos1] have
      mem: "v \<in> set (running ?s1)" and s2: "s2 = ?s1\<lparr>running := remove1 v (running ?s1)\<rparr>"
      and b2: "step_books full B s2 l2" "run_pos s2 l2" "v \<noteq> rid \<longrightarrow> seeks cfg rid s2 l2"
      "full \<longrightarrow> token_budget l \<le> token_budget l2" by blast+
    have q3: "queues_ok X s3" using preempt_request_queues [OF q1(1) mem] v(2) unfolding s2 by blast
    have r3: "running s3 = running s2" by (rule preempt_request_running [OF v(2)])
    have w3: "within_length cfg s3" if full
      unfolding within_length_def
    proof
      fix x assume "x \<in> set (running s3)"
      then have "x \<noteq> v" "x \<in> set (running ?s1)" using dist unfolding r3 s2 by auto
      then show "has_room cfg (objects s3 x)"
        using that q1(3) preempt_request_others [OF v(2), of x] unfolding within_length_def s2 by simp
    qed
    have len2: "full \<longrightarrow> int (length (remove1 v (running s))) \<le> c_max_num_running_reqs cfg"
      using len length_remove1_le [of v "running s"] by auto
    have pre: "step_state cfg full B X s3 ?l3" "run_pos s3 ?l3" "v \<noteq> rid \<longrightarrow> seeks cfg rid s3 ?l3"
      using q3 w3 b2 len2
      by (simp_all add: s2 step_state_def books_defs run_pos_def seeks_def scheduled_def
          total_scheduled_def r3)
    show ?thesis
    proof (cases "v = rid")
      case True
      then show ?thesis using rest pre b2(4) by auto
    next
      case False
      then have "step_state cfg full B X s' l' \<and> run_pos s' l' \<and> (full \<longrightarrow> token_budget ?l3 \<le> token_budget l') \<and>
          (kb \<noteq> None \<longrightarrow> seeks cfg rid s' l')"
        using rest pre by (intro 1(1) [OF a refl refl refl None v(1) refl refl v(2) refl False]) simp_all
      then show ?thesis using b2(4) by auto
    qed
  qed
qed

text \<open>Recording a scheduled request.\<close>

lemma note_spec_keeps:
  assumes "note_spec_tokens rid n s l = (s', l')"
  shows "same_queues s s'" "has_room cfg (objects s' x) = has_room cfg (objects s x)"
    "\<exists>d. l' = l\<lparr>sched_spec := d\<rparr>"
proof -
  obtain d where "l' = l\<lparr>sched_spec := d\<rparr>" and s': "s' = s \<or> s' = upd_obj rid (\<lambda>r. r\<lparr>spec_token_ids := []\<rparr>) s"
  proof (cases "spec_token_ids (objects s rid) = [] \<or> n + num_computed_tokens (objects s rid)
      - num_tokens (objects s rid) - num_output_placeholders (objects s rid) \<le> 0")
    case True
    then have "l' = l\<lparr>sched_spec := sched_spec l\<rparr>" using assms by (auto simp: note_spec_tokens_def Let_def split: if_splits)
    moreover have "s' = s \<or> s' = upd_obj rid (\<lambda>r. r\<lparr>spec_token_ids := []\<rparr>) s"
      using assms by (auto simp: note_spec_tokens_def Let_def split: if_splits)
    ultimately show ?thesis by (rule that)
  next
    case False
    then show ?thesis using assms that by (auto simp: note_spec_tokens_def Let_def)
  qed
  then show "\<exists>d. l' = l\<lparr>sched_spec := d\<rparr>" by blast
  from s' show "same_queues s s'" by auto
  have "has_room cfg ((objects s rid)\<lparr>spec_token_ids := []\<rparr>) = has_room cfg (objects s rid)"
    by (simp add: has_room_def num_tokens_def)
  with s' show "has_room cfg (objects s' x) = has_room cfg (objects s x)" by (auto split: if_splits)
qed

lemma books_more:
  "step_books full B s (l\<lparr>sched_spec := d\<rparr>) = step_books full B s l"
  "step_books full B s (l\<lparr>sched_encoder := e, encoder_budget := b\<rparr>) = step_books full B s l"
  "run_pos s (l\<lparr>sched_spec := d\<rparr>) = run_pos s l"
  "run_pos s (l\<lparr>sched_encoder := e, encoder_budget := b\<rparr>) = run_pos s l"
  by (simp_all add: books_defs run_pos_def scheduled_def total_scheduled_def)

lemma note_encoder_keeps:
  assumes "note_encoder_inputs cfg rid plan s l = Inr (s', l')" and "step_state cfg full B X s l"
  shows "step_state cfg full B X s' l' \<and> running s' = running s \<and>
    (\<exists>es b. l' = l\<lparr>sched_encoder := es, encoder_budget := b\<rparr>)"
proof -
  obtain m w es b where e: "s' = s\<lparr>enc_manager := m, env_state := w\<rparr>"
    "l' = l\<lparr>sched_encoder := es, encoder_budget := b\<rparr>" using note_encoder_frame [OF assms(1)] by blast
  have "step_state cfg full B X s' l" by (rule step_state_same [OF assms(2)]) (simp_all add: e)
  then show ?thesis using e by (auto simp: step_state_def books_more)
qed

lemma books_add:
  assumes "step_books full B s l" and "rid \<in> set (running s)" "rid \<notin> set (scheduled l)"
    and "full \<longrightarrow> 0 < n \<and> n \<le> token_budget l"
    and "mset (scheduled l') = add_mset rid (mset (scheduled l))"
    and "sched_tokens l' = AList.update rid n (sched_tokens l)"
    and "req_blocks l' = AList.update rid kb (req_blocks l)" "token_budget l' = token_budget l - n"
  shows "step_books full B s l'"
proof -
  have fresh: "rid \<notin> fst ` set (sched_tokens l)" using assms(1,3) by (simp add: books_defs)
  note upd = update_fresh [OF fresh, of n]
  have set: "set (scheduled l') = insert rid (set (scheduled l))"
    using arg_cong [OF assms(5), of set_mset] by simp
  have dist: "distinct (scheduled l')"
    using mset_distinct_set [of "scheduled l'" "rid # scheduled l"] assms(1,3,5) by (simp add: books_defs)
  have "step_keys s l'"
    unfolding step_keys_def
  proof (intro conjI)
    show "set (scheduled l') \<subseteq> set (running s)" using assms(1,2) set by (simp add: books_defs)
    show "distinct (map fst (sched_tokens l'))" using assms(1) fresh by (simp add: assms(6) upd books_defs)
    show "fst ` set (sched_tokens l') = set (scheduled l')" using assms(1) by (simp add: assms(6) upd set books_defs)
    show "fst ` set (req_blocks l') = set (scheduled l')"
      using assms(1) by (simp add: assms(7) set books_defs dom_update)
  qed (rule dist)
  moreover have "full \<longrightarrow> step_sums B l'"
    using assms(1,4) by (simp add: assms(6,8) upd total_scheduled_def books_defs)
  ultimately show ?thesis by (simp add: step_books_def)
qed

lemma place_running_keeps:
  assumes "place_running cfg rid n kb plan s l = Inr (s', l')" and st: "step_state cfg full B X s l"
    and pos: "run_pos s l" and sk: "seeks cfg rid s l" and n: "full \<longrightarrow> 0 < n \<and> n \<le> token_budget l"
  shows "step_state cfg full B X s' l' \<and> run_pos s' l'"
proof -
  let ?l1 = "l\<lparr>running_reqs := running_reqs l @ [rid], req_blocks := AList.update rid kb (req_blocks l),
        sched_tokens := AList.update rid n (sched_tokens l),
        token_budget := token_budget l - n, req_index := req_index l + 1\<rparr>"
  obtain s2 l2 where a: "note_spec_tokens rid n s ?l1 = (s2, l2)" by fastforce
  have e: "note_encoder_inputs cfg rid plan s2 l2 = Inr (s', l')"
    using assms(1) a by (simp add: place_running_def)
  have rid: "rid \<in> set (running s)" "rid \<notin> set (scheduled l)"
    using sk pos by (auto simp: seeks_def run_pos_def scheduled_def dest: in_set_takeD)
  have "step_books full B s ?l1"
  proof (rule books_add)
    show "step_books full B s l" using st by (simp add: step_state_def)
  qed (use rid n in \<open>simp_all add: scheduled_def\<close>)
  then have b1: "step_state cfg full B X s ?l1" using st by (simp add: step_state_def)
  have "0 \<le> req_index l" using pos by (simp add: run_pos_def)
  then have i: "nat (req_index l + 1) = Suc (nat (req_index l))" by linarith
  have p1: "run_pos s ?l1"
    using pos sk set_take_subset_set_take [of "nat (req_index l)" "Suc (nat (req_index l))" "running s"]
    by (auto simp: run_pos_def seeks_def i)
  obtain d where l2: "l2 = ?l1\<lparr>sched_spec := d\<rparr>" using note_spec_keeps(3) [OF a] by blast
  have "step_state cfg full B X s2 ?l1"
    by (rule step_state_same [OF b1 note_spec_keeps(1) [OF a] note_spec_keeps(2) [OF a]])
  then have b2: "step_state cfg full B X s2 l2" by (simp add: step_state_def l2 books_more)
  have r2: "running s2 = running s" using note_spec_keeps(1) [OF a] by (simp add: same_queues_def)
  have p2: "run_pos s2 l2" using p1 r2 by (simp add: run_pos_def l2)
  from note_encoder_keeps [OF e b2] p2 show ?thesis by (auto simp: run_pos_def)
qed

text \<open>Plans never ask for more tokens than they were given.\<close>

lemma encoder_step_bound:
  assumes "encoder_step cfg w r computed shift i f p = Inr (go, p')" and "0 \<le> ep_new_tokens p"
  shows "0 \<le> ep_new_tokens p' \<and> ep_new_tokens p' \<le> ep_new_tokens p"
proof -
  let ?start = "offset (mm_position f)" and ?len = "ph_length (mm_position f)"
  obtain e where e: "get_num_embeds (mm_position f) = Inr e"
    using assms(1) by (auto simp: encoder_step_def Let_def res_bind_eq_Inr)
  show ?thesis
  proof (cases "?start \<ge> computed + ep_new_tokens p + shift \<or> (c_is_encoder_decoder cfg \<and> computed > 0)
      \<or> ?start + ?len \<le> computed \<or> (\<not> c_is_encoder_decoder cfg \<and> mm_identifier f \<in> set (ep_hashes p))")
    case True
    then have "p' = p" using assms(1) e by (auto simp: encoder_step_def Let_def require_def split: if_splits)
    then show ?thesis using assms(2) by simp
  next
    case False
    then obtain hit m where h: "(if c_is_encoder_decoder cfg then Inr (False, ep_manager p)
        else em_check r i (ep_manager p)) = Inr (hit, m)"
      using assms(1) e unfolding encoder_step_def Let_def by (auto simp: res_bind_eq_Inr)
    let ?p1 = "p\<lparr>ep_manager := m\<rparr>"
    show ?thesis
    proof (cases "hit \<or> (c_disable_chunked_mm_input cfg \<and> computed < ?start
        \<and> computed + ep_new_tokens p < ?start + ?len)")
      case True
      then show ?thesis using assms e False h unfolding encoder_step_def Let_def by (auto split: if_splits)
    next
      case no_hit: False
      then obtain ok m2 where c: "em_can_allocate r i (ep_budget ?p1) (ep_embeds ?p1) (ep_manager ?p1) = Inr (ok, m2)"
        using assms(1) e False h unfolding encoder_step_def Let_def by (auto simp: res_bind_eq_Inr)
      show ?thesis
      proof (cases ok)
        case True
        have "ep_new_tokens p' = ep_new_tokens p"
          using assms(1) e False h no_hit c True unfolding encoder_step_def Let_def
          by (auto simp: res_bind_eq_Inr split: if_splits)
        then show ?thesis using assms(2) by simp
      next
        case no: False
        then show ?thesis using assms e False h no_hit c unfolding encoder_step_def Let_def by auto
      qed
    qed
  qed
qed

lemma encoder_loop_bound:
  assumes "encoder_loop cfg w r computed shift i fs p = Inr p'" and "0 \<le> ep_new_tokens p"
  shows "0 \<le> ep_new_tokens p' \<and> ep_new_tokens p' \<le> ep_new_tokens p"
  using assms
proof (induction fs arbitrary: i p)
  case (Cons f fs)
  from Cons.prems(1) obtain go p1 where s: "encoder_step cfg w r computed shift i f p = Inr (go, p1)"
    and rest: "(if go then encoder_loop cfg w r computed shift (i + 1) fs p1 else Inr p1) = Inr p'"
    by (auto simp: res_bind_eq_Inr)
  note b = encoder_step_bound [OF s Cons.prems(2)]
  show ?case
  proof (cases go)
    case True
    then show ?thesis using Cons.IH [of "i + 1" p1] rest b by auto
  qed (use rest b in simp)
qed simp

lemma plan_encoder_bound:
  assumes "plan_encoder cfg r computed n s l = Inr p" and "0 \<le> n"
  shows "0 \<le> ep_new_tokens p \<and> ep_new_tokens p \<le> n"
  using assms encoder_loop_bound [of cfg _ r computed _ 0 "mm_features r" "start_plan n _ _" p]
  by (auto simp: plan_encoder_def try_schedule_encoder_inputs_def start_plan_def split: if_splits)

lemma mamba_split_bound:
  assumes "mamba_block_aligned_split cfg r n a b = Inr n'" and "0 < c_cache_block_size cfg" "0 \<le> n"
  shows "0 \<le> n' \<and> n' \<le> n"
proof -
  let ?bs = "c_cache_block_size cfg"
  have "n div ?bs * ?bs \<le> n" "0 \<le> n div ?bs * ?bs"
    using assms(2,3) by (simp_all add: minus_mod_eq_div_mult [symmetric] pos_imp_zdiv_nonneg_iff zmod_le_nonneg_dividend)
  then show ?thesis using assms by (auto simp: mamba_block_aligned_split_def require_eq_Inr Let_def split: if_splits)
qed

text \<open>What the configuration must satisfy.\<close>

definition config_ok :: "'c sched_config \<Rightarrow> bool" where
  "config_ok cfg \<longleftrightarrow> 0 \<le> c_max_num_scheduled_tokens cfg \<and> 0 < c_cache_block_size cfg"

lemma running_plan_bound:
  assumes "running_plan cfg r s l = Inr (plan, n)" and "config_ok cfg" "0 < token_budget l"
    and "has_room cfg r"
  shows "0 \<le> n \<and> n \<le> token_budget l"
proof -
  let ?n0 = "running_new_tokens cfg r (token_budget l)"
  have n0: "0 \<le> ?n0" "?n0 \<le> token_budget l"
    using assms(3,4) by (auto simp: running_new_tokens_def Let_def has_room_def num_tokens_def num_tokens_with_spec_def)
  have p: "plan_encoder cfg r (num_computed_tokens r) ?n0 s l = Inr plan"
    and m: "(if c_mamba_block_aligned_split cfg then mamba_block_aligned_split cfg r (ep_new_tokens plan) 0 0
        else Inr (ep_new_tokens plan)) = Inr n"
    using assms(1) by (auto simp: running_plan_def res_bind_eq_Inr)
  note b = plan_encoder_bound [OF p n0(1)]
  have "0 \<le> n \<and> n \<le> ep_new_tokens plan"
  proof (cases "c_mamba_block_aligned_split cfg")
    case True
    then have "mamba_block_aligned_split cfg r (ep_new_tokens plan) 0 0 = Inr n" using m by simp
    from mamba_split_bound [OF this] show ?thesis using assms(2) b by (simp add: config_ok_def)
  qed (use m b in simp)
  then show ?thesis using b n0 by simp
qed

lemma schedule_running_keeps:
  assumes "schedule_running cfg rid n plan s l = Inr (go, s', l')" and st: "step_state cfg full B X s l"
    and pos: "run_pos s l" and sk: "seeks cfg rid s l" and n: "full \<longrightarrow> 0 < n \<and> n \<le> token_budget l"
  shows "step_state cfg full B X s' l' \<and> run_pos s' l'"
proof -
  obtain kb s1 l1 where a: "alloc_or_preempt cfg rid n s l = Inr (kb, s1, l1)"
    and rest: "(case kb of None \<Rightarrow> Inr (False, s1, l1)
       | Some kb \<Rightarrow> res_bind (place_running cfg rid n kb plan s1 l1) (\<lambda>(s2, l2). Inr (True, s2, l2)))
      = Inr (go, s', l')"
    using assms(1) by (auto simp: schedule_running_def res_bind_eq_Inr)
  note k = alloc_or_preempt_keeps [OF a st pos sk]
  show ?thesis
  proof (cases kb)
    case None
    then show ?thesis using rest k by simp
  next
    case (Some b)
    then have p: "place_running cfg rid n b plan s1 l1 = Inr (s', l')" using rest by (auto simp: res_bind_eq_Inr)
    have "full \<longrightarrow> 0 < n \<and> n \<le> token_budget l1" using k n by auto
    then show ?thesis using k Some n by (intro place_running_keeps [OF p]) simp_all
  qed
qed

lemma run_one_keeps:
  assumes "run_one cfg s l = Inr (go, s', l')" and st: "step_state cfg full B X s l"
    and pos: "run_pos s l" and cfg: "full \<longrightarrow> config_ok cfg" and i: "req_index l < int (length (running s))"
    and b: "0 < token_budget l"
  shows "step_state cfg full B X s' l' \<and> run_pos s' l'"
  using assms(1)
proof (cases rule: run_one_cases)
  case (skip rid m)
  have "set (take (nat (req_index l)) (running s)) \<subseteq> set (take (nat (req_index l + 1)) (running s))"
    using pos by (intro set_take_subset_set_take) (simp add: run_pos_def)
  then have "run_pos s' l'" using pos by (auto simp: run_pos_def skip(3,4))
  moreover have "step_state cfg full B X s' l" by (rule step_state_same [OF st]) (simp_all add: skip(3))
  then have "step_state cfg full B X s' l'"
    by (simp add: step_state_def books_defs skip(4) scheduled_def total_scheduled_def)
  ultimately show ?thesis by simp
next
  case (run rid plan n)
  let ?s1 = "s\<lparr>enc_manager := ep_manager plan\<rparr>"
  have i0: "0 \<le> req_index l" and sub: "set (running_reqs l) \<subseteq> set (take (nat (req_index l)) (running s))"
    using pos by (simp_all add: run_pos_def)
  have at: "running s ! nat (req_index l) = rid" and il: "nat (req_index l) < length (running s)"
    using run(1) i i0 by (simp_all add: py_get_nonneg)
  have dist: "distinct (running s)" using st by (simp add: step_state_def queues_ok_def)
  have mem: "rid \<in> set (running s)" using at il by (metis nth_mem)
  have "rid \<notin> set (take (nat (req_index l)) (running s))"
    using dist at il by (metis id_take_nth_drop distinct_append disjoint_insert(1) list.set(2))
  then have sk: "seeks cfg rid ?s1 l" using sub at il by (auto simp: seeks_def take_Suc_conv_app_nth)
  have "full \<longrightarrow> has_room cfg (objects s rid)" using st mem by (simp add: step_state_def within_length_def)
  then have nb: "full \<longrightarrow> 0 \<le> n \<and> n \<le> token_budget l" using running_plan_bound [OF run(2) _ b] cfg by blast
  have st1: "step_state cfg full B X ?s1 l" by (rule step_state_same [OF st]) simp_all
  have pos1: "run_pos ?s1 l" using pos by (simp add: run_pos_def)
  have "full \<longrightarrow> 0 < n \<and> n \<le> token_budget l" using nb run(3) by auto
  then show ?thesis by (rule schedule_running_keeps [OF run(4) st1 pos1 sk])
qed

lemma run_loop_keeps:
  assumes "run_loop cfg s l = Inr (s', l')" and "step_state cfg full B X s l" and "run_pos s l" and "full \<longrightarrow> config_ok cfg"
  shows "step_state cfg full B X s' l' \<and> run_pos s' l'"
  using assms
proof (induction cfg s l arbitrary: s' l' rule: run_loop.induct)
  case (1 cfg s l)
  show ?case
  proof (cases "req_index l < int (length (running s)) \<and> token_budget l > 0")
    case True
    then obtain go s1 l1 where o: "run_one cfg s l = Inr (go, s1, l1)"
      and rest: "(if go then run_loop cfg s1 l1 else Inr (s1, l1)) = Inr (s', l')"
      using 1(2) by (subst (asm) run_loop.simps) (auto simp: res_bind_eq_Inr)
    have k: "step_state cfg full B X s1 l1 \<and> run_pos s1 l1"
      using True 1(3-5) by (intro run_one_keeps [OF o]) simp_all
    show ?thesis
    proof (cases go)
      case go: True
      show ?thesis using 1(1) [OF True o refl refl go] rest go k 1(5) by simp
    qed (use rest k in simp)
  next
    case False
    then have "s' = s" "l' = l" using 1(2) by (subst (asm) run_loop.simps, simp split: if_splits)+
    then show ?thesis using 1(3,4) by simp
  qed
qed

end
