(* ===== verification/Sched_Limits.thy ===== *)
theory Sched_Limits
  imports Sched_Invariant KV_Runs
begin

text \<open>
  The admission of waiting requests keeps the queues and the accounting of the step, so that the
  closing assertions of \<open>schedule\<close> hold and its output is consistent.
\<close>

section \<open>Moving requests between the queues\<close>

text \<open>Only whether a request runs and whether it has finished matters for the queues.\<close>

definition same_kinds :: "'c scheduler \<Rightarrow> 'c scheduler \<Rightarrow> bool" where
  "same_kinds s s' \<longleftrightarrow>
     running s' = running s \<and> waiting s' = waiting s \<and> skipped_waiting s' = skipped_waiting s \<and>
     requests s' = requests s \<and> num_waiting_for_streaming_input s' = num_waiting_for_streaming_input s \<and>
     (\<forall>rid. (status (objects s' rid) = WAITING_FOR_STREAMING_REQ)
               = (status (objects s rid) = WAITING_FOR_STREAMING_REQ) \<and>
            (status (objects s' rid) = RUNNING) = (status (objects s rid) = RUNNING) \<and>
            is_finished (objects s' rid) = is_finished (objects s rid) \<and>
            request_id (objects s' rid) = request_id (objects s rid))"

lemma same_queues_kinds: "same_queues s s' \<Longrightarrow> same_kinds s s'"
  by (simp add: same_queues_def same_kinds_def is_finished_def)

lemma queues_ok_kinds:
  assumes "same_kinds s s'"
  shows "queues_ok X s' = queues_ok X s"
proof -
  have "run_set s' = run_set s" "wait_set s' = wait_set s" "waiting_ids X s' = waiting_ids X s"
    "requests s' = requests s" "running s' = running s" "named (objects s') = named (objects s)"
    "stream_set s' = stream_set s" "num_waiting_for_streaming_input s' = num_waiting_for_streaming_input s"
    using assms by (auto simp: same_kinds_def stream_set_def run_set_def wait_set_def waiting_ids_def named_def)
  then show ?thesis by (simp only: queues_ok_def)
qed

lemma queues_ok_mset:
  assumes "mset (waiting_ids X s') = mset (waiting_ids Y s)" and "running s' = running s"
    and "requests s' = requests s" "objects s' = objects s"
    and "num_waiting_for_streaming_input s' = num_waiting_for_streaming_input s"
  shows "queues_ok X s' = queues_ok Y s"
proof -
  have "distinct (waiting_ids X s') = distinct (waiting_ids Y s)" "set (waiting_ids X s') = set (waiting_ids Y s)"
    using mset_distinct_set [OF assms(1)] by auto
  moreover have "run_set s' = run_set s" "wait_set s' = wait_set s" "stream_set s' = stream_set s"
    using assms(3,4) by (simp_all add: run_set_def wait_set_def stream_set_def)
  ultimately show ?thesis using assms(2-5) by (simp only: queues_ok_def)
qed

lemma queues_ok_head: "queues_ok (rid # X) s \<Longrightarrow> rid \<in> wait_set s"
  unfolding queues_ok_def waiting_ids_def by auto

lemma mset_waiting_pop:
  assumes "rq_pop objs (queue_of q s) = Inr (rid, v)"
  shows "mset (waiting_ids (rid # X) (set_queue q v s)) = mset (waiting_ids X s)"
  using mset_rq_pop [OF assms] by (cases q) (simp_all add: waiting_ids_def set_queue_def queue_of_def)

lemma set_queue_simps [simp]:
  "running (set_queue q v s) = running s" "requests (set_queue q v s) = requests s"
  "objects (set_queue q v s) = objects s" "kvm (set_queue q v s) = kvm s"
  "enc_manager (set_queue q v s) = enc_manager s"
  "num_waiting_for_streaming_input (set_queue q v s) = num_waiting_for_streaming_input s"
  by (cases q; simp add: set_queue_def)+

lemma pop_queues:
  assumes "rq_pop objs (queue_of q s) = Inr (rid, v)" and "queues_ok X s"
  shows "queues_ok (rid # X) (set_queue q v s)"
  using assms(2) queues_ok_mset [OF mset_waiting_pop [OF assms(1)], of X] by simp

lemma prepend_queues:
  "queues_ok (rid # rq_items q) s \<Longrightarrow> queues_ok (rq_items (rq_prepend objs rid q)) s"
  by (subst queues_ok_mset [of _ s "rid # rq_items q" s]) (simp_all add: waiting_ids_def mset_rq_prepend)

lemma skip_request_keeps:
  assumes "skip_request q rid s l = Inr (s', l')" and peek: "rq_peek (queue_of q s) = Inr rid"
    and ok: "queues_ok (rq_items (step_skipped l)) s"
  shows "queues_ok (rq_items (step_skipped l')) s' \<and> running s' = running s \<and>
    (\<exists>k. l' = l\<lparr>step_skipped := k\<rparr>)"
proof -
  obtain x v where p: "rq_pop (objects s) (queue_of q s) = Inr (x, v)" and s': "s' = set_queue q v s"
    and l': "l' = l\<lparr>step_skipped := rq_prepend (objects s) rid (step_skipped l)\<rparr>"
    using assms(1) by (auto simp: skip_request_def res_bind_eq_Inr)
  have "x = rid" by (rule rq_peek_pop [OF peek p])
  then show ?thesis using pop_queues [OF p ok] prepend_queues s' l' by auto
qed

lemma promoted_status:
  assumes "try_promote_blocked_waiting_request cfg rid s = Inr (b, s')"
  shows "same_kinds s s'"
  using assms
proof (cases rule: try_promote_cases)
  case (remote s1)
  from update_remote_frame [OF remote(3)] obtain r k xs ys where
    s1: "s1 = (set_obj rid r (s\<lparr>kvm := k, failed_recving_kv_req_ids := xs\<rparr>))\<lparr>finished_recving_kv_req_ids := ys\<rparr>"
    and r: "request_id r = request_id (objects s rid)" by blast
  show ?thesis
    using remote(1) r by (auto simp: same_kinds_def remote(4) s1 is_finished_def is_finished_status_iff)
next
  case grammar
  then show ?thesis by (auto simp: same_kinds_def is_finished_def is_finished_status_iff)
qed (simp add: same_kinds_def)

lemma promoted_ready:
  assumes "try_promote_blocked_waiting_request cfg rid s = Inr (True, s')"
  shows "status (objects s' rid) \<noteq> WAITING_FOR_STREAMING_REQ"
  using assms by (cases rule: try_promote_cases) simp_all

lemma external_tokens_same:
  assumes "external_tokens cfg rid local s = (e, s')"
  shows "same_queues s s'"
proof (cases "c_kv_connector cfg")
  case True
  obtain ext async w where k: "kv_matched_tokens (c_env cfg) (env_state s) (objects s rid) local = ((ext, async), w)"
    by (metis surj_pair)
  show ?thesis using assms True k by (auto simp: external_tokens_def split: option.splits)
qed (use assms in \<open>simp add: external_tokens_def\<close>)

lemma find_computed_same:
  assumes "find_computed cfg rid s = Inr (c, s')"
  shows "same_queues s s'"
  using find_computed_external [OF assms]
proof
  assume "\<exists>k local e. external_tokens cfg rid local (s\<lparr>kvm := k\<rparr>) = (e, s')"
  then obtain k local e where "external_tokens cfg rid local (s\<lparr>kvm := k\<rparr>) = (e, s')" by blast
  from external_tokens_same [OF this] show ?thesis by (rule same_queues_trans [rotated]) simp
qed simp

section \<open>Admission\<close>

text \<open>
  The state of the waiting phase. The queues and the keys of the books are kept in any case, the sums
  and the limit of running requests when they held before (\<open>full\<close>).
\<close>

definition wait_state :: "'c sched_config \<Rightarrow> bool \<Rightarrow> int \<Rightarrow> 'c scheduler \<Rightarrow> sched_locals \<Rightarrow> bool" where
  "wait_state cfg full B s l \<longleftrightarrow> queues_ok (rq_items (step_skipped l)) s \<and>
     step_books full B s l \<and> (full \<longrightarrow> int (length (running s)) \<le> c_max_num_running_reqs cfg)"

lemma wait_state_same:
  assumes "wait_state cfg full B s l" and "same_kinds s s'"
  shows "wait_state cfg full B s' l"
proof -
  have "running s' = running s" using assms(2) by (simp add: same_kinds_def)
  then show ?thesis using assms(1) queues_ok_kinds [OF assms(2)] by (simp add: wait_state_def books_defs)
qed

lemma books_skipped: "step_books full B s (l\<lparr>step_skipped := k\<rparr>) = step_books full B s l"
  by (simp add: books_defs scheduled_def total_scheduled_def)

lemma skip_keeps_wait:
  assumes "skip_request q rid s l = Inr (s', l')" and "rq_peek (queue_of q s) = Inr rid"
    and "wait_state cfg full B s l"
  shows "wait_state cfg full B s' l'"
proof -
  have ok: "queues_ok (rq_items (step_skipped l)) s" "step_books full B s l"
    "full \<longrightarrow> int (length (running s)) \<le> c_max_num_running_reqs cfg" using assms(3) by (simp_all add: wait_state_def)
  obtain k where k: "queues_ok (rq_items (step_skipped l')) s'" "running s' = running s" "l' = l\<lparr>step_skipped := k\<rparr>"
    using skip_request_keeps [OF assms(1,2) ok(1)] by blast
  have "step_books full B s' l'" using ok(2) books_cong(1) [OF k(2), of full B l] by (simp add: k(3) books_skipped)
  then show ?thesis using ok k by (simp add: wait_state_def)
qed

lemma start_async_keeps:
  assumes "queues_ok (rid # rq_items (step_skipped l)) s" and "step_books full B s l"
    and "full \<longrightarrow> int (length (running s)) \<le> c_max_num_running_reqs cfg"
    and a: "start_async_load rid cand s l = (s', l')"
    and st: "status (objects s rid) \<noteq> WAITING_FOR_STREAMING_REQ"
  shows "wait_state cfg full B s' l'"
proof -
  have mem: "rid \<in> wait_set s" using assms(1) by (rule queues_ok_head)
  have s': "s' = upd_obj rid (\<lambda>r. r\<lparr>status := WAITING_FOR_REMOTE_KVS, num_computed_tokens := cand_computed cand\<rparr>) s"
    and l': "l' = l\<lparr>step_skipped := rq_prepend (objects s') rid (step_skipped l)\<rparr>"
    using a by (auto simp: start_async_load_def Let_def)
  have "same_kinds s s'"
    using mem st by (auto simp: s' same_kinds_def wait_set_def is_finished_def is_finished_status_iff)
  then have "queues_ok (rid # rq_items (step_skipped l)) s'" using assms(1) queues_ok_kinds by blast
  then have "queues_ok (rq_items (step_skipped l')) s'" by (simp add: l' prepend_queues)
  moreover have "step_books full B s' l'" using assms(2) by (simp add: l' books_skipped) (simp add: s' books_defs)
  ultimately show ?thesis using assms(3) by (simp add: wait_state_def s')
qed

lemma run_queues:
  assumes ok: "queues_ok (rid # X) s"
    and s': "running s' = running s @ [rid]" "waiting s' = waiting s" "skipped_waiting s' = skipped_waiting s"
      "requests s' = requests s" "\<And>x. status (objects s' x) = (if x = rid then RUNNING else status (objects s x))"
      "\<And>x. request_id (objects s' x) = request_id (objects s x)"
      "num_waiting_for_streaming_input s' = num_waiting_for_streaming_input s"
    and st: "status (objects s rid) \<noteq> WAITING_FOR_STREAMING_REQ"
  shows "queues_ok X s'"
proof -
  have d: "distinct (requests s)" "distinct (running s)" "set (running s) = run_set s"
    "distinct (waiting_ids (rid # X) s)" "set (waiting_ids (rid # X) s) = wait_set s"
    using ok by (simp_all add: queues_ok_def)
  have mem: "rid \<in> wait_set s" using ok by (rule queues_ok_head)
  have fin: "\<not> is_finished_status RUNNING" by (simp add: is_finished_status_iff)
  have rs: "run_set s' = insert rid (run_set s)"
    using mem s' by (auto simp: run_set_def wait_set_def)
  have ws: "wait_set s' = wait_set s - {rid}"
    using s' fin by (auto simp: wait_set_def is_finished_def)
  have "rid \<notin> run_set s" using mem by (simp add: run_set_def wait_set_def)
  moreover have "mset (waiting_ids (rid # X) s) = add_mset rid (mset (waiting_ids X s'))"
    using s' by (simp add: waiting_ids_def)
  then have "mset (waiting_ids (rid # X) s) = mset (rid # waiting_ids X s')" by simp
  from mset_distinct_set [OF this] have "distinct (waiting_ids X s')" "set (waiting_ids X s') = wait_set s - {rid}"
    using d by auto
  moreover have "named (objects s')" using ok s'(6) by (simp add: queues_ok_def named_def)
  moreover have "stream_set s' = stream_set s" using s'(4,5) st by (auto simp: stream_set_def)
  then have "num_waiting_for_streaming_input s' = int (card (stream_set s'))"
    using ok s'(7) by (simp add: queues_ok_def)
  ultimately show ?thesis using d s' rs ws by (simp add: queues_ok_def)
qed

lemma place_waiting_keeps:
  assumes p: "place_waiting cfg rid cand n plan s l = Inr (s', l')"
    and ok: "queues_ok (rid # rq_items (step_skipped l)) s"
    and books: "step_books full B s l" "full \<longrightarrow> int (length (running s)) < c_max_num_running_reqs cfg \<and>
      0 < n \<and> n \<le> token_budget l"
  shows "wait_state cfg full B s' l'"
proof -
  obtain l1 where l1: "(case status (objects s rid) of
           WAITING \<Rightarrow> Inr (l\<lparr>new_reqs := new_reqs l @ [rid]\<rparr>)
         | PREEMPTED \<Rightarrow> Inr (l\<lparr>resumed_reqs := resumed_reqs l @ [rid]\<rparr>)
         | _ \<Rightarrow> Inl RuntimeError) = Inr l1"
    using p by (auto simp: place_waiting_def Let_def res_bind_eq_Inr)
  let ?kb = "kvm_get_blocks rid (kvm s)"
  obtain L where e: "note_encoder_inputs cfg rid plan
      (upd_obj rid (\<lambda>r. r\<lparr>status := RUNNING, num_computed_tokens := cand_computed cand,
                      num_cached_tokens := (if num_cached_tokens r < 0 then cand_computed cand
                                            else num_cached_tokens r)\<rparr>) (s\<lparr>running := running s @ [rid]\<rparr>))
      (l1\<lparr>loras := L, req_blocks := AList.update rid ?kb (req_blocks l1),
                       sched_tokens := AList.update rid n (sched_tokens l1),
                       token_budget := token_budget l1 - n\<rparr>) = Inr (s', l')"
    (is "note_encoder_inputs cfg rid plan ?s2 ?l3 = _")
    using p l1 by (cases "c_max_loras cfg"; cases "lora_request (objects s rid)")
      (auto simp: place_waiting_def Let_def dest: meta_spec [of _ "loras l1"])
  obtain m w es b where s': "s' = ?s2\<lparr>enc_manager := m, env_state := w\<rparr>"
    and l': "l' = ?l3\<lparr>sched_encoder := es, encoder_budget := b\<rparr>" using note_encoder_frame [OF e] by blast
  have "status (objects s rid) \<noteq> WAITING_FOR_STREAMING_REQ" using l1 by auto
  then have q: "queues_ok (rq_items (step_skipped l)) s'" by (intro run_queues [OF ok]) (simp_all add: s')
  have l1': "mset (scheduled l1) = add_mset rid (mset (scheduled l))" "step_skipped l1 = step_skipped l"
    "sched_tokens l1 = sched_tokens l" "req_blocks l1 = req_blocks l" "token_budget l1 = token_budget l"
    using l1 by (auto simp: scheduled_def split: request_status.splits)
  have mem: "rid \<in> wait_set s" using ok by (rule queues_ok_head)
  have "set (running s) = run_set s" using ok by (simp add: queues_ok_def)
  then have "rid \<notin> set (running s)" using mem by (simp add: wait_set_def run_set_def)
  then have fresh: "rid \<notin> set (scheduled l)" using books(1) by (auto simp: books_defs)
  have b1: "step_books full B s' l" using books(1) by (auto simp: books_defs s')
  have "step_books full B s' l'"
  proof (rule books_add [OF b1 _ fresh])
    show "rid \<in> set (running s')" by (simp add: s')
    show "mset (scheduled l') = add_mset rid (mset (scheduled l))" using l1'(1) by (simp add: l' scheduled_def)
    show "full \<longrightarrow> 0 < n \<and> n \<le> token_budget l" using books(2) by simp
  qed (simp_all add: l' l1')
  moreover have "full \<longrightarrow> int (length (running s')) \<le> c_max_num_running_reqs cfg" using books(2) by (auto simp: s')
  ultimately show ?thesis using q by (simp add: wait_state_def l' l1'(2))
qed

lemma admit_waiting_keeps:
  assumes a: "admit_waiting cfg q rid cand n plan s l = Inr (go, s', l')"
    and peek: "rq_peek (queue_of q s) = Inr rid" and st: "wait_state cfg full B s l"
    and room: "full \<longrightarrow> int (length (running s)) < c_max_num_running_reqs cfg"
    and n: "full \<Longrightarrow> \<not> cand_async cand \<Longrightarrow> 0 < n \<and> n \<le> token_budget l"
    and ready: "status (objects s rid) \<noteq> WAITING_FOR_STREAMING_REQ"
  shows "wait_state cfg full B s' l'"
  using a
proof (cases rule: admit_waiting_cases)
  case (full enc r k m)
  have "same_queues s s'"
    using memo_only_status [OF allocate_slots_memo [OF full(2)]] by (simp add: full(4))
  then show ?thesis using wait_state_same [OF st same_queues_kinds] by (simp add: full(5))
next
  case (load enc kb r k popped v)
  let ?t = "tell_connector cfg rid cand (set_obj rid r (s\<lparr>kvm := k\<rparr>))"
  have same: "same_queues s ?t"
    using memo_only_status [OF allocate_slots_memo [OF load(2)]] by (simp add: tell_connector_def Let_def)
  have st1: "wait_state cfg full B ?t l" by (rule wait_state_same [OF st same_queues_kinds [OF same]])
  have qt: "queue_of q ?t = queue_of q s" using same by (cases q) (simp_all add: queue_of_def same_queues_def)
  have pop: "rq_pop (objects (set_obj rid r s)) (queue_of q ?t) = Inr (popped, v)" using load(3) by (simp only: qt)
  have "queues_ok (popped # rq_items (step_skipped l)) (set_queue q v ?t)"
    using st1 by (intro pop_queues [OF pop]) (simp add: wait_state_def)
  moreover have "step_books full B (set_queue q v ?t) l"
    using st1 by (simp add: wait_state_def books_defs)
  moreover have "full \<longrightarrow> int (length (running (set_queue q v ?t))) \<le> c_max_num_running_reqs cfg"
    using room by auto
  moreover have "popped = rid" using rq_peek_pop [OF peek load(3)] .
  then have "status (objects (set_queue q v ?t) popped) \<noteq> WAITING_FOR_STREAMING_REQ"
    using same ready by (simp add: same_queues_def)
  ultimately show ?thesis using start_async_keeps [OF _ _ _ load(6) [symmetric]] by blast
next
  case (place enc kb r k popped v)
  let ?t = "tell_connector cfg rid cand (set_obj rid r (s\<lparr>kvm := k\<rparr>))"
  have same: "same_queues s ?t"
    using memo_only_status [OF allocate_slots_memo [OF place(2)]] by (simp add: tell_connector_def Let_def)
  have st1: "wait_state cfg full B ?t l" by (rule wait_state_same [OF st same_queues_kinds [OF same]])
  have qt: "queue_of q ?t = queue_of q s" using same by (cases q) (simp_all add: queue_of_def same_queues_def)
  have pop: "rq_pop (objects (set_obj rid r s)) (queue_of q ?t) = Inr (popped, v)" using place(3) by (simp only: qt)
  have "queues_ok (popped # rq_items (step_skipped l)) (set_queue q v ?t)"
    using st1 by (intro pop_queues [OF pop]) (simp add: wait_state_def)
  moreover have "step_books full B (set_queue q v ?t) l"
    using st1 by (simp add: wait_state_def books_defs)
  ultimately show ?thesis using room n place(4) by (intro place_waiting_keeps [OF place(6)]) simp_all
qed

lemma waiting_plan_bound:
  assumes "waiting_plan cfg r cand s l = Inr (True, plan)" and "\<not> cand_async cand"
  shows "0 < ep_new_tokens plan \<and> ep_new_tokens plan \<le> token_budget l"
proof -
  let ?n1 = "min (waiting_new_tokens cfg r (cand_computed cand)) (token_budget l)"
  have p: "plan_encoder cfg r (cand_computed cand) ?n1 s l = Inr plan" and n1: "0 < ?n1"
    and go: "\<not> (has_encoder_inputs r \<and> ep_new_tokens plan = 0)"
    using assms unfolding waiting_plan_def Let_def
    by (auto simp: res_bind_eq_Inr require_eq_Inr split: if_splits)
  have "ep_new_tokens plan \<noteq> 0"
    using go p n1 by (cases "has_encoder_inputs r") (auto simp: plan_encoder_def start_plan_def)
  then show ?thesis using plan_encoder_bound [OF p] n1 by simp
qed

lemma waiting_align_bound:
  assumes "waiting_align cfg r cand n = Inr (True, n')" and "config_ok cfg" "0 < n"
  shows "0 < n' \<and> n' \<le> n"
proof (cases "c_mamba_block_aligned_split cfg")
  case True
  then have "mamba_block_aligned_split cfg r n (cand_local cand) (cand_external cand) = Inr n'" "n' \<noteq> 0"
    using assms(1) by (auto simp: waiting_align_def res_bind_eq_Inr)
  then show ?thesis using mamba_split_bound assms(2,3) by (fastforce simp: config_ok_def)
qed (use assms in \<open>simp add: waiting_align_def\<close>)

lemma try_candidate_keeps:
  assumes t: "try_candidate cfg q rid s l = Inr (go, s', l')"
    and peek: "rq_peek (queue_of q s) = Inr rid" and st: "wait_state cfg full B s l"
    and room: "full \<longrightarrow> int (length (running s)) < c_max_num_running_reqs cfg" and cfg: "full \<longrightarrow> config_ok cfg"
    and ready: "status (objects s rid) \<noteq> WAITING_FOR_STREAMING_REQ"
  shows "wait_state cfg full B s' l'"
  using t
proof (cases rule: try_candidate_cases)
  case (unknown s1)
  note same = find_computed_same [OF unknown(1)]
  have "queue_of q s1 = queue_of q s" using same by (cases q) (simp_all add: queue_of_def same_queues_def)
  then show ?thesis using skip_keeps_wait [OF unknown(3)] peek wait_state_same [OF st same_queues_kinds [OF same]]
    by simp
next
  case (no_room cand s1 m)
  have "same_queues s s'" using find_computed_same [OF no_room(1)] by (simp add: no_room(3))
  then show ?thesis using wait_state_same [OF st same_queues_kinds] no_room(4) by simp
next
  case (admit cand s1 plan n)
  let ?s2 = "s1\<lparr>enc_manager := ep_manager plan\<rparr>"
  have same: "same_queues s ?s2" using find_computed_same [OF admit(1)] by simp
  have qs: "queue_of q ?s2 = queue_of q s" "running ?s2 = running s"
    using same by (cases q; simp add: queue_of_def same_queues_def)+
  have "0 < n \<and> n \<le> token_budget l" if full "\<not> cand_async cand"
    using waiting_plan_bound [OF admit(2) that(2)] waiting_align_bound [OF admit(3)] cfg that(1) by auto
  moreover have "status (objects ?s2 rid) \<noteq> WAITING_FOR_STREAMING_REQ" using same ready by (simp add: same_queues_def)
  ultimately show ?thesis
    using peek room qs wait_state_same [OF st same_queues_kinds [OF same]]
    by (intro admit_waiting_keeps [OF admit(4)]) simp_all
qed

lemma wait_one_keeps:
  assumes w: "wait_one cfg s l = Inr (go, s', l')" and st: "wait_state cfg full B s l" and cfg: "full \<longrightarrow> config_ok cfg"
  shows "wait_state cfg full B s' l'"
  using w
proof (cases rule: wait_one_cases)
  case full
  then show ?thesis using st by simp
next
  case (skip q rid b s1)
  have same: "same_kinds s s1" using skip(4) promoted_status same_queues_kinds [OF same_queues_refl] by blast
  have "queue_of q s1 = queue_of q s" using same by (cases q) (simp_all add: queue_of_def same_kinds_def)
  then show ?thesis using skip_keeps_wait [OF skip(6)] skip(3) wait_state_same [OF st same] by simp
next
  case (candidate q rid s1)
  have same: "same_kinds s s1"
    using candidate(4) promoted_status same_queues_kinds [OF same_queues_refl] by (auto split: if_splits)
  have qs: "queue_of q s1 = queue_of q s" "running s1 = running s"
    using same by (cases q; simp add: queue_of_def same_kinds_def)+
  have "full \<longrightarrow> int (length (running s1)) < c_max_num_running_reqs cfg"
    using st candidate(1) qs(2) unfolding wait_state_def by auto
  moreover have "status (objects s1 rid) \<noteq> WAITING_FOR_STREAMING_REQ"
    using candidate(4) promoted_ready by (auto simp: is_blocked_waiting_status_def split: if_splits)
  ultimately show ?thesis using try_candidate_keeps [OF candidate(6)] candidate(3) qs(1) cfg
      wait_state_same [OF st same] by simp
qed

lemma wait_loop_keeps:
  assumes "wait_loop cfg s l = Inr (s', l')" and "wait_state cfg full B s l" and "full \<longrightarrow> config_ok cfg"
  shows "wait_state cfg full B s' l'"
  using assms
proof (induction cfg s l arbitrary: s' l' rule: wait_loop.induct)
  case (1 cfg s l)
  show ?case
  proof (cases "(rq_bool (waiting s) \<or> rq_bool (skipped_waiting s)) \<and> token_budget l > 0")
    case True
    then obtain go s1 l1 where o: "wait_one cfg s l = Inr (go, s1, l1)"
      and rest: "(if go then wait_loop cfg s1 l1 else Inr (s1, l1)) = Inr (s', l')"
      using 1(2) by (subst (asm) wait_loop.simps) (auto simp: res_bind_eq_Inr)
    have k: "wait_state cfg full B s1 l1" using 1(3,4) by (intro wait_one_keeps [OF o])
    show ?thesis
    proof (cases go)
      case go: True
      show ?thesis using 1(1) [OF True o refl refl go] rest go k 1(4) by simp
    qed (use rest k in simp)
  next
    case False
    then have "s' = s" "l' = l" using 1(2) by (subst (asm) wait_loop.simps, simp only: if_False sum.inject prod.inject)+
    then show ?thesis using 1(3) by simp
  qed
qed

section \<open>The whole step\<close>

definition step_budget :: "'c sched_config \<Rightarrow> 'c scheduler \<Rightarrow> int" where
  "step_budget cfg s = (if sched_pause_state s = PAUSED_ALL then 0 else c_max_num_scheduled_tokens cfg)"

lemma books_loras: "step_books full B s (l\<lparr>loras := k\<rparr>) = step_books full B s l"
  by (simp add: books_defs scheduled_def total_scheduled_def)

lemma waiting_phase_keeps:
  assumes w: "waiting_phase cfg s l = Inr (s', l')" and q: "queues_ok [] s"
    and b: "step_books full B s l" "full \<longrightarrow> int (length (running s)) \<le> c_max_num_running_reqs cfg"
    and cfg: "full \<longrightarrow> config_ok cfg"
  shows "queues_ok [] s' \<and> step_books full B s' l' \<and>
    (full \<longrightarrow> int (length (running s')) \<le> c_max_num_running_reqs cfg)"
proof (cases "preempted_reqs l = [] \<and> sched_pause_state s = UNPAUSED")
  case True
  let ?l0 = "l\<lparr>step_skipped := create_request_queue (c_policy cfg)\<rparr>"
  obtain s1 where o: "wait_loop cfg s ?l0 = Inr (s1, l')"
    and s': "s' = (if rq_bool (step_skipped l') then
      s1\<lparr>skipped_waiting := rq_prepend_all (objects s1) (step_skipped l') (skipped_waiting s1)\<rparr> else s1)"
    using w True by (auto simp: waiting_phase_def res_bind_eq_Inr)
  have "rq_items (create_request_queue (c_policy cfg)) = []" by (cases "c_policy cfg") simp_all
  then have "wait_state cfg full B s ?l0" using q b by (simp add: wait_state_def books_skipped)
  from wait_loop_keeps [OF o this cfg] have
    k: "queues_ok (rq_items (step_skipped l')) s1" "step_books full B s1 l'"
      "full \<longrightarrow> int (length (running s1)) \<le> c_max_num_running_reqs cfg" by (simp_all add: wait_state_def)
  have r: "running s' = running s1" by (simp add: s')
  have "mset (waiting_ids [] s') = mset (waiting_ids (rq_items (step_skipped l')) s1)"
    by (auto simp: s' waiting_ids_def mset_rq_prepend_all rq_bool_def)
  then have "queues_ok [] s' = queues_ok (rq_items (step_skipped l')) s1"
    by (rule queues_ok_mset) (simp_all add: s')
  then show ?thesis using k r books_cong(1) [OF r] by simp
next
  case False
  then have "s' = s" "l' = l" using w by (simp_all only: waiting_phase_def if_False sum.inject prod.inject)
  then show ?thesis using q b by simp
qed

lemma phases_cases:
  assumes "schedule_phases cfg s = Inr (s', l')"
  obtains s1 l1 k where "run_loop cfg (s\<lparr>kvm := kvm_new_step_starts (kvm s)\<rparr>) (init_locals cfg s) = Inr (s1, l1)"
    "waiting_phase cfg s1 (l1\<lparr>loras := k\<rparr>) = Inr (s', l')"
proof -
  obtain s1 l1 l2 where r: "run_loop cfg (s\<lparr>kvm := kvm_new_step_starts (kvm s)\<rparr>) (init_locals cfg s) = Inr (s1, l1)"
    and lo: "running_loras cfg s1 l1 = Inr l2" and wp: "waiting_phase cfg s1 l2 = Inr (s', l')"
    using assms by (auto simp: schedule_phases_def res_bind_eq_Inr)
  obtain k where "l2 = l1\<lparr>loras := k\<rparr>"
    using lo by (auto simp: running_loras_def Let_def require_eq_Inr split: option.splits)
  then show thesis using that r wp by blast
qed

lemma phases_keep:
  assumes p: "schedule_phases cfg s = Inr (s', l')" and q: "queues_ok [] s"
    and w: "full \<longrightarrow> within_length cfg s \<and> int (length (running s)) \<le> c_max_num_running_reqs cfg \<and> config_ok cfg"
  shows "queues_ok [] s' \<and> step_books full (step_budget cfg s) s' l'
    \<and> (full \<longrightarrow> int (length (running s')) \<le> c_max_num_running_reqs cfg)"
  using p
proof (rule phases_cases)
  let ?s0 = "s\<lparr>kvm := kvm_new_step_starts (kvm s)\<rparr>"
  fix s1 l1 k
  assume r: "run_loop cfg ?s0 (init_locals cfg s) = Inr (s1, l1)"
    and wp: "waiting_phase cfg s1 (l1\<lparr>loras := k\<rparr>) = Inr (s', l')"
  have B: "token_budget (init_locals cfg s) = step_budget cfg s" by (simp add: init_locals_def step_budget_def)
  have b0: "step_books full (step_budget cfg s) ?s0 (init_locals cfg s)"
    using init_books [of full cfg s ?s0] w by (simp add: B config_ok_def)
  have "step_state cfg full (step_budget cfg s) [] ?s0 (init_locals cfg s)"
    using queues_ok_same [of s ?s0 "[]"] q w b0 by (simp add: step_state_def within_length_def)
  from run_loop_keeps [OF r this] w have
    st: "queues_ok [] s1" "step_books full (step_budget cfg s) s1 l1"
      "full \<longrightarrow> int (length (running s1)) \<le> c_max_num_running_reqs cfg"
    by (simp_all add: step_state_def run_pos_def init_locals_def)
  show ?thesis using waiting_phase_keeps [OF wp st(1), of full "step_budget cfg s"] st(2,3) w
    by (simp add: books_loras)
qed

lemma schedule_phases_keeps:
  assumes "schedule_phases cfg s = Inr (s', l')" and "queues_ok [] s" and "within_length cfg s"
    and "int (length (running s)) \<le> c_max_num_running_reqs cfg" and "config_ok cfg"
  shows "queues_ok [] s' \<and> step_books True (step_budget cfg s) s' l'
    \<and> int (length (running s')) \<le> c_max_num_running_reqs cfg"
  using phases_keep [OF assms(1,2), of True] assms(3-5) by simp

lemma books_constraints:
  assumes "step_books True (step_budget cfg s0) s l" and "int (length (running s)) \<le> c_max_num_running_reqs cfg"
    and "config_ok cfg"
  shows "constraints_ok cfg s l"
proof -
  have "card (set (scheduled l)) \<le> card (set (running s))"
    using assms(1) by (intro card_mono) (simp_all add: books_defs)
  then have "length (scheduled l) \<le> length (running s)"
    using assms(1) card_length [of "running s"] by (simp add: books_defs distinct_card)
  then show ?thesis
    using assms by (auto simp: constraints_ok_def books_defs step_budget_def scheduled_def config_ok_def
        split: if_splits)
qed

section \<open>The output of the step\<close>

lemma new_data_ids:
  assumes "make_new_request_data cfg s l news = Inr ds" and "named (objects s)"
  shows "map nrd_req_id ds = news"
proof -
  let ?f = "\<lambda>rid ds. case map_of (req_blocks l) rid of
           None \<Rightarrow> Inl KeyError
         | Some kb \<Rightarrow>
             Inr (ds @ [new_request_data_from (objects s rid)
                          (kv_block_ids (num_kv_cache_groups (kvm s)) False kb)
                          (if c_use_v2_model_runner cfg then Some (all_token_ids (objects s rid)) else None)])"
  have "fold_res ?f xs es = Inr ds \<Longrightarrow> map nrd_req_id ds = map nrd_req_id es @ xs" for xs es
  proof (induction xs arbitrary: es)
    case (Cons x xs)
    then obtain kb where "map_of (req_blocks l) x = Some kb" by (auto simp: res_bind_eq_Inr split: option.splits)
    then show ?case using Cons assms(2) by (simp add: new_request_data_from_def named_def)
  qed simp
  from this [of news "[]"] show ?thesis using assms(1) by (simp add: make_new_request_data_def)
qed

lemma cached_step_ids:
  assumes "cached_request_step cfg s l k (i, rid) d = Inr d'"
  shows "crd_req_ids d' = crd_req_ids d @ [rid]"
  using assms unfolding cached_request_step_def
  by (auto simp: Let_def res_bind_eq_Inr require_eq_Inr split: option.splits if_splits)

lemma cached_data_ids:
  assumes "make_cached_request_data cfg s l resumed = Inr d"
  shows "crd_req_ids d = running_reqs l @ resumed"
proof -
  have "fold_res (cached_request_step cfg s l k) (List.enumerate i xs) e = Inr d
      \<Longrightarrow> crd_req_ids d = crd_req_ids e @ xs" for k i xs e
  proof (induction xs arbitrary: i e)
    case (Cons x xs)
    then obtain e1 where "cached_request_step cfg s l k (i, x) e = Inr e1"
      "fold_res (cached_request_step cfg s l k) (List.enumerate (Suc i) xs) e1 = Inr d"
      by (auto simp: res_bind_eq_Inr)
    then show ?case using Cons.IH [of "Suc i" e1] cached_step_ids by fastforce
  qed simp
  from this [OF assms [unfolded make_cached_request_data_def]] show ?thesis by simp
qed

text \<open>The parts of the output that the rest of the step does not touch.\<close>

definition output_books :: "sched_locals \<Rightarrow> scheduler_output \<Rightarrow> bool" where
  "output_books l out \<longleftrightarrow>
     so_num_scheduled_tokens out = sched_tokens l \<and>
     so_total_num_scheduled_tokens out = total_scheduled l \<and>
     mset (map nrd_req_id (so_new_reqs out) @ crd_req_ids (so_cached_reqs out)) = mset (scheduled l)"

lemma make_output_keeps:
  assumes m: "make_output cfg s l = Inr (out, s')" and n: "named (objects s)"
  shows "same_queues s s' \<and> output_books l out"
proof -
  obtain common s1 where c: "common_prefix_blocks s = (common, s1)" by fastforce
  let ?news = "if c_use_v2_model_runner cfg then new_reqs l @ resumed_reqs l else new_reqs l"
  let ?res = "if c_use_v2_model_runner cfg then [] else resumed_reqs l"
  obtain nd cd where nd: "make_new_request_data cfg s1 l ?news = Inr nd"
    and cd: "make_cached_request_data cfg s1 l ?res = Inr cd"
    using m c by (auto simp: make_output_def Let_def res_bind_eq_Inr)
  let ?s2 = "s1\<lparr>prev_step_scheduled_req_ids := map fst (sched_tokens l)\<rparr>"
  obtain zero s3 where z: "blocks_to_zero cfg ?s2 = (zero, s3)" by fastforce
  obtain freed em where f: "em_get_freed (enc_manager s3) = (freed, em)" by fastforce
  have s1: "same_queues s s1" "objects s1 = objects s"
    using c by (auto simp: common_prefix_blocks_def split: list.splits prod.splits)
  have s3: "same_queues s s3"
    using z s1(1) by (auto simp: blocks_to_zero_def split: if_splits prod.splits)
  have s': "s' = s3\<lparr>enc_manager := em\<rparr>" and out: "so_num_scheduled_tokens out = sched_tokens l"
    "so_total_num_scheduled_tokens out = total_scheduled l" "so_new_reqs out = nd" "so_cached_reqs out = cd"
    using m c nd cd z f by (auto simp: make_output_def Let_def)
  have "map nrd_req_id nd = ?news" using new_data_ids [OF nd] n s1(2) by simp
  moreover have "crd_req_ids cd = running_reqs l @ ?res" by (rule cached_data_ids [OF cd])
  ultimately have "output_books l out" by (simp add: output_books_def out scheduled_def)
  then show ?thesis using s3 s' by simp
qed

lemma free_encoder_frame:
  assumes "free_encoder_inputs cfg rid s = Inr s'"
  shows "\<exists>m. s' = s\<lparr>enc_manager := m\<rparr>"
  using assms unfolding free_encoder_inputs_def
proof (rule fold_res_invariant)
  show "\<exists>m. s = s\<lparr>enc_manager := m\<rparr>" by (rule exI [of _ "enc_manager s"]) simp
next
  fix i t u
  assume t: "\<exists>m. t = s\<lparr>enc_manager := m\<rparr>"
    and u: "res_bind (py_get (mm_features (objects t rid)) i) (\<lambda>f.
         let r = objects t rid; start = offset (mm_position f); len = ph_length (mm_position f) in
         if c_is_encoder_decoder cfg \<and> num_computed_tokens r > 0
            \<or> start + len \<le> num_computed_tokens r then
           res_bind (em_free_encoder_input r i (enc_manager t)) (\<lambda>m. Inr (t\<lparr>enc_manager := m\<rparr>))
         else Inr t) = Inr u"
  then have "u = t \<or> (\<exists>m. u = t\<lparr>enc_manager := m\<rparr>)"
    by (auto simp: res_bind_eq_Inr Let_def split: if_splits)
  then show "\<exists>m. u = s\<lparr>enc_manager := m\<rparr>" using t by auto
qed

text \<open>After the step only counters of the scheduled requests and the encoder cache change.\<close>

definition out_frame :: "scheduler_output \<Rightarrow> scheduler_output \<Rightarrow> bool" where
  "out_frame out out' \<longleftrightarrow>
     so_num_scheduled_tokens out' = so_num_scheduled_tokens out \<and>
     so_total_num_scheduled_tokens out' = so_total_num_scheduled_tokens out \<and>
     so_new_reqs out' = so_new_reqs out \<and> so_cached_reqs out' = so_cached_reqs out \<and>
     so_spec_decode_tokens out' = so_spec_decode_tokens out"

lemma out_frame_simps [simp]:
  "out_frame a a"
  "out_frame a (b\<lparr>so_has_structured_output := x\<rparr>) = out_frame a b"
  "out_frame a (b\<lparr>so_pending_structured_output := x\<rparr>) = out_frame a b"
  by (simp_all add: out_frame_def)

lemma out_frame_books: "out_frame out out' \<Longrightarrow> output_books l out' = output_books l out"
  by (auto simp: out_frame_def output_books_def)

lemma advance_status [simp]:
  "status (advance_computed n r) = status r" "request_id (advance_computed n r) = request_id r"
  by (simp_all add: advance_computed_def Let_def)

lemma update_after_schedule_keeps:
  assumes "update_after_schedule cfg out s = Inr (out', s')"
  shows "same_queues s s' \<and> out_frame out out'"
proof -
  obtain s1 where loop: "fold_res (\<lambda>(rid, n) (out, s).
            require (rid \<in> set (requests s)) KeyError
              (let s1 = upd_obj rid (advance_computed n) s;
                   r = objects s1 rid;
                   out1 = out\<lparr>so_has_structured_output := so_has_structured_output out
                            \<or> use_structured_output r \<and> \<not> is_prefill_chunk r\<rparr>
               in
               if has_encoder_inputs r then
                 res_bind (free_encoder_inputs cfg rid s1) (\<lambda>s2. Inr (out1, s2))
               else Inr (out1, s1)))
          (so_num_scheduled_tokens out) (out, s) = Inr (out', s1)"
    and s': "s' = s1\<lparr>finished_req_ids := []\<rparr>"
    using assms unfolding update_after_schedule_def by (auto simp: res_bind_eq_Inr)
  have "(\<lambda>(o1, s1). same_queues s s1 \<and> out_frame out o1) (out', s1)"
  proof (rule fold_res_invariant [OF loop], goal_cases)
    case (2 x t u)
    obtain rid n o1 t1 where x: "x = (rid, n)" "t = (o1, t1)" by (metis surj_pair)
    let ?t2 = "upd_obj rid (advance_computed n) t1"
    let ?o2 = "o1\<lparr>so_has_structured_output := so_has_structured_output o1
      \<or> use_structured_output (objects ?t2 rid) \<and> \<not> is_prefill_chunk (objects ?t2 rid)\<rparr>"
    have t2: "same_queues s ?t2" "out_frame out ?o2" using 2(2) x(2) by simp_all
    show ?case
    proof (cases "has_encoder_inputs (objects ?t2 rid)")
      case True
      then obtain u1 where f: "free_encoder_inputs cfg rid ?t2 = Inr u1" and u: "u = (?o2, u1)"
        using 2(3) x by (auto simp: res_bind_eq_Inr require_eq_Inr Let_def simp del: obj_simps)
      obtain m where "u1 = ?t2\<lparr>enc_manager := m\<rparr>" using free_encoder_frame [OF f] by blast
      then show ?thesis using t2 u by simp
    next
      case False
      then have "u = (?o2, ?t2)" using 2(3) x by (auto simp: require_eq_Inr Let_def simp del: obj_simps)
      then show ?thesis using t2 by simp
    qed
  qed simp
  then show ?thesis by (simp add: s')
qed

lemma async_update_keeps:
  assumes "async_update_after_schedule cfg out s = Inr (out', s')"
  shows "same_queues s s' \<and> out_frame out out'"
proof -
  obtain o1 s1 where u: "update_after_schedule cfg out s = Inr (o1, s1)"
    and loop: "fold_res (\<lambda>rid (out, s).
           require (rid \<in> set (requests s)) KeyError
             (let r = objects s rid in
              if is_prefill_chunk r then Inr (out, s)
              else
                let num_spec = (case map_of (so_spec_decode_tokens out) rid of
                                  None \<Rightarrow> 0 | Some ts \<Rightarrow> int (length ts))
                in Inr (out\<lparr>so_pending_structured_output := so_pending_structured_output out
                              \<or> use_structured_output r \<and> num_output_placeholders r > 0\<rparr>,
                        upd_obj rid (\<lambda>r. r\<lparr>
                          num_output_placeholders := num_output_placeholders r + (1 + num_spec),
                          spec_token_ids := py_repeat (- 1) (c_num_spec_tokens cfg)\<rparr>) s)))
         (map fst (so_num_scheduled_tokens o1)) (o1, s1) = Inr (out', s')"
    using assms unfolding async_update_after_schedule_def by (auto simp: res_bind_eq_Inr)
  note k = update_after_schedule_keeps [OF u]
  have "(\<lambda>(o2, s2). same_queues s s2 \<and> out_frame out o2) (out', s')"
  proof (rule fold_res_invariant [OF loop], goal_cases)
    case (2 rid t u)
    obtain o2 t1 where t: "t = (o2, t1)" by (metis surj_pair)
    then show ?case using 2(2,3) by (auto simp: require_eq_Inr Let_def split: if_splits)
  qed (use k in simp)
  then show ?thesis by simp
qed

lemma finish_step_keeps:
  assumes "finish_step cfg s l = Inr (out, s')" and "named (objects s)"
  shows "same_queues s s' \<and> output_books l out"
proof -
  obtain o1 s1 where m: "make_output cfg s l = Inr (o1, s1)"
    and rest: "(if c_async_scheduling cfg then async_update_after_schedule cfg o1 (build_connector_meta cfg o1 s1)
      else update_after_schedule cfg o1 (build_connector_meta cfg o1 s1)) = Inr (out, s')"
    using assms(1) by (auto simp: finish_step_def Let_def res_bind_eq_Inr require_eq_Inr)
  note k = make_output_keeps [OF m assms(2)]
  have "same_queues s1 (build_connector_meta cfg o1 s1)" by (simp add: build_connector_meta_def Let_def)
  moreover have "same_queues (build_connector_meta cfg o1 s1) s' \<and> out_frame o1 out"
    using rest async_update_keeps [of cfg o1 _ out s'] update_after_schedule_keeps [of cfg o1 _ out s']
    by (simp split: if_splits)
  ultimately show ?thesis using k same_queues_trans out_frame_books by blast
qed

section \<open>Properties\<close>

text \<open>
  C39. The closing assertions of \<open>schedule\<close> never fail: when the running requests are within their
  limit and below the model length and every unfinished request is in exactly one queue, then after
  both phases, whatever was preempted, skipped, promoted or admitted, at most
  \<open>max_num_scheduled_tokens\<close> tokens are scheduled and none when the scheduler is paused, the token
  budget is not overdrawn, at most \<open>max_num_running_reqs\<close> requests run, and each scheduled request
  is scheduled once, with a positive number of tokens.
\<close>

theorem step_within_limits:
  assumes "config_ok cfg" and "queues_ok [] s" and "within_length cfg s"
    and "int (length (running s)) \<le> c_max_num_running_reqs cfg"
    and "schedule_phases cfg s = Inr (s', l)"
  shows "constraints_ok cfg s' l \<and> total_scheduled l \<le> step_budget cfg s
    \<and> distinct (map fst (sched_tokens l)) \<and> (\<forall>(rid, n) \<in> set (sched_tokens l). 0 < n)"
proof -
  have k: "step_books True (step_budget cfg s) s' l" "int (length (running s')) \<le> c_max_num_running_reqs cfg"
    using schedule_phases_keeps [OF assms(5,2,3,4,1)] by simp_all
  then have "\<forall>n \<in> snd ` set (sched_tokens l). 0 < n" by (simp add: books_defs)
  then have "\<forall>(rid, n) \<in> set (sched_tokens l). 0 < n" by force
  then show ?thesis using k(1) books_constraints [OF k assms(1)] by (simp add: books_defs)
qed

text \<open>A scheduler with waiting requests, for examples.\<close>

definition fresh_scheduler ::
  "scheduling_policy \<Rightarrow> (req_id \<Rightarrow> request) \<Rightarrow> req_id list \<Rightarrow> kv_cache_manager \<Rightarrow> unit scheduler" where
  "fresh_scheduler policy objs ids k =
     \<lparr>objects = objs, requests = ids,
      waiting = fold (rq_add objs) ids (create_request_queue policy),
      skipped_waiting = create_request_queue policy, running = [], finished_req_ids = [],
      finished_req_ids_dict = None, prev_step_scheduled_req_ids = [],
      num_waiting_for_streaming_input = 0, finished_recving_kv_req_ids = [],
      failed_recving_kv_req_ids = [], enc_manager = MMCache (init_enc_cache 16), kvm = k,
      sched_pause_state = UNPAUSED, connector_stats = None, env_state = ()\<rparr>"

text \<open>Requests of three tokens, the first two of which fill a block.\<close>

definition hashed_request :: "req_id \<Rightarrow> request" where
  "hashed_request i = (sample_request i [1, 2, 3])\<lparr>block_hashes := [[7]]\<rparr>"

definition small_kvm :: "kv_cache_manager res" where
  "small_kvm = init_kv_cache_manager [full_spec] 6 100 2 True False False False False 1 1"

definition small_scheduler :: "unit scheduler" where
  "small_scheduler = (case small_kvm of Inr k \<Rightarrow> fresh_scheduler FCFS hashed_request [''a'', ''b''] k)"

lemma small_scheduler_ok:
  "config_ok plain_config" "queues_ok [] small_scheduler" "within_length plain_config small_scheduler"
  "int (length (running small_scheduler)) \<le> c_max_num_running_reqs plain_config"
proof -
  obtain k where k: "small_kvm = Inr k" using sample_kvm unfolding small_kvm_def by blast
  have q: "requests small_scheduler = [''a'', ''b'']" "running small_scheduler = []"
    "waiting small_scheduler = FCFSRequestQueue [''a'', ''b'']"
    "skipped_waiting small_scheduler = FCFSRequestQueue []" "objects small_scheduler = hashed_request"
    "num_waiting_for_streaming_input small_scheduler = 0"
    by (simp_all add: small_scheduler_def k fresh_scheduler_def fcfs_add_def)
  have r: "status (hashed_request i) = WAITING" "request_id (hashed_request i) = i" for i
    by (simp_all add: hashed_request_def sample_request_def)
  show "queues_ok [] small_scheduler"
    by (auto simp: queues_ok_def run_set_def wait_set_def stream_set_def waiting_ids_def named_def
        is_finished_def is_finished_status_iff q r)
  show "within_length plain_config small_scheduler"
    "int (length (running small_scheduler)) \<le> c_max_num_running_reqs plain_config"
    by (simp_all add: within_length_def q plain_config_def)
qed (simp add: config_ok_def plain_config_def)

lemma step_within_limits_witness:
  "\<exists>s l. schedule_phases plain_config small_scheduler = Inr (s, l) \<and> total_scheduled l = 4
     \<and> constraints_ok plain_config s l"
proof -
  have "(case schedule_phases plain_config small_scheduler of
      Inr (s, l) \<Rightarrow> total_scheduled l = 4 | Inl _ \<Rightarrow> False)" by code_simp
  then obtain s l where "schedule_phases plain_config small_scheduler = Inr (s, l)" "total_scheduled l = 4"
    by (auto split: sum.splits)
  with step_within_limits [OF small_scheduler_ok this(1)] show ?thesis by blast
qed

text \<open>
  C40. The output of a step is consistent with the state it leaves: the token counts add up to the
  total and are positive, there is one for each request that the output describes as new, resumed
  or running, each of them once and each now in \<open>running\<close>, and every unfinished request is still in
  exactly one queue, in \<open>running\<close> if and only if its status says so.
\<close>

theorem step_output_consistent:
  assumes "config_ok cfg" and "queues_ok [] s" and "within_length cfg s"
    and "int (length (running s)) \<le> c_max_num_running_reqs cfg"
    and "schedule cfg s = Inr (out, s')"
  shows "so_total_num_scheduled_tokens out = sum_list (map snd (so_num_scheduled_tokens out))
    \<and> mset (map fst (so_num_scheduled_tokens out))
        = mset (map nrd_req_id (so_new_reqs out) @ crd_req_ids (so_cached_reqs out))
    \<and> distinct (map fst (so_num_scheduled_tokens out))
    \<and> (\<forall>(rid, n) \<in> set (so_num_scheduled_tokens out). 0 < n \<and> rid \<in> set (running s'))
    \<and> queues_ok [] s'"
proof -
  obtain s1 l where p: "schedule_phases cfg s = Inr (s1, l)" and f: "finish_step cfg s1 l = Inr (out, s')"
    using assms(5) by (auto simp: schedule_def res_bind_eq_Inr)
  have k: "queues_ok [] s1" "step_books True (step_budget cfg s) s1 l"
    using schedule_phases_keeps [OF p assms(2,3,4,1)] by simp_all
  have "named (objects s1)" using k(1) by (simp add: queues_ok_def)
  note fin = finish_step_keeps [OF f this]
  then have o: "so_num_scheduled_tokens out = sched_tokens l" "so_total_num_scheduled_tokens out = total_scheduled l"
    "mset (map nrd_req_id (so_new_reqs out) @ crd_req_ids (so_cached_reqs out)) = mset (scheduled l)"
    by (simp_all add: output_books_def)
  have b: "distinct (scheduled l)" "distinct (map fst (sched_tokens l))" "fst ` set (sched_tokens l) = set (scheduled l)"
    "set (scheduled l) \<subseteq> set (running s1)" "\<forall>n \<in> snd ` set (sched_tokens l). 0 < n"
    using k(2) by (simp_all add: books_defs)
  have m: "mset (map fst (sched_tokens l)) = mset (scheduled l)"
    using set_eq_iff_mset_eq_distinct [OF b(2,1)] b(3) by (metis list.set_map)
  have r: "running s' = running s1" using fin by (simp add: same_queues_def)
  have "queues_ok [] s'" using fin k(1) queues_ok_same by blast
  moreover have "\<forall>(rid, n) \<in> set (sched_tokens l). 0 < n \<and> rid \<in> set (running s')"
    using b(3-5) unfolding r by force
  ultimately show ?thesis using o m b(2) by (simp add: total_scheduled_def)
qed

lemma step_output_consistent_witness:
  "\<exists>out s. schedule plain_config small_scheduler = Inr (out, s)
     \<and> map fst (so_num_scheduled_tokens out) = [''a'', ''b''] \<and> queues_ok [] s"
proof -
  have "(case schedule plain_config small_scheduler of
      Inr (out, s) \<Rightarrow> map fst (so_num_scheduled_tokens out) = [''a'', ''b''] | Inl _ \<Rightarrow> False)" by code_simp
  then obtain out s where "schedule plain_config small_scheduler = Inr (out, s)"
    "map fst (so_num_scheduled_tokens out) = [''a'', ''b'']" by (auto split: sum.splits)
  moreover from step_output_consistent [OF small_scheduler_ok this(1)] have "queues_ok [] s" by simp
  ultimately show ?thesis by (intro exI conjI)
qed

end
