(* ===== verification/Sched_Queues.thy ===== *)
theory Sched_Queues
  imports Sched_Limits
begin

text \<open>
  Between two steps of the scheduler requests arrive, finish, are aborted, stop or continue their
  session. All of it keeps every unfinished request in exactly one queue.
\<close>

section \<open>Requests that leave\<close>

text \<open>
  \<open>finishing V s s'\<close>: the requests of \<open>V\<close> have finished, some of them are forgotten; the queues
  still hold them.
\<close>

definition finishing :: "req_id set \<Rightarrow> 'c scheduler \<Rightarrow> 'c scheduler \<Rightarrow> bool" where
  "finishing V s s' \<longleftrightarrow>
     running s' = running s \<and> waiting s' = waiting s \<and> skipped_waiting s' = skipped_waiting s \<and>
     num_waiting_for_streaming_input s' = num_waiting_for_streaming_input s \<and>
     (\<exists>P. requests s' = filter P (requests s) \<and> (\<forall>rid. \<not> P rid \<longrightarrow> rid \<in> V)) \<and>
     (\<forall>rid. rid \<notin> V \<longrightarrow> objects s' rid = objects s rid) \<and>
     (\<forall>rid. rid \<in> V \<longrightarrow> is_finished (objects s' rid)) \<and>
     (\<forall>rid. request_id (objects s' rid) = request_id (objects s rid))"

lemma finished_kinds:
  "is_finished r \<Longrightarrow> status r \<noteq> RUNNING" "is_finished r \<Longrightarrow> status r \<noteq> WAITING_FOR_STREAMING_REQ"
  by (auto simp: is_finished_def is_finished_status_iff)

lemma finishing_sets:
  assumes "finishing V s s'"
  shows "run_set s' = run_set s - V" "wait_set s' = wait_set s - V" "stream_set s' = stream_set s - V"
    "set (requests s') \<subseteq> set (requests s)" "set (requests s) \<subseteq> set (requests s') \<union> V"
    "distinct (requests s) \<Longrightarrow> distinct (requests s')"
    "waiting_ids X s' = waiting_ids X s" "named (objects s') = named (objects s)"
proof -
  obtain P where P: "requests s' = filter P (requests s)" "\<And>rid. \<not> P rid \<Longrightarrow> rid \<in> V"
    using assms by (auto simp: finishing_def)
  have obj: "objects s' rid = objects s rid" if "rid \<notin> V" for rid using assms that by (simp add: finishing_def)
  have fin: "is_finished (objects s' rid)" if "rid \<in> V" for rid using assms that by (simp add: finishing_def)
  show "run_set s' = run_set s - V" "wait_set s' = wait_set s - V" "stream_set s' = stream_set s - V"
    using P(2) obj fin finished_kinds
    by (auto simp: run_set_def wait_set_def stream_set_def P(1)) (metis obj fin finished_kinds)+
  show "set (requests s') \<subseteq> set (requests s)" "set (requests s) \<subseteq> set (requests s') \<union> V"
    "distinct (requests s) \<Longrightarrow> distinct (requests s')" using P by auto
  show "waiting_ids X s' = waiting_ids X s" "named (objects s') = named (objects s)"
    using assms by (simp_all add: finishing_def waiting_ids_def named_def)
qed

lemma finishing_refl: "V = {} \<Longrightarrow> finishing V s s"
  unfolding finishing_def by (auto intro: exI [of _ "\<lambda>_. True"])

lemma finishing_trans:
  assumes "finishing V s t" and "finishing W t u"
  shows "finishing (V \<union> W) s u"
proof -
  obtain P Q where "requests t = filter P (requests s)" "\<And>rid. \<not> P rid \<Longrightarrow> rid \<in> V"
    "requests u = filter Q (requests t)" "\<And>rid. \<not> Q rid \<Longrightarrow> rid \<in> W"
    using assms by (auto simp: finishing_def)
  then have "requests u = filter (\<lambda>x. P x \<and> Q x) (requests s)" "\<And>rid. \<not> (P rid \<and> Q rid) \<Longrightarrow> rid \<in> V \<union> W"
    by (simp_all add: conj_commute) blast
  then have "\<exists>P. requests u = filter P (requests s) \<and> (\<forall>rid. \<not> P rid \<longrightarrow> rid \<in> V \<union> W)" by blast
  moreover have "is_finished (objects u rid)" if "rid \<in> V \<union> W" for rid
    using assms that by (cases "rid \<in> W") (auto simp: finishing_def)
  ultimately show ?thesis using assms by (simp add: finishing_def)
qed

text \<open>States that differ in none of the components that matter to the queues.\<close>

definition same_shell :: "'c scheduler \<Rightarrow> 'c scheduler \<Rightarrow> bool" where
  "same_shell s s' \<longleftrightarrow>
     running s' = running s \<and> waiting s' = waiting s \<and> skipped_waiting s' = skipped_waiting s \<and>
     requests s' = requests s \<and> num_waiting_for_streaming_input s' = num_waiting_for_streaming_input s \<and>
     objects s' = objects s"

lemma same_shell_refl [simp]: "same_shell s s"
  by (simp add: same_shell_def)

lemma same_shell_simps [simp]:
  "same_shell s (t\<lparr>kvm := k\<rparr>) = same_shell s t"
  "same_shell s (t\<lparr>enc_manager := m\<rparr>) = same_shell s t"
  "same_shell s (t\<lparr>env_state := w\<rparr>) = same_shell s t"
  "same_shell s (t\<lparr>finished_req_ids := xs\<rparr>) = same_shell s t"
  "same_shell s (t\<lparr>finished_req_ids_dict := d\<rparr>) = same_shell s t"
  "same_shell s (t\<lparr>finished_recving_kv_req_ids := xs\<rparr>) = same_shell s t"
  "same_shell s (t\<lparr>failed_recving_kv_req_ids := xs\<rparr>) = same_shell s t"
  "same_shell s (t\<lparr>connector_stats := st\<rparr>) = same_shell s t"
  "same_shell s (t\<lparr>sched_pause_state := p\<rparr>) = same_shell s t"
  by (simp_all add: same_shell_def)

lemma same_shell_queues: "same_shell s s' \<Longrightarrow> same_queues s s'"
  by (simp add: same_shell_def same_queues_def)

lemma same_shell_finishing: "same_shell s t \<Longrightarrow> finishing V t u \<Longrightarrow> finishing V s u"
  by (simp add: same_shell_def finishing_def)

lemma connector_finished_same:
  assumes "connector_finished cfg rid s = Inr (p, s')"
  shows "same_shell s s'"
proof (cases "c_kv_connector cfg")
  case True
  then obtain k where k: "kvm_remove_skipped_blocks rid (num_tokens (objects s rid)) (kvm s) = Inr k"
    using assms by (auto simp: connector_finished_def res_bind_eq_Inr)
  obtain ids where ids: "kvm_get_block_ids rid k = Some ids"
    using assms True k by (cases "kvm_get_block_ids rid k") (auto simp: connector_finished_def Let_def)
  obtain w where "s' = s\<lparr>kvm := k, env_state := w\<rparr>"
    using assms True k ids
    by (auto simp: connector_finished_def Let_def res_bind_eq_Inr) (auto split: prod.split_asm)
  then show ?thesis by simp
qed (use assms in \<open>simp add: connector_finished_def\<close>)

lemma free_blocks_finishing:
  assumes "free_request_blocks rid s = Inr s'"
  shows "finishing {rid} s s'"
proof -
  obtain k where "is_finished (objects s rid)" "s' = s\<lparr>kvm := k, requests := removeAll rid (requests s)\<rparr>"
    using assms by (auto simp: free_request_blocks_def res_bind_eq_Inr require_eq_Inr)
  then show ?thesis
    by (auto simp: finishing_def removeAll_filter_not_eq intro!: exI [of _ "\<lambda>x. rid \<noteq> x"])
qed

lemma free_request_finishing:
  assumes "free_scheduled_request cfg rid delay s = Inr (p, s')"
  shows "finishing {rid} s s'"
proof -
  obtain d ps s1 m where fin: "is_finished (objects s rid)"
    and c: "connector_finished cfg rid s = Inr ((d, ps), s1)"
    and rest: "(if delay \<or> d then Inr (ps, note_finished cfg rid (s1\<lparr>enc_manager := m\<rparr>))
      else res_bind (free_request_blocks rid (note_finished cfg rid (s1\<lparr>enc_manager := m\<rparr>)))
             (\<lambda>s3. Inr (ps, s3))) = Inr (p, s')"
    using assms by (auto simp: free_scheduled_request_def Let_def res_bind_eq_Inr require_eq_Inr)
  let ?s2 = "note_finished cfg rid (s1\<lparr>enc_manager := m\<rparr>)"
  have same: "same_shell s ?s2" using connector_finished_same [OF c] by (simp add: note_finished_def)
  then have "objects ?s2 = objects s" by (simp add: same_shell_def)
  then have "finishing {rid} ?s2 ?s2"
    using fin by (auto simp: finishing_def intro: exI [of _ "\<lambda>_. True"])
  then have "finishing {rid} ?s2 s'" using rest free_blocks_finishing by (auto simp: res_bind_eq_Inr split: if_splits)
  then show ?thesis by (rule same_shell_finishing [OF same])
qed

lemma finish_one_finishing:
  assumes "finish_one cfg st rid s = Inr s'" and "is_finished_status st"
  shows "finishing {rid} s s'"
proof -
  let ?s1 = "if status (objects s rid) = WAITING_FOR_REMOTE_KVS then
     s\<lparr>finished_recving_kv_req_ids := removeAll rid (finished_recving_kv_req_ids s),
       failed_recving_kv_req_ids := removeAll rid (failed_recving_kv_req_ids s)\<rparr> else s"
  let ?s2 = "upd_obj rid (\<lambda>r. r\<lparr>status := st\<rparr>) ?s1"
  obtain delay p where "free_scheduled_request cfg rid delay ?s2 = Inr (p, s')"
    using assms(1) by (auto simp: finish_one_def Let_def res_bind_eq_Inr simp del: obj_simps)
  from free_request_finishing [OF this] have "finishing {rid} ?s2 s'" .
  moreover have "running ?s2 = running s" "waiting ?s2 = waiting s" "skipped_waiting ?s2 = skipped_waiting s"
    "requests ?s2 = requests s" "num_waiting_for_streaming_input ?s2 = num_waiting_for_streaming_input s"
    "objects ?s2 = (objects s)(rid := (objects s rid)\<lparr>status := st\<rparr>)"
    by (simp_all add: upd_obj_def set_obj_def)
  ultimately show ?thesis by (auto simp: finishing_def)
qed

lemma finish_all_finishing:
  "fold_res (finish_one cfg st) vs s = Inr s' \<Longrightarrow> is_finished_status st \<Longrightarrow> finishing (set vs) s s'"
proof (induction vs arbitrary: s)
  case (Cons v vs)
  then obtain t where "finish_one cfg st v s = Inr t" "fold_res (finish_one cfg st) vs t = Inr s'"
    by (auto simp: res_bind_eq_Inr)
  then show ?case using Cons finishing_trans [of "{v}" s t "set vs" s'] finish_one_finishing by fastforce
qed (simp add: finishing_refl)

text \<open>An abort: the requests leave their queue, then they are finished.\<close>

lemma finish_requests_keeps:
  assumes f: "finish_requests cfg ids st s = Inr (res, s')" and q: "queues_ok [] s"
  shows "queues_ok [] s'"
proof -
  let ?ids = "case ids of None \<Rightarrow> requests s | Some xs \<Rightarrow> remdups xs"
  let ?v = "valid_requests ?ids s" and ?t = "leave_queues (valid_requests ?ids s) s"
  have st: "is_finished_status st" and loop: "fold_res (finish_one cfg st) ?v ?t = Inr s'"
    using f by (auto simp: finish_requests_def Let_def res_bind_eq_Inr require_eq_Inr)
  note fin = finish_all_finishing [OF loop st]
  have ok: "distinct (requests s)" "distinct (running s)" "set (running s) = run_set s"
    "distinct (waiting_ids [] s)" "set (waiting_ids [] s) = wait_set s" "named (objects s)"
    "num_waiting_for_streaming_input s = int (card (stream_set s))" using q by (simp_all add: queues_ok_def)
  have v: "set ?v = {rid \<in> set ?ids. rid \<in> set (requests s) \<and> \<not> is_finished (objects s rid)}"
    "distinct ?v" using ok(1) by (auto simp: valid_requests_def split: option.splits)
  let ?run = "filter (\<lambda>rid. status (objects s rid) = RUNNING) ?v"
    and ?wait = "filter (\<lambda>rid. status (objects s rid) \<noteq> RUNNING) ?v"
  let ?str = "filter (\<lambda>rid. status (objects s rid) = WAITING_FOR_STREAMING_REQ) ?wait"
  have t: "requests ?t = requests s" "objects ?t = objects s"
    "num_waiting_for_streaming_input ?t = num_waiting_for_streaming_input s - int (length ?str)"
    by (simp_all add: leave_queues_def Let_def)
  have run: "running ?t = filter (\<lambda>x. x \<notin> set ?run) (running s)"
  proof (cases "?run = []")
    case True
    show ?thesis unfolding True using True by (simp add: leave_queues_def Let_def)
  next
    case False
    then show ?thesis using ok(2) by (simp add: leave_queues_def Let_def remove_all_eq)
  qed
  have wait: "mset (waiting_ids [] ?t) = mset (filter (\<lambda>x. x \<notin> set ?wait) (waiting_ids [] s))"
  proof (cases "?wait = []")
    case True
    then have "waiting_ids [] ?t = waiting_ids [] s" by (simp add: leave_queues_def Let_def waiting_ids_def)
    then show ?thesis unfolding True by simp
  next
    case False
    then show ?thesis by (simp add: leave_queues_def Let_def waiting_ids_def mset_rq_remove_all)
  qed
  note sets = finishing_sets [OF fin]
  have run_eq: "set (running s') = run_set s'"
    using fin ok(3) v unfolding sets(1) by (auto simp: finishing_def run run_set_def t)
  have "stream_set ?t = stream_set s" by (simp add: stream_set_def t)
  moreover have "stream_set s - set ?v = stream_set s - set ?str" by (auto simp: stream_set_def)
  ultimately have str: "stream_set s' = stream_set s - set ?str" unfolding sets(3) by simp
  have strsub: "set ?str \<subseteq> stream_set s" using v by (auto simp: stream_set_def)
  show ?thesis
  proof (rule queues_okI)
    show "distinct (requests s')" using sets(6) ok(1) t(1) by simp
    show "distinct (running s')" using fin ok(2) by (simp add: finishing_def run)
    show "set (running s') = run_set s'" by (rule run_eq)
    show "mset (waiting_ids [] s') = mset (filter (\<lambda>x. x \<notin> set ?wait) (waiting_ids [] s))"
      using wait sets(7) [of "[]"] by simp
    show "distinct (filter (\<lambda>x. x \<notin> set ?wait) (waiting_ids [] s))" using ok(4) by simp
    show "set (filter (\<lambda>x. x \<notin> set ?wait) (waiting_ids [] s)) = wait_set s'"
      using ok(5) v unfolding sets(2) by (auto simp: wait_set_def t)
    show "named (objects s')" using sets(8) ok(6) t(2) by simp
    have "card (stream_set s') = card (stream_set s) - length ?str"
      unfolding str using strsub v(2) by (subst card_Diff_subset) (simp_all add: distinct_card del: set_filter)
    moreover have "length ?str \<le> card (stream_set s)"
    proof -
      have "card (set ?str) \<le> card (stream_set s)" using strsub by (intro card_mono) (simp_all add: stream_set_def)
      then show ?thesis using v(2) by (simp add: distinct_card del: set_filter)
    qed
    ultimately show "num_waiting_for_streaming_input s' = int (card (stream_set s'))"
      using fin ok(7) t(3) by (simp add: finishing_def)
  qed
qed

section \<open>The tokens of a request\<close>

text \<open>
  A hasher reads the request and remembers hashes of its prompt embeddings in it, nothing else; the
  hasher of the code does so.
\<close>

definition hasher_ok :: "hasher option \<Rightarrow> bool" where
  "hasher_ok hs \<longleftrightarrow> (\<forall>f r r' h. hs = Some f \<longrightarrow> f r = Some (Inr (r', h)) \<longrightarrow> memo_only r r')"

lemma hasher_loop_memo:
  assumes "hasher_loop H sha none_hash bs ntok r start mm_idx prev acc = Some (Inr (r', h))"
  shows "memo_only r r'"
proof -
  let ?P = "\<lambda>H sha none_hash bs ntok r start mm_idx prev acc res. \<forall>r' h. res = Inr (r', h) \<longrightarrow> memo_only r r'"
  have "\<forall>r'' h'. Inr (r', h) = (Inr (r'', h') :: (request \<times> block_hash list) res) \<longrightarrow> memo_only r r''"
  proof (rule hasher_loop.raw_induct [where P = ?P, OF _ assms], goal_cases)
    case (1 loop H sha none_hash bs ntok r start mm_idx prev acc res)
    show ?case
    proof (cases "generate_block_hash_extra_keys sha r start (start + bs) mm_idx")
      case (Inl e)
      then show ?thesis using 1(2) by (auto simp: Let_def split: if_split_asm)
    next
      case (Inr g)
      obtain keys idx r1 where g: "g = (keys, idx, r1)" by (cases g) auto
      have m: "memo_only r r1" using generate_memo_only Inr g by blast
      show ?thesis
      proof (cases "start + bs > ntok")
        case True
        then show ?thesis using 1(2) by auto
      next
        case False
        then have "loop H sha none_hash bs ntok r1 (start + bs) idx
            (Some (hash_block_tokens H none_hash prev (py_slice (all_token_ids r) start (start + bs)) keys))
            (acc @ [hash_block_tokens H none_hash prev (py_slice (all_token_ids r) start (start + bs)) keys]) = Some res"
          using 1(2) Inr g by (simp add: Let_def)
        from 1(1) [OF this] show ?thesis using memo_only_trans [OF m] by blast
      qed
    qed
  qed
  then show ?thesis by simp
qed

lemma request_block_hasher_ok: "hasher_ok (Some (request_block_hasher H sha none_hash bs))"
  by (auto simp: hasher_ok_def request_block_hasher_def Let_def dest: hasher_loop_memo split: if_splits)

lemma no_hasher_ok: "hasher_ok None"
  by (simp add: hasher_ok_def)

definition same_name :: "request \<Rightarrow> request \<Rightarrow> bool" where
  "same_name r r' \<longleftrightarrow> request_id r' = request_id r \<and> resumable r' = resumable r"

lemma memo_only_name: "memo_only r r' \<Longrightarrow> same_name r r' \<and> status r' = status r"
  by (auto simp: memo_only_def same_name_def)

lemma update_hashes_same:
  assumes "update_block_hashes hs r = Some (Inr r')" and "hasher_ok hs"
  shows "same_name r r' \<and> status r' = status r"
proof (cases hs)
  case (Some f)
  then obtain z where z: "f r = Some z" and r: "map_sum id (\<lambda>(r', hs). r'\<lparr>block_hashes := block_hashes r' @ hs\<rparr>) z = Inr r'"
    using assms(1) by (auto simp: update_block_hashes_def)
  obtain r1 h where f: "f r = Some (Inr (r1, h))" and r': "r' = r1\<lparr>block_hashes := block_hashes r1 @ h\<rparr>"
    using r z by (cases z) auto
  have "memo_only r r1" using assms(2) Some f by (auto simp: hasher_ok_def)
  from memo_only_name [OF this] show ?thesis by (simp add: r' same_name_def)
qed (use assms in \<open>simp add: update_block_hashes_def same_name_def\<close>)

lemma append_same:
  assumes "run_res (append_output_token_ids hs toks r) = Inr r'" and "hasher_ok hs"
  shows "same_name r r' \<and> status r' = status r"
proof -
  have "append_output_token_ids hs toks r = Some (Inr r')" using assms(1) by (auto simp: run_res_def split: option.splits)
  from update_hashes_same [OF this [unfolded append_output_token_ids_def] assms(2)] show ?thesis
    by (simp add: same_name_def)
qed

lemma check_stop_status:
  assumes "check_stop r n = Inr (b, r')"
  shows "same_name r r' \<and> (if b then is_finished r' else r' = r)"
proof -
  have fin: "is_finished_status FINISHED_STOPPED" "is_finished_status FINISHED_LENGTH_CAPPED"
    "is_finished_status FINISHED_REPETITION" by (simp_all add: is_finished_status_iff)
  obtain sp where sp: "sampling_params r = Some sp"
    using assms by (auto simp: check_stop_def require_eq_Inr split: option.split_asm)
  show ?thesis
  proof (cases "num_output_tokens r < min_tokens sp")
    case True
    then show ?thesis using assms sp by (auto simp: check_stop_def require_eq_Inr same_name_def)
  next
    case False
    then obtain l where l: "py_get (output_token_ids r) (- 1) = Inr l"
      using assms sp by (auto simp: check_stop_def require_eq_Inr res_bind_eq_Inr)
    show ?thesis
      using assms sp False l unfolding check_stop_def same_name_def
      by (auto simp: require_eq_Inr res_bind_eq_Inr is_finished_def fin split: if_split_asm option.split_asm)
  qed
qed

lemma output_loop_status:
  "output_loop cfg got ts r = Inr ((toks, b), r') \<Longrightarrow> hasher_ok (c_hasher cfg) \<Longrightarrow>
     same_name r r' \<and> (if b then is_finished r' else status r' = status r)"
proof (induction ts arbitrary: got r)
  case (Cons t ts)
  then obtain r1 b1 r2 where a: "run_res (append_output_token_ids (c_hasher cfg) [t] r) = Inr r1"
    and c: "check_stop r1 (c_max_model_len cfg) = Inr (b1, r2)"
    and rest: "(if b1 then Inr ((got @ [t], True), r2) else output_loop cfg (got @ [t]) ts r2) = Inr ((toks, b), r')"
    by (auto simp: res_bind_eq_Inr)
  note s1 = append_same [OF a Cons.prems(2)] and s2 = check_stop_status [OF c]
  show ?case
  proof (cases b1)
    case False
    then have "output_loop cfg (got @ [t]) ts r2 = Inr ((toks, b), r')" using rest by simp
    from Cons.IH [OF this Cons.prems(2)] show ?thesis using s1 s2 False by (auto simp: same_name_def)
  qed (use s1 s2 rest in \<open>auto simp: same_name_def\<close>)
qed (simp add: same_name_def)

text \<open>Only the request itself and the KV cache change.\<close>

definition one_object :: "req_id \<Rightarrow> 'c scheduler \<Rightarrow> 'c scheduler \<Rightarrow> bool" where
  "one_object rid s s' \<longleftrightarrow> (\<exists>r k. s' = (set_obj rid r s)\<lparr>kvm := k\<rparr> \<and> same_name (objects s rid) r)"

lemma one_objectI: "same_name (objects s rid) r \<Longrightarrow> one_object rid s ((set_obj rid r s)\<lparr>kvm := k\<rparr>)"
  by (auto simp: one_object_def)

lemma set_obj_kvm: "set_obj rid r (s\<lparr>kvm := k\<rparr>) = (set_obj rid r s)\<lparr>kvm := k\<rparr>"
  by (simp add: set_obj_def)

lemma one_object_trans:
  assumes "one_object rid s t" and "one_object rid t u"
  shows "one_object rid s u"
proof -
  obtain r k r2 k2 where "t = (set_obj rid r s)\<lparr>kvm := k\<rparr>" "same_name (objects s rid) r"
    "u = (set_obj rid r2 t)\<lparr>kvm := k2\<rparr>" "same_name (objects t rid) r2"
    using assms by (auto simp: one_object_def)
  then have "u = (set_obj rid r2 s)\<lparr>kvm := k2\<rparr>" "same_name (objects s rid) r2"
    by (auto simp: set_obj_def same_name_def)
  then show ?thesis by (auto simp: one_object_def)
qed

lemma one_object_set: "same_name (objects s rid) r \<Longrightarrow> one_object rid s (set_obj rid r s)"
  using one_objectI [of s rid r "kvm s"] by (simp add: set_obj_def)

lemma one_object_refl [simp]: "one_object rid s s"
  using one_object_set [of s rid "objects s rid"] by (simp add: same_name_def set_obj_def)

lemma one_object_frame:
  assumes "one_object rid s s'"
  shows "running s' = running s" "waiting s' = waiting s" "skipped_waiting s' = skipped_waiting s"
    "requests s' = requests s" "num_waiting_for_streaming_input s' = num_waiting_for_streaming_input s"
    "\<And>x. x \<noteq> rid \<Longrightarrow> objects s' x = objects s x" "\<And>x. same_name (objects s x) (objects s' x)"
  using assms by (auto simp: one_object_def same_name_def set_obj_def split: if_splits)

lemma one_object_same:
  assumes "one_object rid s s'" and "status (objects s' rid) = status (objects s rid)"
  shows "same_queues s s'"
proof -
  have "status (objects s' x) = status (objects s x)" for x
    using one_object_frame(6) [OF assms(1), of x] assms(2) by (cases "x = rid") simp_all
  then show ?thesis using one_object_frame [OF assms(1)] by (simp add: same_queues_def same_name_def)
qed

lemma base_update_status:
  assumes "base_update_with_output cfg rid toks s = Inr ((new, b), s')" and "hasher_ok (c_hasher cfg)"
  shows "one_object rid s s' \<and>
    (if b then is_finished (objects s' rid) else status (objects s' rid) = status (objects s rid))"
proof -
  obtain r where o: "output_loop cfg [] toks (objects s rid) = Inr ((new, b), r)" and s': "s' = set_obj rid r s"
    using assms(1) by (auto simp: base_update_with_output_def res_bind_eq_Inr)
  from output_loop_status [OF o assms(2)] show ?thesis by (simp add: s' one_object_set)
qed

lemma async_update_status:
  assumes "async_update_with_output cfg rid toks s = Inr ((new, b), s')" and h: "hasher_ok (c_hasher cfg)"
  shows "one_object rid s s' \<and>
    (if b then is_finished (objects s' rid) else status (objects s' rid) = status (objects s rid))"
proof (cases "discard_latest_async_tokens (objects s rid)")
  case True
  then show ?thesis using assms(1)
    by (auto simp: async_update_with_output_def Let_def same_name_def intro!: one_object_set)
next
  case False
  then obtain s1 where b: "base_update_with_output cfg rid toks s = Inr ((new, b), s1)"
    and rest: "(let s2 = upd_obj rid (\<lambda>r. r\<lparr>num_output_placeholders :=
                     num_output_placeholders r - int (length new)\<rparr>) s1; r = objects s2 rid in
        require (num_output_placeholders r \<ge> 0) AssertionError
            (if status (objects s rid) = RUNNING then
               res_bind (kvm_cache_blocks (c_sha cfg) r
                           (num_computed_tokens r - num_output_placeholders r) (kvm s2)) (\<lambda>(r1, k).
                 Inr ((new, b), set_obj rid r1 (s2\<lparr>kvm := k\<rparr>)))
             else Inr ((new, b), s2))) = Inr ((new, b), s')"
    using assms(1) by (auto simp: async_update_with_output_def Let_def res_bind_eq_Inr require_eq_Inr split: if_splits)
  note k = base_update_status [OF b h]
  let ?s2 = "upd_obj rid (\<lambda>r. r\<lparr>num_output_placeholders :=
                     num_output_placeholders r - int (length new)\<rparr>) s1"
  have 2: "one_object rid s1 ?s2 \<and> status (objects ?s2 rid) = status (objects s1 rid)"
    by (simp add: upd_obj_def same_name_def one_object_set)
  have 3: "one_object rid ?s2 s' \<and> status (objects s' rid) = status (objects ?s2 rid)"
  proof (cases "status (objects s rid) = RUNNING")
    case True
    then obtain r1 m where c: "kvm_cache_blocks (c_sha cfg) (objects ?s2 rid)
        (num_computed_tokens (objects ?s2 rid) - num_output_placeholders (objects ?s2 rid)) (kvm ?s2) = Inr (r1, m)"
      and s': "s' = set_obj rid r1 (?s2\<lparr>kvm := m\<rparr>)"
      using rest by (auto simp: Let_def require_eq_Inr res_bind_eq_Inr simp del: obj_simps)
    have "memo_only (objects ?s2 rid) r1" by (rule kvm_cache_blocks_memo [OF c])
    from memo_only_name [OF this] show ?thesis
      using one_objectI [of ?s2 rid r1 m] by (simp add: s' set_obj_kvm)
  next
    case False
    then have "s' = ?s2" using rest by (auto simp: Let_def require_eq_Inr)
    then show ?thesis by simp
  qed
  have "one_object rid s s'" using one_object_trans [OF one_object_trans] k 2 3 by blast
  then show ?thesis using k 2 3 by (auto simp: is_finished_def split: if_splits)
qed

lemma take_tokens_status:
  assumes "take_tokens cfg rid gen pooler s = Inr ((toks, b), s')" and h: "hasher_ok (c_hasher cfg)"
  shows "one_object rid s s' \<and>
    (if b then is_finished (objects s' rid) else status (objects s' rid) = status (objects s rid))"
proof (cases "gen = []")
  case False
  then have "update_request_with_output cfg rid gen s = Inr ((toks, b), s')"
    using assms(1) by (simp add: take_tokens_def)
  then show ?thesis using base_update_status [OF _ h] async_update_status [OF _ h]
    by (simp add: update_request_with_output_def split: if_splits)
next
  case True
  have "one_object rid s (upd_obj rid (\<lambda>r. r\<lparr>status := FINISHED_STOPPED\<rparr>) s)"
    by (simp add: upd_obj_def one_object_set same_name_def)
  then show ?thesis using True assms(1)
    by (auto simp: take_tokens_def is_finished_def is_finished_status_iff split: if_splits)
qed

section \<open>Requests that stop\<close>

text \<open>
  The queues while the results of a step are taken in: stopped requests are still in the queues, the
  local sets name them.
\<close>

definition update_inv :: "'c scheduler \<Rightarrow> update_locals \<Rightarrow> bool" where
  "update_inv s u \<longleftrightarrow>
     distinct (requests s) \<and> named (objects s) \<and>
     distinct (running s) \<and> set (running s) = run_set s \<union> set (ul_stopped_running u) \<and>
     set (ul_stopped_running u) \<inter> run_set s = {} \<and>
     distinct (waiting_ids [] s) \<and> set (waiting_ids [] s) = wait_set s \<union> set (ul_stopped_preempted u) \<and>
     set (ul_stopped_preempted u) \<inter> (run_set s \<union> wait_set s) = {} \<and>
     set (ul_stopped_preempted u) \<subseteq> set (rq_items (waiting s)) \<and>
     num_waiting_for_streaming_input s = int (card (stream_set s))"

text \<open>
  What the code expects of a request whose tokens arrive: it still runs, or it was preempted in the
  meantime, is in \<open>waiting\<close> and is not a session.
\<close>

definition expected :: "'c scheduler \<Rightarrow> req_id \<Rightarrow> bool" where
  "expected s rid \<longleftrightarrow> (rid \<in> set (requests s) \<longrightarrow> \<not> is_finished (objects s rid) \<longrightarrow>
     status (objects s rid) = RUNNING \<or>
     rid \<in> set (rq_items (waiting s)) \<and> \<not> resumable (objects s rid) \<and>
     status (objects s rid) \<noteq> WAITING_FOR_STREAMING_REQ)"

lemma update_inv_start: "queues_ok [] s \<Longrightarrow>
    update_inv s \<lparr>ul_outputs = outs, ul_stopped_running = [], ul_stopped_preempted = []\<rparr>"
  by (simp add: queues_ok_def update_inv_def)

lemma update_inv_same:
  assumes "same_queues s s'"
  shows "update_inv s' u = update_inv s u"
proof -
  have "requests s' = requests s" "running s' = running s" "named (objects s') = named (objects s)"
    "waiting s' = waiting s" "num_waiting_for_streaming_input s' = num_waiting_for_streaming_input s"
    using assms by (simp_all add: same_queues_def named_def)
  then show ?thesis by (simp only: update_inv_def same_queues_sets [OF assms])
qed

lemma update_inv_outputs [simp]: "update_inv s (u\<lparr>ul_outputs := outs\<rparr>) = update_inv s u"
  by (simp add: update_inv_def)

lemma run_set_disjoint: "rid \<in> run_set s \<Longrightarrow> rid \<notin> wait_set s \<and> rid \<notin> stream_set s"
  by (auto simp: run_set_def wait_set_def stream_set_def)

lemma stream_set_waits: "stream_set s \<subseteq> wait_set s"
  by (auto simp: stream_set_def wait_set_def is_finished_def is_finished_status_iff)

text \<open>A request that has finished for good.\<close>

lemma update_inv_finish:
  assumes u: "update_inv s u" and f: "finishing {rid} s s'"
    and rid: "rid \<in> set (requests s)" "\<not> is_finished (objects s rid)" and e: "expected s rid"
  shows "update_inv s' (if status (objects s rid) = RUNNING
    then u\<lparr>ul_stopped_running := List.insert rid (ul_stopped_running u)\<rparr>
    else u\<lparr>ul_stopped_preempted := List.insert rid (ul_stopped_preempted u)\<rparr>)"
proof -
  note sets = finishing_sets [OF f]
  have q: "running s' = running s" "waiting s' = waiting s"
    "num_waiting_for_streaming_input s' = num_waiting_for_streaming_input s" using f by (simp_all add: finishing_def)
  have ns: "rid \<notin> stream_set s" using e rid by (auto simp: expected_def stream_set_def)
  then have "stream_set s' = stream_set s" using sets(3) by simp
  then have c: "num_waiting_for_streaming_input s' = int (card (stream_set s'))" using u q by (simp add: update_inv_def)
  have base: "distinct (requests s')" "named (objects s')" "distinct (running s')" "distinct (waiting_ids [] s')"
    using u sets q by (simp_all add: update_inv_def)
  show ?thesis
  proof (cases "status (objects s rid) = RUNNING")
    case True
    then have m: "rid \<in> run_set s" using rid by (simp add: run_set_def)
    then show ?thesis using u base c True run_set_disjoint [OF m] sets q by (auto simp: update_inv_def)
  next
    case False
    then have m: "rid \<in> wait_set s" "rid \<in> set (rq_items (waiting s))"
      using rid e by (simp_all add: wait_set_def expected_def)
    have "rid \<notin> run_set s" using False by (simp add: run_set_def)
    then show ?thesis using u base c False m sets q by (auto simp: update_inv_def)
  qed
qed

text \<open>A session that waits for its next input, or has it and waits to run.\<close>

definition requeued :: "req_id \<Rightarrow> 'c scheduler \<Rightarrow> 'c scheduler \<Rightarrow> bool" where
  "requeued rid s s' \<longleftrightarrow>
     running s' = running s \<and> requests s' = requests s \<and>
     mset (waiting_ids [] s') = add_mset rid (mset (waiting_ids [] s)) \<and>
     set (rq_items (waiting s)) \<subseteq> set (rq_items (waiting s')) \<and>
     (\<forall>x. x \<noteq> rid \<longrightarrow> objects s' x = objects s x) \<and> request_id (objects s' rid) = request_id (objects s rid) \<and>
     (status (objects s' rid) = WAITING \<and>
        num_waiting_for_streaming_input s' = num_waiting_for_streaming_input s \<or>
      status (objects s' rid) = WAITING_FOR_STREAMING_REQ \<and>
        num_waiting_for_streaming_input s' = num_waiting_for_streaming_input s + 1)"

lemma update_inv_requeue:
  assumes u: "update_inv s u" and r: "requeued rid s s'"
    and rid: "rid \<in> set (requests s)" "status (objects s rid) = RUNNING"
  shows "update_inv s' (u\<lparr>ul_stopped_running := List.insert rid (ul_stopped_running u)\<rparr>)"
proof -
  have m: "rid \<in> run_set s" using rid by (simp add: run_set_def)
  note d = run_set_disjoint [OF m]
  have q: "running s' = running s" "requests s' = requests s"
    "set (rq_items (waiting s)) \<subseteq> set (rq_items (waiting s'))" and obj: "\<And>x. x \<noteq> rid \<Longrightarrow> objects s' x = objects s x"
    using r by (simp_all add: requeued_def)
  have live: "status (objects s' rid) \<noteq> RUNNING" "\<not> is_finished (objects s' rid)"
    using r by (auto simp: requeued_def is_finished_def is_finished_status_iff)
  have rs: "run_set s' = run_set s - {rid}" and ws: "wait_set s' = insert rid (wait_set s)"
    using obj live rid q(2) by (auto simp: run_set_def wait_set_def) metis+
  have nw: "rid \<notin> set (waiting_ids [] s)" using u d m by (auto simp: update_inv_def)
  have "mset (waiting_ids [] s') = mset (rid # waiting_ids [] s)" using r by (simp add: requeued_def)
  from mset_distinct_set [OF this] have w: "distinct (waiting_ids [] s')"
    "set (waiting_ids [] s') = insert rid (set (waiting_ids [] s))"
    using u nw by (simp_all add: update_inv_def)
  have "request_id (objects s' x) = request_id (objects s x)" for x
    using r obj by (cases "x = rid") (simp_all add: requeued_def)
  then have n: "named (objects s')" using u by (simp add: update_inv_def named_def)
  have c: "num_waiting_for_streaming_input s' = int (card (stream_set s'))"
  proof (cases "status (objects s' rid) = WAITING")
    case True
    then have "stream_set s' = stream_set s" using obj q(2) rid(2) by (auto simp: stream_set_def) (metis request_status.distinct)+
    then show ?thesis using True r u by (auto simp: requeued_def update_inv_def)
  next
    case False
    then have st: "status (objects s' rid) = WAITING_FOR_STREAMING_REQ"
      "num_waiting_for_streaming_input s' = num_waiting_for_streaming_input s + 1" using r by (auto simp: requeued_def)
    have "stream_set s' = insert rid (stream_set s)"
      using obj q(2) rid(1) st(1) by (auto simp: stream_set_def) metis+
    moreover have "finite (stream_set s)" by (simp add: stream_set_def)
    ultimately show ?thesis using d st(2) u by (simp add: update_inv_def)
  qed
  show ?thesis
    unfolding update_inv_def
    using u n c w q rs ws d m by (auto simp: update_inv_def)
qed

text \<open>The session takes its next input.\<close>

lemma extend_session_same:
  assumes "extend_session hs u r = Inr r'" and "hasher_ok hs"
  shows "same_name r r' \<and> status r' = status r"
proof -
  obtain feats toks prompt k t sp r3 where
    h: "run_res (update_block_hashes hs (r\<lparr>output_token_ids := [], mm_features := feats,
          all_token_ids := toks, prompt_token_ids := prompt\<rparr>)) = Inr r3"
    and r': "r' = r3\<lparr>num_prompt_tokens := k, arrival_time := t, sampling_params := sp\<rparr>"
    using assms(1) by (auto simp: extend_session_def Let_def res_bind_eq_Inr split: option.split_asm)
  have "update_block_hashes hs (r\<lparr>output_token_ids := [], mm_features := feats,
          all_token_ids := toks, prompt_token_ids := prompt\<rparr>) = Some (Inr r3)"
    using h by (auto simp: run_res_def split: option.splits)
  from update_hashes_same [OF this assms(2)] show ?thesis by (simp add: same_name_def r')
qed

lemma session_update_effect:
  assumes "update_request_as_session cfg rid u s = Inr s'" and "hasher_ok (c_hasher cfg)"
  shows "\<exists>r n. s' = (set_obj rid r s)\<lparr>num_waiting_for_streaming_input := n\<rparr> \<and> same_name (objects s rid) r \<and>
    status r = WAITING \<and> n = num_waiting_for_streaming_input s -
      (if status (objects s rid) = WAITING_FOR_STREAMING_REQ then 1 else 0)"
proof -
  obtain r where e: "extend_session (c_hasher cfg) u (objects s rid) = Inr r"
    and s': "s' = set_obj rid (r\<lparr>status := WAITING\<rparr>) (if status r = WAITING_FOR_STREAMING_REQ
        then s\<lparr>num_waiting_for_streaming_input := num_waiting_for_streaming_input s - 1\<rparr> else s)"
    using assms(1) by (auto simp: update_request_as_session_def Let_def res_bind_eq_Inr)
  note k = extend_session_same [OF e assms(2)]
  show ?thesis
    by (rule exI [of _ "r\<lparr>status := WAITING\<rparr>"]) (use k in \<open>simp add: s' same_name_def set_obj_def\<close>)
qed

lemma enqueue_effect:
  "running (enqueue_waiting_request rid s) = running s"
  "requests (enqueue_waiting_request rid s) = requests s"
  "objects (enqueue_waiting_request rid s) = objects s"
  "num_waiting_for_streaming_input (enqueue_waiting_request rid s) = num_waiting_for_streaming_input s"
  "mset (waiting_ids X (enqueue_waiting_request rid s)) = add_mset rid (mset (waiting_ids X s))"
  "set (rq_items (waiting s)) \<subseteq> set (rq_items (waiting (enqueue_waiting_request rid s)))"
proof -
  have "set (rq_items (rq_add objs r q)) = insert r (set (rq_items q))" for objs r q
    using mset_rq_add [of objs r q] by (metis set_mset_add_mset_insert set_mset_mset)
  then show "set (rq_items (waiting s)) \<subseteq> set (rq_items (waiting (enqueue_waiting_request rid s)))"
    by (auto simp: enqueue_waiting_request_def)
qed (simp_all add: enqueue_waiting_request_def waiting_ids_def mset_rq_add)

lemma handle_stopped_effect:
  assumes h: "handle_stopped_request cfg rid s = Inr (fin, s')" and hash: "hasher_ok (c_hasher cfg)"
    and f: "is_finished (objects s rid)"
  shows "if fin then finishing {rid} s s' else resumable (objects s rid) \<and> requeued rid s s'"
proof -
  let ?r = "objects s rid"
  have nst: "status ?r \<noteq> WAITING_FOR_STREAMING_REQ" using finished_kinds(2) [OF f] .
  have self: "finishing {rid} s (set_obj rid r s)" if "is_finished r" "request_id r = request_id ?r" for r
    using that by (auto simp: finishing_def set_obj_def intro: exI [of _ "\<lambda>_. True"])
  show ?thesis
  proof (cases "resumable ?r")
    case False
    have "set_obj rid ?r s = s" by (simp add: set_obj_def)
    then show ?thesis using self [of ?r] f False h by (simp add: handle_stopped_request_def)
  next
    case res: True
    show ?thesis
    proof (cases "\<exists>u us. streaming_queue ?r = Some (u # us)")
      case True
      then obtain u us where q: "streaming_queue ?r = Some (u # us)" by blast
      let ?s1 = "set_obj rid (?r\<lparr>streaming_queue := Some us\<rparr>) s"
      show ?thesis
      proof (cases u)
        case None
        then have "fin" "s' = ?s1" using h res q by (simp_all add: handle_stopped_request_def)
        then show ?thesis using self [of "?r\<lparr>streaming_queue := Some us\<rparr>"] f by (simp add: is_finished_def)
      next
        case (Some upd)
        then obtain s2 where a: "update_request_as_session cfg rid upd ?s1 = Inr s2"
          and s': "s' = enqueue_waiting_request rid s2" "\<not> fin"
          using h res q by (auto simp: handle_stopped_request_def res_bind_eq_Inr)
        obtain r n where s2: "s2 = (set_obj rid r ?s1)\<lparr>num_waiting_for_streaming_input := n\<rparr>"
          "same_name (objects ?s1 rid) r" "status r = WAITING" "n = num_waiting_for_streaming_input s"
          using session_update_effect [OF a hash] nst by auto
        have "waiting_ids [] s2 = waiting_ids [] s" "waiting s2 = waiting s"
          by (simp_all add: s2(1) waiting_ids_def set_obj_def)
        then have "mset (waiting_ids [] s') = add_mset rid (mset (waiting_ids [] s))"
          "set (rq_items (waiting s)) \<subseteq> set (rq_items (waiting s'))"
          unfolding s'(1) enqueue_effect(5) using enqueue_effect(6) [where s = s2 and rid = rid] by simp_all
        then show ?thesis using s2 s'(2) res
          by (simp add: requeued_def s'(1) enqueue_effect same_name_def)
      qed
    next
      case False
      let ?s1 = "upd_obj rid (\<lambda>r. r\<lparr>status := WAITING_FOR_STREAMING_REQ\<rparr>)
                        (s\<lparr>num_waiting_for_streaming_input := num_waiting_for_streaming_input s + 1\<rparr>)"
      have s': "s' = enqueue_waiting_request rid ?s1" "\<not> fin"
        using h res False by (auto simp: handle_stopped_request_def Let_def split: option.split_asm list.split_asm)
      have "waiting_ids [] ?s1 = waiting_ids [] s" "waiting ?s1 = waiting s"
        by (simp_all add: waiting_ids_def upd_obj_def set_obj_def)
      then have "mset (waiting_ids [] s') = add_mset rid (mset (waiting_ids [] s))"
        "set (rq_items (waiting s)) \<subseteq> set (rq_items (waiting s'))"
        unfolding s'(1) enqueue_effect(5) using enqueue_effect(6) [where s = ?s1 and rid = rid] by simp_all
      then show ?thesis using s'(2) res
        by (simp add: requeued_def s'(1) enqueue_effect)
    qed
  qed
qed

lemma stop_request_effect:
  assumes st: "stop_request cfg rid before s u = Inr (x, s', u')" and hash: "hasher_ok (c_hasher cfg)"
    and f: "is_finished (objects s rid)"
  shows "(finishing {rid} s s' \<or> resumable (objects s rid) \<and> requeued rid s s') \<and>
    u' = (if before = RUNNING
             then u\<lparr>ul_stopped_running := List.insert rid (ul_stopped_running u)\<rparr>
             else u\<lparr>ul_stopped_preempted := List.insert rid (ul_stopped_preempted u)\<rparr>)"
proof -
  obtain fin s1 p where h: "handle_stopped_request cfg rid s = Inr (fin, s1)"
    and fr: "(if fin then free_scheduled_request cfg rid False s1 else Inr (None, s1)) = Inr (p, s')"
    and u': "u' = (if before = RUNNING
             then u\<lparr>ul_stopped_running := List.insert rid (ul_stopped_running u)\<rparr>
             else u\<lparr>ul_stopped_preempted := List.insert rid (ul_stopped_preempted u)\<rparr>)"
    using st by (auto simp: stop_request_def Let_def res_bind_eq_Inr)
  note e = handle_stopped_effect [OF h hash f]
  show ?thesis
  proof (cases fin)
    case True
    then have "finishing {rid} s1 s'" using fr free_request_finishing by simp
    moreover have "finishing {rid} s s1" using e True by simp
    ultimately have "finishing {rid} s s'" using finishing_trans [of "{rid}" s s1 "{rid}" s'] by simp
    then show ?thesis using u' by simp
  next
    case False
    then show ?thesis using e fr u' by simp
  qed
qed

lemma reject_drafts_same [simp]:
  "status (reject_drafts spec gen r) = status r" "request_id (reject_drafts spec gen r) = request_id r"
  "resumable (reject_drafts spec gen r) = resumable r"
  by (auto simp: reject_drafts_def Let_def split: option.split list.split)

lemma advance_grammar_same: "advance_grammar cfg rid toks s = Inr s' \<Longrightarrow> same_shell s s'"
  by (auto simp: advance_grammar_def require_eq_Inr split: if_splits)

lemma live_cases:
  assumes "update_live_request cfg out mo rid s u = Inr (s', u')"
  obtains f gen pooler toks stopped s2 x s3 u3 outs where
    "take_tokens cfg rid gen pooler (upd_obj rid f s) = Inr ((toks, stopped), s2)"
    "status (f (objects s rid)) = status (objects s rid)" "same_name (objects s rid) (f (objects s rid))"
    "if stopped then stop_request cfg rid (status (objects s rid)) s2 u = Inr (x, s3, u3) else s3 = s2 \<and> u3 = u"
    "same_shell s3 s'" "u' = u3\<lparr>ul_outputs := outs\<rparr>"
proof -
  let ?s1 = "\<lambda>gen. upd_obj rid (reject_drafts (map_of (so_spec_decode_tokens out) rid) gen) s"
  obtain gen pooler toks stopped s2 where t: "take_tokens cfg rid gen pooler (?s1 gen) = Inr ((toks, stopped), s2)"
    and rest: "res_bind (if stopped then stop_request cfg rid (status (objects (?s1 gen) rid)) s2 u
        else Inr ((None, None), s2, u)) (\<lambda>((why, params), s3, u3).
             res_bind (advance_grammar cfg rid toks s3) (\<lambda>s4.
               if toks \<noteq> [] \<or> pooler \<noteq> None \<or> (params \<noteq> None \<and> params \<noteq> Some []) \<or> stopped then
                 Inr (s4, u3\<lparr>ul_outputs := emit_output (c_client_index cfg rid)
                            (request_output (objects s4 rid) toks pooler why params) (ul_outputs u3)\<rparr>)
               else require (rid \<notin> set (mo_prompt_logprobs mo)) AssertionError (Inr (s4, u3))))
      = Inr (s', u')"
    using assms unfolding update_live_request_def Let_def
    by (auto simp: res_bind_eq_Inr simp del: obj_simps split: option.split_asm)
  then obtain why params s3 u3 s4 where
    st: "(if stopped then stop_request cfg rid (status (objects (?s1 gen) rid)) s2 u
        else Inr ((None, None), s2, u)) = Inr ((why, params), s3, u3)"
    and g: "advance_grammar cfg rid toks s3 = Inr s4"
    and fin: "(if toks \<noteq> [] \<or> pooler \<noteq> None \<or> (params \<noteq> None \<and> params \<noteq> Some []) \<or> stopped then
                 Inr (s4, u3\<lparr>ul_outputs := emit_output (c_client_index cfg rid)
                            (request_output (objects s4 rid) toks pooler why params) (ul_outputs u3)\<rparr>)
               else require (rid \<notin> set (mo_prompt_logprobs mo)) AssertionError (Inr (s4, u3))) = Inr (s', u')"
    by (auto simp: res_bind_eq_Inr simp del: obj_simps)
  have o: "s' = s4 \<and> (\<exists>outs. u' = u3\<lparr>ul_outputs := outs\<rparr>)"
    using fin by (auto simp: require_eq_Inr split: if_split_asm intro: exI [of _ "ul_outputs u3"])
  then obtain outs where "s' = s4" "u' = u3\<lparr>ul_outputs := outs\<rparr>" by blast
  then show thesis
    using that [OF t, of "(why, params)" s3 u3 outs] st advance_grammar_same [OF g]
    by (simp add: same_name_def split: if_splits)
qed

section \<open>Taking in the results of a step\<close>

lemma update_live_keeps:
  assumes l: "update_live_request cfg out mo rid s u = Inr (s', u')" and hash: "hasher_ok (c_hasher cfg)"
    and u: "update_inv s u" and rid: "rid \<in> set (requests s)" "\<not> is_finished (objects s rid)"
    and e: "expected s rid"
  shows "update_inv s' u' \<and> (\<forall>x. x \<noteq> rid \<longrightarrow> expected s x \<longrightarrow> expected s' x)"
  using l
proof (cases rule: live_cases)
  case (1 f gen pooler toks stopped s2 x s3 u3 outs)
  let ?s1 = "upd_obj rid f s"
  have o1: "one_object rid s ?s1" using 1(3) by (simp add: upd_obj_def one_object_set)
  have st1: "status (objects ?s1 rid) = status (objects s rid)" using 1(2) by simp
  note t = take_tokens_status [OF 1(1) hash]
  have o2: "one_object rid s s2" using one_object_trans [OF o1] t by blast
  note fr = one_object_frame [OF o2]
  have sh: "update_inv s' u' = update_inv s3 u3" "\<And>x. expected s' x = expected s3 x"
    using update_inv_same [OF same_shell_queues [OF 1(5)], of u3] 1(5,6)
    by (simp_all add: expected_def same_shell_def)
  show ?thesis
  proof (cases stopped)
    case False
    then have s3: "s3 = s2" "u3 = u" using 1(4) by simp_all
    have same: "same_queues s s2" using one_object_same [OF o2] t st1 False by simp
    have "expected s2 x" if "expected s x" "x \<noteq> rid" for x
      using that fr(6) [OF that(2)] fr(2,4) by (simp add: expected_def)
    then show ?thesis using sh s3 update_inv_same [OF same] u by simp
  next
    case True
    then have st: "stop_request cfg rid (status (objects s rid)) s2 u = Inr (x, s3, u3)" using 1(4) by simp
    have f2: "is_finished (objects s2 rid)" using t True by simp
    note k = stop_request_effect [OF st hash f2]
    have nm: "same_name (objects s rid) (objects s2 rid)" by (rule fr(7))
    show ?thesis
    proof (cases "finishing {rid} s2 s3")
      case fin: True
      have "finishing {rid} s s2"
        using fr f2 by (auto simp: finishing_def same_name_def intro: exI [of _ "\<lambda>_. True"])
      then have "finishing {rid} s s3" using finishing_trans [of "{rid}" s s2 "{rid}" s3] fin by simp
      note inv = update_inv_finish [OF u this rid e]
      have "expected s3 x" if "expected s x" "x \<noteq> rid" for x
        using that \<open>finishing {rid} s s3\<close> finishing_sets(4) [OF \<open>finishing {rid} s s3\<close>]
        by (auto simp: expected_def finishing_def)
      then show ?thesis using sh inv k by simp
    next
      case False
      then have q2: "requeued rid s2 s3" and "resumable (objects s2 rid)" using k by auto
      then have "resumable (objects s rid)" using nm by (simp add: same_name_def)
      then have run: "status (objects s rid) = RUNNING" using e rid by (simp add: expected_def)
      have q: "requeued rid s s3"
        using q2 fr nm by (simp add: requeued_def waiting_ids_def same_name_def)
      have "expected s3 x" if "expected s x" "x \<noteq> rid" for x
        using that q by (auto simp: expected_def requeued_def)
      then show ?thesis using sh update_inv_requeue [OF u q rid(1) run] k run by simp
    qed
  qed
qed

lemma update_one_keeps:
  assumes "update_one cfg out mo failed (rid, n) (s, u) = Inr (s', u')" and "hasher_ok (c_hasher cfg)"
    and "update_inv s u" and "expected s rid"
  shows "update_inv s' u' \<and> (\<forall>x. x \<noteq> rid \<longrightarrow> expected s x \<longrightarrow> expected s' x)"
proof (cases "rid \<in> set failed \<or> rid \<notin> set (requests s) \<or> is_finished (objects s rid)")
  case True
  then have "s' = s" "u' = u" using assms(1) by (auto simp: update_one_def require_eq_Inr)
  then show ?thesis using assms(3) by simp
next
  case False
  then have "update_live_request cfg out mo rid s u = Inr (s', u')" using assms(1) by (simp add: update_one_def require_eq_Inr)
  from update_live_keeps [OF this assms(2,3) _ _ assms(4)] False show ?thesis by simp
qed

lemma update_all_keeps:
  "fold_res (update_one cfg out mo failed) xs (s, u) = Inr (s', u') \<Longrightarrow> hasher_ok (c_hasher cfg) \<Longrightarrow>
     update_inv s u \<Longrightarrow> distinct (map fst xs) \<Longrightarrow> \<forall>rid \<in> fst ` set xs. expected s rid \<Longrightarrow> update_inv s' u'"
proof (induction xs arbitrary: s u)
  case (Cons a xs)
  obtain rid n where a: "a = (rid, n)" by (cases a)
  obtain s1 u1 where o: "update_one cfg out mo failed (rid, n) (s, u) = Inr (s1, u1)"
    and rest: "fold_res (update_one cfg out mo failed) xs (s1, u1) = Inr (s', u')"
    using Cons.prems(1) a by (auto simp: res_bind_eq_Inr)
  have "expected s rid" using Cons.prems(5) a by simp
  note k = update_one_keeps [OF o Cons.prems(2,3) this]
  have "\<forall>x \<in> fst ` set xs. expected s1 x"
  proof
    fix x assume x: "x \<in> fst ` set xs"
    then have "x \<noteq> rid" using Cons.prems(4) a by auto
    moreover have "expected s x" using Cons.prems(5) x by auto
    ultimately show "expected s1 x" using k by simp
  qed
  with k show ?case using Cons.IH [OF rest Cons.prems(2)] Cons.prems(4) by simp
qed simp

lemma remove_stopped_keeps:
  assumes u: "update_inv s u"
  shows "queues_ok [] (remove_stopped s u)"
proof -
  let ?s' = "remove_stopped s u"
  have d: "distinct (running s)" "set (running s) = run_set s \<union> set (ul_stopped_running u)"
    "set (ul_stopped_running u) \<inter> run_set s = {}" "distinct (waiting_ids [] s)"
    "set (waiting_ids [] s) = wait_set s \<union> set (ul_stopped_preempted u)"
    "set (ul_stopped_preempted u) \<inter> (run_set s \<union> wait_set s) = {}"
    "set (ul_stopped_preempted u) \<subseteq> set (rq_items (waiting s))" using u by (simp_all add: update_inv_def)
  have f: "requests ?s' = requests s" "objects ?s' = objects s" "skipped_waiting ?s' = skipped_waiting s"
    "num_waiting_for_streaming_input ?s' = num_waiting_for_streaming_input s"
    by (simp_all add: remove_stopped_def Let_def)
  have run: "running ?s' = filter (\<lambda>x. x \<notin> set (ul_stopped_running u)) (running s)"
    using d(1) by (simp add: remove_stopped_def Let_def remove_all_eq)
  have wait: "mset (rq_items (waiting ?s')) = {#x \<in># mset (rq_items (waiting s)). x \<notin> set (ul_stopped_preempted u)#}"
    by (simp add: remove_stopped_def Let_def mset_rq_remove_all)
  let ?ys = "filter (\<lambda>x. x \<notin> set (ul_stopped_preempted u)) (waiting_ids [] s)"
  have "\<forall>x \<in> set (rq_items (skipped_waiting s)). x \<notin> set (ul_stopped_preempted u)"
    using d(4,7) by (auto simp: waiting_ids_def)
  then have "filter (\<lambda>x. x \<notin> set (ul_stopped_preempted u)) (rq_items (skipped_waiting s)) = rq_items (skipped_waiting s)"
    by (simp add: filter_id_conv)
  then have m: "mset (waiting_ids [] ?s') = mset ?ys" by (simp add: waiting_ids_def wait f(3))
  have sets: "run_set ?s' = run_set s" "wait_set ?s' = wait_set s" "stream_set ?s' = stream_set s"
    by (simp_all add: run_set_def wait_set_def stream_set_def f)
  show ?thesis
  proof (rule queues_okI [OF _ _ _ m])
    show "distinct ?ys" using d(4) by simp
    show "set ?ys = wait_set ?s'" using d(5,6) sets by auto
    show "set (running ?s') = run_set ?s'" using d(2,3) sets by (auto simp: run)
  qed (use u d(1) in \<open>simp_all add: update_inv_def f sets run\<close>)
qed

section \<open>Failed loads and transfers\<close>

text \<open>Statuses, names and kinds of requests stay.\<close>

definition same_flags :: "'c scheduler \<Rightarrow> 'c scheduler \<Rightarrow> bool" where
  "same_flags s s' \<longleftrightarrow> same_queues s s' \<and> (\<forall>x. resumable (objects s' x) = resumable (objects s x))"

lemma same_flags_refl [simp]: "same_flags s s"
  by (simp add: same_flags_def)

lemma same_flags_trans: "same_flags s t \<Longrightarrow> same_flags t u \<Longrightarrow> same_flags s u"
  using same_queues_trans by (auto simp: same_flags_def)

lemma same_flags_simps [simp]:
  "same_flags s (t\<lparr>kvm := k\<rparr>) = same_flags s t"
  "same_flags s (t\<lparr>failed_recving_kv_req_ids := xs\<rparr>) = same_flags s t"
  by (simp_all add: same_flags_def)

lemma expected_flags: "same_flags s s' \<Longrightarrow> expected s x \<Longrightarrow> expected s' x"
  by (auto simp: same_flags_def same_queues_def expected_def is_finished_def)

lemma scan_block_request:
  "same_name (scan_request a) (scan_request (scan_block bs bad ev n ids p a))
    \<and> status (scan_request (scan_block bs bad ev n ids p a)) = status (scan_request a)"
  by (cases p) (simp add: scan_block_def Let_def same_name_def)

lemma scan_request_same:
  "same_name (scan_request a) (scan_request (scan_request_blocks bs bad ev ids a))
    \<and> status (scan_request (scan_request_blocks bs bad ev ids a)) = status (scan_request a)"
proof -
  have f: "same_name (scan_request a) (scan_request (fold (scan_block bs bad ev n ids) ps a))
    \<and> status (scan_request (fold (scan_block bs bad ev n ids) ps a)) = status (scan_request a)" for n ps a
  proof (induction ps arbitrary: a)
    case (Cons p ps)
    then show ?case using scan_block_request [of a bs bad ev n ids p]
      by (auto simp: same_name_def)
  qed (simp add: same_name_def)
  show ?thesis using f by (simp add: scan_request_blocks_def Let_def same_name_def)
qed

lemma set_obj_flags:
  "same_name (objects s rid) r \<Longrightarrow> status r = status (objects s rid) \<Longrightarrow> same_flags s (set_obj rid r s)"
  by (auto simp: same_flags_def same_name_def)

lemma invalid_update_same:
  assumes "update_requests_with_invalid_blocks cfg rids invalid evict s = Inr (x, s')"
  shows "same_flags s s'"
proof -
  obtain y where "fold_res (\<lambda>rid ((hit, total, ev, marked), s).
           case kvm_get_block_ids rid (kvm s) of
             Some [ids] \<Rightarrow>
               let a = scan_request_blocks (c_block_size cfg) invalid evict (map int ids)
                         \<lparr>is_affected = False, marked_invalid_block = False, marked_invalid_ids = marked,
                          affected_tokens = total, scan_evict = ev, scan_request = objects s rid\<rparr>
               in Inr ((if is_affected a then List.insert rid hit else hit, affected_tokens a,
                        scan_evict a, marked_invalid_ids a), set_obj rid (scan_request a) s)
           | _ \<Rightarrow> Inl ValueError)
          rids (([], 0, [], []), s) = Inr (y, s')"
    using assms by (auto simp: update_requests_with_invalid_blocks_def res_bind_eq_Inr)
  then have "(\<lambda>(_, t). same_flags s t) (y, s')"
  proof (rule fold_res_invariant, goal_cases)
    case (2 rid t u)
    obtain hit total ev marked t1 where t: "t = ((hit, total, ev, marked), t1)" by (metis surj_pair)
    then obtain ids a where "scan_request a = objects t1 rid"
      "snd u = set_obj rid (scan_request (scan_request_blocks (c_block_size cfg) invalid evict ids a)) t1"
      using 2(3) by (auto simp: Let_def split: option.split_asm list.split_asm
          dest: meta_spec [of _ "\<lparr>is_affected = False, marked_invalid_block = False, marked_invalid_ids = marked,
                          affected_tokens = total, scan_evict = ev, scan_request = objects t1 rid\<rparr>"])
    then have "same_flags t1 (snd u)"
      using scan_request_same [of a "c_block_size cfg" invalid evict ids] set_obj_flags [of t1 rid] by simp
    then show ?case using same_flags_trans 2(2) t by (auto split: prod.split)
  qed simp
  then show ?thesis by simp
qed

lemma handle_invalid_same:
  assumes "handle_invalid_blocks cfg invalid s = Inr (failed, s')"
  shows "same_flags s s'"
proof -
  obtain loading async x s1 sync y ev s2 where
    a: "update_requests_with_invalid_blocks cfg loading invalid False s = Inr ((async, x), s1)"
    and b: "update_requests_with_invalid_blocks cfg (running s1) invalid True s1 = Inr ((sync, y, ev), s2)"
    and rest: "(if length async + length sync = 0 then Inr ([], s2)
      else res_bind
          (if ev \<noteq> [] \<and> \<not> c_recompute_kv_load_failures cfg then
             res_bind (kvm_evict_blocks ev (kvm s2)) (\<lambda>k. Inr (s2\<lparr>kvm := k\<rparr>))
           else Inr s2)
          (\<lambda>s3.
             if \<not> c_recompute_kv_load_failures cfg then Inr (List.union async sync, s3)
             else Inr (sync, s3\<lparr>failed_recving_kv_req_ids :=
                         List.union (failed_recving_kv_req_ids s3) async\<rparr>))) = Inr (failed, s')"
    using assms by (auto simp: handle_invalid_blocks_def Let_def res_bind_eq_Inr)
  have "same_flags s2 s'" using rest by (auto simp: res_bind_eq_Inr split: if_splits)
  then show ?thesis using invalid_update_same [OF a] invalid_update_same [OF b] same_flags_trans by blast
qed

lemma queues_ok_forget:
  assumes f: "finishing {rid} s s'" and "is_finished (objects s rid)" and q: "queues_ok X s"
  shows "queues_ok X s'"
proof -
  note sets = finishing_sets [OF f]
  have "rid \<notin> run_set s" "rid \<notin> wait_set s" "rid \<notin> stream_set s"
    using assms(2) finished_kinds by (auto simp: run_set_def wait_set_def stream_set_def)
  then have "run_set s' = run_set s" "wait_set s' = wait_set s" "stream_set s' = stream_set s" using sets by simp_all
  moreover have "running s' = running s" "num_waiting_for_streaming_input s' = num_waiting_for_streaming_input s"
    using f by (simp_all add: finishing_def)
  ultimately show ?thesis using q sets by (simp add: queues_ok_def)
qed

lemma transfers_keep:
  assumes t: "update_from_kv_xfer_finished cfg ko s = Inr s'" and q: "queues_ok X s"
  shows "queues_ok X s'"
proof -
  have free: "queues_ok X u" if "free_request_blocks rid t = Inr u" "queues_ok X t" for rid t u
    using free_blocks_finishing [OF that(1)] that by (auto simp: free_request_blocks_def require_eq_Inr
        intro: queues_ok_forget)
  let ?s0 = "if c_kv_connector cfg then s\<lparr>env_state := kv_update_output (c_env cfg) (env_state s) ko\<rparr> else s"
  obtain s1 where 1: "fold_res (\<lambda>rid s.
            require (rid \<in> set (requests s)) AssertionError
              (if status (objects s rid) = WAITING_FOR_REMOTE_KVS then
                 Inr (s\<lparr>finished_recving_kv_req_ids :=
                        List.insert rid (finished_recving_kv_req_ids s)\<rparr>)
               else require (is_finished (objects s rid)) AssertionError (free_request_blocks rid s)))
           (ko_finished_recving ko) ?s0 = Inr s1"
    and 2: "fold_res (\<lambda>rid s.
            require (rid \<in> set (requests s)) AssertionError (free_request_blocks rid s))
           (ko_finished_sending ko) s1 = Inr s'"
    using t unfolding update_from_kv_xfer_finished_def Let_def by (auto simp only: res_bind_eq_Inr)
  have "queues_ok X ?s0" using q queues_ok_same [of s ?s0 X] by simp
  with 1 have "queues_ok X s1"
  proof (rule fold_res_invariant, goal_cases)
    case (1 rid t u)
    then show ?case using free queues_ok_same [of t u X] by (auto simp: require_eq_Inr split: if_splits)
  qed
  with 2 show ?thesis by (rule fold_res_invariant) (auto simp: require_eq_Inr intro: free)
qed

lemma fail_loads_keeps:
  assumes "fail_loads cfg failed s u = Inr (s', u')" and "queues_ok [] s"
  shows "queues_ok [] s'"
proof (cases "failed \<noteq> [] \<and> \<not> c_recompute_kv_load_failures cfg")
  case True
  then obtain x where "finish_requests cfg (Some failed) FINISHED_ERROR s = Inr (x, s')"
    using assms(1) by (auto simp: fail_loads_def require_eq_Inr res_bind_eq_Inr)
  from finish_requests_keeps [OF this assms(2)] show ?thesis .
qed (use assms in \<open>auto simp: fail_loads_def\<close>)

lemma take_stats_same: "take_stats cfg s = Inr s' \<Longrightarrow> same_queues s s'"
  by (auto simp: take_stats_def require_eq_Inr split: if_splits prod.split_asm)

text \<open>The results of a step keep the queues.\<close>

lemma update_from_output_keeps:
  assumes up: "update_from_output cfg out mo s = Inr (outs, s')" and q: "queues_ok [] s"
    and hash: "hasher_ok (c_hasher cfg)"
    and d: "distinct (map fst (so_num_scheduled_tokens out))"
    and e: "\<forall>rid \<in> fst ` set (so_num_scheduled_tokens out). expected s rid"
  shows "queues_ok [] s'"
proof -
  obtain s1 u s2 where r: "update_requests cfg out mo s = Inr (s1, u)"
    and k: "(case mo_kv_connector_output mo of None \<Rightarrow> Inr s1
               | Some ko \<Rightarrow> update_from_kv_xfer_finished cfg ko s1) = Inr s2"
    and st: "take_stats cfg ((take_all_events cfg s2)\<lparr>finished_req_ids_dict :=
        map_option (\<lambda>_. []) (finished_req_ids_dict (take_all_events cfg s2))\<rparr>) = Inr s'"
    using up by (auto simp: update_from_output_def Let_def res_bind_eq_Inr)
  obtain failed t t2 u2 where
    h: "(case mo_kv_connector_output mo of None \<Rightarrow> Inr ([], s)
        | Some ko \<Rightarrow> if ko_invalid_block_ids ko = [] then Inr ([], s)
            else handle_invalid_blocks cfg (ko_invalid_block_ids ko) s) = Inr (failed, t)"
    and l: "fold_res (update_one cfg out mo failed) (so_num_scheduled_tokens out)
        (t, \<lparr>ul_outputs = [], ul_stopped_running = [], ul_stopped_preempted = []\<rparr>) = Inr (t2, u2)"
    and fl: "fail_loads cfg failed (remove_stopped t2 u2) u2 = Inr (s1, u)"
    using r by (auto simp: update_requests_def res_bind_eq_Inr)
  have same: "same_flags s t" using h handle_invalid_same by (auto split: option.split_asm if_split_asm)
  then have "queues_ok [] t" using queues_ok_same q by (auto simp: same_flags_def)
  then have "update_inv t2 u2"
    using update_all_keeps [OF l hash update_inv_start d] e expected_flags [OF same] by blast
  from fail_loads_keeps [OF fl remove_stopped_keeps [OF this]] have "queues_ok [] s1" .
  then have "queues_ok [] s2" using k transfers_keep by (auto split: option.split_asm)
  moreover have "same_queues s2 s'"
  proof (rule same_queues_trans [OF _ take_stats_same [OF st]])
    show "same_queues s2 ((take_all_events cfg s2)\<lparr>finished_req_ids_dict :=
        map_option (\<lambda>_. []) (finished_req_ids_dict (take_all_events cfg s2))\<rparr>)"
      by (simp add: take_all_events_def Let_def)
  qed
  ultimately show ?thesis using queues_ok_same by blast
qed

section \<open>Arrival, drafts, resets\<close>

definition arrives :: "request \<Rightarrow> bool" where
  "arrives r \<longleftrightarrow> status r = WAITING \<or> status r = WAITING_FOR_FSM"

lemma add_request_keeps:
  assumes a: "add_request cfg r s = Inr s'" and q: "queues_ok [] s" and r: "arrives r"
    and hash: "hasher_ok (c_hasher cfg)"
  shows "queues_ok [] s'"
proof (cases "request_id r \<in> set (requests s)")
  case True
  let ?e = "objects s (request_id r)"
  show ?thesis
  proof (cases "status ?e = WAITING_FOR_STREAMING_REQ")
    case False
    then obtain sq where "s' = set_obj (request_id r) (?e\<lparr>streaming_queue := Some sq\<rparr>) s"
      using a True by (auto simp: add_request_def Let_def split: option.split_asm)
    then have "same_queues s s'" by simp
    then show ?thesis using q queues_ok_same by blast
  next
    case st: True
    show ?thesis
    proof (cases "streaming_update_from r")
      case None
      then obtain x where "finish_requests cfg (Some [request_id r]) FINISHED_ABORTED s = Inr (x, s')"
        using a True st by (auto simp: add_request_def Let_def res_bind_eq_Inr)
      from finish_requests_keeps [OF this q] show ?thesis .
    next
      case (Some u)
      then have "update_request_as_session cfg (request_id r) u s = Inr s'"
        using a True st by (simp add: add_request_def Let_def)
      from session_update_effect [OF this hash] st obtain e n where
        s': "s' = (set_obj (request_id r) e s)\<lparr>num_waiting_for_streaming_input := n\<rparr>" and
        e: "same_name ?e e" "status e = WAITING" "n = num_waiting_for_streaming_input s - 1" by auto
      have sets: "run_set s' = run_set s" "wait_set s' = wait_set s"
        using st e(2) by (auto simp: s' run_set_def wait_set_def set_obj_def is_finished_def is_finished_status_iff)
      have m: "request_id r \<in> stream_set s" using True st by (simp add: stream_set_def)
      have "stream_set s' = stream_set s - {request_id r}"
        using e(2) by (auto simp: s' stream_set_def set_obj_def)
      moreover have "card (stream_set s) = Suc (card (stream_set s - {request_id r}))"
        by (rule card.remove [OF _ m]) (simp add: stream_set_def)
      ultimately have c: "card (stream_set s) = Suc (card (stream_set s'))" by simp
      have "named (objects s')" using q e(1) by (auto simp: s' queues_ok_def named_def same_name_def)
      moreover have "running s' = running s" "requests s' = requests s" "waiting_ids [] s' = waiting_ids [] s"
        "num_waiting_for_streaming_input s' = n" by (simp_all add: s' waiting_ids_def set_obj_def)
      ultimately show ?thesis using q sets e(3) c by (simp add: queues_ok_def)
    qed
  qed
next
  case False
  let ?rid = "request_id r" and ?r1 = "if resumable r then r\<lparr>streaming_queue := Some []\<rparr> else r"
  let ?s1 = "set_obj ?rid ?r1 s"
  let ?s2 = "enqueue_waiting_request ?rid ?s1"
  have s': "s' = ?s2\<lparr>requests := requests ?s2 @ [?rid]\<rparr>" using a False by (simp add: add_request_def Let_def)
  have f: "running s' = running s" "requests s' = requests s @ [?rid]"
    "objects s' = (objects s)(?rid := ?r1)"
    "num_waiting_for_streaming_input s' = num_waiting_for_streaming_input s"
    by (simp_all add: s' enqueue_effect)
  have live: "status ?r1 \<noteq> RUNNING" "\<not> is_finished ?r1" "status ?r1 \<noteq> WAITING_FOR_STREAMING_REQ"
    using r by (auto simp: arrives_def is_finished_def is_finished_status_iff)
  have sets: "run_set s' = run_set s" "wait_set s' = insert ?rid (wait_set s)" "stream_set s' = stream_set s"
    using False live unfolding run_set_def wait_set_def stream_set_def f by (auto split: if_split_asm)
  have "waiting_ids [] ?s1 = waiting_ids [] s" by (simp add: waiting_ids_def set_obj_def)
  then have m: "mset (waiting_ids [] s') = mset (?rid # waiting_ids [] s)"
    using enqueue_effect(5) [of "[]" ?rid ?s1] by (simp add: s' waiting_ids_def)
  have "?rid \<notin> set (waiting_ids [] s)" using q False by (auto simp: queues_ok_def wait_set_def)
  then show ?thesis
    using q False by (intro queues_okI [OF _ _ _ m]) (auto simp: queues_ok_def sets f named_def)
qed

lemma take_draft_same: "same_queues s (take_draft cfg d s)"
  by (cases d) (simp add: take_draft_def Let_def)

lemma drafts_same: "same_queues s (update_draft_token_ids cfg d s)"
proof -
  have "same_queues s (fold (take_draft cfg) ds s)" for ds s
  proof (induction ds arbitrary: s)
    case (Cons d ds)
    show ?case using same_queues_trans [OF take_draft_same Cons.IH] by simp
  qed simp
  then show ?thesis by (simp add: update_draft_token_ids_def)
qed

lemma preempt_all_keeps: "preempt_all s = Inr s' \<Longrightarrow> queues_ok X s \<Longrightarrow> queues_ok X s'"
proof (induction s arbitrary: s' rule: preempt_all.induct)
  case (1 s)
  show ?case
  proof (cases "running s = []")
    case True
    then show ?thesis using 1(2,3) by (simp add: preempt_all.simps)
  next
    case False
    let ?v = "last (running s)"
    obtain s1 where p: "preempt_request ?v (s\<lparr>running := butlast (running s)\<rparr>) = Inr s1"
      and rest: "preempt_all (upd_obj ?v (\<lambda>r. r\<lparr>num_output_placeholders := 0, discard_latest_async_tokens := True\<rparr>) s1)
        = Inr s'"
      using 1(2) False by (subst (asm) preempt_all.simps) (auto simp: res_bind_eq_Inr)
    have "distinct (running s)" using 1(3) by (simp add: queues_ok_def)
    then have "preempt_request ?v (s\<lparr>running := remove1 ?v (running s)\<rparr>) = Inr s1"
      using p remove1_last False by metis
    from preempt_request_queues [OF 1(3) _ this] have "queues_ok X s1" using False by simp
    then have "queues_ok X (upd_obj ?v (\<lambda>r. r\<lparr>num_output_placeholders := 0, discard_latest_async_tokens := True\<rparr>) s1)"
      using queues_ok_same [of s1 "upd_obj ?v (\<lambda>r. r\<lparr>num_output_placeholders := 0,
        discard_latest_async_tokens := True\<rparr>) s1" X] by simp
    then show ?thesis by (rule 1(1) [OF False p rest])
  qed
qed

lemma reset_connector_same: "reset_connector_cache cfg s = Inr (b, s') \<Longrightarrow> same_queues s s'"
  by (auto simp: reset_connector_cache_def Let_def split: if_splits prod.split_asm option.split_asm)

lemma reset_prefix_keeps:
  assumes "reset_scheduler_prefix_cache cfg run conn s = Inr (b, s')" and q: "queues_ok X s"
  shows "queues_ok X s'"
proof -
  obtain s1 where p: "(if run then res_bind (preempt_all s) (\<lambda>s1. Inr (s1\<lparr>prev_step_scheduled_req_ids := []\<rparr>))
        else Inr s) = Inr s1"
    and rest: "(case kvm_reset_prefix_cache (kvm s1) of (ok, k) \<Rightarrow>
              let s2 = s1\<lparr>kvm := k\<rparr> in
              require (\<not> (run \<and> \<not> ok)) RuntimeError
                (if conn then res_bind (reset_connector_cache cfg s2) (\<lambda>(ok2, s3). Inr (ok2 \<and> ok, s3))
                 else Inr (ok, s2))) = Inr (b, s')"
    using assms(1) by (auto simp: reset_scheduler_prefix_cache_def res_bind_eq_Inr)
  have q1: "queues_ok X s1"
  proof (cases run)
    case True
    then obtain t where "preempt_all s = Inr t" "s1 = t\<lparr>prev_step_scheduled_req_ids := []\<rparr>"
      using p by (auto simp: res_bind_eq_Inr)
    then show ?thesis using preempt_all_keeps [OF _ q, of t] queues_ok_same [of t s1 X] by simp
  next
    case False
    then show ?thesis using p q by simp
  qed
  obtain ok k where k: "kvm_reset_prefix_cache (kvm s1) = (ok, k)" by fastforce
  have "same_queues (s1\<lparr>kvm := k\<rparr>) s'"
    using rest k reset_connector_same by (auto simp: Let_def require_eq_Inr res_bind_eq_Inr split: if_splits)
  then have "same_queues s1 s'" using same_queues_trans [of s1 "s1\<lparr>kvm := k\<rparr>" s'] by simp
  then show ?thesis using q1 queues_ok_same by blast
qed

end
