(* ===== verification/Engine_Core.thy ===== *)
theory Engine_Core
  imports Sched_Queues
begin

text \<open>
  The loop around the scheduler (\<^verbatim>\<open>vllm/v1/engine/core.py\<close>): \<open>EngineCore\<close> schedules a batch, lets the
  executor run it, takes in aborts that came meanwhile and then the results; with a batch queue
  several batches are under way. What comes from outside is an argument of each operation: the
  results of the executor, the ids in the queue of aborts, whether a batch has finished.
\<close>

section \<open>The engine\<close>

definition init_scheduler ::
  "'c sched_config \<Rightarrow> bool \<Rightarrow> kv_cache_manager \<Rightarrow> enc_manager \<Rightarrow> 'c \<Rightarrow> 'c scheduler" where
  "init_scheduler cfg include_finished_set k m w =
     \<lparr>objects = (\<lambda>rid. (sample_request rid [])), requests = [],
      waiting = create_request_queue (c_policy cfg),
      skipped_waiting = create_request_queue (c_policy cfg), running = [], finished_req_ids = [],
      finished_req_ids_dict = (if include_finished_set then Some [] else None),
      prev_step_scheduled_req_ids = [], num_waiting_for_streaming_input = 0,
      finished_recving_kv_req_ids = [], failed_recving_kv_req_ids = [], enc_manager = m, kvm = k,
      sched_pause_state = UNPAUSED,
      connector_stats = (if c_kv_connector cfg \<and> c_log_stats cfg then Some new_stats else None),
      env_state = w\<rparr>"

definition has_unfinished_requests :: "'c scheduler \<Rightarrow> bool" where
  "has_unfinished_requests s = (get_num_unfinished_requests s > 0)"

definition has_requests :: "'c scheduler \<Rightarrow> bool" where
  "has_requests s = (has_unfinished_requests s \<or> has_finished_requests s)"

definition abort_requests :: "'c sched_config \<Rightarrow> req_id list \<Rightarrow> 'c scheduler \<Rightarrow> 'c scheduler res" where
  "abort_requests cfg ids s =
     res_bind (finish_requests cfg (Some ids) FINISHED_ABORTED s) (\<lambda>(_, s1). Inr s1)"

definition process_aborts_queue ::
  "'c sched_config \<Rightarrow> req_id list list \<Rightarrow> 'c scheduler \<Rightarrow> 'c scheduler res" where
  "process_aborts_queue cfg aborts s =
     (if aborts = [] then Inr s else abort_requests cfg (concat aborts) s)"

text \<open>\<open>EngineCore.step\<close>; the executor gives the result of the batch it was handed.\<close>

definition engine_step ::
  "'c sched_config \<Rightarrow> (scheduler_output \<Rightarrow> model_runner_output) \<Rightarrow> req_id list list \<Rightarrow> 'c scheduler \<Rightarrow>
   (((int \<times> engine_core_outputs) list \<times> bool) \<times> 'c scheduler) res" where
  "engine_step cfg execute aborts s =
     (if \<not> has_requests s then Inr (([], False), s)
      else
        res_bind (schedule cfg s) (\<lambda>(out, s1).
        res_bind (process_aborts_queue cfg aborts s1) (\<lambda>s2.
        res_bind (update_from_output cfg out (execute out) s2) (\<lambda>(outs, s3).
          Inr ((outs, so_total_num_scheduled_tokens out > 0), s3)))))"

definition post_step ::
  "'c sched_config \<Rightarrow> bool \<Rightarrow> bool \<Rightarrow> draft_token_ids option \<Rightarrow> 'c scheduler \<Rightarrow> 'c scheduler" where
  "post_step cfg use_spec_decode executed drafts s =
     (if \<not> c_async_scheduling cfg \<and> use_spec_decode \<and> executed then
        (case drafts of None \<Rightarrow> s | Some d \<Rightarrow> update_draft_token_ids cfg d s)
      else s)"

section \<open>Several batches under way\<close>

text \<open>
  The batch queue holds the batches that were scheduled and whose results have not been taken in, the
  newest first. \<open>finished\<close> tells whether the oldest is done, \<open>result\<close> gives its outcome, \<open>None\<close> when
  the executor failed.
\<close>

record 'c engine =
  eng_scheduler :: "'c scheduler"
  batch_queue :: "scheduler_output list"

record batch_setup =
  batch_queue_size :: nat
  is_ec_consumer :: bool
  is_pooling_model :: bool
  use_spec_decode :: bool

definition take_batch ::
  "'c sched_config \<Rightarrow> batch_setup \<Rightarrow> (scheduler_output \<Rightarrow> model_runner_output option) \<Rightarrow> req_id list list \<Rightarrow>
   draft_token_ids option \<Rightarrow> scheduler_output option \<Rightarrow> bool \<Rightarrow> 'c engine \<Rightarrow>
   (((int \<times> engine_core_outputs) list option \<times> bool) \<times> 'c engine) res" where
  "take_batch cfg b result aborts drafts later executed e =
     (if batch_queue e = [] then Inl IndexError
      else
        let out = last (batch_queue e); rest = butlast (batch_queue e) in
        (case result out of
           None \<Rightarrow> Inl RuntimeError
         | Some mo \<Rightarrow>
             res_bind (process_aborts_queue cfg aborts (eng_scheduler e)) (\<lambda>s1.
             res_bind (update_from_output cfg out mo s1) (\<lambda>(outs, s2).
             res_bind
               (case later of
                  None \<Rightarrow> Inr rest
                | Some d \<Rightarrow>
                    if use_spec_decode b then
                      (case drafts of
                         None \<Rightarrow> Inl AssertionError
                       | Some ds \<Rightarrow>
                           res_bind (update_draft_token_ids_in_output cfg ds d s2) (\<lambda>d1. Inr (d1 # rest)))
                    else Inr (d # rest))
               (\<lambda>q. Inr ((Some outs, executed), \<lparr>eng_scheduler = s2, batch_queue = q\<rparr>))))))"

definition step_with_batch_queue ::
  "'c sched_config \<Rightarrow> batch_setup \<Rightarrow> (scheduler_output \<Rightarrow> bool) \<Rightarrow>
   (scheduler_output \<Rightarrow> model_runner_output option) \<Rightarrow> req_id list list \<Rightarrow> draft_token_ids option \<Rightarrow>
   'c engine \<Rightarrow> (((int \<times> engine_core_outputs) list option \<times> bool) \<times> 'c engine) res" where
  "step_with_batch_queue cfg b finished result aborts drafts e =
     require (length (batch_queue e) < batch_queue_size b) AssertionError
       (if has_requests (eng_scheduler e) then
          res_bind (schedule cfg (eng_scheduler e)) (\<lambda>(out, s1).
            let executed = (is_ec_consumer b \<and> so_total_num_scheduled_tokens out > 0);
                defer = (\<not> (is_pooling_model b \<or> \<not> executed) \<and> so_pending_structured_output out)
            in
            if defer then
              take_batch cfg b result aborts drafts (Some out) executed (e\<lparr>eng_scheduler := s1\<rparr>)
            else
              let q = out # batch_queue e; e1 = \<lparr>eng_scheduler = s1, batch_queue = q\<rparr> in
              if executed \<and> length q < batch_queue_size b \<and> \<not> finished (last q)
              then Inr ((None, True), e1)
              else take_batch cfg b result aborts drafts None executed e1)
        else if batch_queue e = [] then Inr ((None, False), e)
        else take_batch cfg b result aborts drafts None False e)"

section \<open>Pausing and resetting\<close>

datatype pause_mode = PauseAbort | PauseWait | PauseKeep

definition reset_caches :: "'c sched_config \<Rightarrow> bool \<Rightarrow> 'c scheduler \<Rightarrow> 'c scheduler res" where
  "reset_caches cfg reset_running s =
     res_bind (reset_scheduler_prefix_cache cfg reset_running False s) (\<lambda>(_, s1).
       Inr (reset_encoder_cache s1))"

text \<open>In the process of the caller; there the mode \<open>wait\<close> is refused.\<close>

definition pause_scheduler ::
  "'c sched_config \<Rightarrow> pause_mode \<Rightarrow> bool \<Rightarrow> 'c scheduler \<Rightarrow> 'c scheduler res" where
  "pause_scheduler cfg mode clear_cache s =
     (if mode = PauseWait then Inl ValueError
      else
        res_bind
          (if mode = PauseAbort then
             res_bind (finish_requests cfg None FINISHED_ABORTED s) (\<lambda>(_, s1). Inr s1)
           else Inr s)
          (\<lambda>s1.
             let s2 = set_pause_state (if mode = PauseKeep then PAUSED_ALL else PAUSED_NEW) s1
             in if clear_cache then reset_caches cfg True s2 else Inr s2))"

definition resume_scheduler :: "'c scheduler \<Rightarrow> 'c scheduler" where
  "resume_scheduler s = set_pause_state UNPAUSED s"

definition is_scheduler_paused :: "'c scheduler \<Rightarrow> bool" where
  "is_scheduler_paused s = (sched_pause_state s \<noteq> UNPAUSED)"

section \<open>Runs\<close>

text \<open>
  One operation of an engine without a batch queue. New requests come from \<open>Request.__init__\<close> with
  the status \<open>WAITING\<close> or \<open>WAITING_FOR_FSM\<close>.
\<close>

inductive engine_op :: "'c sched_config \<Rightarrow> 'c scheduler \<Rightarrow> 'c scheduler \<Rightarrow> bool" for cfg where
  op_step: "engine_step cfg execute aborts s = Inr (res, s') \<Longrightarrow> engine_op cfg s s'"
| op_post: "engine_op cfg s (post_step cfg spec executed drafts s)"
| op_add: "add_request cfg r s = Inr s' \<Longrightarrow> arrives r \<Longrightarrow> engine_op cfg s s'"
| op_abort: "abort_requests cfg ids s = Inr s' \<Longrightarrow> engine_op cfg s s'"
| op_reset: "reset_caches cfg reset_running s = Inr s' \<Longrightarrow> engine_op cfg s s'"
| op_reset_prefix: "reset_scheduler_prefix_cache cfg run conn s = Inr (ok, s') \<Longrightarrow> engine_op cfg s s'"
| op_pause: "pause_scheduler cfg mode clear s = Inr s' \<Longrightarrow> engine_op cfg s s'"
| op_resume: "engine_op cfg s (resume_scheduler s)"

inductive engine_run :: "'c sched_config \<Rightarrow> 'c scheduler \<Rightarrow> 'c scheduler \<Rightarrow> bool" for cfg where
  run_start: "engine_run cfg s s"
| run_op: "engine_run cfg s t \<Longrightarrow> engine_op cfg t u \<Longrightarrow> engine_run cfg s u"

lemma init_queues: "queues_ok [] (init_scheduler cfg inc k m w)"
  by (cases "c_policy cfg") (simp_all add: init_scheduler_def queues_ok_def run_set_def wait_set_def
      stream_set_def waiting_ids_def named_def sample_request_def)

text \<open>The requests of a step are expected when their tokens arrive, whatever was aborted meanwhile.\<close>

lemma schedule_keeps:
  assumes s: "schedule cfg s = Inr (out, s')" and q: "queues_ok [] s"
  shows "queues_ok [] s' \<and> distinct (map fst (so_num_scheduled_tokens out)) \<and>
    fst ` set (so_num_scheduled_tokens out) \<subseteq> set (running s')"
proof -
  obtain s1 l where p: "schedule_phases cfg s = Inr (s1, l)" and f: "finish_step cfg s1 l = Inr (out, s')"
    using s by (auto simp: schedule_def res_bind_eq_Inr)
  have k: "queues_ok [] s1" "step_books False (step_budget cfg s) s1 l"
    using phases_keep [OF p q, of False] by simp_all
  have n: "named (objects s1)" using k(1) by (simp add: queues_ok_def)
  note fin = finish_step_keeps [OF f n]
  have "running s' = running s1" using fin by (simp add: same_queues_def)
  then show ?thesis using fin k queues_ok_same [of s1 s'] by (auto simp: output_books_def books_defs)
qed

lemma queues_running: "queues_ok X s \<Longrightarrow> rid \<in> set (running s) \<Longrightarrow> rid \<in> set (requests s) \<and> status (objects s rid) = RUNNING"
  by (auto simp: queues_ok_def run_set_def)

lemma aborted_expected:
  assumes "process_aborts_queue cfg aborts s = Inr s'" and "queues_ok [] s" and "rid \<in> set (running s)"
  shows "queues_ok [] s' \<and> expected s' rid"
proof -
  have run: "status (objects s rid) = RUNNING" using queues_running assms(2,3) by blast
  show ?thesis
  proof (cases "aborts = []")
    case True
    then show ?thesis using assms run by (simp add: process_aborts_queue_def expected_def)
  next
    case False
    then obtain x where f: "finish_requests cfg (Some (concat aborts)) FINISHED_ABORTED s = Inr (x, s')"
      using assms(1) by (auto simp: process_aborts_queue_def abort_requests_def res_bind_eq_Inr)
    let ?v = "valid_requests (remdups (concat aborts)) s"
    have "fold_res (finish_one cfg FINISHED_ABORTED) ?v (leave_queues ?v s) = Inr s'"
      using f by (auto simp: finish_requests_def Let_def res_bind_eq_Inr require_eq_Inr)
    from finish_all_finishing [OF this] have fin: "finishing (set ?v) (leave_queues ?v s) s'"
      by (simp add: is_finished_status_iff)
    have "objects (leave_queues ?v s) = objects s" by (simp add: leave_queues_def Let_def)
    then have "expected s' rid" using fin run by (cases "rid \<in> set ?v") (auto simp: finishing_def expected_def)
    then show ?thesis using finish_requests_keeps [OF f assms(2)] by simp
  qed
qed

lemma engine_step_keeps:
  assumes e: "engine_step cfg execute aborts s = Inr (res, s')" and q: "queues_ok [] s"
    and h: "hasher_ok (c_hasher cfg)"
  shows "queues_ok [] s'"
proof (cases "has_requests s")
  case True
  then obtain out s1 s2 outs where a: "schedule cfg s = Inr (out, s1)"
    and b: "process_aborts_queue cfg aborts s1 = Inr s2"
    and c: "update_from_output cfg out (execute out) s2 = Inr (outs, s')"
    using e by (auto simp: engine_step_def res_bind_eq_Inr)
  note k = schedule_keeps [OF a q]
  have q1: "queues_ok [] s1" using k by simp
  have exp: "\<forall>rid \<in> fst ` set (so_num_scheduled_tokens out). expected s2 rid"
    using aborted_expected [OF b q1] k by blast
  have "queues_ok [] s2"
  proof (cases "aborts = []")
    case True
    then show ?thesis using b q1 by (simp add: process_aborts_queue_def)
  next
    case False
    then obtain x where "finish_requests cfg (Some (concat aborts)) FINISHED_ABORTED s1 = Inr (x, s2)"
      using b by (auto simp: process_aborts_queue_def abort_requests_def res_bind_eq_Inr)
    then show ?thesis by (rule finish_requests_keeps [OF _ q1])
  qed
  from update_from_output_keeps [OF c this h _ exp] k show ?thesis by simp
next
  case False
  then show ?thesis using e q by (simp add: engine_step_def)
qed

lemma reset_caches_keeps:
  assumes "reset_caches cfg run s = Inr s'" and "queues_ok X s"
  shows "queues_ok X s'"
proof -
  obtain ok s1 where r: "reset_scheduler_prefix_cache cfg run False s = Inr (ok, s1)"
    and s': "s' = reset_encoder_cache s1" using assms(1) by (auto simp: reset_caches_def res_bind_eq_Inr)
  have "same_queues s1 s'" by (simp add: s' reset_encoder_cache_def)
  then show ?thesis using reset_prefix_keeps [OF r assms(2)] queues_ok_same by blast
qed

lemma engine_op_keeps:
  assumes "engine_op cfg s s'" and q: "queues_ok [] s" and h: "hasher_ok (c_hasher cfg)"
  shows "queues_ok [] s'"
  using assms(1)
proof cases
  case (op_step execute aborts res)
  then show ?thesis using engine_step_keeps q h by blast
next
  case (op_post spec executed drafts)
  have "same_queues s s'" using drafts_same by (auto simp: op_post post_step_def split: option.split)
  then show ?thesis using queues_ok_same q by blast
next
  case (op_add r)
  then show ?thesis using add_request_keeps q h by blast
next
  case (op_abort ids)
  then show ?thesis using finish_requests_keeps [OF _ q] by (auto simp: abort_requests_def res_bind_eq_Inr)
next
  case (op_reset run)
  then show ?thesis using reset_caches_keeps q by blast
next
  case (op_reset_prefix run conn ok)
  then show ?thesis using reset_prefix_keeps q by blast
next
  case (op_pause mode clear)
  then obtain s1 where 1: "(if mode = PauseAbort then
             res_bind (finish_requests cfg None FINISHED_ABORTED s) (\<lambda>(_, s1). Inr s1) else Inr s) = Inr s1"
    and 2: "(let s2 = set_pause_state (if mode = PauseKeep then PAUSED_ALL else PAUSED_NEW) s1
             in if clear then reset_caches cfg True s2 else Inr s2) = Inr s'"
    by (auto simp: pause_scheduler_def Let_def res_bind_eq_Inr split: if_split_asm)
  have q1: "queues_ok [] s1" using 1 q finish_requests_keeps [OF _ q] by (auto simp: res_bind_eq_Inr split: if_split_asm)
  let ?s2 = "set_pause_state (if mode = PauseKeep then PAUSED_ALL else PAUSED_NEW) s1"
  have q2: "queues_ok [] ?s2" using queues_ok_same [of s1 ?s2] q1 by (simp add: set_pause_state_def)
  show ?thesis
  proof (cases clear)
    case True
    then show ?thesis using 2 reset_caches_keeps [OF _ q2] by (simp add: Let_def)
  next
    case False
    then show ?thesis using 2 q2 by (simp add: Let_def)
  qed
next
  case op_resume
  then show ?thesis using queues_ok_same [of s s'] q by (simp add: resume_scheduler_def set_pause_state_def)
qed

lemma engine_run_keeps:
  assumes "engine_run cfg s s'" and "queues_ok [] s" and "hasher_ok (c_hasher cfg)"
  shows "queues_ok [] s'"
  using assms by (induction) (auto intro: engine_op_keeps)

section \<open>Properties\<close>

text \<open>
  A short run: two requests arrive; in the next step both are scheduled, the second is aborted while the
  model runs, the first gets the token 9.
\<close>

definition sample_all :: "token \<Rightarrow> scheduler_output \<Rightarrow> model_runner_output" where
  "sample_all t out =
     (let ids = map fst (so_num_scheduled_tokens out) in
      \<lparr>mo_req_id_to_index = zip ids (map int [0..<length ids]), mo_sampled_token_ids = map (\<lambda>_. [t]) ids,
       mo_pooler_output = [], mo_prompt_logprobs = [], mo_kv_connector_output = None\<rparr>)"

definition first_scheduler :: "unit scheduler" where
  "first_scheduler = init_scheduler plain_config False (projr small_kvm) (MMCache (init_enc_cache 16)) ()"

definition short_run :: "unit scheduler res" where
  "short_run =
     res_bind (add_request plain_config (hashed_request ''a'') first_scheduler) (\<lambda>s1.
     res_bind (add_request plain_config (hashed_request ''b'') s1) (\<lambda>s2.
     res_bind (engine_step plain_config (sample_all 9) [[''b'']] s2) (\<lambda>(_, s3). Inr s3)))"

lemma short_run_reaches:
  "\<exists>s. engine_run plain_config first_scheduler s \<and> running s = [''a''] \<and> requests s = [''a'']
     \<and> sched_pause_state s = UNPAUSED \<and> all_token_ids (objects s ''a'') = [1, 2, 3, 9]"
proof -
  have "(case short_run of Inr s \<Rightarrow> running s = [''a''] \<and> requests s = [''a''] \<and> sched_pause_state s = UNPAUSED
      \<and> all_token_ids (objects s ''a'') = [1, 2, 3, 9] | Inl _ \<Rightarrow> False)" by code_simp
  then obtain s where r: "short_run = Inr s" and p: "running s = [''a'']" "requests s = [''a'']"
    "sched_pause_state s = UNPAUSED" "all_token_ids (objects s ''a'') = [1, 2, 3, 9]" by (auto split: sum.splits)
  obtain s1 s2 x where o: "add_request plain_config (hashed_request ''a'') first_scheduler = Inr s1"
    "add_request plain_config (hashed_request ''b'') s1 = Inr s2"
    "engine_step plain_config (sample_all 9) [[''b'']] s2 = Inr (x, s)"
    using r unfolding short_run_def by (auto simp: res_bind_eq_Inr)
  have "arrives (hashed_request i)" for i by (simp add: arrives_def hashed_request_def sample_request_def)
  then have "engine_run plain_config first_scheduler s"
    using run_op [OF run_op [OF run_op [OF run_start op_add [OF o(1)]] op_add [OF o(2)]] op_step [OF o(3)]] by blast
  then show ?thesis using p by blast
qed

lemma plain_hasher_ok: "hasher_ok (c_hasher plain_config)"
  by (simp add: plain_config_def no_hasher_ok)

text \<open>
  C3. No request is lost or served twice by \<open>EngineCore.step\<close>: after any sequence of engine steps,
  arrivals, aborts, also those between the schedule and the results of a step, draft updates, cache
  resets, pauses and resumptions, the queues \<open>running\<close>, \<open>waiting\<close> and \<open>skipped_waiting\<close> together
  hold every unfinished request exactly once and nothing else, and the running ones are exactly those
  with status \<open>RUNNING\<close>. Steps with a batch queue are not among them; they can lose a session
  (\<open>preempted_session_lost\<close>).
\<close>

theorem no_request_lost:
  assumes "hasher_ok (c_hasher cfg)" and "engine_run cfg (init_scheduler cfg inc k m w) s"
  shows "mset (running s @ rq_items (waiting s) @ rq_items (skipped_waiting s))
     = mset (filter (\<lambda>rid. \<not> is_finished (objects s rid)) (requests s)) \<and>
    set (running s) = {rid \<in> set (requests s). status (objects s rid) = RUNNING}"
proof -
  have q: "queues_ok [] s" using engine_run_keeps [OF assms(2) init_queues assms(1)] .
  then have d: "distinct (requests s)" "distinct (running s)" "set (running s) = run_set s"
    "distinct (waiting_ids [] s)" "set (waiting_ids [] s) = wait_set s" by (simp_all add: queues_ok_def)
  have fin: "\<not> is_finished_status RUNNING" by (simp add: is_finished_status_iff)
  have "run_set s \<inter> wait_set s = {}" by (auto simp: run_set_def wait_set_def)
  then have "distinct (running s @ waiting_ids [] s)" using d by auto
  moreover have "run_set s \<union> wait_set s = {rid \<in> set (requests s). \<not> is_finished (objects s rid)}"
    using fin by (auto simp: run_set_def wait_set_def is_finished_def)
  then have "set (running s @ waiting_ids [] s) = set (filter (\<lambda>rid. \<not> is_finished (objects s rid)) (requests s))"
    using d by auto
  ultimately have "mset (running s @ waiting_ids [] s) = mset (filter (\<lambda>rid. \<not> is_finished (objects s rid)) (requests s))"
    using d(1) by (simp add: set_eq_iff_mset_eq_distinct del: set_append set_filter mset_append mset_filter)
  then show ?thesis using d(3) by (simp add: waiting_ids_def run_set_def)
qed

lemma no_request_lost_witness:
  "\<exists>s. engine_run plain_config first_scheduler s \<and> running s = [''a''] \<and>
     mset (running s @ rq_items (waiting s) @ rq_items (skipped_waiting s)) = {#''a''#}"
proof -
  obtain s where r: "engine_run plain_config first_scheduler s" "running s = [''a'']" "requests s = [''a'']"
    using short_run_reaches by blast
  have "mset (running s @ rq_items (waiting s) @ rq_items (skipped_waiting s))
      = mset (filter (\<lambda>rid. \<not> is_finished (objects s rid)) (requests s))"
    using no_request_lost [OF plain_hasher_ok] r(1) unfolding first_scheduler_def by blast
  moreover have "size (mset (running s @ rq_items (waiting s) @ rq_items (skipped_waiting s))) \<ge> 1" using r(2) by simp
  ultimately show ?thesis using r by (intro exI conjI) (auto split: if_splits)
qed

text \<open>
  C7. The engine knows when it has work: in every state of such a run (by \<open>EngineCore.step\<close>, without a
  batch queue) that is not paused, the number \<open>get_num_unfinished_requests\<close> computes from the lengths
  of the queues and the counter of waiting sessions is the number of unfinished requests that do not
  wait for input, so \<open>has_unfinished_requests\<close> is false only when there is none.
\<close>

theorem unfinished_count_exact:
  assumes "hasher_ok (c_hasher cfg)" and "engine_run cfg (init_scheduler cfg inc k m w) s"
    and "sched_pause_state s = UNPAUSED"
  shows "get_num_unfinished_requests s = int (card {rid \<in> set (requests s).
      \<not> is_finished (objects s rid) \<and> status (objects s rid) \<noteq> WAITING_FOR_STREAMING_REQ})"
proof -
  have q: "queues_ok [] s" using engine_run_keeps [OF assms(2) init_queues assms(1)] .
  then have d: "distinct (running s)" "set (running s) = run_set s" "distinct (waiting_ids [] s)"
    "set (waiting_ids [] s) = wait_set s" and n: "num_waiting_for_streaming_input s = int (card (stream_set s))"
    by (simp_all add: queues_ok_def)
  have fin: "\<not> is_finished_status RUNNING" "\<not> is_finished_status WAITING_FOR_STREAMING_REQ"
    by (simp_all add: is_finished_status_iff)
  have f: "finite (run_set s)" "finite (wait_set s)" by (simp_all add: run_set_def wait_set_def)
  have len: "length (running s) = card (run_set s)" "length (waiting_ids [] s) = card (wait_set s)"
    using distinct_card [OF d(1)] distinct_card [OF d(3)] d(2,4) by simp_all
  have sub: "stream_set s \<subseteq> wait_set s" by (rule stream_set_waits)
  have "{rid \<in> set (requests s). \<not> is_finished (objects s rid) \<and> status (objects s rid) \<noteq> WAITING_FOR_STREAMING_REQ}
      = run_set s \<union> (wait_set s - stream_set s)"
    using fin by (auto simp: run_set_def wait_set_def stream_set_def is_finished_def)
  moreover have "run_set s \<inter> (wait_set s - stream_set s) = {}" by (auto simp: run_set_def wait_set_def)
  ultimately have "card {rid \<in> set (requests s). \<not> is_finished (objects s rid)
      \<and> status (objects s rid) \<noteq> WAITING_FOR_STREAMING_REQ} = card (run_set s) + (card (wait_set s) - card (stream_set s))"
    using f sub by (simp add: card_Un_disjoint card_Diff_subset finite_subset)
  moreover have "card (stream_set s) \<le> card (wait_set s)" using sub f by (intro card_mono)
  ultimately show ?thesis
    using len n assms(3) by (simp add: get_num_unfinished_requests_def rq_len_def waiting_ids_def)
qed

text \<open>A short run: two requests arrive, the first is scheduled and stops, the second is aborted.\<close>

lemma unfinished_count_exact_witness:
  "\<exists>s. engine_run plain_config first_scheduler s \<and> all_token_ids (objects s ''a'') = [1, 2, 3, 9] \<and>
     get_num_unfinished_requests s = int (card {rid \<in> {''a''}.
      \<not> is_finished (objects s rid) \<and> status (objects s rid) \<noteq> WAITING_FOR_STREAMING_REQ})"
proof -
  obtain s where r: "engine_run plain_config first_scheduler s" "requests s = [''a'']"
    "sched_pause_state s = UNPAUSED" "all_token_ids (objects s ''a'') = [1, 2, 3, 9]" using short_run_reaches by blast
  from unfinished_count_exact [OF plain_hasher_ok r(1) [unfolded first_scheduler_def] r(3)] r show ?thesis
    by (intro exI conjI) simp_all
qed

end
