(* ===== verification/Sched_Sessions.thy ===== *)
theory Sched_Sessions
  imports Engine_Core
begin

text \<open>
  Streaming sessions: a resumable request that has stopped takes the next chunk of input
  (\<open>Scheduler._update_request_as_session\<close>). The tokens that were computed stay, the last sampled token
  is dropped. What this keeps of the block hashes, and what happens when the session was preempted.
\<close>

section \<open>Block hashes of a session\<close>

lemma hash_chain_take:
  assumes "0 < bs" and "int k * bs \<le> int n" and "n \<le> length ts"
  shows "hash_chain H none_hash bs ks (take n ts @ us) k = hash_chain H none_hash bs ks ts k"
proof -
  have le: "int k * bs \<le> int (length (take n ts))" using assms by simp
  have "hash_chain H none_hash bs ks (take n ts @ us) k = hash_chain H none_hash bs ks (take n ts) k"
    by (rule hash_chain_append [OF assms(1) le])
  also have "\<dots> = hash_chain H none_hash bs ks (take n ts @ drop n ts) k"
    by (rule hash_chain_append [OF assms(1) le, symmetric])
  finally show ?thesis by simp
qed

lemma not_isl_iff: "\<not> isl x \<longleftrightarrow> (\<exists>y. x = Inr y)"
  by (cases x) simp_all

declare hasher_loop.simps [code]

lemma extend_session_chunk:
  assumes "su_mm_features u = []" and "prompt_token_ids r = Some p"
    and "q = p @ py_slice (all_token_ids r) (num_prompt_tokens r) (num_computed_tokens r) @ su_prompt_token_ids u"
    and "update_block_hashes h (r\<lparr>output_token_ids := [], mm_features := mm_features r,
      all_token_ids := py_upto (all_token_ids r) (num_computed_tokens r) @ su_prompt_token_ids u,
      prompt_token_ids := Some q\<rparr>) = Some (Inr r3)"
  shows "extend_session h u r = Inr (r3\<lparr>num_prompt_tokens := int (length q),
    arrival_time := su_arrival_time u, sampling_params := su_sampling_params u\<rparr>)"
  using assms by (simp add: extend_session_def Let_def run_res_def)

text \<open>What an update leaves, whatever the hasher appended.\<close>

lemma extend_session_effect:
  assumes "extend_session hs u r = Inr r'" and "hasher_ok hs"
  obtains p q more_hashes where "prompt_token_ids r = Some p"
    and "q = p @ py_slice (all_token_ids r) (num_prompt_tokens r) (num_computed_tokens r) @ su_prompt_token_ids u"
    and "prompt_token_ids r' = Some q" and "num_prompt_tokens r' = int (length q)"
    and "all_token_ids r' = py_upto (all_token_ids r) (num_computed_tokens r) @ su_prompt_token_ids u"
    and "block_hashes r' = block_hashes r @ more_hashes"
proof -
  obtain p where p: "prompt_token_ids r = Some p" using assms(1)
    by (cases "prompt_token_ids r") (simp_all add: extend_session_def Let_def)
  define q where "q = p @ py_slice (all_token_ids r) (num_prompt_tokens r) (num_computed_tokens r) @ su_prompt_token_ids u"
  obtain feats r2 r3 a sp where r2: "r2 = r\<lparr>output_token_ids := [], mm_features := feats,
      all_token_ids := py_upto (all_token_ids r) (num_computed_tokens r) @ su_prompt_token_ids u,
      prompt_token_ids := Some q\<rparr>"
    and h: "run_res (update_block_hashes hs r2) = Inr r3"
    and r': "r' = r3\<lparr>num_prompt_tokens := int (length q), arrival_time := a, sampling_params := sp\<rparr>"
    using assms(1) p by (auto simp: extend_session_def Let_def res_bind_eq_Inr q_def)
  have "\<exists>m x. r3 = r2\<lparr>prompt_embeds_hashes := x, block_hashes := block_hashes r2 @ m\<rparr>"
  proof (cases hs)
    case None
    then show ?thesis using h by (intro exI [of _ "[]"] exI [of _ "prompt_embeds_hashes r2"])
      (simp add: update_block_hashes_def run_res_def)
  next
    case (Some f)
    then obtain q' m where f: "f r2 = Some (Inr (q', m))" and r3: "r3 = q'\<lparr>block_hashes := block_hashes q' @ m\<rparr>"
      using h by (cases "f r2"; cases "the (f r2)") (auto simp: update_block_hashes_def run_res_def)
    have "memo_only r2 q'" using assms(2) Some f by (auto simp: hasher_ok_def)
    then obtain y where "q' = r2\<lparr>prompt_embeds_hashes := y\<rparr>" by (auto simp: memo_only_def)
    then have "r3 = r2\<lparr>prompt_embeds_hashes := y, block_hashes := block_hashes r2 @ m\<rparr>" by (simp add: r3)
    then show ?thesis by blast
  qed
  then obtain m x where "r3 = r2\<lparr>prompt_embeds_hashes := x, block_hashes := block_hashes r2 @ m\<rparr>" by blast
  then show thesis using that [OF p q_def, of m] by (simp add: r' r2)
qed

lemma hashes_ok_length: "hashes_ok H none_hash bs r \<Longrightarrow> length (block_hashes r) = full_blocks bs r"
  by (simp only: hashes_ok_def chain_of_def length_hash_chain)

lemma block_of_chain:
  assumes "hashes_ok H none_hash bs r" and "i < full_blocks bs r"
  shows "block_hashes r ! i = last (chain_of H none_hash bs r (Suc i))"
  using assms by (simp only: hashes_ok_def chain_of_def hash_chain_nth)

section \<open>An example\<close>

text \<open>
  A hash that keeps all it is given; requests with one hashed block of two tokens; the update that
  brings the given tokens.
\<close>

definition session_hash :: "hash_input \<Rightarrow> block_hash" where
  "session_hash = (\<lambda>(p, ts, keys). p @ map word_of_int ts)"

definition session_request :: "req_id \<Rightarrow> bool \<Rightarrow> int \<Rightarrow> token list \<Rightarrow> request" where
  "session_request rid again n ts = (sample_request rid ts)\<lparr>resumable := again, max_tokens := n,
     block_hashes := [0 # map word_of_int (take 2 ts)]\<rparr>"

definition next_chunk :: "token list \<Rightarrow> streaming_update" where
  "next_chunk ts = \<lparr>su_mm_features = [], su_prompt_token_ids = ts, su_max_tokens = 2, su_arrival_time = 1,
     su_sampling_params = Some sample_params\<rparr>"

text \<open>The session of the example after three prompt tokens and the output 9, and also 4 and 9.\<close>

definition stopped_session :: "token list \<Rightarrow> block_hash list \<Rightarrow> request" where
  "stopped_session outs hs = (session_request ''a'' True 2 [1, 2, 3])\<lparr>all_token_ids := [1, 2, 3] @ outs,
     output_token_ids := outs, num_computed_tokens := 2 + int (length outs), block_hashes := hs\<rparr>"

section \<open>What an update keeps\<close>

text \<open>
  C9. A text-only session that takes a text-only input keeps the block hashes right, if it was not
  preempted (its prompt is computed) and its last, partly filled block still has room (its full blocks
  are computed). The new prompt is exactly the tokens the session then has: the computed ones and the
  new input.
\<close>

theorem session_update_keeps_hashes:
  assumes "0 < bs" and "plain r" and "hashes_ok H none_hash bs r" and "su_mm_features u = []"
    and "prompt_token_ids r = Some (take (nat (num_prompt_tokens r)) (all_token_ids r))"
    and "0 \<le> num_prompt_tokens r" "num_prompt_tokens r \<le> num_computed_tokens r"
    and "int (full_blocks bs r) * bs \<le> num_computed_tokens r" "num_computed_tokens r \<le> num_tokens r"
  shows "\<exists>r'. extend_session (Some (request_block_hasher H sha none_hash bs)) u r = Inr r' \<and>
    hashes_ok H none_hash bs r' \<and> output_token_ids r' = [] \<and>
    all_token_ids r' = take (nat (num_computed_tokens r)) (all_token_ids r) @ su_prompt_token_ids u \<and>
    prompt_token_ids r' = Some (all_token_ids r') \<and> num_prompt_tokens r' = num_tokens r'"
proof -
  let ?c = "nat (num_computed_tokens r)" and ?p = "nat (num_prompt_tokens r)"
  let ?old = "take ?c (all_token_ids r)" and ?new = "su_prompt_token_ids u"
  let ?r2 = "r\<lparr>output_token_ids := [], mm_features := [], all_token_ids := ?old @ ?new,
     prompt_token_ids := Some (?old @ ?new)\<rparr>"
  have c: "?c \<le> length (all_token_ids r)" "?p \<le> ?c" "int ?c = num_computed_tokens r"
    using assms(6-9) by (simp_all add: num_tokens_def)
  have up: "py_upto (all_token_ids r) (num_computed_tokens r) = ?old"
    using assms(6,7) by (intro py_upto_nonneg) linarith
  have "py_slice (all_token_ids r) (num_prompt_tokens r) (num_computed_tokens r) = drop ?p ?old"
    using c assms(6,7) by (subst py_slice_nonneg) (simp_all add: drop_take)
  moreover have "take ?p (all_token_ids r) = take ?p ?old" using c by (simp add: min_absorb1)
  ultimately have prompt: "take ?p (all_token_ids r) @ py_slice (all_token_ids r) (num_prompt_tokens r)
      (num_computed_tokens r) @ ?new = ?old @ ?new" by (simp only: append_assoc [symmetric] append_take_drop_id)
  have mm: "mm_features r = []" using assms(2) by (simp add: plain_def)
  have p: "plain ?r2" using assms(2) by (simp add: plain_def)
  have keys: "plain_keys ?r2 = plain_keys r" by (rule plain_keys_cong) simp_all
  have b: "block_hashes ?r2 = chain_of H none_hash bs ?r2 (full_blocks bs r)"
    using assms(3,8) c hash_chain_take [OF assms(1), of "full_blocks bs r" ?c "all_token_ids r"]
    by (simp add: hashes_ok_def chain_of_def keys)
  have "int (full_blocks bs r) \<le> num_tokens ?r2 div bs"
    using assms(1,8) c by (subst int_le_div_iff) (simp_all add: num_tokens_def)
  then have k: "full_blocks bs r \<le> full_blocks bs ?r2" unfolding full_blocks_def [of bs ?r2] by linarith
  let ?r3 = "?r2\<lparr>block_hashes := chain_of H none_hash bs ?r2 (full_blocks bs ?r2)\<rparr>"
  let ?r' = "?r3\<lparr>num_prompt_tokens := int (length (?old @ ?new)), arrival_time := su_arrival_time u,
     sampling_params := su_sampling_params u\<rparr>"
  have "update_block_hashes (Some (request_block_hasher H sha none_hash bs)) ?r2 = Some (Inr ?r3)"
    by (rule update_block_hashes_plain [OF assms(1) p b k])
  then have e: "extend_session (Some (request_block_hasher H sha none_hash bs)) u r = Inr ?r'"
    by (intro extend_session_chunk [OF assms(4,5) prompt [symmetric]]) (simp only: mm up)
  have "plain_keys ?r' = plain_keys ?r2" by (rule plain_keys_cong) simp_all
  then have "hashes_ok H none_hash bs ?r'" by (simp add: hashes_ok_def chain_of_def full_blocks_def num_tokens_def)
  with e show ?thesis by (intro exI [of _ ?r'] conjI) (simp_all add: num_tokens_def)
qed

lemma session_update_keeps_hashes_witness:
  "\<exists>r. extend_session (Some (request_block_hasher session_hash id [0] 2)) (next_chunk [7, 8])
      (stopped_session [4, 9] [[0, 1, 2], [0, 1, 2, 3, 4]]) = Inr r \<and> all_token_ids r = [1, 2, 3, 4, 7, 8]
    \<and> hashes_ok session_hash [0] 2 r"
proof -
  let ?r = "stopped_session [4, 9] [[0, 1, 2], [0, 1, 2, 3, 4]]"
  have r: "num_tokens ?r = 5" "num_prompt_tokens ?r = 3" "num_computed_tokens ?r = 4"
    "all_token_ids ?r = [1, 2, 3, 4, 9]" "prompt_token_ids ?r = Some [1, 2, 3]" "full_blocks 2 ?r = 2" "plain ?r"
    by (simp_all add: stopped_session_def session_request_def sample_request_def num_tokens_def full_blocks_def plain_def)
  have "hashes_ok session_hash [0] 2 ?r" by code_simp
  from session_update_keeps_hashes [OF _ _ this, of "next_chunk [7, 8]" id] show ?thesis
    by (auto simp: r next_chunk_def)
qed

text \<open>The first token of the new input takes the place of the last token.\<close>

lemma last_token_replaced:
  assumes bs: "0 < bs" and n: "num_tokens r = int n" "0 < n" and c: "num_computed_tokens r = num_tokens r - 1"
    and u: "su_prompt_token_ids u = t # ts"
    and ext: "extend_session (Some (request_block_hasher H sha none_hash bs)) u r = Inr r'"
  shows "\<exists>hs. block_hashes r' = block_hashes r @ hs" "take n (all_token_ids r') = butlast (all_token_ids r) @ [t]"
    "py_get (all_token_ids r') (num_tokens r - 1) = Inr t"
proof -
  have len: "length (all_token_ids r) = n" using n(1) by (simp add: num_tokens_def)
  have comp: "num_computed_tokens r = int (n - 1)" using c n by (simp add: of_nat_diff)
  have up: "py_upto (all_token_ids r) (num_computed_tokens r) = butlast (all_token_ids r)"
    using py_upto_nonneg [of "num_computed_tokens r"] comp len by (simp add: butlast_conv_take)
  obtain hs where hs: "block_hashes r' = block_hashes r @ hs"
    and toks: "all_token_ids r' = butlast (all_token_ids r) @ t # ts"
    using extend_session_effect [OF ext request_block_hasher_ok] up u by metis
  show "\<exists>hs. block_hashes r' = block_hashes r @ hs" using hs by blast
  have lb: "length (butlast (all_token_ids r)) = n - 1" using len by simp
  then show "take n (all_token_ids r') = butlast (all_token_ids r) @ [t]"
    using n(2) by (simp add: toks del: length_butlast)
  have "num_tokens r - 1 = int (n - 1)" using n by (simp add: of_nat_diff)
  moreover have "all_token_ids r' ! (n - 1) = t" unfolding toks lb [symmetric] by (rule nth_append_length)
  moreover have "n - 1 < length (all_token_ids r')" unfolding toks length_append lb by simp
  ultimately show "py_get (all_token_ids r') (num_tokens r - 1) = Inr t"
    by (simp only: py_get_nonneg of_nat_0_le_iff nat_int of_nat_less_iff if_True)
qed

text \<open>
  C10. When the dropped token had completed a block, the hash of that block stays: it names the dropped
  token, although the block will hold the first token of the new input. Unless both tokens agree or the
  hash function fails, the session's hashes are wrong from then on, and the block is offered to other
  requests whose prompt continues with the dropped token.
\<close>

theorem session_update_stale_hash:
  assumes "0 < bs" and "hashes_ok H none_hash bs r"
    and "num_tokens r = int (Suc k) * bs" and "num_computed_tokens r = num_tokens r - 1"
    and "su_prompt_token_ids u = t # ts" and "t \<noteq> last (all_token_ids r)"
    and "extend_session (Some (request_block_hasher H sha none_hash bs)) u r = Inr r'"
  shows "block_hashes r' ! k = block_hashes r ! k \<and> py_get (all_token_ids r') (num_tokens r - 1) = Inr t \<and>
    (hash_failure H none_hash \<or> \<not> hashes_ok H none_hash bs r')"
proof -
  let ?n = "Suc k * nat bs"
  have n: "num_tokens r = int ?n" "0 < ?n" using assms(1,3) by (simp_all add: algebra_simps)
  note new = last_token_replaced [OF assms(1) n assms(4,5,7)]
  obtain hs where hs': "block_hashes r' = block_hashes r @ hs" using new(1) by blast
  have "num_tokens r div bs = int (Suc k)" unfolding assms(3) using assms(1) by (simp del: of_nat_Suc)
  then have fb: "full_blocks bs r = Suc k" by (simp add: full_blocks_def)
  have lb: "length (block_hashes r) = Suc k" using hashes_ok_length [OF assms(2)] fb by simp
  have same: "block_hashes r' ! k = block_hashes r ! k" using lb by (simp add: hs' nth_append)
  have ne: "take ?n (all_token_ids r') \<noteq> take ?n (all_token_ids r)"
  proof
    assume "take ?n (all_token_ids r') = take ?n (all_token_ids r)"
    moreover have "length (all_token_ids r) = ?n" using n(1) by (simp only: num_tokens_def of_nat_eq_iff)
    ultimately have "last (butlast (all_token_ids r) @ [t]) = last (all_token_ids r)" using new(2) by simp
    then show False using assms(6) by simp
  qed
  have "hash_failure H none_hash \<or> \<not> hashes_ok H none_hash bs r'"
  proof (rule ccontr)
    assume "\<not> (hash_failure H none_hash \<or> \<not> hashes_ok H none_hash bs r')"
    then have nf: "\<not> hash_failure H none_hash" and ok: "hashes_ok H none_hash bs r'" by simp_all
    have "k < full_blocks bs r'" using hashes_ok_length [OF ok] hs' lb by simp
    then have "last (chain_of H none_hash bs r' (Suc k)) = last (chain_of H none_hash bs r (Suc k))"
      using block_of_chain [OF ok] block_of_chain [OF assms(2), of k] fb same by simp
    from hash_chain_inject [OF nf this [unfolded chain_of_def]] ne show False
      using take_blocks [OF assms(1), of k "all_token_ids r'" "all_token_ids r"] by blast
  qed
  then show ?thesis using same new(3) by simp
qed

lemma session_update_stale_hash_witness:
  "\<exists>r. extend_session (Some (request_block_hasher session_hash id [0] 2)) (next_chunk [7, 8])
      (stopped_session [9] [[0, 1, 2], [0, 1, 2, 3, 9]]) = Inr r \<and> py_get (all_token_ids r) 3 = Inr 7
    \<and> block_hashes r ! 1 = [0, 1, 2, 3, 9]"
proof -
  let ?r = "stopped_session [9] [[0, 1, 2], [0, 1, 2, 3, 9]]"
  have r: "num_tokens ?r = 4" "num_computed_tokens ?r = 3" "all_token_ids ?r = [1, 2, 3, 9]"
    "block_hashes ?r = [[0, 1, 2], [0, 1, 2, 3, 9]]"
    by (simp_all add: stopped_session_def session_request_def sample_request_def num_tokens_def)
  have ok: "hashes_ok session_hash [0] 2 ?r" by code_simp
  have "\<not> isl (extend_session (Some (request_block_hasher session_hash id [0] 2)) (next_chunk [7, 8]) ?r)" by code_simp
  then obtain r' where e: "extend_session (Some (request_block_hasher session_hash id [0] 2)) (next_chunk [7, 8]) ?r = Inr r'"
    by (meson not_isl_iff)
  from session_update_stale_hash [OF _ ok _ _ _ _ e, of 1 7 "[8]"] e show ?thesis
    by (auto simp: r next_chunk_def)
qed

section \<open>Sessions that were preempted\<close>

text \<open>
  A session that was preempted before it takes its next input loses its history: nothing of it
  counts as computed, so all its tokens are dropped, while the prompt keeps them. From then on the
  session runs on the new tokens only and has fewer tokens than its prompt.
\<close>

theorem session_update_preempted:
  assumes "hasher_ok (Some h)" and "num_computed_tokens r = 0" and "prompt_token_ids r = Some p"
    and "num_prompt_tokens r = int (length p)" and "p \<noteq> []"
    and "extend_session (Some h) u r = Inr r'"
  shows "all_token_ids r' = su_prompt_token_ids u \<and> prompt_token_ids r' = Some (p @ su_prompt_token_ids u) \<and>
    num_tokens r' < num_prompt_tokens r'"
proof -
  have slice: "py_slice (all_token_ids r) (num_prompt_tokens r) 0 = []" "py_upto (all_token_ids r) 0 = []"
    using py_slice_nonneg [of "num_prompt_tokens r" 0] py_upto_nonneg [of 0] assms(4) by simp_all
  obtain q where "prompt_token_ids r' = Some q" "num_prompt_tokens r' = int (length q)"
    "q = p @ py_slice (all_token_ids r) (num_prompt_tokens r) (num_computed_tokens r) @ su_prompt_token_ids u"
    "all_token_ids r' = py_upto (all_token_ids r) (num_computed_tokens r) @ su_prompt_token_ids u"
    using extend_session_effect [OF assms(6,1)] assms(3) by (metis option.inject)
  then show ?thesis using assms(2,5) slice by (simp add: num_tokens_def)
qed

lemma session_update_preempted_witness:
  "\<exists>r. extend_session (Some (request_block_hasher session_hash id [0] 2)) (next_chunk [7, 8])
      ((stopped_session [9] [[0, 1, 2], [0, 1, 2, 3, 9]])\<lparr>num_computed_tokens := 0\<rparr>) = Inr r \<and>
    all_token_ids r = [7, 8] \<and> prompt_token_ids r = Some [1, 2, 3, 7, 8]"
proof -
  let ?r = "(stopped_session [9] [[0, 1, 2], [0, 1, 2, 3, 9]])\<lparr>num_computed_tokens := 0\<rparr>"
  let ?h = "request_block_hasher session_hash id [0] 2"
  have "\<not> isl (extend_session (Some ?h) (next_chunk [7, 8]) ?r)" by code_simp
  then obtain r' where e: "extend_session (Some ?h) (next_chunk [7, 8]) ?r = Inr r'" by (meson not_isl_iff)
  have "all_token_ids r' = su_prompt_token_ids (next_chunk [7, 8]) \<and>
      prompt_token_ids r' = Some ([1, 2, 3] @ su_prompt_token_ids (next_chunk [7, 8])) \<and>
      num_tokens r' < num_prompt_tokens r'"
    by (rule session_update_preempted [OF request_block_hasher_ok _ _ _ _ e])
      (simp_all add: stopped_session_def session_request_def sample_request_def)
  with e show ?thesis by (simp add: next_chunk_def)
qed

section \<open>A session that is lost\<close>

text \<open>
  Two batches under way, four blocks of two tokens. The session \<open>''a''\<close> may produce two tokens and has its
  next input queued. While its second token is computed, the next step preempts it, because the older
  request \<open>''b''\<close> needs a third block.
\<close>

definition async_config :: "unit sched_config" where
  "async_config = plain_config\<lparr>c_async_scheduling := True, c_cache_block_size := 2, c_block_size := 2,
     c_hasher := Some (request_block_hasher session_hash id [0] 2)\<rparr>"

definition two_batches :: batch_setup where
  "two_batches = \<lparr>batch_queue_size = 2, is_ec_consumer = True, is_pooling_model = False, use_spec_decode = False\<rparr>"

definition batched_step :: "unit engine \<Rightarrow> unit engine res" where
  "batched_step e = res_bind (step_with_batch_queue async_config two_batches (\<lambda>_. False)
     (\<lambda>out. Some (sample_all 9 out)) [] None e) (\<lambda>(_, e1). Inr e1)"

definition session_start :: "unit engine res" where
  "session_start =
     res_bind (init_kv_cache_manager [full_spec] 5 100 2 True False False False False 1 1) (\<lambda>k.
     res_bind (add_request async_config (session_request ''b'' False 16 [4, 5, 6])
       (init_scheduler async_config False k (MMCache (init_enc_cache 16)) ())) (\<lambda>s1.
     res_bind (add_request async_config (session_request ''a'' True 2 [1, 2, 3]) s1) (\<lambda>s2.
     res_bind (add_request async_config (session_request ''a'' True 2 [7, 8]) s2) (\<lambda>s3.
       Inr \<lparr>eng_scheduler = s3, batch_queue = []\<rparr>))))"

lemma case_Inr_iff: "(case x of Inl _ \<Rightarrow> False | Inr y \<Rightarrow> P y) \<longleftrightarrow> (\<exists>y. x = Inr y \<and> P y)"
  by (cases x) simp_all

definition session_run :: "unit engine res" where
  "session_run = res_bind session_start (\<lambda>e. res_bind (batched_step e) (\<lambda>e. res_bind (batched_step e) batched_step))"

text \<open>
  A session with queued input that stops goes back to \<open>waiting\<close>: it is unfinished, and its name is
  among the requests that stopped while they were not running.
\<close>

lemma stop_requeues_session:
  assumes "resumable (objects s rid)" and "streaming_queue (objects s rid) = Some (Some upd # us)"
    and "before \<noteq> RUNNING" and "stop_request cfg rid before s u = Inr (fin, s', u')"
  shows "status (objects s' rid) = WAITING \<and> requests s' = requests s \<and> running s' = running s
    \<and> skipped_waiting s' = skipped_waiting s \<and> rid \<in> set (rq_items (waiting s'))
    \<and> rid \<in> set (ul_stopped_preempted u')"
proof -
  obtain s2 where up: "update_request_as_session cfg rid upd
      (set_obj rid ((objects s rid)\<lparr>streaming_queue := Some us\<rparr>) s) = Inr s2"
    and s': "s' = enqueue_waiting_request rid s2"
    and u': "ul_stopped_preempted u' = List.insert rid (ul_stopped_preempted u)"
    using assms by (auto simp: stop_request_def handle_stopped_request_def Let_def res_bind_eq_Inr)
  have s2: "status (objects s2 rid) = WAITING" "requests s2 = requests s" "running s2 = running s"
    "skipped_waiting s2 = skipped_waiting s"
    using up by (auto simp: update_request_as_session_def Let_def res_bind_eq_Inr set_obj_def)
  have "mset (rq_items (waiting s')) = add_mset rid (mset (rq_items (waiting s2)))"
    unfolding s' by (simp add: enqueue_waiting_request_def is_blocked_waiting_status_def s2 mset_rq_add)
  then have "rid \<in> set (rq_items (waiting s'))" by (metis set_mset_mset union_single_eq_member)
  then show ?thesis
    using s2 unfolding s' u' by (simp add: enqueue_waiting_request_def is_blocked_waiting_status_def)
qed

text \<open>
  C8. A session that was preempted while its last token was under way is lost when that token stops
  it and its next input is queued: it goes back into \<open>waiting\<close> as an unfinished request, and the
  removal of the stopped preempted requests at the end of \<open>update_from_output\<close>, which follows, takes
  it out again. Whatever the configuration, the queue policy and the other requests, it is then an
  unfinished request of the scheduler that is in no queue.
\<close>

theorem preempted_session_lost:
  assumes "resumable (objects s rid)" and "streaming_queue (objects s rid) = Some (Some upd # us)"
    and "rid \<in> set (requests s)" and "rid \<notin> set (running s)" and "rid \<notin> set (rq_items (skipped_waiting s))"
    and "before \<noteq> RUNNING" and "stop_request cfg rid before s u = Inr (fin, s1, u1)"
  shows "let s2 = remove_stopped s1 u1 in
    rid \<in> set (requests s2) \<and> \<not> is_finished (objects s2 rid) \<and> rid \<in> set (rq_items (waiting s1)) \<and>
    rid \<notin> set (running s2) \<and> rid \<notin> set (rq_items (waiting s2)) \<and> rid \<notin> set (rq_items (skipped_waiting s2))"
proof -
  note q = stop_requeues_session [OF assms(1,2,6,7)]
  let ?s2 = "remove_stopped s1 u1"
  have same: "objects ?s2 = objects s1" "requests ?s2 = requests s1" "skipped_waiting ?s2 = skipped_waiting s1"
    "set (running ?s2) \<subseteq> set (running s1)"
    by (auto simp: remove_stopped_def remove_all_def Let_def split: list.splits dest: set_mp [OF set_remove1_subset])
  have "mset (rq_items (waiting ?s2)) = {#x \<in># mset (rq_items (waiting s1)). x \<notin> set (ul_stopped_preempted u1)#}"
    using q by (auto simp: remove_stopped_def Let_def mset_rq_remove_all)
  then have "set (rq_items (waiting ?s2)) = {x \<in> set (rq_items (waiting s1)). x \<notin> set (ul_stopped_preempted u1)}"
    by (metis set_mset_filter set_mset_mset)
  then show ?thesis
    using q same assms(3-5) by (auto simp: is_finished_def is_finished_status_iff Let_def)
qed

text \<open>
  The third step of \<open>session_run\<close>, which makes a whole engine lose the session, starts with the
  session in such a state; here it is the scheduler of \<open>session_start\<close> with the session stopped.
\<close>

lemma preempted_session_lost_witness:
  "\<exists>e fin s1 u1. session_start = Inr e \<and>
     stop_request async_config ''a'' PREEMPTED
       (upd_obj ''a'' (\<lambda>r. r\<lparr>status := FINISHED_LENGTH_CAPPED\<rparr>) (eng_scheduler e))
       \<lparr>ul_outputs = [], ul_stopped_running = [], ul_stopped_preempted = []\<rparr> = Inr (fin, s1, u1) \<and>
     rq_items (waiting s1) = [''b'', ''a'', ''a''] \<and> ''a'' \<notin> set (rq_items (waiting (remove_stopped s1 u1)))"
proof -
  let ?u = "\<lparr>ul_outputs = [], ul_stopped_running = [], ul_stopped_preempted = []\<rparr>"
  let ?s = "\<lambda>e. upd_obj ''a'' (\<lambda>r. r\<lparr>status := FINISHED_LENGTH_CAPPED\<rparr>) (eng_scheduler e)"
  have "(case session_start of Inl _ \<Rightarrow> False | Inr e \<Rightarrow> resumable (objects (?s e) ''a'') \<and>
     map_option (map (\<lambda>x. x = None)) (streaming_queue (objects (?s e) ''a'')) = Some [False] \<and>
     requests (?s e) = [''b'', ''a''] \<and> running (?s e) = [] \<and> rq_items (skipped_waiting (?s e)) = [] \<and>
     (case stop_request async_config ''a'' PREEMPTED (?s e) ?u of Inl _ \<Rightarrow> False
      | Inr x \<Rightarrow> rq_items (waiting (fst (snd x))) = [''b'', ''a'', ''a'']))"
    by code_simp
  then obtain e fin s1 u1 where e: "session_start = Inr e" "resumable (objects (?s e) ''a'')"
    "map_option (map (\<lambda>x. x = None)) (streaming_queue (objects (?s e) ''a'')) = Some [False]"
    "requests (?s e) = [''b'', ''a'']" "running (?s e) = []" "rq_items (skipped_waiting (?s e)) = []"
    "stop_request async_config ''a'' PREEMPTED (?s e) ?u = Inr (fin, s1, u1)"
    "rq_items (waiting s1) = [''b'', ''a'', ''a'']"
    unfolding case_Inr_iff by auto
  moreover obtain upd us where "streaming_queue (objects (?s e) ''a'') = Some (Some upd # us)"
    using e(3) by auto
  ultimately show ?thesis
    using preempted_session_lost [OF e(2) _ _ _ _ _ e(7), of upd us] by (auto simp: Let_def)
qed

text \<open>
  In a whole run the third step puts the session back into \<open>waiting\<close> for its next input, then takes it
  out again with the stopped preempted requests. It is unfinished but in no queue and in no batch
  that is under way.
\<close>

theorem session_run_loses_request:
  "\<exists>e. session_run = Inr e \<and>
     (let s = eng_scheduler e in
        requests s = [''b'', ''a''] \<and> status (objects s ''a'') = WAITING \<and> \<not> is_finished (objects s ''a'') \<and>
        running s = [''b''] \<and> rq_items (waiting s) = [] \<and> rq_items (skipped_waiting s) = [] \<and>
        get_num_unfinished_requests s = 1) \<and>
     map (map fst \<circ> so_num_scheduled_tokens) (batch_queue e) = [[''b'']]"
proof -
  have "(case session_run of Inr e \<Rightarrow>
     (let s = eng_scheduler e in
        requests s = [''b'', ''a''] \<and> status (objects s ''a'') = WAITING \<and> \<not> is_finished (objects s ''a'') \<and>
        running s = [''b''] \<and> rq_items (waiting s) = [] \<and> rq_items (skipped_waiting s) = [] \<and>
        get_num_unfinished_requests s = 1) \<and>
     map (map fst \<circ> so_num_scheduled_tokens) (batch_queue e) = [[''b'']] | Inl _ \<Rightarrow> False)" by code_simp
  then show ?thesis by (simp only: case_Inr_iff)
qed

end
