(* ===== verification/Ngram.thy ===== *)
theory Ngram
  imports Prelude
begin

text \<open>
  The n-gram proposer for speculative decoding (\<^verbatim>\<open>vllm/v1/spec_decode/ngram_proposer.py\<close>): it looks for
  an earlier occurrence of the last tokens of a request and proposes the tokens that followed it.
  The search is the failure function of Knuth, Morris and Pratt on the reversed tokens, cut at the
  longest n-gram of interest. The buffers of \<open>numpy\<close> are lists; their 32 bit counts stay below the
  length of the model and are natural numbers here.
\<close>

section \<open>The search\<close>

text \<open>
  The loop of \<open>_find_longest_matched_ngram_and_propose_tokens\<close>: \<open>lps\<close> grows while it runs, so that it
  ends is not a matter of its shape.
\<close>

partial_function (option) lps_loop ::
  "int list \<Rightarrow> nat \<Rightarrow> nat list \<Rightarrow> nat \<Rightarrow> nat \<Rightarrow> nat \<Rightarrow> nat \<Rightarrow> (nat \<times> nat) option"
where
  "lps_loop tokens max_ngram lps longest position prev_lps i =
     (if i < length tokens then
        if tokens ! prev_lps = tokens ! i then
          (let p = prev_lps + 1;
               longest' = (if p \<ge> longest then p else longest);
               position' = (if p \<ge> longest then i else position);
               lps' = (if i < max_ngram then lps[i := p] else lps);
               prev' = (if p = max_ngram then lps' ! (max_ngram - 1) else p)
           in lps_loop tokens max_ngram lps' longest' position' prev' (i + 1))
        else if prev_lps \<noteq> 0 then
          lps_loop tokens max_ngram lps longest position (lps ! (prev_lps - 1)) i
        else lps_loop tokens max_ngram lps longest position prev_lps (i + 1)
      else Some (longest, position))"

definition find_longest_matched_ngram_and_propose_tokens ::
  "int list \<Rightarrow> nat \<Rightarrow> nat \<Rightarrow> nat \<Rightarrow> nat \<Rightarrow> int list option" where
  "find_longest_matched_ngram_and_propose_tokens origin min_ngram max_ngram max_model_len k =
     (let total = length origin; room = int max_model_len - int total in
      if total < min_ngram \<or> min (int k) room \<le> 0 then Some []
      else
        map_option
          (\<lambda>(longest, position).
             if longest < min_ngram then []
             else
               let start = total - 1 - position + longest in
               take (min (nat (min (int k) room)) (total - start)) (drop start origin))
          (lps_loop (rev origin) max_ngram (replicate max_ngram 0) 0 0 0 1))"

section \<open>The proposer\<close>

record ngram_proposer =
  min_n :: nat
  max_n :: nat
  num_spec :: nat
  model_len :: nat
  valid_ngram_draft :: "int list list"
  valid_ngram_num_drafts :: "nat list"

definition init_proposer :: "nat \<Rightarrow> nat \<Rightarrow> nat \<Rightarrow> nat \<Rightarrow> nat \<Rightarrow> ngram_proposer" where
  "init_proposer lookup_min lookup_max k max_len max_num_seqs =
     \<lparr>min_n = lookup_min, max_n = lookup_max, num_spec = k, model_len = max_len,
      valid_ngram_draft = replicate max_num_seqs (replicate k 0),
      valid_ngram_num_drafts = replicate max_num_seqs 0\<rparr>"

text \<open>One iteration of \<open>batch_propose_numba\<close>; the iterations write different rows.\<close>

definition propose_row ::
  "nat list \<Rightarrow> int list list \<Rightarrow> nat \<Rightarrow> ngram_proposer \<Rightarrow> ngram_proposer option" where
  "propose_row num_tokens_no_spec token_ids_cpu idx p =
     map_option
       (\<lambda>out. p\<lparr>valid_ngram_num_drafts := (valid_ngram_num_drafts p)[idx := length out],
               valid_ngram_draft :=
                 (if out = [] then valid_ngram_draft p
                  else (valid_ngram_draft p)[idx := out @ drop (length out) (valid_ngram_draft p ! idx)])\<rparr>)
       (find_longest_matched_ngram_and_propose_tokens
          (take (num_tokens_no_spec ! idx) (token_ids_cpu ! idx)) (min_n p) (max_n p) (model_len p)
          (num_spec p))"

fun batch_propose_numba ::
  "nat list \<Rightarrow> nat list \<Rightarrow> int list list \<Rightarrow> ngram_proposer \<Rightarrow> ngram_proposer option" where
  "batch_propose_numba [] nums toks p = Some p"
| "batch_propose_numba (idx # idxs) nums toks p =
     (case propose_row nums toks idx p of
        None \<Rightarrow> None
      | Some p' \<Rightarrow> batch_propose_numba idxs nums toks p')"

definition batch_propose ::
  "nat \<Rightarrow> nat list \<Rightarrow> nat list \<Rightarrow> int list list \<Rightarrow> ngram_proposer \<Rightarrow>
   (int list list \<times> ngram_proposer) option" where
  "batch_propose num_requests valid nums toks p =
     map_option
       (\<lambda>p1. (map (\<lambda>i. if i \<in> set valid \<and> valid_ngram_num_drafts p1 ! i > 0
                       then take (valid_ngram_num_drafts p1 ! i) (valid_ngram_draft p1 ! i) else [])
                  [0..<num_requests], p1))
       (if valid = [] then Some p else batch_propose_numba valid nums toks p)"

definition propose ::
  "int list list \<Rightarrow> nat list \<Rightarrow> int list list \<Rightarrow> ngram_proposer \<Rightarrow>
   (int list list \<times> ngram_proposer) option" where
  "propose sampled nums toks p =
     batch_propose (length sampled)
       (filter (\<lambda>i. sampled ! i \<noteq> [] \<and> nums ! i < model_len p) [0..<length sampled]) nums toks p"

section \<open>Borders of a prefix\<close>

text \<open>The first \<open>v\<close> tokens are the last \<open>v\<close> of the first \<open>i\<close>, and not all of them.\<close>

definition border :: "int list \<Rightarrow> nat \<Rightarrow> nat \<Rightarrow> bool" where
  "border t v i \<longleftrightarrow> v < i \<and> (\<forall>j < v. t ! j = t ! (i - v + j))"

lemma border_0 [simp]: "border t 0 i \<longleftrightarrow> 0 < i"
  by (simp add: border_def)

lemma border_less: "border t v i \<Longrightarrow> v < i"
  by (simp add: border_def)

lemma border_Suc: "border t (Suc v) (Suc i) \<longleftrightarrow> border t v i \<and> t ! v = t ! i"
proof
  assume b: "border t (Suc v) (Suc i)"
  then have "v < i" and "\<forall>j < Suc v. t ! j = t ! (i - v + j)" by (simp_all add: border_def)
  from this(1) this(2) [rule_format, of v] have "t ! v = t ! i" by simp
  then show "border t v i \<and> t ! v = t ! i" using b by (simp add: border_def)
next
  assume a: "border t v i \<and> t ! v = t ! i"
  then have "v < i" by (simp add: border_def)
  have "t ! j = t ! (Suc i - Suc v + j)" if "j < Suc v" for j
  proof (cases "j = v")
    case True
    then show ?thesis using a \<open>v < i\<close> by simp
  next
    case False
    then show ?thesis using a that by (simp add: border_def)
  qed
  then show "border t (Suc v) (Suc i)" using \<open>v < i\<close> unfolding border_def by simp
qed

lemma border_trans:
  assumes "border t w v" and "border t v i"
  shows "border t w i"
  unfolding border_def
proof (intro conjI allI impI)
  show "w < i" using assms by (simp add: border_def)
  fix j assume j: "j < w"
  have "t ! j = t ! (v - w + j)" using assms(1) j by (simp add: border_def)
  also have "\<dots> = t ! (i - v + (v - w + j))"
  proof -
    have "v - w + j < v" using assms(1) j unfolding border_def by linarith
    then show ?thesis using assms(2) unfolding border_def by blast
  qed
  also have "i - v + (v - w + j) = i - w + j" using assms by (simp add: border_def)
  finally show "t ! j = t ! (i - w + j)" .
qed

lemma border_border:
  assumes "border t w i" and "border t v i" and "w < v"
  shows "border t w v"
  unfolding border_def
proof (intro conjI allI impI)
  show "w < v" by (rule assms(3))
  fix j assume j: "j < w"
  have "t ! j = t ! (i - w + j)" using assms(1) j by (simp add: border_def)
  also have "i - w + j = i - v + (v - w + j)" using assms by (simp add: border_def)
  also have "t ! \<dots> = t ! (v - w + j)"
  proof -
    have "v - w + j < v" using assms(3) j by linarith
    then show ?thesis using assms(2) unfolding border_def by metis
  qed
  finally show "t ! j = t ! (v - w + j)" .
qed

text \<open>The longest border of at most \<open>m\<close> tokens.\<close>

definition best_border :: "int list \<Rightarrow> nat \<Rightarrow> nat \<Rightarrow> nat \<Rightarrow> bool" where
  "best_border t m i v \<longleftrightarrow> border t v i \<and> v \<le> m \<and> (\<forall>w \<le> m. border t w i \<longrightarrow> w \<le> v)"

definition lps_ok :: "int list \<Rightarrow> nat \<Rightarrow> nat list \<Rightarrow> nat \<Rightarrow> bool" where
  "lps_ok t m lps i \<longleftrightarrow> length lps = m \<and>
     (\<forall>j < m. if j < i then best_border t m (Suc j) (lps ! j) else lps ! j = 0)"

text \<open>The longest border so far, and the last place where it was found.\<close>

definition found_ok :: "int list \<Rightarrow> nat \<Rightarrow> nat \<Rightarrow> nat \<Rightarrow> nat \<Rightarrow> bool" where
  "found_ok t m i longest pos \<longleftrightarrow>
     (\<forall>p < i. \<forall>w \<le> m. border t w (Suc p) \<longrightarrow> w \<le> longest) \<and>
     (longest \<noteq> 0 \<longrightarrow> pos < i \<and> longest \<le> m \<and> border t longest (Suc pos) \<and>
       (\<forall>p. pos < p \<and> p < i \<longrightarrow> \<not> border t longest (Suc p)))"

definition search_ok :: "int list \<Rightarrow> nat \<Rightarrow> nat list \<Rightarrow> nat \<Rightarrow> nat \<Rightarrow> nat \<Rightarrow> nat \<Rightarrow> bool" where
  "search_ok t m lps longest pos prev i \<longleftrightarrow>
     0 < m \<and> 0 < i \<and> lps_ok t m lps i \<and> found_ok t m i longest pos \<and> border t prev i \<and> prev < m \<and>
     (\<forall>w < m. border t w i \<and> t ! w = t ! i \<longrightarrow> w \<le> prev)"

lemma found_step:
  assumes "found_ok t m i longest pos" and "best_border t m (Suc i) b"
  shows "found_ok t m (Suc i) (if longest \<le> b \<and> b \<noteq> 0 then b else longest) (if longest \<le> b \<and> b \<noteq> 0 then i else pos)"
  using assms unfolding found_ok_def best_border_def
  by (auto simp: less_Suc_eq) (meson le_trans le_neq_implies_less not_less)+

lemma match_best:
  assumes "search_ok t m lps longest pos prev i" and "t ! prev = t ! i"
  shows "best_border t m (Suc i) (Suc prev)"
  unfolding best_border_def
proof (intro conjI allI impI)
  show "border t (Suc prev) (Suc i)" "Suc prev \<le> m" using assms by (auto simp: search_ok_def border_Suc)
  fix w assume w: "w \<le> m" "border t w (Suc i)"
  show "w \<le> Suc prev"
  proof (cases w)
    case (Suc v)
    then show ?thesis using assms(1) w by (auto simp: search_ok_def border_Suc)
  qed simp
qed

lemma mismatch_best:
  assumes "search_ok t m lps longest pos 0 i" and "t ! 0 \<noteq> t ! i"
  shows "best_border t m (Suc i) 0"
  unfolding best_border_def
proof (intro conjI allI impI)
  fix w assume w: "w \<le> m" "border t w (Suc i)"
  show "w \<le> 0"
  proof (cases w)
    case (Suc v)
    then have "border t v i" "t ! v = t ! i" "v < m" using w by (auto simp: border_Suc)
    then have "v = 0" using assms(1) by (auto simp: search_ok_def)
    then show ?thesis using \<open>t ! v = t ! i\<close> assms(2) by simp
  qed simp
qed simp_all

lemma lps_step:
  assumes "lps_ok t m lps i" and "best_border t m (Suc i) b"
  shows "lps_ok t m (if i < m then lps[i := b] else lps) (Suc i)"
  using assms by (auto simp: lps_ok_def nth_list_update less_Suc_eq)

text \<open>A table entry that is still zero needs no write.\<close>

lemma lps_step_0:
  assumes "lps_ok t m lps i" and "best_border t m (Suc i) 0"
  shows "lps_ok t m lps (Suc i)"
  using assms by (auto simp: lps_ok_def less_Suc_eq)

lemma search_match:
  assumes s: "search_ok t m lps longest pos prev i" and eq: "t ! prev = t ! i"
    and lps': "lps' = (if i < m then lps[i := Suc prev] else lps)"
  shows "search_ok t m lps' (if longest \<le> Suc prev then Suc prev else longest)
    (if longest \<le> Suc prev then i else pos) (if Suc prev = m then lps' ! (m - 1) else Suc prev) (Suc i)"
proof -
  note b = match_best [OF s eq]
  have l: "lps_ok t m lps' (Suc i)" using lps_step [OF _ b, of lps] s by (simp add: lps' search_ok_def)
  have f: "found_ok t m (Suc i) (if longest \<le> Suc prev then Suc prev else longest) (if longest \<le> Suc prev then i else pos)"
    using found_step [OF _ b, of longest pos] s by (simp add: search_ok_def)
  show ?thesis
  proof (cases "Suc prev = m")
    case True
    then have mi: "m \<le> i" "0 < m" using s border_less [of t prev i] by (auto simp: search_ok_def)
    then have best: "best_border t m m (lps' ! (m - 1))" using l by (auto simp: lps_ok_def dest: spec [of _ "m - 1"])
    have bm: "border t m (Suc i)" using b True by (simp add: best_border_def)
    have "border t (lps' ! (m - 1)) (Suc i)" using border_trans bm best by (auto simp: best_border_def)
    moreover have "w \<le> lps' ! (m - 1)" if "w < m" "border t w (Suc i)" for w
      using border_border [OF that(2) bm that(1)] best that by (auto simp: best_border_def)
    ultimately show ?thesis using True l f mi best by (auto simp: search_ok_def best_border_def dest: border_less)
  next
    case False
    then show ?thesis using s b l f by (auto simp: search_ok_def best_border_def)
  qed
qed

lemma search_shorter:
  assumes s: "search_ok t m lps longest pos prev i" and "t ! prev \<noteq> t ! i" and "prev \<noteq> 0"
  shows "search_ok t m lps longest pos (lps ! (prev - 1)) i \<and> lps ! (prev - 1) < prev"
proof -
  have p: "prev - 1 < m" "prev - 1 < i" "Suc (prev - 1) = prev" "border t prev i"
    using assms border_less by (auto simp: search_ok_def intro: less_imp_diff_less)
  have "best_border t m (Suc (prev - 1)) (lps ! (prev - 1))"
    using s p(1,2) unfolding search_ok_def lps_ok_def by presburger
  then have b: "best_border t m prev (lps ! (prev - 1))" using p(3) by simp
  have "w \<le> lps ! (prev - 1)" if "w < m" "border t w i" "t ! w = t ! i" for w
  proof -
    have "w \<le> prev" using s that by (simp add: search_ok_def)
    moreover have "w \<noteq> prev" using that(3) assms(2) by auto
    ultimately have "w < prev" by simp
    from border_border [OF that(2) p(4) this] have "border t w prev" .
    then show ?thesis using b that(1) by (simp add: best_border_def)
  qed
  moreover have "lps ! (prev - 1) < prev" using b border_less by (auto simp: best_border_def)
  ultimately show ?thesis using s b p border_trans by (auto simp: search_ok_def best_border_def)
qed

lemma search_mismatch:
  assumes s: "search_ok t m lps longest pos 0 i" and "t ! 0 \<noteq> t ! i"
  shows "search_ok t m lps longest pos 0 (Suc i)"
proof -
  note b = mismatch_best [OF assms]
  have l: "lps_ok t m lps (Suc i)" using s lps_step_0 [OF _ b] by (simp add: search_ok_def)
  have f: "found_ok t m (Suc i) longest pos" using s found_step [OF _ b] by (simp add: search_ok_def)
  have w: "\<forall>w < m. border t w (Suc i) \<and> t ! w = t ! Suc i \<longrightarrow> w \<le> 0" using b by (simp add: best_border_def)
  have "0 < m" using s by (simp add: search_ok_def)
  then show ?thesis unfolding search_ok_def by (intro conjI l f w) simp_all
qed

lemma lps_loop_finds:
  assumes "search_ok t m lps longest pos prev i" and "i \<le> length t"
  shows "\<exists>l p. lps_loop t m lps longest pos prev i = Some (l, p) \<and> found_ok t m (length t) l p"
  using assms
proof (induction "(length t - i) * Suc m + prev" arbitrary: lps longest pos prev i rule: less_induct)
  case less
  note s = less.prems(1)
  show ?case
  proof (cases "i < length t")
    case False
    then show ?thesis using less.prems by (subst lps_loop.simps) (simp add: search_ok_def)
  next
    case i: True
    have drop1: "(length t - i) * Suc m = (length t - Suc i) * Suc m + Suc m" using i by (simp add: Suc_diff_Suc [symmetric])
    show ?thesis
    proof (cases "t ! prev = t ! i")
      case True
      define lps' where "lps' = (if i < m then lps[i := Suc prev] else lps)"
      note n = search_match [OF s True lps'_def]
      let ?prev = "if Suc prev = m then lps' ! (m - 1) else Suc prev"
      have "?prev < m" using n unfolding search_ok_def by blast
      then have "(length t - Suc i) * Suc m + ?prev < (length t - i) * Suc m + prev" using drop1 by linarith
      from less.hyps [OF this n] i show ?thesis
        by (subst lps_loop.simps) (simp add: True Let_def lps'_def split del: if_split cong: if_cong)
    next
      case False
      show ?thesis
      proof (cases "prev = 0")
        case True
        have "(length t - Suc i) * Suc m + 0 < (length t - i) * Suc m + prev" using drop1 by linarith
        from less.hyps [OF this search_mismatch] s False i show ?thesis
          by (subst lps_loop.simps) (simp add: True)
      next
        case nz: False
        note n = search_shorter [OF s False nz]
        then have "(length t - i) * Suc m + lps ! (prev - 1) < (length t - i) * Suc m + prev" by simp
        from less.hyps [OF this conjunct1 [OF n]] i False nz show ?thesis
          by (subst lps_loop.simps) simp
      qed
    qed
  qed
qed

section \<open>A reference\<close>

text \<open>
  The last \<open>n\<close> tokens occur at position \<open>s\<close> too. The reference tries all lengths, the longest first, and
  all positions, the first first.
\<close>

definition occurs_at :: "int list \<Rightarrow> nat \<Rightarrow> nat \<Rightarrow> bool" where
  "occurs_at xs n s \<longleftrightarrow> s + n < length xs \<and> take n (drop s xs) = drop (length xs - n) xs"

definition first_occurrence :: "int list \<Rightarrow> nat \<Rightarrow> nat option" where
  "first_occurrence xs n = List.find (occurs_at xs n) [0..<length xs]"

definition longest_ngram :: "int list \<Rightarrow> nat \<Rightarrow> nat \<Rightarrow> nat option" where
  "longest_ngram xs lo hi = List.find (\<lambda>n. first_occurrence xs n \<noteq> None) (rev [lo..<Suc hi])"

definition ngram_drafts :: "int list \<Rightarrow> nat \<Rightarrow> nat \<Rightarrow> nat \<Rightarrow> nat \<Rightarrow> int list" where
  "ngram_drafts xs lo hi max_len k =
     (case longest_ngram xs lo hi of
        None \<Rightarrow> []
      | Some n \<Rightarrow>
          (case first_occurrence xs n of
             None \<Rightarrow> []
           | Some s \<Rightarrow> take (min k (max_len - length xs)) (drop (s + n) xs)))"

lemma occurs_at_nth:
  "occurs_at xs n s \<longleftrightarrow> s + n < length xs \<and> (\<forall>j < n. xs ! (s + j) = xs ! (length xs - n + j))"
  by (auto simp: occurs_at_def list_eq_iff_nth_eq)

lemma border_occurs:
  assumes "p < length xs"
  shows "border (rev xs) n (Suc p) \<longleftrightarrow> occurs_at xs n (length xs - Suc p)"
proof -
  let ?N = "length xs"
  have "(\<forall>j < n. rev xs ! j = rev xs ! (Suc p - n + j)) \<longleftrightarrow>
      (\<forall>j < n. xs ! (?N - Suc p + j) = xs ! (?N - n + j))" if n: "n \<le> p"
  proof (intro iffI allI impI)
    fix j assume h: "\<forall>j < n. rev xs ! j = rev xs ! (Suc p - n + j)" and j: "j < n"
    have k: "n - Suc j < n" using j by simp
    have e: "?N - Suc (n - Suc j) = ?N - n + j" "?N - Suc (Suc p - n + (n - Suc j)) = ?N - Suc p + j"
      using n j assms by linarith+
    have "n - Suc j < ?N" "Suc p - n + (n - Suc j) < ?N" using n j assms by linarith+
    then show "xs ! (?N - Suc p + j) = xs ! (?N - n + j)" using h [rule_format, OF k] by (simp only: rev_nth e)
  next
    fix j assume h: "\<forall>j < n. xs ! (?N - Suc p + j) = xs ! (?N - n + j)" and j: "j < n"
    have k: "n - Suc j < n" using j by simp
    have e: "?N - n + (n - Suc j) = ?N - Suc j" "?N - Suc p + (n - Suc j) = ?N - Suc (Suc p - n + j)"
      using n j assms by linarith+
    have "j < ?N" "Suc p - n + j < ?N" using n j assms by linarith+
    then show "rev xs ! j = rev xs ! (Suc p - n + j)" using h [rule_format, OF k] by (simp only: rev_nth e)
  qed
  moreover have "n < Suc p \<longleftrightarrow> ?N - Suc p + n < ?N" using assms by linarith
  ultimately show ?thesis unfolding border_def occurs_at_nth by (metis less_Suc_eq_le)
qed

lemma find_skip: "List.find P xs = None \<Longrightarrow> List.find P (xs @ ys) = List.find P ys"
  by (induction xs) (auto split: if_splits)

lemma found_longest:
  assumes f: "found_ok (rev xs) hi (length xs) l p" and lo: "0 < lo"
  shows "longest_ngram xs lo hi = (if l < lo then None else Some l)"
    and "lo \<le> l \<Longrightarrow> first_occurrence xs l = Some (length xs - Suc p) \<and> p < length xs"
proof -
  have most: "n \<le> l" if "n \<le> hi" "occurs_at xs n s" for n s
  proof -
    have s: "s < length xs" using that(2) by (simp add: occurs_at_def)
    then have "border (rev xs) n (Suc (length xs - Suc s))"
      using border_occurs [of "length xs - Suc s" xs n] that(2) by (simp add: Suc_diff_Suc)
    moreover have "length xs - Suc s < length xs" using s by simp
    ultimately show ?thesis using f that(1) unfolding found_ok_def by blast
  qed
  have first: "first_occurrence xs l = Some (length xs - Suc p) \<and> p < length xs \<and> l \<le> hi" if "lo \<le> l"
  proof -
    have g: "p < length xs" "l \<le> hi" "border (rev xs) l (Suc p)"
      "\<forall>q. p < q \<and> q < length xs \<longrightarrow> \<not> border (rev xs) l (Suc q)"
      using f lo that by (auto simp: found_ok_def)
    have "\<not> occurs_at xs l s" if "s < length xs - Suc p" for s
    proof -
      have "length xs - Suc s < length xs" "p < length xs - Suc s" "length xs - Suc (length xs - Suc s) = s"
        using that by linarith+
      then show ?thesis using g(4) border_occurs by metis
    qed
    moreover have "occurs_at xs l (length xs - Suc p)" using border_occurs [OF g(1)] g(3) by simp
    ultimately show ?thesis using g(1,2) unfolding first_occurrence_def find_Some_iff
      by (intro conjI exI [of _ "length xs - Suc p"]) auto
  qed
  have none: "first_occurrence xs n = None" if "l < n" "n \<le> hi" for n
    using most [OF that(2)] that(1) by (force simp: first_occurrence_def find_None_iff)
  show "longest_ngram xs lo hi = (if l < lo then None else Some l)"
  proof (cases "l < lo")
    case True
    then show ?thesis using none by (auto simp: longest_ngram_def find_None_iff)
  next
    case False
    then have le: "lo \<le> l" "l < Suc hi" using first by auto
    have "[lo..<Suc hi] = [lo..<l] @ [l..<Suc hi]"
      using upt_add_eq_append [OF le(1), of "Suc hi - l"] le by simp
    then have "rev [lo..<Suc hi] = rev [Suc l..<Suc hi] @ l # rev [lo..<l]"
      using le(2) by (simp add: upt_conv_Cons del: upt_Suc)
    moreover have "List.find (\<lambda>n. first_occurrence xs n \<noteq> None) (rev [Suc l..<Suc hi]) = None"
      using none by (auto simp: find_None_iff)
    ultimately have "longest_ngram xs lo hi = List.find (\<lambda>n. first_occurrence xs n \<noteq> None) (l # rev [lo..<l])"
      unfolding longest_ngram_def by (simp only: find_skip)
    then show ?thesis using False first by simp
  qed
  show "first_occurrence xs l = Some (length xs - Suc p) \<and> p < length xs" if "lo \<le> l" using first that by blast
qed

lemma search_start: "0 < m \<Longrightarrow> search_ok t m (replicate m 0) 0 0 0 1"
  by (auto simp: search_ok_def lps_ok_def found_ok_def best_border_def border_def)

lemma find_longest_eq:
  assumes "0 < lo" and "0 < hi"
  shows "find_longest_matched_ngram_and_propose_tokens xs lo hi max_len k = Some (ngram_drafts xs lo hi max_len k)"
proof (cases "length xs < lo \<or> min (int k) (int max_len - int (length xs)) \<le> 0")
  case True
  have "longest_ngram xs lo hi = None" if "length xs < lo"
    using that by (auto simp: longest_ngram_def first_occurrence_def find_None_iff occurs_at_def)
  moreover have "min k (max_len - length xs) = 0" if "min (int k) (int max_len - int (length xs)) \<le> 0"
    using that by linarith
  ultimately show ?thesis using True
    by (auto simp: find_longest_matched_ngram_and_propose_tokens_def ngram_drafts_def split: option.split)
next
  case False
  then have room: "nat (min (int k) (int max_len - int (length xs))) = min k (max_len - length xs)" "1 \<le> length (rev xs)"
    using assms by auto
  obtain l p where r: "lps_loop (rev xs) hi (replicate hi 0) 0 0 0 1 = Some (l, p)"
    and f: "found_ok (rev xs) hi (length xs) l p"
    using lps_loop_finds [OF search_start [OF assms(2)] room(2)] by auto
  have start: "length xs - 1 - p + l = length xs - Suc p + l" by simp
  have cut: "take (min a (length xs - b)) (drop b xs) = take a (drop b xs)" for a b by (simp add: min_def)
  have "find_longest_matched_ngram_and_propose_tokens xs lo hi max_len k
      = Some (if l < lo then [] else take (min k (max_len - length xs)) (drop (length xs - Suc p + l) xs))"
    using False by (simp only: find_longest_matched_ngram_and_propose_tokens_def Let_def r room(1) if_False
        option.map(2) prod.case start cut)
  then show ?thesis using found_longest [OF f assms(1)] by (auto simp: ngram_drafts_def)
qed

section \<open>Property\<close>

definition buffers_ok :: "nat \<Rightarrow> ngram_proposer \<Rightarrow> bool" where
  "buffers_ok n p \<longleftrightarrow> 0 < min_n p \<and> 0 < max_n p \<and> n \<le> length (valid_ngram_draft p) \<and>
     length (valid_ngram_num_drafts p) = length (valid_ngram_draft p)"

definition drafts_for :: "nat list \<Rightarrow> int list list \<Rightarrow> ngram_proposer \<Rightarrow> nat \<Rightarrow> int list" where
  "drafts_for nums toks p i = ngram_drafts (take (nums ! i) (toks ! i)) (min_n p) (max_n p) (model_len p) (num_spec p)"

definition row_holds :: "ngram_proposer \<Rightarrow> nat \<Rightarrow> int list \<Rightarrow> bool" where
  "row_holds p i d \<longleftrightarrow> valid_ngram_num_drafts p ! i = length d \<and> take (length d) (valid_ngram_draft p ! i) = d"

lemma propose_row_effect:
  assumes "buffers_ok n p" and "idx < n"
  shows "\<exists>p'. propose_row nums toks idx p = Some p' \<and> buffers_ok n p' \<and> drafts_for nums toks p' = drafts_for nums toks p
    \<and> row_holds p' idx (drafts_for nums toks p idx) \<and>
    (\<forall>i d. i \<noteq> idx \<longrightarrow> row_holds p i d \<longrightarrow> row_holds p' i d)"
  using assms unfolding propose_row_def
  by (subst find_longest_eq)
    (auto simp: buffers_ok_def row_holds_def fun_eq_iff drafts_for_def)

lemma batch_rows:
  assumes "buffers_ok n p" and "set idxs \<subseteq> {..<n}"
  shows "\<exists>p'. batch_propose_numba idxs nums toks p = Some p' \<and>
    (\<forall>i \<in> set idxs. row_holds p' i (drafts_for nums toks p i)) \<and>
    (\<forall>i d. i \<notin> set idxs \<longrightarrow> row_holds p i d \<longrightarrow> row_holds p' i d)"
  using assms
proof (induction idxs arbitrary: p)
  case (Cons x xs)
  obtain p1 where p1: "propose_row nums toks x p = Some p1" "buffers_ok n p1"
    "drafts_for nums toks p1 = drafts_for nums toks p" "row_holds p1 x (drafts_for nums toks p x)"
    "\<forall>i d. i \<noteq> x \<longrightarrow> row_holds p i d \<longrightarrow> row_holds p1 i d"
    using propose_row_effect [OF Cons.prems(1), of x nums toks] Cons.prems(2) by auto
  obtain p' where p': "batch_propose_numba xs nums toks p1 = Some p'"
    "\<forall>i \<in> set xs. row_holds p' i (drafts_for nums toks p i)"
    "\<forall>i d. i \<notin> set xs \<longrightarrow> row_holds p1 i d \<longrightarrow> row_holds p' i d"
    using Cons.IH [OF p1(2)] Cons.prems(2) p1(3) by auto
  have "row_holds p' x (drafts_for nums toks p x)" using p1(4) p'(2,3) by blast
  then show ?case using p1(1,5) p' by auto
qed simp

text \<open>
  C19. The drafts of a step are those of the reference, whatever the buffers held before: a request with
  a new token and room for more gets the tokens after the first earlier occurrence of the longest
  suffix of at least \<open>min_n\<close> and at most \<open>max_n\<close> tokens that occurs earlier, at most \<open>num_spec\<close> of them and
  not beyond the length of the model, the others get none. In particular the search ends.
\<close>

theorem ngram_drafts_exact:
  assumes "0 < min_n p" and "0 < max_n p" and "length (valid_ngram_num_drafts p) = length (valid_ngram_draft p)"
    and "length sampled \<le> length (valid_ngram_draft p)"
    and "\<forall>i < length sampled. nums ! i \<le> length (toks ! i)"
  shows "\<exists>p'. propose sampled nums toks p = Some (map (\<lambda>i. if sampled ! i = [] then []
      else ngram_drafts (take (nums ! i) (toks ! i)) (min_n p) (max_n p) (model_len p) (num_spec p))
    [0..<length sampled], p')"
proof -
  define valid where "valid = filter (\<lambda>i. sampled ! i \<noteq> [] \<and> nums ! i < model_len p) [0..<length sampled]"
  have "buffers_ok (length sampled) p" using assms by (simp add: buffers_ok_def)
  moreover have "set valid \<subseteq> {..<length sampled}" by (auto simp: valid_def)
  ultimately obtain p' where p': "batch_propose_numba valid nums toks p = Some p'"
    and r: "\<forall>i \<in> set valid. row_holds p' i (drafts_for nums toks p i)" using batch_rows by blast
  have b: "(if valid = [] then Some p else batch_propose_numba valid nums toks p) = Some p'" using p' by auto
  have full: "ngram_drafts xs lo hi (model_len p) k = []" if "model_len p \<le> length xs" for xs lo hi k
    using that by (simp add: ngram_drafts_def split: option.split)
  have "(if i \<in> set valid \<and> valid_ngram_num_drafts p' ! i > 0
        then take (valid_ngram_num_drafts p' ! i) (valid_ngram_draft p' ! i) else [])
      = (if sampled ! i = [] then [] else drafts_for nums toks p i)" if "i < length sampled" for i
  proof (cases "i \<in> set valid")
    case True
    then have "sampled ! i \<noteq> []" by (simp add: valid_def)
    then show ?thesis using True r by (auto simp: row_holds_def)
  next
    case False
    then show ?thesis using that assms(5) full by (auto simp: drafts_for_def valid_def)
  qed
  then have "map (\<lambda>i. if i \<in> set valid \<and> valid_ngram_num_drafts p' ! i > 0
        then take (valid_ngram_num_drafts p' ! i) (valid_ngram_draft p' ! i) else []) [0..<length sampled]
      = map (\<lambda>i. if sampled ! i = [] then [] else drafts_for nums toks p i) [0..<length sampled]" by simp
  then show ?thesis unfolding propose_def batch_propose_def valid_def [symmetric] b drafts_for_def by auto
qed

lemma ngram_drafts_exact_witness:
  "\<exists>p'. propose [[7], [], [9]] [6, 1, 3] [[5, 6, 7, 8, 6, 7, 0], [4], [1, 2, 9, 9]] (init_proposer 1 3 2 16 4)
     = Some ([[8, 6], [], []], p')"
proof -
  let ?p = "init_proposer 1 3 2 16 4" and ?nums = "[6, 1, 3] :: nat list"
    and ?toks = "[[5, 6, 7, 8, 6, 7, 0], [4], [1, 2, 9, 9]] :: int list list"
  have "\<exists>p'. propose [[7], [], [9]] ?nums ?toks ?p = Some (map (\<lambda>i. if [[7], [], [9::int]] ! i = [] then []
      else ngram_drafts (take (?nums ! i) (?toks ! i)) (min_n ?p) (max_n ?p) (model_len ?p) (num_spec ?p))
    [0..<length [[7], [], [9::int]]], p')"
    by (rule ngram_drafts_exact) (auto simp: init_proposer_def less_Suc_eq)
  moreover have "map (\<lambda>i. if [[7], [], [9::int]] ! i = [] then []
      else ngram_drafts (take (?nums ! i) (?toks ! i)) (min_n ?p) (max_n ?p) (model_len ?p) (num_spec ?p))
    [0..<length [[7], [], [9::int]]] = [[8, 6], [], []]" by code_simp
  ultimately show ?thesis by simp
qed

end
