(* ===== verification/Py_Text.thy ===== *)
theory Py_Text
  imports Prelude "HOL-Library.Sublist"
begin

text \<open>
  Strings as lists of characters, with the methods of \<open>str\<close> that the program uses. The type of the
  characters is left open where no literal is needed, so that any code point is one.
\<close>

section \<open>Searching\<close>

fun find_sub :: "'a list \<Rightarrow> 'a list \<Rightarrow> nat option" where
  "find_sub sub [] = (if sub = [] then Some 0 else None)"
| "find_sub sub (x # xs) =
     (if prefix sub (x # xs) then Some 0 else map_option Suc (find_sub sub xs))"

text \<open>\<open>xs.find(sub, start)\<close>; a negative start counts from the end.\<close>

definition py_find :: "'a list \<Rightarrow> 'a list \<Rightarrow> int \<Rightarrow> int" where
  "py_find xs sub start =
     (if start > int (length xs) then -1
      else
        let s = py_clamp (length xs) start in
        (case find_sub sub (drop s xs) of None \<Rightarrow> -1 | Some k \<Rightarrow> int (s + k)))"

text \<open>\<open>sub in xs\<close>, and the parts before and after the first occurrence.\<close>

definition has_sub :: "'a list \<Rightarrow> 'a list \<Rightarrow> bool" where
  "has_sub sub xs \<longleftrightarrow> find_sub sub xs \<noteq> None"

definition cut_at :: "'a list \<Rightarrow> 'a list \<Rightarrow> ('a list \<times> 'a list) option" where
  "cut_at sub xs = map_option (\<lambda>k. (take k xs, drop (k + length sub) xs)) (find_sub sub xs)"

lemma find_sub_Nil [simp]: "find_sub [] xs = Some 0"
  by (cases xs) simp_all

lemma find_sub_Some:
  "find_sub sub xs = Some k \<Longrightarrow> k + length sub \<le> length xs \<and> prefix sub (drop k xs) \<and>
     (\<forall>j < k. \<not> prefix sub (drop j xs))"
proof (induction xs arbitrary: k)
  case Nil
  then show ?case by (simp split: if_splits)
next
  case (Cons x xs)
  show ?case
  proof (cases "prefix sub (x # xs)")
    case True
    then show ?thesis using Cons.prems by (auto dest: prefix_length_le)
  next
    case False
    then obtain m where m: "find_sub sub xs = Some m" "k = Suc m" using Cons.prems by auto
    from Cons.IH [OF m(1)] show ?thesis using False m(2) by (auto simp: less_Suc_eq_0_disj)
  qed
qed

lemma find_sub_first: "prefix sub (drop k xs) \<Longrightarrow> \<exists>j \<le> k. find_sub sub xs = Some j"
proof (induction xs arbitrary: k)
  case (Cons x xs)
  show ?case
  proof (cases "prefix sub (x # xs)")
    case False
    then obtain m where m: "k = Suc m" using Cons.prems by (cases k) auto
    then show ?thesis using Cons.IH [of m] Cons.prems False by auto
  qed simp
qed simp

lemma find_sub_None: "find_sub sub xs = None \<longleftrightarrow> (\<forall>k. \<not> prefix sub (drop k xs))"
  using find_sub_Some find_sub_first by (metis not_None_eq)

lemma find_sub_eq:
  assumes "prefix sub (drop k xs)" and "\<And>j. j < k \<Longrightarrow> \<not> prefix sub (drop j xs)"
  shows "find_sub sub xs = Some k"
  using find_sub_first [OF assms(1)] find_sub_Some assms(2) by (metis le_neq_implies_less)

text \<open>Skipping places where there is no occurrence.\<close>

lemma find_sub_from:
  assumes early: "\<And>j. j < c \<Longrightarrow> \<not> prefix sub (drop j xs)"
  shows "find_sub sub xs = map_option (\<lambda>k. c + k) (find_sub sub (drop c xs))"
proof (cases "find_sub sub (drop c xs)")
  case None
  have "\<not> prefix sub (drop j xs)" for j
  proof (cases "j < c")
    case False
    then have "drop j xs = drop (j - c) (drop c xs)" by simp
    then show ?thesis using None unfolding find_sub_None by metis
  qed (rule early)
  then have "find_sub sub xs = None" by (simp add: find_sub_None)
  then show ?thesis using None by simp
next
  case (Some k)
  note f = find_sub_Some [OF Some]
  have "find_sub sub xs = Some (c + k)"
  proof (rule find_sub_eq)
    show "prefix sub (drop (c + k) xs)" using f by (simp add: add.commute)
    show "\<not> prefix sub (drop j xs)" if "j < c + k" for j
    proof (cases "j < c")
      case False
      then have "drop j xs = drop (j - c) (drop c xs)" "j - c < k" using that by simp_all
      then show ?thesis using f by metis
    qed (rule early)
  qed
  then show ?thesis using Some by simp
qed

lemma has_sub_iff: "has_sub sub xs \<longleftrightarrow> (\<exists>k. prefix sub (drop k xs))"
  by (simp add: has_sub_def find_sub_None)

lemma has_sub_append: "has_sub sub (xs @ sub @ ys)"
  unfolding has_sub_iff by (rule exI [of _ "length xs"]) simp

lemma has_sub_sublist: "has_sub sub xs \<longleftrightarrow> (\<exists>us vs. xs = us @ sub @ vs)"
proof
  assume "has_sub sub xs"
  then obtain k vs where "drop k xs = sub @ vs" by (auto simp: has_sub_iff prefix_def)
  then have "xs = take k xs @ sub @ vs" by (metis append_take_drop_id)
  then show "\<exists>us vs. xs = us @ sub @ vs" by blast
qed (auto simp: has_sub_append)

lemma has_sub_mono: "has_sub sub xs \<Longrightarrow> has_sub sub (us @ xs @ vs)"
  unfolding has_sub_sublist by (metis append.assoc)

lemma find_sub_take:
  assumes "find_sub sub xs = Some k"
  shows "\<not> has_sub sub (take (k + length sub - 1) xs) \<or> sub = []"
proof (rule ccontr)
  assume "\<not> ?thesis"
  then have ne: "sub \<noteq> []" and "has_sub sub (take (k + length sub - 1) xs)" by auto
  then obtain j where j: "find_sub sub (take (k + length sub - 1) xs) = Some j" by (auto simp: has_sub_def)
  note f = find_sub_Some [OF j]
  have "j < k" using f ne by (cases sub) auto
  moreover have "prefix sub (drop j xs)"
  proof -
    have "prefix sub (drop j (take (k + length sub - 1) xs))" using f by simp
    then have "prefix sub (take (k + length sub - 1 - j) (drop j xs))" by (simp add: drop_take)
    then show ?thesis using take_is_prefix prefix_order.trans by blast
  qed
  ultimately show False using find_sub_Some [OF assms] by blast
qed

text \<open>A pattern none of whose proper prefixes is one of its suffixes is found where it was put.\<close>

definition no_overlap :: "'a list \<Rightarrow> bool" where
  "no_overlap s \<longleftrightarrow> list_all (\<lambda>m. take m s \<noteq> drop (length s - m) s) [1..<length s]"

lemma find_sub_after:
  assumes "no_overlap s" and "s \<noteq> []" and "\<not> has_sub s xs"
  shows "find_sub s (xs @ s @ ys) = Some (length xs)"
proof (rule find_sub_eq)
  fix j assume j: "j < length xs"
  show "\<not> prefix s (drop j (xs @ s @ ys))"
  proof
    assume "prefix s (drop j (xs @ s @ ys))"
    then obtain zs where "drop j xs @ s @ ys = s @ zs" using j by (auto simp: prefix_def)
    then have "take (length s) (drop j xs @ s @ ys) = take (length s) (s @ zs)" by (rule arg_cong)
    then have p: "take (length s) (drop j xs @ s @ ys) = s" by simp
    show False
    proof (cases "length s \<le> length (drop j xs)")
      case True
      then have "take (length s) (drop j xs) = s" using p by simp
      then have "prefix s (drop j xs)" by (metis take_is_prefix)
      then show False using assms(3) by (auto simp: has_sub_iff)
    next
      case False
      let ?m = "length s - length (drop j xs)"
      have m: "1 \<le> ?m" "?m < length s" using False j by simp_all
      have "drop (length (drop j xs)) s = take ?m s"
        using arg_cong [OF p, of "drop (length (drop j xs))"] False by (simp add: drop_take)
      moreover have "length s - ?m = length (drop j xs)" using False by simp
      moreover have "?m \<in> set [1..<length s]" using m by (simp only: set_upt atLeastLessThan_iff)
      ultimately show False using assms(1) unfolding no_overlap_def list_all_iff by metis
    qed
  qed
qed simp

lemma py_find_0: "py_find xs sub 0 = (case find_sub sub xs of None \<Rightarrow> -1 | Some k \<Rightarrow> int k)"
  by (simp add: py_find_def py_clamp_def split: option.split)

lemma py_find_bounds:
  assumes "py_find xs sub start \<noteq> -1"
  shows "0 \<le> py_find xs sub start" and "int (py_clamp (length xs) start) \<le> py_find xs sub start"
    and "py_find xs sub start + int (length sub) \<le> int (length xs)"
    and "prefix sub (drop (nat (py_find xs sub start)) xs)"
proof -
  let ?s = "py_clamp (length xs) start"
  obtain k where k: "find_sub sub (drop ?s xs) = Some k" "py_find xs sub start = int (?s + k)"
    using assms by (auto simp: py_find_def Let_def split: if_splits option.splits)
  have s: "?s \<le> length xs" by (auto simp: py_clamp_def)
  note f = find_sub_Some [OF k(1)]
  show "0 \<le> py_find xs sub start" "int ?s \<le> py_find xs sub start" using k by simp_all
  have "k + length sub \<le> length (drop ?s xs)" using f by blast
  then have "?s + k + length sub \<le> length xs" using s unfolding length_drop by linarith
  then show "py_find xs sub start + int (length sub) \<le> int (length xs)" unfolding k(2) by linarith
  show "prefix sub (drop (nat (py_find xs sub start)) xs)" unfolding k(2) nat_int using f by (simp add: add.commute)
qed

end
