(* ===== verification/Detokenizer.thy ===== *)
theory Detokenizer
  imports Py_Text
begin

text \<open>
  Output text and stop strings (\<^verbatim>\<open>vllm/v1/engine/detokenizer.py\<close>). A detokenizer appends the text of each
  token to the output, looks for the stop strings of the request and cuts the output there, and hands
  out the text piece by piece, holding back what may still become part of a stop string. The decoding
  of one token (\<open>decode_next\<close>, the tokenizer library) is an argument with a state of its own.
\<close>

section \<open>Stop strings\<close>

fun check_stop_loop ::
  "'ch list \<Rightarrow> int \<Rightarrow> bool \<Rightarrow> 'ch list list \<Rightarrow> ('ch list \<times> int) option" where
  "check_stop_loop out new_chars incl [] = None"
| "check_stop_loop out new_chars incl (s # ss) =
     (let len = int (length s); i = py_find out s (1 - new_chars - len) in
      if i = -1 then check_stop_loop out new_chars incl ss
      else if incl then
        (if i + len \<ge> int (length out) then Some (s, -1) else Some (s, i + len))
      else Some (s, i))"

definition check_stop_strings ::
  "'ch list \<Rightarrow> int \<Rightarrow> 'ch list list \<Rightarrow> bool \<Rightarrow> ('ch list \<times> int) option" where
  "check_stop_strings out new_char_count stops incl =
     (if new_char_count = 0 \<or> stops = [] then None else check_stop_loop out new_char_count incl stops)"

section \<open>The detokenizer\<close>

record ('ch, 'd) detokenizer =
  stop_strings :: "'ch list list"
  dt_min_tokens :: int
  include_stop_str :: bool
  stop_buffer_length :: int
  last_output_text_offset :: int
  output_text :: "'ch list"
  dt_token_ids :: "int list"
  prompt_len :: nat
  decode_state :: 'd

definition init_detokenizer ::
  "'ch list list \<Rightarrow> int \<Rightarrow> bool \<Rightarrow> int list \<Rightarrow> nat \<Rightarrow> 'd \<Rightarrow> ('ch, 'd) detokenizer" where
  "init_detokenizer stops min_toks incl toks n d =
     \<lparr>stop_strings = stops, dt_min_tokens = min_toks, include_stop_str = incl,
      stop_buffer_length =
        (if stops \<noteq> [] \<and> \<not> incl then int (Max (set (map length stops))) - 1 else 0),
      last_output_text_offset = 0, output_text = [], dt_token_ids = toks, prompt_len = n,
      decode_state = d\<rparr>"

definition num_output_tokens_of :: "('ch, 'd) detokenizer \<Rightarrow> int" where
  "num_output_tokens_of dt = int (length (dt_token_ids dt)) - int (prompt_len dt)"

type_synonym ('ch, 'd) decoder = "int \<Rightarrow> 'd \<Rightarrow> 'ch list \<times> 'd"

fun decode_loop ::
  "('ch, 'd) decoder \<Rightarrow> int list \<Rightarrow> nat \<Rightarrow> ('ch, 'd) detokenizer \<Rightarrow> nat \<times> ('ch, 'd) detokenizer" where
  "decode_loop decode_next [] off dt = (off, dt)"
| "decode_loop decode_next (t # ts) off dt =
     (case decode_next t (decode_state dt) of
        (piece, st) \<Rightarrow>
          let dt1 = dt\<lparr>dt_token_ids := dt_token_ids dt @ [t], output_text := output_text dt @ piece,
                      decode_state := st\<rparr>
          in decode_loop decode_next ts
               (if dt_min_tokens dt1 \<noteq> 0 \<and> num_output_tokens_of dt1 \<le> dt_min_tokens dt1
                then length (output_text dt1) else off) dt1)"

text \<open>The second half of \<open>update\<close>: the stop strings in the new text.\<close>

definition cut_at_stop :: "nat \<Rightarrow> ('ch, 'd) detokenizer \<Rightarrow> 'ch list option \<times> ('ch, 'd) detokenizer" where
  "cut_at_stop off dt =
     (if stop_strings dt \<noteq> [] \<and> num_output_tokens_of dt > dt_min_tokens dt then
        (case check_stop_strings (output_text dt) (int (length (output_text dt)) - int off)
                (stop_strings dt) (include_stop_str dt) of
           None \<Rightarrow> (None, dt)
         | Some (s, truncate_to) \<Rightarrow>
             (Some s,
              if truncate_to \<noteq> -1 then dt\<lparr>output_text := py_upto (output_text dt) truncate_to\<rparr> else dt))
      else (None, dt))"

definition detok_update ::
  "('ch, 'd) decoder \<Rightarrow> int list \<Rightarrow> bool \<Rightarrow> ('ch, 'd) detokenizer \<Rightarrow>
   'ch list option \<times> ('ch, 'd) detokenizer" where
  "detok_update decode_next new_token_ids stop_terminated dt =
     (if new_token_ids = [] then (None, dt)
      else
        let skip = (stop_terminated \<and> \<not> include_stop_str dt);
            toks = (if skip then butlast new_token_ids else new_token_ids);
            (off, dt1) = decode_loop decode_next toks (length (output_text dt)) dt;
            dt2 = (if skip then dt1\<lparr>dt_token_ids := dt_token_ids dt1 @ [last new_token_ids]\<rparr> else dt1)
        in
        cut_at_stop off dt2)"

definition get_next_output_text ::
  "bool \<Rightarrow> bool \<Rightarrow> ('ch, 'd) detokenizer \<Rightarrow> 'ch list \<times> ('ch, 'd) detokenizer" where
  "get_next_output_text finished delta dt =
     (let buffer_length = (if finished then 0 else stop_buffer_length dt) in
      if \<not> delta then
        (if buffer_length = 0 then output_text dt else py_upto (output_text dt) (- buffer_length), dt)
      else
        let len = int (length (output_text dt)) - buffer_length; off = last_output_text_offset dt in
        if off < len then (py_slice (output_text dt) off len, dt\<lparr>last_output_text_offset := len\<rparr>)
        else ([], dt))"

text \<open>
  The pieces that a streaming client gets: after every update one piece, the last one when a stop
  string was found or the request is over.
\<close>

fun stream_text ::
  "('ch, 'd) decoder \<Rightarrow> (int list \<times> bool) list \<Rightarrow> ('ch, 'd) detokenizer \<Rightarrow>
   'ch list list \<times> ('ch, 'd) detokenizer" where
  "stream_text decode_next [] dt = ([], dt)"
| "stream_text decode_next ((toks, term) # us) dt =
     (let (stopped, dt1) = detok_update decode_next toks term dt;
          (piece, dt2) = get_next_output_text (stopped \<noteq> None \<or> us = []) True dt1
      in if stopped \<noteq> None then ([piece], dt2)
         else (let (pieces, dt3) = stream_text decode_next us dt2 in (piece # pieces, dt3)))"

section \<open>What an update does to the text\<close>

definition same_options :: "('ch, 'd) detokenizer \<Rightarrow> ('ch, 'd) detokenizer \<Rightarrow> bool" where
  "same_options a b \<longleftrightarrow> stop_strings b = stop_strings a \<and> include_stop_str b = include_stop_str a \<and>
     stop_buffer_length b = stop_buffer_length a \<and> last_output_text_offset b = last_output_text_offset a \<and>
     dt_min_tokens b = dt_min_tokens a \<and> prompt_len b = prompt_len a"

lemma decode_loop_appends:
  assumes "decode_loop f ts off dt = (off', dt')" and "off \<le> length (output_text dt)"
  shows "prefix (output_text dt) (output_text dt') \<and> same_options dt dt' \<and> off \<le> off' \<and>
    off' \<le> length (output_text dt')"
  using assms
proof (induction ts arbitrary: off dt)
  case (Cons t ts)
  obtain piece st where d: "f t (decode_state dt) = (piece, st)" by fastforce
  let ?dt = "dt\<lparr>dt_token_ids := dt_token_ids dt @ [t], output_text := output_text dt @ piece, decode_state := st\<rparr>"
  let ?off = "if dt_min_tokens ?dt \<noteq> 0 \<and> num_output_tokens_of ?dt \<le> dt_min_tokens ?dt
    then length (output_text ?dt) else off"
  have r: "decode_loop f ts ?off ?dt = (off', dt')" using Cons.prems(1) by (simp only: decode_loop.simps d prod.case Let_def)
  have "?off \<le> length (output_text ?dt)" using Cons.prems(2) by simp
  note ih = Cons.IH [OF r this]
  have "prefix (output_text dt) (output_text ?dt)" by simp
  then have "prefix (output_text dt) (output_text dt')" using ih prefix_order.trans by blast
  moreover have "off \<le> off'"
  proof -
    have "off \<le> ?off" using Cons.prems(2) by simp
    then show ?thesis using ih by (meson le_trans)
  qed
  moreover have "same_options dt dt'" using ih by (simp add: same_options_def)
  ultimately show ?case using ih by blast
qed (simp add: same_options_def)

lemma check_stop_loop_Some:
  assumes "check_stop_loop out n incl ss = Some (s, k)"
  shows "s \<in> set ss \<and> (\<exists>i. py_find out s (1 - n - int (length s)) = i \<and> i \<noteq> -1 \<and>
    (k = -1 \<and> incl \<and> i + int (length s) \<ge> int (length out) \<or> k = i + (if incl then int (length s) else 0)))"
  using assms by (induction ss) (auto simp: Let_def split: if_splits)

lemma check_stop_strings_Some:
  assumes "check_stop_strings out (int (length out) - int off) ss incl = Some (s, k)"
    and "off \<le> length out" and "[] \<notin> set ss"
  shows "s \<in> set ss \<and> (k \<noteq> -1 \<longrightarrow> 0 \<le> k \<and> k \<le> int (length out) \<and>
    int off - (if incl then 0 else int (length s) - 1) \<le> k)"
proof -
  let ?n = "int (length out) - int off"
  obtain i where s: "s \<in> set ss" and i: "py_find out s (1 - ?n - int (length s)) = i" "i \<noteq> -1"
    and k: "k = -1 \<or> k = i + (if incl then int (length s) else 0)"
    using assms(1) check_stop_loop_Some by (fastforce simp: check_stop_strings_def split: if_splits)
  have ne: "s \<noteq> []" "?n \<noteq> 0" using s assms(1,3) by (auto simp: check_stop_strings_def)
  then have neg: "1 - ?n - int (length s) < 0" using assms(2) by (cases s) auto
  note b = py_find_bounds [of out s "1 - ?n - int (length s)", unfolded i(1), OF i(2)]
  have "int off + 1 - int (length s) \<le> int (py_clamp (length out) (1 - ?n - int (length s)))"
    using neg by (simp add: py_clamp_def)
  then have "int off + 1 - int (length s) \<le> i" using b(2) by simp
  then show ?thesis using s k b by auto
qed

text \<open>The text that was handed out stays a prefix of the output, with room for what is held back.\<close>

definition stream_ok :: "('ch, 'd) detokenizer \<Rightarrow> bool" where
  "stream_ok dt \<longleftrightarrow> [] \<notin> set (stop_strings dt) \<and> 0 \<le> last_output_text_offset dt \<and>
     0 \<le> stop_buffer_length dt \<and>
     (last_output_text_offset dt = 0 \<or>
      last_output_text_offset dt + stop_buffer_length dt \<le> int (length (output_text dt))) \<and>
     (\<not> include_stop_str dt \<longrightarrow> (\<forall>s \<in> set (stop_strings dt). int (length s) - 1 \<le> stop_buffer_length dt))"

definition handed_out :: "('ch, 'd) detokenizer \<Rightarrow> 'ch list" where
  "handed_out dt = take (nat (last_output_text_offset dt)) (output_text dt)"

lemma init_stream_ok: "[] \<notin> set stops \<Longrightarrow> stream_ok (init_detokenizer stops m incl toks n d)"
proof -
  assume ne: "[] \<notin> set stops"
  define b where "b = Max (set (map length stops))"
  have le: "\<forall>s \<in> set stops. length s \<le> b" by (simp add: b_def)
  have pos: "1 \<le> b" if some: "stops \<noteq> []"
  proof -
    obtain s where "s \<in> set stops" using some last_in_set by blast
    moreover from this have "s \<noteq> []" using ne by blast
    then have "1 \<le> length s" by (simp add: Suc_le_eq)
    ultimately show ?thesis using le le_trans by blast
  qed
  show ?thesis using ne le pos unfolding stream_ok_def init_detokenizer_def b_def [symmetric]
    by (cases "stops = []") auto
qed

lemma take_prefix_append: "prefix xs ys \<Longrightarrow> n \<le> length xs \<Longrightarrow> take n ys = take n xs"
  by (auto simp: prefix_def)

lemma update_keeps_stream:
  assumes "detok_update f toks trm dt = (st, dt')" and ok: "stream_ok dt"
  shows "last_output_text_offset dt' \<le> int (length (output_text dt')) \<and> handed_out dt' = handed_out dt \<and>
    last_output_text_offset dt' = last_output_text_offset dt \<and> 0 \<le> last_output_text_offset dt' \<and>
    (st = None \<longrightarrow> stream_ok dt')"
proof (cases "toks = []")
  case True
  then show ?thesis using assms by (auto simp: detok_update_def stream_ok_def)
next
  case False
  let ?skip = "trm \<and> \<not> include_stop_str dt" and ?old = "length (output_text dt)"
  obtain off dt1 where l: "decode_loop f (if ?skip then butlast toks else toks) ?old dt = (off, dt1)"
    by fastforce
  define dt2 where "dt2 = (if ?skip then dt1\<lparr>dt_token_ids := dt_token_ids dt1 @ [last toks]\<rparr> else dt1)"
  note a = decode_loop_appends [OF l order_refl]
  have same_text: "output_text dt2 = output_text dt1" by (simp add: dt2_def)
  have grow: "prefix (output_text dt) (output_text dt2)" "off \<le> length (output_text dt2)" "?old \<le> off"
    "same_options dt dt2" using a by (auto simp: dt2_def same_options_def)
  have len: "?old \<le> length (output_text dt2)" using prefix_length_le [OF grow(1)] .
  have upd: "cut_at_stop off dt2 = (st, dt')"
    using assms(1) False l by (simp only: detok_update_def Let_def dt2_def prod.case if_False)
  let ?o = "last_output_text_offset dt"
  have o: "0 \<le> ?o" "?o \<le> int ?old" using ok by (auto simp: stream_ok_def)
  have same: "handed_out dt2 = handed_out dt" "stream_ok dt2"
    using take_prefix_append [OF grow(1), of "nat ?o"] o ok grow(4) len
    by (auto simp: handed_out_def same_options_def stream_ok_def)
  show ?thesis
  proof (cases "\<exists>s k. check_stop_strings (output_text dt2) (int (length (output_text dt2)) - int off)
        (stop_strings dt2) (include_stop_str dt2) = Some (s, k) \<and> st = Some s \<and> k \<noteq> -1 \<and>
        dt' = dt2\<lparr>output_text := py_upto (output_text dt2) k\<rparr>")
    case True
    then obtain s k where c: "check_stop_strings (output_text dt2) (int (length (output_text dt2)) - int off)
        (stop_strings dt2) (include_stop_str dt2) = Some (s, k)" and st: "st = Some s" and k: "k \<noteq> -1"
      and dt': "dt' = dt2\<lparr>output_text := py_upto (output_text dt2) k\<rparr>" by blast
    have "[] \<notin> set (stop_strings dt2)" using same(2) by (simp add: stream_ok_def)
    note b = check_stop_strings_Some [OF c grow(2) this]
    have "?o \<le> k"
      using b k ok grow(3,4) o by (auto simp: stream_ok_def same_options_def split: if_splits)
    then show ?thesis using b k o same grow(4)
      by (auto simp: dt' st handed_out_def same_options_def py_upto_nonneg min_def)
  next
    case False
    then have "dt' = dt2" using upd by (auto simp: cut_at_stop_def split: if_splits option.splits)
    then show ?thesis using same grow(4) o len by (auto simp: same_options_def)
  qed
qed

lemma get_next_keeps_stream:
  assumes "get_next_output_text fin True dt = (piece, dt')" and "0 \<le> last_output_text_offset dt"
    and "last_output_text_offset dt \<le> int (length (output_text dt))" and "\<not> fin \<longrightarrow> stream_ok dt"
  shows "handed_out dt' = handed_out dt @ piece \<and> output_text dt' = output_text dt \<and>
    (fin \<longrightarrow> handed_out dt' = output_text dt') \<and> (\<not> fin \<longrightarrow> stream_ok dt')"
proof -
  let ?len = "int (length (output_text dt)) - (if fin then 0 else stop_buffer_length dt)"
  let ?o = "last_output_text_offset dt"
  have split: "take (nat b) xs = take (nat a) xs @ drop (nat a) (take (nat b) xs)" if "a \<le> b" for a b and xs :: "'c list"
    using that by (metis append_take_drop_id min.absorb1 nat_mono take_take)
  show ?thesis
  proof (cases "?o < ?len")
    case True
    then have "dt' = dt\<lparr>last_output_text_offset := ?len\<rparr>" "piece = py_slice (output_text dt) ?o ?len"
      using assms(1) by (auto simp: get_next_output_text_def Let_def)
    then show ?thesis using assms(2-4) True split [of ?o ?len "output_text dt"]
      by (auto simp: handed_out_def py_slice_nonneg stream_ok_def)
  next
    case False
    then have "dt' = dt" "piece = []" using assms(1) by (auto simp: get_next_output_text_def Let_def)
    then show ?thesis using assms False by (auto simp: handed_out_def)
  qed
qed

lemma stream_text_effect:
  assumes "stream_text f us dt = (pieces, dt')" and "us \<noteq> []" and "stream_ok dt"
  shows "handed_out dt @ concat pieces = output_text dt'"
  using assms
proof (induction us arbitrary: dt pieces)
  case (Cons u us)
  obtain toks trm where u: "u = (toks, trm)" by fastforce
  obtain st dt1 where 1: "detok_update f toks trm dt = (st, dt1)" by fastforce
  obtain piece dt2 where 2: "get_next_output_text (st \<noteq> None \<or> us = []) True dt1 = (piece, dt2)" by fastforce
  note k = update_keeps_stream [OF 1 Cons.prems(3)]
  then have g: "handed_out dt2 = handed_out dt @ piece \<and> output_text dt2 = output_text dt1 \<and>
    ((st \<noteq> None \<or> us = []) \<longrightarrow> handed_out dt2 = output_text dt2) \<and> (\<not> (st \<noteq> None \<or> us = []) \<longrightarrow> stream_ok dt2)"
    using get_next_keeps_stream [OF 2] by auto
  show ?case
  proof (cases "st \<noteq> None \<or> us = []")
    case True
    then have "concat pieces = piece" "dt' = dt2" using Cons.prems(1) 1 2 by (auto simp: u split: if_splits prod.splits)
    moreover have "handed_out dt2 = output_text dt2" using g True by blast
    ultimately show ?thesis using g by simp
  next
    case False
    obtain ps dt3 where 3: "stream_text f us dt2 = (ps, dt3)" by fastforce
    have "pieces = piece # ps" "dt' = dt3" using Cons.prems(1) 1 2 3 False by (auto simp: u)
    then show ?thesis using Cons.IH [of dt2 ps] 3 False g by simp
  qed
qed simp

text \<open>
  C18. What a streaming client has received is the output: the pieces handed out after the updates of a
  request, put together, are its final output text, whether it ends by a stop string, which cuts off
  text that was already decoded, or by itself. No text that is cut off was handed out before.
\<close>

theorem streamed_pieces_are_output:
  assumes "[] \<notin> set stops" and "us \<noteq> []"
    and "stream_text decode_next us (init_detokenizer stops min_toks incl toks n d) = (pieces, dt)"
  shows "concat pieces = output_text dt"
  using stream_text_effect [OF assms(3,2) init_stream_ok [OF assms(1)]]
  by (simp add: handed_out_def init_detokenizer_def)

text \<open>One character a token, the stop string \<open>''end''\<close>: it arrives in two steps and is never handed out.\<close>

lemma streamed_pieces_are_output_witness:
  "\<exists>pieces dt. stream_text (\<lambda>t d. ([char_of (nat t)], d)) [([97, 98, 101], False), ([110, 100, 99], False)]
      (init_detokenizer [''end''] 0 False [] 0 ()) = (pieces, dt) \<and> concat pieces = output_text dt \<and>
    pieces = [''a'', ''b'']"
proof -
  let ?run = "stream_text (\<lambda>t d. ([char_of (nat t)], d)) [([97, 98, 101], False), ([110, 100, 99], False)]
      (init_detokenizer [''end''] 0 False [] 0 ())"
  have "fst ?run = [''a'', ''b'']" by code_simp
  moreover obtain pieces dt where r: "?run = (pieces, dt)" by fastforce
  moreover have "concat pieces = output_text dt" by (rule streamed_pieces_are_output [OF _ _ r]) simp_all
  ultimately show ?thesis by (metis fst_conv)
qed

section \<open>What the check finds\<close>

text \<open>
  The search starts so late that an occurrence that ends in the new text is just not missed. If the old
  text is free of the stop string this is a search of the whole text.
\<close>

lemma window_suffices:
  assumes "s \<noteq> []" and "new \<noteq> []" and "\<not> has_sub s old"
  shows "py_find (old @ new) s (1 - int (length new) - int (length s))
    = (case find_sub s (old @ new) of None \<Rightarrow> -1 | Some k \<Rightarrow> int k)"
proof -
  let ?t = "old @ new" and ?st = "1 - int (length new) - int (length s)"
  let ?c = "py_clamp (length ?t) ?st"
  have len: "0 < length s" "0 < length new" using assms(1,2) by simp_all
  then have "?st < 0" by linarith
  then have "?c = nat (max 0 (int (length ?t) + ?st))" by (simp only: py_clamp_def if_True)
  also have "int (length ?t) + ?st = int (length old) + 1 - int (length s)" by simp
  also have "nat (max 0 (int (length old) + 1 - int (length s))) = length old + 1 - length s" by linarith
  finally have c: "?c = length old + 1 - length s" .
  have early: "\<not> prefix s (drop j ?t)" if "j < ?c" for j
  proof
    assume "prefix s (drop j ?t)"
    then obtain zs where "drop j ?t = s @ zs" by (auto simp: prefix_def)
    moreover have "j + length s \<le> length old" using that c by linarith
    ultimately have "take (length s) (drop j old) = s"
      by (metis append_eq_conv_conj drop_append le_add1 le_add_diff_inverse2 length_drop nat_le_linear
          add.commute diff_le_mono2 add_le_imp_le_diff append_take_drop_id take_append diff_is_0_eq take0 append_Nil2)
    then have "prefix s (drop j old)" by (metis take_is_prefix)
    then show False using assms(3) by (auto simp: has_sub_iff)
  qed
  have "find_sub s ?t = map_option (\<lambda>k. ?c + k) (find_sub s (drop ?c ?t))"
    by (rule find_sub_from [OF early])
  moreover have "?st \<le> int (length ?t)" using len by linarith
  ultimately show ?thesis by (simp add: py_find_def Let_def split: option.split)
qed

definition first_stop :: "'ch list \<Rightarrow> 'ch list list \<Rightarrow> bool \<Rightarrow> ('ch list \<times> int) option" where
  "first_stop out stops incl =
     map_option
       (\<lambda>s. let i = int (the (find_sub s out)); e = i + int (length s) in
          if \<not> incl then (s, i) else if e \<ge> int (length out) then (s, -1) else (s, e))
       (List.find (\<lambda>s. has_sub s out) stops)"

text \<open>
  C21. The check for stop strings is exact although it looks only at the end of the text: if the text
  before the new characters holds none of the stop strings, it finds the first stop string of the list
  that occurs in the whole text, and cuts before or after its first occurrence.
\<close>

theorem check_stop_strings_exact:
  assumes "[] \<notin> set stops" and "new \<noteq> []" and "\<forall>s \<in> set stops. \<not> has_sub s old"
  shows "check_stop_strings (old @ new) (int (length new)) stops incl = first_stop (old @ new) stops incl"
proof -
  have "check_stop_loop (old @ new) (int (length new)) incl stops = first_stop (old @ new) stops incl"
    using assms(1,3)
  proof (induction stops)
    case (Cons s ss)
    then have "py_find (old @ new) s (1 - int (length new) - int (length s))
        = (case find_sub s (old @ new) of None \<Rightarrow> -1 | Some k \<Rightarrow> int k)"
      by (intro window_suffices [OF _ assms(2)]) auto
    then show ?case using Cons by (cases "find_sub s (old @ new)") (simp_all add: first_stop_def has_sub_def Let_def)
  qed (simp add: first_stop_def)
  then show ?thesis using assms(2) by (auto simp: check_stop_strings_def first_stop_def)
qed

lemma check_stop_strings_exact_witness:
  "check_stop_strings (''the e'' @ ''nd.'') 3 [''end'', ''.''] False = Some (''end'', 4)"
proof -
  have "check_stop_strings (''the e'' @ ''nd.'') (int (length ''nd.'')) [''end'', ''.''] False
      = first_stop (''the e'' @ ''nd.'') [''end'', ''.''] False"
    by (rule check_stop_strings_exact) (auto simp: has_sub_def)
  moreover have "first_stop (''the e'' @ ''nd.'') [''end'', ''.''] False = Some (''end'', 4)" by code_simp
  ultimately show ?thesis by simp
qed

text \<open>
  The order of the list decides, not the place in the text: a stop string that occurs before the one
  that is found stays in the output.
\<close>

lemma earlier_stop_string_stays:
  "let (st, dt) = detok_update (\<lambda>_ d. (''x.end'', d)) [1] False (init_detokenizer [''end'', ''.''] 0 False [] 0 ())
   in st = Some ''end'' \<and> output_text dt = ''x.'' \<and> has_sub ''.'' (output_text dt)"
  by code_simp

end
