(* ===== verification/HY3_Reasoning.thy ===== *)
theory HY3_Reasoning
  imports Py_Text
begin

text \<open>
  The reasoning parser of the HY3 model (\<^verbatim>\<open>vllm/reasoning/hy_v3_reasoning_parser.py\<close>) on top of
  \<open>BaseThinkingReasoningParser\<close> and \<open>IdentityReasoningParser\<close>: it splits the output at \<open></think>\<close> into
  reasoning and content, for a whole output and for the pieces of a stream. Tokens are integers, the
  vocabulary of the tokenizer is an argument.
\<close>

section \<open>Messages and parsers\<close>

record delta_message =
  dm_reasoning :: "string option"
  dm_content :: "string option"

definition content_delta :: "string option \<Rightarrow> delta_message" where
  "content_delta c = \<lparr>dm_reasoning = None, dm_content = c\<rparr>"

definition reasoning_delta :: "string \<Rightarrow> delta_message" where
  "reasoning_delta r = \<lparr>dm_reasoning = Some r, dm_content = None\<rparr>"

record thinking_parser =
  start_token :: string
  end_token :: string
  start_token_id :: int
  end_token_id :: int
  identity_parser :: bool

text \<open>\<open>content if content else None\<close>.\<close>

definition non_empty :: "string \<Rightarrow> string option" where
  "non_empty s = (if s = [] then None else Some s)"

definition py_or :: "string option \<Rightarrow> string \<Rightarrow> string" where
  "py_or a b = (case a of None \<Rightarrow> b | Some s \<Rightarrow> if s = [] then b else s)"

definition init_thinking ::
  "(string \<Rightarrow> int option) \<Rightarrow> string \<Rightarrow> string \<Rightarrow> thinking_parser res" where
  "init_thinking vocab s e =
     (if s = [] \<or> e = [] then Inl ValueError
      else
        (case (vocab s, vocab e) of
           (Some i, Some j) \<Rightarrow>
             Inr \<lparr>start_token = s, end_token = e, start_token_id = i, end_token_id = j, identity_parser = False\<rparr>
         | _ \<Rightarrow> Inl RuntimeError))"

definition init_hy_v3_reasoning ::
  "(string \<Rightarrow> int option) \<Rightarrow> string option \<Rightarrow> string option \<Rightarrow> thinking_parser res" where
  "init_hy_v3_reasoning vocab chat_effort effort =
     res_bind (init_thinking vocab ''<think>'' ''</think>'') (\<lambda>p.
       Inr (p\<lparr>identity_parser := (py_or chat_effort (py_or effort ''no_think'') = ''no_think'')\<rparr>))"

section \<open>The base parser\<close>

fun last_marker :: "thinking_parser \<Rightarrow> int list \<Rightarrow> bool" where
  "last_marker p [] = False"
| "last_marker p (t # ts) =
     (if t = start_token_id p then False else if t = end_token_id p then True else last_marker p ts)"

definition base_is_reasoning_end :: "thinking_parser \<Rightarrow> int list \<Rightarrow> bool" where
  "base_is_reasoning_end p ids = last_marker p (rev ids)"

definition base_is_reasoning_end_streaming :: "thinking_parser \<Rightarrow> int list \<Rightarrow> int list \<Rightarrow> bool" where
  "base_is_reasoning_end_streaming p ids delta_ids = (end_token_id p \<in> set delta_ids)"

definition base_extract_content_ids :: "thinking_parser \<Rightarrow> int list \<Rightarrow> int list" where
  "base_extract_content_ids p ids =
     (if end_token_id p \<notin> set (butlast ids) then []
      else tl (dropWhile (\<lambda>t. t \<noteq> end_token_id p) ids))"

text \<open>The delta around the end token; \<open>find\<close> gives -1 when the text does not hold it.\<close>

definition split_at_end :: "thinking_parser \<Rightarrow> int \<Rightarrow> string \<Rightarrow> delta_message" where
  "split_at_end p from_index delta_text =
     (let e = py_find delta_text (end_token p) 0 in
      \<lparr>dm_reasoning = Some (py_slice delta_text from_index e),
       dm_content = non_empty (py_from delta_text (e + int (length (end_token p))))\<rparr>)"

definition base_extract_reasoning_streaming ::
  "thinking_parser \<Rightarrow> string \<Rightarrow> int list \<Rightarrow> int list \<Rightarrow> delta_message option" where
  "base_extract_reasoning_streaming p delta_text previous_ids delta_ids =
     (if length delta_ids = 1 \<and> (hd delta_ids = start_token_id p \<or> hd delta_ids = end_token_id p) then None
      else if start_token_id p \<in> set previous_ids then
        (if end_token_id p \<in> set delta_ids then Some (split_at_end p 0 delta_text)
         else if end_token_id p \<in> set previous_ids then Some (content_delta (Some delta_text))
         else Some (reasoning_delta delta_text))
      else if start_token_id p \<in> set delta_ids then
        (if end_token_id p \<in> set delta_ids then
           Some (split_at_end p (py_find delta_text (start_token p) 0 + int (length (start_token p))) delta_text)
         else Some (reasoning_delta delta_text))
      else Some (content_delta (Some delta_text)))"

definition base_extract_reasoning ::
  "thinking_parser \<Rightarrow> string \<Rightarrow> string option \<times> string option" where
  "base_extract_reasoning p model_output =
     (let out = (case cut_at (start_token p) model_output of None \<Rightarrow> model_output | Some (_, rest) \<Rightarrow> rest) in
      (case cut_at (end_token p) out of
         None \<Rightarrow> (Some out, None)
       | Some (reasoning, content) \<Rightarrow> (Some reasoning, non_empty content)))"

fun count_loop :: "thinking_parser \<Rightarrow> int list \<Rightarrow> nat \<Rightarrow> nat \<Rightarrow> nat" where
  "count_loop p [] depth n = n"
| "count_loop p (t # ts) depth n =
     (if t = start_token_id p then count_loop p ts (depth + 1) n
      else if t = end_token_id p then count_loop p ts (if depth > 0 then depth - 1 else depth) n
      else count_loop p ts depth (if depth > 0 then n + 1 else n))"

definition count_reasoning_tokens :: "thinking_parser \<Rightarrow> int list \<Rightarrow> nat" where
  "count_reasoning_tokens p ids = count_loop p ids 0 0"

section \<open>The HY3 parser\<close>

definition identity_extract_reasoning_streaming :: "string \<Rightarrow> delta_message option" where
  "identity_extract_reasoning_streaming delta_text =
     (if delta_text \<noteq> [] then Some (content_delta (Some delta_text)) else None)"

definition identity_extract_reasoning :: "string \<Rightarrow> string option \<times> string option" where
  "identity_extract_reasoning model_output = (None, Some model_output)"

definition hy_is_reasoning_end :: "thinking_parser \<Rightarrow> int list \<Rightarrow> bool" where
  "hy_is_reasoning_end p ids = (identity_parser p \<or> base_is_reasoning_end p ids)"

definition hy_is_reasoning_end_streaming :: "thinking_parser \<Rightarrow> int list \<Rightarrow> int list \<Rightarrow> bool" where
  "hy_is_reasoning_end_streaming p ids delta_ids =
     (identity_parser p \<or> base_is_reasoning_end_streaming p ids delta_ids)"

definition hy_extract_content_ids :: "thinking_parser \<Rightarrow> int list \<Rightarrow> int list" where
  "hy_extract_content_ids p ids = (if identity_parser p then ids else base_extract_content_ids p ids)"

definition hy_extract_reasoning :: "thinking_parser \<Rightarrow> string \<Rightarrow> string option \<times> string option" where
  "hy_extract_reasoning p model_output =
     (if identity_parser p then identity_extract_reasoning model_output
      else base_extract_reasoning p model_output)"

definition hy_extract_reasoning_streaming ::
  "thinking_parser \<Rightarrow> string \<Rightarrow> int list \<Rightarrow> int list \<Rightarrow> delta_message option" where
  "hy_extract_reasoning_streaming p delta_text previous_ids delta_ids =
     (if identity_parser p then identity_extract_reasoning_streaming delta_text
      else
        let ret = base_extract_reasoning_streaming p delta_text previous_ids delta_ids in
        if ret \<noteq> None \<and> start_token_id p \<notin> set previous_ids \<and> start_token_id p \<notin> set delta_ids then
          (if end_token_id p \<in> set delta_ids then
             (let e = py_find delta_text (end_token p) 0 in
              Some \<lparr>dm_reasoning = Some (py_upto delta_text e),
                    dm_content = non_empty (py_from delta_text (e + int (length (end_token p))))\<rparr>)
           else if end_token_id p \<in> set previous_ids then Some (content_delta (Some delta_text))
           else Some (reasoning_delta delta_text))
        else ret)"

section \<open>A stream\<close>

text \<open>The chunks of a stream, each with the text of its tokens; what the client puts together.\<close>

fun reasoning_stream ::
  "thinking_parser \<Rightarrow> (int \<Rightarrow> string) \<Rightarrow> int list \<Rightarrow> int list list \<Rightarrow> delta_message option list" where
  "reasoning_stream p token_text previous_ids [] = []"
| "reasoning_stream p token_text previous_ids (c # cs) =
     hy_extract_reasoning_streaming p (concat (map token_text c)) previous_ids c
       # reasoning_stream p token_text (previous_ids @ c) cs"

definition streamed :: "(delta_message \<Rightarrow> string option) \<Rightarrow> delta_message option list \<Rightarrow> string" where
  "streamed field ds = concat (map (\<lambda>d. case d of None \<Rightarrow> [] | Some m \<Rightarrow> case field m of None \<Rightarrow> [] | Some s \<Rightarrow> s) ds)"

lemma streamed_simps [simp]:
  "streamed f [] = []"
  "streamed f (d # ds) = (case d of None \<Rightarrow> [] | Some m \<Rightarrow> case f m of None \<Rightarrow> [] | Some s \<Rightarrow> s) @ streamed f ds"
  by (simp_all add: streamed_def)

lemma tags_no_overlap [simp]: "no_overlap ''<think>''" "no_overlap ''</think>''"
  by code_simp+

section \<open>Streaming agrees with the whole output\<close>

abbreviation text_of :: "(int \<Rightarrow> string) \<Rightarrow> int list \<Rightarrow> string" where
  "text_of token_text ids \<equiv> concat (map token_text ids)"

lemma py_slice_0: "py_slice xs 0 e = py_upto xs e"
  by (simp add: py_slice_def py_upto_def py_clamp_def)

lemma hy_step:
  assumes "\<not> identity_parser p" and "start_token_id p \<notin> set c"
  shows "hy_extract_reasoning_streaming p d prev c =
    (if c = [end_token_id p] then None
     else if end_token_id p \<in> set c then Some (split_at_end p 0 d)
     else if end_token_id p \<in> set prev then Some (content_delta (Some d)) else Some (reasoning_delta d))"
  using assms by (auto simp: hy_extract_reasoning_streaming_def base_extract_reasoning_streaming_def Let_def
      split_at_end_def py_slice_0 length_Suc_conv)

lemma split_at_end_found:
  assumes "no_overlap (end_token p)" and "end_token p \<noteq> []" and "\<not> has_sub (end_token p) r"
  shows "split_at_end p 0 (r @ end_token p @ c) = \<lparr>dm_reasoning = Some r, dm_content = non_empty c\<rparr>"
  using find_sub_after [OF assms, of c]
  by (simp add: split_at_end_def py_find_0 Let_def py_slice_0 py_upto_nonneg py_from_nonneg nat_add_distrib)

lemma stream_content:
  assumes "\<not> identity_parser p" and "start_token_id p \<notin> set (concat cs)"
    and "end_token_id p \<in> set prev" and "end_token_id p \<notin> set (concat cs)"
  shows "streamed dm_reasoning (reasoning_stream p tt prev cs) = [] \<and>
    streamed dm_content (reasoning_stream p tt prev cs) = text_of tt (concat cs)"
  using assms by (induction cs arbitrary: prev) (auto simp: hy_step content_delta_def)

lemma stream_reasoning:
  assumes "\<not> identity_parser p" and "start_token_id p \<notin> set (concat cs)"
    and "end_token_id p \<notin> set prev" and "end_token_id p \<notin> set (concat cs)"
  shows "streamed dm_reasoning (reasoning_stream p tt prev cs) = text_of tt (concat cs) \<and>
    streamed dm_content (reasoning_stream p tt prev cs) = []"
  using assms by (induction cs arbitrary: prev) (auto simp: hy_step reasoning_delta_def)

lemma has_sub_part: "\<not> has_sub s (xs @ ys) \<Longrightarrow> \<not> has_sub s xs \<and> \<not> has_sub s ys"
  using has_sub_mono [of s xs "[]" ys] has_sub_mono [of s ys xs "[]"] by auto

lemma stream_both:
  assumes "\<not> identity_parser p" and "no_overlap (end_token p)" and "end_token p \<noteq> []"
    and "tt (end_token_id p) = end_token p"
    and "start_token_id p \<notin> set (concat cs)" and "end_token_id p \<notin> set prev"
    and "concat cs = r @ end_token_id p # c" and "end_token_id p \<notin> set r" and "end_token_id p \<notin> set c"
    and "\<not> has_sub (end_token p) (text_of tt r)"
  shows "streamed dm_reasoning (reasoning_stream p tt prev cs) = text_of tt r \<and>
    streamed dm_content (reasoning_stream p tt prev cs) = text_of tt c"
  using assms(5-10)
proof (induction cs arbitrary: prev r)
  case (Cons k ks)
  have "k @ concat ks = r @ end_token_id p # c" using Cons.prems(3) by simp
  then consider r' where "r = k @ r'" "concat ks = r' @ end_token_id p # c"
    | c1 where "k = r @ end_token_id p # c1" "c = c1 @ concat ks"
    by (auto simp: append_eq_append_conv2 append_eq_Cons_conv)
  then show ?case
  proof cases
    case 1
    have "streamed dm_reasoning (reasoning_stream p tt (prev @ k) ks) = text_of tt r' \<and>
        streamed dm_content (reasoning_stream p tt (prev @ k) ks) = text_of tt c"
      by (rule Cons.IH) (use Cons.prems 1 has_sub_part in auto)
    moreover have "hy_extract_reasoning_streaming p (text_of tt k) prev k = Some (reasoning_delta (text_of tt k))"
      using Cons.prems 1 assms(1) by (auto simp: hy_step)
    ultimately show ?thesis using 1 by (simp add: reasoning_delta_def)
  next
    case 2
    have a: "streamed dm_reasoning (reasoning_stream p tt (prev @ k) ks) = [] \<and>
        streamed dm_content (reasoning_stream p tt (prev @ k) ks) = text_of tt (concat ks)"
      by (rule stream_content) (use Cons.prems 2 assms(1) in auto)
    have "split_at_end p 0 (text_of tt k) = \<lparr>dm_reasoning = Some (text_of tt r), dm_content = non_empty (text_of tt c1)\<rparr>"
      using split_at_end_found [OF assms(2,3) Cons.prems(6)] 2 assms(4) by simp
    then have "hy_extract_reasoning_streaming p (text_of tt k) prev k =
        (if k = [end_token_id p] then None
         else Some \<lparr>dm_reasoning = Some (text_of tt r), dm_content = non_empty (text_of tt c1)\<rparr>)"
      using Cons.prems(1) 2 assms(1) by (auto simp: hy_step)
    then show ?thesis
    proof (cases "k = [end_token_id p]")
      case True
      then have "r = []" "c1 = []" using 2(1) by (cases r; simp)+
      then show ?thesis using a 2 True \<open>hy_extract_reasoning_streaming p (text_of tt k) prev k = _\<close> by simp
    next
      case False
      then show ?thesis using a 2(2) \<open>hy_extract_reasoning_streaming p (text_of tt k) prev k = _\<close>
        by (simp add: non_empty_def)
    qed
  qed
qed simp

text \<open>
  What is assumed of an output: the tags are tokens of their own, the end token is there at most once,
  and the text of the other tokens does not spell a tag.
\<close>

definition tags_stay_tokens :: "thinking_parser \<Rightarrow> (int \<Rightarrow> string) \<Rightarrow> int list \<Rightarrow> bool" where
  "tags_stay_tokens p tt ids \<longleftrightarrow>
     tt (start_token_id p) = start_token p \<and> tt (end_token_id p) = end_token p \<and>
     start_token_id p \<notin> set ids \<and> count_list ids (end_token_id p) \<le> 1 \<and>
     \<not> has_sub (start_token p) (text_of tt ids) \<and>
     \<not> has_sub (end_token p) (text_of tt (takeWhile (\<lambda>t. t \<noteq> end_token_id p) ids))"

lemma hy_init_tags:
  assumes "init_hy_v3_reasoning vocab chat effort = Inr p"
  shows "start_token p = ''<think>''" and "end_token p = ''</think>''"
  using assms by (auto simp: init_hy_v3_reasoning_def init_thinking_def res_bind_eq_Inr split: option.splits)

lemma cut_at_start: "s \<noteq> [] \<Longrightarrow> cut_at s (s @ xs) = Some ([], xs)"
  by (cases s) (simp_all add: cut_at_def)

lemma cut_at_None: "\<not> has_sub s xs \<Longrightarrow> cut_at s xs = None"
  by (simp add: cut_at_def has_sub_def)

lemma stream_splits:
  assumes "\<not> identity_parser p" and "no_overlap (end_token p)" and "end_token p \<noteq> []"
    and "tags_stay_tokens p tt (concat cs)" and "end_token_id p \<notin> set prev"
  shows "(case cut_at (end_token p) (text_of tt (concat cs)) of
      None \<Rightarrow> (Some (text_of tt (concat cs)), None)
    | Some (reasoning, content) \<Rightarrow> (Some reasoning, non_empty content))
    = (Some (streamed dm_reasoning (reasoning_stream p tt prev cs)),
       non_empty (streamed dm_content (reasoning_stream p tt prev cs)))"
proof -
  let ?e = "end_token_id p" and ?ids = "concat cs"
  have t: "tt ?e = end_token p" "start_token_id p \<notin> set ?ids" "count_list ?ids ?e \<le> 1"
    "\<not> has_sub (end_token p) (text_of tt (takeWhile (\<lambda>t. t \<noteq> ?e) ?ids))"
    using assms(4) by (simp_all add: tags_stay_tokens_def)
  show ?thesis
  proof (cases "?e \<in> set ?ids")
    case False
    then have "takeWhile (\<lambda>t. t \<noteq> ?e) ?ids = ?ids" by (auto simp: takeWhile_eq_all_conv)
    then have "cut_at (end_token p) (text_of tt ?ids) = None" using t(4) cut_at_None by metis
    then show ?thesis using stream_reasoning [OF assms(1) t(2) assms(5) False]
      by (simp add: non_empty_def)
  next
    case True
    then obtain r c where ids: "?ids = r @ ?e # c" and r: "?e \<notin> set r" using split_list_first by metis
    then have c: "?e \<notin> set c" using t(3) count_list_0_iff by fastforce
    have "takeWhile (\<lambda>t. t \<noteq> ?e) ?ids = r" unfolding ids using r by (induction r) auto
    then have sub: "\<not> has_sub (end_token p) (text_of tt r)" using t(4) by simp
    have "cut_at (end_token p) (text_of tt ?ids) = Some (text_of tt r, text_of tt c)"
      using find_sub_after [OF assms(2,3) sub] t(1) by (simp add: cut_at_def ids)
    moreover note stream_both [where tt = tt, OF assms(1-3) t(1,2) assms(5) ids r c sub]
    ultimately show ?thesis by simp
  qed
qed

text \<open>
  C17. Streaming and whole outputs agree, for a request with reasoning (the parser is not the identity
  parser) whose tags come as tokens of their own: however the output is cut into chunks, the reasoning
  and the content that a client puts together from the deltas are those of \<open>extract_reasoning\<close> on the
  whole text, with one \<open></think>\<close> or none, and also when the model repeats \<open><think>\<close> as a first chunk of
  its own. Anywhere else the start token is excluded (\<open>start_tag_leaks\<close>).
\<close>

theorem reasoning_stream_is_batch:
  assumes "init_hy_v3_reasoning vocab chat effort = Inr p" and "\<not> identity_parser p"
    and "tags_stay_tokens p tt (concat cs)" and "lead = [] \<or> lead = [[start_token_id p]]"
  shows "hy_extract_reasoning p (text_of tt (concat (lead @ cs))) =
    (Some (streamed dm_reasoning (reasoning_stream p tt [] (lead @ cs))),
     non_empty (streamed dm_content (reasoning_stream p tt [] (lead @ cs))))"
proof -
  note tag = hy_init_tags [OF assms(1)]
  have t: "tt (start_token_id p) = ''<think>''" "tt (end_token_id p) = ''</think>''"
    "\<not> has_sub ''<think>'' (text_of tt (concat cs))" using assms(3) by (simp_all add: tags_stay_tokens_def tag)
  have ids: "end_token_id p \<noteq> start_token_id p" using t by auto
  have e: "no_overlap (end_token p)" "end_token p \<noteq> []" by (simp_all add: tag)
  show ?thesis using assms(4)
  proof
    assume "lead = []"
    then show ?thesis using stream_splits [OF assms(2) e assms(3), of "[]"] cut_at_None [OF t(3)] assms(2)
      by (simp add: hy_extract_reasoning_def base_extract_reasoning_def tag)
  next
    assume lead: "lead = [[start_token_id p]]"
    have none: "hy_extract_reasoning_streaming p d [] [start_token_id p] = None" for d
      using assms(2) by (simp add: hy_extract_reasoning_streaming_def base_extract_reasoning_streaming_def)
    have "cut_at ''<think>'' (''<think>'' @ text_of tt (concat cs)) = Some ([], text_of tt (concat cs))"
      by (rule cut_at_start) simp
    then show ?thesis using stream_splits [OF assms(2) e assms(3), of "[start_token_id p]"] assms(2) ids lead none t(1)
      by (simp add: hy_extract_reasoning_def base_extract_reasoning_def tag)
  qed
qed

text \<open>Token 1 is \<open><think>\<close>, token 2 is \<open></think>\<close>, the others are letters.\<close>

definition sample_vocab :: "string \<Rightarrow> int option" where
  "sample_vocab s = (if s = ''<think>'' then Some 1 else if s = ''</think>'' then Some 2 else None)"

definition sample_token :: "int \<Rightarrow> string" where
  "sample_token t = (if t = 1 then ''<think>'' else if t = 2 then ''</think>'' else [char_of (nat t)])"

lemma reasoning_stream_is_batch_witness:
  "\<exists>p. init_hy_v3_reasoning sample_vocab None (Some ''high'') = Inr p \<and>
    hy_extract_reasoning p ''ab</think>cd'' = (Some ''ab'', Some ''cd'') \<and>
    streamed dm_content (reasoning_stream p sample_token [] [[97], [98, 2, 99], [100]]) = ''cd''"
proof -
  define p where "p = projr (init_hy_v3_reasoning sample_vocab None (Some ''high''))"
  have i: "init_hy_v3_reasoning sample_vocab None (Some ''high'') = Inr p" "\<not> identity_parser p"
    unfolding p_def by code_simp+
  have "tags_stay_tokens p sample_token (concat [[97], [98, 2, 99], [100]])" unfolding p_def by code_simp
  from reasoning_stream_is_batch [OF i this, of "[]"]
  have "hy_extract_reasoning p (text_of sample_token (concat ([] @ [[97], [98, 2, 99], [100]]))) =
    (Some (streamed dm_reasoning (reasoning_stream p sample_token [] ([] @ [[97], [98, 2, 99], [100]]))),
     non_empty (streamed dm_content (reasoning_stream p sample_token [] ([] @ [[97], [98, 2, 99], [100]]))))" by simp
  moreover have "text_of sample_token (concat ([] @ [[97], [98, 2, 99], [100]])) = ''ab</think>cd''" by code_simp
  moreover have "hy_extract_reasoning p ''ab</think>cd'' = (Some ''ab'', Some ''cd'')" unfolding p_def by code_simp
  ultimately show ?thesis using i(1) by (auto simp: non_empty_def split: if_splits)
qed

text \<open>
  A first chunk that holds \<open><think>\<close> and more is passed on with its tag: the client sees the tag in the
  reasoning, the whole output has it removed.
\<close>

lemma start_tag_leaks:
  "let p = projr (init_hy_v3_reasoning sample_vocab None (Some ''high'')) in
     streamed dm_reasoning (reasoning_stream p sample_token [] [[1, 97], [98]]) = ''<think>ab'' \<and>
     hy_extract_reasoning p ''<think>ab'' = (Some ''ab'', None)"
  by code_simp

text \<open>Without \<open><think>\<close> in the output, where the prompt holds it, no token counts as reasoning.\<close>

lemma count_without_start: "start_token_id p \<notin> set ids \<Longrightarrow> count_reasoning_tokens p ids = 0"
proof -
  have "start_token_id p \<notin> set ids \<Longrightarrow> count_loop p ids 0 0 = 0" by (induction ids) auto
  then show "start_token_id p \<notin> set ids \<Longrightarrow> ?thesis" by (simp add: count_reasoning_tokens_def)
qed

end
