(* ===== verification/HY3_Tool.thy ===== *)
theory HY3_Tool
  imports Py_Text
begin

text \<open>
  The tool call parser of the HY3 model (\<^verbatim>\<open>vllm/tool_parsers/hy_v3_tool_parser.py\<close>): it reads calls like
  \<open><tool_call>name<tool_sep><arg_key>k</arg_key><arg_value>v</arg_value></tool_call>\<close> from a whole output
  or from the chunks of a stream, gives the values the types of the declared parameters and writes the
  arguments as JSON, in a stream piece by piece. The tags are fields of the parser, as in the code,
  where the two copies of the file differ in them. \<open>json.loads\<close>, \<open>ast.literal_eval\<close>, \<open>int\<close> and \<open>float\<close>
  are arguments; a float is kept as its \<open>repr\<close>.
\<close>

section \<open>JSON\<close>

datatype json =
    JNull
  | JBool bool
  | JInt int
  | JFloat string
  | JStr string
  | JList "json list"
  | JObj "(string \<times> json) list"

fun nat_digits :: "nat \<Rightarrow> string" where
  "nat_digits n = (if n < 10 then [] else nat_digits (n div 10)) @ [char_of (48 + n mod 10)]"

declare nat_digits.simps [simp del]

definition int_digits :: "int \<Rightarrow> string" where
  "int_digits i = (if i < 0 then CHR ''-'' # nat_digits (nat (- i)) else nat_digits (nat i))"

definition hex_digit :: "nat \<Rightarrow> char" where
  "hex_digit n = char_of (if n < 10 then 48 + n else 87 + n)"

text \<open>One character of a JSON string, as \<open>json.dumps(..., ensure_ascii=False)\<close> writes it.\<close>

definition json_esc :: "char \<Rightarrow> string" where
  "json_esc c =
     (let n = of_char c :: nat in
      if c = CHR 0x22 then [CHR 0x5C, CHR 0x22]
      else if c = CHR 0x5C then [CHR 0x5C, CHR 0x5C]
      else if n = 10 then [CHR 0x5C, CHR ''n'']
      else if n = 13 then [CHR 0x5C, CHR ''r'']
      else if n = 9 then [CHR 0x5C, CHR ''t'']
      else if n = 8 then [CHR 0x5C, CHR ''b'']
      else if n = 12 then [CHR 0x5C, CHR ''f'']
      else if n < 32 then [CHR 0x5C] @ ''u00'' @ [hex_digit (n div 16), hex_digit (n mod 16)]
      else [c])"

definition json_str :: "string \<Rightarrow> string" where
  "json_str s = [CHR 0x22] @ concat (map json_esc s) @ [CHR 0x22]"

fun join :: "string \<Rightarrow> string list \<Rightarrow> string" where
  "join sep [] = []"
| "join sep [s] = s"
| "join sep (s # ss) = s @ sep @ join sep ss"

fun json_dumps :: "json \<Rightarrow> string" where
  "json_dumps JNull = ''null''"
| "json_dumps (JBool b) = (if b then ''true'' else ''false'')"
| "json_dumps (JInt i) = int_digits i"
| "json_dumps (JFloat r) = r"
| "json_dumps (JStr s) = json_str s"
| "json_dumps (JList xs) = ''['' @ join '', '' (map json_dumps xs) @ '']''"
| "json_dumps (JObj kvs) = ''{'' @ join '', '' (map (\<lambda>(k, v). json_str k @ '': '' @ json_dumps v) kvs) @ ''}''"

section \<open>Declared types\<close>

text \<open>The \<open>type\<close> of a JSON schema is a name, or a list of names.\<close>

datatype schema_type = TypeName string | TypeNames "string list"

record arg_schema =
  sc_type :: "schema_type option"
  sc_any_of :: "schema_type option list option"
  sc_one_of :: "schema_type option list option"

record tool =
  tool_name :: string
  tool_properties :: "(string \<times> arg_schema) list option"

definition no_schema :: arg_schema where
  "no_schema = \<lparr>sc_type = None, sc_any_of = None, sc_one_of = None\<rparr>"

definition to_lower :: "char \<Rightarrow> char" where
  "to_lower c =
     (let n = of_char c :: nat in
      if 65 \<le> n \<and> n \<le> 90 \<or> 192 \<le> n \<and> n \<le> 222 \<and> n \<noteq> 215 then char_of (n + 32) else c)"

definition type_aliases :: "(string \<times> string) list" where
  "type_aliases =
     [(''str'', ''string''), (''text'', ''string''), (''varchar'', ''string''), (''char'', ''string''),
      (''enum'', ''string''), (''bool'', ''boolean''), (''binary'', ''boolean''), (''int'', ''integer''),
      (''float'', ''number''), (''double'', ''number''), (''list'', ''array''), (''dict'', ''object''),
      (''map'', ''object'')]"

definition integer_prefixes :: "string list" where
  "integer_prefixes = [''int'', ''uint'', ''long'', ''short'', ''unsigned'']"

definition number_prefixes :: "string list" where
  "number_prefixes = [''num'', ''float'']"

text \<open>A list of names is no key of the table of aliases: the lookup raises \<open>TypeError\<close>.\<close>

definition normalize_type :: "schema_type \<Rightarrow> string res" where
  "normalize_type t =
     (case t of
        TypeNames _ \<Rightarrow> Inl TypeError
      | TypeName raw \<Rightarrow>
          (case map_of type_aliases raw of
             Some t' \<Rightarrow> Inr t'
           | None \<Rightarrow>
               let lower = map to_lower raw in
               if list_ex (\<lambda>p. prefix p lower) integer_prefixes then Inr ''integer''
               else if list_ex (\<lambda>p. prefix p lower) number_prefixes then Inr ''number''
               else Inr raw))"

definition get_arg_schema :: "string \<Rightarrow> string \<Rightarrow> tool list option \<Rightarrow> arg_schema" where
  "get_arg_schema function_name arg_key tools =
     (case tools of
        None \<Rightarrow> no_schema
      | Some ts \<Rightarrow>
          (case List.find (\<lambda>t. tool_name t = function_name) ts of
             None \<Rightarrow> no_schema
           | Some t \<Rightarrow>
               (case tool_properties t of
                  None \<Rightarrow> no_schema
                | Some props \<Rightarrow>
                    (case map_of props arg_key of None \<Rightarrow> no_schema | Some sc \<Rightarrow> sc))))"

definition get_schema_options :: "arg_schema \<Rightarrow> schema_type option list" where
  "get_schema_options sc =
     (case sc_type sc of
        Some t \<Rightarrow> [Some t]
      | None \<Rightarrow>
          (case sc_any_of sc of
             Some ts \<Rightarrow> ts
           | None \<Rightarrow> (case sc_one_of sc of Some ts \<Rightarrow> ts | None \<Rightarrow> [Some (TypeName ''string'')])))"

fun normalize_all :: "schema_type option list \<Rightarrow> string list res" where
  "normalize_all [] = Inr []"
| "normalize_all (t # ts) =
     res_bind (normalize_type (case t of None \<Rightarrow> TypeName ''string'' | Some u \<Rightarrow> u)) (\<lambda>n.
     res_bind (normalize_all ts) (\<lambda>ns. Inr (n # ns)))"

text \<open>The set of types is a list here; only membership counts.\<close>

definition get_types :: "arg_schema \<Rightarrow> string list res" where
  "get_types sc = res_bind (normalize_all (get_schema_options sc)) (\<lambda>ns. Inr (filter (\<lambda>n. n \<noteq> ''null'') ns))"

definition is_only_string_type :: "string \<Rightarrow> string \<Rightarrow> tool list option \<Rightarrow> bool res" where
  "is_only_string_type function_name arg_key tools =
     res_bind (get_types (get_arg_schema function_name arg_key tools)) (\<lambda>ts.
       Inr (ts \<noteq> [] \<and> list_all (\<lambda>t. t = ''string'') ts))"

section \<open>Values\<close>

record value_parsers =
  json_loads :: "string \<Rightarrow> json option"
  literal_eval :: "string \<Rightarrow> json option"
  py_int :: "string \<Rightarrow> int option"
  py_float :: "string \<Rightarrow> string option"

definition try_parse_bool :: "string \<Rightarrow> json option" where
  "try_parse_bool value =
     (let lower = map to_lower value in
      if lower = ''true'' then Some (JBool True) else if lower = ''false'' then Some (JBool False) else None)"

definition try_parse_int :: "value_parsers \<Rightarrow> string \<Rightarrow> json option" where
  "try_parse_int lib value = map_option JInt (py_int lib value)"

definition try_parse_wildcard_number :: "value_parsers \<Rightarrow> string \<Rightarrow> json option" where
  "try_parse_wildcard_number lib value =
     (if CHR ''.'' \<in> set value \<or> CHR ''e'' \<in> set value \<or> CHR ''E'' \<in> set value
      then map_option JFloat (py_float lib value) else map_option JInt (py_int lib value))"

definition deserialize :: "value_parsers \<Rightarrow> string \<Rightarrow> json" where
  "deserialize lib value =
     (case json_loads lib value of
        Some v \<Rightarrow> v
      | None \<Rightarrow> (case literal_eval lib value of Some v \<Rightarrow> v | None \<Rightarrow> JStr value))"

fun first_of :: "json option list \<Rightarrow> json \<Rightarrow> json" where
  "first_of [] d = d"
| "first_of (Some v # vs) d = v"
| "first_of (None # vs) d = first_of vs d"

definition parse_typed :: "value_parsers \<Rightarrow> string list \<Rightarrow> string \<Rightarrow> json" where
  "parse_typed lib types value =
     first_of
       [if ''boolean'' \<in> set types then try_parse_bool value else None,
        if ''integer'' \<in> set types then try_parse_int lib value else None,
        if ''number'' \<in> set types then try_parse_wildcard_number lib value else None,
        if list_ex (\<lambda>t. t \<notin> {''string'', ''boolean'', ''integer'', ''number''}) types
        then json_loads lib value else None,
        if ''string'' \<in> set types then Some (JStr value) else None]
       (deserialize lib value)"

definition parse_value ::
  "value_parsers \<Rightarrow> string \<Rightarrow> string \<Rightarrow> string \<Rightarrow> tool list option \<Rightarrow> json res" where
  "parse_value lib value function_name arg_key tools =
     res_bind (get_types (get_arg_schema function_name arg_key tools)) (\<lambda>ts. Inr (parse_typed lib ts value))"

section \<open>Tags and regular expressions\<close>

record tool_tags =
  calls_start :: string
  calls_end :: string
  call_start :: string
  call_end :: string
  tool_sep :: string
  key_start :: string
  key_end :: string
  value_start :: string
  value_end :: string

definition opensource_tags :: tool_tags where
  "opensource_tags = \<lparr>calls_start = ''<tool_calls:opensource>'', calls_end = ''</tool_calls:opensource>'',
     call_start = ''<tool_call:opensource>'', call_end = ''</tool_call:opensource>'',
     tool_sep = ''<tool_sep:opensource>'', key_start = ''<arg_key:opensource>'',
     key_end = ''</arg_key:opensource>'', value_start = ''<arg_value:opensource>'',
     value_end = ''</arg_value:opensource>''\<rparr>"

text \<open>White space of \<open>str.strip\<close>, and \<open>\s\<close> of the library \<open>regex\<close>, which leaves out four separators.\<close>

definition py_space :: "char \<Rightarrow> bool" where
  "py_space c = (let n = of_char c :: nat in 9 \<le> n \<and> n \<le> 13 \<or> 28 \<le> n \<and> n \<le> 32 \<or> n = 133 \<or> n = 160)"

definition regex_space :: "char \<Rightarrow> bool" where
  "regex_space c = (let n = of_char c :: nat in 9 \<le> n \<and> n \<le> 13 \<or> n = 32 \<or> n = 133 \<or> n = 160)"

definition strip :: "string \<Rightarrow> string" where
  "strip s = rev (dropWhile py_space (rev (dropWhile py_space s)))"

text \<open>
  \<open>func_args_regex\<close>: the key ends at the first \<open></arg_key>\<close> that white space and \<open><arg_value>\<close> follow, the
  value at the next \<open></arg_value>\<close>. When there is none, a later start of the key does not help.
\<close>

definition after_key :: "tool_tags \<Rightarrow> string \<Rightarrow> string option" where
  "after_key g s =
     (if prefix (key_end g) s then
        let t = dropWhile regex_space (drop (length (key_end g)) s) in
        if prefix (value_start g) t then Some (drop (length (value_start g)) t) else None
      else None)"

fun find_key_end :: "tool_tags \<Rightarrow> string \<Rightarrow> (string \<times> string) option" where
  "find_key_end g [] = map_option (\<lambda>r. ([], r)) (after_key g [])"
| "find_key_end g (c # cs) =
     (case after_key g (c # cs) of
        Some r \<Rightarrow> Some ([], r)
      | None \<Rightarrow> map_option (\<lambda>(k, r). (c # k, r)) (find_key_end g cs))"

definition match_pair :: "tool_tags \<Rightarrow> string \<Rightarrow> ((string \<times> string) \<times> string) option" where
  "match_pair g s =
     (case cut_at (key_start g) s of
        None \<Rightarrow> None
      | Some (_, t) \<Rightarrow>
          (case find_key_end g t of
             None \<Rightarrow> None
           | Some (k, r) \<Rightarrow>
               (case cut_at (value_end g) r of None \<Rightarrow> None | Some (v, rest) \<Rightarrow> Some ((k, v), rest))))"

text \<open>\<open>findall\<close>, and the text after the last match; each match takes some text, so the length is enough fuel.\<close>

fun pairs_loop :: "nat \<Rightarrow> tool_tags \<Rightarrow> string \<Rightarrow> (string \<times> string) list \<times> string" where
  "pairs_loop 0 g s = ([], s)"
| "pairs_loop (Suc n) g s =
     (case match_pair g s of
        None \<Rightarrow> ([], s)
      | Some (kv, rest) \<Rightarrow> (case pairs_loop n g rest of (kvs, tail) \<Rightarrow> (kv # kvs, tail)))"

definition arg_pairs :: "tool_tags \<Rightarrow> string \<Rightarrow> (string \<times> string) list \<times> string" where
  "arg_pairs g s = pairs_loop (length s) g s"

text \<open>\<open>tool_call_regex\<close> and \<open>tool_call_portion_regex\<close>.\<close>

definition match_call :: "tool_tags \<Rightarrow> string \<Rightarrow> ((string \<times> string) \<times> string) option" where
  "match_call g s =
     (case cut_at (call_start g) s of
        None \<Rightarrow> None
      | Some (_, t) \<Rightarrow>
          (case cut_at (tool_sep g) t of
             None \<Rightarrow> None
           | Some (name, r) \<Rightarrow>
               (case cut_at (call_end g) r of None \<Rightarrow> None | Some (args, rest) \<Rightarrow> Some ((name, args), rest))))"

fun calls_loop :: "nat \<Rightarrow> tool_tags \<Rightarrow> string \<Rightarrow> (string \<times> string) list" where
  "calls_loop 0 g s = []"
| "calls_loop (Suc n) g s =
     (case match_call g s of None \<Rightarrow> [] | Some (c, rest) \<Rightarrow> c # calls_loop n g rest)"

definition match_portion :: "tool_tags \<Rightarrow> string \<Rightarrow> (string \<times> string) list" where
  "match_portion g s =
     (case cut_at (call_start g) s of
        None \<Rightarrow> []
      | Some (_, t) \<Rightarrow> (case cut_at (tool_sep g) t of None \<Rightarrow> [] | Some c \<Rightarrow> [c]))"

text \<open>\<open>s.split(sub)[-1]\<close>.\<close>

fun last_part :: "nat \<Rightarrow> string \<Rightarrow> string \<Rightarrow> string" where
  "last_part 0 sub s = s"
| "last_part (Suc n) sub s = (case cut_at sub s of None \<Rightarrow> s | Some (_, rest) \<Rightarrow> last_part n sub rest)"

definition split_last :: "string \<Rightarrow> string \<Rightarrow> string" where
  "split_last sub s = last_part (length s) sub s"

section \<open>A whole output\<close>

record extracted =
  tools_called :: bool
  tool_calls :: "(string \<times> string) list"
  ex_content :: "string option"

definition set_key :: "string \<Rightarrow> json \<Rightarrow> (string \<times> json) list \<Rightarrow> (string \<times> json) list" where
  "set_key k v d = AList.update k v d"

definition parse_call ::
  "value_parsers \<Rightarrow> tool_tags \<Rightarrow> tool list option \<Rightarrow> string \<times> string \<Rightarrow> (string \<times> string) res" where
  "parse_call lib g tools c =
     (let name = strip (fst c) in
      res_bind
        (fold_res (\<lambda>(k, v) d. res_bind (parse_value lib v name k tools) (\<lambda>x. Inr (set_key k x d)))
           (fst (arg_pairs g (strip (snd c)))) [])
        (\<lambda>d. Inr (name, json_dumps (JObj d))))"

fun parse_calls ::
  "value_parsers \<Rightarrow> tool_tags \<Rightarrow> tool list option \<Rightarrow> (string \<times> string) list \<Rightarrow> (string \<times> string) list res" where
  "parse_calls lib g tools [] = Inr []"
| "parse_calls lib g tools (c # cs) =
     res_bind (parse_call lib g tools c) (\<lambda>x. res_bind (parse_calls lib g tools cs) (\<lambda>xs. Inr (x # xs)))"

definition extract_all_calls ::
  "value_parsers \<Rightarrow> tool_tags \<Rightarrow> tool list option \<Rightarrow> string \<Rightarrow> (string \<times> string) list" where
  "extract_all_calls lib g tools out =
     (let calls = calls_loop (length out) g out;
          all = (if calls \<noteq> [] then calls @ match_portion g (split_last (call_end g) out) else match_portion g out)
      in case parse_calls lib g tools all of Inl _ \<Rightarrow> [] | Inr xs \<Rightarrow> xs)"

definition extract_tool_calls ::
  "value_parsers \<Rightarrow> tool_tags \<Rightarrow> tool list option \<Rightarrow> string \<Rightarrow> extracted" where
  "extract_tool_calls lib g tools out =
     (case cut_at (calls_start g) out of
        None \<Rightarrow> \<lparr>tools_called = False, tool_calls = [], ex_content = Some out\<rparr>
      | Some (content, _) \<Rightarrow>
          \<lparr>tools_called = True, tool_calls = extract_all_calls lib g tools out,
           ex_content = (if content = [] then None else Some content)\<rparr>)"

end
