(* ===== verification/HY3_Stream.thy ===== *)
theory HY3_Stream
  imports HY3_Tool
begin

text \<open>
  Tool calls in a stream: \<open>extract_tool_calls_streaming\<close> and \<open>_extract_streaming_incremental\<close> of the HY3
  tool parser. The parser keeps a buffer and writes the JSON of the arguments as far as it is known,
  the value of a string parameter while it is still arriving. The random id of a call is left out.
\<close>

section \<open>The parser\<close>

record stream_parser =
  st_buffer :: string
  streaming_tool_name :: "string option"
  completed_args :: "(string \<times> json) list"
  current_arg_key :: "string option"
  current_arg_is_string :: bool
  streamed_json_len :: nat
  current_tool_id :: int
  prev_tool_call_arr :: "(string option \<times> (string \<times> json) list) list"
  streamed_args_for_tool :: "string list"

definition init_stream_parser :: stream_parser where
  "init_stream_parser = \<lparr>st_buffer = [], streaming_tool_name = None, completed_args = [],
     current_arg_key = None, current_arg_is_string = False, streamed_json_len = 0, current_tool_id = -1,
     prev_tool_call_arr = [], streamed_args_for_tool = []\<rparr>"

definition reset_streaming_tool_state :: "stream_parser \<Rightarrow> stream_parser" where
  "reset_streaming_tool_state p = p\<lparr>streaming_tool_name := None, completed_args := [],
     current_arg_key := None, current_arg_is_string := False, streamed_json_len := 0\<rparr>"

text \<open>A delta is content, or has the index of a call, its name and a piece of its arguments.\<close>

datatype tool_delta = ContentDelta string | CallDelta int "string option" "string option"

text \<open>\<open>str.replace\<close> of one character.\<close>

definition replace_char :: "char \<Rightarrow> string \<Rightarrow> string \<Rightarrow> string" where
  "replace_char c new s = concat (map (\<lambda>x. if x = c then new else [x]) s)"

definition escape_partial :: "string \<Rightarrow> string" where
  "escape_partial v =
     replace_char (char_of (9 :: nat)) [CHR 0x5C, CHR ''t'']
       (replace_char (char_of (13 :: nat)) [CHR 0x5C, CHR ''r'']
         (replace_char (char_of (10 :: nat)) [CHR 0x5C, CHR ''n'']
           (replace_char CHR 0x22 [CHR 0x5C, CHR 0x22]
             (replace_char CHR 0x5C [CHR 0x5C, CHR 0x5C] v))))"

definition tool_name_or_empty :: "stream_parser \<Rightarrow> string" where
  "tool_name_or_empty p = (case streaming_tool_name p of None \<Rightarrow> [] | Some n \<Rightarrow> n)"

text \<open>The arguments that are complete in the buffer.\<close>

definition add_completed ::
  "value_parsers \<Rightarrow> tool list option \<Rightarrow> string \<Rightarrow> string \<times> string \<Rightarrow> (string \<times> json) list \<Rightarrow>
   (string \<times> json) list res" where
  "add_completed lib tools name kv d =
     (let key = strip (fst kv) in
      if map_of d key = None then
        res_bind (parse_value lib (snd kv) name key tools) (\<lambda>x. Inr (d @ [(key, x)]))
      else Inr d)"

text \<open>The argument that has begun at the end of the buffer: its key, and its value if it is a string.\<close>

definition scan_tail ::
  "tool_tags \<Rightarrow> tool list option \<Rightarrow> string \<Rightarrow> stream_parser \<Rightarrow>
   ((string \<times> string) option \<times> stream_parser) res" where
  "scan_tail g tools tail p =
     (let ks = py_find tail (key_start g) 0 in
      if ks = -1 then Inr (None, p)
      else
        let k0 = ks + int (length (key_start g)); ke = py_find tail (key_end g) k0 in
        if ke = -1 then Inr (None, p\<lparr>current_arg_key := None, current_arg_is_string := False\<rparr>)
        else
          let key = strip (py_slice tail k0 ke) in
          res_bind (is_only_string_type (tool_name_or_empty p) key tools) (\<lambda>s.
            let vs = py_find tail (value_start g) ke in
            Inr (if vs \<noteq> -1 \<and> s then Some (key, py_from tail (vs + int (length (value_start g)))) else None,
                 p\<lparr>current_arg_key := Some key, current_arg_is_string := s\<rparr>)))"

definition json_entry :: "string \<times> json \<Rightarrow> string" where
  "json_entry kv = json_str (fst kv) @ '': '' @ json_dumps (snd kv)"

definition snapshot :: "(string \<times> json) list \<Rightarrow> (string \<times> string) option \<Rightarrow> string" where
  "snapshot done_args open_arg =
     ''{'' @ join '', ''
       (map json_entry done_args @
        (case open_arg of
           None \<Rightarrow> []
         | Some (k, v) \<Rightarrow> [json_str k @ '': '' @ [CHR 0x22] @ escape_partial v])) @ ''}''"

definition argument_delta ::
  "string option \<Rightarrow> string \<Rightarrow> stream_parser \<Rightarrow> tool_delta option" where
  "argument_delta name_delta diff p =
     (case name_delta of
        Some n \<Rightarrow> Some (CallDelta (current_tool_id p) (Some n) (if diff = [] then None else Some diff))
      | None \<Rightarrow> if diff = [] then None else Some (CallDelta (current_tool_id p) None (Some diff)))"

definition extract_streaming_incremental ::
  "value_parsers \<Rightarrow> tool_tags \<Rightarrow> tool list option \<Rightarrow> string option \<Rightarrow> stream_parser \<Rightarrow>
   (tool_delta option \<times> stream_parser) res" where
  "extract_streaming_incremental lib g tools name_delta p =
     (let cut = cut_at (call_end g) (st_buffer p);
          args_text = (case cut of Some (a, _) \<Rightarrow> a | None \<Rightarrow> st_buffer p);
          (kvs, tail) = arg_pairs g args_text
      in
      res_bind (fold_res (add_completed lib tools (tool_name_or_empty p)) kvs (completed_args p)) (\<lambda>d.
      res_bind (scan_tail g tools tail (p\<lparr>completed_args := d\<rparr>)) (\<lambda>(open_arg, p1).
        (case cut of
           Some (_, remaining) \<Rightarrow>
             let final_json = json_dumps (JObj d);
                 diff = drop (streamed_json_len p1) final_json;
                 p2 = reset_streaming_tool_state
                        (p1\<lparr>prev_tool_call_arr := prev_tool_call_arr p1 @ [(streaming_tool_name p1, d)],
                            streamed_args_for_tool := streamed_args_for_tool p1 @ [final_json]\<rparr>)
                        \<lparr>st_buffer := remaining\<rparr>
             in Inr (argument_delta name_delta diff p2, p2)
         | None \<Rightarrow>
             let snap = snapshot d open_arg; end_len = length snap - 1;
                 diff = drop (streamed_json_len p1) (take end_len snap);
                 p2 = (if end_len > streamed_json_len p1 then p1\<lparr>streamed_json_len := end_len\<rparr> else p1)
             in Inr (argument_delta name_delta diff p2, p2)))))"

definition extract_tool_calls_streaming ::
  "value_parsers \<Rightarrow> tool_tags \<Rightarrow> tool list option \<Rightarrow> string \<Rightarrow> string \<Rightarrow> bool \<Rightarrow> stream_parser \<Rightarrow>
   (tool_delta option \<times> stream_parser) res" where
  "extract_tool_calls_streaming lib g tools current_text delta_text started p =
     (if \<not> started then Inr (Some (ContentDelta delta_text), p)
      else
        let first = cut_at (calls_start g) delta_text;
            p0 = p\<lparr>st_buffer := st_buffer p @
                    (case first of None \<Rightarrow> delta_text | Some _ \<Rightarrow> split_last (calls_start g) delta_text)\<rparr>
        in
        case first of
          Some (c # cs, _) \<Rightarrow> Inr (Some (ContentDelta (c # cs)), p0)
        | _ \<Rightarrow>
            let p1 = (if has_sub (call_end g @ calls_end g) current_text \<and> \<not> has_sub (call_end g) (st_buffer p0)
                      then p0\<lparr>st_buffer := st_buffer p0 @ call_end g @ calls_end g\<rparr> else p0);
                cur = st_buffer p1; s = py_find cur (call_start g) 0
            in
            case streaming_tool_name p1 of
              Some _ \<Rightarrow> extract_streaming_incremental lib g tools None p1
            | None \<Rightarrow>
                if s = -1 then Inr (None, p1\<lparr>st_buffer := []\<rparr>)
                else
                  let sep = py_find cur (tool_sep g) 0 in
                  if sep = -1 then Inr (None, p1\<lparr>st_buffer := py_from cur s\<rparr>)
                  else
                    let name = strip (py_slice cur (s + int (length (call_start g))) sep);
                        p2 = p1\<lparr>streaming_tool_name := Some name,
                                st_buffer := py_from cur (sep + int (length (tool_sep g))),
                                current_tool_id := current_tool_id p1 + 1\<rparr>
                    in
                    if \<not> has_sub (call_end g) (st_buffer p2)
                    then Inr (Some (CallDelta (current_tool_id p2) (Some name) None), p2)
                    else extract_streaming_incremental lib g tools (Some name) p2)"

end
