(* ===== verification/HY3_Types.thy ===== *)
theory HY3_Types
  imports HY3_Tool
begin

text \<open>
  The types of the values that the HY3 tool call parser reads: what \<open>_parse_value\<close> makes of the text of an
  argument against the types that the schema of its parameter declares.
\<close>

text \<open>The names under which JSON Schema knows a value; an integer is a number too.\<close>

fun json_types :: "json \<Rightarrow> string set" where
  "json_types JNull = {''null''}"
| "json_types (JBool _) = {''boolean''}"
| "json_types (JInt _) = {''integer'', ''number''}"
| "json_types (JFloat _) = {''number''}"
| "json_types (JStr _) = {''string''}"
| "json_types (JList _) = {''array''}"
| "json_types (JObj _) = {''object''}"

definition has_type :: "string list \<Rightarrow> json \<Rightarrow> bool" where
  "has_type ts x \<longleftrightarrow> json_types x \<inter> set ts \<noteq> {}"

abbreviation scalar_types :: "string set" where
  "scalar_types \<equiv> {''string'', ''boolean'', ''integer'', ''number''}"

lemma first_of_in: "Some y \<in> set xs \<Longrightarrow> Some (first_of xs d) \<in> set xs"
  by (induction xs d rule: first_of.induct) auto

lemma try_parse_bool_type: "try_parse_bool v = Some x \<Longrightarrow> json_types x = {''boolean''}"
  by (auto simp: try_parse_bool_def Let_def split: if_splits)

lemma try_parse_int_type: "try_parse_int lib v = Some x \<Longrightarrow> json_types x = {''integer'', ''number''}"
  by (auto simp: try_parse_int_def)

lemma try_parse_number_type: "try_parse_wildcard_number lib v = Some x \<Longrightarrow> ''number'' \<in> json_types x"
  by (auto simp: try_parse_wildcard_number_def split: if_splits)

lemma parse_typed_string:
  assumes "''string'' \<in> set ts"
  shows "has_type ts (parse_typed lib ts v) \<or>
    json_loads lib v = Some (parse_typed lib ts v) \<and> \<not> set ts \<subseteq> scalar_types"
proof -
  let ?x = "parse_typed lib ts v"
  let ?xs = "[if ''boolean'' \<in> set ts then try_parse_bool v else None,
      if ''integer'' \<in> set ts then try_parse_int lib v else None,
      if ''number'' \<in> set ts then try_parse_wildcard_number lib v else None,
      if list_ex (\<lambda>t. t \<notin> scalar_types) ts then json_loads lib v else None,
      if ''string'' \<in> set ts then Some (JStr v) else None]"
  have "Some ?x \<in> set ?xs" unfolding parse_typed_def by (rule first_of_in [of "JStr v"]) (simp only: assms if_True list.set insert_iff simp_thms)
  then consider "''boolean'' \<in> set ts" "try_parse_bool v = Some ?x"
    | "''integer'' \<in> set ts" "try_parse_int lib v = Some ?x"
    | "''number'' \<in> set ts" "try_parse_wildcard_number lib v = Some ?x"
    | "list_ex (\<lambda>t. t \<notin> scalar_types) ts" "json_loads lib v = Some ?x" | "?x = JStr v"
    unfolding list.set by (elim insertE emptyE) (simp_all split: if_split_asm)
  then show ?thesis
  proof cases
    case 1 then show ?thesis using try_parse_bool_type by (simp add: has_type_def)
  next
    case 2 then show ?thesis using try_parse_int_type by (simp add: has_type_def)
  next
    case 3 then show ?thesis using try_parse_number_type by (fastforce simp: has_type_def)
  next
    case 4 then show ?thesis by (auto simp: list_ex_iff)
  next
    case 5 then show ?thesis using assms by (simp add: has_type_def)
  qed
qed

text \<open>A parameter that can only be a string.\<close>

definition only_string :: "string list \<Rightarrow> bool" where
  "only_string ts \<longleftrightarrow> ts \<noteq> [] \<and> list_all (\<lambda>t. t = ''string'') ts"

lemma parse_only_string: "only_string ts \<Longrightarrow> parse_typed lib ts v = JStr v"
proof -
  assume s: "only_string ts"
  then obtain x xs where "ts = x # xs" by (cases ts) (auto simp: only_string_def)
  then have "''string'' \<in> set ts" using s by (simp add: only_string_def)
  moreover have "\<forall>t \<in> set ts. t = ''string''" using s by (simp add: only_string_def list_all_iff)
  then have "''boolean'' \<notin> set ts" "''integer'' \<notin> set ts" "''number'' \<notin> set ts"
    "\<not> list_ex (\<lambda>t. t \<notin> {''string'', ''boolean'', ''integer'', ''number''}) ts" by (auto simp: list_ex_iff)
  ultimately show ?thesis by (simp add: parse_typed_def)
qed


section \<open>Enough fuel\<close>

text \<open>
  The loops over matches take the length of the text as fuel. Every match takes at least its first tag,
  so that more fuel changes nothing.
\<close>

lemma cut_at_shorter: "cut_at sub s = Some (a, r) \<Longrightarrow> length r + length sub \<le> length s"
proof -
  assume "cut_at sub s = Some (a, r)"
  then obtain k where k: "find_sub sub s = Some k" "r = drop (k + length sub) s" by (auto simp: cut_at_def)
  then have "prefix sub (drop k s)" using find_sub_Some by blast
  then have "length sub \<le> length s - k" using prefix_length_le by fastforce
  then show ?thesis using k find_sub_Some [OF k(1)] by (cases "k \<le> length s") auto
qed

lemma after_key_shorter: "after_key g s = Some r \<Longrightarrow> length r \<le> length s"
  by (auto simp: after_key_def Let_def split: if_splits intro!: order_trans [OF diff_le_self]
      order_trans [OF length_dropWhile_le])

lemma find_key_end_shorter: "find_key_end g s = Some (k, r) \<Longrightarrow> length r \<le> length s"
proof (induction s arbitrary: k r)
  case (Cons c cs)
  show ?case
  proof (cases "after_key g (c # cs)")
    case None
    then show ?thesis using Cons by fastforce
  next
    case (Some q)
    then show ?thesis using Cons.prems after_key_shorter [OF Some] by simp
  qed
qed (auto dest: after_key_shorter)

lemma match_pair_shorter: "match_pair g s = Some (kv, r) \<Longrightarrow> length r + length (key_start g) \<le> length s"
  by (auto simp: match_pair_def split: option.splits prod.splits dest!: cut_at_shorter find_key_end_shorter)

lemma match_call_shorter: "match_call g s = Some (c, r) \<Longrightarrow> length r + length (call_start g) \<le> length s"
  by (auto simp: match_call_def split: option.splits prod.splits dest!: cut_at_shorter)

lemma pairs_loop_fuel:
  assumes "key_start g \<noteq> []"
  shows "length s \<le> n \<Longrightarrow> pairs_loop n g s = pairs_loop (length s) g s"
proof (induction "length s" arbitrary: s n rule: less_induct)
  case less
  show ?case
  proof (cases "match_pair g s")
    case None
    then show ?thesis by (cases n; cases "length s") simp_all
  next
    case (Some p)
    then obtain kv r where p: "match_pair g s = Some (kv, r)" by (cases p) auto
    have r: "length r < length s" using match_pair_shorter [OF p] assms by (cases "key_start g") auto
    then obtain l m where "length s = Suc l" "n = Suc m" using less.prems by (cases "length s"; cases n) auto
    then show ?thesis using less.hyps [OF r, of l] less.hyps [OF r, of m] less.prems r p by simp
  qed
qed

lemma calls_loop_fuel:
  assumes "call_start g \<noteq> []"
  shows "length s \<le> n \<Longrightarrow> calls_loop n g s = calls_loop (length s) g s"
proof (induction "length s" arbitrary: s n rule: less_induct)
  case less
  show ?case
  proof (cases "match_call g s")
    case None
    then show ?thesis by (cases n; cases "length s") simp_all
  next
    case (Some p)
    then obtain c r where p: "match_call g s = Some (c, r)" by (cases p) auto
    have r: "length r < length s" using match_call_shorter [OF p] assms by (cases "call_start g") auto
    then obtain l m where "length s = Suc l" "n = Suc m" using less.prems by (cases "length s"; cases n) auto
    then show ?thesis using less.hyps [OF r, of l] less.hyps [OF r, of m] less.prems r p by simp
  qed
qed

lemma last_part_fuel:
  assumes "sub \<noteq> []"
  shows "length s \<le> n \<Longrightarrow> last_part n sub s = last_part (length s) sub s"
proof (induction "length s" arbitrary: s n rule: less_induct)
  case less
  show ?case
  proof (cases "cut_at sub s")
    case None
    then show ?thesis by (cases n; cases "length s") simp_all
  next
    case (Some p)
    then obtain a r where p: "cut_at sub s = Some (a, r)" by (cases p) auto
    have r: "length r < length s" using cut_at_shorter [OF p] assms by (cases sub) auto
    then obtain l m where "length s = Suc l" "n = Suc m" using less.prems by (cases "length s"; cases n) auto
    then show ?thesis using less.hyps [OF r, of l] less.hyps [OF r, of m] less.prems r p by simp
  qed
qed

section \<open>Examples\<close>

definition int_lib :: value_parsers where
  "int_lib = \<lparr>json_loads = (\<lambda>s. if s = ''5'' then Some (JInt 5) else None), literal_eval = (\<lambda>_. None),
     py_int = (\<lambda>s. if s = ''5'' then Some 5 else None), py_float = (\<lambda>_. None)\<rparr>"

definition union_tools :: "tool list option" where
  "union_tools = Some [\<lparr>tool_name = ''f'', tool_properties =
     Some [(''n'', no_schema\<lparr>sc_any_of := Some [Some (TypeName ''int32''), Some (TypeName ''str'')]\<rparr>),
           (''ids'', no_schema\<lparr>sc_any_of := Some [Some (TypeName ''list''), Some (TypeName ''str'')]\<rparr>)]\<rparr>]"


text \<open>A parameter that is declared as an array or a string gets an integer.\<close>

lemma list_or_string_gets_integer:
  "parse_value int_lib ''5'' ''f'' ''ids'' union_tools = Inr (JInt 5) \<and>
   get_types (get_arg_schema ''f'' ''ids'' union_tools) = Inr [''array'', ''string''] \<and>
   \<not> has_type [''array'', ''string''] (JInt 5)"
proof -
  have "parse_value int_lib ''5'' ''f'' ''ids'' union_tools = Inr (JInt 5) \<and>
    get_types (get_arg_schema ''f'' ''ids'' union_tools) = Inr [''array'', ''string'']" by code_simp
  then show ?thesis by (simp add: has_type_def)
qed

end
