(* ===== verification/HY3_Arguments.thy ===== *)
theory HY3_Arguments
  imports HY3_Stream HY3_Types
begin

text \<open>
  The arguments of one tool call in a stream. The text of a call is laid out as the model is trained to
  write it; whatever the chunks are, as long as no tag is cut, the pieces of JSON put together are the
  JSON of the whole call.
\<close>

section \<open>Tags\<close>

definition tag_ok :: "string \<Rightarrow> bool" where
  "tag_ok t \<longleftrightarrow> t \<noteq> [] \<and> hd t = CHR ''<'' \<and> CHR ''<'' \<notin> set (tl t)"

definition tags_ok :: "tool_tags \<Rightarrow> bool" where
  "tags_ok g \<longleftrightarrow> list_all tag_ok [key_start g, key_end g, value_start g, value_end g, call_end g] \<and>
     \<not> prefix (value_start g) (key_end g) \<and> \<not> prefix (key_end g) (value_start g)"

lemma opensource_tags_ok: "tags_ok opensource_tags"
  by code_simp

lemma tags_okD:
  assumes "tags_ok g"
  shows "tag_ok (key_start g)" "tag_ok (key_end g)" "tag_ok (value_start g)" "tag_ok (value_end g)"
    "tag_ok (call_end g)"
  using assms by (simp_all add: tags_ok_def)

lemma tag_no_overlap:
  assumes "tag_ok t"
  shows "no_overlap t"
  unfolding no_overlap_def list_all_iff
proof
  fix m assume "m \<in> set [1..<length t]"
  then have m: "1 \<le> m" "m < length t" by simp_all
  obtain c cs where t: "t = c # cs" using assms by (cases t) (auto simp: tag_ok_def)
  have "c \<in> set (take m t)" using m by (cases m) (simp_all add: t)
  moreover have "set (drop (length t - m) t) \<subseteq> set cs"
    using m by (cases "length t - m") (auto simp: t dest: in_set_dropD)
  ultimately show "take m t \<noteq> drop (length t - m) t" using assms by (auto simp: tag_ok_def t)
qed

lemma cut_at_found:
  assumes "tag_ok t" and "\<not> has_sub t xs"
  shows "cut_at t (xs @ t @ ys) = Some (xs, ys)" and "find_sub t (xs @ t @ ys) = Some (length xs)"
  using find_sub_after [OF tag_no_overlap [OF assms(1)] _ assms(2)] assms(1)
  by (simp_all add: cut_at_def tag_ok_def)

lemma cut_at_not: "\<not> has_sub t xs \<Longrightarrow> cut_at t xs = None \<and> find_sub t xs = None"
  by (simp add: cut_at_def has_sub_def)

lemma has_sub_prefix: "\<not> has_sub s xs \<Longrightarrow> prefix ys xs \<Longrightarrow> \<not> has_sub s ys"
  using has_sub_mono [of s ys "[]"] by (auto simp: prefix_def)

lemma tag_in_text: "tag_ok t \<Longrightarrow> has_sub t xs \<Longrightarrow> CHR ''<'' \<in> set xs"
  by (cases t) (auto simp: has_sub_sublist tag_ok_def)

text \<open>A tag and white space hold no other tag but at their start.\<close>

lemma no_tag_after:
  assumes "tag_ok t" and "tag_ok s" and "\<not> prefix t s" and "\<not> prefix s t" and "CHR ''<'' \<notin> set w"
  shows "\<not> has_sub t (s @ w)"
proof
  assume "has_sub t (s @ w)"
  then obtain us vs where e: "s @ w = us @ t @ vs" by (auto simp: has_sub_sublist)
  obtain cs where s: "s = CHR ''<'' # cs" "CHR ''<'' \<notin> set cs" using assms(2) by (cases s) (auto simp: tag_ok_def)
  have t: "CHR ''<'' \<in> set t" using assms(1) by (cases t) (auto simp: tag_ok_def)
  show False
  proof (cases us)
    case Nil
    then have "prefix t (s @ w)" using e by (metis append_Nil prefixI)
    moreover have "prefix s (s @ w)" by simp
    ultimately show False using prefix_same_cases assms(3,4) by blast
  next
    case (Cons u us')
    then have "cs @ w = us' @ t @ vs" using e s(1) by simp
    then have "CHR ''<'' \<in> set (cs @ w)" using t by simp
    then show False using s(2) assms(5) by simp
  qed
qed

lemma spaces_no_tag: "list_all regex_space w \<Longrightarrow> CHR ''<'' \<notin> set w"
  by (auto simp: list_all_iff regex_space_def Let_def)

lemma drop_spaces:
  assumes "list_all regex_space w" and "tag_ok t"
  shows "dropWhile regex_space (w @ t @ r) = t @ r"
proof -
  obtain cs where "t = CHR ''<'' # cs" using assms(2) by (cases t) (auto simp: tag_ok_def)
  moreover have "\<not> regex_space CHR ''<''" by code_simp
  ultimately show ?thesis using assms(1) by (simp add: dropWhile_append list_all_iff)
qed

section \<open>The layout of a call\<close>

type_synonym arg_item = "string \<times> string \<times> string \<times> string"

text \<open>Text before the key, the key, white space, the value.\<close>

fun item_text :: "tool_tags \<Rightarrow> arg_item \<Rightarrow> string" where
  "item_text g (u, k, w, v) = u @ key_start g @ k @ key_end g @ w @ value_start g @ v @ value_end g"

definition args_text :: "tool_tags \<Rightarrow> arg_item list \<Rightarrow> string \<Rightarrow> string" where
  "args_text g items u = concat (map (item_text g) items) @ u"

fun layout_ok :: "tool_tags \<Rightarrow> arg_item \<Rightarrow> bool" where
  "layout_ok g (u, k, w, v) \<longleftrightarrow> \<not> has_sub (key_start g) u \<and> \<not> has_sub (key_end g) k \<and>
     list_all regex_space w \<and> \<not> has_sub (value_end g) v"

text \<open>The end of a text that is cut inside of an argument, or before the next one, and not inside of a tag.\<close>

definition open_tail :: "tool_tags \<Rightarrow> string \<Rightarrow> arg_item list \<Rightarrow> string \<Rightarrow> bool" where
  "open_tail g u_end rest t \<longleftrightarrow>
     (case rest of
        [] \<Rightarrow> prefix t u_end
      | (u, k, w, v) # _ \<Rightarrow>
          prefix t u \<or> (\<exists>kp. prefix kp k \<and> t = u @ key_start g @ kp) \<or>
          (\<exists>wp. prefix wp w \<and> t = u @ key_start g @ k @ key_end g @ wp) \<or>
          (\<exists>vp. prefix vp v \<and> t = u @ key_start g @ k @ key_end g @ w @ value_start g @ vp))"

definition well_cut :: "tool_tags \<Rightarrow> arg_item list \<Rightarrow> string \<Rightarrow> string \<Rightarrow> bool" where
  "well_cut g items u_end b \<longleftrightarrow>
     (\<exists>n t. n \<le> length items \<and> b = concat (map (item_text g) (take n items)) @ t \<and>
        open_tail g u_end (drop n items) t)"

lemma find_key_end_found:
  assumes "tags_ok g" and "list_all regex_space w" and "\<not> has_sub (key_end g) k"
  shows "find_key_end g (k @ key_end g @ w @ value_start g @ r) = Some (k, r)"
  using assms(3)
proof (induction k)
  case Nil
  obtain c cs where "key_end g = c # cs" using tags_okD(2) [OF assms(1)] by (cases "key_end g") (auto simp: tag_ok_def)
  moreover have "after_key g (key_end g @ w @ value_start g @ r) = Some r"
    using drop_spaces [OF assms(2) tags_okD(3) [OF assms(1)]] by (simp add: after_key_def)
  ultimately show ?case by simp
next
  case (Cons c k)
  have "\<not> prefix (key_end g) ((c # k) @ key_end g @ w @ value_start g @ r)"
    using find_sub_Some [OF cut_at_found(2) [OF tags_okD(2) [OF assms(1)] Cons.prems]]
    by (metis drop0 length_greater_0_conv list.discI)
  then have "after_key g ((c # k) @ key_end g @ w @ value_start g @ r) = None" by (simp add: after_key_def)
  moreover have "\<not> has_sub (key_end g) k" using Cons.prems has_sub_mono [of "key_end g" k "[c]" "[]"] by auto
  ultimately show ?case using Cons.IH by simp
qed

lemma find_key_end_None: "\<not> has_sub (key_end g) s \<Longrightarrow> find_key_end g s = None"
proof (induction s)
  case (Cons c s)
  have "\<not> prefix (key_end g) (c # s)" using Cons.prems has_sub_iff by (metis drop0)
  moreover have "\<not> has_sub (key_end g) s" using Cons.prems has_sub_mono [of "key_end g" s "[c]" "[]"] by auto
  ultimately show ?case using Cons.IH by (simp add: after_key_def)
qed (auto simp: after_key_def has_sub_iff)

lemma find_key_end_open:
  assumes "tags_ok g" and "list_all regex_space w" and "\<not> has_sub (key_end g) k"
  shows "find_key_end g (k @ key_end g @ w) = None"
  using assms(3)
proof (induction k)
  case Nil
  obtain cs where e: "key_end g = CHR ''<'' # cs" "CHR ''<'' \<notin> set cs"
    using tags_okD(2) [OF assms(1)] by (cases "key_end g") (auto simp: tag_ok_def)
  have dw: "dropWhile regex_space w = []" using assms(2) by (simp add: list_all_iff)
  have "after_key g (key_end g @ w) = None"
    using tags_okD(3) [OF assms(1)] by (simp add: after_key_def Let_def tag_ok_def dw del: dropWhile_eq_Nil_conv)
  moreover have "find_key_end g (cs @ w) = None"
    using tag_in_text [OF tags_okD(2) [OF assms(1)], of "cs @ w"] e(2) spaces_no_tag [OF assms(2)]
    by (intro find_key_end_None) auto
  ultimately show ?case by (simp add: e(1))
next
  case (Cons c k)
  have "\<not> prefix (key_end g) ((c # k) @ key_end g @ w)"
    using find_sub_Some [OF cut_at_found(2) [OF tags_okD(2) [OF assms(1)] Cons.prems]]
    by (metis drop0 length_greater_0_conv list.discI)
  then have "after_key g ((c # k) @ key_end g @ w) = None" by (simp add: after_key_def)
  moreover have "\<not> has_sub (key_end g) k" using Cons.prems has_sub_mono [of "key_end g" k "[c]" "[]"] by auto
  ultimately show ?case using Cons.IH by simp
qed

lemma match_pair_found:
  assumes "tags_ok g" and "layout_ok g (u, k, w, v)"
  shows "match_pair g (item_text g (u, k, w, v) @ r) = Some ((k, v), r)"
  using assms find_key_end_found [OF assms(1), of w k]
  by (simp add: match_pair_def cut_at_found tags_okD)

lemma match_pair_open:
  assumes "tags_ok g" and "list_all (layout_ok g) rest" and "\<not> has_sub (key_start g) u_end"
    and "open_tail g u_end rest t"
  shows "match_pair g t = None"
proof (cases rest)
  case Nil
  then have "prefix t u_end" using assms(4) by (simp add: open_tail_def)
  then have "cut_at (key_start g) t = None" using cut_at_not has_sub_prefix [OF assms(3)] by blast
  then show ?thesis by (simp add: match_pair_def)
next
  case (Cons it more)
  obtain u k w v where it: "it = (u, k, w, v)" by (cases it) auto
  have ok: "\<not> has_sub (key_start g) u" "\<not> has_sub (key_end g) k" "list_all regex_space w" "\<not> has_sub (value_end g) v"
    using assms(2) by (simp_all add: Cons it)
  have start: "cut_at (key_start g) (u @ key_start g @ x) = Some (u, x)" for x
    by (rule cut_at_found(1) [OF tags_okD(1) [OF assms(1)] ok(1)])
  from assms(4) consider "prefix t u" | kp where "prefix kp k" "t = u @ key_start g @ kp"
    | wp where "prefix wp w" "t = u @ key_start g @ k @ key_end g @ wp"
    | vp where "prefix vp v" "t = u @ key_start g @ k @ key_end g @ w @ value_start g @ vp"
    by (auto simp: open_tail_def Cons it)
  then show ?thesis
  proof cases
    case 1
    then have "cut_at (key_start g) t = None" using cut_at_not has_sub_prefix [OF ok(1)] by blast
    then show ?thesis by (simp add: match_pair_def)
  next
    case 2
    then have "find_key_end g kp = None" using find_key_end_None has_sub_prefix [OF ok(2)] by blast
    then show ?thesis using 2(2) by (simp add: match_pair_def start)
  next
    case 3
    have "list_all regex_space wp" using 3(1) ok(3) by (auto simp: list_all_iff prefix_def)
    then show ?thesis using find_key_end_open [OF assms(1) _ ok(2)] 3(2) by (simp add: match_pair_def start)
  next
    case 4
    then have "cut_at (value_end g) vp = None" using cut_at_not has_sub_prefix [OF ok(4)] by blast
    then show ?thesis using find_key_end_found [OF assms(1) ok(3,2)] 4(2) by (simp add: match_pair_def start)
  qed
qed

fun key_value :: "arg_item \<Rightarrow> string \<times> string" where
  "key_value (u, k, w, v) = (k, v)"

lemma pairs_loop_items:
  assumes "tags_ok g" and "list_all (layout_ok g) items" and "match_pair g t = None" and "length items \<le> n"
  shows "pairs_loop n g (concat (map (item_text g) items) @ t) = (map key_value items, t)"
  using assms(2,4)
proof (induction items arbitrary: n)
  case Nil
  then show ?case using assms(3) by (cases n) simp_all
next
  case (Cons it items)
  obtain m where n: "n = Suc m" "length items \<le> m" using Cons.prems(2) by (cases n) auto
  obtain u k w v where it: "it = (u, k, w, v)" by (cases it) auto
  have "match_pair g (item_text g (u, k, w, v) @ concat (map (item_text g) items) @ t)
      = Some ((k, v), concat (map (item_text g) items) @ t)"
    using match_pair_found [OF assms(1)] Cons.prems(1) it by simp
  then show ?case using Cons.IH [OF _ n(2)] Cons.prems(1) by (simp add: n(1) it del: item_text.simps)
qed

lemma length_items: "tags_ok g \<Longrightarrow> length items \<le> length (concat (map (item_text g) items))"
proof (induction items)
  case (Cons it items)
  then have "key_start g \<noteq> []" using tags_okD(1) by (auto simp: tag_ok_def)
  then have "1 \<le> length (item_text g it)" by (cases it) (simp add: Suc_le_eq)
  then show ?case using Cons by simp
qed simp

lemma arg_pairs_items:
  assumes "tags_ok g" and "list_all (layout_ok g) items" and "match_pair g t = None"
  shows "arg_pairs g (concat (map (item_text g) items) @ t) = (map key_value items, t)"
  unfolding arg_pairs_def using length_items [OF assms(1), of items]
  by (intro pairs_loop_items [OF assms]) simp

text \<open>Longer texts have more complete arguments.\<close>

lemma well_cut_mono:
  assumes "tags_ok g" and "list_all (layout_ok g) items" and "\<not> has_sub (key_start g) u_end"
    and "prefix (concat (map (item_text g) (take m items)) @ s) (concat (map (item_text g) (take n items)) @ t)"
    and "open_tail g u_end (drop n items) t" and "m \<le> length items"
  shows "m \<le> n"
proof (rule ccontr)
  assume "\<not> m \<le> n"
  then have less: "n < m" by simp
  have "take m items = take n items @ drop n (take m items)"
    using append_take_drop_id [of n "take m items"] less by simp
  also have "drop n (take m items) = items ! n # drop (Suc n) (take m items)"
    using Cons_nth_drop_Suc [of n "take m items"] less assms(6) by simp
  finally obtain more where "take m items = take n items @ items ! n # more" by blast
  then have "prefix (item_text g (items ! n)) t"
    using assms(4) by (auto simp: prefix_def)
  then obtain r where t: "t = item_text g (items ! n) @ r" by (auto simp: prefix_def)
  have it: "layout_ok g (items ! n)" using assms(2,6) less by (simp add: list_all_length)
  have "match_pair g t \<noteq> None" using match_pair_found [OF assms(1)] it t by (cases "items ! n") simp
  moreover have "match_pair g t = None"
    by (rule match_pair_open [OF assms(1) _ assms(3,5)]) (use assms(2) in \<open>auto simp: list_all_iff dest: in_set_dropD\<close>)
  ultimately show False by simp
qed

section \<open>Values and types\<close>

text \<open>Control characters that the code escapes by hand, and all others, are written as \<open>json.dumps\<close> does.\<close>

definition plain_char :: "char \<Rightarrow> bool" where
  "plain_char c \<longleftrightarrow> (let n = of_char c :: nat in 32 \<le> n \<or> n \<in> {9, 10, 13})"

lemma replace_append [simp]: "replace_char c new (xs @ ys) = replace_char c new xs @ replace_char c new ys"
  by (simp add: replace_char_def)

lemma escape_append: "escape_partial (xs @ ys) = escape_partial xs @ escape_partial ys"
  by (simp add: escape_partial_def)

lemma of_char_iff: "n < 256 \<Longrightarrow> (of_char c :: nat) = n \<longleftrightarrow> c = char_of n"
  by (metis char_of_char mod_less of_char_of)

lemma escape_char:
  assumes "plain_char c"
  shows "escape_partial [c] = json_esc c"
proof -
  let ?special = "[CHR 0x22, CHR 0x5C, char_of (10 :: nat), char_of (13 :: nat), char_of (9 :: nat)]"
  have one: "replace_char x new [c] = [c]" if "c \<noteq> x" for x new using that by (simp add: replace_char_def)
  show ?thesis
  proof (cases "c \<in> set ?special")
    case True
    have "list_all (\<lambda>c. escape_partial [c] = json_esc c) ?special" by code_simp
    then show ?thesis using True by (simp only: list_all_iff)
  next
    case False
    then have "escape_partial [c] = [c]" by (simp add: escape_partial_def one)
    moreover have "json_esc c = [c]"
      using assms False by (auto simp: json_esc_def plain_char_def Let_def of_char_iff)
    ultimately show ?thesis by simp
  qed
qed

lemma escape_partial_eq: "list_all plain_char v \<Longrightarrow> escape_partial v = concat (map json_esc v)"
proof (induction v)
  case (Cons c v)
  have "escape_partial (c # v) = escape_partial [c] @ escape_partial v" using escape_append [of "[c]" v] by simp
  then show ?case using Cons escape_char by simp
qed (simp add: escape_partial_def replace_char_def)

fun types_of :: "tool list option \<Rightarrow> string \<Rightarrow> arg_item \<Rightarrow> string list res" where
  "types_of tools name (u, k, w, v) = get_types (get_arg_schema name (strip k) tools)"

fun value_ok :: "tool list option \<Rightarrow> string \<Rightarrow> arg_item \<Rightarrow> bool" where
  "value_ok tools name (u, k, w, v) \<longleftrightarrow>
     (case get_types (get_arg_schema name (strip k) tools) of
        Inl _ \<Rightarrow> False
      | Inr ts \<Rightarrow> only_string ts \<longrightarrow> list_all plain_char v)"

fun item_arg :: "value_parsers \<Rightarrow> tool list option \<Rightarrow> string \<Rightarrow> arg_item \<Rightarrow> string \<times> json" where
  "item_arg lib tools name (u, k, w, v) =
     (strip k, case get_types (get_arg_schema name (strip k) tools) of Inl _ \<Rightarrow> JNull | Inr ts \<Rightarrow> parse_typed lib ts v)"

lemma add_completed_item:
  assumes "value_ok tools name it"
  shows "add_completed lib tools name (key_value it) d =
    Inr (if map_of d (fst (item_arg lib tools name it)) = None then d @ [item_arg lib tools name it] else d)"
  using assms by (cases it) (auto simp: add_completed_def Let_def parse_value_def res_bind_def split: sum.splits)

text \<open>The arguments of the first \<open>m\<close> items are known, the buffer has \<open>n\<close>.\<close>

lemma add_completed_items:
  assumes "list_all (value_ok tools name) items" and "distinct (map (fst \<circ> item_arg lib tools name) items)"
    and "m \<le> n" and "n \<le> length items"
  shows "fold_res (add_completed lib tools name) (map key_value (take n items)) (map (item_arg lib tools name) (take m items))
    = Inr (map (item_arg lib tools name) (take n items))"
proof -
  let ?arg = "item_arg lib tools name"
  have "fold_res (add_completed lib tools name) (map key_value (take n items)) (map ?arg (take m items))
      = Inr (map ?arg (take (max m n) items))"
    using assms(4)
  proof (induction n)
    case (Suc n)
    let ?it = "items ! n" and ?d = "map ?arg (take (max m n) items)"
    have n: "n < length items" using Suc.prems by simp
    have ok: "value_ok tools name ?it" using assms(1) n by (simp add: list_all_length)
    have keys: "map fst ?d = take (max m n) (map (fst \<circ> ?arg) items)" by (simp add: take_map)
    have "(if map_of ?d (fst (?arg ?it)) = None then ?d @ [?arg ?it] else ?d) = map ?arg (take (max m (Suc n)) items)"
    proof (cases "n < m")
      case True
      then have "?it \<in> set (take (max m n) items)" using n
        by (metis in_set_conv_nth length_take max.absorb1 min_less_iff_conj nth_take less_imp_le_nat)
      then have "?arg ?it \<in> set ?d" by simp
      then have "fst (?arg ?it) \<in> fst ` set ?d" by (rule imageI)
      then have "map_of ?d (fst (?arg ?it)) \<noteq> None" unfolding map_of_eq_None_iff by blast
      moreover have "max m (Suc n) = m" "max m n = m" using True by simp_all
      ultimately show ?thesis by simp
    next
      case False
      have "fst (?arg ?it) \<notin> set (map fst ?d)"
      proof -
        have "fst (?arg ?it) = map (fst \<circ> ?arg) items ! n" using n by simp
        moreover have "map (fst \<circ> ?arg) items ! n \<notin> set (take n (map (fst \<circ> ?arg) items))"
          using assms(2) n by (metis distinct_take id_take_nth_drop length_map not_distinct_conv_prefix
              distinct_append take_Suc_conv_app_nth disjoint_insert(1) list.simps(15))
        moreover have "max m n = n" using False by simp
        ultimately show ?thesis unfolding keys by metis
      qed
      then have "map_of ?d (fst (?arg ?it)) = None" unfolding map_of_eq_None_iff set_map by assumption
      then show ?thesis using False n by (simp add: max_def take_Suc_conv_app_nth)
    qed
    then show ?case using Suc.IH n
      by (simp add: take_Suc_conv_app_nth fold_res_append add_completed_item [OF ok] del: o_apply)
  qed simp
  then show ?thesis using assms(3) by (simp add: max_def)
qed

section \<open>Partial JSON\<close>

lemma join_append:
  "join sep (xs @ ys) = (if xs = [] then join sep ys else if ys = [] then join sep xs else join sep xs @ sep @ join sep ys)"
proof (induction xs)
  case (Cons x xs)
  then show ?case by (cases xs; cases ys) auto
qed simp

lemma join_Cons: "join sep (x # xs) = x @ (if xs = [] then [] else sep @ join sep xs)"
  by (cases xs) simp_all

definition call_json :: "(string \<times> json) list \<Rightarrow> string" where
  "call_json d = json_dumps (JObj d)"

definition known_json :: "(string \<times> json) list \<Rightarrow> (string \<times> string) option \<Rightarrow> string" where
  "known_json d oa = butlast (snapshot d oa)"

lemma call_json_eq: "call_json d = ''{'' @ join '', '' (map json_entry d) @ ''}''"
proof -
  have "(\<lambda>(k, v). json_str k @ '': '' @ json_dumps v) = json_entry" by (auto simp: json_entry_def)
  then show ?thesis by (simp add: call_json_def)
qed

lemma known_json_eq: "known_json d oa = ''{'' @ join '', '' (map json_entry d @
    (case oa of None \<Rightarrow> [] | Some (k, v) \<Rightarrow> [json_str k @ '': '' @ [CHR 0x22] @ escape_partial v]))"
  by (simp add: known_json_def snapshot_def butlast_append)

lemma join_prefix: "prefix (join sep xs) (join sep (xs @ ys) @ z)"
  by (simp add: join_append)

lemma known_json_None: "prefix (known_json (take n d) None) (call_json d)"
proof -
  have "join '', '' (map json_entry d) = join '', '' (map json_entry (take n d) @ map json_entry (drop n d))"
    by (simp only: map_append [symmetric] append_take_drop_id)
  then have "prefix (join '', '' (map json_entry (take n d))) (join '', '' (map json_entry d) @ ''}'')"
    by (simp only: join_prefix)
  then show ?thesis by (simp add: known_json_eq call_json_eq)
qed

lemma known_json_Some:
  assumes "n < length d" and "d ! n = (k, JStr v)" and "prefix vp v" and "list_all plain_char v"
  shows "prefix (known_json (take n d) (Some (k, vp))) (call_json d)"
proof -
  obtain z where v: "v = vp @ z" using assms(3) by (auto simp: prefix_def)
  have "escape_partial vp = concat (map json_esc vp)" using assms(4) v by (intro escape_partial_eq) simp
  then have e: "json_entry (d ! n) = (json_str k @ '': '' @ [CHR 0x22] @ escape_partial vp) @ concat (map json_esc z) @ [CHR 0x22]"
    by (simp add: json_entry_def assms(2) json_str_def v)
  have "map json_entry d = map json_entry (take n d) @ json_entry (d ! n) # map json_entry (drop (Suc n) d)"
    using id_take_nth_drop [OF assms(1)] by (metis list.simps(9) map_append)
  then show ?thesis by (auto simp: known_json_eq call_json_eq join_append join_Cons e)
qed

section \<open>The tail of the buffer\<close>

lemma py_find_nat:
  "n \<le> length xs \<Longrightarrow> py_find xs sub (int n) = (case find_sub sub (drop n xs) of None \<Rightarrow> -1 | Some k \<Rightarrow> int (n + k))"
  by (simp add: py_find_def py_clamp_def Let_def)

definition string_arg :: "tool list option \<Rightarrow> string \<Rightarrow> string \<Rightarrow> bool" where
  "string_arg tools name k \<longleftrightarrow> (\<exists>ts. get_types (get_arg_schema name k tools) = Inr ts \<and> only_string ts)"

lemma scan_no_key: "\<not> has_sub (key_start g) t \<Longrightarrow> scan_tail g tools t p = Inr (None, p)"
  by (simp add: scan_tail_def py_find_0 has_sub_def)

lemma scan_open_key:
  assumes "tags_ok g" and "\<not> has_sub (key_start g) u" and "\<not> has_sub (key_end g) kp"
  shows "scan_tail g tools (u @ key_start g @ kp) p = Inr (None, p\<lparr>current_arg_key := None, current_arg_is_string := False\<rparr>)"
proof -
  have k0: "py_find (u @ key_start g @ kp) (key_start g) 0 = int (length u)"
    using cut_at_found(2) [OF tags_okD(1) [OF assms(1)] assms(2)] by (simp add: py_find_0)
  have "py_find (u @ key_start g @ kp) (key_end g) (int (length u + length (key_start g))) = -1"
    using cut_at_not [OF assms(3)] by (subst py_find_nat) simp_all
  then show ?thesis by (simp add: scan_tail_def k0 Let_def)
qed

lemma scan_closed_key:
  assumes g: "tags_ok g" and "\<not> has_sub (key_start g) u" and "\<not> has_sub (key_end g) k"
    and "get_types (get_arg_schema (tool_name_or_empty p) (strip k) tools) = Inr ts"
  shows "scan_tail g tools (u @ key_start g @ k @ key_end g @ z) p =
    Inr (case find_sub (value_start g) (key_end g @ z) of
           None \<Rightarrow> None
         | Some i \<Rightarrow> if only_string ts then Some (strip k, drop (i + length (value_start g)) (key_end g @ z)) else None,
         p\<lparr>current_arg_key := Some (strip k), current_arg_is_string := only_string ts\<rparr>)"
proof -
  let ?t = "u @ key_start g @ k @ key_end g @ z" and ?a = "length u + length (key_start g)"
  have k0: "py_find ?t (key_start g) 0 = int (length u)"
    using cut_at_found(2) [OF tags_okD(1) [OF g] assms(2)] by (simp add: py_find_0)
  have ke: "py_find ?t (key_end g) (int ?a) = int (?a + length k)"
    using cut_at_found(2) [OF tags_okD(2) [OF g] assms(3)] by (subst py_find_nat) simp_all
  have key: "py_slice ?t (int ?a) (int (?a + length k)) = k" by (subst py_slice_nonneg) (simp_all add: nat_add_distrib)
  have vs: "py_find ?t (value_start g) (int (?a + length k)) =
      (case find_sub (value_start g) (key_end g @ z) of None \<Rightarrow> -1 | Some i \<Rightarrow> int (?a + length k + i))"
    by (subst py_find_nat) simp_all
  have val: "py_from ?t (int (?a + length k + i) + int (length (value_start g))) = drop (i + length (value_start g)) (key_end g @ z)" for i
  proof -
    have "nat (int (?a + length k + i) + int (length (value_start g))) = length (u @ key_start g @ k) + (i + length (value_start g))" by simp
    moreover have "drop (length xs + m) (xs @ ys) = drop m ys" for m and xs ys :: string by simp
    moreover have "?t = (u @ key_start g @ k) @ key_end g @ z" by simp
    ultimately show ?thesis using py_from_nonneg [of "int (?a + length k + i) + int (length (value_start g))" ?t] by simp
  qed
  have only: "is_only_string_type (tool_name_or_empty p) (strip k) tools = Inr (only_string ts)"
    by (simp add: is_only_string_type_def assms(4) only_string_def)
  have sum: "int (length u) + int (length (key_start g)) = int ?a" by simp
  show ?thesis unfolding scan_tail_def Let_def k0 sum ke key only vs
    by (cases "find_sub (value_start g) (key_end g @ z)") (simp_all add: val del: of_nat_add drop_append)
qed

lemma scan_open:
  assumes g: "tags_ok g" and lay: "list_all (layout_ok g) rest" and val: "list_all (value_ok tools (tool_name_or_empty p)) rest"
    and u: "\<not> has_sub (key_start g) u_end" and t: "open_tail g u_end rest t"
  shows "\<exists>oa a b. scan_tail g tools t p = Inr (oa, p\<lparr>current_arg_key := a, current_arg_is_string := b\<rparr>) \<and>
    (case oa of None \<Rightarrow> True
     | Some (key, vp) \<Rightarrow> \<exists>u k w v more. rest = (u, k, w, v) # more \<and> key = strip k \<and> prefix vp v \<and>
         string_arg tools (tool_name_or_empty p) key)"
proof -
  have none: ?thesis if "\<not> has_sub (key_start g) t"
    using scan_no_key [OF that, of tools p]
    by (intro exI [of _ None] exI [of _ "current_arg_key p"] exI [of _ "current_arg_is_string p"]) simp
  show ?thesis
  proof (cases rest)
    case Nil
    then show ?thesis using none has_sub_prefix [OF u] t by (simp add: open_tail_def)
  next
    case (Cons it more)
    obtain u k w v where it: "it = (u, k, w, v)" by (cases it) auto
    have ok: "\<not> has_sub (key_start g) u" "\<not> has_sub (key_end g) k" "list_all regex_space w"
      using lay by (simp_all add: Cons it)
    obtain ts where ts: "get_types (get_arg_schema (tool_name_or_empty p) (strip k) tools) = Inr ts"
      using val by (auto simp: Cons it split: sum.splits)
    note closed = scan_closed_key [OF g ok(1,2) ts]
    have free: "\<not> has_sub (value_start g) (key_end g @ wp)" if "list_all regex_space wp" for wp
      using no_tag_after [OF tags_okD(3) [OF g] tags_okD(2) [OF g]] g spaces_no_tag [OF that] by (simp add: tags_ok_def)
    from t consider "prefix t u" | kp where "prefix kp k" "t = u @ key_start g @ kp"
      | wp where "prefix wp w" "t = u @ key_start g @ k @ key_end g @ wp"
      | vp where "prefix vp v" "t = u @ key_start g @ k @ key_end g @ w @ value_start g @ vp"
      by (auto simp: open_tail_def Cons it)
    then show ?thesis
    proof cases
      case 1
      then show ?thesis using none has_sub_prefix [OF ok(1)] by blast
    next
      case 2
      then show ?thesis using scan_open_key [OF g ok(1)] has_sub_prefix [OF ok(2)] by fastforce
    next
      case 3
      have "list_all regex_space wp" using 3(1) ok(3) by (auto simp: list_all_iff prefix_def)
      then have "find_sub (value_start g) (key_end g @ wp) = None" using cut_at_not free by blast
      then show ?thesis unfolding 3(2) closed by (intro exI) auto
    next
      case 4
      have "find_sub (value_start g) ((key_end g @ w) @ value_start g @ vp) = Some (length (key_end g @ w))"
        by (rule cut_at_found(2) [OF tags_okD(3) [OF g] free [OF ok(3)]])
      then have e: "find_sub (value_start g) (key_end g @ w @ value_start g @ vp) = Some (length (key_end g @ w))" by simp
      have d: "drop (length (key_end g @ w) + length (value_start g)) (key_end g @ w @ value_start g @ vp) = vp" by simp
      have "scan_tail g tools t p = Inr (if only_string ts then Some (strip k, vp) else None,
          p\<lparr>current_arg_key := Some (strip k), current_arg_is_string := only_string ts\<rparr>)"
        unfolding 4(2) closed e option.case d ..
      then show ?thesis using 4(1) ts
        by (intro exI [of _ "if only_string ts then Some (strip k, vp) else None"] exI [of _ "Some (strip k)"]
            exI [of _ "only_string ts"]) (simp add: Cons it string_arg_def)
    qed
  qed
qed

section \<open>One chunk\<close>

definition arg_state ::
  "value_parsers \<Rightarrow> tool list option \<Rightarrow> string \<Rightarrow> arg_item list \<Rightarrow> nat \<Rightarrow> stream_parser \<Rightarrow> bool" where
  "arg_state lib tools name items m p \<longleftrightarrow> streaming_tool_name p = Some name \<and>
     completed_args p = map (item_arg lib tools name) (take m items) \<and> m \<le> length items"

definition call_ok :: "value_parsers \<Rightarrow> tool_tags \<Rightarrow> tool list option \<Rightarrow> string \<Rightarrow> arg_item list \<Rightarrow> string \<Rightarrow> bool" where
  "call_ok lib g tools name items u_end \<longleftrightarrow> tags_ok g \<and> list_all (layout_ok g) items \<and>
     list_all (value_ok tools name) items \<and> distinct (map (\<lambda>(u, k, w, v). strip k) items) \<and>
     \<not> has_sub (key_start g) u_end \<and> \<not> has_sub (call_end g) (args_text g items u_end)"

lemma call_okD:
  assumes "call_ok lib g tools name items u_end"
  shows "tags_ok g" "list_all (layout_ok g) items" "list_all (value_ok tools name) items"
    "distinct (map (fst \<circ> item_arg lib tools name) items)" "\<not> has_sub (key_start g) u_end"
    "\<not> has_sub (call_end g) (args_text g items u_end)"
proof -
  have e: "map (fst \<circ> item_arg lib tools name) items = map (\<lambda>(u, k, w, v). strip k) items"
    by (rule map_cong) auto
  have "distinct (map (\<lambda>(u, k, w, v). strip k) items)" using assms by (simp add: call_ok_def)
  then show "distinct (map (fst \<circ> item_arg lib tools name) items)" by (simp only: e)
qed (use assms in \<open>simp_all add: call_ok_def\<close>)

lemma known_is_prefix:
  assumes ok: "call_ok lib g tools name items u_end" and n: "n \<le> length items"
    and oa: "case oa of None \<Rightarrow> True
     | Some (key, vp) \<Rightarrow> \<exists>u k w v more. drop n items = (u, k, w, v) # more \<and> key = strip k \<and> prefix vp v \<and>
         string_arg tools name key"
  shows "prefix (known_json (map (item_arg lib tools name) (take n items)) oa)
    (call_json (map (item_arg lib tools name) items))"
proof (cases oa)
  case None
  then show ?thesis using known_json_None [of n "map (item_arg lib tools name) items"] by (simp add: take_map)
next
  case (Some kv)
  obtain key vp where kv: "kv = (key, vp)" by fastforce
  obtain u k w v more where d: "drop n items = (u, k, w, v) # more" "key = strip k" "prefix vp v"
    "string_arg tools name key" using oa by (auto simp: Some kv)
  have at: "n < length items" "items ! n = (u, k, w, v)" using drop_eq_Cons_nth [OF d(1)] by simp_all
  obtain ts where ts: "get_types (get_arg_schema name (strip k) tools) = Inr ts" "only_string ts"
    using d(2,4) by (auto simp: string_arg_def)
  have "value_ok tools name (u, k, w, v)" using call_okD(3) [OF ok] at by (metis list_all_length)
  then have pl: "list_all plain_char v" using ts by simp
  have "map (item_arg lib tools name) items ! n = (strip k, JStr v)"
    using at ts by (simp add: parse_only_string)
  from known_json_Some [OF _ this d(3) pl] at(1) show ?thesis by (simp add: Some kv d(2) take_map)
qed

lemma step_open:
  assumes ok: "call_ok lib g tools name items u_end" and p: "arg_state lib tools name items m p"
    and buf: "st_buffer p = concat (map (item_text g) (take n items)) @ t"
    and n: "n \<le> length items" "m \<le> n" and t: "open_tail g u_end (drop n items) t"
    and ce: "\<not> has_sub (call_end g) (st_buffer p)"
  shows "\<exists>p' s. extract_streaming_incremental lib g tools None p
      = Inr (argument_delta None (drop (streamed_json_len p) s) p', p') \<and>
    arg_state lib tools name items n p' \<and> st_buffer p' = st_buffer p \<and>
    prefix s (call_json (map (item_arg lib tools name) items)) \<and>
    streamed_json_len p' = max (streamed_json_len p) (length s)"
proof -
  have rest: "list_all (layout_ok g) (drop n items)" "list_all (value_ok tools name) (drop n items)"
    "list_all (layout_ok g) (take n items)" using call_okD(2,3) [OF ok] by (auto simp: list_all_iff dest: in_set_dropD in_set_takeD)
  have name: "tool_name_or_empty p = name" using p by (simp add: tool_name_or_empty_def arg_state_def)
  have pairs: "arg_pairs g (st_buffer p) = (map key_value (take n items), t)"
    unfolding buf by (rule arg_pairs_items [OF call_okD(1) [OF ok] rest(3)
        match_pair_open [OF call_okD(1) [OF ok] rest(1) call_okD(5) [OF ok] t]])
  let ?d = "map (item_arg lib tools name) (take n items)"
  have add: "fold_res (add_completed lib tools name) (map key_value (take n items)) (completed_args p) = Inr ?d"
    using add_completed_items [OF call_okD(3,4) [OF ok] n(2,1)] p by (simp add: arg_state_def)
  obtain oa a b where scan: "scan_tail g tools t (p\<lparr>completed_args := ?d\<rparr>)
      = Inr (oa, p\<lparr>completed_args := ?d, current_arg_key := a, current_arg_is_string := b\<rparr>)"
    and oa: "case oa of None \<Rightarrow> True
     | Some (key, vp) \<Rightarrow> \<exists>u k w v more. drop n items = (u, k, w, v) # more \<and> key = strip k \<and> prefix vp v \<and>
         string_arg tools name key"
  proof -
    have "tool_name_or_empty (p\<lparr>completed_args := ?d\<rparr>) = name" using name by (simp add: tool_name_or_empty_def)
    from scan_open [OF call_okD(1) [OF ok] rest(1) _ call_okD(5) [OF ok] t, of tools "p\<lparr>completed_args := ?d\<rparr>", unfolded this]
    show ?thesis using rest(2) that by fastforce
  qed
  let ?s = "known_json ?d oa"
  have snap: "take (length (snapshot ?d oa) - 1) (snapshot ?d oa) = ?s" "length (snapshot ?d oa) - 1 = length ?s"
    "take (length ?s) (snapshot ?d oa) = ?s"
    by (simp_all add: known_json_def butlast_conv_take)
  let ?p1 = "p\<lparr>completed_args := ?d, current_arg_key := a, current_arg_is_string := b\<rparr>"
  let ?p' = "if length ?s > streamed_json_len p then ?p1\<lparr>streamed_json_len := length ?s\<rparr> else ?p1"
  have "extract_streaming_incremental lib g tools None p
      = Inr (argument_delta None (drop (streamed_json_len p) ?s) ?p', ?p')"
    using cut_at_not [OF ce] by (simp add: extract_streaming_incremental_def Let_def pairs add name scan snap [unfolded One_nat_def])
  moreover have "arg_state lib tools name items n ?p'" using p n(1) by (simp add: arg_state_def)
  moreover have "streamed_json_len ?p' = max (streamed_json_len p) (length ?s)" by simp
  ultimately show ?thesis using known_is_prefix [OF ok n(1) oa] by (intro exI [of _ ?p'] exI [of _ ?s]) simp
qed

lemma step_close:
  assumes ok: "call_ok lib g tools name items u_end" and p: "arg_state lib tools name items m p"
    and buf: "st_buffer p = args_text g items u_end @ call_end g @ rest"
  shows "\<exists>p'. extract_streaming_incremental lib g tools None p
      = Inr (argument_delta None (drop (streamed_json_len p) (call_json (map (item_arg lib tools name) items))) p', p') \<and>
    streaming_tool_name p' = None \<and> st_buffer p' = rest \<and> current_tool_id p' = current_tool_id p"
proof -
  have cut: "cut_at (call_end g) (st_buffer p) = Some (args_text g items u_end, rest)"
    unfolding buf by (rule cut_at_found(1) [OF tags_okD(5) [OF call_okD(1) [OF ok]] call_okD(6) [OF ok]])
  have name: "tool_name_or_empty p = name" using p by (simp add: tool_name_or_empty_def arg_state_def)
  have pairs: "arg_pairs g (args_text g items u_end) = (map key_value items, u_end)"
    unfolding args_text_def using cut_at_not [OF call_okD(5) [OF ok]]
    by (intro arg_pairs_items [OF call_okD(1,2) [OF ok]]) (simp add: match_pair_def)
  have add: "fold_res (add_completed lib tools name) (map key_value items) (completed_args p) = Inr (map (item_arg lib tools name) items)"
    using add_completed_items [OF call_okD(3,4) [OF ok], of m "length items"] p by (simp add: arg_state_def)
  show ?thesis
    by (simp add: extract_streaming_incremental_def Let_def cut pairs name add
        scan_no_key [OF call_okD(5) [OF ok]] reset_streaming_tool_state_def call_json_def)
qed

section \<open>The stream of a call\<close>

text \<open>The chunks after the name of the call is known; \<open>before\<close> is the text up to there.\<close>

fun stream_arguments ::
  "value_parsers \<Rightarrow> tool_tags \<Rightarrow> tool list option \<Rightarrow> string \<Rightarrow> string list \<Rightarrow> stream_parser \<Rightarrow>
   (tool_delta option list \<times> stream_parser) res" where
  "stream_arguments lib g tools before [] p = Inr ([], p)"
| "stream_arguments lib g tools before (c # cs) p =
     res_bind (extract_tool_calls_streaming lib g tools (before @ c) c True p) (\<lambda>(d, p1).
     res_bind (stream_arguments lib g tools (before @ c) cs p1) (\<lambda>(ds, p2). Inr (d # ds, p2)))"

definition arguments_of :: "tool_delta option list \<Rightarrow> string" where
  "arguments_of ds = concat (map (\<lambda>d. case d of Some (CallDelta _ _ (Some a)) \<Rightarrow> a | _ \<Rightarrow> []) ds)"

lemma arguments_of_simps [simp]:
  "arguments_of [] = []" "arguments_of (argument_delta None a p # ds) = a @ arguments_of ds"
  by (simp_all add: arguments_of_def argument_delta_def)

lemma streaming_named:
  assumes "streaming_tool_name p = Some name" and "\<not> has_sub (calls_start g) c"
    and "has_sub (call_end g @ calls_end g) before \<longrightarrow> has_sub (call_end g) (st_buffer p @ c)"
  shows "extract_tool_calls_streaming lib g tools before c True p
    = extract_streaming_incremental lib g tools None (p\<lparr>st_buffer := st_buffer p @ c\<rparr>)"
  using assms by (auto simp: extract_tool_calls_streaming_def Let_def cut_at_def has_sub_def)

lemma open_tail_prefix: "open_tail g u_end rest t \<Longrightarrow> prefix t (args_text g rest u_end)"
  by (cases rest) (auto simp: open_tail_def args_text_def prefix_def)

lemma well_cut_no_end:
  assumes "call_ok lib g tools name items u_end" and "n \<le> length items" and "open_tail g u_end (drop n items) t"
  shows "\<not> has_sub (call_end g) (concat (map (item_text g) (take n items)) @ t)"
proof -
  have "map (item_text g) items = map (item_text g) (take n items) @ map (item_text g) (drop n items)"
    by (simp only: map_append [symmetric] append_take_drop_id)
  then have "prefix (concat (map (item_text g) (take n items)) @ t) (args_text g items u_end)"
    using open_tail_prefix [OF assms(3)] by (simp add: args_text_def)
  then show ?thesis by (rule has_sub_prefix [OF call_okD(6) [OF assms(1)]])
qed

lemma drop_pieces: "prefix s f \<Longrightarrow> n \<le> length f \<Longrightarrow> drop n s @ drop (max n (length s)) f = drop n f"
  by (auto simp: prefix_def max_def)

text \<open>What is handed out so far is the beginning of the JSON of the call.\<close>

lemma stream_steps:
  assumes ok: "call_ok lib g tools name items u_end"
    and "arg_state lib tools name items m p"
    and "st_buffer p @ concat cs = args_text g items u_end @ call_end g @ rest" and "cs \<noteq> []"
    and "\<forall>i < length cs. 0 < i \<longrightarrow> well_cut g items u_end (st_buffer p @ concat (take i cs))"
    and "\<forall>c \<in> set cs. \<not> has_sub (calls_start g) c"
    and "\<not> has_sub (call_end g @ calls_end g) (before @ concat (butlast cs))"
    and "st_buffer p = concat (map (item_text g) (take m items)) @ t0"
    and "streamed_json_len p \<le> length (call_json (map (item_arg lib tools name) items))"
  shows "\<exists>ds p'. stream_arguments lib g tools before cs p = Inr (ds, p') \<and>
    arguments_of ds = drop (streamed_json_len p) (call_json (map (item_arg lib tools name) items)) \<and>
    streaming_tool_name p' = None \<and> st_buffer p' = rest"
  using assms(2-9)
proof (induction cs arbitrary: p m t0 before)
  case (Cons c cs)
  let ?f = "call_json (map (item_arg lib tools name) items)"
  let ?p = "p\<lparr>st_buffer := st_buffer p @ c\<rparr>"
  have named: "streaming_tool_name p = Some name" using Cons.prems(1) by (simp add: arg_state_def)
  have state: "arg_state lib tools name items m ?p" using Cons.prems(1) by (simp add: arg_state_def)
  have start: "\<not> has_sub (calls_start g) c" using Cons.prems(5) by simp
  show ?case
  proof (cases "cs = []")
    case True
    have buf: "st_buffer p @ c = args_text g items u_end @ call_end g @ rest" using Cons.prems(2) True by simp
    obtain p' where "extract_streaming_incremental lib g tools None ?p
        = Inr (argument_delta None (drop (streamed_json_len p) ?f) p', p')"
      "streaming_tool_name p' = None" "st_buffer p' = rest"
      using step_close [OF ok state, of rest] buf by auto
    moreover have "has_sub (call_end g) (st_buffer p @ c)" unfolding buf by (rule has_sub_append)
    ultimately show ?thesis using streaming_named [OF named start] True by simp
  next
    case False
    then have "well_cut g items u_end (st_buffer p @ c)" using Cons.prems(4) [rule_format, of 1] by simp
    then obtain n t where n: "n \<le> length items" "st_buffer p @ c = concat (map (item_text g) (take n items)) @ t"
      "open_tail g u_end (drop n items) t" by (auto simp: well_cut_def)
    have "prefix (st_buffer p) (st_buffer p @ c)" by simp
    then have "prefix (concat (map (item_text g) (take m items)) @ t0) (concat (map (item_text g) (take n items)) @ t)"
      by (simp only: n(2) Cons.prems(7) [symmetric])
    then have mn: "m \<le> n"
      using Cons.prems(1) by (intro well_cut_mono [OF call_okD(1,2,5) [OF ok] _ n(3)]) (auto simp: arg_state_def)
    have ce: "\<not> has_sub (call_end g) (st_buffer ?p)" using well_cut_no_end [OF ok n(1,3)] n(2) by simp
    obtain p1 s where s: "extract_streaming_incremental lib g tools None ?p
        = Inr (argument_delta None (drop (streamed_json_len p) s) p1, p1)"
      "arg_state lib tools name items n p1" "st_buffer p1 = st_buffer p @ c" "prefix s ?f"
      "streamed_json_len p1 = max (streamed_json_len p) (length s)"
      using step_open [OF ok state _ n(1) mn n(3) ce] n(2) by auto
    have fin: "\<not> has_sub (call_end g @ calls_end g) ((before @ c) @ concat (butlast cs))"
      using Cons.prems(6) False by simp
    then have "\<not> has_sub (call_end g @ calls_end g) (before @ c)" by (rule has_sub_prefix) simp
    then have step: "extract_tool_calls_streaming lib g tools (before @ c) c True p
        = Inr (argument_delta None (drop (streamed_json_len p) s) p1, p1)"
      using streaming_named [OF named start] s(1) by simp
    have len: "streamed_json_len p1 \<le> length ?f" using Cons.prems(8) s(4,5) prefix_length_le by simp
    have cuts: "\<forall>i < length cs. 0 < i \<longrightarrow> well_cut g items u_end (st_buffer p1 @ concat (take i cs))"
    proof (intro allI impI)
      fix i assume "i < length cs" "0 < i"
      then show "well_cut g items u_end (st_buffer p1 @ concat (take i cs))"
        using Cons.prems(4) [rule_format, of "Suc i"] s(3) by simp
    qed
    obtain ds p' where "stream_arguments lib g tools (before @ c) cs p1 = Inr (ds, p')"
      "arguments_of ds = drop (streamed_json_len p1) ?f" "streaming_tool_name p' = None" "st_buffer p' = rest"
    proof -
      have "st_buffer p1 @ concat cs = args_text g items u_end @ call_end g @ rest" using Cons.prems(2) s(3) by simp
      moreover have "\<forall>c \<in> set cs. \<not> has_sub (calls_start g) c" using Cons.prems(5) by simp
      moreover have "st_buffer p1 = concat (map (item_text g) (take n items)) @ t" using s(3) n(2) by simp
      ultimately show ?thesis using Cons.IH [OF s(2) _ False cuts _ fin _ len] that by blast
    qed
    then show ?thesis using step drop_pieces [OF s(4) Cons.prems(8)] s(5) by simp
  qed
qed simp

text \<open>The whole call gives the same arguments.\<close>

lemma update_new_key: "k \<notin> fst ` set d \<Longrightarrow> AList.update k v d = d @ [(k, v)]"
  by (induction d) auto

lemma parse_call_items:
  assumes ok: "call_ok lib g tools name items u_end" and "strip (args_text g items u_end) = args_text g items u_end"
    and keys: "list_all (\<lambda>(u, k, w, v). strip k = k) items" and "strip name = name"
  shows "parse_call lib g tools (name, args_text g items u_end)
    = Inr (name, call_json (map (item_arg lib tools name) items))"
proof -
  let ?arg = "item_arg lib tools name"
  have pairs: "arg_pairs g (args_text g items u_end) = (map key_value items, u_end)"
    unfolding args_text_def using cut_at_not [OF call_okD(5) [OF ok]]
    by (intro arg_pairs_items [OF call_okD(1,2) [OF ok]]) (simp add: match_pair_def)
  have "fold_res (\<lambda>(k, v) d. res_bind (parse_value lib v name k tools) (\<lambda>x. Inr (set_key k x d))) (map key_value xs)
      (map ?arg ys) = Inr (map ?arg (ys @ xs))" if "ys @ xs = items" for xs ys
    using that
  proof (induction xs arbitrary: ys)
    case (Cons it xs)
    obtain u k w v where it: "it = (u, k, w, v)" by (cases it) auto
    have "it \<in> set items" using Cons.prems by auto
    then have k: "strip k = k" and "value_ok tools name it"
      using keys call_okD(3) [OF ok] by (auto simp: list_all_iff it)
    then obtain ts where ts: "get_types (get_arg_schema name k tools) = Inr ts" by (auto simp: it split: sum.splits)
    have "distinct (map (fst \<circ> ?arg) (ys @ it # xs))" using call_okD(4) [OF ok] Cons.prems by simp
    then have "fst (?arg it) \<notin> fst ` set (map ?arg ys)" by (auto simp: image_image)
    then have "set_key k (parse_typed lib ts v) (map ?arg ys) = map ?arg (ys @ [it])"
      using update_new_key [of k "map ?arg ys"] by (simp add: set_key_def it k ts)
    moreover have "parse_value lib v name k tools = Inr (parse_typed lib ts v)" by (simp add: parse_value_def ts)
    ultimately show ?case using Cons.IH [of "ys @ [it]"] Cons.prems by (simp add: it)
  qed simp
  from this [of "[]" items] show ?thesis
    using assms(2,4) by (simp add: parse_call_def Let_def pairs call_json_def)
qed

text \<open>
  C16. Streamed arguments are the JSON of the call. However the text of a call is cut into chunks, as long
  as no tag is cut and \<open></tool_call>\<close> comes with the last chunk, the pieces of arguments that a client
  gets, put together, are the JSON object of all arguments, each with the type its parameter declares.
  If keys, name and text need no stripping these are the arguments \<open>extract_tool_calls\<close> finds in the
  whole text. The keys are distinct, the declared types can be normalised, the values of string
  parameters hold no control characters but tab, newline and carriage return, and no tag occurs
  inside of a key, a value or the text between them (\<open>call_ok\<close>).
\<close>

theorem streamed_arguments_are_json:
  assumes "call_ok lib g tools name items u_end"
    and "concat cs = args_text g items u_end @ call_end g @ rest"
    and "\<forall>i < length cs. 0 < i \<longrightarrow> well_cut g items u_end (concat (take i cs))"
    and "\<forall>c \<in> set cs. \<not> has_sub (calls_start g) c"
    and "\<not> has_sub (call_end g @ calls_end g) (before @ concat (butlast cs))"
    and "streaming_tool_name p = Some name" and "completed_args p = []" and "st_buffer p = []"
    and "streamed_json_len p = 0"
  shows "\<exists>ds p'. stream_arguments lib g tools before cs p = Inr (ds, p') \<and>
    arguments_of ds = call_json (map (item_arg lib tools name) items) \<and>
    (strip name = name \<and> strip (args_text g items u_end) = args_text g items u_end \<and>
       list_all (\<lambda>(u, k, w, v). strip k = k) items \<longrightarrow>
     parse_call lib g tools (name, args_text g items u_end) = Inr (name, arguments_of ds)) \<and>
    streaming_tool_name p' = None \<and> st_buffer p' = rest"
proof -
  have "call_end g \<noteq> []" using call_okD(1) [OF assms(1)] tags_okD(5) by (auto simp: tag_ok_def)
  then have ne: "cs \<noteq> []" using assms(2) by auto
  have "arg_state lib tools name items 0 p" using assms(6,7) by (simp add: arg_state_def)
  from stream_steps [OF assms(1) this _ ne _ assms(4,5), of rest "[]"] assms(2,3,8,9)
  obtain ds p' where d: "stream_arguments lib g tools before cs p = Inr (ds, p')"
    "arguments_of ds = call_json (map (item_arg lib tools name) items)" "streaming_tool_name p' = None" "st_buffer p' = rest"
    by auto
  then show ?thesis using parse_call_items [OF assms(1)] by auto
qed

section \<open>Examples\<close>

definition sample_lib :: value_parsers where
  "sample_lib = \<lparr>json_loads = (\<lambda>_. None), literal_eval = (\<lambda>_. None),
     py_int = (\<lambda>s. if s = ''3'' then Some 3 else None), py_float = (\<lambda>_. None)\<rparr>"

definition sample_tools :: "tool list option" where
  "sample_tools = Some [\<lparr>tool_name = ''f'', tool_properties =
     Some [(''city'', no_schema\<lparr>sc_type := Some (TypeName ''string'')\<rparr>),
           (''n'', no_schema\<lparr>sc_type := Some (TypeName ''int'')\<rparr>),
           (''x'', no_schema\<lparr>sc_type := Some (TypeNames [''string'', ''null''])\<rparr>)]\<rparr>]"

definition arg_tags :: "string \<Rightarrow> string \<Rightarrow> string" where
  "arg_tags k v = item_text opensource_tags ([], k, [], v)"

definition open_arg_tags :: "string \<Rightarrow> string \<Rightarrow> string" where
  "open_arg_tags k v = ''<arg_key:opensource>'' @ k @ ''</arg_key:opensource><arg_value:opensource>'' @ v"

definition named_parser :: stream_parser where
  "named_parser = init_stream_parser\<lparr>streaming_tool_name := Some ''f'', current_tool_id := 0\<rparr>"

definition sample_items :: "arg_item list" where
  "sample_items = [([], ''city'', [], ''Oslo''), ([], ''n'', [], ''3'')]"

definition sample_chunks :: "string list" where
  "sample_chunks = [open_arg_tags ''city'' ''Os'', ''lo</arg_value:opensource><arg_key:opensource>'',
     ''n</arg_key:opensource><arg_value:opensource>3</arg_value:opensource></tool_call:opensource>'']"

lemma sample_cuts:
  "well_cut opensource_tags sample_items [] (open_arg_tags ''city'' ''Os'')"
  "well_cut opensource_tags sample_items [] (arg_tags ''city'' ''Oslo'' @ ''<arg_key:opensource>'')"
proof -
  show "well_cut opensource_tags sample_items [] (open_arg_tags ''city'' ''Os'')"
    unfolding well_cut_def sample_items_def
    by (rule exI [of _ 0], rule exI [of _ "open_arg_tags ''city'' ''Os''"])
      (auto simp: open_tail_def open_arg_tags_def opensource_tags_def)
  show "well_cut opensource_tags sample_items [] (arg_tags ''city'' ''Oslo'' @ ''<arg_key:opensource>'')"
    unfolding well_cut_def sample_items_def arg_tags_def
    by (rule exI [of _ 1], rule exI [of _ "''<arg_key:opensource>''"])
      (auto simp: open_tail_def opensource_tags_def)
qed

lemma streamed_arguments_are_json_witness:
  "\<exists>ds p. stream_arguments sample_lib opensource_tags sample_tools [] sample_chunks named_parser = Inr (ds, p) \<and>
     arguments_of ds = ''{'' @ json_str ''city'' @ '': '' @ json_str ''Oslo'' @ '', '' @ json_str ''n'' @ '': 3}'' \<and>
     parse_call sample_lib opensource_tags sample_tools (''f'', args_text opensource_tags sample_items []) = Inr (''f'', arguments_of ds)"
proof -
  let ?g = opensource_tags and ?cs = sample_chunks and ?items = sample_items
  have ok: "call_ok sample_lib ?g sample_tools ''f'' ?items []" by code_simp
  have whole: "concat ?cs = args_text ?g ?items [] @ call_end ?g @ []" by code_simp
  have "concat (take 1 ?cs) = open_arg_tags ''city'' ''Os''"
    "concat (take 2 ?cs) = arg_tags ''city'' ''Oslo'' @ ''<arg_key:opensource>''" by code_simp+
  then have "\<forall>i \<in> {1, 2}. well_cut ?g ?items [] (concat (take i ?cs))" using sample_cuts by simp
  moreover have "length ?cs = 3" by code_simp
  ultimately have cuts: "\<forall>i < length ?cs. 0 < i \<longrightarrow> well_cut ?g ?items [] (concat (take i ?cs))"
    by (auto simp: numeral_3_eq_3 less_Suc_eq numeral_2_eq_2)
  have start: "\<forall>c \<in> set ?cs. \<not> has_sub (calls_start ?g) c" by code_simp
  have fin: "\<not> has_sub (call_end ?g @ calls_end ?g) ([] @ concat (butlast ?cs))" by code_simp
  have p: "streaming_tool_name named_parser = Some ''f''" "completed_args named_parser = []"
    "st_buffer named_parser = []" "streamed_json_len named_parser = 0" by (simp_all add: named_parser_def init_stream_parser_def)
  have "strip ''f'' = ''f'' \<and> strip (args_text ?g ?items []) = args_text ?g ?items [] \<and>
      list_all (\<lambda>(u, k, w, v). strip k = k) ?items" by code_simp
  moreover have "call_json (map (item_arg sample_lib sample_tools ''f'') ?items)
      = ''{'' @ json_str ''city'' @ '': '' @ json_str ''Oslo'' @ '', '' @ json_str ''n'' @ '': 3}''" by code_simp
  ultimately show ?thesis using streamed_arguments_are_json [OF ok whole cuts start fin p] by (elim exE conjE) (intro exI conjI, assumption, simp, simp)
qed

text \<open>
  A form feed in a string parameter that arrives in two chunks: it is handed out as it is, but takes two
  characters in the final JSON, so that the piece after it starts in the wrong place.
\<close>

lemma control_character_breaks_json:
  "(case stream_arguments sample_lib opensource_tags sample_tools []
      [open_arg_tags ''city'' [char_of (12 :: nat), CHR ''a''], ''b</arg_value:opensource></tool_call:opensource>''] named_parser of
     Inr (ds, _) \<Rightarrow> arguments_of ds = ''{'' @ json_str ''city'' @ '': '' @ [CHR 0x22, char_of (12 :: nat)] @ ''aab'' @ [CHR 0x22] @ ''}''
       \<and> call_json [(''city'', JStr [char_of (12 :: nat), CHR ''a'', CHR ''b''])] \<noteq> arguments_of ds
   | Inl _ \<Rightarrow> False)"
  by code_simp

text \<open>A key that is given twice: the stream keeps the first value, the whole output the last.\<close>

lemma repeated_key_differs:
  "let args = arg_tags ''city'' ''A'' @ arg_tags ''city'' ''B'' in
     (case stream_arguments sample_lib opensource_tags sample_tools [] [args @ ''</tool_call:opensource>''] named_parser of
        Inr (ds, _) \<Rightarrow> arguments_of ds = call_json [(''city'', JStr ''A'')] | Inl _ \<Rightarrow> False) \<and>
     parse_call sample_lib opensource_tags sample_tools (''f'', args) = Inr (''f'', call_json [(''city'', JStr ''B'')])"
  by code_simp

text \<open>Two calls in one chunk: one delta goes out, the second call stays in the buffer until another chunk comes.\<close>

definition two_calls :: string where
  "two_calls = ''<tool_calls:opensource>'' @ ''<tool_call:opensource>f<tool_sep:opensource>'' @ arg_tags ''n'' ''3'' @
     ''</tool_call:opensource><tool_call:opensource>g<tool_sep:opensource></tool_call:opensource></tool_calls:opensource>''"

lemma second_call_waits:
  "length (tool_calls (extract_tool_calls sample_lib opensource_tags sample_tools two_calls)) = 2 \<and>
   (case extract_tool_calls_streaming sample_lib opensource_tags sample_tools two_calls two_calls True init_stream_parser of
      Inr (d, p) \<Rightarrow> d = Some (CallDelta 0 (Some ''f'') (Some (call_json [(''n'', JInt 3)]))) \<and>
        has_sub ''<tool_call:opensource>g'' (st_buffer p)
    | Inl _ \<Rightarrow> False)"
  by code_simp

text \<open>A parameter whose schema lists several types: no call is found in a whole output, a stream raises.\<close>

lemma type_list_loses_calls:
  "let out = ''<tool_calls:opensource><tool_call:opensource>f<tool_sep:opensource>'' @ arg_tags ''x'' ''v'' @
       ''</tool_call:opensource></tool_calls:opensource>'' in
     tools_called (extract_tool_calls sample_lib opensource_tags sample_tools out) \<and>
     tool_calls (extract_tool_calls sample_lib opensource_tags sample_tools out) = [] \<and>
     extract_tool_calls_streaming sample_lib opensource_tags sample_tools out out True init_stream_parser = Inl TypeError"
  by code_simp

end
