(* ===== verification/Block_Table.thy ===== *)
theory Block_Table
  imports Prelude "HOL-Library.Word"
begin

text \<open>
  The block table of the workers (\<^verbatim>\<open>vllm/v1/worker/block_table.py\<close>): for each request of a batch a row
  with the ids of its blocks, and the slot of the KV cache in which each token of a step is stored. The
  table is an array of 32 bit integers, in which the product with the block size is computed. When the
  kernel works with smaller blocks, every block is split into several. With context parallelism the
  tokens of a request are spread over the ranks. The table refines a list of lists of block ids, and the slots
  of a step are distinct. Copies of the arrays to the device are left out.
\<close>

section \<open>The table\<close>

record block_table =
  bt_block_size :: nat
  blocks_per_kv_block :: nat
  max_num_blocks_per_req :: nat
  block_rows :: "32 word list list"
  num_blocks_per_row :: "nat list"
  slot_mapping :: "int list"
  bt_pcp_world :: nat
  bt_pcp_rank :: nat
  bt_dcp_world :: nat
  bt_dcp_rank :: nat
  cp_interleave :: nat

definition init_block_table ::
  "nat \<Rightarrow> nat \<Rightarrow> nat \<Rightarrow> nat \<Rightarrow> nat \<Rightarrow> nat \<Rightarrow> nat \<times> nat \<Rightarrow> nat \<times> nat \<Rightarrow> block_table res" where
  "init_block_table block_size max_reqs max_blocks max_tokens kernel_size interleave pcp dcp =
     require (kernel_size = block_size \<or> kernel_size \<noteq> 0) ZeroDivisionError
     (require (kernel_size = block_size \<or> block_size mod kernel_size = 0) ValueError
     (let k = (if kernel_size = block_size then 1 else block_size div kernel_size) in
      Inr \<lparr>bt_block_size = kernel_size, blocks_per_kv_block = k, max_num_blocks_per_req = max_blocks * k,
           block_rows = replicate max_reqs (replicate (max_blocks * k) 0),
           num_blocks_per_row = replicate max_reqs 0, slot_mapping = replicate max_tokens 0,
           bt_pcp_world = fst pcp, bt_pcp_rank = snd pcp, bt_dcp_world = fst dcp, bt_dcp_rank = snd dcp,
           cp_interleave = interleave\<rparr>))"

definition map_to_kernel_blocks :: "nat list \<Rightarrow> nat \<Rightarrow> nat list" where
  "map_to_kernel_blocks ids k = (if k = 1 then ids else concat (map (\<lambda>b. map (\<lambda>j. b * k + j) [0..<k]) ids))"

text \<open>
  \<open>row[start : start + n] = values\<close> of numpy: a slice that is cut off at the end of the row must have the
  length of the values, but a single value is broadcast, also to no place at all.
\<close>

definition assign_slice :: "nat \<Rightarrow> 'a list \<Rightarrow> 'a list \<Rightarrow> 'a list res" where
  "assign_slice start vals row =
     (if start + length vals \<le> length row then Inr (take start row @ vals @ drop (start + length vals) row)
      else if length vals = 1 then Inr row
      else Inl ValueError)"

definition append_row :: "nat list \<Rightarrow> nat \<Rightarrow> block_table \<Rightarrow> block_table res" where
  "append_row ids i bt =
     (if ids = [] then Inr bt
      else
        require (i < length (block_rows bt)) IndexError
        (let ids' = map_to_kernel_blocks ids (blocks_per_kv_block bt); start = num_blocks_per_row bt ! i in
         res_bind (assign_slice start (map of_nat ids') (block_rows bt ! i)) (\<lambda>row.
           Inr (bt\<lparr>num_blocks_per_row := (num_blocks_per_row bt)[i := start + length ids'],
                   block_rows := (block_rows bt)[i := row]\<rparr>))))"

definition add_row :: "nat list \<Rightarrow> nat \<Rightarrow> block_table \<Rightarrow> block_table res" where
  "add_row ids i bt =
     require (i < length (block_rows bt)) IndexError
       (append_row ids i (bt\<lparr>num_blocks_per_row := (num_blocks_per_row bt)[i := 0]\<rparr>))"

definition move_row :: "nat \<Rightarrow> nat \<Rightarrow> block_table \<Rightarrow> block_table res" where
  "move_row src tgt bt =
     require (src < length (block_rows bt) \<and> tgt < length (block_rows bt)) IndexError
     (let n = num_blocks_per_row bt ! src in
      Inr (bt\<lparr>num_blocks_per_row := (num_blocks_per_row bt)[tgt := n],
              block_rows := (block_rows bt)[tgt := take n (block_rows bt ! src) @ drop n (block_rows bt ! tgt)]\<rparr>))"

definition swap_row :: "nat \<Rightarrow> nat \<Rightarrow> block_table \<Rightarrow> block_table res" where
  "swap_row src tgt bt =
     require (src < length (block_rows bt) \<and> tgt < length (block_rows bt)) IndexError
     (let rows = block_rows bt; counts = num_blocks_per_row bt in
      Inr (bt\<lparr>num_blocks_per_row := counts[src := counts ! tgt, tgt := counts ! src],
              block_rows := rows[src := rows ! tgt, tgt := rows ! src]\<rparr>))"

text \<open>\<^verbatim>\<open>clear\<close> zeroes the ids and leaves the counts.\<close>

definition clear_table :: "block_table \<Rightarrow> block_table" where
  "clear_table bt = bt\<lparr>block_rows := map (map (\<lambda>_. 0)) (block_rows bt)\<rparr>"

section \<open>Slots\<close>

definition total_cp_world_size :: "block_table \<Rightarrow> nat" where
  "total_cp_world_size bt = bt_pcp_world bt * bt_dcp_world bt"

definition total_cp_rank :: "block_table \<Rightarrow> nat" where
  "total_cp_rank bt = bt_pcp_rank bt * bt_dcp_world bt + bt_dcp_rank bt"

text \<open>
  A virtual block holds the tokens that all ranks store under one block id; a token of another rank
  has the slot -1. A token is its row and its position.
\<close>

definition virtual_block_size :: "block_table \<Rightarrow> nat" where
  "virtual_block_size bt =
     (if total_cp_world_size bt > 1 then bt_block_size bt * total_cp_world_size bt else bt_block_size bt)"

definition is_local :: "block_table \<Rightarrow> nat \<Rightarrow> bool" where
  "is_local bt p \<longleftrightarrow> total_cp_world_size bt \<le> 1 \<or>
     p mod virtual_block_size bt div cp_interleave bt mod total_cp_world_size bt = total_cp_rank bt"

definition block_offset :: "block_table \<Rightarrow> nat \<Rightarrow> nat" where
  "block_offset bt p =
     (let v = p mod virtual_block_size bt; I = cp_interleave bt in
      if total_cp_world_size bt > 1 then v div (total_cp_world_size bt * I) * I + v mod I else v)"

definition table_index :: "block_table \<Rightarrow> nat \<times> nat \<Rightarrow> nat" where
  "table_index bt t = fst t * max_num_blocks_per_req bt + snd t div virtual_block_size bt"

definition token_slot :: "block_table \<Rightarrow> nat \<times> nat \<Rightarrow> int" where
  "token_slot bt t =
     (if is_local bt (snd t)
      then sint (concat (block_rows bt) ! table_index bt t * of_nat (bt_block_size bt)) + int (block_offset bt (snd t))
      else -1)"

definition compute_slot_mapping :: "nat list \<Rightarrow> nat list \<Rightarrow> block_table \<Rightarrow> block_table res" where
  "compute_slot_mapping reqs positions bt =
     (let tokens = zip reqs positions in
      require (length reqs = length positions) ValueError
      (require (list_all (\<lambda>t. table_index bt t < length (concat (block_rows bt))) tokens) IndexError
      (res_bind (assign_slice 0 (map (token_slot bt) tokens) (slot_mapping bt)) (\<lambda>slots.
        Inr (bt\<lparr>slot_mapping := slots\<rparr>)))))"

section \<open>Several groups\<close>

fun each_table :: "(nat \<Rightarrow> block_table \<Rightarrow> block_table res) \<Rightarrow> nat \<Rightarrow> block_table list \<Rightarrow> block_table list res" where
  "each_table f g [] = Inr []"
| "each_table f g (bt # bts) = res_bind (f g bt) (\<lambda>bt'. res_bind (each_table f (g + 1) bts) (\<lambda>bts'. Inr (bt' # bts')))"

definition group_append_row :: "nat list list \<Rightarrow> nat \<Rightarrow> block_table list \<Rightarrow> block_table list res" where
  "group_append_row ids i = each_table (\<lambda>g bt. require (g < length ids) IndexError (append_row (ids ! g) i bt)) 0"

definition group_add_row :: "nat list list \<Rightarrow> nat \<Rightarrow> block_table list \<Rightarrow> block_table list res" where
  "group_add_row ids i = each_table (\<lambda>g bt. require (g < length ids) IndexError (add_row (ids ! g) i bt)) 0"

definition group_move_row :: "nat \<Rightarrow> nat \<Rightarrow> block_table list \<Rightarrow> block_table list res" where
  "group_move_row src tgt = each_table (\<lambda>_. move_row src tgt) 0"

definition group_swap_row :: "nat \<Rightarrow> nat \<Rightarrow> block_table list \<Rightarrow> block_table list res" where
  "group_swap_row src tgt = each_table (\<lambda>_. swap_row src tgt) 0"

definition group_clear :: "block_table list \<Rightarrow> block_table list" where
  "group_clear = map clear_table"

fun init_tables ::
  "(nat \<Rightarrow> nat \<Rightarrow> nat \<Rightarrow> block_table res) \<Rightarrow> nat list \<Rightarrow> nat list \<Rightarrow> nat list \<Rightarrow> block_table list res" where
  "init_tables f (b # bs) (k # ks) (m # ms) =
     res_bind (f b k m) (\<lambda>bt. res_bind (init_tables f bs ks ms) (\<lambda>bts. Inr (bt # bts)))"
| "init_tables f _ _ _ = Inr []"

definition init_group_tables ::
  "nat \<Rightarrow> nat \<Rightarrow> nat \<Rightarrow> nat list \<Rightarrow> nat list \<Rightarrow> nat list option \<Rightarrow> nat \<Rightarrow> nat \<times> nat \<Rightarrow> nat \<times> nat \<Rightarrow> block_table list res" where
  "init_group_tables max_reqs max_model_len max_tokens block_sizes kernel_sizes max_blocks interleave pcp dcp =
     require (length kernel_sizes = length block_sizes) ValueError
     (let W = fst dcp * fst pcp;
          ms = (case max_blocks of None \<Rightarrow> map (\<lambda>b. nat (cdiv (int max_model_len) (int (b * W)))) block_sizes
                | Some ms \<Rightarrow> ms)
      in
      require (max_blocks \<noteq> None \<or> list_all (\<lambda>b. b * W \<noteq> 0) block_sizes) ZeroDivisionError
      (require (length ms = length block_sizes) ValueError
      (init_tables (\<lambda>b k m. init_block_table b max_reqs m max_tokens k interleave pcp dcp) block_sizes kernel_sizes ms)))"

definition group_slot_mapping :: "nat list \<Rightarrow> nat list \<Rightarrow> block_table list \<Rightarrow> block_table list res" where
  "group_slot_mapping reqs positions = each_table (\<lambda>_. compute_slot_mapping reqs positions) 0"

section \<open>Rows as lists\<close>

definition table_ok :: "block_table \<Rightarrow> bool" where
  "table_ok bt \<longleftrightarrow> length (num_blocks_per_row bt) = length (block_rows bt) \<and>
     (\<forall>row \<in> set (block_rows bt). length row = max_num_blocks_per_req bt) \<and>
     (\<forall>n \<in> set (num_blocks_per_row bt). n \<le> max_num_blocks_per_req bt)"

definition rows_of :: "block_table \<Rightarrow> nat list list" where
  "rows_of bt = map (\<lambda>(n, row). map unat (take n row)) (zip (num_blocks_per_row bt) (block_rows bt))"

lemma rows_of_nth:
  "table_ok bt \<Longrightarrow> i < length (block_rows bt) \<Longrightarrow>
     rows_of bt ! i = map unat (take (num_blocks_per_row bt ! i) (block_rows bt ! i))"
  by (simp add: rows_of_def table_ok_def)

lemma length_rows_of [simp]: "table_ok bt \<Longrightarrow> length (rows_of bt) = length (block_rows bt)"
  by (simp add: rows_of_def table_ok_def)

lemma table_okD:
  assumes "table_ok bt" and "i < length (block_rows bt)"
  shows "length (block_rows bt ! i) = max_num_blocks_per_req bt" "num_blocks_per_row bt ! i \<le> max_num_blocks_per_req bt"
    "i < length (num_blocks_per_row bt)"
  using assms by (simp_all add: table_ok_def)

lemma length_row: "table_ok bt \<Longrightarrow> i < length (block_rows bt) \<Longrightarrow> length (rows_of bt ! i) = num_blocks_per_row bt ! i"
  using table_okD [of bt i] by (simp add: rows_of_nth)

text \<open>One row is replaced.\<close>

lemma replace_row:
  assumes ok: "table_ok bt" and i: "i < length (block_rows bt)" and "length row = max_num_blocks_per_req bt"
    and "n \<le> max_num_blocks_per_req bt"
  shows "table_ok (bt\<lparr>num_blocks_per_row := (num_blocks_per_row bt)[i := n], block_rows := (block_rows bt)[i := row]\<rparr>) \<and>
    rows_of (bt\<lparr>num_blocks_per_row := (num_blocks_per_row bt)[i := n], block_rows := (block_rows bt)[i := row]\<rparr>)
      = (rows_of bt)[i := map unat (take n row)]"
proof -
  let ?bt = "bt\<lparr>num_blocks_per_row := (num_blocks_per_row bt)[i := n], block_rows := (block_rows bt)[i := row]\<rparr>"
  have ok': "table_ok ?bt" using assms by (auto simp: table_ok_def dest!: set_update_subset_insert [THEN subsetD])
  moreover have "rows_of ?bt = (rows_of bt)[i := map unat (take n row)]"
  proof (rule nth_equalityI)
    show "length (rows_of ?bt) = length ((rows_of bt)[i := map unat (take n row)])" using ok ok' by simp
    fix j assume "j < length (rows_of ?bt)"
    then have "j < length (block_rows bt)" using ok' by simp
    then show "rows_of ?bt ! j = (rows_of bt)[i := map unat (take n row)] ! j"
      using ok ok' i table_okD(3) [OF ok i] by (cases "j = i") (simp_all add: rows_of_nth)
  qed
  ultimately show ?thesis by blast
qed

section \<open>Refinement\<close>

datatype row_op = AppendRow "nat list" nat | AddRow "nat list" nat | MoveRow nat nat | SwapRow nat nat

fun table_op :: "row_op \<Rightarrow> block_table \<Rightarrow> block_table res" where
  "table_op (AppendRow ids i) = append_row ids i"
| "table_op (AddRow ids i) = add_row ids i"
| "table_op (MoveRow src tgt) = move_row src tgt"
| "table_op (SwapRow src tgt) = swap_row src tgt"

text \<open>The same on lists of block ids, as long as they fit into the rows of the table.\<close>

definition room :: "nat \<Rightarrow> nat list \<Rightarrow> bool" where
  "room cols ids \<longleftrightarrow> length ids \<le> cols \<and> (\<forall>b \<in> set ids. b < 2 ^ 31)"

fun list_op :: "nat \<Rightarrow> nat \<Rightarrow> row_op \<Rightarrow> nat list list \<Rightarrow> nat list list option" where
  "list_op k cols (AppendRow ids i) L =
     (if i < length L \<and> room cols (L ! i @ map_to_kernel_blocks ids k)
      then Some (L[i := L ! i @ map_to_kernel_blocks ids k]) else None)"
| "list_op k cols (AddRow ids i) L =
     (if i < length L \<and> room cols (map_to_kernel_blocks ids k) then Some (L[i := map_to_kernel_blocks ids k]) else None)"
| "list_op k cols (MoveRow src tgt) L =
     (if src < length L \<and> tgt < length L then Some (L[tgt := L ! src]) else None)"
| "list_op k cols (SwapRow src tgt) L =
     (if src < length L \<and> tgt < length L then Some (L[src := L ! tgt, tgt := L ! src]) else None)"

fun list_run :: "nat \<Rightarrow> nat \<Rightarrow> row_op list \<Rightarrow> nat list list \<Rightarrow> nat list list option" where
  "list_run k cols [] L = Some L"
| "list_run k cols (op # ops) L = (case list_op k cols op L of None \<Rightarrow> None | Some L' \<Rightarrow> list_run k cols ops L')"

definition same_shape :: "block_table \<Rightarrow> block_table \<Rightarrow> bool" where
  "same_shape bt bt' \<longleftrightarrow> blocks_per_kv_block bt' = blocks_per_kv_block bt \<and>
     max_num_blocks_per_req bt' = max_num_blocks_per_req bt"

lemma unat_small: "b < 2 ^ 31 \<Longrightarrow> unat (of_nat b :: 32 word) = b"
  by (simp add: unat_of_nat take_bit_nat_eq_self)

lemma unat_ids: "\<forall>b \<in> set ids. b < 2 ^ 31 \<Longrightarrow> map unat (map of_nat ids :: 32 word list) = ids"
  by (simp add: map_idI unat_small)

lemma map_to_kernel_Nil [simp]: "map_to_kernel_blocks [] k = []"
  by (simp add: map_to_kernel_blocks_def)

lemma append_row_refines:
  assumes ok: "table_ok bt" and i: "i < length (block_rows bt)"
    and fit: "room (max_num_blocks_per_req bt) (rows_of bt ! i @ map_to_kernel_blocks ids (blocks_per_kv_block bt))"
  shows "\<exists>bt'. append_row ids i bt = Inr bt' \<and> table_ok bt' \<and> same_shape bt bt' \<and>
    rows_of bt' = (rows_of bt)[i := rows_of bt ! i @ map_to_kernel_blocks ids (blocks_per_kv_block bt)]"
proof (cases "ids = []")
  case True
  then show ?thesis using ok by (simp add: append_row_def same_shape_def)
next
  case False
  let ?k = "map_to_kernel_blocks ids (blocks_per_kv_block bt)" and ?n = "num_blocks_per_row bt ! i" and ?row = "block_rows bt ! i"
  have len: "?n + length ?k \<le> length ?row" using fit length_row [OF ok i] table_okD(1) [OF ok i] by (simp add: room_def)
  let ?new = "take ?n ?row @ map of_nat ?k @ drop (?n + length ?k) ?row"
  have "map unat (take (?n + length ?k) ?new) = rows_of bt ! i @ ?k"
    using len rows_of_nth [OF ok i] fit unat_ids [of ?k] by (simp add: room_def)
  moreover have "length ?new = max_num_blocks_per_req bt" using len table_okD(1) [OF ok i] by simp
  moreover have "?n + length ?k \<le> max_num_blocks_per_req bt" using len table_okD(1) [OF ok i] by simp
  ultimately show ?thesis using replace_row [OF ok i, of ?new "?n + length ?k"] False i len
    by (simp add: append_row_def assign_slice_def Let_def same_shape_def del: map_append take_append)
qed

lemma table_op_refines:
  assumes ok: "table_ok bt" and L: "list_op (blocks_per_kv_block bt) (max_num_blocks_per_req bt) op (rows_of bt) = Some L"
  shows "\<exists>bt'. table_op op bt = Inr bt' \<and> table_ok bt' \<and> same_shape bt bt' \<and> rows_of bt' = L"
proof (cases op)
  case (AppendRow ids i)
  then show ?thesis using append_row_refines [OF ok, of i ids] L ok by (auto split: if_splits)
next
  case (AddRow ids i)
  have i: "i < length (block_rows bt)" and fit: "room (max_num_blocks_per_req bt) (map_to_kernel_blocks ids (blocks_per_kv_block bt))"
    and L': "L = (rows_of bt)[i := map_to_kernel_blocks ids (blocks_per_kv_block bt)]"
    using L ok by (auto simp: AddRow split: if_splits)
  let ?bt = "bt\<lparr>num_blocks_per_row := (num_blocks_per_row bt)[i := 0]\<rparr>"
  have bt: "?bt = bt\<lparr>num_blocks_per_row := (num_blocks_per_row bt)[i := 0], block_rows := (block_rows bt)[i := block_rows bt ! i]\<rparr>"
    by simp
  have r: "table_ok ?bt \<and> rows_of ?bt = (rows_of bt)[i := []]"
    using replace_row [OF ok i, of "block_rows bt ! i" 0] table_okD(1) [OF ok i] by (simp add: bt [symmetric])
  have "rows_of ?bt ! i = []" using r i ok by simp
  then show ?thesis using append_row_refines [of ?bt i ids] r i fit
    by (auto simp: AddRow add_row_def L' same_shape_def)
next
  case (MoveRow src tgt)
  have s: "src < length (block_rows bt)" and t: "tgt < length (block_rows bt)" and L': "L = (rows_of bt)[tgt := rows_of bt ! src]"
    using L ok by (auto simp: MoveRow split: if_splits)
  let ?n = "num_blocks_per_row bt ! src" and ?new = "take (num_blocks_per_row bt ! src) (block_rows bt ! src) @ drop (num_blocks_per_row bt ! src) (block_rows bt ! tgt)"
  have n: "?n \<le> max_num_blocks_per_req bt" by (rule table_okD(2) [OF ok s])
  then have "length ?new = max_num_blocks_per_req bt" "map unat (take ?n ?new) = rows_of bt ! src"
    using table_okD(1) [OF ok s] table_okD(1) [OF ok t] by (simp_all add: rows_of_nth [OF ok s])
  then show ?thesis using replace_row [OF ok t _ n, of ?new] s t
    by (simp add: MoveRow move_row_def Let_def L' same_shape_def)
next
  case (SwapRow src tgt)
  have s: "src < length (block_rows bt)" and t: "tgt < length (block_rows bt)"
    and L': "L = (rows_of bt)[src := rows_of bt ! tgt, tgt := rows_of bt ! src]"
    using L ok by (auto simp: SwapRow split: if_splits)
  let ?b1 = "bt\<lparr>num_blocks_per_row := (num_blocks_per_row bt)[src := num_blocks_per_row bt ! tgt],
      block_rows := (block_rows bt)[src := block_rows bt ! tgt]\<rparr>"
  have r1: "table_ok ?b1 \<and> rows_of ?b1 = (rows_of bt)[src := rows_of bt ! tgt]"
    using replace_row [OF ok s table_okD(1) [OF ok t] table_okD(2) [OF ok t]] rows_of_nth [OF ok t] by simp
  let ?b2 = "?b1\<lparr>num_blocks_per_row := (num_blocks_per_row ?b1)[tgt := num_blocks_per_row bt ! src],
      block_rows := (block_rows ?b1)[tgt := block_rows bt ! src]\<rparr>"
  have "table_ok ?b2 \<and> rows_of ?b2 = (rows_of ?b1)[tgt := rows_of bt ! src]"
    using replace_row [of ?b1 tgt "block_rows bt ! src" "num_blocks_per_row bt ! src"] r1 t
      table_okD(1,2) [OF ok s] rows_of_nth [OF ok s] by simp
  then show ?thesis using r1 s t by (simp add: SwapRow swap_row_def Let_def L' same_shape_def)
qed

text \<open>
  C15. The block table is a list of lists of block ids: after any sequence of operations on rows that
  fit, the rows hold what the same operations on lists give, with every block split into the blocks of
  the kernel.
\<close>

theorem block_table_refines_lists:
  assumes "table_ok bt" and "list_run (blocks_per_kv_block bt) (max_num_blocks_per_req bt) ops (rows_of bt) = Some L"
  shows "\<exists>bt'. fold_res table_op ops bt = Inr bt' \<and> table_ok bt' \<and> rows_of bt' = L"
  using assms
proof (induction ops arbitrary: bt)
  case (Cons op ops)
  then obtain L1 where L1: "list_op (blocks_per_kv_block bt) (max_num_blocks_per_req bt) op (rows_of bt) = Some L1"
    "list_run (blocks_per_kv_block bt) (max_num_blocks_per_req bt) ops L1 = Some L" by (auto split: option.splits)
  obtain bt1 where "table_op op bt = Inr bt1" "table_ok bt1" "same_shape bt bt1" "rows_of bt1 = L1"
    using table_op_refines [OF Cons.prems(1) L1(1)] by blast
  then show ?case using Cons.IH [of bt1] L1(2) by (simp add: same_shape_def)
qed simp

section \<open>Slots are distinct\<close>

text \<open>
  What the slots rest on: the interleave size divides the block size of the kernel, and no slot number
  exceeds 32 bits.
\<close>

definition cp_ok :: "block_table \<Rightarrow> bool" where
  "cp_ok bt \<longleftrightarrow> 0 < bt_block_size bt \<and> 0 < total_cp_world_size bt \<and> 0 < cp_interleave bt \<and>
     (1 < total_cp_world_size bt \<longrightarrow> cp_interleave bt dvd bt_block_size bt)"

definition slots_fit :: "block_table \<Rightarrow> bool" where
  "slots_fit bt \<longleftrightarrow> (\<forall>ids \<in> set (rows_of bt). \<forall>b \<in> set ids. b * bt_block_size bt + bt_block_size bt \<le> 2 ^ 31)"

definition has_block :: "block_table \<Rightarrow> nat \<times> nat \<Rightarrow> bool" where
  "has_block bt t \<longleftrightarrow> fst t < length (block_rows bt) \<and> snd t div virtual_block_size bt < length (rows_of bt ! fst t)"

definition block_of :: "block_table \<Rightarrow> nat \<times> nat \<Rightarrow> nat" where
  "block_of bt t = rows_of bt ! fst t ! (snd t div virtual_block_size bt)"

lemma concat_nth:
  "\<forall>row \<in> set rows. length row = c \<Longrightarrow> r < length rows \<Longrightarrow> j < c \<Longrightarrow>
     r * c + j < length (concat rows) \<and> concat rows ! (r * c + j) = rows ! r ! j"
proof (induction rows arbitrary: r)
  case (Cons row rows)
  show ?case
  proof (cases r)
    case 0
    then show ?thesis using Cons.prems by (simp add: nth_append)
  next
    case (Suc q)
    have "q * c + j < length (concat rows) \<and> concat rows ! (q * c + j) = rows ! q ! j"
      using Cons.prems Suc by (intro Cons.IH) simp_all
    then show ?thesis using Cons.prems Suc by (simp add: nth_append)
  qed
qed simp

lemma sint_small: "m < 2 ^ 31 \<Longrightarrow> sint (of_nat m :: 32 word) = int m"
  by (simp add: signed_of_nat signed_take_bit_int_eq_self)

lemma sint_slot: "unat w * n < 2 ^ 31 \<Longrightarrow> sint ((w :: 32 word) * of_nat n) = int (unat w * n)"
proof -
  assume "unat w * n < 2 ^ 31"
  moreover have "w * of_nat n = of_nat (unat w * n)" by simp
  ultimately show ?thesis by (simp only: sint_small)
qed

lemma virtual_block_size_eq: "cp_ok bt \<Longrightarrow> virtual_block_size bt = bt_block_size bt * total_cp_world_size bt"
proof -
  assume "cp_ok bt"
  then have "total_cp_world_size bt > 1 \<or> total_cp_world_size bt = 1" by (auto simp: cp_ok_def)
  then show ?thesis by (auto simp: virtual_block_size_def)
qed

lemma block_offset_less:
  assumes "cp_ok bt"
  shows "block_offset bt p < bt_block_size bt"
proof (cases "total_cp_world_size bt > 1")
  case True
  let ?I = "cp_interleave bt" and ?W = "total_cp_world_size bt" and ?v = "p mod virtual_block_size bt"
  obtain q where q: "bt_block_size bt = ?I * q" using assms True by (auto simp: cp_ok_def)
  have "?v < ?I * q * ?W" using assms by (simp add: virtual_block_size_eq [OF assms] q [symmetric] cp_ok_def)
  then have "?v div (?W * ?I) < q" by (simp add: less_mult_imp_div_less ac_simps)
  then have "(?v div (?W * ?I) + 1) * ?I \<le> q * ?I" by (intro mult_right_mono) simp_all
  moreover have "?v mod ?I < ?I" using assms by (simp add: cp_ok_def)
  ultimately show ?thesis using True q by (simp add: block_offset_def Let_def algebra_simps)
next
  case False
  then show ?thesis using assms by (simp add: block_offset_def virtual_block_size_def cp_ok_def)
qed

lemma same_offset:
  assumes "cp_ok bt" and "is_local bt p" and "is_local bt q" and off: "block_offset bt p = block_offset bt q"
  shows "p mod virtual_block_size bt = q mod virtual_block_size bt"
proof (cases "total_cp_world_size bt > 1")
  case True
  let ?I = "cp_interleave bt" and ?W = "total_cp_world_size bt"
  let ?v = "p mod virtual_block_size bt" and ?u = "q mod virtual_block_size bt"
  have I: "0 < ?I" using assms(1) by (simp add: cp_ok_def)
  have eq: "?v div (?W * ?I) * ?I + ?v mod ?I = ?u div (?W * ?I) * ?I + ?u mod ?I"
    using off True by (simp add: block_offset_def Let_def)
  have m: "?v mod ?I = ?u mod ?I" using arg_cong [OF eq, of "\<lambda>x. x mod ?I"] by simp
  then have d: "?v div (?W * ?I) = ?u div (?W * ?I)" using eq I by simp
  have "?v div ?I mod ?W = ?u div ?I mod ?W" using assms(2,3) True by (simp add: is_local_def)
  moreover have "?v div ?I div ?W = ?u div ?I div ?W" using d by (simp add: div_mult2_eq [symmetric] mult.commute)
  ultimately have "?v div ?I = ?u div ?I" by (metis div_mult_mod_eq)
  then show ?thesis using m by (metis div_mult_mod_eq)
next
  case False
  then show ?thesis using off by (simp add: block_offset_def Let_def)
qed

lemma token_slot_value:
  assumes ok: "table_ok bt" and cp: "cp_ok bt" and fit: "slots_fit bt" and t: "has_block bt t"
  shows "table_index bt t < length (concat (block_rows bt))"
    "token_slot bt t = (if is_local bt (snd t) then int (block_of bt t * bt_block_size bt + block_offset bt (snd t)) else -1)"
proof -
  let ?r = "fst t" and ?j = "snd t div virtual_block_size bt"
  have r: "?r < length (block_rows bt)" and j: "?j < length (rows_of bt ! ?r)" using t by (simp_all add: has_block_def)
  have c: "?j < max_num_blocks_per_req bt" using j length_row [OF ok r] table_okD(2) [OF ok r] by simp
  note cell = concat_nth [of "block_rows bt" "max_num_blocks_per_req bt" ?r ?j, OF _ r c]
  show "table_index bt t < length (concat (block_rows bt))" using cell ok by (simp add: table_index_def table_ok_def)
  have w: "unat (block_rows bt ! ?r ! ?j) = block_of bt t"
    using j r by (simp add: block_of_def rows_of_nth [OF ok r])
  have "rows_of bt ! ?r \<in> set (rows_of bt)" using r ok by simp
  moreover have "block_of bt t \<in> set (rows_of bt ! ?r)" using j by (simp add: block_of_def)
  ultimately have "block_of bt t * bt_block_size bt + bt_block_size bt \<le> 2 ^ 31" using fit by (simp add: slots_fit_def)
  moreover have "0 < bt_block_size bt" using cp by (simp add: cp_ok_def)
  ultimately have "unat (block_rows bt ! ?r ! ?j) * bt_block_size bt < 2 ^ 31" by (simp only: w)
  then have "sint (block_rows bt ! ?r ! ?j * of_nat (bt_block_size bt)) = int (block_of bt t * bt_block_size bt)"
    using sint_slot [of "block_rows bt ! ?r ! ?j" "bt_block_size bt"] by (simp only: w)
  moreover have "concat (block_rows bt) ! table_index bt t = block_rows bt ! ?r ! ?j"
    using cell ok by (simp add: table_index_def table_ok_def)
  ultimately show "token_slot bt t = (if is_local bt (snd t) then int (block_of bt t * bt_block_size bt + block_offset bt (snd t)) else -1)"
    by (simp add: token_slot_def)
qed

text \<open>Each token is stored on exactly one rank.\<close>

lemma token_on_one_rank:
  assumes "1 < total_cp_world_size bt"
  shows "\<exists>!pd. fst pd < bt_pcp_world bt \<and> snd pd < bt_dcp_world bt \<and>
    is_local (bt\<lparr>bt_pcp_rank := fst pd, bt_dcp_rank := snd pd\<rparr>) p"
proof -
  let ?D = "bt_dcp_world bt"
  define k where "k = p mod virtual_block_size bt div cp_interleave bt mod total_cp_world_size bt"
  have D: "0 < ?D" using assms by (cases ?D) (simp_all add: total_cp_world_size_def)
  have "k < total_cp_world_size bt" unfolding k_def using assms by (intro mod_less_divisor) simp
  then have "k < bt_pcp_world bt * ?D" by (simp only: total_cp_world_size_def)
  then have "k div ?D < bt_pcp_world bt" by (simp add: less_mult_imp_div_less)
  moreover have loc: "is_local (bt\<lparr>bt_pcp_rank := a, bt_dcp_rank := b\<rparr>) p \<longleftrightarrow> k = a * ?D + b" for a b
    using assms by (simp add: is_local_def k_def virtual_block_size_def total_cp_world_size_def total_cp_rank_def)
  ultimately show ?thesis
    by (intro ex1I [of _ "(k div ?D, k mod ?D)"]) (use D in \<open>auto simp: loc prod_eq_iff\<close>)
qed

lemma token_slot_facts:
  assumes ok: "table_ok bt" and cp: "cp_ok bt" and fit: "slots_fit bt" and t: "has_block bt t"
  shows "token_slot bt t \<noteq> -1 \<longleftrightarrow> is_local bt (snd t)"
    "token_slot bt t \<noteq> -1 \<Longrightarrow> token_slot bt t div int (bt_block_size bt) = int (block_of bt t)"
    "token_slot bt t \<noteq> -1 \<Longrightarrow> token_slot bt t mod int (bt_block_size bt) = int (block_offset bt (snd t))"
proof -
  have val: "token_slot bt t = (if is_local bt (snd t) then int (block_of bt t * bt_block_size bt + block_offset bt (snd t)) else -1)"
    by (rule token_slot_value(2) [OF ok cp fit t])
  have "int m \<noteq> -1" for m by simp
  then show l: "token_slot bt t \<noteq> -1 \<longleftrightarrow> is_local bt (snd t)" using val by (simp del: of_nat_add of_nat_mult)
  have d: "(block_of bt t * bt_block_size bt + block_offset bt (snd t)) div bt_block_size bt = block_of bt t"
    "(block_of bt t * bt_block_size bt + block_offset bt (snd t)) mod bt_block_size bt = block_offset bt (snd t)"
    using block_offset_less [OF cp, of "snd t"] cp by (simp_all add: cp_ok_def)
  have v: "token_slot bt t = int (block_of bt t * bt_block_size bt + block_offset bt (snd t))" if "token_slot bt t \<noteq> -1"
    using val l that by (simp only: if_True)
  show "token_slot bt t div int (bt_block_size bt) = int (block_of bt t)" if "token_slot bt t \<noteq> -1"
    unfolding v [OF that] zdiv_int [symmetric] d(1) ..
  show "token_slot bt t mod int (bt_block_size bt) = int (block_offset bt (snd t))" if "token_slot bt t \<noteq> -1"
    unfolding v [OF that] zmod_int [symmetric] d(2) ..
qed

lemma same_slot:
  assumes "table_ok bt" "cp_ok bt" "slots_fit bt" and t: "has_block bt t" and u: "has_block bt u"
    and eq: "token_slot bt u = token_slot bt t" and loc: "token_slot bt t \<noteq> -1"
  shows "block_of bt u = block_of bt t \<and> snd u mod virtual_block_size bt = snd t mod virtual_block_size bt"
proof -
  note ft = token_slot_facts [OF assms(1-3) t] and fu = token_slot_facts [OF assms(1-3) u]
  have lu: "token_slot bt u \<noteq> -1" using loc unfolding eq .
  have "int (block_of bt u) = int (block_of bt t)" by (simp only: ft(2) [OF loc, symmetric] fu(2) [OF lu, symmetric] eq)
  moreover have "int (block_offset bt (snd u)) = int (block_offset bt (snd t))"
    by (simp only: ft(3) [OF loc, symmetric] fu(3) [OF lu, symmetric] eq)
  ultimately have b: "block_of bt u = block_of bt t" and o: "block_offset bt (snd u) = block_offset bt (snd t)"
    by (simp_all only: of_nat_eq_iff)
  have "is_local bt (snd u)" "is_local bt (snd t)" using ft(1) fu(1) loc lu by blast+
  from b same_offset [OF assms(2) this o] show ?thesis ..
qed

text \<open>
  C14. The slots of a step: when the interleave size divides the block size of the kernel (or there is no
  parallelism over the tokens), every token has its block and no slot number exceeds 31 bits, the slot
  mapping does not fail; a token has a slot if and only if it belongs to the rank, the slot lies in
  the token's block, and two tokens share a slot only if they are the same offset of the same block.
\<close>

theorem slots_distinct:
  assumes ok: "table_ok bt" and cp: "cp_ok bt" and fit: "slots_fit bt" and n: "length reqs = length positions"
    and room: "length reqs \<le> length (slot_mapping bt)"
    and blocks: "\<And>i. i < length reqs \<Longrightarrow> has_block bt (reqs ! i, positions ! i)"
  shows "\<exists>bt'. compute_slot_mapping reqs positions bt = Inr bt' \<and>
    (\<forall>i < length reqs. (slot_mapping bt' ! i \<noteq> -1 \<longleftrightarrow> is_local bt (positions ! i)) \<and>
      (slot_mapping bt' ! i \<noteq> -1 \<longrightarrow>
        slot_mapping bt' ! i div int (bt_block_size bt) = int (block_of bt (reqs ! i, positions ! i)) \<and>
        (\<forall>j < length reqs. slot_mapping bt' ! j = slot_mapping bt' ! i \<longrightarrow>
           block_of bt (reqs ! j, positions ! j) = block_of bt (reqs ! i, positions ! i) \<and>
           positions ! j mod virtual_block_size bt = positions ! i mod virtual_block_size bt)))"
proof -
  define slots where "slots = map (token_slot bt) (zip reqs positions) @ drop (length reqs) (slot_mapping bt)"
  have run: "compute_slot_mapping reqs positions bt = Inr (bt\<lparr>slot_mapping := slots\<rparr>)"
    using n room token_slot_value(1) [OF ok cp fit blocks]
    by (simp add: compute_slot_mapping_def assign_slice_def slots_def list_all_length)
  have slot: "slots ! i = token_slot bt (reqs ! i, positions ! i)" if "i < length reqs" for i
    using that n by (simp add: slots_def nth_append)
  note facts = token_slot_facts [OF ok cp fit blocks, unfolded snd_conv]
  have sm: "slot_mapping (bt\<lparr>slot_mapping := slots\<rparr>) = slots" by simp
  show ?thesis
  proof (intro exI [of _ "bt\<lparr>slot_mapping := slots\<rparr>"] conjI allI impI run, simp_all only: sm)
    fix i assume i: "i < length reqs"
    show "(slots ! i \<noteq> -1) = is_local bt (positions ! i)" unfolding slot [OF i] by (rule facts(1) [OF i])
    assume s: "slots ! i \<noteq> -1"
    show "slots ! i div int (bt_block_size bt) = int (block_of bt (reqs ! i, positions ! i))"
      using facts(2) [OF i] s unfolding slot [OF i] by blast
    fix j assume j: "j < length reqs" "slots ! j = slots ! i"
    show "block_of bt (reqs ! j, positions ! j) = block_of bt (reqs ! i, positions ! i)"
      "positions ! j mod virtual_block_size bt = positions ! i mod virtual_block_size bt"
      using same_slot [OF ok cp fit blocks [OF i] blocks [OF j(1)]] s j(2) unfolding slot [OF i] slot [OF j(1)] by simp_all
  qed
qed

text \<open>Two ranks, blocks of four tokens that the kernel sees as blocks of two, on the second rank.\<close>

definition small_table :: "nat \<Rightarrow> nat \<Rightarrow> block_table" where
  "small_table rank interleave =
     \<lparr>bt_block_size = 2, blocks_per_kv_block = 2, max_num_blocks_per_req = 4,
      block_rows = [[2, 3, 0, 0], [6, 7, 4, 5]], num_blocks_per_row = [2, 4], slot_mapping = [0, 0, 0, 0, 0],
      bt_pcp_world = 1, bt_pcp_rank = 0, bt_dcp_world = 2, bt_dcp_rank = rank, cp_interleave = interleave\<rparr>"

lemmas small_table_defs = small_table_def table_ok_def cp_ok_def slots_fit_def rows_of_def has_block_def block_of_def
  is_local_def virtual_block_size_def total_cp_world_size_def total_cp_rank_def block_offset_def table_index_def
  token_slot_def assign_slice_def compute_slot_mapping_def

theorem slots_distinct_witness:
  "\<exists>bt'. compute_slot_mapping [0, 1, 1] [3, 1, 14] (small_table 1 2) = Inr bt' \<and> slot_mapping bt' ! 2 \<noteq> -1 \<and>
     slot_mapping bt' ! 2 div 2 = 5"
proof -
  have e: "table_ok (small_table 1 2)" "cp_ok (small_table 1 2)" "slots_fit (small_table 1 2)"
    "is_local (small_table 1 2) 14" "block_of (small_table 1 2) (1, 14) = 5" "bt_block_size (small_table 1 2) = 2"
    "length (slot_mapping (small_table 1 2)) = 5"
    by (simp_all add: small_table_defs)
  have b: "has_block (small_table 1 2) ([0, 1, 1] ! i, [3, 1, 14] ! i)" if "i < length [0, 1, 1 :: nat]" for i
  proof -
    have "i \<in> {0, 1, 2}" using that by auto
    then show ?thesis by (auto simp: small_table_defs)
  qed
  obtain bt' where bt': "compute_slot_mapping [0, 1, 1] [3, 1, 14] (small_table 1 2) = Inr bt'"
    "slot_mapping bt' ! 2 \<noteq> -1 \<longleftrightarrow> is_local (small_table 1 2) ([3, 1, 14] ! 2)"
    "slot_mapping bt' ! 2 \<noteq> -1 \<longrightarrow>
      slot_mapping bt' ! 2 div int (bt_block_size (small_table 1 2)) = int (block_of (small_table 1 2) ([0, 1, 1] ! 2, [3, 1, 14] ! 2))"
    using slots_distinct [OF e(1,2,3) _ _ b] e(7) by auto
  then show ?thesis using e by simp
qed

text \<open>
  The start-up checks compare the interleave size with the block size of the manager, here four, and
  not with that of the kernel: two tokens of a request then get one slot, and the other rank
  stores nothing.
\<close>

lemma kernel_interleave_collision:
  "map_sum id slot_mapping (compute_slot_mapping [1, 1, 1, 1, 1] [0, 1, 2, 3, 4] (small_table 0 4)) = Inr [12, 13, 14, 15, 14] \<and>
   map_sum id slot_mapping (compute_slot_mapping [1, 1, 1, 1, 1] [0, 1, 2, 3, 4] (small_table 1 4)) = Inr [-1, -1, -1, -1, -1]"
  by (simp add: small_table_defs Let_def)

theorem block_table_refines_lists_witness:
  "\<exists>bt'. fold_res table_op [AddRow [3] 0, AppendRow [5] 0, MoveRow 0 1, AddRow [1] 0, SwapRow 0 1] (small_table 0 2) = Inr bt' \<and>
     rows_of bt' = [[6, 7, 10, 11], [2, 3]]"
proof -
  have k: "map_to_kernel_blocks [b] 2 = [b * 2, b * 2 + 1]" for b by (simp add: map_to_kernel_blocks_def upt_conv_Cons)
  have "table_ok (small_table 0 2)" by code_simp
  moreover have "list_run (blocks_per_kv_block (small_table 0 2)) (max_num_blocks_per_req (small_table 0 2))
      [AddRow [3] 0, AppendRow [5] 0, MoveRow 0 1, AddRow [1] 0, SwapRow 0 1] (rows_of (small_table 0 2)) = Some [[6, 7, 10, 11], [2, 3]]"
    by (simp add: small_table_def rows_of_def room_def k)
  ultimately show ?thesis using block_table_refines_lists by blast
qed

end
