(* ===== verification/Spec2Isabelle.thy ===== *)
theory Spec2Isabelle
  imports KV_External KV_Limits Sched_Sessions Ngram Detokenizer HY3_Reasoning HY3_Arguments Block_Table
begin

text \<open>
  A verification of the core of the vLLM V1 engine as it is vendored in this repository, for the
  HY3 model: the management of the KV cache, the scheduler with the engine loop around it, the set-up of
  the cache at start, and the parts that turn sampled tokens into the answer of the model. All paths
  below are relative to \<^verbatim>\<open>src/vllm/vllm\<close>.

  \<^bold>\<open>The program.\<close> The engine loop (\<^verbatim>\<open>v1/engine/core.py\<close>) asks the scheduler
  (\<^verbatim>\<open>v1/core/sched/scheduler.py\<close>) for a batch, has the workers run the model on it and gives the
  sampled tokens back to the scheduler. The scheduler keeps the requests in queues and decides how many
  tokens of each are computed in a step. It gets the room for them from the KV cache manager
  (\<^verbatim>\<open>v1/core/kv_cache_manager.py\<close>), which asks a coordinator of the cache groups, which asks one manager
  per group, all of which share one block pool; the pool keeps its free blocks in a linked list and the
  cached blocks in a map from hashes. Encoder outputs of multimodal inputs have a cache of their own. The
  workers translate the block ids of a request into slots of the cache. Text is made of the
  tokens by the detokenizer, and the parsers of the model split it into reasoning, content and tool
  calls.

  \<^bold>\<open>Conventions.\<close> Python's integers are \<open>int\<close>, or \<open>nat\<close> where the code never goes below zero; machine
  integers, where the code has them (block ids of 32 bits on the workers, bytes of a hash), are words. Every
  exception is a value of \<open>py_error\<close> and every operation that may fail returns a \<open>'a res\<close>, the sum of
  the two. Objects that are shared are numbers into a store: blocks are indices into the list of
  blocks of the pool, requests are names in the field \<open>objects\<close> of the scheduler. Records have the fields of
  the Python classes, with a prefix where two of them clash.

  \<^bold>\<open>The theories.\<close>

  \<^item> \<^verbatim>\<open>Prelude\<close>: results, exceptions, loops over results with their rules, indexing and slicing of lists,
    \<^verbatim>\<open>utils/math_utils.py\<close>. \<^verbatim>\<open>Py_Text\<close>: strings and the methods of \<^verbatim>\<open>str\<close>. \<^verbatim>\<open>Heapq\<close>: Python's \<^verbatim>\<open>heapq\<close>.
  \<^item> \<^verbatim>\<open>Free_Queue\<close>: \<^verbatim>\<open>FreeKVCacheBlockQueue\<close> of \<^verbatim>\<open>v1/core/kv_cache_utils.py\<close>, a doubly linked list in a store of
    nodes; every operation does to the pointers what it does to an abstract list.
  \<^item> \<^verbatim>\<open>Requests\<close>: \<^verbatim>\<open>v1/request.py\<close> and the data it refers to. \<^verbatim>\<open>Block_Hash\<close>: the hashes of the blocks
    of a request with their extra keys; equal hashes mean equal prefixes unless the inputs hashed for the
    two requests exhibit a collision, and growing a request keeps them right. \<^verbatim>\<open>Block_Map\<close>: \<^verbatim>\<open>BlockHashToBlockMap\<close>.
  \<^item> \<^verbatim>\<open>Block_Pool\<close>: \<^verbatim>\<open>v1/core/block_pool.py\<close>; the invariant \<open>pool_ok\<close> ties reference counts, the free queue
    and the map together, and every operation keeps it.
  \<^item> \<^verbatim>\<open>KV_Manager\<close> and \<^verbatim>\<open>Cache_Hit\<close>: \<^verbatim>\<open>v1/core/single_type_kv_cache_manager.py\<close>, the managers of all attention
    types and the lookups of the longest cached prefix.
  \<^item> \<^verbatim>\<open>KV_Coordinator\<close>, \<^verbatim>\<open>Hybrid_Hit\<close> and \<^verbatim>\<open>KV_Admission\<close>: \<^verbatim>\<open>v1/core/kv_cache_coordinator.py\<close>, the coordinators,
    the fixed point iteration of the prefix lookup over several groups, and allocation lifted from one manager
    to all of them.
  \<^item> \<^verbatim>\<open>KV_Cache_Manager\<close>, \<^verbatim>\<open>KV_Runs\<close> and \<^verbatim>\<open>KV_External\<close>: the interface of the scheduler to the cache, the states it
    can reach (\<open>kvm_step\<close>), and what external tokens do to it.
  \<^item> \<^verbatim>\<open>KV_Spec\<close>, \<^verbatim>\<open>KV_Config\<close>, \<^verbatim>\<open>KV_Grouping\<close>, \<^verbatim>\<open>KV_Sizing\<close>, \<^verbatim>\<open>KV_Tensors\<close> and \<^verbatim>\<open>KV_Limits\<close>: the set-up at start,
    \<^verbatim>\<open>v1/kv_cache_interface.py\<close> and the second half of \<^verbatim>\<open>v1/core/kv_cache_utils.py\<close>: specs of the layers, their
    division into groups, the longest model that fits, the tensors, and what the checks let pass.
  \<^item> \<^verbatim>\<open>Request_Queue\<close>: \<^verbatim>\<open>v1/core/sched/request_queue.py\<close>. \<^verbatim>\<open>Sched_Utils\<close>: the stop checks of
    \<^verbatim>\<open>v1/core/sched/utils.py\<close>. \<^verbatim>\<open>Encoder_Cache\<close>: \<^verbatim>\<open>v1/core/encoder_cache_manager.py\<close>. \<^verbatim>\<open>Sched_Output\<close>: the messages
    between scheduler, workers and front end.
  \<^item> \<^verbatim>\<open>Sched_State\<close>, \<^verbatim>\<open>Sched_Encoder\<close>, \<^verbatim>\<open>Sched_Running\<close>, \<^verbatim>\<open>Sched_Waiting\<close>, \<^verbatim>\<open>Sched_Step\<close>, \<^verbatim>\<open>Sched_Update\<close> and
    \<^verbatim>\<open>Sched_Results\<close>: the scheduler, in the order of \<^verbatim>\<open>v1/core/sched/scheduler.py\<close>: its state, the plan of the
    encoder inputs, the running requests, the waiting requests, the output, arrivals and aborts, and
    \<^verbatim>\<open>update_from_output\<close>; with \<^verbatim>\<open>v1/core/sched/async_scheduler.py\<close>.
  \<^item> \<^verbatim>\<open>Sched_Invariant\<close>, \<^verbatim>\<open>Sched_Limits\<close>, \<^verbatim>\<open>Sched_Queues\<close>: the invariants of these operations. \<^verbatim>\<open>Engine_Core\<close>: the loop of
    \<^verbatim>\<open>v1/engine/core.py\<close> as a relation \<open>engine_op\<close> between states, and what all reachable states have.
    \<^verbatim>\<open>Sched_Sessions\<close>: streaming sessions.
  \<^item> \<^verbatim>\<open>Block_Table\<close>: \<^verbatim>\<open>v1/worker/block_table.py\<close>. \<^verbatim>\<open>Ngram\<close>: \<^verbatim>\<open>v1/spec_decode/ngram_proposer.py\<close>.
  \<^item> \<^verbatim>\<open>Detokenizer\<close>: \<^verbatim>\<open>v1/engine/detokenizer.py\<close>. \<^verbatim>\<open>HY3_Reasoning\<close>: \<^verbatim>\<open>reasoning/hy_v3_reasoning_parser.py\<close> and
    \<^verbatim>\<open>reasoning/basic_parsers.py\<close>. \<^verbatim>\<open>HY3_Tool\<close>, \<^verbatim>\<open>HY3_Types\<close>, \<^verbatim>\<open>HY3_Stream\<close> and \<^verbatim>\<open>HY3_Arguments\<close>:
    \<^verbatim>\<open>tool_parsers/hy_v3_tool_parser.py\<close>, for whole outputs, the types of values, for streams, and the
    agreement of the two.
\<close>

text \<open>
  \<^bold>\<open>Interfaces.\<close> Four locales state what one component promises to another, each interpreted on the model's
  own definitions. \<open>eviction_queue\<close> is what the block pool relies on in the free queue: blocks are taken
  from the front and put back at the end (\<open>lq\<close> in \<^verbatim>\<open>Free_Queue\<close>). \<open>block_cache\<close> is what it relies on in
  the map of cached blocks (\<open>bm\<close> in \<^verbatim>\<open>Block_Map\<close>). \<open>heap_order\<close> is an order for a heap, and every such order
  gives a \<open>request_queue\<close> by a sublocale; the scheduler's queue of both policies is one (\<open>fcfs\<close>, \<open>ro\<close> and
  \<open>rq\<close> in \<^verbatim>\<open>Request_Queue\<close>).

  \<^bold>\<open>What is proved.\<close> Invariants come first: of the pool, the managers, the KV cache manager in every state that it
  can reach, the queues of the scheduler in every state that the engine can reach. On them rest the theorems
  that matter to a caller: without external tokens, allocation gives a request its slots or refuses it exactly for
  lack of free blocks and never raises; without a batch queue no request is lost; a step stays within its budgets
  and its closing assertions hold. Every theorem names the conditions it needs in the text before it; where
  a weaker condition fails, a theorem on a small or an arbitrary state shows how. Optimised
  routines are compared with what they stand for: the heap with a sorted list, the incremental search for stop
  strings with a search of the whole text, the failure function of the n-gram search with the first
  occurrence of the longest suffix, the block table with lists of ids, the streams of reasoning
  and tool calls with a parse of the whole output, the binary search with the longest fitting length.

  \<^bold>\<open>Loops.\<close> Most loops are structural or have a measure. Loops over pointers or to a fixed point are partial functions
  into \<open>option\<close> and proved to return under the invariant: \<open>walk\<close> over the free list, \<open>hasher_loop\<close>, \<open>hybrid_loop\<close> (each
  round but the last shortens the hit) and \<open>lps_loop\<close>. Where such a loop stands inside an
  operation with results, not returning is the error \<open>NoReturn\<close>, which the theorems then rule out. The loops over the text
  of a tool call take the length of the text as fuel; each round consumes a tag, so that more fuel changes
  nothing (the lemmas at the end of \<^verbatim>\<open>HY3_Types\<close>).

  \<^bold>\<open>Parameters.\<close> Code outside the repository is an argument: hash functions and serialisation in \<^verbatim>\<open>Block_Hash\<close>; the KV
  connector, the encoder cache connector and the structured output manager in the record \<open>environment\<close> of the scheduler, with no assumption on
  their answers beyond what a theorem names; the tokenizer's decoding of one token; \<^verbatim>\<open>json.loads\<close>, \<^verbatim>\<open>ast.literal_eval\<close>,
  \<^verbatim>\<open>int\<close> and \<^verbatim>\<open>float\<close> on the text of an argument.

  \<^bold>\<open>Left out.\<close> Statistics, metrics and log messages; KV cache events beyond those that the pool itself records; log probabilities
  and routed experts; the insides of KV connectors and of the grammar back ends; \<^verbatim>\<open>v1/engine/output_processor.py\<close> with its
  asynchronous queues; the random ids of tool calls; sockets, processes and the front ends; and everything that computes on
  tensors: models, layers, kernels, sampling and the rejection sampler, copies to the device.
\<close>

end
